(* ===== verification/Prelude.thy ===== *)
theory Prelude
  imports Main "HOL-Library.Word"
begin

text \<open>
  Shared vocabulary of the development: the fixed-width integer types of the C sources,
  the big-endian encoders and decoders that several files of the runtime define for
  themselves (vfst.c, savext.c, aram.c), byte-addressed stores with ranged reads and
  writes, and the generic lemmas on them that the component theories use through the
  collections \<open>be_simps\<close> and \<open>store_simps\<close>.
\<close>

unbundle bit_operations_syntax

named_theorems be_simps \<open>encoding and decoding of big-endian integers\<close>
named_theorems store_simps \<open>reads and writes of byte ranges\<close>

section \<open>Machine integers\<close>

type_synonym u8 = "8 word"
type_synonym u16 = "16 word"
type_synonym u32 = "32 word"
type_synonym u64 = "64 word"

text \<open>C's truth value of an unsigned integer.\<close>

abbreviation nonzero :: "'a::len word \<Rightarrow> bool" where
  "nonzero w \<equiv> w \<noteq> 0"

section \<open>Big-endian encodings\<close>

definition put16 :: "u32 \<Rightarrow> u8 list" where
  "put16 v = [ucast (drop_bit 8 v), ucast v]"

definition get16 :: "u8 \<Rightarrow> u8 \<Rightarrow> u32" where
  "get16 a b = push_bit 8 (ucast a) OR ucast b"

definition put32 :: "u32 \<Rightarrow> u8 list" where
  "put32 v = [ucast (drop_bit 24 v), ucast (drop_bit 16 v), ucast (drop_bit 8 v), ucast v]"

definition get32 :: "u8 \<Rightarrow> u8 \<Rightarrow> u8 \<Rightarrow> u8 \<Rightarrow> u32" where
  "get32 a b c d =
     push_bit 24 (ucast a) OR push_bit 16 (ucast b) OR push_bit 8 (ucast c) OR ucast d"

definition put64 :: "u64 \<Rightarrow> u8 list" where
  "put64 v = map (\<lambda>i. ucast (drop_bit (56 - 8 * i) v)) [0..<8]"

definition get64 :: "u8 list \<Rightarrow> u64" where
  "get64 bs = foldl (\<lambda>acc b. push_bit 8 acc OR ucast b) 0 bs"

lemma length_put [simp]:
  "length (put16 v) = 2" "length (put32 v) = 4" "length (put64 w) = 8"
  by (simp_all add: put16_def put32_def put64_def)

lemma get16_put16 [be_simps]: "put16 (get16 a b) = [a, b]"
  unfolding get16_def put16_def
  by (simp; intro conjI; rule bit_word_eqI) (auto simp: bit_simps dest: bit_imp_le_length)

lemma put16_get16 [be_simps]:
  "get16 (ucast (drop_bit 8 v)) (ucast v) = v AND 0xFFFF"
proof (rule bit_word_eqI)
  fix n
  assume n: "n < LENGTH(32)"
  have m: "(0xFFFF :: u32) = mask 16"
    by (simp add: mask_eq_exp_minus_1)
  show "bit (get16 (ucast (drop_bit 8 v)) (ucast v)) n = bit (v AND 0xFFFF) n"
    using n unfolding get16_def m
    by (cases "n < 8"; cases "n < 16"; simp add: bit_simps; linarith?)
qed

lemma get32_put32 [be_simps]: "put32 (get32 a b c d) = [a, b, c, d]"
  unfolding get32_def put32_def
  by (simp; intro conjI; rule bit_word_eqI) (auto simp: bit_simps dest: bit_imp_le_length)

lemma put32_get32 [be_simps]:
  "get32 (ucast (drop_bit 24 v)) (ucast (drop_bit 16 v)) (ucast (drop_bit 8 v)) (ucast v) = v"
proof (rule bit_word_eqI)
  fix n
  assume "n < LENGTH(32)"
  then show "bit (get32 (ucast (drop_bit 24 v)) (ucast (drop_bit 16 v))
      (ucast (drop_bit 8 v)) (ucast v)) n = bit v n"
    unfolding get32_def
    by (cases "n < 8"; cases "n < 16"; cases "n < 24"; simp add: bit_simps; linarith?)
qed

lemma put32_inject [simp]: "put32 v = put32 w \<longleftrightarrow> v = w"
proof
  assume "put32 v = put32 w"
  then have "get32 (ucast (drop_bit 24 v)) (ucast (drop_bit 16 v)) (ucast (drop_bit 8 v)) (ucast v)
    = get32 (ucast (drop_bit 24 w)) (ucast (drop_bit 16 w)) (ucast (drop_bit 8 w)) (ucast w)"
    by (simp add: put32_def)
  then show "v = w" by (simp add: be_simps)
qed simp

text \<open>The four bytes at the head of a list, read as the word that \<open>put32\<close> wrote.\<close>

definition get32_at :: "u8 list \<Rightarrow> nat \<Rightarrow> u32" where
  "get32_at bs i = get32 (bs ! i) (bs ! (i + 1)) (bs ! (i + 2)) (bs ! (i + 3))"

definition get16_at :: "u8 list \<Rightarrow> nat \<Rightarrow> u32" where
  "get16_at bs i = get16 (bs ! i) (bs ! (i + 1))"

lemma get32_at_put32 [be_simps]: "get32_at (xs @ put32 v @ ys) (length xs) = v"
  by (simp add: get32_at_def put32_def nth_append be_simps)

lemma get16_at_put16 [be_simps]: "get16_at (xs @ put16 v @ ys) (length xs) = v AND 0xFFFF"
  by (simp add: get16_at_def put16_def nth_append be_simps)

section \<open>Byte stores\<close>

text \<open>A store maps addresses to bytes; a read takes \<open>n\<close> bytes, a write lays a list down.\<close>

definition rd_bytes :: "(nat \<Rightarrow> 'b) \<Rightarrow> nat \<Rightarrow> nat \<Rightarrow> 'b list" where
  "rd_bytes m a n = map (\<lambda>i. m (a + i)) [0..<n]"

definition wr_bytes :: "(nat \<Rightarrow> 'b) \<Rightarrow> nat \<Rightarrow> 'b list \<Rightarrow> (nat \<Rightarrow> 'b)" where
  "wr_bytes m a bs = (\<lambda>x. if a \<le> x \<and> x < a + length bs then bs ! (x - a) else m x)"

lemma length_rd_bytes [simp]: "length (rd_bytes m a n) = n"
  by (simp add: rd_bytes_def)

lemma nth_rd_bytes [simp]: "i < n \<Longrightarrow> rd_bytes m a n ! i = m (a + i)"
  by (simp add: rd_bytes_def)

lemma rd_wr_same [store_simps]: "n = length bs \<Longrightarrow> rd_bytes (wr_bytes m a bs) a n = bs"
  by (rule nth_equalityI) (auto simp: wr_bytes_def)

lemma rd_wr_other [store_simps]:
  "b + n \<le> a \<or> a + length bs \<le> b \<Longrightarrow> rd_bytes (wr_bytes m a bs) b n = rd_bytes m b n"
  by (rule nth_equalityI) (auto simp: wr_bytes_def)

lemma wr_bytes_outside [store_simps]:
  "x < a \<or> a + length bs \<le> x \<Longrightarrow> wr_bytes m a bs x = m x"
  by (auto simp: wr_bytes_def)

lemma wr_bytes_inside [store_simps]:
  "i < length bs \<Longrightarrow> wr_bytes m a bs (a + i) = bs ! i"
  by (simp add: wr_bytes_def)

lemma wr_rd_same [store_simps]: "wr_bytes m a (rd_bytes m a n) = m"
  by (auto simp: wr_bytes_def fun_eq_iff)

lemma wr_bytes_Nil [simp]: "wr_bytes m a [] = m"
  by (auto simp: wr_bytes_def fun_eq_iff)

lemma rd_bytes_0 [simp]: "rd_bytes m a 0 = []"
  by (simp add: rd_bytes_def)

lemma rd_bytes_add: "rd_bytes m a (n + k) = rd_bytes m a n @ rd_bytes m (a + n) k"
  by (rule nth_equalityI) (auto simp: nth_append)

section \<open>Lists\<close>

text \<open>\<open>overlay_at xs i ys\<close> overwrites the cells of \<open>xs\<close> from \<open>i\<close> with \<open>ys\<close>: a
  \<open>memcpy\<close> into the middle of a buffer.\<close>

definition overlay_at :: "'a list \<Rightarrow> nat \<Rightarrow> 'a list \<Rightarrow> 'a list" where
  "overlay_at xs i ys = take i xs @ ys @ drop (i + length ys) xs"

lemma length_overlay_at [simp]:
  "i + length ys \<le> length xs \<Longrightarrow> length (overlay_at xs i ys) = length xs"
  by (simp add: overlay_at_def)

lemma nth_overlay_at:
  "i + length ys \<le> length xs \<Longrightarrow> k < length xs \<Longrightarrow>
   overlay_at xs i ys ! k = (if i \<le> k \<and> k < i + length ys then ys ! (k - i) else xs ! k)"
  by (auto simp: overlay_at_def nth_append min_def)

lemma list_eq_append_takeD: "xs = ys @ zs \<Longrightarrow> take (length ys) xs = ys"
  by simp

section \<open>Words\<close>

lemma unat_add_le: "unat a + k < 2 ^ LENGTH('a::len) \<Longrightarrow> unat ((a :: 'a word) + of_nat k) = unat a + k"
  by (simp add: unat_word_ariths unat_of_nat)

lemma of_nat_inj_on_word:
  "i < 2 ^ LENGTH('a::len) \<Longrightarrow> j < 2 ^ LENGTH('a) \<Longrightarrow> (of_nat i :: 'a word) = of_nat j \<longleftrightarrow> i = j"
  by (metis unat_of_nat mod_less)

lemma word_and_mask_mod: "unat ((w :: 'a::len word) AND mask n) = unat w mod 2 ^ n"
proof -
  have "unat (take_bit n w) = take_bit n (unat w)"
    by (rule unsigned_take_bit_eq)
  then show ?thesis
    by (simp only: flip: take_bit_eq_mask take_bit_eq_mod)
qed

lemma word_nonzero_bit: "(w :: 'a::len word) \<noteq> 0 \<Longrightarrow> \<exists>n. bit w n"
  by (rule ccontr) (auto intro: bit_eqI)

lemma bit_above_unat:
  assumes "unat (w :: 'a::len word) < 2 ^ n" "n \<le> m"
  shows "\<not> bit w m"
proof
  assume b: "bit w m"
  then have "bit (unat w) m"
    by (simp only: bit_unsigned_iff) (use bit_imp_le_length [OF b] in auto)
  then have "odd (unat w div 2 ^ m)"
    by (rule bit_iff_odd [THEN iffD1])
  then have "unat w div 2 ^ m \<noteq> 0"
    by (rule contrapos_nn) simp
  moreover have "unat w < 2 ^ m"
    using assms less_le_trans [of "unat w" "2 ^ n" "2 ^ m"] by simp
  ultimately show False by simp
qed

section \<open>Words as numbers\<close>

lemma unat_u8: "unat (b :: u8) < 256"
  using unsigned_less [of b] by simp

lemma unat_ucast_u8: "unat (ucast (b :: u8) :: u32) = unat b"
proof -
  have "unat b < 2 ^ 32" using unat_u8 [of b] by simp
  then show ?thesis by (simp only: unsigned_ucast_eq take_bit_eq_mod) simp
qed

text \<open>A big-endian word is the number its bytes write in base 256.\<close>

lemma unat_get32: "unat (get32 a b c d) = ((unat a * 256 + unat b) * 256 + unat c) * 256 + unat d"
proof -
  have hi: "\<not> bit (ucast (x :: u8) :: u32) n" if "8 \<le> n" for x n
    using that by (auto simp: bit_simps dest: bit_imp_le_length)
  let ?a = "push_bit 24 (ucast a) :: u32" and ?b = "push_bit 16 (ucast b) :: u32"
    and ?c = "push_bit 8 (ucast c) :: u32" and ?d = "ucast d :: u32"
  have "?c OR ?d = ?c + ?d"
    by (rule disjunctive_add [symmetric]) (auto simp: bit_simps dest: bit_imp_le_length)
  moreover have "?b OR (?c OR ?d) = ?b + (?c OR ?d)"
    by (rule disjunctive_add [symmetric]) (auto simp: bit_simps dest!: bit_imp_le_length)
  moreover have "?a OR (?b OR (?c OR ?d)) = ?a + (?b OR (?c OR ?d))"
    by (rule disjunctive_add [symmetric]) (auto simp: bit_simps dest!: bit_imp_le_length)
  ultimately have sum: "get32 a b c d = ?a + (?b + (?c + ?d))"
    unfolding get32_def by (simp only: or.assoc)
  show ?thesis
    unfolding sum using unat_u8 [of a] unat_u8 [of b] unat_u8 [of c] unat_u8 [of d]
    by (simp add: push_bit_eq_mult unat_word_ariths unat_ucast_u8)
qed

lemma get32_inject: "get32 a b c d = get32 a' b' c' d' \<longleftrightarrow> a = a' \<and> b = b' \<and> c = c' \<and> d = d'"
proof
  assume "get32 a b c d = get32 a' b' c' d'"
  then have "put32 (get32 a b c d) = put32 (get32 a' b' c' d')" by simp
  then show "a = a' \<and> b = b' \<and> c = c' \<and> d = d'" by (simp add: be_simps)
qed simp

lemma get32_less:
  "get32 a b c d < get32 a' b' c' d' \<longleftrightarrow>
     a < a' \<or> a = a' \<and> (b < b' \<or> b = b' \<and> (c < c' \<or> c = c' \<and> d < d'))"
proof -
  have step: "x * 256 + unat (y :: u8) < x' * 256 + unat y' \<longleftrightarrow> x < x' \<or> x = x' \<and> unat y < unat y'"
    for x x' and y y' :: u8
    using unat_u8 [of y] unat_u8 [of y'] by linarith
  show ?thesis
    unfolding word_less_nat_alt unat_get32 step word_unat_eq_iff
    using unat_u8 [of b] unat_u8 [of b'] unat_u8 [of c] unat_u8 [of c'] by auto
qed

text \<open>A bit of a word built from an integer, by the integer's remainder.\<close>

lemma bit_word_of_int_mod:
  "n < LENGTH('a::len) \<Longrightarrow> bit (word_of_int z :: 'a word) n \<longleftrightarrow> 2 ^ n \<le> z mod 2 ^ Suc n"
proof -
  assume "n < LENGTH('a)"
  then have "bit (word_of_int z :: 'a word) n \<longleftrightarrow> odd (z div 2 ^ n)"
    by (simp only: bit_word_of_int_iff bit_iff_odd [of z] simp_thms)
  moreover have "z mod 2 ^ Suc n = 2 ^ n * (z div 2 ^ n mod 2) + z mod 2 ^ n"
    using zmod_zmult2_eq [of "2" z "2 ^ n"] by (simp add: mult.commute)
  moreover have "0 \<le> z mod 2 ^ n" "\<not> 2 ^ n \<le> z mod 2 ^ n" by (simp_all add: not_le)
  moreover have "z div 2 ^ n mod 2 = 0 \<or> z div 2 ^ n mod 2 = 1" by auto
  ultimately show ?thesis by (auto simp: odd_iff_mod_2_eq_one)
qed

end
