(* ===== verification/GuestMem.thy ===== *)
theory GuestMem
  imports Prelude "HOL-Library.Signed_Division"
begin

text \<open>
  runtime/cpu.h: the guest CPU state and its memory. The 24 MB of console RAM are the
  head of a 32 MB image in console (big-endian) byte order; an effective address reaches
  it by masking alone, so the cached, uncached and real-mode windows are the same bytes,
  and the hardware range (top byte CC or E0) goes to the device models instead. The
  devices are the parameter \<open>io\<close> of every access: they may read and change the whole state
  (a DMA writes guest memory). Doubles are held as their bit patterns.
\<close>

section \<open>State\<close>

definition MEM1_SIZE :: nat where "MEM1_SIZE = 0x01800000"
definition MEM_MASK :: u32 where "MEM_MASK = 0x01FFFFFF"
definition MEM_IMAGE_SIZE :: nat where "MEM_IMAGE_SIZE = unat MEM_MASK + 1 + 32"

record 'd cpu =
  gpr :: "nat \<Rightarrow> u32"
  fpr :: "nat \<Rightarrow> u64 \<times> u64"
  cr :: u32
  xer :: u32
  lr :: u32
  ctr :: u32
  fpscr :: u32
  msr :: u32
  decr :: u32
  pc :: u32
  gqr :: "nat \<Rightarrow> u32"
  hid2 :: u32
  wpar :: u32
  spr :: "nat \<Rightarrow> u32"
  sr :: "nat \<Rightarrow> u32"
  mem :: "nat \<Rightarrow> u8"
  user :: 'd

text \<open>The device models behind the hardware range: size, address and value of an access.\<close>

record 's mmio_ops =
  mmio_read :: "nat \<Rightarrow> u32 \<Rightarrow> 's \<Rightarrow> u64 \<times> 's"
  mmio_write :: "nat \<Rightarrow> u32 \<Rightarrow> u64 \<Rightarrow> 's \<Rightarrow> 's"
  gx_pipe_write :: "nat \<Rightarrow> u64 \<Rightarrow> 's \<Rightarrow> 's"

type_synonym 'd io = "'d cpu mmio_ops"

section \<open>Memory\<close>

definition is_mmio :: "u32 \<Rightarrow> bool" where
  "is_mmio ea = (let hi = drop_bit 24 ea in hi = 0xCC \<or> hi = 0xE0)"

definition mem_ptr :: "u32 \<Rightarrow> nat" where
  "mem_ptr ea = unat (ea AND MEM_MASK)"

definition is_gather_pipe :: "u32 \<Rightarrow> bool" where
  "is_gather_pipe ea = (ea AND 0xFFFFFF00 = 0xCC008000)"

definition mem_r8 :: "'d io \<Rightarrow> u32 \<Rightarrow> 'd cpu \<Rightarrow> u8 \<times> 'd cpu" where
  "mem_r8 io ea s =
     (if is_mmio ea then (case mmio_read io 1 ea s of (v, s') \<Rightarrow> (ucast v, s'))
      else (mem s (mem_ptr ea), s))"

definition mem_r16 :: "'d io \<Rightarrow> u32 \<Rightarrow> 'd cpu \<Rightarrow> u16 \<times> 'd cpu" where
  "mem_r16 io ea s =
     (if is_mmio ea then (case mmio_read io 2 ea s of (v, s') \<Rightarrow> (ucast v, s'))
      else (let p = mem_ptr ea in (ucast (get16 (mem s p) (mem s (p + 1))), s)))"

definition mem_r32 :: "'d io \<Rightarrow> u32 \<Rightarrow> 'd cpu \<Rightarrow> u32 \<times> 'd cpu" where
  "mem_r32 io ea s =
     (if is_mmio ea then (case mmio_read io 4 ea s of (v, s') \<Rightarrow> (ucast v, s'))
      else (let p = mem_ptr ea
            in (get32 (mem s p) (mem s (p + 1)) (mem s (p + 2)) (mem s (p + 3)), s)))"

definition mem_r64 :: "'d io \<Rightarrow> u32 \<Rightarrow> 'd cpu \<Rightarrow> u64 \<times> 'd cpu" where
  "mem_r64 io ea s =
     (if is_mmio ea then mmio_read io 8 ea s
      else (get64 (rd_bytes (mem s) (mem_ptr ea) 8), s))"

definition mem_w8 :: "'d io \<Rightarrow> u32 \<Rightarrow> u8 \<Rightarrow> 'd cpu \<Rightarrow> 'd cpu" where
  "mem_w8 io ea v s =
     (if is_mmio ea then
        (if is_gather_pipe ea then gx_pipe_write io 1 (ucast v) s
         else mmio_write io 1 ea (ucast v) s)
      else s\<lparr>mem := (mem s)(mem_ptr ea := v)\<rparr>)"

definition mem_w16 :: "'d io \<Rightarrow> u32 \<Rightarrow> u16 \<Rightarrow> 'd cpu \<Rightarrow> 'd cpu" where
  "mem_w16 io ea v s =
     (if is_mmio ea then
        (if is_gather_pipe ea then gx_pipe_write io 2 (ucast v) s
         else mmio_write io 2 ea (ucast v) s)
      else s\<lparr>mem := wr_bytes (mem s) (mem_ptr ea) (put16 (ucast v))\<rparr>)"

definition mem_w32 :: "'d io \<Rightarrow> u32 \<Rightarrow> u32 \<Rightarrow> 'd cpu \<Rightarrow> 'd cpu" where
  "mem_w32 io ea v s =
     (if is_mmio ea then
        (if is_gather_pipe ea then gx_pipe_write io 4 (ucast v) s
         else mmio_write io 4 ea (ucast v) s)
      else s\<lparr>mem := wr_bytes (mem s) (mem_ptr ea) (put32 v)\<rparr>)"

definition mem_w64 :: "'d io \<Rightarrow> u32 \<Rightarrow> u64 \<Rightarrow> 'd cpu \<Rightarrow> 'd cpu" where
  "mem_w64 io ea v s =
     (if is_mmio ea then
        (if is_gather_pipe ea then gx_pipe_write io 8 v s
         else mmio_write io 8 ea v s)
      else s\<lparr>mem := wr_bytes (mem s) (mem_ptr ea) (put64 v)\<rparr>)"

definition mem_zero32 :: "u32 \<Rightarrow> 'd cpu \<Rightarrow> 'd cpu" where
  "mem_zero32 ea s =
     (if is_mmio ea then s
      else s\<lparr>mem := wr_bytes (mem s) (mem_ptr (ea AND NOT 31)) (replicate 32 0)\<rparr>)"

text \<open>lmw and stmw: the loop over registers \<open>rd .. 31\<close>, four bytes further each time.\<close>

fun ppc_lmw_loop :: "'d io \<Rightarrow> nat list \<Rightarrow> u32 \<Rightarrow> 'd cpu \<Rightarrow> 'd cpu" where
  "ppc_lmw_loop io [] ea s = s"
| "ppc_lmw_loop io (r # rs) ea s =
     (case mem_r32 io ea s of (v, s') \<Rightarrow>
        ppc_lmw_loop io rs (ea + 4) (s'\<lparr>gpr := (gpr s')(r := v)\<rparr>))"

definition ppc_lmw :: "'d io \<Rightarrow> nat \<Rightarrow> u32 \<Rightarrow> 'd cpu \<Rightarrow> 'd cpu" where
  "ppc_lmw io rd ea s = ppc_lmw_loop io [rd..<32] ea s"

fun ppc_stmw_loop :: "'d io \<Rightarrow> nat list \<Rightarrow> u32 \<Rightarrow> 'd cpu \<Rightarrow> 'd cpu" where
  "ppc_stmw_loop io [] ea s = s"
| "ppc_stmw_loop io (r # rs) ea s = ppc_stmw_loop io rs (ea + 4) (mem_w32 io ea (gpr s r) s)"

definition ppc_stmw :: "'d io \<Rightarrow> nat \<Rightarrow> u32 \<Rightarrow> 'd cpu \<Rightarrow> 'd cpu" where
  "ppc_stmw io rs ea s = ppc_stmw_loop io [rs..<32] ea s"

section \<open>Condition register and XER\<close>

definition cr_get_field :: "'d cpu \<Rightarrow> nat \<Rightarrow> u32" where
  "cr_get_field s f = drop_bit (28 - 4 * f) (cr s) AND 0xF"

definition cr_set_field :: "nat \<Rightarrow> u32 \<Rightarrow> 'd cpu \<Rightarrow> 'd cpu" where
  "cr_set_field f bits4 s =
     (let sh = 28 - 4 * f
      in s\<lparr>cr := (cr s AND NOT (push_bit sh 0xF)) OR push_bit sh (bits4 AND 0xF)\<rparr>)"

definition cr_bit :: "'d cpu \<Rightarrow> nat \<Rightarrow> u32" where
  "cr_bit s bi = drop_bit (31 - bi) (cr s) AND 1"

definition cr_set_bit :: "nat \<Rightarrow> bool \<Rightarrow> 'd cpu \<Rightarrow> 'd cpu" where
  "cr_set_bit bi v s =
     (let m = push_bit (31 - bi) 1
      in s\<lparr>cr := (if v then cr s OR m else cr s AND NOT m)\<rparr>)"

definition XER_SO :: u32 where "XER_SO = 0x80000000"
definition XER_CA :: u32 where "XER_CA = 0x20000000"

definition xer_ca :: "'d cpu \<Rightarrow> u32" where
  "xer_ca s = drop_bit 29 (xer s) AND 1"

definition xer_set_ca :: "u32 \<Rightarrow> 'd cpu \<Rightarrow> 'd cpu" where
  "xer_set_ca c s = s\<lparr>xer := (if nonzero c then xer s OR XER_CA else xer s AND NOT XER_CA)\<rparr>"

definition cr_cmp_s :: "nat \<Rightarrow> u32 \<Rightarrow> u32 \<Rightarrow> 'd cpu \<Rightarrow> 'd cpu" where
  "cr_cmp_s f a b s =
     (let c = (if sint a < sint b then 8 else if sint a > sint b then 4 else 2)
      in cr_set_field f (c OR (if nonzero (xer s AND XER_SO) then 1 else 0)) s)"

definition cr_cmp_u :: "nat \<Rightarrow> u32 \<Rightarrow> u32 \<Rightarrow> 'd cpu \<Rightarrow> 'd cpu" where
  "cr_cmp_u f a b s =
     (let c = (if a < b then 8 else if a > b then 4 else 2)
      in cr_set_field f (c OR (if nonzero (xer s AND XER_SO) then 1 else 0)) s)"

section \<open>Integer helpers\<close>

definition rotl32 :: "u32 \<Rightarrow> nat \<Rightarrow> u32" where
  "rotl32 v n = (let k = n mod 32 in if k \<noteq> 0 then push_bit k v OR drop_bit (32 - k) v else v)"

text \<open>A 64-bit sum: the carry-out is its bit 32, the result its low half.\<close>

definition carry_result :: "u64 \<Rightarrow> 'd cpu \<Rightarrow> u32 \<times> 'd cpu" where
  "carry_result r s = (ucast r, xer_set_ca (ucast (drop_bit 32 r)) s)"

definition ppc_addc :: "u32 \<Rightarrow> u32 \<Rightarrow> 'd cpu \<Rightarrow> u32 \<times> 'd cpu" where
  "ppc_addc a b s = carry_result (ucast a + ucast b) s"

definition ppc_adde :: "u32 \<Rightarrow> u32 \<Rightarrow> 'd cpu \<Rightarrow> u32 \<times> 'd cpu" where
  "ppc_adde a b s = carry_result (ucast a + ucast b + ucast (xer_ca s)) s"

definition ppc_subfc :: "u32 \<Rightarrow> u32 \<Rightarrow> 'd cpu \<Rightarrow> u32 \<times> 'd cpu" where
  "ppc_subfc a b s = carry_result (ucast (NOT a) + ucast b + 1) s"

definition ppc_subfe :: "u32 \<Rightarrow> u32 \<Rightarrow> 'd cpu \<Rightarrow> u32 \<times> 'd cpu" where
  "ppc_subfe a b s = carry_result (ucast (NOT a) + ucast b + ucast (xer_ca s)) s"

definition ppc_addze :: "u32 \<Rightarrow> 'd cpu \<Rightarrow> u32 \<times> 'd cpu" where
  "ppc_addze a s = carry_result (ucast a + ucast (xer_ca s)) s"

definition ppc_subfze :: "u32 \<Rightarrow> 'd cpu \<Rightarrow> u32 \<times> 'd cpu" where
  "ppc_subfze a s = carry_result (ucast (NOT a) + ucast (xer_ca s)) s"

definition ppc_addme :: "u32 \<Rightarrow> 'd cpu \<Rightarrow> u32 \<times> 'd cpu" where
  "ppc_addme a s = carry_result (ucast a + ucast (xer_ca s) + 0xFFFFFFFF) s"

definition ppc_subfme :: "u32 \<Rightarrow> 'd cpu \<Rightarrow> u32 \<times> 'd cpu" where
  "ppc_subfme a s = carry_result (ucast (NOT a) + ucast (xer_ca s) + 0xFFFFFFFF) s"

definition ppc_slw :: "u32 \<Rightarrow> u32 \<Rightarrow> u32" where
  "ppc_slw v n = (let k = unat (n AND 63) in if k < 32 then push_bit k v else 0)"

definition ppc_srw :: "u32 \<Rightarrow> u32 \<Rightarrow> u32" where
  "ppc_srw v n = (let k = unat (n AND 63) in if k < 32 then drop_bit k v else 0)"

definition ppc_srawi :: "u32 \<Rightarrow> nat \<Rightarrow> 'd cpu \<Rightarrow> u32 \<times> 'd cpu" where
  "ppc_srawi v sh s =
     (signed_drop_bit sh v,
      xer_set_ca (if sint v < 0 \<and> sh \<noteq> 0 \<and> nonzero (v AND (push_bit sh 1 - 1)) then 1 else 0) s)"

definition ppc_sraw :: "u32 \<Rightarrow> u32 \<Rightarrow> 'd cpu \<Rightarrow> u32 \<times> 'd cpu" where
  "ppc_sraw v n s =
     (let k = unat (n AND 63)
      in if k \<ge> 32 then (signed_drop_bit 31 v, xer_set_ca (if sint v < 0 then 1 else 0) s)
         else ppc_srawi v k s)"

text \<open>
  The normalising loop of cntlzw. It would spin on zero, which the code tests for first,
  so it is a partial function here and its result an option.
\<close>

partial_function (option) cntlzw_loop :: "u32 \<Rightarrow> nat \<Rightarrow> nat option" where
  "cntlzw_loop v n =
     (if nonzero (v AND 0x80000000) then Some n else cntlzw_loop (push_bit 1 v) (n + 1))"

definition ppc_cntlzw :: "u32 \<Rightarrow> nat option" where
  "ppc_cntlzw v = (if v = 0 then Some 32 else cntlzw_loop v 0)"

definition ppc_mulhw :: "u32 \<Rightarrow> u32 \<Rightarrow> u32" where
  "ppc_mulhw a b = ucast (signed_drop_bit 32 (scast a * scast b :: u64))"

definition ppc_mulhwu :: "u32 \<Rightarrow> u32 \<Rightarrow> u32" where
  "ppc_mulhwu a b = ucast (drop_bit 32 (ucast a * ucast b :: u64))"

definition ppc_divw :: "u32 \<Rightarrow> u32 \<Rightarrow> u32" where
  "ppc_divw a b =
     (let x = sint a; y = sint b
      in if y = 0 \<or> (x = - (2 ^ 31) \<and> y = -1)
         then (if y = 0 \<and> x < 0 then 0xFFFFFFFF else 0)
         else word_of_int (x sdiv y))"

definition ppc_divwu :: "u32 \<Rightarrow> u32 \<Rightarrow> u32" where
  "ppc_divwu a b = (if nonzero b then a div b else 0)"

section \<open>Floating-point registers as bits, and the quantisation scale\<close>

definition fpr_bits :: "'d cpu \<Rightarrow> nat \<Rightarrow> u64" where
  "fpr_bits s n = fst (fpr s n)"

definition fpr_set_bits :: "nat \<Rightarrow> u64 \<Rightarrow> 'd cpu \<Rightarrow> 'd cpu" where
  "fpr_set_bits n u s = s\<lparr>fpr := (fpr s)(n := (u, snd (fpr s n)))\<rparr>"

definition psq_sscale :: "u32 \<Rightarrow> int" where
  "psq_sscale six = (let v = uint (six AND 63) in if v > 31 then v - 64 else v)"

definition psq_pow2 :: "int \<Rightarrow> u64" where
  "psq_pow2 k = push_bit 52 (word_of_int (1023 + k))"

section \<open>Lemmas: memory\<close>

lemma mem_ptr_mod: "mem_ptr ea = unat ea mod 2 ^ 25"
  using word_and_mask_mod [of ea 25] by (simp add: mem_ptr_def MEM_MASK_def mask_eq_exp_minus_1)

lemma mem_ptr_less: "mem_ptr ea < 0x02000000"
  by (simp add: mem_ptr_mod)

lemma MEM_IMAGE_SIZE_value: "MEM_IMAGE_SIZE = 0x02000020"
  by (simp add: MEM_IMAGE_SIZE_def MEM_MASK_def)

text \<open>The registers, and everything else outside memory, are not touched by a store.\<close>

lemma mem_w32_gpr [simp]: "\<not> is_mmio ea \<Longrightarrow> gpr (mem_w32 io ea v s) = gpr s"
  by (simp add: mem_w32_def)

lemma mem_w32_mem: "\<not> is_mmio ea \<Longrightarrow> mem (mem_w32 io ea v s) = wr_bytes (mem s) (mem_ptr ea) (put32 v)"
  by (simp add: mem_w32_def)

text \<open>A 32-bit read is the decoding of the four bytes at the masked address.\<close>

lemma mem_r32_bytes:
  "\<not> is_mmio ea \<Longrightarrow> mem_r32 io ea s = (get32_at (rd_bytes (mem s) (mem_ptr ea) 4) 0, s)"
  by (simp add: mem_r32_def get32_at_def Let_def)

lemma mem_r32_of_bytes:
  "\<not> is_mmio ea \<Longrightarrow> rd_bytes (mem s) (mem_ptr ea) 4 = put32 v \<Longrightarrow> mem_r32 io ea s = (v, s)"
  using get32_at_put32 [of "[]" v "[]"] by (simp add: mem_r32_bytes)

lemma mod_four_apart:
  assumes "(a :: nat) mod 4 = b mod 4" "a \<noteq> b"
  shows "a + 4 \<le> b \<or> b + 4 \<le> a"
proof -
  have "a = 4 * (a div 4) + a mod 4" "b = 4 * (b div 4) + a mod 4"
    using mult_div_mod_eq [of 4 a] mult_div_mod_eq [of 4 b] assms(1) by simp_all
  moreover from this assms(2) have "a div 4 \<noteq> b div 4" by metis
  ultimately show ?thesis by (cases "a div 4 < b div 4") linarith+
qed

lemma small_steps_distinct:
  assumes "i < j" "j < (32 :: nat)"
  shows "(x + 4 * i) mod 2 ^ 25 \<noteq> (x + 4 * j) mod (2 ^ 25 :: nat)"
proof
  assume "(x + 4 * i) mod 2 ^ 25 = (x + 4 * j) mod 2 ^ 25"
  then have "(2 ^ 25 :: nat) dvd (x + 4 * j) - (x + 4 * i)"
    using assms mod_eq_dvd_iff_nat [of "x + 4 * i" "x + 4 * j" "2 ^ 25"] by simp
  then have "(2 ^ 25 :: nat) dvd 4 * (j - i)"
    by (simp add: right_diff_distrib')
  then show False
    using assms by (auto dest: dvd_imp_le)
qed

text \<open>Words four bytes apart never overlap in the image, wherever the mask wraps.\<close>

lemma mem_ptr_step_disjoint:
  assumes "i < 32" "j < 32" "i \<noteq> j"
  shows "mem_ptr (ea + 4 * of_nat i) + 4 \<le> mem_ptr (ea + 4 * of_nat j)
    \<or> mem_ptr (ea + 4 * of_nat j) + 4 \<le> mem_ptr (ea + 4 * of_nat i)"
proof -
  have p: "mem_ptr (ea + 4 * of_nat k) = (unat ea + 4 * k) mod 2 ^ 25" if "k < 32" for k
  proof -
    have "unat (ea + 4 * of_nat k) = (unat ea + 4 * k) mod 2 ^ 32"
      using that by (simp add: unat_word_ariths unat_of_nat mod_simps)
    then show ?thesis
      by (simp add: mem_ptr_mod mod_mod_cancel)
  qed
  have "(4 :: nat) dvd 2 ^ 25" by simp
  then have "(unat ea + 4 * k) mod 2 ^ 25 mod 4 = unat ea mod 4" for k
    by (simp only: mod_mod_cancel mod_mult_self2)
  moreover have "(unat ea + 4 * i) mod 2 ^ 25 \<noteq> (unat ea + 4 * j) mod 2 ^ 25"
    using small_steps_distinct [of i j "unat ea"] small_steps_distinct [of j i "unat ea"] assms
    by (metis linorder_neqE_nat)
  ultimately show ?thesis
    unfolding p [OF assms(1)] p [OF assms(2)] by (intro mod_four_apart) simp_all
qed

section \<open>Properties: memory\<close>

text \<open>a word stored at an address of ordinary memory is the word every window
  (cached, uncached, real mode) of the same location reads back, and reading changes nothing.\<close>

theorem mem_w32_r32:
  assumes "\<not> is_mmio ea" and "\<not> is_mmio ea'" and "ea' AND MEM_MASK = ea AND MEM_MASK"
  shows "mem_r32 io ea' (mem_w32 io ea v s) = (v, mem_w32 io ea v s)"
  using assms by (intro mem_r32_of_bytes) (simp_all add: mem_w32_mem mem_ptr_def store_simps)

definition io_none :: "'d io" where
  "io_none = \<lparr>mmio_read = (\<lambda>_ _ s. (0, s)), mmio_write = (\<lambda>_ _ _ s. s), gx_pipe_write = (\<lambda>_ _ s. s)\<rparr>"

definition cpu_zero :: "unit cpu" where
  "cpu_zero = \<lparr>gpr = (\<lambda>_. 0), fpr = (\<lambda>_. (0, 0)), cr = 0, xer = 0, lr = 0, ctr = 0, fpscr = 0,
     msr = 0, decr = 0, pc = 0, gqr = (\<lambda>_. 0), hid2 = 0, wpar = 0, spr = (\<lambda>_. 0), sr = (\<lambda>_. 0),
     mem = (\<lambda>_. 0), user = ()\<rparr>"

theorem mem_w32_r32_witness:
  "fst (mem_r32 io_none 0xC0003000 (mem_w32 io_none 0x80003000 0xDEADBEEF cpu_zero)) = 0xDEADBEEF"
proof -
  have "\<not> is_mmio 0x80003000" "\<not> is_mmio 0xC0003000"
    "(0xC0003000 :: u32) AND MEM_MASK = 0x80003000 AND MEM_MASK"
    by (simp_all add: is_mmio_def MEM_MASK_def)
  from mem_w32_r32 [OF this, of io_none "0xDEADBEEF" cpu_zero] show ?thesis by simp
qed

text \<open>Nothing an access reaches lies outside the image, dcbz's line and 8-byte accesses included.\<close>

lemma mem_ptr_access_bound: "n \<le> 32 \<Longrightarrow> mem_ptr ea + n < MEM_IMAGE_SIZE"
  using mem_ptr_less [of ea] by (simp add: MEM_IMAGE_SIZE_value)

text \<open>no store, of any width and at any address of ordinary memory, changes a byte past
  the end of the image that the runtime allocates, and dcbz does not either.\<close>

theorem stores_stay_in_image:
  assumes "\<not> is_mmio ea" and "MEM_IMAGE_SIZE \<le> x"
  shows "mem (mem_w8 io ea v8 s) x = mem s x \<and> mem (mem_w16 io ea v16 s) x = mem s x
    \<and> mem (mem_w32 io ea v32 s) x = mem s x \<and> mem (mem_w64 io ea v64 s) x = mem s x
    \<and> mem (mem_zero32 ea s) x = mem s x"
  using assms mem_ptr_access_bound [of 1 ea] mem_ptr_access_bound [of 8 ea]
    mem_ptr_access_bound [of 32 "ea AND NOT 31"]
  by (simp add: mem_w8_def mem_w16_def mem_w32_def mem_w64_def mem_zero32_def wr_bytes_outside)

theorem stores_stay_in_image_witness:
  "mem (mem_w64 io_none 0x81FFFFFF 0x0102030405060708 cpu_zero) 0x02000020 = 0"
proof -
  have "\<not> is_mmio 0x81FFFFFF" "MEM_IMAGE_SIZE \<le> 0x02000020"
    by (simp_all add: is_mmio_def MEM_IMAGE_SIZE_value)
  from stores_stay_in_image [OF this, of io_none 0 cpu_zero 0 0 "0x0102030405060708"]
  show ?thesis by (simp add: cpu_zero_def)
qed

section \<open>Multiple-register transfers\<close>

text \<open>None of the \<open>n\<close> consecutive words from \<open>ea\<close> up is in the hardware range.\<close>

definition plain_words :: "u32 \<Rightarrow> nat \<Rightarrow> bool" where
  "plain_words ea n = (\<forall>k<n. \<not> is_mmio (ea + 4 * of_nat k))"

lemma word_step: "(ea :: u32) + 4 * of_nat (Suc k) = (ea + 4) + 4 * of_nat k"
  by (simp add: algebra_simps)

lemma plain_words_Suc [simp]:
  "plain_words ea (Suc n) \<longleftrightarrow> \<not> is_mmio ea \<and> plain_words (ea + 4) n"
  unfolding plain_words_def All_less_Suc2 word_step by simp

lemma stmw_loop_gpr:
  "plain_words ea (length rs) \<Longrightarrow> gpr (ppc_stmw_loop io rs ea s) = gpr s"
  by (induction rs arbitrary: ea s) auto

definition apart_from_words :: "nat \<Rightarrow> u32 \<Rightarrow> nat \<Rightarrow> bool" where
  "apart_from_words p ea n =
     (\<forall>k<n. p + 4 \<le> mem_ptr (ea + 4 * of_nat k) \<or> mem_ptr (ea + 4 * of_nat k) + 4 \<le> p)"

lemma apart_from_words_Suc [simp]:
  "apart_from_words p ea (Suc n) \<longleftrightarrow>
     (p + 4 \<le> mem_ptr ea \<or> mem_ptr ea + 4 \<le> p) \<and> apart_from_words p (ea + 4) n"
  unfolding apart_from_words_def All_less_Suc2 word_step by simp

lemma stmw_loop_frame:
  "plain_words ea (length rs) \<Longrightarrow> apart_from_words p ea (length rs) \<Longrightarrow>
   rd_bytes (mem (ppc_stmw_loop io rs ea s)) p 4 = rd_bytes (mem s) p 4"
  by (induction rs arbitrary: ea s) (auto simp: mem_w32_mem store_simps)

lemma apart_from_later:
  assumes "n < 32"
  shows "apart_from_words (mem_ptr ea) (ea + 4) n"
  unfolding apart_from_words_def
proof (intro allI impI)
  fix k
  assume "k < n"
  then show "mem_ptr ea + 4 \<le> mem_ptr (ea + 4 + 4 * of_nat k)
      \<or> mem_ptr (ea + 4 + 4 * of_nat k) + 4 \<le> mem_ptr ea"
    using mem_ptr_step_disjoint [of 0 "Suc k" ea] assms by (simp only: word_step) simp
qed

lemma stmw_loop_words:
  assumes "plain_words ea (length rs)" "length rs \<le> 32" "k < length rs"
  shows "rd_bytes (mem (ppc_stmw_loop io rs ea s)) (mem_ptr (ea + 4 * of_nat k)) 4 = put32 (gpr s (rs ! k))"
  using assms
proof (induction rs arbitrary: ea s k)
  case (Cons r rs)
  show ?case
  proof (cases k)
    case 0
    with Cons.prems show ?thesis
      by (simp add: stmw_loop_frame apart_from_later mem_w32_mem store_simps)
  next
    case (Suc k')
    with Cons.prems have "rd_bytes (mem (ppc_stmw_loop io rs (ea + 4) (mem_w32 io ea (gpr s r) s)))
        (mem_ptr ((ea + 4) + 4 * of_nat k')) 4 = put32 (gpr (mem_w32 io ea (gpr s r) s) (rs ! k'))"
      by (intro Cons.IH) auto
    with Suc Cons.prems show ?thesis by (simp only: word_step) simp
  qed
qed simp

lemma lmw_loop_words:
  assumes "plain_words ea (length rs)"
    and "\<forall>k<length rs. rd_bytes (mem s) (mem_ptr (ea + 4 * of_nat k)) 4 = put32 (f (rs ! k))"
  shows "ppc_lmw_loop io rs ea s = s\<lparr>gpr := (\<lambda>r. if r \<in> set rs then f r else gpr s r)\<rparr>"
  using assms
proof (induction rs arbitrary: ea s)
  case (Cons r rs)
  then have here: "\<not> is_mmio ea" "rd_bytes (mem s) (mem_ptr ea) 4 = put32 (f r)"
    and later: "plain_words (ea + 4) (length rs)"
      "\<forall>k<length rs. rd_bytes (mem s) (mem_ptr (ea + 4 + 4 * of_nat k)) 4 = put32 (f (rs ! k))"
    by (simp_all only: list.size add_0_right add_Suc_right plain_words_Suc All_less_Suc2 word_step) simp_all
  have "mem_r32 io ea s = (f r, s)"
    using here by (rule mem_r32_of_bytes)
  then have "ppc_lmw_loop io (r # rs) ea s = ppc_lmw_loop io rs (ea + 4) (s\<lparr>gpr := (gpr s)(r := f r)\<rparr>)"
    by simp
  also have "\<dots> = s\<lparr>gpr := (\<lambda>q. if q \<in> set (r # rs) then f q else gpr s q)\<rparr>"
    using later by (subst Cons.IH) (auto simp: fun_eq_iff)
  finally show ?case .
qed simp

text \<open>C28: lmw after stmw at the same address restores exactly the registers from \<open>rd\<close> up that
  stmw saved, whatever the other registers hold meanwhile, at any alignment and also where the
  words straddle the point at which the address mask wraps.\<close>

theorem stmw_lmw_roundtrip:
  assumes "\<forall>k<32 - rd. \<not> is_mmio (ea + 4 * of_nat k)" and "mem t = mem (ppc_stmw io rd ea s)"
  shows "ppc_lmw io rd ea t = t\<lparr>gpr := (\<lambda>r. if rd \<le> r \<and> r < 32 then gpr s r else gpr t r)\<rparr>"
proof -
  have plain: "plain_words ea (length [rd..<32])"
    using assms(1) by (simp add: plain_words_def)
  have "\<forall>k<length [rd..<32]. rd_bytes (mem t) (mem_ptr (ea + 4 * of_nat k)) 4 = put32 (gpr s ([rd..<32] ! k))"
    using stmw_loop_words [OF plain, of _ io s] assms(2) by (simp add: ppc_stmw_def)
  then show ?thesis
    using lmw_loop_words [OF plain] by (simp add: ppc_lmw_def cong: if_cong)
qed

theorem stmw_lmw_roundtrip_witness:
  "gpr (ppc_lmw io_none 30 0x81FFFFFE
      (cpu_zero\<lparr>mem := mem (ppc_stmw io_none 30 0x81FFFFFE (cpu_zero\<lparr>gpr := (\<lambda>r. of_nat r)\<rparr>))\<rparr>)) 31 = 31"
proof -
  let ?s = "cpu_zero\<lparr>gpr := (\<lambda>r. of_nat r)\<rparr>"
  let ?t = "cpu_zero\<lparr>mem := mem (ppc_stmw io_none 30 0x81FFFFFE ?s)\<rparr>"
  have "\<forall>k<32 - 30. \<not> is_mmio (0x81FFFFFE + 4 * of_nat k)"
  proof (intro allI impI)
    fix k :: nat
    assume "k < 32 - 30"
    then have "k = 0 \<or> k = 1" by auto
    then show "\<not> is_mmio (0x81FFFFFE + 4 * of_nat k)" by (auto simp: is_mmio_def)
  qed
  then have "ppc_lmw io_none 30 0x81FFFFFE ?t
      = ?t\<lparr>gpr := (\<lambda>r. if 30 \<le> r \<and> r < 32 then gpr ?s r else gpr ?t r)\<rparr>"
    by (rule stmw_lmw_roundtrip) simp
  then have "gpr (ppc_lmw io_none 30 0x81FFFFFE ?t) 31 = gpr ?s 31" by simp
  also have "\<dots> = 31" by simp
  finally show ?thesis .
qed

section \<open>Condition register fields\<close>

lemma cr_get_set_field_bits:
  assumes "f < 8" "g < 8"
  shows "cr_get_field (cr_set_field f b s) g = (if g = f then b AND 0xF else cr_get_field s g)"
proof (rule bit_word_eqI)
  fix n
  assume "n < LENGTH(32)"
  have m: "(0xF :: u32) = mask 4"
    by (simp add: mask_eq_exp_minus_1)
  show "bit (cr_get_field (cr_set_field f b s) g) n
      = bit (if g = f then b AND 0xF else cr_get_field s g) n"
    using assms unfolding cr_get_field_def cr_set_field_def m
    by (auto simp: bit_simps Let_def)
qed

text \<open>The four bits a comparison leaves: less, greater, equal and a copy of XER[SO].\<close>

definition cmp_bits :: "bool \<Rightarrow> bool \<Rightarrow> bool \<Rightarrow> u32" where
  "cmp_bits lt gt so =
     (if lt then 8 else if gt then 4 else 2) OR (if so then 1 else 0)"

lemma cmp_bits_mask: "cmp_bits lt gt so AND 0xF = cmp_bits lt gt so"
  by (simp add: cmp_bits_def)

text \<open>signed and unsigned comparison into field \<open>f\<close> leave there exactly one of the bits
  less, greater and equal, as the operands compare, with XER[SO] copied beside it, and every
  other field of the condition register keeps its value.\<close>

theorem cr_cmp_fields:
  assumes "f < 8" and "g < 8"
  shows "cr_get_field (cr_cmp_s f a b s) g =
      (if g = f then cmp_bits (sint a < sint b) (sint b < sint a) (nonzero (xer s AND XER_SO))
       else cr_get_field s g)
    \<and> cr_get_field (cr_cmp_u f a b s) g =
      (if g = f then cmp_bits (a < b) (b < a) (nonzero (xer s AND XER_SO))
       else cr_get_field s g)"
proof -
  have "cr_cmp_s f a b s = cr_set_field f
      (cmp_bits (sint a < sint b) (sint b < sint a) (nonzero (xer s AND XER_SO))) s"
    by (simp add: cr_cmp_s_def cmp_bits_def Let_def)
  moreover have "cr_cmp_u f a b s = cr_set_field f
      (cmp_bits (a < b) (b < a) (nonzero (xer s AND XER_SO))) s"
    by (simp add: cr_cmp_u_def cmp_bits_def Let_def)
  ultimately show ?thesis
    using assms by (simp add: cr_get_set_field_bits cmp_bits_mask)
qed

theorem cr_cmp_fields_witness:
  "cr_get_field (cr_cmp_s 7 0xFFFFFFFF 1 cpu_zero) 7 = 8
   \<and> cr_get_field (cr_cmp_u 7 0xFFFFFFFF 1 cpu_zero) 7 = 4"
  using cr_cmp_fields [of 7 7 "0xFFFFFFFF" 1 cpu_zero]
  by (simp add: cmp_bits_def XER_SO_def cpu_zero_def)

section \<open>Carry arithmetic\<close>

lemma xer_ca_set [simp]: "xer_ca (xer_set_ca c s) = (if nonzero c then 1 else 0)"
proof -
  have m: "(XER_CA :: u32) = push_bit 29 1"
    by (simp add: XER_CA_def)
  show ?thesis
    unfolding xer_ca_def xer_set_ca_def m
    by (auto simp: bit_simps bit_1_iff intro!: bit_word_eqI)
qed

text \<open>A sum below \<open>2 ^ 33\<close> is its low word plus the carry flag it leaves.\<close>

lemma carry_result_sum:
  assumes "carry_result r s = (v, s')" and "unat r < 2 ^ 33"
  shows "unat v + 2 ^ 32 * unat (xer_ca s') = unat r"
proof -
  have v: "unat v = unat r mod 2 ^ 32"
    using assms(1) by (auto simp: carry_result_def unsigned_ucast_eq take_bit_eq_mod)
  have d: "unat (drop_bit 32 r) = unat r div 2 ^ 32"
    by (simp add: drop_bit_eq_div unat_div)
  have small: "unat r div 2 ^ 32 < 2"
    using assms(2) by (simp add: less_mult_imp_div_less)
  have c: "unat (ucast (drop_bit 32 r) :: u32) = unat r div 2 ^ 32"
    unfolding unsigned_ucast_eq d using small by (simp add: take_bit_eq_mod)
  have "xer_ca s' = (if ucast (drop_bit 32 r) = (0 :: u32) then 0 else 1)"
    using assms(1) by (auto simp: carry_result_def)
  then have "xer_ca s' = (if unat r div 2 ^ 32 = 0 then 0 else 1)"
    unfolding c [symmetric] by (simp only: unsigned_eq_0_iff)
  then have "unat (xer_ca s') = unat r div 2 ^ 32"
    using small by auto
  with v show ?thesis by simp
qed

lemma unat_lt32: "unat (w :: u32) < 4294967296"
  using unsigned_less [of w] by simp

lemma unat_ucast_up: "unat (ucast (a :: u32) :: u64) = unat a"
proof -
  have "unat a < 2 ^ 64" using unat_lt32 [of a] by simp
  then show ?thesis by (simp only: unsigned_ucast_eq take_bit_eq_mod) simp
qed

lemma xer_ca_le_1: "unat (xer_ca s) \<le> 1"
  using word_and_le1 [of "drop_bit 29 (xer s)" 1] by (simp add: xer_ca_def word_le_nat_alt)

lemma addc_sum:
  "ppc_addc a b s = (v, s') \<Longrightarrow> unat v + 2 ^ 32 * unat (xer_ca s') = unat a + unat b"
  using carry_result_sum [of "ucast a + ucast b" s v s'] unat_lt32 [of a] unat_lt32 [of b]
  by (simp add: ppc_addc_def unat_word_ariths unat_ucast_up)

lemma adde_sum:
  "ppc_adde a b s = (v, s') \<Longrightarrow>
   unat v + 2 ^ 32 * unat (xer_ca s') = unat a + unat b + unat (xer_ca s)"
  using carry_result_sum [of "ucast a + ucast b + ucast (xer_ca s)" s v s'] unat_lt32 [of a]
    unat_lt32 [of b] xer_ca_le_1 [of s]
  by (simp add: ppc_adde_def unat_word_ariths unat_ucast_up)

lemma unat_not: "unat (NOT (a :: u32)) = 2 ^ 32 - 1 - unat a"
proof -
  have "a + NOT a = - 1" by (simp add: not_eq_complement)
  then have "NOT a = - 1 - a" by (simp add: algebra_simps)
  moreover have "a \<le> - 1" by simp
  moreover have "unat (- 1 :: u32) = 2 ^ 32 - 1" by (simp add: unsigned_minus_1_eq_mask mask_eq_exp_minus_1)
  ultimately show ?thesis by (simp only: unat_sub)
qed

lemma subfc_sum:
  "ppc_subfc a b s = (v, s') \<Longrightarrow>
   unat v + 2 ^ 32 * unat (xer_ca s') + unat a = unat b + 2 ^ 32"
  using carry_result_sum [of "ucast (NOT a) + ucast b + 1" s v s'] unat_lt32 [of a]
    unat_lt32 [of b]
  by (simp add: ppc_subfc_def unat_word_ariths unat_ucast_up unat_not)

lemma subfe_sum:
  "ppc_subfe a b s = (v, s') \<Longrightarrow>
   unat v + 2 ^ 32 * unat (xer_ca s') + unat a + 1 = unat b + 2 ^ 32 + unat (xer_ca s)"
  using carry_result_sum [of "ucast (NOT a) + ucast b + ucast (xer_ca s)" s v s'] unat_lt32 [of a]
    unat_lt32 [of b] xer_ca_le_1 [of s]
  by (simp add: ppc_subfe_def unat_word_ariths unat_ucast_up unat_not)

text \<open>the carry flag chains: addc then adde adds two 64-bit numbers held in register
  pairs, and subfc then subfe subtracts them, both modulo \<open>2 ^ 64\<close>, from any XER to start with.\<close>

theorem carry_chain_64:
  assumes "ppc_addc alo blo s = (lo, s1)" and "ppc_adde ahi bhi s1 = (hi, s2)"
    and "ppc_subfc alo blo t = (dlo, t1)" and "ppc_subfe ahi bhi t1 = (dhi, t2)"
  shows "unat hi * 2 ^ 32 + unat lo
      = ((unat ahi * 2 ^ 32 + unat alo) + (unat bhi * 2 ^ 32 + unat blo)) mod 2 ^ 64
    \<and> (unat dhi * 2 ^ 32 + unat dlo + (unat ahi * 2 ^ 32 + unat alo)) mod 2 ^ 64
      = unat bhi * 2 ^ 32 + unat blo"
proof -
  have bounds: "unat w < 2 ^ 32" for w :: u32
    using unsigned_less [of w] by simp
  have small: "unat h * 2 ^ 32 + unat l < 2 ^ 64" for h l :: u32
    using bounds [of h] bounds [of l] by simp
  have "(unat ahi * 2 ^ 32 + unat alo) + (unat bhi * 2 ^ 32 + unat blo)
      = unat hi * 2 ^ 32 + unat lo + 2 ^ 64 * unat (xer_ca s2)"
    using addc_sum [OF assms(1)] adde_sum [OF assms(2)] by simp
  then have sum: "((unat ahi * 2 ^ 32 + unat alo) + (unat bhi * 2 ^ 32 + unat blo)) mod 2 ^ 64
      = unat hi * 2 ^ 32 + unat lo"
    using small [of hi lo] by (simp only: mod_mult_self2 mod_less)
  have "unat dhi * 2 ^ 32 + unat dlo + (unat ahi * 2 ^ 32 + unat alo) + 2 ^ 64 * unat (xer_ca t2)
      = unat bhi * 2 ^ 32 + unat blo + 2 ^ 64 * 1"
    using subfc_sum [OF assms(3)] subfe_sum [OF assms(4)] by simp
  then have "(unat dhi * 2 ^ 32 + unat dlo + (unat ahi * 2 ^ 32 + unat alo)) mod 2 ^ 64
      = (unat bhi * 2 ^ 32 + unat blo) mod 2 ^ 64"
    by (metis mod_mult_self2)
  also have "\<dots> = unat bhi * 2 ^ 32 + unat blo"
    using small [of bhi blo] by (rule mod_less)
  finally show ?thesis using sum by simp
qed

theorem carry_chain_64_witness:
  "unat (fst (ppc_adde 1 2 (snd (ppc_addc 0xFFFFFFFF 1 cpu_zero)))) * 2 ^ 32
     + unat (fst (ppc_addc 0xFFFFFFFF 1 cpu_zero)) = 4 * 2 ^ 32"
proof -
  let ?a = "ppc_addc 0xFFFFFFFF 1 cpu_zero"
  let ?d = "ppc_subfc 0xFFFFFFFF 1 cpu_zero"
  show ?thesis
    using carry_chain_64 [of "0xFFFFFFFF" 1 cpu_zero "fst ?a" "snd ?a" 1 2
        "fst (ppc_adde 1 2 (snd ?a))" "snd (ppc_adde 1 2 (snd ?a))" cpu_zero "fst ?d" "snd ?d"
        "fst (ppc_subfe 1 2 (snd ?d))" "snd (ppc_subfe 1 2 (snd ?d))"]
    by simp
qed

section \<open>Counting leading zeros\<close>

text \<open>The loop runs once per leading zero: with the top bit at \<open>k\<close> it stops after \<open>31 - k\<close>.\<close>

lemma top_bit_test: "nonzero ((v :: u32) AND 0x80000000) \<longleftrightarrow> bit v 31"
proof -
  have m: "(0x80000000 :: u32) = push_bit 31 1" by simp
  show ?thesis
  proof
    assume "bit v 31"
    then have "bit (v AND 0x80000000) 31" unfolding m by (simp add: bit_simps)
    then show "nonzero (v AND 0x80000000)" by auto
  next
    assume "nonzero (v AND 0x80000000)"
    then obtain n where "bit (v AND 0x80000000) n" using word_nonzero_bit by blast
    then have "bit v n \<and> n = 31" unfolding m by (simp only: bit_and_iff bit_push_bit_iff bit_1_iff) auto
    then show "bit v 31" by blast
  qed
qed

lemma cntlzw_loop_steps:
  assumes "bit v k" "\<forall>j. k < j \<longrightarrow> \<not> bit v j" "k \<le> 31"
  shows "cntlzw_loop v n = Some (n + (31 - k))"
  using assms
proof (induction "31 - k" arbitrary: v n k)
  case 0
  then have "k = 31" by simp
  with 0 show ?case
    by (subst cntlzw_loop.simps) (simp add: top_bit_test)
next
  case (Suc d)
  then have "k < 31" by simp
  with Suc.prems have top: "\<not> bit v 31" by blast
  have pb: "bit (push_bit 1 v) j \<longleftrightarrow> 0 < j \<and> j < 32 \<and> bit v (j - 1)" for j
    by (simp only: bit_push_bit_iff possible_bit_word) (use bit_imp_le_length [of v "j - 1"] in auto)
  have "cntlzw_loop v n = cntlzw_loop (push_bit 1 v) (n + 1)"
    using top by (subst cntlzw_loop.simps) (simp add: top_bit_test)
  also have "\<dots> = Some (n + 1 + (31 - (k + 1)))"
  proof (rule Suc.hyps(1))
    show "bit (push_bit 1 v) (k + 1)"
      using Suc.prems(1) \<open>k < 31\<close> unfolding pb by simp
    show "\<forall>j>k + 1. \<not> bit (push_bit 1 v) j"
      using Suc.prems(2) unfolding pb by auto
  qed (use Suc.hyps(2) \<open>k < 31\<close> in auto)
  finally show ?case using \<open>k < 31\<close> by simp
qed

lemma top_bit_exists:
  assumes "(v :: u32) \<noteq> 0"
  obtains k where "bit v k" "\<forall>j. k < j \<longrightarrow> \<not> bit v j" "k \<le> 31"
proof -
  from assms obtain n where n: "bit v n" using word_nonzero_bit by blast
  have "\<forall>j. bit v j \<longrightarrow> j \<le> 31"
    using bit_imp_le_length [of v] by force
  then have "bit v (GREATEST j. bit v j)" "\<And>j. bit v j \<Longrightarrow> j \<le> (GREATEST j. bit v j)"
    "(GREATEST j. bit v j) \<le> 31"
    using GreatestI_nat [of "bit v" n 31] Greatest_le_nat [of "bit v" _ 31] n by blast+
  then show thesis using that by (meson leD)
qed

lemma unat_top_bit:
  assumes "bit (v :: u32) k" "\<forall>j. k < j \<longrightarrow> \<not> bit v j"
  shows "2 ^ k \<le> unat v \<and> unat v < 2 ^ Suc k"
proof -
  have "take_bit (Suc k) v = v"
    using assms(2) by (intro bit_eqI) (auto simp: bit_take_bit_iff Suc_le_eq not_less_eq)
  then have "take_bit (Suc k) (unat v) = unat v"
    by (metis unsigned_take_bit_eq)
  then have "unat v < 2 ^ Suc k" by (simp only: take_bit_nat_eq_self_iff)
  moreover have "bit (unat v) k" using assms(1) by (simp only: bit_unsigned_iff) (auto dest: bit_imp_le_length)
  then have "odd (unat v div 2 ^ k)" by (rule bit_iff_odd [THEN iffD1])
  then have "2 ^ k \<le> unat v"
    by (cases "unat v < 2 ^ k") auto
  ultimately show ?thesis by simp
qed

text \<open>cntlzw returns for every word (its normalising loop ends), and the count \<open>n\<close> it gives
  is the one with \<open>2 ^ (31 - n) <= v < 2 ^ (32 - n)\<close>, or 32 for zero.\<close>

theorem cntlzw_total:
  "\<exists>n. ppc_cntlzw v = Some n
     \<and> (if v = 0 then n = 32 else n \<le> 31 \<and> 2 ^ (31 - n) \<le> unat v \<and> unat v < 2 ^ (32 - n))"
proof (cases "v = 0")
  case False
  then obtain k where k: "bit v k" "\<forall>j. k < j \<longrightarrow> \<not> bit v j" "k \<le> 31"
    by (rule top_bit_exists)
  have "ppc_cntlzw v = Some (31 - k)"
    using False cntlzw_loop_steps [OF k, of 0] by (simp add: ppc_cntlzw_def)
  moreover have "31 - (31 - k) = k" "32 - (31 - k) = Suc k" using k(3) by auto
  ultimately show ?thesis
    using False unat_top_bit [OF k(1,2)] by auto
qed (simp add: ppc_cntlzw_def)

end
