(* ===== verification/ModEvents.thy ===== *)
theory ModEvents
  imports GuestMem
begin

text \<open>
  runtime/mod.c, the part native mods live on: the checked reads and writes of guest memory
  the API gives them, the registration of their callbacks and the dispatch of the game's
  events to them. A callback is code of a mod, a function on the guest state; the C library's
  pair of function and user pointer is that function. Registration is open only while a mod's
  init runs, so the callback tables do not change while events are dispatched and are an
  argument (\<open>registry\<close>); what does change, which mod and event are running and how often a
  callback was called, is the record \<open>mods\<close> inside the guest state. The wait for the
  renderer's copies (\<open>gxr_hook_hazard\<close>) is a parameter; the handler timings only feed the
  report and are left out.
\<close>

section \<open>State\<close>

definition MOD_MAX :: nat where "MOD_MAX = 32"
definition CB_MAX :: nat where "CB_MAX = 64"

text \<open>The battle's and the save's events, in the order of the header.\<close>

datatype event =
    MOD_EV_DAMAGE | MOD_EV_HEAL | MOD_EV_ENEMY_SPAWN | MOD_EV_ENEMY_ACTION | MOD_EV_TURN_ORDER
  | MOD_EV_SPIRIT_GAIN | MOD_EV_ESCAPE | MOD_EV_REWARDS | MOD_EV_EFFECT | MOD_EV_ROUND_END
  | MOD_EV_SHIP_DAMAGE | MOD_EV_SAVE | MOD_EV_LOAD | MOD_EV_NEW_GAME

record mod_entry =
  mod_dir :: string
  mod_id :: string
  mod_writes :: nat

record mods =
  g_mods :: "mod_entry list"
  g_s_set :: bool
  g_text :: "(u32 \<times> u32) list"
  g_cur_mod :: int
  g_in_init :: bool
  g_init_id :: string
  g_event_now :: "event option"
  cb_calls :: "event \<Rightarrow> nat \<Rightarrow> nat"

text \<open>A registered callback: whose it is, and the code.\<close>

record 'f callback =
  cb_fn :: 'f
  cb_mod :: int

record soa_rewards =
  rw_exp :: "32 word"
  rw_gold :: "32 word"
  rw_magic_exp :: "32 word"

type_synonym 'm mcpu = "'m mods_scheme cpu"

record 'm registry =
  reg_frame_end :: "('m mcpu \<Rightarrow> 'm mcpu) callback list"
  reg_safe_point :: "('m mcpu \<Rightarrow> 'm mcpu) callback list"
  reg_map_loaded :: "(u32 \<Rightarrow> 'm mcpu \<Rightarrow> 'm mcpu) callback list"
  reg_scene_change :: "(u32 \<Rightarrow> u32 \<Rightarrow> 'm mcpu \<Rightarrow> 'm mcpu) callback list"
  reg_damage :: "(u32 \<Rightarrow> u32 \<Rightarrow> u32 \<Rightarrow> u32 \<Rightarrow> u32 \<Rightarrow> 'm mcpu \<Rightarrow> u32 \<times> 'm mcpu) callback list"
  reg_heal :: "(u32 \<Rightarrow> int \<Rightarrow> int \<Rightarrow> 'm mcpu \<Rightarrow> u32 \<times> 'm mcpu) callback list"
  reg_enemy_spawn :: "(u32 \<Rightarrow> u32 \<Rightarrow> 'm mcpu \<Rightarrow> 'm mcpu) callback list"
  reg_enemy_action :: "(u32 \<Rightarrow> int \<Rightarrow> u32 \<Rightarrow> 'm mcpu \<Rightarrow> u32 \<times> 'm mcpu) callback list"
  reg_turn_order :: "(u8 list \<Rightarrow> 'm mcpu \<Rightarrow> u8 list \<times> 'm mcpu) callback list"
  reg_spirit_gain :: "(u32 \<Rightarrow> 'm mcpu \<Rightarrow> u32 \<times> 'm mcpu) callback list"
  reg_escape :: "(int \<Rightarrow> int \<Rightarrow> 'm mcpu \<Rightarrow> int \<times> 'm mcpu) callback list"
  reg_rewards :: "(soa_rewards \<Rightarrow> 'm mcpu \<Rightarrow> soa_rewards \<times> 'm mcpu) callback list"
  reg_effect :: "(int \<Rightarrow> u16 \<Rightarrow> u32 \<Rightarrow> 'm mcpu \<Rightarrow> (int \<times> u16 \<times> u32) \<times> 'm mcpu) callback list"
  reg_round_end :: "(u32 \<Rightarrow> 'm mcpu \<Rightarrow> 'm mcpu) callback list"
  reg_ship_damage :: "(u32 \<Rightarrow> 'm mcpu \<Rightarrow> u32 \<times> 'm mcpu) callback list"
  reg_save :: "(u8 list \<Rightarrow> u32 \<Rightarrow> 'm mcpu \<Rightarrow> (int \<times> u8 list) \<times> 'm mcpu) callback list"
  reg_load :: "(u8 list option \<Rightarrow> 'm mcpu \<Rightarrow> 'm mcpu) callback list"
  reg_new_game :: "('m mcpu \<Rightarrow> 'm mcpu) callback list"

definition mods_upd :: "('m mods_scheme \<Rightarrow> 'm mods_scheme) \<Rightarrow> 'm mcpu \<Rightarrow> 'm mcpu" where
  "mods_upd f s = s\<lparr>user := f (user s)\<rparr>"

section \<open>Guest memory through the API\<close>

text \<open>
  RAM, aligned to the width, and for a write not the game's code; an access that is let
  through first waits for the renderer's copies that overlap it.
\<close>

definition in_code :: "(u32 \<times> u32) list \<Rightarrow> u32 \<Rightarrow> u32 \<Rightarrow> bool" where
  "in_code text addr n = list_ex (\<lambda>(lo, hi). lo < hi \<and> addr < hi \<and> lo < addr + n) text"

definition api_ok ::
  "(u32 \<Rightarrow> u32 \<Rightarrow> 'm mcpu \<Rightarrow> 'm mcpu) \<Rightarrow> u32 \<Rightarrow> u32 \<Rightarrow> u32 \<Rightarrow> bool \<Rightarrow> 'm mcpu \<Rightarrow> bool \<times> 'm mcpu" where
  "api_ok hazard addr n align wr s =
     (if \<not> g_s_set (user s) \<or> addr < 0x80000000 \<or> addr \<ge> 0x80000000 + of_nat MEM1_SIZE
         \<or> n > 0x80000000 + of_nat MEM1_SIZE - addr then (False, s)
      else if align > 1 \<and> nonzero (addr AND (align - 1)) then (False, s)
      else if wr \<and> in_code (g_text (user s)) addr n then (False, s)
      else (True, hazard addr n s))"

definition api_read8 where
  "api_read8 io hazard a s = (case api_ok hazard a 1 1 False s of (ok, s1) \<Rightarrow>
     if ok then map_prod Some id (mem_r8 io a s1) else (None, s1))"

definition api_read16 where
  "api_read16 io hazard a s = (case api_ok hazard a 2 2 False s of (ok, s1) \<Rightarrow>
     if ok then map_prod Some id (mem_r16 io a s1) else (None, s1))"

definition api_read32 where
  "api_read32 io hazard a s = (case api_ok hazard a 4 4 False s of (ok, s1) \<Rightarrow>
     if ok then map_prod Some id (mem_r32 io a s1) else (None, s1))"

text \<open>A float is handed out as its bits.\<close>

definition api_read_f32 where "api_read_f32 io hazard a s = api_read32 io hazard a s"

definition api_read_bytes where
  "api_read_bytes hazard a n s = (case api_ok hazard a n 1 False s of (ok, s1) \<Rightarrow>
     (if ok then Some (rd_bytes (mem s1) (mem_ptr a) (unat n)) else None, s1))"

definition wrote :: "'m mcpu \<Rightarrow> 'm mcpu" where
  "wrote = mods_upd (\<lambda>d. if 0 \<le> g_cur_mod d \<and> g_cur_mod d < int (length (g_mods d))
     then d\<lparr>g_mods := (g_mods d)[nat (g_cur_mod d) :=
            mod_writes_update Suc (g_mods d ! nat (g_cur_mod d))]\<rparr> else d)"

definition api_write8 where
  "api_write8 io hazard a v s = (case api_ok hazard a 1 1 True s of (ok, s1) \<Rightarrow>
     if ok then (True, wrote (mem_w8 io a v s1)) else (False, s1))"

definition api_write16 where
  "api_write16 io hazard a v s = (case api_ok hazard a 2 2 True s of (ok, s1) \<Rightarrow>
     if ok then (True, wrote (mem_w16 io a v s1)) else (False, s1))"

definition api_write32 where
  "api_write32 io hazard a v s = (case api_ok hazard a 4 4 True s of (ok, s1) \<Rightarrow>
     if ok then (True, wrote (mem_w32 io a v s1)) else (False, s1))"

definition api_write_f32 where "api_write_f32 io hazard a v s = api_write32 io hazard a v s"

definition api_write_bytes where
  "api_write_bytes hazard a bs s = (case api_ok hazard a (of_nat (length bs)) 1 True s of (ok, s1) \<Rightarrow>
     if ok then (True, wrote (s1\<lparr>mem := wr_bytes (mem s1) (mem_ptr a) bs\<rparr>)) else (False, s1))"

definition SCENE_ID :: u32 where "SCENE_ID = 0x803475CC"
definition FIELD_STATE :: u32 where "FIELD_STATE = 0x80311AEC"
definition MAP_NUMBER :: u32 where "MAP_NUMBER = 0x80311AC0"
definition MAP_LETTER :: u32 where "MAP_LETTER = 0x80311AC8"
definition STORY_FLAGS :: u32 where "STORY_FLAGS = 0x80310B3C"

definition api_scene :: "'m mods_scheme io \<Rightarrow> 'm mcpu \<Rightarrow> u32 \<times> 'm mcpu" where
  "api_scene io s = (if g_s_set (user s) then mem_r32 io SCENE_ID s else (0, s))"

definition api_field_state :: "'m mods_scheme io \<Rightarrow> 'm mcpu \<Rightarrow> u32 \<times> 'm mcpu" where
  "api_field_state io s = (if g_s_set (user s) then mem_r32 io FIELD_STATE s else (0, s))"

definition api_map :: "'m mods_scheme io \<Rightarrow> 'm mcpu \<Rightarrow> u32 \<times> 'm mcpu" where
  "api_map io s =
     (if g_s_set (user s)
      then (case mem_r32 io MAP_NUMBER s of (n, s1) \<Rightarrow>
            case mem_r8 io MAP_LETTER s1 of (l, s2) \<Rightarrow> (push_bit 8 n OR ucast l, s2))
      else (0, s))"

definition api_story_flag where
  "api_story_flag io hazard n s =
     (case api_read32 io hazard (STORY_FLAGS + (n div 32) * 4) s of
        (None, s1) \<Rightarrow> (0, s1)
      | (Some w, s1) \<Rightarrow> (drop_bit (unat (n mod 32)) w AND 1 :: u32, s1))"

section \<open>Registration\<close>

definition api_register :: "'f option \<Rightarrow> 'm mods_scheme \<Rightarrow> 'f callback list \<Rightarrow> bool \<times> 'f callback list" where
  "api_register fn d cbs =
     (case fn of None \<Rightarrow> (False, cbs)
      | Some f \<Rightarrow>
          if \<not> g_in_init d \<or> length cbs = CB_MAX then (False, cbs)
          else (True, cbs @ [\<lparr>cb_fn = f, cb_mod = g_cur_mod d\<rparr>]))"

definition api_on_frame_end where
  "api_on_frame_end fn d r = (case api_register fn d (reg_frame_end r) of (ok, cs) \<Rightarrow> (ok, r\<lparr>reg_frame_end := cs\<rparr>))"
definition api_on_safe_point where
  "api_on_safe_point fn d r = (case api_register fn d (reg_safe_point r) of (ok, cs) \<Rightarrow> (ok, r\<lparr>reg_safe_point := cs\<rparr>))"
definition api_on_map_loaded where
  "api_on_map_loaded fn d r = (case api_register fn d (reg_map_loaded r) of (ok, cs) \<Rightarrow> (ok, r\<lparr>reg_map_loaded := cs\<rparr>))"
definition api_on_scene_change where
  "api_on_scene_change fn d r = (case api_register fn d (reg_scene_change r) of (ok, cs) \<Rightarrow> (ok, r\<lparr>reg_scene_change := cs\<rparr>))"
definition api_on_damage where
  "api_on_damage fn d r = (case api_register fn d (reg_damage r) of (ok, cs) \<Rightarrow> (ok, r\<lparr>reg_damage := cs\<rparr>))"
definition api_on_heal where
  "api_on_heal fn d r = (case api_register fn d (reg_heal r) of (ok, cs) \<Rightarrow> (ok, r\<lparr>reg_heal := cs\<rparr>))"
definition api_on_enemy_spawn where
  "api_on_enemy_spawn fn d r = (case api_register fn d (reg_enemy_spawn r) of (ok, cs) \<Rightarrow> (ok, r\<lparr>reg_enemy_spawn := cs\<rparr>))"
definition api_on_enemy_action where
  "api_on_enemy_action fn d r = (case api_register fn d (reg_enemy_action r) of (ok, cs) \<Rightarrow> (ok, r\<lparr>reg_enemy_action := cs\<rparr>))"
definition api_on_turn_order where
  "api_on_turn_order fn d r = (case api_register fn d (reg_turn_order r) of (ok, cs) \<Rightarrow> (ok, r\<lparr>reg_turn_order := cs\<rparr>))"
definition api_on_spirit_gain where
  "api_on_spirit_gain fn d r = (case api_register fn d (reg_spirit_gain r) of (ok, cs) \<Rightarrow> (ok, r\<lparr>reg_spirit_gain := cs\<rparr>))"
definition api_on_escape where
  "api_on_escape fn d r = (case api_register fn d (reg_escape r) of (ok, cs) \<Rightarrow> (ok, r\<lparr>reg_escape := cs\<rparr>))"
definition api_on_rewards where
  "api_on_rewards fn d r = (case api_register fn d (reg_rewards r) of (ok, cs) \<Rightarrow> (ok, r\<lparr>reg_rewards := cs\<rparr>))"
definition api_on_effect where
  "api_on_effect fn d r = (case api_register fn d (reg_effect r) of (ok, cs) \<Rightarrow> (ok, r\<lparr>reg_effect := cs\<rparr>))"
definition api_on_round_end where
  "api_on_round_end fn d r = (case api_register fn d (reg_round_end r) of (ok, cs) \<Rightarrow> (ok, r\<lparr>reg_round_end := cs\<rparr>))"
definition api_on_ship_damage where
  "api_on_ship_damage fn d r = (case api_register fn d (reg_ship_damage r) of (ok, cs) \<Rightarrow> (ok, r\<lparr>reg_ship_damage := cs\<rparr>))"

text \<open>A save callback needs the mod in its init to have an id, and is one of each per mod.\<close>

definition save_register :: "'f option \<Rightarrow> 'm mods_scheme \<Rightarrow> 'f callback list \<Rightarrow> bool \<times> 'f callback list" where
  "save_register fn d cbs =
     (if \<not> g_in_init d \<or> g_cur_mod d < 0 \<or> g_cur_mod d \<ge> int MOD_MAX \<or> g_init_id d = [] then (False, cbs)
      else if list_ex (\<lambda>c. cb_mod c = g_cur_mod d) cbs then (False, cbs)
      else api_register fn d cbs)"

definition api_on_save where
  "api_on_save fn d r = (case save_register fn d (reg_save r) of (ok, cs) \<Rightarrow> (ok, r\<lparr>reg_save := cs\<rparr>))"
definition api_on_load where
  "api_on_load fn d r = (case save_register fn d (reg_load r) of (ok, cs) \<Rightarrow> (ok, r\<lparr>reg_load := cs\<rparr>))"
definition api_on_new_game where
  "api_on_new_game fn d r = (case api_register fn d (reg_new_game r) of (ok, cs) \<Rightarrow> (ok, r\<lparr>reg_new_game := cs\<rparr>))"

section \<open>Dispatch\<close>

definition mod_event_count :: "'m registry \<Rightarrow> event \<Rightarrow> nat" where
  "mod_event_count r ev =
     (case ev of
        MOD_EV_DAMAGE \<Rightarrow> length (reg_damage r)
      | MOD_EV_HEAL \<Rightarrow> length (reg_heal r)
      | MOD_EV_ENEMY_SPAWN \<Rightarrow> length (reg_enemy_spawn r)
      | MOD_EV_ENEMY_ACTION \<Rightarrow> length (reg_enemy_action r)
      | MOD_EV_TURN_ORDER \<Rightarrow> length (reg_turn_order r)
      | MOD_EV_SPIRIT_GAIN \<Rightarrow> length (reg_spirit_gain r)
      | MOD_EV_ESCAPE \<Rightarrow> length (reg_escape r)
      | MOD_EV_REWARDS \<Rightarrow> length (reg_rewards r)
      | MOD_EV_EFFECT \<Rightarrow> length (reg_effect r)
      | MOD_EV_ROUND_END \<Rightarrow> length (reg_round_end r)
      | MOD_EV_SHIP_DAMAGE \<Rightarrow> length (reg_ship_damage r)
      | MOD_EV_SAVE \<Rightarrow> length (reg_save r)
      | MOD_EV_LOAD \<Rightarrow> length (reg_load r)
      | MOD_EV_NEW_GAME \<Rightarrow> length (reg_new_game r))"

text \<open>The caller's context: which mod and which event were running before.\<close>

type_synonym event_ctx = "int \<times> event option"

definition event_begin :: "event \<Rightarrow> nat \<Rightarrow> int \<Rightarrow> 'm mcpu \<Rightarrow> event_ctx \<times> 'm mcpu" where
  "event_begin ev i m s =
     ((g_cur_mod (user s), g_event_now (user s)),
      mods_upd (\<lambda>d. d\<lparr>g_cur_mod := m,
        cb_calls := (cb_calls d)(ev := (cb_calls d ev)(i := Suc (cb_calls d ev i))),
        g_event_now := Some ev\<rparr>) s)"

definition event_end :: "event_ctx \<Rightarrow> 'm mcpu \<Rightarrow> 'm mcpu" where
  "event_end c = mods_upd (\<lambda>d. d\<lparr>g_event_now := snd c, g_cur_mod := fst c\<rparr>)"

text \<open>Every callback of an event in load order, each passed what the one before left.\<close>

fun event_each ::
  "event \<Rightarrow> nat \<Rightarrow> 'f callback list \<Rightarrow> ('f \<Rightarrow> 'v \<Rightarrow> 'm mcpu \<Rightarrow> 'v \<times> 'm mcpu) \<Rightarrow> 'v \<Rightarrow> 'm mcpu \<Rightarrow> 'v \<times> 'm mcpu" where
  "event_each ev i [] run v s = (v, s)"
| "event_each ev i (c # cs) run v s =
     (case event_begin ev i (cb_mod c) s of (ctx, s1) \<Rightarrow>
      case run (cb_fn c) v s1 of (v', s2) \<Rightarrow>
        event_each ev (Suc i) cs run v' (event_end ctx s2))"

text \<open>An event whose callbacks return nothing.\<close>

definition event_all :: "event \<Rightarrow> 'f callback list \<Rightarrow> ('f \<Rightarrow> 'm mcpu \<Rightarrow> 'm mcpu) \<Rightarrow> 'm mcpu \<Rightarrow> 'm mcpu" where
  "event_all ev cs run s = snd (event_each ev 0 cs (\<lambda>f _ s. ((), run f s)) () s)"

definition held_9999 :: "u32 \<Rightarrow> u32" where
  "held_9999 v = (if sint v < 0 then 0 else if v > 9999 then 9999 else v)"

definition mod_damage where
  "mod_damage r val base attacker target element s =
     apfst held_9999 (event_each MOD_EV_DAMAGE 0 (reg_damage r)
       (\<lambda>f v. f v base attacker target element) val s)"

definition mod_heal where
  "mod_heal r val source target s =
     apfst held_9999 (event_each MOD_EV_HEAL 0 (reg_heal r) (\<lambda>f v. f v source target) val s)"

definition mod_enemy_spawn where
  "mod_enemy_spawn r actor rec s =
     event_all MOD_EV_ENEMY_SPAWN (reg_enemy_spawn r) (\<lambda>f. f actor rec) s"

definition mod_enemy_action where
  "mod_enemy_action r ty slot cmd s =
     event_each MOD_EV_ENEMY_ACTION 0 (reg_enemy_action r) (\<lambda>f v. f v slot cmd) ty s"

definition mod_turn_order where
  "mod_turn_order r order s = event_each MOD_EV_TURN_ORDER 0 (reg_turn_order r) (\<lambda>f. f) order s"

definition mod_spirit_gain where
  "mod_spirit_gain r amount s = event_each MOD_EV_SPIRIT_GAIN 0 (reg_spirit_gain r) (\<lambda>f. f) amount s"

definition mod_escape where
  "mod_escape r success slot s =
     apfst (\<lambda>v. v \<noteq> 0) (event_each MOD_EV_ESCAPE 0 (reg_escape r) (\<lambda>f v. f v slot) success s)"

definition mod_rewards where
  "mod_rewards r rw s = event_each MOD_EV_REWARDS 0 (reg_rewards r) (\<lambda>f. f) rw s"

text \<open>A cancel ends the chain: the mods after it never see the effect.\<close>

fun effect_each where
  "effect_each i [] target eff val s = ((0, eff, val), s)"
| "effect_each i (c # cs) target eff val s =
     (case event_begin MOD_EV_EFFECT i (cb_mod c) s of (ctx, s1) \<Rightarrow>
      case (cb_fn c) target eff val s1 of ((cancel, eff', val'), s2) \<Rightarrow>
        let s3 = event_end ctx s2
        in if (cancel :: int) \<noteq> 0 then ((cancel, eff', val'), s3)
           else effect_each (Suc i) cs target eff' val' s3)"

definition mod_effect where
  "mod_effect r target eff val s =
     (case effect_each 0 (reg_effect r) target eff val s of
        ((cancel, eff', val'), s') \<Rightarrow> ((cancel \<noteq> 0, eff', val'), s'))"

definition mod_round_end where
  "mod_round_end r round s = event_all MOD_EV_ROUND_END (reg_round_end r) (\<lambda>f. f round) s"

definition mod_ship_damage :: "'m registry \<Rightarrow> u32 \<Rightarrow> 'm mcpu \<Rightarrow> u32 \<times> 'm mcpu" where
  "mod_ship_damage r val s =
     apfst (\<lambda>v. if sint v < 0 then 0 else v)
       (event_each MOD_EV_SHIP_DAMAGE 0 (reg_ship_damage r) (\<lambda>f. f) val s)"

text \<open>The save's events, walked by index from runtime/savext.c.\<close>

definition mod_id_at :: "'m mods_scheme \<Rightarrow> int \<Rightarrow> string" where
  "mod_id_at d m = (if 0 \<le> m \<and> m < int (length (g_mods d)) then mod_id (g_mods d ! nat m) else [])"

definition mod_save_id :: "'m registry \<Rightarrow> 'm mods_scheme \<Rightarrow> event \<Rightarrow> nat \<Rightarrow> string" where
  "mod_save_id r d ev i =
     (case ev of
        MOD_EV_SAVE \<Rightarrow> if i < length (reg_save r) then mod_id_at d (cb_mod (reg_save r ! i)) else []
      | MOD_EV_LOAD \<Rightarrow> if i < length (reg_load r) then mod_id_at d (cb_mod (reg_load r ! i)) else []
      | _ \<Rightarrow> [])"

definition mod_save_call ::
  "'m registry \<Rightarrow> nat \<Rightarrow> u8 list \<Rightarrow> u32 \<Rightarrow> 'm mcpu \<Rightarrow> (int \<times> u8 list) \<times> 'm mcpu" where
  "mod_save_call r i buf cap s =
     (if i \<ge> length (reg_save r) then ((-1, buf), s)
      else (let c = reg_save r ! i in
        case event_begin MOD_EV_SAVE i (cb_mod c) s of (ctx, s1) \<Rightarrow>
        case (cb_fn c) buf cap s1 of (n, s2) \<Rightarrow> (n, event_end ctx s2)))"

definition mod_load_call :: "'m registry \<Rightarrow> nat \<Rightarrow> u8 list option \<Rightarrow> 'm mcpu \<Rightarrow> 'm mcpu" where
  "mod_load_call r i data s =
     (if i \<ge> length (reg_load r) then s
      else (let c = reg_load r ! i in
        case event_begin MOD_EV_LOAD i (cb_mod c) s of (ctx, s1) \<Rightarrow>
          event_end ctx ((cb_fn c) data s1)))"

definition mod_new_game :: "'m registry \<Rightarrow> 'm mcpu \<Rightarrow> 'm mcpu" where
  "mod_new_game r s = event_all MOD_EV_NEW_GAME (reg_new_game r) (\<lambda>f. f) s"

definition mod_loaded :: "'m mods_scheme \<Rightarrow> string \<Rightarrow> bool" where
  "mod_loaded d i = list_ex (\<lambda>m. mod_id m \<noteq> [] \<and> mod_id m = i) (g_mods d)"

section \<open>Writes of mods spare the game's code\<close>

lemma mods_upd_simps [simp]:
  "mem (mods_upd f s) = mem s" "user (mods_upd f s) = f (user s)" "gpr (mods_upd f s) = gpr s"
  by (simp_all add: mods_upd_def)

lemma mem_wrote [simp]: "mem (wrote s) = mem s"
  by (simp add: wrote_def)

lemma api_ok_refused: "api_ok hazard a n al wr s = (False, s1) \<Longrightarrow> s1 = s"
  by (auto simp: api_ok_def split: if_splits)

text \<open>An access that is let through lies in RAM, and a write away from every code section.\<close>

lemma api_ok_range:
  assumes "api_ok hazard a n al wr s = (True, s1)"
  shows "s1 = hazard a n s" and "0x80000000 \<le> a" and "unat a + unat n \<le> 0x81800000"
    and "wr \<Longrightarrow> \<not> in_code (g_text (user s)) a n"
proof -
  have r: "\<not> a < 0x80000000" "\<not> a \<ge> 0x81800000" "\<not> n > 0x81800000 - a"
    using assms by (auto simp: api_ok_def MEM1_SIZE_def split: if_splits)
  show "s1 = hazard a n s" "wr \<Longrightarrow> \<not> in_code (g_text (user s)) a n"
    using assms by (auto simp: api_ok_def split: if_splits)
  show "0x80000000 \<le> a" using r by simp
  have "unat (0x81800000 - a :: u32) = 0x81800000 - unat a"
    using r(2) by (simp add: unat_sub word_less_nat_alt not_le order_less_imp_le)
  then show "unat a + unat n \<le> 0x81800000"
    using r(2,3) by (simp add: word_less_nat_alt not_less not_le)
qed

text \<open>The RAM window maps to the image one to one, so offsets compare like addresses.\<close>

lemma mem_ptr_ram:
  assumes "0x80000000 \<le> a" "unat a \<le> 0x81800000"
  shows "mem_ptr a = unat a - 0x80000000"
proof -
  obtain d where d: "unat a = d + 64 * 0x02000000"
  proof
    show "unat a = (unat a - 0x80000000) + 64 * 0x02000000"
      using assms(1) by (simp add: word_le_nat_alt)
  qed
  have "mem_ptr a = (d + 64 * 0x02000000) mod 0x02000000"
    using mem_ptr_mod [of a] by (simp only: d) simp
  also have "\<dots> = d mod 0x02000000" by (rule mod_mult_self1)
  also have "\<dots> = d" using assms(2) d by simp
  finally show ?thesis using d by simp
qed

lemma ram_plain:
  assumes "0x80000000 \<le> a" "unat a < 0x81800000"
  shows "\<not> is_mmio a"
proof -
  have "unat (drop_bit 24 a) \<le> 0x81"
    using assms(2) by (simp only: unat_drop_bit_eq) (simp add: drop_bit_eq_div)
  then show ?thesis by (auto simp: is_mmio_def Let_def)
qed

text \<open>A store of the model at an address let through changes only the bytes it names.\<close>

lemma mem_w_plain:
  assumes "\<not> is_mmio a"
  shows "mem (mem_w8 io a v8 s) = wr_bytes (mem s) (mem_ptr a) [v8]"
    and "mem (mem_w16 io a v16 s) = wr_bytes (mem s) (mem_ptr a) (put16 (ucast v16))"
    and "mem (mem_w32 io a v32 s) = wr_bytes (mem s) (mem_ptr a) (put32 v32)"
  using assms by (auto simp: mem_w8_def mem_w16_def mem_w32_def wr_bytes_def fun_eq_iff)

lemma spared_outside:
  assumes ok: "api_ok hazard a n al True s = (True, s1)" and n: "0 < unat n"
    and code: "(lo, hi) \<in> set (g_text (user s))" "0x80000000 \<le> lo" "hi \<le> 0x81800000" "lo \<le> x" "x < hi"
    and len: "length bs = unat n"
  shows "wr_bytes m (mem_ptr a) bs (mem_ptr x) = m (mem_ptr x)" and "\<not> is_mmio a"
proof -
  note r = api_ok_range [OF ok]
  have x: "0x80000000 \<le> x" "unat x \<le> 0x81800000"
    using code by (auto simp: word_le_nat_alt word_less_nat_alt)
  have a: "unat a < 0x81800000" using r(3) n by simp
  show "\<not> is_mmio a" by (rule ram_plain [OF r(2) a])
  have "lo < hi" using code by (simp add: word_le_nat_alt word_less_nat_alt)
  moreover have "\<not> (lo < hi \<and> a < hi \<and> lo < a + n)"
    using r(4) code(1) by (fastforce simp: in_code_def list_ex_iff)
  moreover have "unat (a + n) = unat a + unat n"
    using r(3) by (simp add: unat_word_ariths)
  ultimately have "hi \<le> a \<or> unat a + unat n \<le> unat lo"
    by (auto simp: word_less_nat_alt word_le_nat_alt)
  then have "mem_ptr x < mem_ptr a \<or> mem_ptr a + unat n \<le> mem_ptr x"
    using code x a r(2) mem_ptr_ram [OF x] mem_ptr_ram [OF r(2)]
    by (auto simp: word_less_nat_alt word_le_nat_alt)
  then show "wr_bytes m (mem_ptr a) bs (mem_ptr x) = m (mem_ptr x)"
    using len by (intro wr_bytes_outside) auto
qed

definition write_spares :: "u32 \<Rightarrow> 'm mcpu \<Rightarrow> 'm mcpu \<Rightarrow> bool \<times> 'm mcpu \<Rightarrow> bool" where
  "write_spares x waited s res = (case res of (ok, s') \<Rightarrow>
     if ok then mem s' (mem_ptr x) = mem waited (mem_ptr x) else s' = s)"

text \<open>C7: Whatever a mod writes through the API, at whatever address, width and alignment,
  the bytes of the game's code are afterwards what they were once the renderer's copies had
  finished; and a write that is refused leaves the whole state as it was.\<close>

theorem mod_writes_spare_code:
  assumes "(lo, hi) \<in> set (g_text (user s))" "0x80000000 \<le> lo" "hi \<le> 0x81800000" "lo \<le> x" "x < hi"
    and "length bs < 2 ^ 32"
  shows "write_spares x (hazard a 1 s) s (api_write8 io hazard a v8 s) \<and>
    write_spares x (hazard a 2 s) s (api_write16 io hazard a v16 s) \<and>
    write_spares x (hazard a 4 s) s (api_write32 io hazard a v32 s) \<and>
    write_spares x (hazard a (of_nat (length bs)) s) s (api_write_bytes hazard a bs s)"
proof (intro conjI)
  note out = spared_outside [OF _ _ assms(1-5)]
  note ref = api_ok_refused [of hazard a _ _ True s] and ran = api_ok_range(1) [of hazard a _ _ True s]
  show "write_spares x (hazard a 1 s) s (api_write8 io hazard a v8 s)"
    using ref [of 1 1] ran [of 1 1] out [of hazard a 1 1 _ "[v8]"]
    by (auto simp: api_write8_def write_spares_def mem_w_plain split: prod.splits)
  show "write_spares x (hazard a 2 s) s (api_write16 io hazard a v16 s)"
    using ref [of 2 2] ran [of 2 2] out [of hazard a 2 2 _ "put16 (ucast v16)"]
    by (auto simp: api_write16_def write_spares_def mem_w_plain split: prod.splits)
  show "write_spares x (hazard a 4 s) s (api_write32 io hazard a v32 s)"
    using ref [of 4 4] ran [of 4 4] out [of hazard a 4 4 _ "put32 v32"]
    by (auto simp: api_write32_def write_spares_def mem_w_plain split: prod.splits)
  show "write_spares x (hazard a (of_nat (length bs)) s) s (api_write_bytes hazard a bs s)"
    using ref [of "of_nat (length bs)" 1] ran [of "of_nat (length bs)" 1]
      out(1) [of hazard a "of_nat (length bs)" 1 _ bs] assms(6)
    by (cases "bs = []") (auto simp: api_write_bytes_def write_spares_def unat_of_nat split: prod.splits)
qed

definition mods0 :: mods where
  "mods0 = \<lparr>g_mods = [\<lparr>mod_dir = ''a'', mod_id = ''mod.a'', mod_writes = 0\<rparr>,
      \<lparr>mod_dir = ''b'', mod_id = ''mod.b'', mod_writes = 0\<rparr>],
    g_s_set = True, g_text = [(0x80003100, 0x80003200)], g_cur_mod = -1, g_in_init = False,
    g_init_id = [], g_event_now = None, cb_calls = (\<lambda>_ _. 0)\<rparr>"

definition guest0 :: "mods cpu" where
  "guest0 = \<lparr>gpr = (\<lambda>_. 0), fpr = (\<lambda>_. (0, 0)), cr = 0, xer = 0, lr = 0, ctr = 0, fpscr = 0, msr = 0,
    decr = 0, pc = 0, gqr = (\<lambda>_. 0), hid2 = 0, wpar = 0, spr = (\<lambda>_. 0), sr = (\<lambda>_. 0),
    mem = (\<lambda>_. 0), user = mods0\<rparr>"

definition io0 :: "mods io" where
  "io0 = \<lparr>mmio_read = (\<lambda>_ _ s. (0, s)), mmio_write = (\<lambda>_ _ _ s. s), gx_pipe_write = (\<lambda>_ _ s. s)\<rparr>"

text \<open>The last word before the code is taken, the one that reaches into it is refused.\<close>

theorem mod_writes_spare_code_witness:
  "write_spares 0x80003100 guest0 guest0 (api_write32 io0 (\<lambda>_ _ s. s) 0x800030FC 0xDEADBEEF guest0)
    \<and> fst (api_write32 io0 (\<lambda>_ _ s. s) 0x800030FC 0xDEADBEEF guest0)
    \<and> \<not> fst (api_write_bytes (\<lambda>_ _ s. s) 0x800030FC [1, 2, 3, 4, 5] guest0)"
  using mod_writes_spare_code [of "0x80003100" "0x80003200" guest0 "0x80003100" "[]" "\<lambda>_ _ s. s"
      "0x800030FC" io0 0 0 "0xDEADBEEF"]
  by (simp add: guest0_def mods0_def api_write32_def api_write_bytes_def api_ok_def in_code_def MEM1_SIZE_def)

section \<open>Dispatch restores its caller's context\<close>

text \<open>Which mod and which event are running.\<close>

definition running :: "'m mcpu \<Rightarrow> event_ctx" where
  "running s = (g_cur_mod (user s), g_event_now (user s))"

lemma running_event_end [simp]: "running (event_end ctx s) = ctx"
  by (simp add: running_def event_end_def)

lemma event_begin_ctx: "event_begin ev i m s = (ctx, s1) \<Longrightarrow> ctx = running s \<and> running s1 = (m, Some ev)"
  by (auto simp: event_begin_def running_def)

lemma event_begin_calls: "event_begin ev i m s = (ctx, s1) \<Longrightarrow>
    cb_calls (user s1) e j = cb_calls (user s) e j + (if e = ev \<and> j = i then 1 else 0)"
  by (auto simp: event_begin_def)

lemma cb_calls_event_end [simp]: "cb_calls (user (event_end ctx s)) = cb_calls (user s)"
  by (simp add: event_end_def)

lemma event_each_running: "running (snd (event_each ev i cs run v s)) = running s"
  by (induction ev i cs run v s rule: event_each.induct)
    (auto split: prod.splits dest: event_begin_ctx)

lemma event_all_running: "running (event_all ev cs run s) = running s"
  by (simp add: event_all_def event_each_running)

lemma effect_each_running: "running (snd (effect_each i cs target eff val s)) = running s"
  by (induction i cs target eff val s rule: effect_each.induct)
    (auto simp: Let_def split: prod.splits dest: event_begin_ctx)

lemma mod_calls_running:
  "running (snd (mod_save_call r i buf cap s)) = running s" "running (mod_load_call r i data s) = running s"
  by (auto simp: mod_save_call_def mod_load_call_def Let_def split: prod.splits dest: event_begin_ctx)

lemma held_9999_le: "unat (held_9999 v) \<le> 9999"
  by (simp add: held_9999_def word_less_nat_alt)

text \<open>Each callback of an event is called once, and no other event's is.\<close>

lemma event_each_calls:
  assumes "\<And>c v s. c \<in> set cs \<Longrightarrow> cb_calls (user (snd (run (cb_fn c) v s))) = cb_calls (user s)"
  shows "cb_calls (user (snd (event_each ev i cs run v s))) e j
    = cb_calls (user s) e j + (if e = ev \<and> i \<le> j \<and> j < i + length cs then 1 else 0)"
  using assms
proof (induction cs arbitrary: i v s)
  case (Cons c cs)
  obtain ctx s1 where b: "event_begin ev i (cb_mod c) s = (ctx, s1)" by fastforce
  obtain v' s2 where r: "run (cb_fn c) v s1 = (v', s2)" by fastforce
  have "cb_calls (user s2) = cb_calls (user s1)" using Cons.prems [of c v s1] r by simp
  then show ?case
    using Cons.IH [of "Suc i" v' "event_end ctx s2"] Cons.prems event_begin_calls [OF b, of e j] b r
    by auto
qed simp

text \<open>A damage the battle worked out goes through every mod's callback once, comes back
  held to 0-9999 whatever the mods return, and leaves the running mod and event as its caller
  had them; a ship's damage is never negative either.\<close>

theorem damage_dispatched:
  assumes "\<And>c v s. c \<in> set (reg_damage r) \<Longrightarrow>
      cb_calls (user (snd (cb_fn c v base attacker target element s))) = cb_calls (user s)"
  shows "case mod_damage r dmg base attacker target element s of (v', s') \<Rightarrow>
      unat v' \<le> 9999 \<and> running s' = running s
      \<and> (\<forall>ev i. cb_calls (user s') ev i = cb_calls (user s) ev i
            + (if ev = MOD_EV_DAMAGE \<and> i < mod_event_count r MOD_EV_DAMAGE then 1 else 0))
      \<and> 0 \<le> sint (fst (mod_ship_damage r dmg s))"
proof -
  have "unat (fst (mod_damage r dmg base attacker target element s)) \<le> 9999"
    by (simp add: mod_damage_def held_9999_le)
  moreover have "running (snd (mod_damage r dmg base attacker target element s)) = running s"
    by (simp add: mod_damage_def event_each_running)
  moreover have "cb_calls (user (snd (mod_damage r dmg base attacker target element s))) ev i
      = cb_calls (user s) ev i + (if ev = MOD_EV_DAMAGE \<and> i < length (reg_damage r) then 1 else 0)" for ev i
    using event_each_calls [of "reg_damage r" "\<lambda>f v. f v base attacker target element"
        MOD_EV_DAMAGE 0 dmg s ev i] assms
    by (auto simp: mod_damage_def)
  moreover have "0 \<le> sint (fst (mod_ship_damage r dmg s))"
    by (simp add: mod_ship_damage_def)
  ultimately show ?thesis by (auto simp: mod_event_count_def split: prod.splits)
qed

text \<open>A mod that doubles every damage, loaded before one that adds its own id.\<close>

definition registry0 :: "unit registry" where
  "registry0 = \<lparr>reg_frame_end = [], reg_safe_point = [], reg_map_loaded = [], reg_scene_change = [],
    reg_damage = [\<lparr>cb_fn = (\<lambda>v _ _ _ _ s. (2 * v, s)), cb_mod = 0\<rparr>,
      \<lparr>cb_fn = (\<lambda>v _ _ _ _ s. (v + of_int (g_cur_mod (user s)), s)), cb_mod = 1\<rparr>],
    reg_heal = [], reg_enemy_spawn = [], reg_enemy_action = [], reg_turn_order = [], reg_spirit_gain = [],
    reg_escape = [], reg_rewards = [], reg_effect = [], reg_round_end = [], reg_ship_damage = [],
    reg_save = [], reg_load = [], reg_new_game = []\<rparr>"

theorem damage_dispatched_witness:
  "fst (mod_damage registry0 21 21 0 4 1 guest0) = 43
    \<and> (case mod_damage registry0 21 21 0 4 1 guest0 of (v', s') \<Rightarrow>
        unat v' \<le> 9999 \<and> running s' = (-1, None) \<and> cb_calls (user s') MOD_EV_DAMAGE 1 = 1)"
proof -
  have r: "running guest0 = (-1, None)" "cb_calls (user guest0) MOD_EV_DAMAGE 1 = 0"
    by (simp_all add: running_def guest0_def mods0_def)
  have "fst (mod_damage registry0 21 21 0 4 1 guest0) = 43"
    by (simp add: mod_damage_def registry0_def event_begin_def event_end_def held_9999_def
        guest0_def mods0_def)
  moreover have "mod_event_count registry0 MOD_EV_DAMAGE = 2"
    by (simp add: mod_event_count_def registry0_def)
  moreover have "case mod_damage registry0 21 21 0 4 1 guest0 of (v', s') \<Rightarrow>
      unat v' \<le> 9999 \<and> running s' = running guest0
      \<and> (\<forall>ev i. cb_calls (user s') ev i = cb_calls (user guest0) ev i
            + (if ev = MOD_EV_DAMAGE \<and> i < mod_event_count registry0 MOD_EV_DAMAGE then 1 else 0))
      \<and> 0 \<le> sint (fst (mod_ship_damage registry0 21 guest0))"
    by (rule damage_dispatched) (auto simp: registry0_def)
  ultimately show ?thesis
    using r by (auto split: prod.splits)
qed

text \<open>One save callback per mod: what the chunks of a save are keyed by.\<close>

lemma save_register_distinct:
  "save_register fn d cbs = (ok, cbs') \<Longrightarrow> distinct (map cb_mod cbs) \<Longrightarrow> distinct (map cb_mod cbs')"
  by (fastforce simp: save_register_def api_register_def list_ex_iff split: if_splits option.splits)

lemma register_bounded:
  "api_register fn d cbs = (ok, cbs') \<Longrightarrow> length cbs \<le> CB_MAX \<Longrightarrow> length cbs' \<le> CB_MAX"
  by (auto simp: api_register_def split: if_splits option.splits)

end
