(* ===== verification/ModClaims.thy ===== *)
theory ModClaims
  imports ModEvents "HOL-Library.Char_ord"
begin

text \<open>
  runtime/mod.c, content ids claimed by name: \<open>claim = flag <name>\<close> in a mod's manifest gets
  its number from mods.lock beside the mods, or the lock's next one, which only rises. Here
  are the text helpers the reader uses (\<open>next_line\<close>, \<open>split\<close>, decimal numbers), the lock
  (\<open>lock_read\<close>, \<open>lock_write\<close>, \<open>claim_assign\<close>, \<open>api_claim\<close>) and the claims chunk of a save
  (\<open>mod_claims_text\<close>, \<open>mod_claims_check\<close>). C strings are lists of characters without the
  terminator; the file system is the text of the lock file, or None where there is no file.
\<close>

section \<open>Text\<close>

definition LINE_MAX_LEN :: nat where "LINE_MAX_LEN = 512"

definition nl :: char where "nl = CHR 0x0A"

definition is_sep :: "char \<Rightarrow> bool" where
  "is_sep c \<longleftrightarrow> c \<in> {CHR '' '', CHR 0x09, CHR 0x0D, CHR 0x0A}"

definition is_digit :: "char \<Rightarrow> bool" where
  "is_digit c \<longleftrightarrow> CHR ''0'' \<le> c \<and> c \<le> CHR ''9''"

definition is_lower :: "char \<Rightarrow> bool" where
  "is_lower c \<longleftrightarrow> CHR ''a'' \<le> c \<and> c \<le> CHR ''z''"

text \<open>The next line of a text: whether it was cut, the line, and the rest.\<close>

definition next_line :: "string \<Rightarrow> (bool \<times> string \<times> string) option" where
  "next_line t =
     (if t = [] then None
      else (let l = takeWhile (\<lambda>c. c \<noteq> nl) t; r = dropWhile (\<lambda>c. c \<noteq> nl) t
            in Some (length l > LINE_MAX_LEN - 1, take (LINE_MAX_LEN - 1) l, drop 1 r)))"

lemma drop_rest_shorter: "q \<noteq> [] \<Longrightarrow> length (drop 1 (dropWhile P q)) < length q"
  using length_dropWhile_le [of P q] by (cases q) auto

function tokens :: "string \<Rightarrow> string list" where
  "tokens p = (let q = dropWhile is_sep p in
     if q = [] then [] else takeWhile (\<lambda>c. \<not> is_sep c) q # tokens (drop 1 (dropWhile (\<lambda>c. \<not> is_sep c) q)))"
  by pat_completeness auto
termination
proof (relation "measure length", simp)
  fix p q :: string
  assume q: "q = dropWhile is_sep p" and ne: "q \<noteq> []"
  have "length (drop 1 (dropWhile (\<lambda>c. \<not> is_sep c) q)) < length q"
    by (rule drop_rest_shorter [OF ne])
  also have "\<dots> \<le> length p" by (simp add: q length_dropWhile_le)
  finally show "(drop 1 (dropWhile (\<lambda>c. \<not> is_sep c) q), p) \<in> measure length" by simp
qed

declare tokens.simps [simp del]

text \<open>At most \<open>mx\<close> words of a line, a number sign ending it; None for more.\<close>

definition split_line :: "string \<Rightarrow> nat \<Rightarrow> string list option" where
  "split_line line mx = (let ts = tokens (takeWhile (\<lambda>c. c \<noteq> CHR ''#'') line)
     in if length ts > mx then None else Some ts)"

text \<open>Decimal numbers: printed by \<open>%u\<close>, read by \<open>strtoul\<close> with a 64-bit \<open>unsigned long\<close>.\<close>

definition digit_char :: "nat \<Rightarrow> char" where
  "digit_char d = char_of (48 + d)"

fun dec :: "nat \<Rightarrow> string" where
  "dec n = (if n < 10 then [digit_char n] else dec (n div 10) @ [digit_char (n mod 10)])"

declare dec.simps [simp del]

definition digits_val :: "string \<Rightarrow> nat" where
  "digits_val = foldl (\<lambda>v c. 10 * v + (of_char c - 48)) 0"

definition ULONG_MAX :: nat where "ULONG_MAX = 2 ^ 64 - 1"

definition is_space :: "char \<Rightarrow> bool" where
  "is_space c \<longleftrightarrow> is_sep c \<or> c = CHR 0x0B \<or> c = CHR 0x0C"

definition strtoul :: "string \<Rightarrow> nat \<times> string" where
  "strtoul s =
     (let p = dropWhile is_space s;
          neg = (p \<noteq> [] \<and> hd p = CHR ''-'');
          q = (if p \<noteq> [] \<and> hd p \<in> {CHR ''-'', CHR ''+''} then tl p else p);
          ds = takeWhile is_digit q;
          v = digits_val ds
      in if ds = [] then (0, s)
         else (if v > ULONG_MAX then ULONG_MAX
               else if neg then (ULONG_MAX + 1 - v) mod (ULONG_MAX + 1) else v,
               dropWhile is_digit q))"

section \<open>Claims\<close>

definition CLAIM_MAX :: nat where "CLAIM_MAX = 512"
definition CLAIM_NAME :: nat where "CLAIM_NAME = 48"
definition FLAG_FIRST :: nat where "FLAG_FIRST = 24576"
definition FLAG_LAST :: nat where "FLAG_LAST = 27327"

record claim =
  cl_mod :: string
  cl_name :: string
  cl_number :: nat

record lock =
  g_claims :: "claim list"
  g_next_flag :: nat
  g_lock_dirty :: bool
  g_lock_bad :: bool

definition id_char :: "char \<Rightarrow> bool" where
  "id_char c \<longleftrightarrow> is_lower c \<or> is_digit c \<or> c \<in> {CHR ''.'', CHR ''_'', CHR ''-''}"

definition good_id :: "string \<Rightarrow> bool" where
  "good_id s \<longleftrightarrow> s \<noteq> [] \<and> length s < 64 \<and> (is_lower (hd s) \<or> is_digit (hd s)) \<and> list_all id_char s"

definition good_claim_name :: "string \<Rightarrow> bool" where
  "good_claim_name s \<longleftrightarrow> s \<noteq> [] \<and> length s < CLAIM_NAME \<and> list_all id_char s"

definition find_claim :: "claim list \<Rightarrow> string \<Rightarrow> string \<Rightarrow> claim option" where
  "find_claim cs m n = find (\<lambda>c. cl_mod c = m \<and> cl_name c = n) cs"

text \<open>One line of mods.lock; None where it cannot be read.\<close>

definition lock_line :: "bool \<Rightarrow> string \<Rightarrow> lock \<Rightarrow> lock option" where
  "lock_line long line l =
     (case if long then None else split_line (takeWhile (\<lambda>c. c \<noteq> CHR ''#'') line) 8 of
        None \<Rightarrow> None
      | Some [] \<Rightarrow> Some l
      | Some [t0, t1, t2] \<Rightarrow>
          if t0 = ''next'' \<and> t1 = ''flag'' then
            (case strtoul t2 of (v, rest) \<Rightarrow>
               if rest \<noteq> [] \<or> v < FLAG_FIRST \<or> v > FLAG_LAST + 1 then None
               else Some (if v > g_next_flag l then l\<lparr>g_next_flag := v\<rparr> else l))
          else None
      | Some [t0, t1, t2, t3] \<Rightarrow>
          if t0 = ''flag'' \<and> good_id t1 \<and> good_claim_name t2 \<and> length (g_claims l) < CLAIM_MAX
             \<and> find_claim (g_claims l) t1 t2 = None then
            (case strtoul t3 of (v, rest) \<Rightarrow>
               if rest \<noteq> [] \<or> v < FLAG_FIRST \<or> v > FLAG_LAST then None
               else Some (l\<lparr>g_claims := g_claims l @ [\<lparr>cl_mod = take 63 t1, cl_name = take (CLAIM_NAME - 1) t2,
                              cl_number = v\<rparr>],
                            g_next_flag := (if v + 1 > g_next_flag l then v + 1 else g_next_flag l)\<rparr>))
          else None
      | Some _ \<Rightarrow> None)"

text \<open>The loop over the lines: false with the state reached where a line cannot be read.\<close>

function lock_lines :: "string \<Rightarrow> lock \<Rightarrow> bool \<times> lock" where
  "lock_lines t l =
     (case next_line t of
        None \<Rightarrow> (True, l)
      | Some (long, line, rest) \<Rightarrow>
          (case lock_line long line l of
             None \<Rightarrow> (False, l\<lparr>g_lock_bad := True\<rparr>)
           | Some l' \<Rightarrow> lock_lines rest l'))"
  by pat_completeness auto
termination
  by (relation "measure (\<lambda>(t, l). length t)")
    (auto simp: next_line_def Let_def drop_rest_shorter [simplified] split: if_splits)

definition nul :: char where "nul = CHR 0x00"

text \<open>mods.lock read before any mod; with no file there is nothing to say.\<close>

definition lock_read :: "string option \<Rightarrow> bool \<times> lock" where
  "lock_read f =
     (let l0 = \<lparr>g_claims = [], g_next_flag = FLAG_FIRST, g_lock_dirty = False, g_lock_bad = False\<rparr>
      in case f of None \<Rightarrow> (True, l0)
         | Some t \<Rightarrow> lock_lines (takeWhile (\<lambda>c. c \<noteq> nul) t) l0)"

definition claim_line :: "claim \<Rightarrow> string" where
  "claim_line c = ''flag '' @ cl_mod c @ '' '' @ cl_name c @ '' '' @ dec (cl_number c) @ [nl]"

definition lock_text :: "lock \<Rightarrow> string" where
  "lock_text l =
     ''# The numbers this install gave mods' claims (T2, docs/specs/content-ids.md).'' @ [nl]
     @ ''# Never change a number: saves depend on it. A number is never handed out twice.'' @ [nl]
     @ ''next flag '' @ dec (g_next_flag l) @ [nl]
     @ concat (map claim_line (g_claims l))"

text \<open>
  The lock written beside its place and renamed over it; whether the file could be opened,
  closed and renamed is up to the file system.
\<close>

definition lock_write :: "bool \<Rightarrow> bool \<Rightarrow> bool \<Rightarrow> lock \<Rightarrow> string option \<Rightarrow> string option \<times> lock" where
  "lock_write opens closes renames l f =
     (if \<not> g_lock_dirty l then (f, l)
      else if \<not> opens then (f, l)
      else if \<not> closes then (f, l)
      else (if renames then Some (lock_text l) else None, l\<lparr>g_lock_dirty := False\<rparr>))"

text \<open>A mod's claims, numbered before its library's init runs: whether it is refused, and the lock.\<close>

fun claim_loop :: "string \<Rightarrow> string list \<Rightarrow> lock \<Rightarrow> bool \<times> lock" where
  "claim_loop m [] l = (False, l)"
| "claim_loop m (n # ns) l =
     (case find_claim (g_claims l) m n of
        Some c \<Rightarrow> claim_loop m ns l
      | None \<Rightarrow>
          if length (g_claims l) = CLAIM_MAX \<or> g_next_flag l > FLAG_LAST then (True, l)
          else claim_loop m ns (l\<lparr>g_claims := g_claims l @ [\<lparr>cl_mod = take 63 m,
                   cl_name = take (CLAIM_NAME - 1) n, cl_number = g_next_flag l\<rparr>],
                 g_next_flag := Suc (g_next_flag l), g_lock_dirty := True\<rparr>))"

definition claim_assign :: "string \<Rightarrow> string list \<Rightarrow> lock \<Rightarrow> bool \<times> lock" where
  "claim_assign m names l = (if g_lock_bad l then (True, l) else claim_loop m names l)"

text \<open>A mod asks for the number of its own claim, in its init or in a callback.\<close>

definition api_claim :: "'m mods_scheme \<Rightarrow> lock \<Rightarrow> string option \<Rightarrow> string option \<Rightarrow> nat option" where
  "api_claim d l kind name =
     (let m = (if g_in_init d then g_init_id d else mod_id_at d (g_cur_mod d))
      in case name of None \<Rightarrow> None
         | Some n \<Rightarrow> if kind \<noteq> Some ''flag'' \<or> m = [] then None
                     else map_option cl_number (find_claim (g_claims l) m n))"

section \<open>The claims chunk of a save\<close>

fun claims_text_loop :: "claim list \<Rightarrow> nat \<Rightarrow> nat \<Rightarrow> string" where
  "claims_text_loop [] used cap = []"
| "claims_text_loop (c # cs) used cap =
     (let k = length (claim_line c)
      in if k \<ge> cap - used then [] else claim_line c @ claims_text_loop cs (used + k) cap)"

definition mod_claims_text :: "lock \<Rightarrow> nat \<Rightarrow> string" where
  "mod_claims_text l cap = claims_text_loop (g_claims l) 0 cap"

definition mod_claims_count :: "lock \<Rightarrow> nat" where
  "mod_claims_count l = length (g_claims l)"

text \<open>The lines of a save's claims that this install numbers otherwise, counted.\<close>

definition claim_differs :: "claim list \<Rightarrow> string \<Rightarrow> bool" where
  "claim_differs cs line =
     (case split_line (takeWhile (\<lambda>c. c \<noteq> nul) (take 159 line)) 8 of
        Some [t0, t1, t2, t3] \<Rightarrow>
          t0 = ''flag'' \<and> (case find_claim cs t1 t2 of None \<Rightarrow> False
                            | Some c \<Rightarrow> cl_number c \<noteq> fst (strtoul t3))
      | _ \<Rightarrow> False)"

function claims_check_loop :: "claim list \<Rightarrow> string \<Rightarrow> nat" where
  "claims_check_loop cs t =
     (if t = [] then 0
      else (if claim_differs cs (takeWhile (\<lambda>c. c \<noteq> nl) t) then 1 else 0)
           + claims_check_loop cs (drop 1 (dropWhile (\<lambda>c. c \<noteq> nl) t)))"
  by pat_completeness auto
termination
  by (relation "measure (\<lambda>(cs, t). length t)") (auto simp: drop_rest_shorter [simplified])

declare lock_lines.simps [simp del] claims_check_loop.simps [simp del]

definition mod_claims_check :: "lock \<Rightarrow> string \<Rightarrow> nat" where
  "mod_claims_check l t = claims_check_loop (g_claims l) t"

section \<open>Numbers and words read back\<close>

lemma of_char_digit: "d < 10 \<Longrightarrow> of_char (digit_char d) = 48 + d"
  by (simp add: digit_char_def)

lemma is_digit_char: "d < 10 \<Longrightarrow> is_digit (digit_char d)"
  by (simp add: is_digit_def less_eq_char_def of_char_digit)

lemma digits_val_snoc: "digits_val (ds @ [c]) = 10 * digits_val ds + (of_char c - 48)"
  by (simp add: digits_val_def)

lemma digits_val_dec: "digits_val (dec n) = n"
proof (induction n rule: dec.induct)
  case (1 n)
  show ?case
  proof (cases "n < 10")
    case True
    then show ?thesis by (subst dec.simps) (simp add: digits_val_def of_char_digit)
  next
    case False
    then show ?thesis using 1 by (subst dec.simps) (simp add: digits_val_snoc of_char_digit)
  qed
qed

lemma dec_digits: "list_all is_digit (dec n)" "dec n \<noteq> []"
proof (induction n rule: dec.induct)
  case (1 n)
  {
    case 1
    show ?case using "1.IH"(1) by (subst dec.simps) (simp add: is_digit_char)
  next
    case 2
    show ?case by (subst dec.simps) simp
  }
qed

lemma digit_not_space: "is_digit c \<Longrightarrow> \<not> is_space c \<and> c \<noteq> CHR ''-'' \<and> c \<noteq> CHR ''+'' \<and> \<not> is_sep c
    \<and> c \<noteq> CHR ''#'' \<and> c \<noteq> nl \<and> c \<noteq> nul"
  by (auto simp: is_digit_def is_space_def is_sep_def nl_def nul_def less_eq_char_def)

lemma strtoul_dec: "n \<le> ULONG_MAX \<Longrightarrow> strtoul (dec n) = (n, [])"
proof -
  assume n: "n \<le> ULONG_MAX"
  obtain c cs where d: "dec n = c # cs" using dec_digits(2) by (cases "dec n") auto
  have c: "is_digit c" "list_all is_digit cs" using dec_digits(1) [of n] d by auto
  have "dropWhile is_space (dec n) = dec n" using digit_not_space [OF c(1)] d by simp
  moreover have "takeWhile is_digit (dec n) = dec n" "dropWhile is_digit (dec n) = []"
    using dec_digits(1) [of n] by (auto simp: takeWhile_eq_all_conv list_all_iff)
  ultimately show ?thesis
    using digit_not_space [OF c(1)] n d digits_val_dec [of n] by (simp add: strtoul_def Let_def)
qed

definition word_ok :: "string \<Rightarrow> bool" where
  "word_ok w \<longleftrightarrow> w \<noteq> [] \<and> list_all (\<lambda>c. \<not> is_sep c \<and> c \<noteq> CHR ''#'' \<and> c \<noteq> nl \<and> c \<noteq> nul) w"

lemma tokens_word:
  assumes "word_ok w"
  shows "tokens (w @ CHR '' '' # t) = w # tokens t" and "tokens w = [w]"
proof -
  obtain c w' where w: "w = c # w'" using assms by (cases w) (auto simp: word_ok_def)
  have n: "\<not> is_sep c" "list_all (\<lambda>c. \<not> is_sep c) w" using assms w by (auto simp: word_ok_def list_all_iff)
  have s: "is_sep (CHR '' '')" by (simp add: is_sep_def)
  have "takeWhile (\<lambda>c. \<not> is_sep c) (w @ CHR '' '' # t) = w"
    "dropWhile (\<lambda>c. \<not> is_sep c) (w @ CHR '' '' # t) = CHR '' '' # t"
    using n(2) s by (auto simp: takeWhile_append2 dropWhile_append2 list_all_iff)
  then show "tokens (w @ CHR '' '' # t) = w # tokens t"
    using n w by (subst tokens.simps) (simp add: Let_def)
  have t: "takeWhile (\<lambda>c. \<not> is_sep c) w = w" and d: "dropWhile (\<lambda>c. \<not> is_sep c) w = []"
    using n(2) by (auto simp: takeWhile_eq_all_conv list_all_iff)
  have "dropWhile is_sep w = w" using n(1) w by simp
  then have "tokens w = takeWhile (\<lambda>c. \<not> is_sep c) w # tokens (drop 1 (dropWhile (\<lambda>c. \<not> is_sep c) w))"
    using w by (subst tokens.simps) (simp add: Let_def)
  also have "\<dots> = [w]" unfolding t d by (subst tokens.simps) simp
  finally show "tokens w = [w]" .
qed

lemma no_hash: "word_ok w \<Longrightarrow> CHR ''#'' \<notin> set w \<and> nl \<notin> set w \<and> nul \<notin> set w"
  by (auto simp: word_ok_def list_all_iff)

lemma takeWhile_absent: "x \<notin> set w \<Longrightarrow> takeWhile (\<lambda>c. c \<noteq> x) w = w"
  by (auto simp: takeWhile_eq_all_conv)

lemma split_words:
  assumes "word_ok a" "word_ok b" "word_ok c" "word_ok d"
  shows "split_line (a @ '' '' @ b @ '' '' @ c @ '' '' @ d) 8 = Some [a, b, c, d]"
    and "split_line (a @ '' '' @ b @ '' '' @ c) 8 = Some [a, b, c]"
proof -
  note n = assms [THEN no_hash]
  have "takeWhile (\<lambda>x. x \<noteq> CHR ''#'') (a @ '' '' @ b @ '' '' @ c @ '' '' @ d) = a @ '' '' @ b @ '' '' @ c @ '' '' @ d"
    "takeWhile (\<lambda>x. x \<noteq> CHR ''#'') (a @ '' '' @ b @ '' '' @ c) = a @ '' '' @ b @ '' '' @ c"
    using n by (auto intro!: takeWhile_absent)
  moreover have "tokens (a @ '' '' @ b @ '' '' @ c @ '' '' @ d) = [a, b, c, d]"
    "tokens (a @ '' '' @ b @ '' '' @ c) = [a, b, c]"
    using assms by (simp_all add: tokens_word)
  ultimately show "split_line (a @ '' '' @ b @ '' '' @ c @ '' '' @ d) 8 = Some [a, b, c, d]"
    and "split_line (a @ '' '' @ b @ '' '' @ c) 8 = Some [a, b, c]"
    by (simp_all only: split_line_def Let_def) simp_all
qed

lemma word_ok_dec: "word_ok (dec n)"
  using dec_digits [of n] digit_not_space by (auto simp: word_ok_def list_all_iff)

lemma id_char_word: "id_char c \<Longrightarrow> \<not> is_sep c \<and> c \<noteq> CHR ''#'' \<and> c \<noteq> nl \<and> c \<noteq> nul"
  using digit_not_space [of c]
  by (auto simp: id_char_def is_lower_def is_sep_def nl_def nul_def less_eq_char_def)

lemma word_ok_id: "good_id s \<Longrightarrow> word_ok s" "good_claim_name n \<Longrightarrow> word_ok n"
  using id_char_word by (auto simp: good_id_def good_claim_name_def word_ok_def list_all_iff)

lemma word_ok_literals: "word_ok ''flag''" "word_ok ''next''"
  by (simp_all add: word_ok_def is_sep_def nl_def nul_def)

lemma next_line_nl:
  assumes "nl \<notin> set l" "length l < LINE_MAX_LEN"
  shows "next_line (l @ nl # r) = Some (False, l, r)"
proof -
  have "\<And>x. x \<in> set l \<Longrightarrow> x \<noteq> nl" using assms(1) by auto
  then have "takeWhile (\<lambda>c. c \<noteq> nl) (l @ nl # r) = l" "dropWhile (\<lambda>c. c \<noteq> nl) (l @ nl # r) = nl # r"
    by (simp_all add: takeWhile_append2 dropWhile_append2)
  then show ?thesis using assms(2) by (auto simp: next_line_def Let_def LINE_MAX_LEN_def)
qed

text \<open>Five digits at most, so a claim's line is far from the length a line is cut at.\<close>

lemma length_dec: "n < 10 ^ k \<Longrightarrow> 0 < k \<Longrightarrow> length (dec n) \<le> k"
proof (induction k arbitrary: n)
  case (Suc k)
  show ?case
  proof (cases "n < 10")
    case False
    then have "n div 10 < 10 ^ k" "0 < k" using Suc.prems by (auto simp: less_mult_imp_div_less intro: gr0I)
    then show ?thesis using Suc.IH False by (subst dec.simps) simp
  qed (subst dec.simps, simp)
qed simp

section \<open>The lock\<close>

definition claim_ok :: "claim \<Rightarrow> bool" where
  "claim_ok c \<longleftrightarrow> good_id (cl_mod c) \<and> good_claim_name (cl_name c)
     \<and> FLAG_FIRST \<le> cl_number c \<and> cl_number c \<le> FLAG_LAST"

definition claim_key :: "claim \<Rightarrow> string \<times> string" where
  "claim_key c = (cl_mod c, cl_name c)"

definition lock_ok :: "lock \<Rightarrow> bool" where
  "lock_ok l \<longleftrightarrow> list_all claim_ok (g_claims l) \<and> distinct (map claim_key (g_claims l))
     \<and> length (g_claims l) \<le> CLAIM_MAX \<and> FLAG_FIRST \<le> g_next_flag l \<and> g_next_flag l \<le> FLAG_LAST + 1
     \<and> list_all (\<lambda>c. cl_number c < g_next_flag l) (g_claims l)"

lemma find_claim_None: "find_claim cs m n = None \<longleftrightarrow> (m, n) \<notin> claim_key ` set cs"
  by (auto simp: find_claim_def find_None_iff claim_key_def)

lemma find_claim_Some:
  "distinct (map claim_key cs) \<Longrightarrow> c \<in> set cs \<Longrightarrow> find_claim cs (cl_mod c) (cl_name c) = Some c"
  by (induction cs) (auto simp: find_claim_def claim_key_def image_iff)

lemma claim_line_line:
  assumes "claim_ok c"
  shows "next_line (claim_line c @ r)
    = Some (False, ''flag'' @ '' '' @ cl_mod c @ '' '' @ cl_name c @ '' '' @ dec (cl_number c), r)"
proof -
  let ?l = "''flag'' @ '' '' @ cl_mod c @ '' '' @ cl_name c @ '' '' @ dec (cl_number c)"
  note w = word_ok_literals(1) word_ok_id(1) [of "cl_mod c"] word_ok_id(2) [of "cl_name c"] word_ok_dec [of "cl_number c"]
  have "nl \<notin> set ?l"
    using assms no_hash [OF w(2)] no_hash [OF w(3)] no_hash [OF w(4)]
    by (auto simp: claim_ok_def nl_def)
  moreover have "length (dec (cl_number c)) \<le> 5"
    using assms by (intro length_dec) (simp_all add: claim_ok_def FLAG_LAST_def)
  then have "length ?l < LINE_MAX_LEN"
    using assms by (simp add: claim_ok_def good_id_def good_claim_name_def CLAIM_NAME_def LINE_MAX_LEN_def)
  ultimately show ?thesis using next_line_nl [of ?l r] by (simp add: claim_line_def)
qed

lemma lock_line_claim:
  assumes "claim_ok c" "claim_key c \<notin> claim_key ` set (g_claims l)" "length (g_claims l) < CLAIM_MAX"
    "cl_number c < g_next_flag l"
  shows "lock_line False (''flag'' @ '' '' @ cl_mod c @ '' '' @ cl_name c @ '' '' @ dec (cl_number c)) l
    = Some (l\<lparr>g_claims := g_claims l @ [c]\<rparr>)"
proof -
  let ?l = "''flag'' @ '' '' @ cl_mod c @ '' '' @ cl_name c @ '' '' @ dec (cl_number c)"
  note w = word_ok_literals(1) word_ok_id(1) [of "cl_mod c"] word_ok_id(2) [of "cl_name c"] word_ok_dec [of "cl_number c"]
  have ok: "good_id (cl_mod c)" "good_claim_name (cl_name c)" "FLAG_FIRST \<le> cl_number c" "cl_number c \<le> FLAG_LAST"
    using assms(1) by (auto simp: claim_ok_def)
  have "CHR ''#'' \<notin> set ?l"
    using no_hash [OF w(2)] no_hash [OF w(3)] no_hash [OF w(4)] ok by auto
  then have tw: "takeWhile (\<lambda>x. x \<noteq> CHR ''#'') ?l = ?l" by (rule takeWhile_absent)
  have sp: "split_line ?l 8 = Some [''flag'', cl_mod c, cl_name c, dec (cl_number c)]"
    using split_words(1) [OF w(1) w(2) w(3) w(4)] ok by blast
  have num: "strtoul (dec (cl_number c)) = (cl_number c, [])"
    using ok(4) by (intro strtoul_dec) (simp add: FLAG_LAST_def ULONG_MAX_def)
  have new: "find_claim (g_claims l) (cl_mod c) (cl_name c) = None"
    using assms(2) by (simp add: find_claim_None claim_key_def)
  have "take 63 (cl_mod c) = cl_mod c" "take (CLAIM_NAME - 1) (cl_name c) = cl_name c"
    using ok by (auto simp: good_id_def good_claim_name_def CLAIM_NAME_def)
  then show ?thesis
    unfolding lock_line_def tw sp if_False option.case list.case num prod.case
    using ok new assms(3,4) by simp
qed

lemma lock_lines_claims:
  assumes "lock_ok (l\<lparr>g_claims := g_claims l @ cs\<rparr>)"
  shows "lock_lines (concat (map claim_line cs)) l = (True, l\<lparr>g_claims := g_claims l @ cs\<rparr>)"
  using assms
proof (induction cs arbitrary: l)
  case Nil
  then show ?case by (subst lock_lines.simps) (simp add: next_line_def)
next
  case (Cons c cs)
  have c: "claim_ok c" "claim_key c \<notin> claim_key ` set (g_claims l)"
    "length (g_claims l) < CLAIM_MAX" "cl_number c < g_next_flag l"
    using Cons.prems by (auto simp: lock_ok_def)
  have "lock_lines (concat (map claim_line (c # cs))) l
      = lock_lines (concat (map claim_line cs)) (l\<lparr>g_claims := g_claims l @ [c]\<rparr>)"
    using claim_line_line [OF c(1)] lock_line_claim [OF c] by (subst lock_lines.simps) simp
  also have "\<dots> = (True, l\<lparr>g_claims := g_claims l @ c # cs\<rparr>)"
    using Cons.IH [of "l\<lparr>g_claims := g_claims l @ [c]\<rparr>"] Cons.prems by simp
  finally show ?case .
qed

lemma lock_line_comment:
  "lock_lines (CHR ''#'' # t @ nl # r) l = lock_lines r l" if "nl \<notin> set t" "length t < LINE_MAX_LEN - 1"
proof -
  have "next_line (CHR ''#'' # t @ nl # r) = Some (False, CHR ''#'' # t, r)"
    using next_line_nl [of "CHR ''#'' # t" r] that by (auto simp: nl_def)
  moreover have "tokens [] = []" by (subst tokens.simps) simp
  ultimately show ?thesis
    by (subst lock_lines.simps) (simp add: lock_line_def split_line_def)
qed

lemma lock_line_next:
  assumes "FLAG_FIRST \<le> v" "v \<le> FLAG_LAST + 1"
  shows "lock_lines (''next flag '' @ dec v @ nl # r) l
    = lock_lines r (l\<lparr>g_next_flag := max v (g_next_flag l)\<rparr>)"
proof -
  let ?l = "''next'' @ '' '' @ ''flag'' @ '' '' @ dec v"
  note w = word_ok_literals word_ok_dec [of v]
  have h: "CHR ''#'' \<notin> set ?l" "nl \<notin> set ?l"
    using no_hash [OF w(3)] by (auto simp: nl_def)
  have "length (dec v) \<le> 5" using assms by (intro length_dec) (simp_all add: FLAG_LAST_def)
  then have nx: "next_line (''next flag '' @ dec v @ nl # r) = Some (False, ?l, r)"
    using next_line_nl [OF h(2), of r] by (simp add: LINE_MAX_LEN_def)
  note tw = takeWhile_absent [OF h(1)]
  have sp: "split_line ?l 8 = Some [''next'', ''flag'', dec v]"
    using split_words(2) [OF w(2) w(1) w(3) w(3)] .
  have num: "strtoul (dec v) = (v, [])"
    using assms by (intro strtoul_dec) (simp add: FLAG_LAST_def ULONG_MAX_def)
  have "lock_line False ?l l = Some (l\<lparr>g_next_flag := max v (g_next_flag l)\<rparr>)"
    unfolding lock_line_def tw sp if_False option.case list.case num prod.case
    using assms by (simp add: max_def)
  then show ?thesis using nx by (subst lock_lines.simps) simp
qed

lemma no_nul_claim: "claim_ok c \<Longrightarrow> nul \<notin> set (claim_line c)"
  using word_ok_id(1) [of "cl_mod c", THEN no_hash] word_ok_id(2) [of "cl_name c", THEN no_hash]
    no_hash [OF word_ok_dec, of "cl_number c"]
  by (auto simp: claim_line_def claim_ok_def nul_def nl_def)

text \<open>C12: The lock file is read back exactly as it was written: every claim with its mod, its
  name and its number, in order, and the next number to give.\<close>

theorem lock_file_roundtrip:
  assumes "lock_ok l"
  shows "lock_read (Some (lock_text l)) = (True, l\<lparr>g_lock_dirty := False, g_lock_bad := False\<rparr>)"
proof -
  let ?l0 = "\<lparr>g_claims = [], g_next_flag = FLAG_FIRST, g_lock_dirty = False, g_lock_bad = False\<rparr>"
  let ?l1 = "?l0\<lparr>g_next_flag := g_next_flag l\<rparr>"
  have "nul \<notin> set (concat (map claim_line (g_claims l)))"
    using assms no_nul_claim by (auto simp: lock_ok_def list_all_iff)
  then have "nul \<notin> set (lock_text l)"
    using no_hash [OF word_ok_dec, of "g_next_flag l"]
    unfolding lock_text_def set_append Un_iff by (simp add: nul_def nl_def)
  then have "lock_read (Some (lock_text l)) = lock_lines (lock_text l) ?l0"
    by (simp add: lock_read_def takeWhile_absent)
  also have "\<dots> = lock_lines (''next flag '' @ dec (g_next_flag l) @ nl # concat (map claim_line (g_claims l))) ?l0"
    using lock_line_comment [where t = "'' The numbers this install gave mods' claims (T2, docs/specs/content-ids.md).''"]
      lock_line_comment [where t = "'' Never change a number: saves depend on it. A number is never handed out twice.''"]
    by (simp add: lock_text_def nl_def LINE_MAX_LEN_def)
  also have "\<dots> = lock_lines (concat (map claim_line (g_claims l))) ?l1"
    using assms lock_line_next [of "g_next_flag l" _ ?l0] by (simp add: lock_ok_def max_absorb1)
  also have "\<dots> = (True, l\<lparr>g_lock_dirty := False, g_lock_bad := False\<rparr>)"
    using assms lock_lines_claims [of ?l1 "g_claims l"] by (cases l) (simp add: lock_ok_def)
  finally show ?thesis .
qed

text \<open>A lock with the claims of two mods, and the file it is written to.\<close>

definition lock0 :: lock where
  "lock0 = \<lparr>g_claims = [\<lparr>cl_mod = ''a.sky'', cl_name = ''door-1'', cl_number = 24576\<rparr>,
      \<lparr>cl_mod = ''b2'', cl_name = ''seen'', cl_number = 24580\<rparr>],
    g_next_flag = 24590, g_lock_dirty = True, g_lock_bad = False\<rparr>"

lemma lock0_ok: "lock_ok lock0" "good_id ''a.sky''" "list_all good_claim_name [''seen'', ''door-1'']"
  by (simp_all add: lock_ok_def lock0_def claim_ok_def claim_key_def good_id_def good_claim_name_def
      id_char_def is_lower_def is_digit_def less_eq_char_def CLAIM_NAME_def CLAIM_MAX_def
      FLAG_FIRST_def FLAG_LAST_def)

theorem lock_file_roundtrip_witness:
  "lock_read (Some (lock_text lock0)) = (True, lock0\<lparr>g_lock_dirty := False, g_lock_bad := False\<rparr>)
    \<and> fst (lock_write True True True lock0 None) = Some (lock_text lock0)"
  using lock_file_roundtrip [OF lock0_ok(1)] by (simp add: lock_write_def lock0_def)

section \<open>A number is never handed out twice\<close>

lemma claim_loop_numbers:
  assumes "lock_ok l" "good_id m" "list_all good_claim_name names" "claim_loop m names l = (refused, l')"
  shows "lock_ok l' \<and> g_next_flag l \<le> g_next_flag l'
    \<and> (\<exists>new. g_claims l' = g_claims l @ new \<and> map cl_number new = [g_next_flag l..<g_next_flag l']
          \<and> (\<forall>c\<in>set new. cl_mod c = m))
    \<and> (\<not> refused \<longrightarrow> (\<forall>n\<in>set names. find_claim (g_claims l') m n \<noteq> None))"
  using assms
proof (induction names arbitrary: l)
  case Nil
  then show ?case by simp
next
  case (Cons n ns)
  show ?case
  proof (cases "find_claim (g_claims l) m n")
    case (Some c)
    then have "claim_loop m ns l = (refused, l')" using Cons.prems by simp
    note IH = Cons.IH [OF Cons.prems(1,2) _ this]
    have "(m, n) \<in> claim_key ` set (g_claims l)"
      using Some find_claim_None [of "g_claims l" m n] by auto
    then show ?thesis using IH Cons.prems(3) by (auto simp: find_claim_None)
  next
    case None
    define c where "c = \<lparr>cl_mod = m, cl_name = n, cl_number = g_next_flag l\<rparr>"
    define l1 where "l1 = l\<lparr>g_claims := g_claims l @ [c], g_next_flag := Suc (g_next_flag l), g_lock_dirty := True\<rparr>"
    have tk: "take 63 m = m" "take (CLAIM_NAME - 1) n = n"
      using Cons.prems(2,3) by (auto simp: good_id_def good_claim_name_def CLAIM_NAME_def)
    show ?thesis
    proof (cases "length (g_claims l) = CLAIM_MAX \<or> g_next_flag l > FLAG_LAST")
      case True
      then show ?thesis using None Cons.prems by auto
    next
      case False
      then have "claim_loop m ns l1 = (refused, l')"
        using Cons.prems(4) None tk by (simp add: l1_def c_def)
      moreover have "lock_ok l1"
        using Cons.prems(1-3) None False
        by (auto simp: lock_ok_def l1_def c_def claim_ok_def claim_key_def find_claim_None list_all_iff)
      ultimately have IH: "lock_ok l' \<and> g_next_flag l1 \<le> g_next_flag l'
        \<and> (\<exists>new. g_claims l' = g_claims l1 @ new \<and> map cl_number new = [g_next_flag l1..<g_next_flag l']
              \<and> (\<forall>c\<in>set new. cl_mod c = m))
        \<and> (\<not> refused \<longrightarrow> (\<forall>n\<in>set ns. find_claim (g_claims l') m n \<noteq> None))"
        using Cons.IH [of l1] Cons.prems(2,3) by simp
      then obtain new where new: "g_claims l' = g_claims l1 @ new"
        "map cl_number new = [g_next_flag l1..<g_next_flag l']" "\<forall>c\<in>set new. cl_mod c = m" by blast
      have "map cl_number (c # new) = [g_next_flag l..<g_next_flag l']"
        using new(2) IH by (simp add: c_def l1_def upt_conv_Cons)
      moreover have "g_claims l' = g_claims l @ c # new" using new(1) by (simp add: l1_def)
      moreover from this have "find_claim (g_claims l') m n \<noteq> None"
        by (simp add: find_claim_None claim_key_def c_def)
      ultimately show ?thesis using IH new(3)
        by (intro conjI exI [of _ "c # new"]) (auto simp: l1_def c_def)
    qed
  qed
qed

text \<open>Numbering a mod's claims keeps every claim there was with its number, gives the new
  ones the next numbers in order, none of which any claim ever had, keeps the lock well formed,
  and unless it refuses the mod, every claim of it has a number.\<close>

theorem claim_numbers_never_reused:
  assumes "lock_ok l" "good_id m" "list_all good_claim_name names"
  shows "case claim_assign m names l of (refused, l') \<Rightarrow>
     lock_ok l' \<and> g_next_flag l \<le> g_next_flag l'
     \<and> (\<exists>new. g_claims l' = g_claims l @ new \<and> map cl_number new = [g_next_flag l..<g_next_flag l']
           \<and> (\<forall>c\<in>set new. cl_mod c = m \<and> (\<forall>old\<in>set (g_claims l). cl_number old < cl_number c)))
     \<and> (\<not> refused \<longrightarrow> (\<forall>n\<in>set names. find_claim (g_claims l') m n \<noteq> None))"
proof (cases "g_lock_bad l")
  case True
  then show ?thesis using assms by (simp add: claim_assign_def)
next
  case False
  obtain refused l' where l': "claim_loop m names l = (refused, l')" by fastforce
  note L = claim_loop_numbers [OF assms l']
  then obtain new where new: "g_claims l' = g_claims l @ new"
    "map cl_number new = [g_next_flag l..<g_next_flag l']" "\<forall>c\<in>set new. cl_mod c = m" by blast
  have "g_next_flag l \<le> cl_number c" if "c \<in> set new" for c
  proof -
    have "cl_number c \<in> set (map cl_number new)" using that by simp
    then show ?thesis unfolding new(2) by simp
  qed
  then have "\<forall>c\<in>set new. \<forall>old\<in>set (g_claims l). cl_number old < cl_number c"
    using assms(1) by (force simp: lock_ok_def list_all_iff)
  then show ?thesis using L new False l' by (auto simp: claim_assign_def)
qed

text \<open>A mod with one old and one new claim: the old keeps 24576, the new is 24590.\<close>

theorem claim_numbers_never_reused_witness:
  "(case claim_assign ''a.sky'' [''seen'', ''door-1''] lock0 of (refused, l') \<Rightarrow>
      lock_ok l' \<and> \<not> refused \<and> find_claim (g_claims l') ''a.sky'' ''door-1''
        = Some \<lparr>cl_mod = ''a.sky'', cl_name = ''door-1'', cl_number = 24576\<rparr>
      \<and> map cl_number (g_claims l') = [24576, 24580, 24590])"
proof -
  obtain refused l' where l': "claim_assign ''a.sky'' [''seen'', ''door-1''] lock0 = (refused, l')" by fastforce
  have "lock_ok l'"
    using claim_numbers_never_reused [OF lock0_ok] by (simp add: l')
  then show ?thesis using l'
    by (auto simp: claim_assign_def lock0_def find_claim_def CLAIM_MAX_def FLAG_LAST_def CLAIM_NAME_def)
qed

section \<open>The claims chunk\<close>

lemma length_claims_text: "length (claims_text_loop cs used cap) \<le> cap - used - 1"
proof (induction cs arbitrary: used)
  case (Cons c cs)
  show ?case using Cons.IH [of "used + length (claim_line c)"] by (auto simp: Let_def)
qed simp

lemma claims_check_line:
  assumes "nl \<notin> set w"
  shows "claims_check_loop cs (w @ nl # t) = (if claim_differs cs w then 1 else 0) + claims_check_loop cs t"
proof -
  have "\<And>x. x \<in> set w \<Longrightarrow> x \<noteq> nl" using assms by auto
  then have "takeWhile (\<lambda>c. c \<noteq> nl) (w @ nl # t) = w" "dropWhile (\<lambda>c. c \<noteq> nl) (w @ nl # t) = nl # t"
    by (simp_all add: takeWhile_append2 dropWhile_append2)
  then show ?thesis by (subst claims_check_loop.simps) simp
qed

lemma claim_differs_line:
  assumes "claim_ok c" and that: "n \<le> FLAG_LAST"
  shows "claim_differs cs (''flag '' @ cl_mod c @ '' '' @ cl_name c @ '' '' @ dec n)
      = (case find_claim cs (cl_mod c) (cl_name c) of None \<Rightarrow> False | Some c' \<Rightarrow> cl_number c' \<noteq> n)"
proof -
  let ?l = "''flag'' @ '' '' @ cl_mod c @ '' '' @ cl_name c @ '' '' @ dec n"
  note w = word_ok_literals(1) word_ok_id(1) [of "cl_mod c"] word_ok_id(2) [of "cl_name c"] word_ok_dec [of n]
  have ok: "good_id (cl_mod c)" "good_claim_name (cl_name c)" using assms(1) by (auto simp: claim_ok_def)
  have "length (dec n) \<le> 5" using that by (intro length_dec) (simp_all add: FLAG_LAST_def)
  then have "length ?l \<le> 159" using ok by (simp add: good_id_def good_claim_name_def CLAIM_NAME_def)
  then have "take 159 ?l = ?l" by (rule take_all)
  moreover have "nul \<notin> set ?l" using no_hash [OF w(2)] no_hash [OF w(3)] no_hash [OF w(4)] ok by (auto simp: nul_def)
  ultimately have tk: "takeWhile (\<lambda>c. c \<noteq> nul) (take 159 ?l) = ?l"
    using takeWhile_absent by metis
  have sp: "split_line ?l 8 = Some [''flag'', cl_mod c, cl_name c, dec n]"
    using split_words(1) [OF w(1) w(2) w(3) w(4)] ok by blast
  have "strtoul (dec n) = (n, [])"
    using that by (intro strtoul_dec) (simp add: FLAG_LAST_def ULONG_MAX_def)
  then have "claim_differs cs ?l
      = (case find_claim cs (cl_mod c) (cl_name c) of None \<Rightarrow> False | Some c' \<Rightarrow> cl_number c' \<noteq> n)"
    unfolding claim_differs_def tk sp option.case list.case by (simp split: option.split)
  then show ?thesis by simp
qed

text \<open>A save's claims chunk written by this install is found to agree with it, however much of
  the list fitted.\<close>

lemma claims_text_agrees:
  assumes "lock_ok l"
  shows "mod_claims_check l (mod_claims_text l cap) = 0"
proof -
  have "claims_check_loop (g_claims l) (claims_text_loop cs used cap) = 0"
    if "set cs \<subseteq> set (g_claims l)" for cs used
    using that
  proof (induction cs arbitrary: used)
    case Nil
    then show ?case by (simp add: claims_check_loop.simps [of _ "[]"])
  next
    case (Cons c cs)
    let ?w = "''flag '' @ cl_mod c @ '' '' @ cl_name c @ '' '' @ dec (cl_number c)"
    have c: "claim_ok c" "c \<in> set (g_claims l)" using assms Cons.prems by (auto simp: lock_ok_def list_all_iff)
    have "nl \<notin> set ?w"
      using word_ok_id(1) [of "cl_mod c", THEN no_hash] word_ok_id(2) [of "cl_name c", THEN no_hash]
        no_hash [OF word_ok_dec, of "cl_number c"] c(1) by (auto simp: claim_ok_def nl_def)
    moreover have "find_claim (g_claims l) (cl_mod c) (cl_name c) = Some c"
      using assms c(2) by (intro find_claim_Some) (simp_all add: lock_ok_def)
    then have "\<not> claim_differs (g_claims l) ?w"
      using claim_differs_line [OF c(1), of "cl_number c" "g_claims l"] c(1) by (simp add: claim_ok_def)
    moreover have "claim_line c = ?w @ [nl]" by (simp add: claim_line_def)
    ultimately show ?case
      using claims_check_line [of ?w "g_claims l" "claims_text_loop cs (used + length (claim_line c)) cap"] Cons
      by (simp add: Let_def claims_check_loop.simps [of _ "[]"])
  qed
  then show ?thesis by (simp add: mod_claims_check_def mod_claims_text_def)
qed

end
