(* ===== verification/PadText.thy ===== *)
theory PadText
  imports ModClaims
begin

text \<open>
  runtime/si.c, the text of a pad recording: the names of the buttons, the state of a
  controller as a recording's line writes it and the parsers that read the lines back, pad 1's
  (\<open>F buttons stick cstick triggers #rN\<close>) and the event track's (\<open>F @kind value\<close>). C
  strings are lists of characters; the parsers cut their buffers with terminators only where
  nothing reads again, so a cursor is the rest of the text. The buffers that could cut a line are
  kept as \<open>take\<close>; that the state's own text fits its 128 bytes is a lemma.
\<close>

section \<open>Controller states\<close>

definition BTN_LEFT :: u16 where "BTN_LEFT = 0x0001"
definition BTN_RIGHT :: u16 where "BTN_RIGHT = 0x0002"
definition BTN_DOWN :: u16 where "BTN_DOWN = 0x0004"
definition BTN_UP :: u16 where "BTN_UP = 0x0008"
definition BTN_Z :: u16 where "BTN_Z = 0x0010"
definition BTN_R :: u16 where "BTN_R = 0x0020"
definition BTN_L :: u16 where "BTN_L = 0x0040"
definition BTN_A :: u16 where "BTN_A = 0x0100"
definition BTN_B :: u16 where "BTN_B = 0x0200"
definition BTN_X :: u16 where "BTN_X = 0x0400"
definition BTN_Y :: u16 where "BTN_Y = 0x0800"
definition BTN_START :: u16 where "BTN_START = 0x1000"
definition BTN_ALL :: u16 where "BTN_ALL = 0x1F7F"

definition g_button_names :: "(string \<times> u16) list" where
  "g_button_names =
    [(''a'', BTN_A), (''b'', BTN_B), (''x'', BTN_X), (''y'', BTN_Y), (''z'', BTN_Z), (''l'', BTN_L),
     (''r'', BTN_R), (''start'', BTN_START), (''up'', BTN_UP), (''down'', BTN_DOWN), (''left'', BTN_LEFT),
     (''right'', BTN_RIGHT)]"

definition HOST_LB :: u8 where "HOST_LB = 1"
definition HOST_VIEW :: u8 where "HOST_VIEW = 2"
definition HOST_LS :: u8 where "HOST_LS = 4"
definition HOST_RS :: u8 where "HOST_RS = 8"

definition g_host_names :: "(string \<times> u8) list" where
  "g_host_names = [(''lb'', HOST_LB), (''view'', HOST_VIEW), (''ls'', HOST_LS), (''rs'', HOST_RS)]"

definition button_named :: "string \<Rightarrow> u16" where
  "button_named n = (case map_of g_button_names n of Some b \<Rightarrow> b | None \<Rightarrow> 0)"

definition host_named :: "string \<Rightarrow> u8" where
  "host_named n = (case map_of g_host_names n of Some b \<Rightarrow> b | None \<Rightarrow> 0)"

record pad =
  buttons :: u16
  stick :: "u8 \<times> u8"
  cstick :: "u8 \<times> u8"
  trig :: "u8 \<times> u8"

definition PAD_NEUTRAL :: pad where
  "PAD_NEUTRAL = \<lparr>buttons = 0, stick = (128, 128), cstick = (128, 128), trig = (0, 0)\<rparr>"

definition pad_same :: "pad \<Rightarrow> pad \<Rightarrow> bool" where
  "pad_same a b \<longleftrightarrow> buttons a = buttons b \<and> stick a = stick b \<and> cstick a = cstick b \<and> trig a = trig b"

section \<open>Writing\<close>

text \<open>The names of the bits that are set, joined by plus signs, in the order of the table.\<close>

fun join_plus :: "string list \<Rightarrow> string" where
  "join_plus [] = []"
| "join_plus [n] = n"
| "join_plus (n # ns) = n @ ''+'' @ join_plus ns"

definition set_names :: "(string \<times> 'a::len word) list \<Rightarrow> 'a word \<Rightarrow> string list" where
  "set_names tab b = map fst (filter (\<lambda>(n, m). nonzero (b AND m)) tab)"

definition pad_buttons_str :: "u16 \<Rightarrow> string" where
  "pad_buttons_str b = (if b = 0 then ''-'' else join_plus (set_names g_button_names b))"

definition pair_str :: "u8 \<times> u8 \<Rightarrow> string" where
  "pair_str v = CHR '' '' # dec (unat (fst v)) @ '','' @ dec (unat (snd v))"

definition pad_state_str :: "pad \<Rightarrow> string" where
  "pad_state_str st =
     (let trigs = trig st \<noteq> (0, 0); csticks = trigs \<or> cstick st \<noteq> (128, 128);
          sticks = csticks \<or> stick st \<noteq> (128, 128)
      in pad_buttons_str (buttons st) @ (if sticks then pair_str (stick st) else [])
         @ (if csticks then pair_str (cstick st) else []) @ (if trigs then pair_str (trig st) else []))"

definition pad_record_line :: "u32 \<Rightarrow> pad \<Rightarrow> u64 \<Rightarrow> string" where
  "pad_record_line frame st retrace =
     take 255 (dec (unat frame) @ '' '' @ take 127 (pad_state_str st) @ '' #r'' @ dec (unat retrace) @ [nl])"

definition host_names_str :: "u8 \<Rightarrow> string" where
  "host_names_str host = (let ns = set_names g_host_names host in if ns = [] then ''-'' else join_plus ns)"

definition event_line_text :: "u32 \<Rightarrow> string \<Rightarrow> string \<Rightarrow> string" where
  "event_line_text frame kind val =
     take 191 (dec (unat frame) @ '' @'' @ kind @ (if val \<noteq> [] then '' '' else []) @ val @ [nl])"

section \<open>Reading\<close>

definition is_blank :: "char \<Rightarrow> bool" where
  "is_blank c \<longleftrightarrow> c = CHR '' '' \<or> c = CHR 0x09"

text \<open>The next field and the text after it; a number sign or the line's end gives none.\<close>

definition pad_token :: "string \<Rightarrow> string option \<times> string" where
  "pad_token p =
     (let s = dropWhile is_blank p
      in if s = [] \<or> hd s \<in> {nl, CHR 0x0D, CHR ''#''} then (None, s)
         else (Some (takeWhile (\<lambda>c. \<not> is_sep c) s), drop 1 (dropWhile (\<lambda>c. \<not> is_sep c) s)))"

text \<open>Names joined by plus signs, a plus sign at the end allowed; each must be known.\<close>

lemma plus_shorter: "s \<noteq> [] \<Longrightarrow> length (drop 1 (dropWhile (\<lambda>c. c \<noteq> CHR ''+'') s)) < length s"
  by (rule drop_rest_shorter)

function parse_names :: "(string \<Rightarrow> 'a::len word) \<Rightarrow> string \<Rightarrow> 'a word \<Rightarrow> 'a word option" where
  "parse_names named s b =
     (if s = [] then Some b
      else let one = named (takeWhile (\<lambda>c. c \<noteq> CHR ''+'') s)
           in if one = 0 then None
              else parse_names named (drop 1 (dropWhile (\<lambda>c. c \<noteq> CHR ''+'') s)) (b OR one))"
  by pat_completeness auto
termination by (relation "measure (\<lambda>(named, s, b). length s)") (use plus_shorter in auto)

declare parse_names.simps [simp del]

definition pad_parse_buttons :: "string \<Rightarrow> u16 option" where
  "pad_parse_buttons s = (if s = ''-'' then Some 0 else parse_names button_named s 0)"

definition pad_parse_host :: "string \<Rightarrow> u8 option" where
  "pad_parse_host s = (if s = ''-'' then Some 0 else parse_names host_named s 0)"

definition pad_parse_pair :: "string \<Rightarrow> (u8 \<times> u8) option" where
  "pad_parse_pair s =
     (case strtoul s of (x, r) \<Rightarrow>
        if r = s \<or> r = [] \<or> hd r \<noteq> CHR '','' then None
        else case strtoul (tl r) of (y, r') \<Rightarrow>
          if r' = tl r \<or> r' \<noteq> [] \<or> x > 255 \<or> y > 255 then None else Some (of_nat x, of_nat y))"

record pad_frame =
  pf_frame :: u32
  pf_retrace :: u64
  pf_st :: pad

datatype parsed = Nothing_there | Malformed | Parsed pad_frame

text \<open>Up to three pairs: the value of each, whether one was malformed, and the text left, with
  whether a field may still follow.\<close>

fun parse_pairs :: "nat \<Rightarrow> string \<Rightarrow> (u8 \<times> u8) list \<Rightarrow> ((u8 \<times> u8) list \<times> bool \<times> string) option" where
  "parse_pairs 0 p vs = Some (vs, True, p)"
| "parse_pairs (Suc k) p vs =
     (case pad_token p of (None, p') \<Rightarrow> Some (vs, False, p')
      | (Some tok, p') \<Rightarrow> (case pad_parse_pair tok of None \<Rightarrow> None | Some v \<Rightarrow> parse_pairs k p' (vs @ [v])))"

definition retrace_of :: "string \<Rightarrow> u64" where
  "retrace_of p =
     (let s = dropWhile is_blank p
      in if s \<noteq> [] \<and> hd s = CHR ''#''
         then let q = dropWhile (\<lambda>c. c = CHR '' '') (tl s)
              in if q \<noteq> [] \<and> hd q = CHR ''r'' \<and> tl q \<noteq> [] \<and> is_digit (hd (tl q))
                 then of_nat (fst (strtoul (tl q))) else 0
         else 0)"

definition pad_of :: "u16 \<Rightarrow> (u8 \<times> u8) list \<Rightarrow> pad" where
  "pad_of b vs = \<lparr>buttons = b,
     stick = (if length vs > 0 then vs ! 0 else (128, 128)),
     cstick = (if length vs > 1 then vs ! 1 else (128, 128)),
     trig = (if length vs > 2 then vs ! 2 else (0, 0))\<rparr>"

definition pad_parse_line :: "string \<Rightarrow> parsed" where
  "pad_parse_line line =
     (case pad_token line of (None, _) \<Rightarrow> Nothing_there
      | (Some tok, p) \<Rightarrow>
          (case strtoul tok of (frame, r) \<Rightarrow>
             if r = tok \<or> r \<noteq> [] then Malformed
             else case pad_token p of
               (None, p1) \<Rightarrow> Parsed \<lparr>pf_frame = of_nat frame, pf_retrace = retrace_of p1, pf_st = PAD_NEUTRAL\<rparr>
             | (Some bs, p1) \<Rightarrow>
                 (case pad_parse_buttons bs of None \<Rightarrow> Malformed
                  | Some b \<Rightarrow> (case parse_pairs 3 p1 [] of None \<Rightarrow> Malformed
                     | Some (vs, full, p2) \<Rightarrow>
                         (case (if full then pad_token p2 else (None, p2)) of
                            (Some _, _) \<Rightarrow> Malformed
                          | (None, p3) \<Rightarrow> Parsed \<lparr>pf_frame = of_nat frame, pf_retrace = retrace_of p3,
                              pf_st = pad_of b vs\<rparr>)))))"

section \<open>The event track's lines\<close>

datatype ev_kind = EV_PAD2 | EV_HOST | EV_TURBO | EV_ACTION | EV_SAVENOW

definition k_ev_names :: "(string \<times> ev_kind) list" where
  "k_ev_names = [(''pad2'', EV_PAD2), (''host'', EV_HOST), (''turbo'', EV_TURBO), (''action'', EV_ACTION),
     (''savenow'', EV_SAVENOW)]"

record event_line =
  ev_frame :: u32
  ev_of :: ev_kind
  ev_there :: bool
  ev_host :: u8
  ev_st :: pad
  ev_text :: string

text \<open>What stands after the kind: the line's content, or None when it is not that kind's.\<close>

definition event_value :: "ev_kind \<Rightarrow> u32 \<Rightarrow> string \<Rightarrow> event_line option" where
  "event_value k frame p =
     (let e = \<lparr>ev_frame = frame, ev_of = k, ev_there = True, ev_host = 0, ev_st = PAD_NEUTRAL, ev_text = []\<rparr>
      in case k of
        EV_PAD2 \<Rightarrow>
          (let (word, q) = pad_token (take 199 p)
           in if word = Some ''off'' \<and> fst (pad_token q) = None then Some (e\<lparr>ev_there := False\<rparr>)
              else (case pad_parse_line (take 255 (dec (unat frame) @ '' '' @ p)) of
                      Parsed f \<Rightarrow> Some (e\<lparr>ev_st := pf_st f\<rparr>) | _ \<Rightarrow> None))
      | EV_HOST \<Rightarrow>
          (case pad_token p of (None, _) \<Rightarrow> None
           | (Some tok, q) \<Rightarrow> (case pad_parse_host tok of None \<Rightarrow> None
               | Some h \<Rightarrow> if fst (pad_token q) = None then Some (e\<lparr>ev_host := h\<rparr>) else None))
      | EV_SAVENOW \<Rightarrow> (if fst (pad_token p) = None then Some e else None)
      | _ \<Rightarrow>
          (case pad_token p of (None, _) \<Rightarrow> None
           | (Some tok, q) \<Rightarrow>
               if length tok < 24 \<and> fst (pad_token q) = None \<and> (k = EV_TURBO \<longrightarrow> tok = ''on'' \<or> tok = ''off'')
               then Some (e\<lparr>ev_text := tok\<rparr>) else None))"

datatype parsed_event = Not_event | Passed_over | Event event_line

text \<open>The state the reader keeps of each kind: the frame of its latest line, None before the first.\<close>

type_synonym ev_last = "ev_kind \<Rightarrow> u32 option"

definition event_ahead :: "string \<Rightarrow> bool" where
  "event_ahead line =
     (let p = dropWhile is_blank (dropWhile is_digit (dropWhile is_blank line))
      in p \<noteq> [] \<and> hd p = CHR ''@'' \<and> p \<noteq> line)"

definition pad_parse_event :: "ev_last \<Rightarrow> string \<Rightarrow> parsed_event" where
  "pad_parse_event latest line =
     (if \<not> event_ahead line then Not_event
      else case pad_token line of (None, _) \<Rightarrow> Not_event
      | (Some tok, p0) \<Rightarrow>
          (case strtoul tok of (frame, r) \<Rightarrow>
             let p = dropWhile is_blank p0
             in if r = tok \<or> r \<noteq> [] \<or> p = [] \<or> hd p \<noteq> CHR ''@'' then Not_event
                else case pad_token p of (None, _) \<Rightarrow> Not_event
                | (Some kind, p1) \<Rightarrow>
                    (case map_of k_ev_names (tl kind) of None \<Rightarrow> Passed_over
                     | Some k \<Rightarrow>
                         if (case latest k of None \<Rightarrow> False | Some l \<Rightarrow> of_nat frame < l) then Passed_over
                         else (case event_value k (of_nat frame) p1 of None \<Rightarrow> Passed_over | Some e \<Rightarrow> Event e))))"

section \<open>Lemmas: names\<close>

text \<open>A name a line can hold: not empty, nothing that ends a field or joins names.\<close>

definition plain_name :: "string \<Rightarrow> bool" where
  "plain_name n \<longleftrightarrow> n \<noteq> [] \<and> list_all (\<lambda>c. is_lower c) n"

lemma lower_plain: "is_lower c \<Longrightarrow> \<not> is_sep c \<and> c \<noteq> CHR ''+'' \<and> c \<noteq> CHR ''#'' \<and> c \<noteq> CHR ''-'' \<and> c \<noteq> nl \<and> c \<noteq> nul \<and> c \<noteq> CHR ''@''"
  by (auto simp: is_lower_def is_sep_def nl_def nul_def less_eq_char_def)

lemma plain_no_plus: "plain_name n \<Longrightarrow> CHR ''+'' \<notin> set n"
  using lower_plain by (auto simp: plain_name_def list_all_iff)

lemma parse_names_nil: "parse_names named [] acc = Some acc"
  by (subst parse_names.simps) simp

lemma parse_names_join:
  assumes "list_all (\<lambda>(n, m). plain_name n \<and> named n = m \<and> m \<noteq> 0) es"
  shows "parse_names named (join_plus (map fst es)) acc = Some (fold (\<lambda>e a. a OR snd e) es acc)"
  using assms
proof (induction es arbitrary: acc)
  case (Cons e es)
  obtain n m where e: "e = (n, m)" by fastforce
  have n: "plain_name n" "n \<noteq> []" "named n = m" "m \<noteq> 0" using Cons.prems e by (auto simp: plain_name_def)
  note p = plain_no_plus [OF n(1)]
  show ?case
  proof (cases es)
    case Nil
    have tw: "takeWhile (\<lambda>c. c \<noteq> CHR ''+'') n = n" and dw: "dropWhile (\<lambda>c. c \<noteq> CHR ''+'') n = []"
      using p by (auto simp: takeWhile_eq_all_conv)
    show ?thesis
      using n Nil e by (subst parse_names.simps) (simp add: Let_def tw dw parse_names_nil)
  next
    case (Cons e' es')
    then obtain n' ns where es: "map fst es = n' # ns" by simp
    have tw: "takeWhile (\<lambda>c. c \<noteq> CHR ''+'') (n @ CHR ''+'' # t) = n" for t
      using p by (subst takeWhile_append2) auto
    have dw: "dropWhile (\<lambda>c. c \<noteq> CHR ''+'') (n @ CHR ''+'' # t) = CHR ''+'' # t" for t
      using p by (subst dropWhile_append2) auto
    have j: "join_plus (map fst (e # es)) = n @ CHR ''+'' # join_plus (map fst es)"
      using es e by simp
    show ?thesis
      unfolding j using n e Cons.IH Cons.prems by (subst parse_names.simps) (simp add: Let_def tw dw)
  qed
qed (simp add: parse_names_nil)

text \<open>The bits of a table's single-bit masks that are set add up to the value itself.\<close>

lemma bit_fold_or: "bit (fold (\<lambda>e a. a OR snd e) es acc) k \<longleftrightarrow> bit acc k \<or> (\<exists>e\<in>set es. bit (snd e) k)"
  by (induction es arbitrary: acc) (auto simp: bit_simps)

lemma bit_two_power: "bit (2 ^ j :: 'a::len word) k \<longleftrightarrow> k = j \<and> k < LENGTH('a)"
  by (auto simp: bit_simps)

lemma and_bit: "nonzero ((b :: 'a::len word) AND 2 ^ j) \<longleftrightarrow> bit b j"
proof
  assume "nonzero (b AND 2 ^ j)"
  then obtain k where "bit (b AND 2 ^ j) k" by (auto simp: bit_eq_iff)
  then show "bit b j" by (auto simp: bit_and_iff bit_two_power)
next
  assume b: "bit b j"
  then have "bit (b AND 2 ^ j) j" using bit_imp_le_length [OF b] by (simp add: bit_and_iff bit_two_power)
  then show "nonzero (b AND 2 ^ j)" by auto
qed

definition one_bits :: "(string \<times> 'a::len word) list \<Rightarrow> nat list \<Rightarrow> bool" where
  "one_bits tab js \<longleftrightarrow> map snd tab = map (\<lambda>j. 2 ^ j) js"

lemma fold_set_bits:
  assumes tab: "one_bits tab js" and b: "\<And>k. bit b k \<Longrightarrow> k \<in> set js"
  shows "fold (\<lambda>e a. a OR snd e) (filter (\<lambda>(n, m). nonzero (b AND m)) tab) 0 = b"
proof (rule bit_word_eqI)
  fix k assume k: "k < LENGTH('a)"
  have "(\<exists>e\<in>set (filter (\<lambda>(n, m). nonzero (b AND m)) tab). bit (snd e) k)
      \<longleftrightarrow> (\<exists>m\<in>set (map snd tab). nonzero (b AND m) \<and> bit m k)"
    by (force simp: split_def)
  also have "\<dots> \<longleftrightarrow> (\<exists>j\<in>set js. bit b j \<and> k = j)"
    using tab k unfolding one_bits_def by (auto simp: and_bit bit_two_power)
  also have "\<dots> \<longleftrightarrow> bit b k" using b by auto
  finally show "bit (fold (\<lambda>e a. a OR snd e) (filter (\<lambda>(n, m). nonzero (b AND m)) tab) 0) k \<longleftrightarrow> bit b k"
    by (simp add: bit_fold_or)
qed

lemma button_table:
  "one_bits g_button_names [8, 9, 10, 11, 4, 6, 5, 12, 3, 2, 0, 1]"
  "list_all (\<lambda>(n, m). plain_name n \<and> button_named n = m \<and> m \<noteq> 0) g_button_names"
  by (simp_all add: one_bits_def g_button_names_def button_named_def plain_name_def is_lower_def less_eq_char_def
      BTN_A_def BTN_B_def BTN_X_def BTN_Y_def BTN_Z_def BTN_L_def BTN_R_def BTN_START_def BTN_UP_def
      BTN_DOWN_def BTN_LEFT_def BTN_RIGHT_def)

lemma host_table:
  "one_bits g_host_names [0, 1, 2, 3]"
  "list_all (\<lambda>(n, m). plain_name n \<and> host_named n = m \<and> m \<noteq> 0) g_host_names"
  by (simp_all add: one_bits_def g_host_names_def host_named_def plain_name_def is_lower_def less_eq_char_def
      HOST_LB_def HOST_VIEW_def HOST_LS_def HOST_RS_def)

lemma below_16: "k < 16 \<Longrightarrow> k \<in> {0, 1, 2, 3, 4, 5, 6, 7, 8, 9, 10, 11, 12, 13, 14, 15 :: nat}"
  by (simp; presburger)

lemma bits_of_all: "bit BTN_ALL k \<Longrightarrow> k \<in> set [8, 9, 10, 11, 4, 6, 5, 12, 3, 2, 0, 1]"
  using below_16 [of k] bit_imp_le_length [of BTN_ALL k] by (auto simp: BTN_ALL_def)

lemma list_all_filter: "list_all P xs \<Longrightarrow> list_all P (filter Q xs)"
  by (auto simp: list_all_iff)

lemma parse_set_names:
  assumes "list_all (\<lambda>(n, m). plain_name n \<and> named n = m \<and> m \<noteq> 0) tab" "one_bits tab js"
    "\<And>k. bit b k \<Longrightarrow> k \<in> set js"
  shows "parse_names named (join_plus (set_names tab b)) 0 = Some b"
  using parse_names_join [OF list_all_filter [OF assms(1)], of "\<lambda>(n, m). nonzero (b AND m)" 0]
    fold_set_bits [OF assms(2,3)]
  by (simp add: set_names_def)

lemma set_names_nonempty:
  assumes "one_bits tab js" "\<And>k. bit b k \<Longrightarrow> k \<in> set js" "b \<noteq> 0"
  shows "set_names tab b \<noteq> []"
  using fold_set_bits [OF assms(1), of b] assms(2,3) by (fastforce simp: set_names_def)

lemma join_plus_chars:
  assumes "list_all (\<lambda>n. plain_name n) ns" "ns \<noteq> []"
  shows "join_plus ns \<noteq> []" "list_all (\<lambda>c. is_lower c \<or> c = CHR ''+'') (join_plus ns)" "is_lower (hd (join_plus ns))"
  using assms by (induction ns rule: join_plus.induct)
    (auto simp: plain_name_def list_all_iff, (metis hd_append2 hd_in_set)?)

lemma join_word:
  assumes "list_all (\<lambda>n. plain_name n) ns" "ns \<noteq> []"
  shows "word_ok (join_plus ns)" "hd (join_plus ns) \<noteq> CHR ''-''" "CHR ''@'' \<notin> set (join_plus ns)"
  using join_plus_chars [OF assms] lower_plain
  by (auto simp: word_ok_def list_all_iff is_sep_def nl_def nul_def)

lemma names_plain: "list_all (\<lambda>(n, m). plain_name n \<and> Q n m) tab \<Longrightarrow> list_all plain_name (set_names tab b)"
  by (auto simp: set_names_def list_all_iff)

text \<open>Buttons and host buttons are read back as written.\<close>

lemma pad_buttons_roundtrip:
  assumes "b AND BTN_ALL = b"
  shows "pad_parse_buttons (pad_buttons_str b) = Some b" "word_ok (pad_buttons_str b)"
    "CHR ''@'' \<notin> set (pad_buttons_str b)"
proof -
  have bits: "k \<in> set [8, 9, 10, 11, 4, 6, 5, 12, 3, 2, 0, 1]" if "bit b k" for k
  proof (rule bits_of_all)
    have "bit (b AND BTN_ALL) k" using that assms by simp
    then show "bit BTN_ALL k" by (simp add: bit_simps)
  qed
  note p = parse_set_names [OF button_table(2,1) bits]
  have n: "list_all plain_name (set_names g_button_names b)" by (rule names_plain [OF button_table(2)])
  have w: "word_ok ''-''" by (simp add: word_ok_def is_sep_def nl_def nul_def)
  show "pad_parse_buttons (pad_buttons_str b) = Some b"
  proof (cases "b = 0")
    case False
    note j = join_word [OF n set_names_nonempty [OF button_table(1) bits False]]
    have "join_plus (set_names g_button_names b) \<noteq> ''-''" using j(2) by auto
    then show ?thesis using p False by (simp add: pad_parse_buttons_def pad_buttons_str_def)
  qed (simp add: pad_parse_buttons_def pad_buttons_str_def)
  show "word_ok (pad_buttons_str b)" "CHR ''@'' \<notin> set (pad_buttons_str b)"
    using join_word [OF n set_names_nonempty [OF button_table(1) bits]] w
    by (auto simp: pad_buttons_str_def)
qed

lemma host_names_roundtrip:
  assumes "h AND 15 = h"
  shows "pad_parse_host (host_names_str h) = Some h" "word_ok (host_names_str h)"
proof -
  have bits: "k \<in> set [0, 1, 2, 3]" if "bit h k" for k
  proof -
    have "bit (15 :: u8) k"
    proof -
      have "bit (h AND 15) k" using that assms by simp
      then show ?thesis by (simp add: bit_simps)
    qed
    moreover have "k < 16" using bit_imp_le_length [OF that] by simp
    ultimately show ?thesis using below_16 [of k] by auto
  qed
  note p = parse_set_names [OF host_table(2,1) bits]
  have n: "list_all plain_name (set_names g_host_names h)" by (rule names_plain [OF host_table(2)])
  have w: "word_ok ''-''" by (simp add: word_ok_def is_sep_def nl_def nul_def)
  show "pad_parse_host (host_names_str h) = Some h"
  proof (cases "set_names g_host_names h = []")
    case True
    then have "h = 0" using set_names_nonempty [OF host_table(1) bits] by blast
    then show ?thesis using True by (simp add: host_names_str_def pad_parse_host_def)
  next
    case False
    have "join_plus (set_names g_host_names h) \<noteq> ''-''" using join_word(2) [OF n False] by auto
    then show ?thesis using p False by (simp add: pad_parse_host_def host_names_str_def Let_def)
  qed
  show "word_ok (host_names_str h)"
    using join_word [OF n] w by (auto simp: host_names_str_def Let_def)
qed

section \<open>Lemmas: fields and numbers\<close>

lemma blank_sep: "is_blank c \<Longrightarrow> is_sep c" "is_blank (CHR '' '')"
  by (auto simp: is_blank_def is_sep_def)

lemma word_head:
  assumes "word_ok w"
  obtains c cs where "w = c # cs" "\<not> is_sep c" "c \<noteq> CHR ''#''" "c \<noteq> nl" "c \<noteq> CHR 0x0D"
  using assms by (cases w) (auto simp: word_ok_def is_sep_def)

lemma pad_token_word:
  assumes w: "word_ok w" and t: "t = [] \<or> is_sep (hd t)"
  shows "pad_token (w @ t) = (Some w, drop 1 t)" and "pad_token (CHR '' '' # w @ t) = (Some w, drop 1 t)"
proof -
  obtain c cs where c: "w = c # cs" "\<not> is_sep c" "c \<noteq> CHR ''#''" "c \<noteq> nl" "c \<noteq> CHR 0x0D"
    by (rule word_head [OF w])
  have nb: "\<not> is_blank c" using c blank_sep by blast
  have all: "\<forall>c\<in>set w. \<not> is_sep c" using w by (auto simp: word_ok_def list_all_iff)
  have tw: "takeWhile (\<lambda>c. \<not> is_sep c) (w @ t) = w" and dw: "dropWhile (\<lambda>c. \<not> is_sep c) (w @ t) = t"
    using all t by (cases t; simp)+
  have d: "dropWhile is_blank (w @ t) = w @ t" using c nb by simp
  have "dropWhile is_blank (CHR '' '' # w @ t) = w @ t" using d blank_sep(2) by simp
  moreover have "w @ t \<noteq> []" "hd (w @ t) \<notin> {nl, CHR 0x0D, CHR ''#''}" using c by auto
  ultimately show "pad_token (w @ t) = (Some w, drop 1 t)" "pad_token (CHR '' '' # w @ t) = (Some w, drop 1 t)"
    using d by (simp_all only: pad_token_def Let_def tw dw) simp_all
qed

lemma pad_token_end: "pad_token [] = (None, [])" "pad_token (CHR ''#'' # t) = (None, CHR ''#'' # t)"
  "pad_token [nl] = (None, [nl])" "pad_token (CHR '' '' # CHR ''#'' # t) = (None, CHR ''#'' # t)"
  by (simp_all add: pad_token_def is_blank_def nl_def)

lemma strtoul_dec_then:
  assumes n: "n \<le> ULONG_MAX" and t: "t = [] \<or> \<not> is_digit (hd t)"
  shows "strtoul (dec n @ t) = (n, t)"
proof -
  obtain c cs where d: "dec n = c # cs" using dec_digits(2) by (cases "dec n") auto
  have c: "is_digit c" "list_all is_digit cs" using dec_digits(1) [of n] d by auto
  have "dropWhile is_space (dec n @ t) = dec n @ t" using digit_not_space [OF c(1)] d by simp
  moreover have "takeWhile is_digit (dec n @ t) = dec n" "dropWhile is_digit (dec n @ t) = t"
    using dec_digits(1) [of n] t by (cases t; simp add: list_all_iff)+
  ultimately show ?thesis
    using digit_not_space [OF c(1)] n d digits_val_dec [of n] by (simp add: strtoul_def Let_def)
qed

lemma unat_below: "unat (x :: u8) < 2 ^ LENGTH(8)" "unat (y :: u32) < 2 ^ LENGTH(32)" "unat (z :: u64) < 2 ^ LENGTH(64)"
  by (rule unsigned_less)+

lemma small_ULONG: "unat (x :: u8) \<le> ULONG_MAX" "unat (y :: u32) \<le> ULONG_MAX" "unat (z :: u64) \<le> ULONG_MAX"
  using unat_below(1) [of x] unat_below(2) [of y] unat_below(3) [of z] by (simp_all add: ULONG_MAX_def)

lemma pair_word: "pair_str v = CHR '' '' # w \<Longrightarrow> word_ok w"
  using word_ok_dec [of "unat (fst v)"] word_ok_dec [of "unat (snd v)"]
  by (auto simp: pair_str_def word_ok_def is_sep_def nl_def nul_def)

lemma pad_parse_pair_str: "pair_str v = CHR '' '' # w \<Longrightarrow> pad_parse_pair w = Some v"
proof -
  assume "pair_str v = CHR '' '' # w"
  then have w: "w = dec (unat (fst v)) @ CHR '','' # dec (unat (snd v))" by (simp add: pair_str_def)
  have c: "\<not> is_digit (CHR '','')" by (simp add: is_digit_def less_eq_char_def)
  have x: "strtoul w = (unat (fst v), CHR '','' # dec (unat (snd v)))"
    using strtoul_dec_then [OF small_ULONG(1), of "CHR '','' # dec (unat (snd v))" "fst v"] c by (simp add: w)
  have y: "strtoul (dec (unat (snd v))) = (unat (snd v), [])"
    by (rule strtoul_dec [OF small_ULONG(1)])
  have "unat (fst v) \<le> 255" "unat (snd v) \<le> 255"
    using unat_below(1) [of "fst v"] unat_below(1) [of "snd v"] by simp_all
  moreover have "CHR '','' # dec (unat (snd v)) \<noteq> w" using dec_digits(2) by (simp add: w)
  ultimately show ?thesis
    using dec_digits(2) [of "unat (snd v)"] by (simp add: pad_parse_pair_def x y)
qed

section \<open>Lemmas: lines\<close>

text \<open>What may follow the fields of a line: a separator, then nothing more to read.\<close>

definition line_end :: "string \<Rightarrow> bool" where
  "line_end e \<longleftrightarrow> e \<noteq> [] \<and> is_sep (hd e) \<and> pad_token (drop 1 e) = (None, drop 1 e)"

lemma line_ends: "line_end [nl]" "line_end (CHR '' '' # CHR ''#'' # t)"
  by (simp_all add: line_end_def is_sep_def nl_def pad_token_end)

lemma pairs_sep: "line_end e \<Longrightarrow> is_sep (hd (concat (map pair_str vs) @ e))"
  by (cases vs) (auto simp: line_end_def pair_str_def is_sep_def)

lemma parse_pairs_str:
  assumes "length vs \<le> k" "line_end e"
  shows "parse_pairs k (drop 1 (concat (map pair_str vs) @ e)) acc = Some (acc @ vs, length vs = k, drop 1 e)"
  using assms(1)
proof (induction vs arbitrary: k acc)
  case Nil
  then show ?case using assms(2) by (cases k) (auto simp: line_end_def)
next
  case (Cons v vs)
  then obtain k' where k: "k = Suc k'" by (cases k) auto
  obtain w where w: "pair_str v = CHR '' '' # w" by (simp add: pair_str_def)
  have "pad_token (w @ concat (map pair_str vs) @ e) = (Some w, drop 1 (concat (map pair_str vs) @ e))"
    using pad_token_word(1) [OF pair_word [OF w]] pairs_sep [OF assms(2)] by blast
  then show ?case
    using Cons k pad_parse_pair_str [OF w] by (simp add: w)
qed

lemma pad_parse_fields:
  assumes b: "word_ok bs" "pad_parse_buttons bs = Some b" and vs: "length vs \<le> 3" and e: "line_end e"
  shows "pad_parse_line (dec (unat (f :: u32)) @ CHR '' '' # bs @ concat (map pair_str vs) @ e)
    = Parsed \<lparr>pf_frame = f, pf_retrace = retrace_of (drop 1 e), pf_st = pad_of b vs\<rparr>"
proof -
  let ?r = "concat (map pair_str vs) @ e"
  have t1: "pad_token (dec (unat f) @ CHR '' '' # bs @ ?r) = (Some (dec (unat f)), bs @ ?r)"
    using pad_token_word(1) [OF word_ok_dec, of "CHR '' '' # bs @ ?r" "unat f"] by (simp add: is_sep_def)
  have t2: "pad_token (bs @ ?r) = (Some bs, drop 1 ?r)"
    using pad_token_word(1) [OF b(1)] pairs_sep [OF e] by blast
  have n: "strtoul (dec (unat f)) = (unat f, [])" by (rule strtoul_dec [OF small_ULONG(2)])
  have en: "pad_token (drop 1 e) = (None, drop 1 e)" using e by (simp add: line_end_def)
  show ?thesis
    using dec_digits(2) [of "unat f"] b(2) parse_pairs_str [OF vs e, of "[]"] en
    by (simp add: pad_parse_line_def t1 t2 n del: drop_append)
qed

text \<open>The pairs a state's line shows, and the state they give back.\<close>

definition shown :: "pad \<Rightarrow> (u8 \<times> u8) list" where
  "shown st = (if trig st \<noteq> (0, 0) then [stick st, cstick st, trig st]
     else if cstick st \<noteq> (128, 128) then [stick st, cstick st]
     else if stick st \<noteq> (128, 128) then [stick st] else [])"

lemma pad_state_shown: "pad_state_str st = pad_buttons_str (buttons st) @ concat (map pair_str (shown st))"
  by (simp add: pad_state_str_def shown_def Let_def)

lemma pad_of_shown: "pad_of (buttons st) (shown st) = st"
  by (rule pad.equality) (auto simp: pad_of_def shown_def numeral_2_eq_2)

lemma length_shown: "length (shown st) \<le> 3"
  by (simp add: shown_def)

lemma join_plus_length: "length (join_plus ns) \<le> sum_list (map (\<lambda>n. Suc (length n)) ns)"
  by (induction ns rule: join_plus.induct) auto

lemma set_names_length: "length (join_plus (set_names tab b)) \<le> sum_list (map (\<lambda>e. Suc (length (fst e))) tab)"
proof -
  have "sum_list (map f (filter P xs)) \<le> sum_list (map f xs)" for f :: "string \<times> 'a word \<Rightarrow> nat" and P xs
    by (induction xs) auto
  from this [of "\<lambda>e. Suc (length (fst e))" "\<lambda>(n, m). nonzero (b AND m)" tab] show ?thesis
    using join_plus_length [of "set_names tab b"] by (simp add: set_names_def comp_def)
qed

lemma pad_buttons_length: "length (pad_buttons_str b) \<le> 39"
  using set_names_length [of g_button_names b] by (simp add: pad_buttons_str_def g_button_names_def)

lemma pair_length: "length (pair_str v) \<le> 8"
  using length_dec [of "unat (fst v)" 3] length_dec [of "unat (snd v)" 3] unat_below(1) [of "fst v"]
    unat_below(1) [of "snd v"] by (simp add: pair_str_def)

text \<open>The state's text fits the buffers it is written to.\<close>

lemma pad_state_fits: "length (pad_state_str st) \<le> 63"
proof -
  have "length (concat (map pair_str vs)) \<le> 8 * length vs" for vs
    using pair_length by (induction vs) (auto intro: add_mono)
  from this [of "shown st"] show ?thesis
    using pad_buttons_length [of "buttons st"] length_shown [of st] by (simp add: pad_state_shown)
qed

lemma dec_u32_length: "length (dec (unat (f :: u32))) \<le> 10"
  using unat_below(2) [of f] by (intro length_dec) simp_all

lemma dec_u64_length: "length (dec (unat (r :: u64))) \<le> 20"
  using unat_below(3) [of r] by (intro length_dec) simp_all

lemma pad_record_line_whole:
  "pad_record_line f st r = dec (unat f) @ CHR '' '' # pad_buttons_str (buttons st)
     @ concat (map pair_str (shown st)) @ CHR '' '' # CHR ''#'' # CHR ''r'' # dec (unat r) @ [nl]"
  using pad_state_fits [of st] dec_u32_length [of f] dec_u64_length [of r]
  by (simp add: pad_record_line_def pad_state_shown)

lemma retrace_of_written: "retrace_of (CHR ''#'' # CHR ''r'' # dec (unat (r :: u64)) @ [nl]) = r"
proof -
  have "\<not> is_digit nl" by (simp add: is_digit_def nl_def less_eq_char_def)
  then have "strtoul (dec (unat r) @ [nl]) = (unat r, [nl])"
    using strtoul_dec_then [OF small_ULONG(3), of "[nl]" r] by simp
  moreover obtain c cs where "dec (unat r) = c # cs" "is_digit c"
    using dec_digits [of "unat r"] by (cases "dec (unat r)") auto
  ultimately show ?thesis by (simp add: retrace_of_def is_blank_def Let_def)
qed

text \<open>A recorded line reads back as the frame, the retrace count and the state it was made from.\<close>

lemma pad_line_roundtrip:
  assumes "buttons st AND BTN_ALL = buttons st"
  shows "pad_parse_line (pad_record_line f st r) = Parsed \<lparr>pf_frame = f, pf_retrace = r, pf_st = st\<rparr>"
  using pad_parse_fields [OF pad_buttons_roundtrip(2,1) [OF assms] length_shown [of st] line_ends(2), of f]
  by (simp add: pad_record_line_whole pad_of_shown retrace_of_written)

section \<open>Lemmas: event lines\<close>

text \<open>The events a run records, as values: the kind's name, its text and the line the reader keeps.\<close>

datatype track_event = Pad2 pad | Pad2_off | Host u8 | Turbo bool | Action string | Savenow

fun event_kind :: "track_event \<Rightarrow> ev_kind" where
  "event_kind (Pad2 st) = EV_PAD2"
| "event_kind Pad2_off = EV_PAD2"
| "event_kind (Host h) = EV_HOST"
| "event_kind (Turbo on) = EV_TURBO"
| "event_kind (Action a) = EV_ACTION"
| "event_kind Savenow = EV_SAVENOW"

fun event_text :: "track_event \<Rightarrow> string" where
  "event_text (Pad2 st) = pad_state_str st"
| "event_text Pad2_off = ''off''"
| "event_text (Host h) = host_names_str h"
| "event_text (Turbo on) = (if on then ''on'' else ''off'')"
| "event_text (Action a) = a"
| "event_text Savenow = []"

definition kind_name :: "ev_kind \<Rightarrow> string" where
  "kind_name k = (case k of EV_PAD2 \<Rightarrow> ''pad2'' | EV_HOST \<Rightarrow> ''host'' | EV_TURBO \<Rightarrow> ''turbo''
     | EV_ACTION \<Rightarrow> ''action'' | EV_SAVENOW \<Rightarrow> ''savenow'')"

fun event_ok :: "track_event \<Rightarrow> bool" where
  "event_ok (Pad2 st) = (buttons st AND BTN_ALL = buttons st)"
| "event_ok (Host h) = (h AND 15 = h)"
| "event_ok (Action a) = (word_ok a \<and> length a < 24)"
| "event_ok _ = True"

definition kept_event :: "u32 \<Rightarrow> track_event \<Rightarrow> event_line" where
  "kept_event f ev = \<lparr>ev_frame = f, ev_of = event_kind ev, ev_there = (ev \<noteq> Pad2_off),
     ev_host = (case ev of Host h \<Rightarrow> h | _ \<Rightarrow> 0), ev_st = (case ev of Pad2 st \<Rightarrow> st | _ \<Rightarrow> PAD_NEUTRAL),
     ev_text = (case ev of Turbo on \<Rightarrow> event_text ev | Action a \<Rightarrow> a | _ \<Rightarrow> [])\<rparr>"

definition recorded_event :: "u32 \<Rightarrow> track_event \<Rightarrow> string" where
  "recorded_event f ev = event_line_text f (kind_name (event_kind ev)) (event_text ev)"

lemma host_names_length: "length (host_names_str h) \<le> 14"
  using set_names_length [of g_host_names h] by (simp add: host_names_str_def g_host_names_def Let_def)

lemma event_text_fits: "event_ok ev \<Longrightarrow> length (event_text ev) \<le> 63"
  using pad_state_fits order_trans [OF host_names_length, of 63] by (cases ev) auto

lemma kind_name_word: "word_ok (CHR ''@'' # kind_name k)" "map_of k_ev_names (kind_name k) = Some k"
    "length (kind_name k) \<le> 7"
  by (cases k; simp add: kind_name_def word_ok_def is_sep_def nl_def nul_def k_ev_names_def)+

lemma recorded_event_whole:
  assumes "event_ok ev"
  shows "recorded_event f ev = dec (unat f) @ CHR '' '' # CHR ''@'' # kind_name (event_kind ev)
    @ (if event_text ev = [] then [nl] else CHR '' '' # event_text ev @ [nl])"
  using event_text_fits [OF assms] dec_u32_length [of f] kind_name_word(3) [of "event_kind ev"]
  by (auto simp: recorded_event_def event_line_text_def)

lemma pad_state_word:
  assumes "buttons st AND BTN_ALL = buttons st"
  shows "pad_token (take 199 (pad_state_str st @ [nl])) \<noteq> (Some ''off'', q)"
    and "pad_state_str st \<noteq> []"
proof -
  let ?bs = "pad_buttons_str (buttons st)"
  note b = pad_buttons_roundtrip [OF assms]
  have "take 199 (pad_state_str st @ [nl]) = ?bs @ concat (map pair_str (shown st)) @ [nl]"
    using pad_state_fits [of st] by (simp add: pad_state_shown)
  moreover have "pad_token (?bs @ concat (map pair_str (shown st)) @ [nl])
      = (Some ?bs, drop 1 (concat (map pair_str (shown st)) @ [nl]))"
    using pad_token_word(1) [OF b(2)] pairs_sep [OF line_ends(1)] by blast
  moreover have "pad_parse_buttons ''off'' = None"
    by (simp add: pad_parse_buttons_def parse_names.simps [of _ "''off''"] button_named_def g_button_names_def)
  then have "?bs \<noteq> ''off''" using b(1) by force
  ultimately show "pad_token (take 199 (pad_state_str st @ [nl])) \<noteq> (Some ''off'', q)" by simp
  show "pad_state_str st \<noteq> []" using b(2) by (auto simp: pad_state_shown word_ok_def)
qed

lemma token_nl: "word_ok w \<Longrightarrow> pad_token (w @ [nl]) = (Some w, [])"
  using pad_token_word(1) [of w "[nl]"] by (simp add: is_sep_def nl_def)

lemma event_value_pad2:
  assumes "buttons st AND BTN_ALL = buttons st"
  shows "event_value EV_PAD2 f (pad_state_str st @ [nl]) = Some (kept_event f (Pad2 st))"
proof -
  obtain w q where w: "pad_token (take 199 (pad_state_str st @ [nl])) = (w, q)" by fastforce
  then have ne: "w \<noteq> Some ''off''" using pad_state_word(1) [OF assms, of q] by auto
  have "take 255 (dec (unat f) @ CHR '' '' # pad_state_str st @ [nl])
      = dec (unat f) @ CHR '' '' # pad_buttons_str (buttons st) @ concat (map pair_str (shown st)) @ [nl]"
    using pad_state_fits [of st] dec_u32_length [of f] by (simp add: pad_state_shown)
  then have "pad_parse_line (take 255 (dec (unat f) @ CHR '' '' # pad_state_str st @ [nl]))
      = Parsed \<lparr>pf_frame = f, pf_retrace = retrace_of [], pf_st = st\<rparr>"
    using pad_parse_fields [OF pad_buttons_roundtrip(2,1) [OF assms] length_shown [of st] line_ends(1), of f]
    by (simp add: pad_of_shown)
  then show ?thesis using ne w by (simp add: event_value_def kept_event_def Let_def)
qed

lemma event_value_written:
  assumes "event_ok ev"
  shows "event_value (event_kind ev) f (if event_text ev = [] then [] else event_text ev @ [nl]) = Some (kept_event f ev)"
proof (cases ev)
  case (Pad2 st)
  then show ?thesis using event_value_pad2 pad_state_word(2) assms by simp
next
  case Pad2_off
  have "word_ok ''off''" by (simp add: word_ok_def is_sep_def nl_def nul_def)
  then have "pad_token (''off'' @ [nl]) = (Some ''off'', [])" by (rule token_nl)
  then show ?thesis using Pad2_off
    by (simp add: event_value_def kept_event_def Let_def pad_token_end)
next
  case (Host h)
  then have h: "h AND 15 = h" using assms by simp
  note r = host_names_roundtrip [OF h]
  have "host_names_str h \<noteq> []" using r(2) by (auto simp: word_ok_def)
  then show ?thesis using Host r token_nl [OF r(2)]
    by (simp add: event_value_def kept_event_def Let_def pad_token_end)
next
  case (Turbo on)
  have "word_ok ''on''" "word_ok ''off''" by (simp_all add: word_ok_def is_sep_def nl_def nul_def)
  then show ?thesis using Turbo token_nl [of "''on''"] token_nl [of "''off''"]
    by (simp add: event_value_def kept_event_def Let_def pad_token_end)
next
  case (Action a)
  then have a: "word_ok a" "length a < 24" using assms by simp_all
  then have "a \<noteq> []" by (auto simp: word_ok_def)
  then show ?thesis using Action a token_nl [OF a(1)]
    by (simp add: event_value_def kept_event_def Let_def pad_token_end)
next
  case Savenow
  then show ?thesis by (simp add: event_value_def kept_event_def Let_def pad_token_end)
qed

lemma digits_then:
  assumes "t = [] \<or> \<not> is_digit (hd t)"
  shows "dropWhile is_blank (dec n @ t) = dec n @ t" "dropWhile is_digit (dec n @ t) = t"
proof -
  obtain c cs where d: "dec n = c # cs" "is_digit c" using dec_digits [of n] by (cases "dec n") auto
  then have "\<not> is_blank c" using digit_not_space [OF d(2)] blank_sep by blast
  then show "dropWhile is_blank (dec n @ t) = dec n @ t" using d by simp
  show "dropWhile is_digit (dec n @ t) = t"
    using dec_digits(1) [of n] assms by (cases t; simp add: list_all_iff)
qed

lemma not_digits: "\<not> is_digit (CHR '' '')" "\<not> is_digit (CHR ''@'')" "\<not> is_blank (CHR ''@'')"
  by (simp_all add: is_digit_def is_blank_def less_eq_char_def)

text \<open>A recorded event reads back as the event, where its frame is not before its kind's latest.\<close>

lemma event_line_roundtrip:
  assumes ok: "event_ok ev" and order: "case latest (event_kind ev) of None \<Rightarrow> True | Some l \<Rightarrow> l \<le> f"
  shows "pad_parse_event latest (recorded_event f ev) = Event (kept_event f ev)"
proof -
  let ?r = "if event_text ev = [] then [nl] else CHR '' '' # event_text ev @ [nl]"
  let ?k = "CHR ''@'' # kind_name (event_kind ev)"
  have line: "recorded_event f ev = dec (unat f) @ CHR '' '' # ?k @ ?r"
    using recorded_event_whole [OF ok] by simp
  have t1: "pad_token (dec (unat f) @ CHR '' '' # ?k @ ?r) = (Some (dec (unat f)), ?k @ ?r)"
    using pad_token_word(1) [OF word_ok_dec, of "CHR '' '' # ?k @ ?r" "unat f"] by (simp add: is_sep_def)
  have t2: "pad_token (?k @ ?r) = (Some ?k, if event_text ev = [] then [] else event_text ev @ [nl])"
    using pad_token_word(1) [OF kind_name_word(1), of ?r "event_kind ev"] by (simp add: is_sep_def nl_def)
  have n: "strtoul (dec (unat f)) = (unat f, [])" by (rule strtoul_dec [OF small_ULONG(2)])
  obtain c cs where d: "dec (unat f) = c # cs" "is_digit c"
    using dec_digits [of "unat f"] by (cases "dec (unat f)") auto
  have "event_ahead (dec (unat f) @ CHR '' '' # ?k @ ?r)"
    using not_digits digits_then [of "CHR '' '' # ?k @ ?r" "unat f"] d
    by (auto simp: event_ahead_def Let_def is_blank_def)
  then show ?thesis
    using t1 t2 n d event_value_written [OF ok, of f] kind_name_word(2) order not_digits
    by (auto simp: line pad_parse_event_def Let_def not_less split: option.splits)
qed

end
