(* ===== verification/PadScript.thy ===== *)
theory PadScript
  imports PadText
begin

text \<open>
  runtime/si.c, the scripted controller: \<open>frame:buttons,...\<close> with \<open>@N\<close> for every N frames and
  \<open>#H\<close> for a hold of H frames. The parse ends at the first item it cannot read and gives the
  events before it and the text from that item on; what the script presses at a frame is the
  union of the events that hold there.
\<close>

record pad_event =
  pe_frame :: u32
  pe_every :: u32
  pe_hold :: u32
  pe_buttons :: u16
  pe_stick :: "u8 \<times> u8"
  pe_host :: u8

definition HOLD_FRAMES :: u32 where "HOLD_FRAMES = 10"
definition SCRIPT_MAX :: nat where "SCRIPT_MAX = 1024"

text \<open>One name: a stick direction, a button or a host button; None for any other.\<close>

definition script_name :: "string \<Rightarrow> pad_event \<Rightarrow> pad_event option" where
  "script_name n e =
     (if n = ''sup'' then Some (e\<lparr>pe_stick := (fst (pe_stick e), 255)\<rparr>)
      else if n = ''sdown'' then Some (e\<lparr>pe_stick := (fst (pe_stick e), 0)\<rparr>)
      else if n = ''sleft'' then Some (e\<lparr>pe_stick := (0, snd (pe_stick e))\<rparr>)
      else if n = ''sright'' then Some (e\<lparr>pe_stick := (255, snd (pe_stick e))\<rparr>)
      else if nonzero (button_named n) then Some (e\<lparr>pe_buttons := pe_buttons e OR button_named n\<rparr>)
      else if nonzero (host_named n) then Some (e\<lparr>pe_host := pe_host e OR host_named n\<rparr>)
      else None)"

definition ends_name :: "char \<Rightarrow> bool" where
  "ends_name c \<longleftrightarrow> c \<in> {CHR '','', CHR ''+'', CHR ''@'', CHR ''#''}"

lemma script_name_nil: "script_name [] e = None"
  by (simp add: script_name_def button_named_def host_named_def g_button_names_def g_host_names_def)

definition drop_plus :: "string \<Rightarrow> string" where
  "drop_plus q = (if q \<noteq> [] \<and> hd q = CHR ''+'' then tl q else q)"

lemma drop_plus_le: "length (drop_plus q) \<le> length q"
  by (simp add: drop_plus_def)

text \<open>The names of an item: None when one is unknown; else the event, whether any was named, the rest.\<close>

function script_names :: "string \<Rightarrow> pad_event \<Rightarrow> bool \<Rightarrow> (pad_event \<times> bool \<times> string) option" where
  "script_names p e named =
     (if p = [] \<or> hd p \<in> {CHR '','', CHR ''@'', CHR ''#''} then Some (e, named, p)
      else (case script_name (takeWhile (\<lambda>c. \<not> ends_name c) p) e of None \<Rightarrow> None
            | Some e' \<Rightarrow> script_names (drop_plus (dropWhile (\<lambda>c. \<not> ends_name c) p)) e' True))"
  by pat_completeness auto
termination
proof (relation "measure (\<lambda>(p, e, named). length p)")
  fix p :: string and e e' :: pad_event and named :: bool
  assume ne: "\<not> (p = [] \<or> hd p \<in> {CHR '','', CHR ''@'', CHR ''#''})"
    and s: "script_name (takeWhile (\<lambda>c. \<not> ends_name c) p) e = Some e'"
  then obtain c cs where p: "p = c # cs" by (cases p) auto
  have "\<not> ends_name c"
    using s p script_name_nil by (cases "ends_name c") auto
  then have "length (dropWhile (\<lambda>c. \<not> ends_name c) p) \<le> length cs"
    using p length_dropWhile_le by simp
  then show "((drop_plus (dropWhile (\<lambda>c. \<not> ends_name c) p), e', True), p, e, named)
      \<in> measure (\<lambda>(p, e, named). length p)"
    using drop_plus_le [of "dropWhile (\<lambda>c. \<not> ends_name c) p"] p by simp
qed simp

declare script_names.simps [simp del]

text \<open>The \<open>@N\<close> and \<open>#H\<close> parts.\<close>

lemma strtoul_rest: "length (snd (strtoul s)) \<le> length s"
proof -
  let ?p = "dropWhile is_space s"
  let ?q = "if ?p \<noteq> [] \<and> hd ?p \<in> {CHR ''-'', CHR ''+''} then tl ?p else ?p"
  have "length (dropWhile is_digit ?q) \<le> length ?q" by (rule length_dropWhile_le)
  also have "\<dots> \<le> length ?p" by auto
  also have "\<dots> \<le> length s" by (rule length_dropWhile_le)
  finally show ?thesis by (simp add: strtoul_def Let_def)
qed

function script_mods :: "string \<Rightarrow> pad_event \<Rightarrow> (pad_event \<times> string) option" where
  "script_mods p e =
     (if p = [] \<or> hd p \<notin> {CHR ''@'', CHR ''#''} then Some (e, p)
      else if tl p = [] \<or> \<not> is_digit (hd (tl p)) then None
      else case strtoul (tl p) of (n, r) \<Rightarrow>
        script_mods r (if hd p = CHR ''@'' then e\<lparr>pe_every := of_nat n\<rparr> else e\<lparr>pe_hold := of_nat n\<rparr>))"
  by pat_completeness auto
termination
proof (relation "measure (\<lambda>(p, e). length p)", simp, clarsimp)
  fix p r :: string and n :: nat

  assume x: "(n, r) = strtoul (tl p)" and ne: "p \<noteq> []"
  have "length r \<le> length (tl p)" using strtoul_rest [of "tl p"] unfolding x [symmetric] by simp
  then show "length r < length p" using ne by (cases p) auto
qed

declare script_mods.simps [simp del]

definition script_item :: "string \<Rightarrow> (pad_event \<times> string) option" where
  "script_item p =
     (if p = [] \<or> \<not> is_digit (hd p) then None
      else case strtoul p of (frame, r) \<Rightarrow>
        if r = [] \<or> hd r \<noteq> CHR '':'' then None
        else (case script_names (tl r) \<lparr>pe_frame = of_nat frame, pe_every = 0, pe_hold = HOLD_FRAMES,
                pe_buttons = 0, pe_stick = (128, 128), pe_host = 0\<rparr> False of None \<Rightarrow> None
              | Some (e, named, p1) \<Rightarrow>
                  (case script_mods p1 e of None \<Rightarrow> None
                   | Some (e', p2) \<Rightarrow>
                       if \<not> named \<or> (p2 \<noteq> [] \<and> hd p2 \<noteq> CHR '','') then None
                       else Some (e', p2))))"

text \<open>Items until the text or the table ends; \<open>room\<close> is what is left of the table.\<close>

fun script_items :: "nat \<Rightarrow> string \<Rightarrow> pad_event list \<times> string" where
  "script_items 0 p = ([], p)"
| "script_items (Suc room) p =
     (if p = [] then ([], p)
      else (case script_item p of None \<Rightarrow> ([], p)
            | Some (e, r) \<Rightarrow>
                (case script_items room (if r \<noteq> [] then tl r else r) of (es, q) \<Rightarrow> (e # es, q))))"

definition script_init :: "string option \<Rightarrow> pad_event list \<times> string" where
  "script_init env = (case env of None \<Rightarrow> ([], []) | Some t \<Rightarrow> script_items SCRIPT_MAX t)"

text \<open>Whether an event holds at a frame, and what a script presses there.\<close>

definition pe_down :: "u32 \<Rightarrow> pad_event \<Rightarrow> bool" where
  "pe_down frame e =
     (if frame < pe_frame e then False
      else let rel = unat frame - unat (pe_frame e)
           in (if nonzero (pe_every e) then rel mod unat (pe_every e) else rel) < unat (pe_hold e))"

definition press_event :: "u32 \<Rightarrow> pad_event \<Rightarrow> u16 \<times> (u8 \<times> u8) \<times> u8 \<Rightarrow> u16 \<times> (u8 \<times> u8) \<times> u8" where
  "press_event frame e acc = (case acc of (b, (x, y), h) \<Rightarrow>
     if pe_down frame e
     then (b OR pe_buttons e, (if fst (pe_stick e) \<noteq> 128 then fst (pe_stick e) else x,
             if snd (pe_stick e) \<noteq> 128 then snd (pe_stick e) else y), h OR pe_host e)
     else acc)"

definition script_state :: "pad_event list \<Rightarrow> u32 \<Rightarrow> u16 \<times> (u8 \<times> u8) \<times> u8" where
  "script_state es frame = fold (press_event frame) es (0, (128, 128), 0)"

section \<open>Lemmas\<close>

text \<open>An event moves something: a button, a host button or the stick.\<close>

definition presses :: "pad_event \<Rightarrow> bool" where
  "presses e \<longleftrightarrow> nonzero (pe_buttons e) \<or> nonzero (pe_host e) \<or> pe_stick e \<noteq> (128, 128)"

definition in_range :: "pad_event \<Rightarrow> bool" where
  "in_range e \<longleftrightarrow> pe_buttons e AND BTN_ALL = pe_buttons e \<and> pe_host e AND 15 = pe_host e
     \<and> fst (pe_stick e) \<in> {0, 128, 255} \<and> snd (pe_stick e) \<in> {0, 128, 255}"

lemma script_name_presses: "script_name n e = Some e' \<Longrightarrow> presses e'"
  by (auto simp: script_name_def presses_def or_eq_0_iff split: if_splits)

lemma script_names_presses:
  "script_names p e named = Some (e', named', r) \<Longrightarrow> (named \<Longrightarrow> presses e) \<Longrightarrow> named' \<Longrightarrow> presses e'"
proof (induction p e named rule: script_names.induct)
  case (1 p e named)
  then show ?case
    by (subst (asm) (2) script_names.simps) (auto split: if_splits option.splits dest: script_name_presses)
qed

lemma script_mods_keeps:
  "script_mods p e = Some (e', r) \<Longrightarrow> presses e' = presses e \<and> (in_range e' = in_range e)"
proof (induction p e rule: script_mods.induct)
  case (1 p e)
  then show ?case
    by (subst (asm) (2) script_mods.simps)
      (auto simp: presses_def in_range_def split: if_splits prod.splits)
qed

lemma named_in_range: "button_named n AND BTN_ALL = button_named n" "host_named n AND 15 = host_named n"
proof -
  have b: "list_all (\<lambda>b. b AND BTN_ALL = b) (map snd g_button_names)"
    by (simp add: g_button_names_def BTN_ALL_def BTN_A_def BTN_B_def BTN_X_def BTN_Y_def BTN_Z_def BTN_L_def
        BTN_R_def BTN_START_def BTN_UP_def BTN_DOWN_def BTN_LEFT_def BTN_RIGHT_def)
  have h: "list_all (\<lambda>b. b AND 15 = b) (map snd g_host_names)"
    by (simp add: g_host_names_def HOST_LB_def HOST_VIEW_def HOST_LS_def HOST_RS_def)
  show "button_named n AND BTN_ALL = button_named n" "host_named n AND 15 = host_named n"
    using b h by (auto simp: button_named_def host_named_def list_all_iff split: option.splits dest!: map_of_SomeD)
qed

lemma script_name_in_range: "script_name n e = Some e' \<Longrightarrow> in_range e \<Longrightarrow> in_range e'"
  using named_in_range [of n] by (auto simp: script_name_def in_range_def bit.conj_disj_distrib2 split: if_splits)

lemma script_names_in_range:
  "script_names p e named = Some (e', named', r) \<Longrightarrow> in_range e \<Longrightarrow> in_range e'"
proof (induction p e named rule: script_names.induct)
  case (1 p e named)
  then show ?case
    by (subst (asm) (2) script_names.simps) (auto split: if_splits option.splits dest: script_name_in_range)
qed

lemma script_item_parts:
  assumes "script_item p = Some (e, r)"
  obtains frame q e1 p1 where "script_names q \<lparr>pe_frame = frame, pe_every = 0, pe_hold = HOLD_FRAMES,
      pe_buttons = 0, pe_stick = (128, 128), pe_host = 0\<rparr> False = Some (e1, True, p1)"
    "script_mods p1 e1 = Some (e, r)" "r = [] \<or> hd r = CHR '',''"
  using assms that by (auto simp: script_item_def split: if_splits prod.splits option.splits)

lemma script_item_ok:
  assumes "script_item p = Some (e, r)"
  shows "presses e \<and> in_range e"
proof -
  obtain frame q e1 p1 where n: "script_names q \<lparr>pe_frame = frame, pe_every = 0, pe_hold = HOLD_FRAMES,
      pe_buttons = 0, pe_stick = (128, 128), pe_host = 0\<rparr> False = Some (e1, True, p1)"
    and m: "script_mods p1 e1 = Some (e, r)" by (rule script_item_parts [OF assms])
  have "presses e1" using script_names_presses [OF n] by simp
  moreover have "in_range e1" using script_names_in_range [OF n] by (simp add: in_range_def)
  ultimately show ?thesis using script_mods_keeps [OF m] by simp
qed

lemma script_items_ok:
  "script_items room p = (es, q) \<Longrightarrow>
     length es \<le> room \<and> list_all (\<lambda>e. presses e \<and> in_range e) es
     \<and> (q = [] \<or> length es = room \<or> script_item q = None)"
proof (induction room p arbitrary: es q rule: script_items.induct)
  case (2 room p)
  then show ?case
    by (auto split: if_splits option.splits prod.splits dest: script_item_ok)
qed auto

lemma press_fold:
  "fold (press_event frame) es (b, (x, y), h) = (b', (x', y'), h') \<Longrightarrow>
     (bit b' k \<longleftrightarrow> bit b k \<or> (\<exists>e\<in>set es. pe_down frame e \<and> bit (pe_buttons e) k))
     \<and> (bit h' k \<longleftrightarrow> bit h k \<or> (\<exists>e\<in>set es. pe_down frame e \<and> bit (pe_host e) k))"
proof (induction es arbitrary: b x y h)
  case (Cons e es)
  obtain b1 x1 y1 h1 where p: "press_event frame e (b, (x, y), h) = (b1, (x1, y1), h1)"
    by (metis prod_cases3 surj_pair)
  then have "(bit b1 k \<longleftrightarrow> bit b k \<or> pe_down frame e \<and> bit (pe_buttons e) k)
      \<and> (bit h1 k \<longleftrightarrow> bit h k \<or> pe_down frame e \<and> bit (pe_host e) k)"
    by (auto simp: press_event_def bit_simps split: if_splits)
  moreover have "fold (press_event frame) es (b1, (x1, y1), h1) = (b', (x', y'), h')"
    using Cons.prems p by simp
  ultimately show ?case using Cons.IH [of b1 x1 y1 h1] by auto
qed simp

lemma pe_down_once:
  "pe_every e = 0 \<Longrightarrow> pe_down frame e \<longleftrightarrow>
     unat (pe_frame e) \<le> unat frame \<and> unat frame < unat (pe_frame e) + unat (pe_hold e)"
  by (auto simp: pe_down_def word_less_nat_alt Let_def)

text \<open>C22: whatever the text of a pad script, the parse ends with at most 1024 events, each of which presses
  a button, a host button or the stick and nothing a controller does not have; it stops only at
  the text's end, a full table or an item it cannot read; and at every frame a button is down
  exactly when an event that names it holds there.\<close>

theorem script_presses_what_it_names:
  "(case script_init env of (es, left) \<Rightarrow>
     length es \<le> SCRIPT_MAX \<and> list_all (\<lambda>e. presses e \<and> in_range e) es
     \<and> (left = [] \<or> length es = SCRIPT_MAX \<or> script_item left = None)
     \<and> (case script_state es frame of (b, st, h) \<Rightarrow>
          (\<forall>k. bit b k \<longleftrightarrow> (\<exists>e\<in>set es. pe_down frame e \<and> bit (pe_buttons e) k))
          \<and> (\<forall>k. bit h k \<longleftrightarrow> (\<exists>e\<in>set es. pe_down frame e \<and> bit (pe_host e) k))))"
proof -
  obtain es left where i: "script_init env = (es, left)" by fastforce
  obtain b x y h where s: "fold (press_event frame) es (0, (128, 128), 0) = (b, (x, y), h)"
    by (metis prod_cases3 surj_pair)
  have "length es \<le> SCRIPT_MAX \<and> list_all (\<lambda>e. presses e \<and> in_range e) es
     \<and> (left = [] \<or> length es = SCRIPT_MAX \<or> script_item left = None)"
    using i script_items_ok [of SCRIPT_MAX] by (auto simp: script_init_def split: option.splits)
  then show ?thesis
    using i s press_fold [OF s] by (simp add: script_state_def)
qed

end
