(* ===== verification/PadTrack.thy ===== *)
theory PadTrack
  imports PadScript
begin

text \<open>
  runtime/si.c, recording and replay: what the controller port reads, written down by the frame
  and played back in place of any live input, with the event track beside it (port 2, the host
  buttons, turbo, the debug actions, save now). The state is \<open>si\<close>; what the window, the second
  pad, the menu and the renderer answer during one call is \<open>si_in\<close>; the environment variables
  and the files are \<open>si_host\<close>. The recording is the text written so far, the calls out (a chord's
  handler, the frame limit, an exit) are listed in \<open>si_out\<close>. Lists stand for the grown arrays, so
  memory does not run out; the messages are left out.
\<close>

section \<open>State\<close>

record si_in =
  in_frame :: u32
  in_retrace :: u64
  in_window :: "pad option"
  in_host :: "u16 option"
  in_pad2 :: "pad option"
  in_menu :: bool
  in_filter :: "pad \<Rightarrow> pad"

record si_host =
  getenv :: "string \<Rightarrow> string option"
  files :: "string \<Rightarrow> string option"
  path_root :: string
  cfg_extra :: string

datatype si_call = Chord nat u32 | Frame_limit u32 | Exit11

record si =
  g_rec :: "string option"
  g_rec_path :: string
  g_rec_tried :: bool
  g_rec_done :: bool
  g_rec_last :: pad
  g_rec_changes :: u64
  g_rec_p2 :: pad
  g_rec_p2_there :: bool
  g_rec_host :: u32
  g_ev :: "event_line list"
  g_ev_at :: "ev_kind \<Rightarrow> nat option"
  g_ev_next :: "ev_kind \<Rightarrow> nat"
  g_replaying :: bool
  g_play :: "pad_frame list"
  g_play_i :: nat
  g_play_tried :: bool
  g_play_done :: bool
  g_play_last :: u32
  g_play_late :: u64
  g_play_drift :: int
  g_play_drift_max :: int
  g_scr1 :: "pad_event list option"
  g_scr2 :: "pad_event list option"
  pad_latch :: "(u32 \<times> pad) option"
  pad2_latch :: "(u32 \<times> bool \<times> pad) option"
  g_host :: u32
  g_host_prev :: u32
  g_host_frame :: "u32 option"
  g_pad_frame :: u32
  g_pad_seen :: bool
  si_out :: "si_call list"

text \<open>
  \<open>g_play_i\<close> is one more than the code's, so that 0 is "no line yet"; a latch or a host frame is
  None where the code's \<open>valid\<close> flag is 0, a script where its count is -1.
\<close>

definition si_init :: si where
  "si_init = \<lparr>g_rec = None, g_rec_path = [], g_rec_tried = False, g_rec_done = False,
     g_rec_last = PAD_NEUTRAL, g_rec_changes = 0, g_rec_p2 = PAD_NEUTRAL, g_rec_p2_there = False, g_rec_host = 0,
     g_ev = [], g_ev_at = (\<lambda>_. None), g_ev_next = (\<lambda>_. 0), g_replaying = False, g_play = [], g_play_i = 0,
     g_play_tried = False, g_play_done = False, g_play_last = 0, g_play_late = 0, g_play_drift = 0,
     g_play_drift_max = 0, g_scr1 = None, g_scr2 = None, pad_latch = None, pad2_latch = None, g_host = 0,
     g_host_prev = 0, g_host_frame = None, g_pad_frame = 0, g_pad_seen = False, si_out = []\<rparr>"

definition call_out :: "si_call \<Rightarrow> si \<Rightarrow> si" where
  "call_out c s = s\<lparr>si_out := si_out s @ [c]\<rparr>"

section \<open>The configuration line\<close>

definition env_or :: "si_host \<Rightarrow> string \<Rightarrow> string \<Rightarrow> string" where
  "env_or h name dflt = (case getenv h name of Some v \<Rightarrow> if v \<noteq> [] then v else dflt | None \<Rightarrow> dflt)"

definition env_text :: "si_host \<Rightarrow> string \<Rightarrow> string" where
  "env_text h name = (case getenv h name of Some v \<Rightarrow> v | None \<Rightarrow> [])"

definition file_size_text :: "si_host \<Rightarrow> string \<Rightarrow> string" where
  "file_size_text h path = (case files h path of None \<Rightarrow> ''-1'' | Some t \<Rightarrow> dec (length t))"

definition upper_letter :: "char \<Rightarrow> bool" where
  "upper_letter c \<longleftrightarrow> CHR ''A'' \<le> c \<and> c \<le> CHR ''Z''"

definition path_char :: "char \<Rightarrow> char" where
  "path_char c = (let a = (if c = CHR ''/'' then CHR 0x5C else c)
     in if upper_letter a then char_of (of_char a + (32 :: nat)) else a)"

text \<open>The path below the port's root; slashes and letter case do not matter.\<close>

definition under_path_root :: "si_host \<Rightarrow> string \<Rightarrow> string" where
  "under_path_root h path =
     (let n = length (path_root h)
      in if n = 0 \<or> length path \<le> n \<or> map path_char (take n path) \<noteq> map path_char (path_root h) then path
         else if path ! n \<in> {CHR 0x5C, CHR ''/''} then drop (n + 1) path else path)"

definition text_hash :: "string \<Rightarrow> u32" where
  "text_hash s = foldl (\<lambda>h c. (h XOR of_char c) * 16777619) 2166136261 s"

definition hex_char :: "nat \<Rightarrow> char" where
  "hex_char d = (if d < 10 then char_of (48 + d) else char_of (87 + d))"

definition hex8 :: "u32 \<Rightarrow> string" where
  "hex8 v = map (\<lambda>i. hex_char (unat (drop_bit (28 - 4 * i) v AND 15))) [0..<8]"

definition force_word :: "string \<Rightarrow> string" where
  "force_word t = take 48 (takeWhile (\<lambda>c. \<not> is_sep c) (dropWhile is_blank t))"

definition pad_knobs :: "si_host \<Rightarrow> string" where
  "pad_knobs h =
     (let w = force_word (env_text h ''SOA_BATTLE_FORCE''); poke = env_text h ''SOA_POKE'';
          mempoke = env_text h ''SOA_MEMPOKE''
      in (if w \<noteq> [] then '' battle_force='' @ w else [])
         @ (if poke \<noteq> [] then '' poke='' @ hex8 (text_hash poke) else [])
         @ (if mempoke \<noteq> [] then '' mempoke='' @ hex8 (text_hash mempoke) else []))"

definition pad_config :: "si_host \<Rightarrow> string" where
  "pad_config h =
     (let card_path = env_or h ''SOA_CARD'' ''build/cards/slotA.raw''; uncap = env_text h ''SOA_UNCAP''
      in take 1023 (''render='' @ env_or h ''SOA_RENDER'' ''-'' @ '' window='' @ env_or h ''SOA_WINDOW'' ''-''
         @ '' speed='' @ env_or h ''SOA_SPEED'' ''1'' @ '' scale='' @ env_or h ''SOA_SCALE'' ''2''
         @ '' threads='' @ env_or h ''SOA_THREADS'' ''-'' @ '' card='' @ under_path_root h card_path
         @ '':'' @ file_size_text h card_path
         @ (if uncap \<noteq> [] \<and> uncap \<noteq> ''0'' then '' uncap='' @ uncap else [])
         @ pad_knobs h @ (if cfg_extra h \<noteq> [] then '' '' else []) @ cfg_extra h))"

definition pad_strict :: "si_host \<Rightarrow> bool" where
  "pad_strict h \<longleftrightarrow> env_text h ''SOA_PAD_STRICT'' \<noteq> [] \<and> env_text h ''SOA_PAD_STRICT'' \<noteq> ''0''"

section \<open>Recording\<close>

text \<open>The first of the hundred names that is free; None when none is.\<close>

definition pad_record_create :: "si_host \<Rightarrow> string \<Rightarrow> string option" where
  "pad_record_create h path =
     (if files h path = None then Some path
      else find (\<lambda>p. files h p = None) (map (\<lambda>n. path @ ''.'' @ dec n) [1..<100]))"

definition rec_header :: string where
  "rec_header = ''# soa pad recording v3 -- frame buttons stick cstick triggers, one line per change; ''
     @ CHR 0x60 # ''frame @kind'' @ CHR 0x60 # '' lines are the event track (docs/specs/event-track.md)'' @ [nl]"

definition pad_record_open :: "si_host \<Rightarrow> si \<Rightarrow> si" where
  "pad_record_open h s =
     (let s1 = s\<lparr>g_rec_tried := True, g_rec_last := PAD_NEUTRAL\<rparr>; path = env_text h ''SOA_PAD_RECORD''
      in if path = [] then s1
         else (case pad_record_create h path of None \<Rightarrow> s1
               | Some p \<Rightarrow> s1\<lparr>g_rec_path := p, g_rec := Some (rec_header @ ''# config '' @ pad_config h @ [nl])\<rparr>))"

definition rec_put :: "string \<Rightarrow> si \<Rightarrow> si" where
  "rec_put line s = s\<lparr>g_rec := map_option (\<lambda>t. t @ line) (g_rec s)\<rparr>"

definition pad_record :: "u64 \<Rightarrow> pad \<Rightarrow> u32 \<Rightarrow> si \<Rightarrow> si" where
  "pad_record retrace st frame s =
     (if g_rec_done s \<or> pad_same st (g_rec_last s) then s
      else (rec_put (pad_record_line frame st retrace) s)\<lparr>g_rec_last := st, g_rec_changes := g_rec_changes s + 1\<rparr>)"

definition event_record :: "u32 \<Rightarrow> string \<Rightarrow> string \<Rightarrow> si \<Rightarrow> si" where
  "event_record frame kind val s =
     (if g_rec s = None \<or> g_rec_done s then s else rec_put (event_line_text frame kind val) s)"

definition pad2_record :: "pad \<Rightarrow> bool \<Rightarrow> u32 \<Rightarrow> si \<Rightarrow> si" where
  "pad2_record st there frame s =
     (if there = g_rec_p2_there s \<and> (\<not> there \<or> pad_same st (g_rec_p2 s)) then s
      else (event_record frame ''pad2'' (if there then pad_state_str st else ''off'') s)
             \<lparr>g_rec_p2_there := there, g_rec_p2 := st\<rparr>)"

section \<open>The replay's lists\<close>

text \<open>Lines as \<open>fgets\<close> gives them to a buffer of 2048: up to a newline, at most 2047 characters.\<close>

definition fgets_line :: "string \<Rightarrow> string \<times> string" where
  "fgets_line t =
     (let l = takeWhile (\<lambda>c. c \<noteq> nl) t; n = (if length l < length t then length l + 1 else length l)
      in (take (min n 2047) t, drop (min n 2047) t))"

lemma fgets_shorter: "t \<noteq> [] \<Longrightarrow> length (snd (fgets_line t)) < length t"
  by (cases t) (auto simp: fgets_line_def Let_def)

function fgets_lines :: "string \<Rightarrow> string list" where
  "fgets_lines t = (if t = [] then [] else fst (fgets_line t) # fgets_lines (snd (fgets_line t)))"
  by pat_completeness auto
termination by (relation "measure length") (use fgets_shorter in auto)

declare fgets_lines.simps [simp del]

text \<open>What the reader has gathered: the configuration, pad 1's lines, the events, each kind's latest frame.\<close>

record loaded =
  ld_was :: string
  ld_play :: "pad_frame list"
  ld_ev :: "event_line list"
  ld_latest :: ev_last

definition is_eol :: "char \<Rightarrow> bool" where
  "is_eol c \<longleftrightarrow> c = nl \<or> c = CHR 0x0D"

definition load_line :: "string \<Rightarrow> loaded \<Rightarrow> loaded" where
  "load_line chunk l =
     (let line = takeWhile (\<lambda>c. c \<noteq> nul) chunk
      in if take 9 line = ''# config '' then l\<lparr>ld_was := take 1023 (drop 9 (rev (dropWhile is_eol (rev line))))\<rparr>
         else (case pad_parse_event (ld_latest l) line of
             Event e \<Rightarrow> l\<lparr>ld_ev := ld_ev l @ [e], ld_latest := (ld_latest l)(ev_of e := Some (ev_frame e))\<rparr>
           | Passed_over \<Rightarrow> l
           | Not_event \<Rightarrow>
               (case pad_parse_line line of
                  Parsed e \<Rightarrow> if ld_play l \<noteq> [] \<and> pf_frame e < pf_frame (List.last (ld_play l)) then l
                     else l\<lparr>ld_play := ld_play l @ [e]\<rparr>
                | _ \<Rightarrow> l)))"

text \<open>The next line of a kind from an index on; the number of lines when there is none.\<close>

fun ev_from :: "ev_kind \<Rightarrow> event_line list \<Rightarrow> nat \<Rightarrow> nat" where
  "ev_from k [] j = j"
| "ev_from k (e # es) j = (if ev_of e = k then j else ev_from k es (Suc j))"

definition next_of :: "ev_kind \<Rightarrow> event_line list \<Rightarrow> nat \<Rightarrow> nat" where
  "next_of k es j = ev_from k (drop j es) j"

definition with_release :: "pad_frame list \<Rightarrow> pad_frame list" where
  "with_release ps =
     (if ps \<noteq> [] \<and> \<not> pad_same (pf_st (List.last ps)) PAD_NEUTRAL
      then ps @ [\<lparr>pf_frame = pf_frame (List.last ps) + 1, pf_retrace = 0, pf_st = PAD_NEUTRAL\<rparr>] else ps)"

definition last_frame :: "pad_frame list \<Rightarrow> event_line list \<Rightarrow> u32" where
  "last_frame ps es = foldl (\<lambda>m e. if ev_frame e > m then ev_frame e else m)
     (if ps = [] then 0 else pf_frame (List.last ps)) es"

definition pad_replay_load :: "si_host \<Rightarrow> si \<Rightarrow> si" where
  "pad_replay_load h s =
     (let s1 = s\<lparr>g_play_tried := True\<rparr>; path = env_text h ''SOA_PAD_FILE''
      in if path = [] then s1
         else (case files h path of None \<Rightarrow> s1
           | Some t \<Rightarrow>
               (let l = fold load_line (fgets_lines t) \<lparr>ld_was = [], ld_play = g_play s1, ld_ev = g_ev s1, ld_latest = (\<lambda>_. None)\<rparr>
                in if ld_play l = [] \<and> ld_ev l = [] then s1
                   else let play = with_release (ld_play l);
                            s2 = s1\<lparr>g_replaying := True, g_ev := ld_ev l, g_ev_at := (\<lambda>_. None),
                              g_ev_next := (\<lambda>k. next_of k (ld_ev l) 0), g_play := play,
                              g_play_last := last_frame play (ld_ev l)\<rparr>
                        in if ld_was l \<noteq> pad_config h \<and> pad_strict h then call_out Exit11 s2 else s2)))"

text \<open>One line a read, at most; a line due behind it is late. The end of the lines ends the run.\<close>

definition pad_replay_drift :: "u64 \<Rightarrow> pad_frame \<Rightarrow> si \<Rightarrow> si" where
  "pad_replay_drift retrace e s =
     (if pf_retrace e = 0 then s
      else let drift = sint (retrace - pf_retrace e)
           in s\<lparr>g_play_drift := drift, g_play_drift_max := max (g_play_drift_max s) \<bar>drift\<bar>\<rparr>)"

definition to_u32 :: "string \<Rightarrow> u32" where
  "to_u32 t = of_nat (fst (strtoul t))"

definition pad_replay_end :: "si_host \<Rightarrow> u32 \<Rightarrow> si \<Rightarrow> si" where
  "pad_replay_end h frame s =
     (let grace = (case getenv h ''SOA_PAD_STOP'' of Some v \<Rightarrow> to_u32 v | None \<Rightarrow> 120);
          limit = (case getenv h ''SOA_FRAMES'' of Some v \<Rightarrow> to_u32 v | None \<Rightarrow> 0);
          target = frame + grace; s1 = s\<lparr>g_play_done := True\<rparr>
      in if grace = 0 then s1 else if nonzero limit \<and> limit \<le> target then s1
         else call_out (Frame_limit target) s1)"

definition due :: "pad_frame list \<Rightarrow> nat \<Rightarrow> u32 \<Rightarrow> bool" where
  "due ps i frame \<longleftrightarrow> i < length ps \<and> pf_frame (ps ! i) \<le> frame"

definition pad_replay :: "si_host \<Rightarrow> u64 \<Rightarrow> u32 \<Rightarrow> si \<Rightarrow> pad option \<times> si" where
  "pad_replay h retrace frame s0 =
     (let s = (if g_play_tried s0 then s0 else pad_replay_load h s0)
      in if \<not> g_replaying s then (None, s)
         else let s1 =
             (if due (g_play s) (g_play_i s) frame
              then let s' = pad_replay_drift retrace (g_play s ! g_play_i s) (s\<lparr>g_play_i := Suc (g_play_i s)\<rparr>)
                   in if due (g_play s) (Suc (g_play_i s)) frame then s'\<lparr>g_play_late := g_play_late s' + 1\<rparr> else s'
              else if \<not> g_play_done s \<and> g_play_i s \<ge> length (g_play s) \<and> frame > g_play_last s
              then pad_replay_end h frame s else s)
           in (Some (if g_play_i s1 = 0 then PAD_NEUTRAL else pf_st (g_play s1 ! (g_play_i s1 - 1))), s1))"

section \<open>Events in effect and events due\<close>

lemma ev_from_ge: "j \<le> ev_from k es j"
  by (induction es arbitrary: j) (auto intro: order_trans [OF le_SucI])

lemma next_of_ge: "j \<le> next_of k es j"
  by (simp add: next_of_def ev_from_ge)

function event_at_loop :: "event_line list \<Rightarrow> ev_kind \<Rightarrow> u32 \<Rightarrow> nat option \<Rightarrow> nat \<Rightarrow> nat option \<times> nat" where
  "event_at_loop es k frame at nxt =
     (if nxt < length es \<and> ev_frame (es ! nxt) \<le> frame
      then event_at_loop es k frame (Some nxt) (next_of k es (Suc nxt)) else (at, nxt))"
  by pat_completeness auto
termination
  by (relation "measure (\<lambda>(es, k, frame, at, nxt). length es - nxt)")
    (use next_of_ge Suc_le_lessD diff_less_mono2 in \<open>auto intro!: diff_less_mono2 intro: Suc_le_lessD [OF next_of_ge]\<close>)

declare event_at_loop.simps [simp del]

definition event_at :: "ev_kind \<Rightarrow> u32 \<Rightarrow> si \<Rightarrow> nat option \<times> si" where
  "event_at k frame s =
     (case event_at_loop (g_ev s) k frame (g_ev_at s k) (g_ev_next s k) of (at, nxt) \<Rightarrow>
        (at, s\<lparr>g_ev_at := (g_ev_at s)(k := at), g_ev_next := (g_ev_next s)(k := nxt)\<rparr>))"

text \<open>The ends the safe point uses: an event applied, and the next one due.\<close>

definition event_applied :: "si_host \<Rightarrow> u32 \<Rightarrow> string \<Rightarrow> string \<Rightarrow> si \<Rightarrow> si" where
  "event_applied h frame kind val s =
     event_record frame kind val (if g_rec_tried s then s else pad_record_open h s)"

definition event_take :: "si_host \<Rightarrow> string \<Rightarrow> u32 \<Rightarrow> si \<Rightarrow> (int \<times> string) \<times> si" where
  "event_take h kind frame s0 =
     (let s = (if g_play_tried s0 then s0 else pad_replay_load h s0)
      in if \<not> g_replaying s then ((-1, []), s)
         else (case map_of k_ev_names kind of None \<Rightarrow> ((0, []), s)
           | Some k \<Rightarrow>
               if k = EV_PAD2 \<or> k = EV_HOST then ((0, []), s)
               else let j = g_ev_next s k
                    in if j \<ge> length (g_ev s) \<or> ev_frame (g_ev s ! j) > frame then ((0, []), s)
                       else ((1, ev_text (g_ev s ! j)),
                             s\<lparr>g_ev_next := (g_ev_next s)(k := next_of k (g_ev s) (Suc j))\<rparr>)))"

definition event_left :: "si_host \<Rightarrow> si \<Rightarrow> si" where
  "event_left h s = (if pad_strict h then call_out Exit11 s else s)"

section \<open>Reading the ports\<close>

definition script_of :: "si_host \<Rightarrow> string \<Rightarrow> pad_event list option \<Rightarrow> pad_event list" where
  "script_of h name sc = (case sc of Some es \<Rightarrow> es | None \<Rightarrow> fst (script_init (getenv h name)))"

definition script_now :: "si_host \<Rightarrow> u32 \<Rightarrow> si \<Rightarrow> (u16 \<times> (u8 \<times> u8) \<times> u8) \<times> si" where
  "script_now h frame s =
     (let es = script_of h ''SOA_PAD'' (g_scr1 s) in (script_state es frame, s\<lparr>g_scr1 := Some es\<rparr>))"

definition over_stick :: "u8 \<times> u8 \<Rightarrow> u8 \<times> u8 \<Rightarrow> u8 \<times> u8" where
  "over_stick sc st = (if fst sc \<noteq> 128 then fst sc else fst st, if snd sc \<noteq> 128 then snd sc else snd st)"

definition pad_sample :: "si_host \<Rightarrow> si_in \<Rightarrow> si \<Rightarrow> pad \<times> si" where
  "pad_sample h io s =
     (case pad_replay h (in_retrace io) (in_frame io) s of
        (Some st, s1) \<Rightarrow> (st, s1)
      | (None, s1) \<Rightarrow>
          (case script_now h (in_frame io) s1 of ((b, sst, _), s2) \<Rightarrow>
             let st = (case in_window io of
                   Some w \<Rightarrow> w\<lparr>buttons := buttons w OR b, stick := over_stick sst (stick w)\<rparr>
                 | None \<Rightarrow> PAD_NEUTRAL\<lparr>buttons := b, stick := sst\<rparr>);
                 st1 = st\<lparr>buttons := buttons st AND BTN_ALL\<rparr>
             in (if in_menu io then PAD_NEUTRAL else st1, s2)))"

definition pad2_sample :: "si_host \<Rightarrow> si_in \<Rightarrow> si \<Rightarrow> (bool \<times> pad) \<times> si" where
  "pad2_sample h io s =
     (case in_pad2 io of
        Some w \<Rightarrow> ((True, w\<lparr>buttons := buttons w AND BTN_ALL\<rparr>), s)
      | None \<Rightarrow>
          (let es = script_of h ''SOA_PAD2'' (g_scr2 s); s1 = s\<lparr>g_scr2 := Some es\<rparr>
           in if es = [] then ((False, PAD_NEUTRAL), s1)
              else (case script_state es (in_frame io) of (b, sst, _) \<Rightarrow>
                ((True, PAD_NEUTRAL\<lparr>buttons := b, stick := sst\<rparr>), s1))))"

definition opened :: "si_host \<Rightarrow> si \<Rightarrow> si" where
  "opened h s =
     (let s1 = (if g_rec_tried s then s else pad_record_open h s)
      in if g_play_tried s1 then s1 else pad_replay_load h s1)"

text \<open>Port 2, which only mods read; None where the code leaves the state untouched.\<close>

definition si_read_pad :: "si_host \<Rightarrow> si_in \<Rightarrow> nat \<Rightarrow> si \<Rightarrow> (bool \<times> pad option) \<times> si" where
  "si_read_pad h io port s0 =
     (if port \<noteq> 2 then ((False, None), s0)
      else let s = opened h s0
           in if g_replaying s
              then (case event_at EV_PAD2 (in_frame io) s of (at, s1) \<Rightarrow>
                (case at of None \<Rightarrow> ((False, Some PAD_NEUTRAL), s1)
                 | Some j \<Rightarrow> ((ev_there (g_ev s1 ! j), Some (ev_st (g_ev s1 ! j))), s1)))
              else (case (if g_rec s = None then None else pad2_latch s) of
                  Some (f, there, st) \<Rightarrow> if f = in_frame io then ((there, Some st), s)
                    else (case pad2_sample h io s of ((there', st'), s1) \<Rightarrow>
                      ((there', Some st'), pad2_record st' there' (in_frame io)
                         (s1\<lparr>pad2_latch := Some (in_frame io, there', st')\<rparr>)))
                | None \<Rightarrow> (case pad2_sample h io s of ((there', st'), s1) \<Rightarrow>
                    ((there', Some st'), if g_rec s = None then s1 else pad2_record st' there' (in_frame io)
                         (s1\<lparr>pad2_latch := Some (in_frame io, there', st')\<rparr>)))))"

definition k_chords :: "(u32 \<times> string \<times> string) list" where
  "k_chords = [(ucast (HOST_VIEW OR HOST_LB), ''view+lb'', ''fullscreen''),
     (ucast (HOST_VIEW OR HOST_RS), ''view+rs'', ''turbo''), (ucast (HOST_VIEW OR HOST_LS), ''view+ls'', ''menu'')]"

definition chord_fires :: "u32 \<Rightarrow> u32 \<Rightarrow> u32 \<Rightarrow> bool" where
  "chord_fires host prev m \<longleftrightarrow> host AND m = m \<and> nonzero (host AND NOT prev AND m)"

definition chord_line :: "u32 \<Rightarrow> string \<Rightarrow> string \<Rightarrow> string" where
  "chord_line frame keys what = take 79 (''# chord '' @ dec (unat frame) @ '' '' @ keys @ '' '' @ what @ [nl])"

fun fire_chords :: "nat \<Rightarrow> (u32 \<times> string \<times> string) list \<Rightarrow> u32 \<Rightarrow> si \<Rightarrow> si" where
  "fire_chords i [] frame s = s"
| "fire_chords i ((m, keys, what) # cs) frame s =
     fire_chords (Suc i) cs frame
       (if chord_fires (g_host s) (g_host_prev s) m
        then call_out (Chord i frame)
          (if g_rec s \<noteq> None \<and> \<not> g_rec_done s then rec_put (chord_line frame keys what) s else s)
        else s)"

definition host_taken :: "si_host \<Rightarrow> si_in \<Rightarrow> si \<Rightarrow> u32 \<times> si" where
  "host_taken h io s =
     (if g_replaying s
      then (case event_at EV_HOST (in_frame io) s of (at, s1) \<Rightarrow>
        ((case at of None \<Rightarrow> 0 | Some j \<Rightarrow> ucast (ev_host (g_ev s1 ! j))), s1))
      else (case script_now h (in_frame io) s of ((_, _, hs), s1) \<Rightarrow>
        ((case in_host io of Some w \<Rightarrow> ucast w | None \<Rightarrow> 0) OR ucast hs, s1)))"

definition host_record :: "u32 \<Rightarrow> si \<Rightarrow> si" where
  "host_record frame s =
     (if g_rec s \<noteq> None \<and> g_host s \<noteq> g_rec_host s
      then (event_record frame ''host'' (host_names_str (ucast (g_host s))) s)\<lparr>g_rec_host := g_host s\<rparr> else s)"

definition host_update :: "si_host \<Rightarrow> si_in \<Rightarrow> si \<Rightarrow> si" where
  "host_update h io s =
     (if g_host_frame s = Some (in_frame io) then s
      else case host_taken h io (s\<lparr>g_host_frame := Some (in_frame io), g_host_prev := g_host s\<rparr>) of (v, s1) \<Rightarrow>
        let s2 = host_record (in_frame io) (s1\<lparr>g_host := v\<rparr>)
        in if g_replaying s2 then s2 else fire_chords 0 k_chords (in_frame io) s2)"

text \<open>The state this read has: while recording, the first of a frame is the frame's.\<close>

definition pad_read :: "si_host \<Rightarrow> si_in \<Rightarrow> si \<Rightarrow> pad \<times> si" where
  "pad_read h io s =
     (case (if g_rec s = None then None else pad_latch s) of
        Some (f, st) \<Rightarrow> if f = in_frame io then (st, s)
          else (case pad_sample h io s of (st', s1) \<Rightarrow> (st', s1\<lparr>pad_latch := Some (in_frame io, st')\<rparr>))
      | None \<Rightarrow> (case pad_sample h io s of (st', s1) \<Rightarrow> (st', s1\<lparr>pad_latch := Some (in_frame io, st')\<rparr>)))"

text \<open>The 8-byte report: buttons, main stick, C stick, triggers.\<close>

definition report_bytes :: "pad \<Rightarrow> u8 list" where
  "report_bytes st = [ucast (drop_bit 8 (buttons st) AND 0x1F), 0x80 OR ucast (buttons st AND 0x7F),
     fst (stick st), snd (stick st), fst (cstick st), snd (cstick st), fst (trig st), snd (trig st)]"

definition filtered :: "si_in \<Rightarrow> pad \<Rightarrow> pad" where
  "filtered io st = (let st' = in_filter io st in st'\<lparr>buttons := buttons st' AND BTN_ALL\<rparr>)"

definition pad_report :: "si_host \<Rightarrow> si_in \<Rightarrow> si \<Rightarrow> u8 list \<times> si" where
  "pad_report h io s0 =
     (case pad_read h io (opened h s0) of (st, s1) \<Rightarrow>
        let s2 = host_update h io s1;
            s3 = (if g_rec s2 \<noteq> None then pad_record (in_retrace io) st (in_frame io) s2 else s2)
        in (report_bytes (filtered io st), s3\<lparr>g_pad_frame := in_frame io, g_pad_seen := True\<rparr>))"

text \<open>The recording's end at the report: whatever is held is let go one frame on, then the totals.\<close>

definition si_close :: "u64 \<Rightarrow> si \<Rightarrow> si" where
  "si_close retrace s =
     (if g_rec s = None then s
      else let next = g_pad_frame s + 1;
               s1 = (if g_pad_seen s \<and> \<not> pad_same (g_rec_last s) PAD_NEUTRAL
                     then pad_record retrace PAD_NEUTRAL next s else s);
               s2 = (if g_pad_seen s \<and> nonzero (g_rec_host s1) then event_record next ''host'' ''-'' s1 else s1);
               s3 = (if g_pad_seen s \<and> g_rec_p2_there s2 \<and> \<not> pad_same (g_rec_p2 s2) PAD_NEUTRAL
                     then event_record next ''pad2'' ''-'' s2 else s2)
           in rec_put (take 127 (''# '' @ dec (unat (g_rec_changes s3)) @ '' state changes over ''
                @ dec (unat (if g_pad_seen s then next else 0)) @ '' frames, '' @ dec (unat retrace)
                @ '' retraces'' @ [nl])) (s3\<lparr>g_rec_done := True\<rparr>))"

end
