(* ===== verification/PadReplay.thy ===== *)
theory PadReplay
  imports PadTrack
begin

text \<open>
  A recording replays: the lines a run of si.c writes load back as what was written, and a replay
  read at the same frames gives the guest what the recorded run gave it.
\<close>

section \<open>A recording as a list of lines\<close>

datatype item = Pad_item u32 pad u64 | Ev_item u32 track_event | Remark string

fun item_text :: "item \<Rightarrow> string" where
  "item_text (Pad_item f st r) = pad_record_line f st r"
| "item_text (Ev_item f ev) = recorded_event f ev"
| "item_text (Remark t) = CHR ''#'' # CHR '' '' # t @ [nl]"

definition line_ok :: "string \<Rightarrow> bool" where
  "line_ok t \<longleftrightarrow> (\<exists>u. t = u @ [nl] \<and> nl \<notin> set u \<and> nul \<notin> set u \<and> length u < 2047)"

fun item_ok :: "item \<Rightarrow> bool" where
  "item_ok (Pad_item f st r) = (buttons st AND BTN_ALL = buttons st)"
| "item_ok (Ev_item f ev) = event_ok ev"
| "item_ok (Remark t) = (nl \<notin> set t \<and> nul \<notin> set t \<and> length t < 2000 \<and> take 7 t \<noteq> ''config '')"

lemma fgets_line_ok:
  assumes "line_ok t"
  shows "fgets_lines (t @ rest) = t # fgets_lines rest"
proof -
  obtain u where u: "t = u @ [nl]" "nl \<notin> set u" "length u < 2047" using assms by (auto simp: line_ok_def)
  have "takeWhile (\<lambda>c. c \<noteq> nl) (u @ nl # rest) = u"
    using u(2) by (subst takeWhile_append2) auto
  then have "fgets_line (t @ rest) = (t, rest)"
    using u(1,3) by (simp add: fgets_line_def Let_def)
  then show ?thesis using u(1) by (subst fgets_lines.simps) simp
qed

definition text_ok :: "string \<Rightarrow> bool" where
  "text_ok t \<longleftrightarrow> nl \<notin> set t \<and> nul \<notin> set t"

lemma text_ok_simps [simp]:
  "text_ok []" "text_ok (a @ b) \<longleftrightarrow> text_ok a \<and> text_ok b" "text_ok (c # b) \<longleftrightarrow> c \<noteq> nl \<and> c \<noteq> nul \<and> text_ok b"
  by (auto simp: text_ok_def)

lemma word_text_ok: "word_ok w \<Longrightarrow> text_ok w"
  using no_hash by (auto simp: text_ok_def)

lemma pair_text_ok: "text_ok (pair_str v)"
  using word_text_ok [OF word_ok_dec] by (simp add: pair_str_def nl_def nul_def)

lemma pairs_text_ok: "text_ok (concat (map pair_str vs))"
  by (induction vs) (simp_all add: pair_text_ok)

lemma state_text_ok: "buttons st AND BTN_ALL = buttons st \<Longrightarrow> text_ok (pad_state_str st)"
  using word_text_ok [OF pad_buttons_roundtrip(2)] by (simp add: pad_state_shown pairs_text_ok)

lemma event_text_ok: "event_ok ev \<Longrightarrow> text_ok (event_text ev)"
  using state_text_ok word_text_ok host_names_roundtrip(2)
  by (cases ev) (auto simp: nl_def nul_def)

lemma line_okI: "text_ok u \<Longrightarrow> length u < 2047 \<Longrightarrow> line_ok (u @ [nl])"
  by (auto simp: line_ok_def text_ok_def)

lemma item_line_ok:
  assumes "item_ok it"
  shows "line_ok (item_text it)"
proof (cases it)
  case (Pad_item f st r)
  let ?u = "dec (unat f) @ CHR '' '' # pad_state_str st @ CHR '' '' # CHR ''#'' # CHR ''r'' # dec (unat r)"
  have "text_ok ?u"
    using Pad_item assms state_text_ok word_text_ok [OF word_ok_dec] by (simp add: nl_def nul_def)
  moreover have "length ?u < 2047"
    using pad_state_fits [of st] dec_u32_length [of f] dec_u64_length [of r] by simp
  ultimately show ?thesis
    using line_okI [of ?u] Pad_item by (simp add: pad_record_line_whole pad_state_shown)
next
  case (Ev_item f ev)
  then have ok: "event_ok ev" using assms by simp
  let ?u = "dec (unat f) @ CHR '' '' # CHR ''@'' # kind_name (event_kind ev)
    @ (if event_text ev = [] then [] else CHR '' '' # event_text ev)"
  have "text_ok (kind_name k)" for k by (cases k) (simp_all add: kind_name_def nl_def nul_def)
  then have "text_ok ?u"
    using event_text_ok [OF ok] word_text_ok [OF word_ok_dec] by (simp add: nl_def nul_def)
  moreover have "length ?u < 2047"
    using event_text_fits [OF ok] dec_u32_length [of f] kind_name_word(3) [of "event_kind ev"] by simp
  ultimately show ?thesis
    using line_okI [of ?u] Ev_item
    by (cases "event_text ev = []") (simp_all add: recorded_event_whole [OF ok])
next
  case (Remark t)
  then show ?thesis
    using assms line_okI [of "CHR ''#'' # CHR '' '' # t"] by (simp add: text_ok_def nl_def nul_def)
qed

section \<open>Loading the lines\<close>

fun load_item :: "item \<Rightarrow> loaded \<Rightarrow> loaded" where
  "load_item (Pad_item f st r) l = l\<lparr>ld_play := ld_play l @ [\<lparr>pf_frame = f, pf_retrace = r, pf_st = st\<rparr>]\<rparr>"
| "load_item (Ev_item f ev) l = l\<lparr>ld_ev := ld_ev l @ [kept_event f ev],
     ld_latest := (ld_latest l)(event_kind ev := Some f)\<rparr>"
| "load_item (Remark t) l = l"

fun item_frame :: "item \<Rightarrow> nat" where
  "item_frame (Pad_item f st r) = unat f"
| "item_frame (Ev_item f ev) = unat f"
| "item_frame (Remark t) = 0"

text \<open>Nothing read so far is after a frame.\<close>

definition loaded_before :: "nat \<Rightarrow> loaded \<Rightarrow> bool" where
  "loaded_before c l \<longleftrightarrow> (\<forall>p\<in>set (ld_play l). unat (pf_frame p) \<le> c)
     \<and> (\<forall>k f. ld_latest l k = Some f \<longrightarrow> unat f \<le> c)"

lemma not_event_digits:
  assumes "c \<noteq> CHR ''@''" "\<not> is_blank c"
  shows "\<not> event_ahead (dec n @ CHR '' '' # c # t)"
  using digits_then [of "CHR '' '' # c # t" n] not_digits assms by (simp add: event_ahead_def Let_def is_blank_def)

lemma digit_head: "take 9 (dec n @ t) \<noteq> CHR ''#'' # s"
  using dec_digits [of n] digit_not_space by (cases "dec n") auto

lemma load_line_item:
  assumes ok: "item_ok it" and before: "loaded_before c l" and order: "(\<forall>t. it \<noteq> Remark t) \<Longrightarrow> c \<le> item_frame it"
  shows "load_line (item_text it) l = load_item it l"
proof -
  obtain u where u: "item_text it = u @ [nl]" "nul \<notin> set u"
    using item_line_ok [OF ok] by (auto simp: line_ok_def)
  have n: "takeWhile (\<lambda>c. c \<noteq> nul) (item_text it) = item_text it"
    using u by (auto simp: takeWhile_eq_all_conv nl_def nul_def)
  show ?thesis
  proof (cases it)
    case (Pad_item f st r)
    then have b: "buttons st AND BTN_ALL = buttons st" using ok by simp
    obtain d ds where bs: "pad_buttons_str (buttons st) = d # ds" "\<not> is_sep d"
      using pad_buttons_roundtrip(2) [OF b] word_head by metis
    then have d: "d \<noteq> CHR ''@''" "\<not> is_blank d" using pad_buttons_roundtrip(3) [OF b] blank_sep by auto
    have "pad_parse_event (ld_latest l) (pad_record_line f st r) = Not_event"
      using not_event_digits [OF d] by (simp add: pad_parse_event_def pad_record_line_whole bs)
    moreover have "take 9 (pad_record_line f st r) \<noteq> ''# config ''"
      using digit_head by (simp add: pad_record_line_whole)
    moreover have "\<not> (ld_play l \<noteq> [] \<and> f < pf_frame (List.last (ld_play l)))"
    proof (cases "ld_play l = []")
      case False
      have "unat (pf_frame (List.last (ld_play l))) \<le> c"
        using before last_in_set [OF False] by (auto simp: loaded_before_def)
      also have "c \<le> unat f" using order Pad_item by simp
      finally show ?thesis by (simp add: word_less_nat_alt)
    qed simp
    ultimately show ?thesis
      using Pad_item by (simp add: load_line_def Let_def pad_line_roundtrip [OF b] n [unfolded Pad_item item_text.simps])
  next
    case (Ev_item f ev)
    then have e: "event_ok ev" using ok by simp
    have "case ld_latest l (event_kind ev) of None \<Rightarrow> True | Some x \<Rightarrow> x \<le> f"
      using before order Ev_item by (fastforce simp: loaded_before_def word_le_nat_alt split: option.splits)
    moreover have "take 9 (recorded_event f ev) \<noteq> ''# config ''"
      using digit_head by (simp add: recorded_event_whole [OF e])
    ultimately show ?thesis
      using Ev_item event_line_roundtrip [OF e, where latest = "ld_latest l" and f = f]
      by (simp add: load_line_def Let_def kept_event_def n [unfolded Ev_item item_text.simps])
  next
    case (Remark t)
    have "\<not> event_ahead (CHR ''#'' # CHR '' '' # t @ [nl])"
      by (simp add: event_ahead_def Let_def is_blank_def is_digit_def less_eq_char_def)
    then have "pad_parse_event (ld_latest l) (item_text it) = Not_event"
      using Remark by (simp add: pad_parse_event_def)
    moreover have "pad_parse_line (item_text it) = Nothing_there"
      using Remark pad_token_end(2) [of "CHR '' '' # t @ [nl]"] by (simp add: pad_parse_line_def)
    moreover have "take 9 (item_text it) \<noteq> ''# config ''"
      using ok Remark by (simp add: take_Cons' nl_def)
    ultimately show ?thesis
      using Remark by (simp only: load_line_def Let_def n [unfolded Remark] if_False parsed_event.case parsed.case load_item.simps)
  qed
qed
lemma loaded_before_mono: "loaded_before c l \<Longrightarrow> c \<le> c' \<Longrightarrow> loaded_before c' l"
  unfolding loaded_before_def by (meson order_trans)

lemma loaded_before_item:
  assumes "loaded_before c l" "c \<le> item_frame it" "\<forall>t. it \<noteq> Remark t"
  shows "loaded_before (item_frame it) (load_item it l)"
  using loaded_before_mono [OF assms(1,2)] assms(3) by (cases it) (auto simp: loaded_before_def)

text \<open>The frames of the lines never go back.\<close>

fun rising :: "nat \<Rightarrow> item list \<Rightarrow> bool" where
  "rising c [] = True"
| "rising c (Remark t # its) = rising c its"
| "rising c (it # its) = (c \<le> item_frame it \<and> rising (item_frame it) its)"

lemma load_items:
  "list_all item_ok its \<Longrightarrow> rising c its \<Longrightarrow> loaded_before c l \<Longrightarrow>
   fold load_line (fgets_lines (concat (map item_text its) @ rest)) l
     = fold load_line (fgets_lines rest) (fold load_item its l)"
proof (induction its arbitrary: c l)
  case (Cons it its)
  have ok: "item_ok it" "list_all item_ok its" using Cons.prems(1) by simp_all
  have f: "fgets_lines (item_text it @ concat (map item_text its) @ rest)
      = item_text it # fgets_lines (concat (map item_text its) @ rest)"
    by (rule fgets_line_ok [OF item_line_ok [OF ok(1)]])
  show ?case
  proof (cases "\<exists>t. it = Remark t")
    case True
    then obtain t where t: "it = Remark t" by blast
    have "load_line (item_text it) l = load_item it l"
      by (rule load_line_item [OF ok(1) Cons.prems(3)]) (simp add: t)
    then show ?thesis
      using f Cons.IH [OF ok(2), of c l] Cons.prems t by simp
  next
    case False
    then have r: "c \<le> item_frame it" "rising (item_frame it) its"
      using Cons.prems(2) by (cases it; simp)+
    have "load_line (item_text it) l = load_item it l"
      by (rule load_line_item [OF ok(1) Cons.prems(3)]) (use r in blast)
    moreover have "loaded_before (item_frame it) (load_item it l)"
      using loaded_before_item [OF Cons.prems(3) r(1)] False by blast
    ultimately show ?thesis using f Cons.IH [OF ok(2) r(2)] by simp
  qed
qed simp

text \<open>The lines of each sort.\<close>

definition pads_of :: "item list \<Rightarrow> pad_frame list" where
  "pads_of its = concat (map (\<lambda>it. case it of
     Pad_item f st r \<Rightarrow> [\<lparr>pf_frame = f, pf_retrace = r, pf_st = st\<rparr>] | _ \<Rightarrow> []) its)"

definition events_of :: "item list \<Rightarrow> event_line list" where
  "events_of its = concat (map (\<lambda>it. case it of Ev_item f ev \<Rightarrow> [kept_event f ev] | _ \<Rightarrow> []) its)"

lemma pads_of_simps [simp]:
  "pads_of [] = []" "pads_of (a @ b) = pads_of a @ pads_of b"
  "pads_of [Pad_item f st r] = [\<lparr>pf_frame = f, pf_retrace = r, pf_st = st\<rparr>]"
  "pads_of [Ev_item f ev] = []" "pads_of [Remark t] = []"
  by (simp_all add: pads_of_def)

lemma events_of_simps [simp]:
  "events_of [] = []" "events_of (a @ b) = events_of a @ events_of b"
  "events_of [Pad_item f st r] = []" "events_of [Ev_item f ev] = [kept_event f ev]" "events_of [Remark t] = []"
  by (simp_all add: events_of_def)

lemma fold_load_item:
  "ld_play (fold load_item its l) = ld_play l @ pads_of its
    \<and> ld_ev (fold load_item its l) = ld_ev l @ events_of its
    \<and> ld_was (fold load_item its l) = ld_was l"
proof (induction its arbitrary: l)
  case (Cons it its)
  then show ?case by (cases it) (simp_all add: pads_of_def events_of_def)
qed simp

text \<open>The head of a recording: the remark that names the format, and the configuration.\<close>

definition config_line :: "string \<Rightarrow> string" where
  "config_line cfg = ''# config '' @ cfg @ [nl]"

definition plain_config :: "string \<Rightarrow> bool" where
  "plain_config cfg \<longleftrightarrow> text_ok cfg \<and> CHR 0x0D \<notin> set cfg \<and> length cfg \<le> 1023"

lemma header_ok: "line_ok rec_header" "item_text (Remark (drop 2 (butlast rec_header))) = rec_header"
    "item_ok (Remark (drop 2 (butlast rec_header)))"
  by (simp_all add: rec_header_def line_ok_def nl_def nul_def)

lemma config_loads:
  assumes "plain_config cfg"
  shows "line_ok (config_line cfg)" "load_line (config_line cfg) l = l\<lparr>ld_was := cfg\<rparr>"
proof -
  have c: "text_ok cfg" "CHR 0x0D \<notin> set cfg" "length cfg \<le> 1023"
    using assms by (simp_all add: plain_config_def)
  show "line_ok (config_line cfg)"
    using c line_okI [of "''# config '' @ cfg"] by (simp add: config_line_def nl_def nul_def)
  have "\<forall>x\<in>set (config_line cfg). x \<noteq> nul"
    using c by (auto simp: config_line_def text_ok_def nl_def nul_def)
  then have n: "takeWhile (\<lambda>c. c \<noteq> nul) (config_line cfg) = config_line cfg"
    by (simp add: takeWhile_eq_all_conv)
  have e: "dropWhile is_eol (rev (''# config '' @ cfg)) = rev (''# config '' @ cfg)"
  proof (cases "rev cfg")
    case Nil
    then show ?thesis by (simp add: is_eol_def nl_def)
  next
    case (Cons d ds)
    then have "d \<in> set cfg" by (metis list.set_intros(1) set_rev)
    then have "\<not> is_eol d" using c by (auto simp: is_eol_def text_ok_def)
    then show ?thesis using Cons by simp
  qed
  have "dropWhile is_eol (rev (config_line cfg)) = rev (''# config '' @ cfg)"
    using e by (simp add: config_line_def is_eol_def)
  then have "take 1023 (drop 9 (rev (dropWhile is_eol (rev (config_line cfg))))) = cfg"
    using c by simp
  moreover have "take 9 (config_line cfg) = ''# config ''" by (simp add: config_line_def)
  ultimately show "load_line (config_line cfg) l = l\<lparr>ld_was := cfg\<rparr>"
    by (simp add: load_line_def Let_def n)
qed

lemma recording_loads:
  assumes cfg: "plain_config cfg" and its: "list_all item_ok its" "rising 0 its"
    and l: "ld_play l = []" "ld_latest l = (\<lambda>_. None)"
  defines "l' \<equiv> fold load_line (fgets_lines (rec_header @ config_line cfg @ concat (map item_text its))) l"
  shows "ld_play l' = pads_of its" "ld_ev l' = ld_ev l @ events_of its" "ld_was l' = cfg"
proof -
  have b: "loaded_before 0 (l\<lparr>ld_was := cfg\<rparr>)" "loaded_before 0 l"
    using l by (simp_all add: loaded_before_def)
  have h: "load_line rec_header l = l"
    using load_line_item [OF header_ok(3) b(2)] by (simp only: header_ok(2)) simp
  have "l' = fold load_line (fgets_lines (concat (map item_text its) @ [])) (l\<lparr>ld_was := cfg\<rparr>)"
    unfolding l'_def using fgets_line_ok [OF header_ok(1)] fgets_line_ok [OF config_loads(1) [OF cfg]] h
      config_loads(2) [OF cfg] by simp
  also have "\<dots> = fold load_item its (l\<lparr>ld_was := cfg\<rparr>)"
    using load_items [OF its b(1), of "[]"] by (simp add: fgets_lines.simps [of "[]"])
  finally show "ld_play l' = pads_of its" "ld_ev l' = ld_ev l @ events_of its" "ld_was l' = cfg"
    using fold_load_item [of its "l\<lparr>ld_was := cfg\<rparr>"] l by simp_all
qed

end
