(* ===== verification/PadRun.thy ===== *)
theory PadRun
  imports PadReplay
begin

text \<open>
  A run that records, and the run that replays it: each of pad 1, port 2 and the host buttons is
  a channel, a list of changes by the frame, whose value at a frame is that of the last change not
  after it.
\<close>

section \<open>Channels\<close>

definition in_effect :: "('a \<Rightarrow> u32) \<Rightarrow> 'a list \<Rightarrow> u32 \<Rightarrow> 'a option" where
  "in_effect fr xs f = (case filter (\<lambda>x. fr x \<le> f) xs of [] \<Rightarrow> None | y # ys \<Rightarrow> Some (List.last (y # ys)))"

definition newest :: "'a list \<Rightarrow> 'a option" where
  "newest xs = (if xs = [] then None else Some (List.last xs))"

lemma in_effect_newest: "in_effect fr xs f = newest (filter (\<lambda>x. fr x \<le> f) xs)"
  by (auto simp: in_effect_def newest_def split: list.splits)

lemma newest_snoc [simp]: "newest (xs @ [x]) = Some x" "newest [] = None"
  by (simp_all add: newest_def)

lemma in_effect_snoc: "in_effect fr (xs @ [x]) f = (if fr x \<le> f then Some x else in_effect fr xs f)"
  by (simp add: in_effect_newest)

lemma in_effect_all: "(\<And>x. x \<in> set xs \<Longrightarrow> fr x \<le> f) \<Longrightarrow> in_effect fr xs f = newest xs"
  by (simp add: in_effect_newest filter_id_conv [THEN iffD2])

text \<open>
  A channel recorded so far: its changes have rising frames below a bound, and every reading of it,
  a frame and a value, is below the bound and what the changes say.
\<close>

definition channel :: "('a \<Rightarrow> u32) \<Rightarrow> ('a option \<Rightarrow> 'v) \<Rightarrow> 'a list \<Rightarrow> nat \<Rightarrow> (u32 \<times> 'v) list \<Rightarrow> bool" where
  "channel fr val xs b hist \<longleftrightarrow>
     sorted_wrt (<) (map (\<lambda>x. unat (fr x)) xs) \<and> (\<forall>x\<in>set xs. unat (fr x) < b)
     \<and> (\<forall>x\<in>set xs. fr x \<in> fst ` set hist)
     \<and> (\<forall>(f, v)\<in>set hist. unat f < b \<and> v = val (in_effect fr xs f))"

lemma channel_none [simp]: "channel fr val [] 0 []"
  by (simp add: channel_def)

lemma below_in_effect: "\<forall>x\<in>set xs. unat (fr x) < b \<Longrightarrow> b \<le> unat f + 1 \<Longrightarrow> in_effect fr xs f = newest xs"
  by (rule in_effect_all) (force simp: word_le_nat_alt)

lemma channelD:
  assumes "channel fr val xs b hist"
  shows "x \<in> set xs \<Longrightarrow> unat (fr x) < b" "x \<in> set xs \<Longrightarrow> fr x \<in> fst ` set hist"
    "(f, v) \<in> set hist \<Longrightarrow> unat f < b" "(f, v) \<in> set hist \<Longrightarrow> v = val (in_effect fr xs f)"
    "sorted_wrt (<) (map (\<lambda>x. unat (fr x)) xs)"
  using assms unfolding channel_def by blast+

lemma channel_hold:
  assumes c: "channel fr val xs b hist" and b: "b \<le> unat f + 1"
  shows "channel fr val xs (unat f + 1) (hist @ [(f, val (newest xs))])"
  unfolding channel_def
proof (intro conjI ballI)
  note d = channelD [OF c]
  show "sorted_wrt (<) (map (\<lambda>x. unat (fr x)) xs)" by (rule d(5))
  show "unat (fr y) < unat f + 1" if "y \<in> set xs" for y using d(1) [OF that] b by simp
  show "fr y \<in> fst ` set (hist @ [(f, val (newest xs))])" if "y \<in> set xs" for y using d(2) [OF that] by auto
  have f: "in_effect fr xs f = newest xs"
    using d(1) b by (intro below_in_effect) auto
  show "case p of (g, v) \<Rightarrow> unat g < unat f + 1 \<and> v = val (in_effect fr xs g)"
    if "p \<in> set (hist @ [(f, val (newest xs))])" for p
  proof (cases "p \<in> set hist")
    case True
    obtain g v where p: "p = (g, v)" by fastforce
    then have "unat g < b" "v = val (in_effect fr xs g)" using d(3,4) True by blast+
    then show ?thesis using p b by simp
  next
    case False
    then have "p = (f, val (newest xs))" using that by simp
    then show ?thesis using f by simp
  qed
qed

lemma in_effect_later: "unat f < unat (fr x) \<Longrightarrow> in_effect fr (xs @ [x]) f = in_effect fr xs f"
  by (simp add: in_effect_snoc word_le_nat_alt)

lemma channel_change:
  assumes c: "channel fr val xs b hist" and b: "b \<le> unat f" and x: "fr x = f"
  shows "channel fr val (xs @ [x]) (unat f + 1) (hist @ [(f, val (Some x))])"
  unfolding channel_def
proof (intro conjI ballI)
  note d = channelD [OF c]
  show "sorted_wrt (<) (map (\<lambda>x. unat (fr x)) (xs @ [x]))"
    using d(1,5) b x by (auto simp: sorted_wrt_append intro: less_le_trans)
  show "unat (fr y) < unat f + 1" if "y \<in> set (xs @ [x])" for y
    using that d(1) [of y] b x by auto
  show "fr y \<in> fst ` set (hist @ [(f, val (Some x))])" if "y \<in> set (xs @ [x])" for y
    using that d(2) [of y] x by auto
  show "case p of (g, v) \<Rightarrow> unat g < unat f + 1 \<and> v = val (in_effect fr (xs @ [x]) g)"
    if "p \<in> set (hist @ [(f, val (Some x))])" for p
  proof (cases "p \<in> set hist")
    case True
    obtain g v where p: "p = (g, v)" by fastforce
    then have g: "unat g < b" "v = val (in_effect fr xs g)" using d(3,4) True by blast+
    then have "in_effect fr (xs @ [x]) g = in_effect fr xs g"
      using b x by (intro in_effect_later) simp
    then show ?thesis using g b p by simp
  next
    case False
    then have "p = (f, val (Some x))" using that by simp
    then show ?thesis using x by (simp add: in_effect_snoc)
  qed
qed

text \<open>A change after every reading leaves them as they are.\<close>

lemma channel_later:
  assumes "channel fr val xs b hist" "b \<le> unat (fr x)" "(f, v) \<in> set hist"
  shows "v = val (in_effect fr (xs @ [x]) f)"
  using channelD(3,4) [OF assms(1,3)] assms(2) by (simp add: in_effect_later)

fun val_pad :: "pad_frame option \<Rightarrow> pad" where
  "val_pad None = PAD_NEUTRAL"
| "val_pad (Some p) = pf_st p"

fun val_host :: "event_line option \<Rightarrow> u32" where
  "val_host None = 0"
| "val_host (Some e) = ucast (ev_host e)"

fun val_p2 :: "event_line option \<Rightarrow> bool \<times> pad" where
  "val_p2 None = (False, PAD_NEUTRAL)"
| "val_p2 (Some e) = (ev_there e, ev_st e)"

definition kind_of_items :: "ev_kind \<Rightarrow> item list \<Rightarrow> event_line list" where
  "kind_of_items k its = filter (\<lambda>e. ev_of e = k) (events_of its)"

lemma kind_of_items_simps [simp]:
  "kind_of_items k [] = []" "kind_of_items k (a @ b) = kind_of_items k a @ kind_of_items k b"
  "kind_of_items k [Pad_item f st r] = []" "kind_of_items k [Remark t] = []"
  "kind_of_items k [Ev_item f ev] = (if event_kind ev = k then [kept_event f ev] else [])"
  by (simp_all add: kind_of_items_def kept_event_def)

section \<open>A run\<close>

datatype si_step = Read si_in | Read2 si_in | Applied u32 track_event

datatype si_seen = Bytes "u8 list" u32 | Second bool pad | Event_seen string | Nothing_due

fun si_do :: "si_host \<Rightarrow> si_step \<Rightarrow> si \<Rightarrow> si_seen \<times> si" where
  "si_do h (Read io) s = (case pad_report h io s of (bs, s1) \<Rightarrow> (Bytes bs (g_host s1), s1))"
| "si_do h (Read2 io) s = (case si_read_pad h io 2 s of ((there, st), s1) \<Rightarrow> (Second there (the st), s1))"
| "si_do h (Applied f ev) s = (Event_seen (event_text ev), event_applied h f (kind_name (event_kind ev)) (event_text ev) s)"

fun si_run :: "si_host \<Rightarrow> si_step list \<Rightarrow> si \<Rightarrow> si_seen list \<times> si" where
  "si_run h [] s = ([], s)"
| "si_run h (x # xs) s = (case si_do h x s of (o1, s1) \<Rightarrow> case si_run h xs s1 of (os, s2) \<Rightarrow> (o1 # os, s2))"

fun step_frame :: "si_step \<Rightarrow> nat" where
  "step_frame (Read io) = unat (in_frame io)"
| "step_frame (Read2 io) = unat (in_frame io)"
| "step_frame (Applied f ev) = unat f"

text \<open>What a step may bring: host buttons that have names, events of the safe point.\<close>

fun step_ok :: "si_step \<Rightarrow> bool" where
  "step_ok (Read io) = (case in_host io of None \<Rightarrow> True | Some w \<Rightarrow> w AND 15 = w)"
| "step_ok (Read2 io) = True"
| "step_ok (Applied f ev) = (event_ok ev \<and> event_kind ev \<noteq> EV_PAD2 \<and> event_kind ev \<noteq> EV_HOST)"

definition rec_text :: "string \<Rightarrow> item list \<Rightarrow> string" where
  "rec_text cfg its = rec_header @ config_line cfg @ concat (map item_text its)"

lemma rec_text_snoc: "rec_text cfg its @ item_text it = rec_text cfg (its @ [it])"
  by (simp add: rec_text_def)

section \<open>What the pieces write\<close>

lemma pad_same_eq: "pad_same a b \<longleftrightarrow> a = b"
  by (auto simp: pad_same_def intro: pad.equality)

lemma pad_record_appends:
  assumes "g_rec s = Some (rec_text cfg its)" "\<not> g_rec_done s"
  shows "pad_record r st f s = (if st = g_rec_last s then s
    else s\<lparr>g_rec := Some (rec_text cfg (its @ [Pad_item f st r])), g_rec_last := st, g_rec_changes := g_rec_changes s + 1\<rparr>)"
  using assms rec_text_snoc [of cfg its "Pad_item f st r"]
  by (simp add: pad_record_def rec_put_def pad_same_eq)

lemma event_record_appends:
  assumes "g_rec s = Some (rec_text cfg its)" "\<not> g_rec_done s"
  shows "event_record f (kind_name (event_kind ev)) (event_text ev) s
    = s\<lparr>g_rec := Some (rec_text cfg (its @ [Ev_item f ev]))\<rparr>"
  using assms rec_text_snoc [of cfg its "Ev_item f ev"]
  by (simp add: event_record_def rec_put_def recorded_event_def)

lemma chord_line_remark:
  assumes "(m, keys, what) \<in> set k_chords"
  shows "\<exists>t. chord_line f keys what = item_text (Remark t) \<and> item_ok (Remark t)"
proof -
  let ?t = "''chord '' @ dec (unat f) @ '' '' @ keys @ '' '' @ what"
  have kw: "text_ok keys" "text_ok what" "length keys \<le> 7" "length what \<le> 10"
    using assms by (auto simp: k_chords_def nl_def nul_def)
  have "chord_line f keys what = item_text (Remark ?t)"
    using kw dec_u32_length [of f] by (simp add: chord_line_def)
  moreover have "text_ok ?t"
    using kw word_text_ok [OF word_ok_dec] by (simp add: nl_def nul_def)
  then have "item_ok (Remark ?t)"
    using kw dec_u32_length [of f] by (simp add: text_ok_def)
  ultimately show ?thesis by blast
qed

lemma fire_chords_appends:
  assumes "g_rec s = Some (rec_text cfg its)" "\<not> g_rec_done s" "set cs \<subseteq> set k_chords"
  shows "\<exists>ts out. fire_chords i cs f s = s\<lparr>g_rec := Some (rec_text cfg (its @ map Remark ts)), si_out := out\<rparr>
    \<and> list_all (\<lambda>t. item_ok (Remark t)) ts"
  using assms
proof (induction cs arbitrary: i s its)
  case Nil
  have eq: "s\<lparr>g_rec := Some (rec_text cfg (its @ map Remark [])), si_out := si_out s\<rparr> = s"
    by (rule si.equality) (simp_all add: Nil.prems)
  show ?case
    unfolding fire_chords.simps
    by (rule exI [of _ "[]"], rule exI [of _ "si_out s"], rule conjI, rule eq [symmetric]) simp
next
  case (Cons c cs)
  obtain m keys what where c: "c = (m, keys, what)" by (metis prod_cases3)
  show ?case
  proof (cases "chord_fires (g_host s) (g_host_prev s) m")
    case False
    then show ?thesis using Cons c by simp
  next
    case True
    obtain t where t: "chord_line f keys what = item_text (Remark t)" "item_ok (Remark t)"
      using chord_line_remark Cons.prems(3) c by (metis list.set_intros(1) subsetD)
    let ?s = "s\<lparr>g_rec := Some (rec_text cfg (its @ [Remark t])), si_out := si_out s @ [Chord i f]\<rparr>"
    have s: "fire_chords i (c # cs) f s = fire_chords (Suc i) cs f ?s"
      using True Cons.prems(1,2) c t(1) rec_text_snoc [of cfg its "Remark t"]
      by (simp add: call_out_def rec_put_def)
    have "\<exists>ts out. fire_chords (Suc i) cs f ?s
        = ?s\<lparr>g_rec := Some (rec_text cfg ((its @ [Remark t]) @ map Remark ts)), si_out := out\<rparr>
      \<and> list_all (\<lambda>t. item_ok (Remark t)) ts"
      using Cons.prems by (intro Cons.IH) simp_all
    then obtain ts out where e: "fire_chords (Suc i) cs f ?s
        = ?s\<lparr>g_rec := Some (rec_text cfg ((its @ [Remark t]) @ map Remark ts)), si_out := out\<rparr>"
      and ts: "list_all (\<lambda>t. item_ok (Remark t)) ts" by blast
    have "fire_chords i (c # cs) f s = s\<lparr>g_rec := Some (rec_text cfg (its @ map Remark (t # ts))), si_out := out\<rparr>"
      unfolding s e by simp
    moreover have "list_all (\<lambda>t. item_ok (Remark t)) (t # ts)" using t(2) ts by simp
    ultimately show ?thesis by blast
  qed
qed

section \<open>The invariant of a recording run\<close>

definition items_ok :: "nat \<Rightarrow> item list \<Rightarrow> bool" where
  "items_ok c its \<longleftrightarrow> list_all item_ok its \<and> rising 0 its \<and> (\<forall>it\<in>set its. item_frame it \<le> c)"

lemma rising_snoc:
  "rising c its \<Longrightarrow> \<forall>it\<in>set its. item_frame it \<le> f \<Longrightarrow> c \<le> f \<Longrightarrow> item_frame it = f \<or> (\<exists>t. it = Remark t) \<Longrightarrow>
   rising c (its @ [it])"
proof (induction c its rule: rising.induct)
  case (1 c)
  then show ?case by (cases it) auto
qed auto

lemma items_ok_mono: "items_ok c its \<Longrightarrow> c \<le> f \<Longrightarrow> items_ok f its"
  unfolding items_ok_def by (meson order_trans)

lemma items_ok_snoc:
  assumes "items_ok c its" "c \<le> f" "item_ok it" "item_frame it = f \<or> (\<exists>t. it = Remark t)"
  shows "items_ok f (its @ [it])"
proof -
  have i: "items_ok f its" by (rule items_ok_mono [OF assms(1,2)])
  then have "rising 0 (its @ [it])" using assms(4) by (intro rising_snoc) (auto simp: items_ok_def)
  then show ?thesis using i assms(3,4) by (auto simp: items_ok_def)
qed

lemma items_ok_remarks:
  "items_ok c its \<Longrightarrow> list_all (\<lambda>t. item_ok (Remark t)) ts \<Longrightarrow> items_ok c (its @ map Remark ts)"
proof (induction ts arbitrary: its)
  case (Cons t ts)
  then have "items_ok c (its @ [Remark t])" by (intro items_ok_snoc) auto
  then show ?case using Cons.IH [of "its @ [Remark t]"] Cons.prems by simp
qed simp

lemma remarks_no_lines [simp]: "pads_of (map Remark ts) = []" "kind_of_items k (map Remark ts) = []"
proof -
  show "pads_of (map Remark ts) = []" by (induction ts) (simp_all add: pads_of_def)
  have "events_of (map Remark ts) = []" by (induction ts) (simp_all add: events_of_def)
  then show "kind_of_items k (map Remark ts) = []" by (simp add: kind_of_items_def)
qed

definition script_as_set :: "si_host \<Rightarrow> string \<Rightarrow> pad_event list option \<Rightarrow> bool" where
  "script_as_set h name sc \<longleftrightarrow> script_of h name sc = fst (script_init (getenv h name))"

definition base_inv :: "si_host \<Rightarrow> string \<Rightarrow> nat \<Rightarrow> item list \<Rightarrow> si \<Rightarrow> bool" where
  "base_inv h cfg c its s \<longleftrightarrow> g_rec s = Some (rec_text cfg its) \<and> \<not> g_rec_done s \<and> g_rec_tried s
     \<and> \<not> g_replaying s \<and> items_ok c its
     \<and> script_as_set h ''SOA_PAD'' (g_scr1 s) \<and> script_as_set h ''SOA_PAD2'' (g_scr2 s)"

text \<open>What is latched is the channel's newest reading.\<close>

fun latched_at :: "(u32 \<times> 'v) option \<Rightarrow> nat \<Rightarrow> 'v \<Rightarrow> bool" where
  "latched_at None b v = (b = 0)"
| "latched_at (Some (f, w)) b v = (b = unat f + 1 \<and> w = v)"

definition pad_inv :: "nat \<Rightarrow> (u32 \<times> pad) list \<Rightarrow> item list \<Rightarrow> si \<Rightarrow> bool" where
  "pad_inv b hist its s \<longleftrightarrow> channel pf_frame val_pad (pads_of its) b hist
     \<and> val_pad (newest (pads_of its)) = g_rec_last s
     \<and> latched_at (pad_latch s) b (g_rec_last s)
     \<and> (if g_pad_seen s then b = unat (g_pad_frame s) + 1 else b = 0)"

definition host_inv :: "nat \<Rightarrow> (u32 \<times> u32) list \<Rightarrow> item list \<Rightarrow> si \<Rightarrow> bool" where
  "host_inv b hist its s \<longleftrightarrow> channel ev_frame val_host (kind_of_items EV_HOST its) b hist
     \<and> val_host (newest (kind_of_items EV_HOST its)) = g_host s \<and> g_rec_host s = g_host s
     \<and> (case g_host_frame s of None \<Rightarrow> b = 0 | Some f \<Rightarrow> b = unat f + 1)"

definition p2_inv :: "nat \<Rightarrow> (u32 \<times> bool \<times> pad) list \<Rightarrow> item list \<Rightarrow> si \<Rightarrow> bool" where
  "p2_inv b hist its s \<longleftrightarrow> channel ev_frame val_p2 (kind_of_items EV_PAD2 its) b hist
     \<and> val_p2 (newest (kind_of_items EV_PAD2 its)) = (g_rec_p2_there s, g_rec_p2 s)
     \<and> (\<not> g_rec_p2_there s \<longrightarrow> g_rec_p2 s = PAD_NEUTRAL)
     \<and> latched_at (pad2_latch s) b (g_rec_p2_there s, g_rec_p2 s)"

text \<open>What a script presses has names.\<close>

lemma script_state_range:
  assumes "script_state (fst (script_init env)) f = (b, st, h)"
  shows "b AND BTN_ALL = b" "h AND 15 = h"
proof -
  let ?es = "fst (script_init env)"
  have ok: "list_all (\<lambda>e. presses e \<and> in_range e) ?es"
    using script_items_ok [of SCRIPT_MAX] by (cases "script_items SCRIPT_MAX (the env)")
      (auto simp: script_init_def split: option.splits)
  obtain x y where "st = (x, y)" by fastforce
  then have s: "fold (press_event f) ?es (0, (128, 128), 0) = (b, (x, y), h)"
    using assms by (simp add: script_state_def)
  have r: "pe_buttons e AND BTN_ALL = pe_buttons e \<and> pe_host e AND 15 = pe_host e" if "e \<in> set ?es" for e
    using ok that by (auto simp: list_all_iff in_range_def)
  have bb: "bit BTN_ALL k" if "bit (pe_buttons e) k" "e \<in> set ?es" for e k
    using r [OF that(2)] that(1) by (metis bit_and_iff)
  have hh: "bit (15 :: u8) k" if "bit (pe_host e) k" "e \<in> set ?es" for e k
    using r [OF that(2)] that(1) by (metis bit_and_iff)
  show "b AND BTN_ALL = b"
    using press_fold [OF s] bb by (intro bit_word_eqI) (auto simp: bit_and_iff)
  show "h AND 15 = h"
    using press_fold [OF s] hh by (intro bit_word_eqI) (auto simp: bit_and_iff)
qed

lemma masked_twice [simp]: "(b AND BTN_ALL) AND BTN_ALL = b AND BTN_ALL"
  by (simp add: and.assoc)

lemma neutral_ok [simp]: "buttons PAD_NEUTRAL AND BTN_ALL = buttons PAD_NEUTRAL"
  by (simp add: PAD_NEUTRAL_def)

lemma sample_live:
  assumes "base_inv h cfg c its s" "g_play_tried s"
  obtains st where "pad_sample h io s = (st, s\<lparr>g_scr1 := Some (fst (script_init (getenv h ''SOA_PAD'')))\<rparr>)"
    "buttons st AND BTN_ALL = buttons st"
proof -
  let ?es = "fst (script_init (getenv h ''SOA_PAD''))"
  obtain b sst x where sc: "script_state ?es (in_frame io) = (b, sst, x)" by (metis prod_cases3)
  define st where "st = (case in_window io of
      Some w \<Rightarrow> w\<lparr>buttons := buttons w OR b, stick := over_stick sst (stick w)\<rparr>
    | None \<Rightarrow> PAD_NEUTRAL\<lparr>buttons := b, stick := sst\<rparr>)"
  have "pad_sample h io s = (if in_menu io then PAD_NEUTRAL else st\<lparr>buttons := buttons st AND BTN_ALL\<rparr>,
      s\<lparr>g_scr1 := Some ?es\<rparr>)"
    using assms sc by (simp add: pad_sample_def pad_replay_def base_inv_def script_now_def script_as_set_def
        st_def [symmetric] Let_def)
  then show ?thesis using that by simp
qed

lemma host_live:
  assumes "base_inv h cfg c its s" "step_ok (Read io)"
  obtains v where "host_taken h io s = (v, s\<lparr>g_scr1 := Some (fst (script_init (getenv h ''SOA_PAD'')))\<rparr>)"
    "v AND 15 = v"
proof -
  let ?es = "fst (script_init (getenv h ''SOA_PAD''))"
  obtain b st hs where sc: "script_state ?es (in_frame io) = (b, st, hs)" by (metis prod_cases3)
  let ?w = "case in_host io of Some w \<Rightarrow> ucast w | None \<Rightarrow> (0 :: u32)"
  have "ucast (hs :: u8) AND (15 :: u32) = ucast hs"
  proof -
    have "ucast (hs AND 15) = (ucast hs :: u32) AND ucast (15 :: u8)"
      by (intro bit_word_eqI) (auto simp: bit_simps; drule bit_imp_le_length; simp)
    then show ?thesis using script_state_range(2) [OF sc] by simp
  qed
  moreover have "?w AND 15 = ?w"
  proof (cases "in_host io")
    case (Some w)
    have "ucast (w AND 15) = (ucast w :: u32) AND ucast (15 :: u16)"
      by (intro bit_word_eqI) (auto simp: bit_simps; drule bit_imp_le_length; simp)
    from this [symmetric] show ?thesis using assms(2) Some by simp
  qed simp
  ultimately have "(?w OR ucast hs) AND 15 = ?w OR ucast hs"
    by (simp add: bit.conj_disj_distrib2)
  moreover have "host_taken h io s = (?w OR ucast hs, s\<lparr>g_scr1 := Some ?es\<rparr>)"
    using assms(1) sc by (simp add: host_taken_def base_inv_def script_now_def Let_def script_as_set_def)
  ultimately show ?thesis using that by blast
qed

text \<open>The first read of a frame.\<close>

lemma host_recorded:
  assumes base: "base_inv h cfg c its s" and inv: "host_inv b hist its s" and b: "b \<le> unat f"
    and c: "c \<le> unat f" and v: "v AND 15 = v"
    and s': "s' = s\<lparr>g_host_frame := Some f, g_host_prev := p, g_scr1 := sc, g_host := v\<rparr>"
    and sc: "script_as_set h ''SOA_PAD'' sc"
  obtains its' ts out where
    "fire_chords 0 k_chords f (host_record f s') = s'\<lparr>g_rec := Some (rec_text cfg its'), g_rec_host := v, si_out := out\<rparr>"
    "items_ok (unat f) its'" "pads_of its' = pads_of its" "\<And>k. k \<noteq> EV_HOST \<Longrightarrow> kind_of_items k its' = kind_of_items k its"
    "channel ev_frame val_host (kind_of_items EV_HOST its') (unat f + 1) (hist @ [(f, v)])"
    "val_host (newest (kind_of_items EV_HOST its')) = v"
proof -
  have rec: "g_rec s = Some (rec_text cfg its)" "\<not> g_rec_done s" "items_ok c its"
    using base by (simp_all add: base_inv_def)
  have ch: "channel ev_frame val_host (kind_of_items EV_HOST its) b hist"
    "val_host (newest (kind_of_items EV_HOST its)) = g_host s" "g_rec_host s = g_host s"
    using inv by (simp_all add: host_inv_def)
  define its1 where "its1 = (if v = g_host s then its else its @ [Ev_item f (Host (ucast v))])"
  have uv: "ucast (ucast v :: u8) = v"
  proof -
    have "(15 :: u32) = mask 4" by (simp add: mask_eq_exp_minus_1)
    then have "v AND mask 4 = v" using v by simp
    then have "n < 4" if "bit v n" for n
      using that by (metis bit_and_iff bit_mask_iff)
    then have "n < 8" if "bit v n" for n using that by fastforce
    then show ?thesis by (intro bit_word_eqI) (auto simp: bit_simps)
  qed
  have r1: "host_record f s' = s'\<lparr>g_rec := Some (rec_text cfg its1), g_rec_host := v\<rparr>"
  proof (cases "v = g_host s")
    case True
    then show ?thesis using rec ch s' by (intro si.equality) (simp_all add: host_record_def its1_def)
  next
    case False
    have "event_record f ''host'' (host_names_str (ucast v)) s' = s'\<lparr>g_rec := Some (rec_text cfg (its @ [Ev_item f (Host (ucast v))]))\<rparr>"
      using event_record_appends [of s' cfg its f "Host (ucast v)"] rec s' by (simp add: kind_name_def)
    then show ?thesis using False rec ch s' by (simp add: host_record_def its1_def)
  qed
  have i1: "items_ok (unat f) its1"
  proof -
    have "(ucast v :: u8) AND 15 = ucast v"
    proof -
      have "ucast (v AND 15) = (ucast v :: u8) AND ucast (15 :: u32)"
        by (intro bit_word_eqI) (auto simp: bit_simps)
      from this [symmetric] show ?thesis using v by simp
    qed
    then show ?thesis
      using items_ok_snoc [OF rec(3) c, of "Ev_item f (Host (ucast v))"] items_ok_mono [OF rec(3) c]
      by (simp add: its1_def)
  qed
  have ch1: "channel ev_frame val_host (kind_of_items EV_HOST its1) (unat f + 1) (hist @ [(f, v)])"
  proof (cases "v = g_host s")
    case True
    then show ?thesis using channel_hold [OF ch(1), of f] b ch(2) by (simp add: its1_def)
  next
    case False
    then show ?thesis
      using channel_change [OF ch(1) b, of "kept_event f (Host (ucast v))"] uv by (simp add: its1_def kept_event_def)
  qed
  have n1: "val_host (newest (kind_of_items EV_HOST its1)) = v"
    using ch(2) uv by (simp add: its1_def kept_event_def)
  let ?s1 = "s'\<lparr>g_rec := Some (rec_text cfg its1), g_rec_host := v\<rparr>"
  have "\<not> g_rec_done ?s1" using rec(2) s' by simp
  then obtain ts out where f: "fire_chords 0 k_chords f ?s1
      = ?s1\<lparr>g_rec := Some (rec_text cfg (its1 @ map Remark ts)), si_out := out\<rparr>"
    and ts: "list_all (\<lambda>t. item_ok (Remark t)) ts"
    using fire_chords_appends [of ?s1 cfg its1 k_chords 0 f] by auto
  show ?thesis
  proof (rule that [where its' = "its1 @ map Remark ts" and out = out])
    show "fire_chords 0 k_chords f (host_record f s')
        = s'\<lparr>g_rec := Some (rec_text cfg (its1 @ map Remark ts)), g_rec_host := v, si_out := out\<rparr>"
      unfolding r1 f by simp
    show "items_ok (unat f) (its1 @ map Remark ts)" by (rule items_ok_remarks [OF i1 ts])
  qed (use ch1 n1 in \<open>simp_all add: its1_def\<close>)
qed

section \<open>Steps keep the invariant\<close>

definition no_replay :: "si_host \<Rightarrow> bool" where
  "no_replay h \<longleftrightarrow> env_text h ''SOA_PAD_FILE'' = []"

definition run_inv ::
  "si_host \<Rightarrow> string \<Rightarrow> nat \<Rightarrow> item list \<Rightarrow> nat \<Rightarrow> (u32 \<times> pad) list \<Rightarrow> (u32 \<times> u32) list
    \<Rightarrow> nat \<Rightarrow> (u32 \<times> bool \<times> pad) list \<Rightarrow> si \<Rightarrow> bool" where
  "run_inv h cfg c its b hp hh b2 h2 s \<longleftrightarrow> base_inv h cfg c its s \<and> pad_inv b hp its s \<and> host_inv b hh its s
     \<and> p2_inv b2 h2 its s \<and> b \<le> c + 1 \<and> b2 \<le> c + 1"

lemma opened_live:
  assumes "base_inv h cfg c its s" "no_replay h"
  shows "opened h s = s\<lparr>g_play_tried := True\<rparr>"
  using assms by (cases "g_play_tried s")
    (auto simp: opened_def base_inv_def no_replay_def pad_replay_load_def Let_def intro: si.equality)

lemma play_tried_inv [simp]:
  "run_inv h cfg c its b hp hh b2 h2 (s\<lparr>g_play_tried := t\<rparr>) = run_inv h cfg c its b hp hh b2 h2 s"
  by (simp add: run_inv_def base_inv_def pad_inv_def host_inv_def p2_inv_def)

lemma read_again:
  assumes inv: "run_inv h cfg c its b hp hh b2 h2 s" and f: "pad_latch s = Some (in_frame io, st)"
    and c: "c \<le> unat (in_frame io)"
  shows "\<exists>s'. (case pad_read h io s of (st', s1) \<Rightarrow>
        let s2 = host_update h io s1;
            s3 = (if g_rec s2 \<noteq> None then pad_record (in_retrace io) st' (in_frame io) s2 else s2)
        in (report_bytes (filtered io st'), s3\<lparr>g_pad_frame := in_frame io, g_pad_seen := True\<rparr>))
      = (report_bytes (filtered io st), s')
    \<and> run_inv h cfg (unat (in_frame io)) its (unat (in_frame io) + 1) (hp @ [(in_frame io, st)])
        (hh @ [(in_frame io, g_host s')]) b2 h2 s'"
proof -
  let ?f = "in_frame io"
  have i: "base_inv h cfg c its s" "pad_inv b hp its s" "host_inv b hh its s" "p2_inv b2 h2 its s" "b2 \<le> c + 1"
    using inv by (simp_all add: run_inv_def)
  have bf: "b = unat ?f + 1" "st = g_rec_last s" using i(2) f by (simp_all add: pad_inv_def)
  have "g_host_frame s = Some ?f"
    using i(3) bf by (auto simp: host_inv_def word_unat_eq_iff split: option.splits)
  then have u: "host_update h io s = s" by (simp add: host_update_def)
  have rec: "g_rec s = Some (rec_text cfg its)" "\<not> g_rec_done s" "items_ok c its" using i(1) by (simp_all add: base_inv_def)
  have r: "pad_read h io s = (st, s)" using f rec by (simp add: pad_read_def)
  have p: "pad_record (in_retrace io) (g_rec_last s) ?f s = s" using pad_record_appends [OF rec(1,2)] by simp
  have ch: "channel pf_frame val_pad (pads_of its) b hp" "val_pad (newest (pads_of its)) = st"
    "channel ev_frame val_host (kind_of_items EV_HOST its) b hh"
    "val_host (newest (kind_of_items EV_HOST its)) = g_host s"
    using i(2,3) bf by (simp_all add: pad_inv_def host_inv_def)
  have ch': "channel pf_frame val_pad (pads_of its) (unat ?f + 1) (hp @ [(?f, st)])"
    "channel ev_frame val_host (kind_of_items EV_HOST its) (unat ?f + 1) (hh @ [(?f, g_host s)])"
    using channel_hold [OF ch(1), of ?f] channel_hold [OF ch(3), of ?f] ch(2,4) bf by simp_all
  show ?thesis
    using rec i ch' bf c items_ok_mono [OF rec(3) c]
    by (intro exI [of _ "s\<lparr>g_pad_frame := ?f, g_pad_seen := True\<rparr>"])
      (simp add: r u p Let_def run_inv_def base_inv_def pad_inv_def host_inv_def p2_inv_def)
qed

lemma read_first:
  assumes inv: "run_inv h cfg c its b hp hh b2 h2 s" and f: "\<And>st. pad_latch s \<noteq> Some (in_frame io, st)"
    and c: "c \<le> unat (in_frame io)" and ok: "step_ok (Read io)" and tried: "g_play_tried s"
  shows "\<exists>its' st v s'. (case pad_read h io s of (st', s1) \<Rightarrow>
        let s2 = host_update h io s1;
            s3 = (if g_rec s2 \<noteq> None then pad_record (in_retrace io) st' (in_frame io) s2 else s2)
        in (report_bytes (filtered io st'), s3\<lparr>g_pad_frame := in_frame io, g_pad_seen := True\<rparr>))
      = (report_bytes (filtered io st), s') \<and> g_host s' = v
    \<and> run_inv h cfg (unat (in_frame io)) its' (unat (in_frame io) + 1) (hp @ [(in_frame io, st)])
        (hh @ [(in_frame io, v)]) b2 h2 s'
    \<and> (\<forall>k. k \<noteq> EV_HOST \<longrightarrow> kind_of_items k its' = kind_of_items k its)"
proof -
  let ?f = "in_frame io"
  let ?sc = "Some (fst (script_init (getenv h ''SOA_PAD'')))"
  have i: "base_inv h cfg c its s" "pad_inv b hp its s" "host_inv b hh its s" "p2_inv b2 h2 its s"
    "b \<le> c + 1" "b2 \<le> c + 1"
    using inv by (simp_all add: run_inv_def)
  have sc: "script_as_set h ''SOA_PAD'' ?sc" by (simp add: script_as_set_def script_of_def)
  have b: "b \<le> unat ?f"
  proof (cases "pad_latch s")
    case None
    then show ?thesis using i(2) by (simp add: pad_inv_def)
  next
    case (Some p)
    obtain g st where p: "p = (g, st)" by fastforce
    then have "g \<noteq> ?f" "b = unat g + 1" using f Some i(2) by (auto simp: pad_inv_def)
    then show ?thesis using i(5) c by (auto simp: word_unat_eq_iff)
  qed
  then have hf: "g_host_frame s \<noteq> Some ?f" using i(3) by (auto simp: host_inv_def)
  obtain st where st: "pad_sample h io s = (st, s\<lparr>g_scr1 := ?sc\<rparr>)" "buttons st AND BTN_ALL = buttons st"
    by (rule sample_live [OF i(1) tried])
  define s1 where "s1 = s\<lparr>g_scr1 := ?sc, pad_latch := Some (?f, st)\<rparr>"
  have rd: "pad_read h io s = (st, s1)"
    using st(1) f by (auto simp: pad_read_def s1_def split: option.splits)
  have i1: "base_inv h cfg c its s1" "host_inv b hh its s1" using i sc by (simp_all add: s1_def base_inv_def host_inv_def)
  define s2 where "s2 = s1\<lparr>g_host_frame := Some ?f, g_host_prev := g_host s1\<rparr>"
  have "base_inv h cfg c its s2" using i1(1) by (simp add: s2_def base_inv_def)
  then obtain v where v: "host_taken h io s2 = (v, s2\<lparr>g_scr1 := ?sc\<rparr>)" "v AND 15 = v"
    by (rule host_live [OF _ ok])
  let ?s3 = "s1\<lparr>g_host_frame := Some ?f, g_host_prev := g_host s1, g_scr1 := ?sc, g_host := v\<rparr>"
  obtain its' out where fc: "fire_chords 0 k_chords ?f (host_record ?f ?s3)
      = ?s3\<lparr>g_rec := Some (rec_text cfg its'), g_rec_host := v, si_out := out\<rparr>"
    and its': "items_ok (unat ?f) its'" "pads_of its' = pads_of its"
      "\<And>k. k \<noteq> EV_HOST \<Longrightarrow> kind_of_items k its' = kind_of_items k its"
    and hc: "channel ev_frame val_host (kind_of_items EV_HOST its') (unat ?f + 1) (hh @ [(?f, v)])"
      "val_host (newest (kind_of_items EV_HOST its')) = v"
    using host_recorded [OF i1 b c v(2) refl sc, of "g_host s1"] by blast
  let ?s4 = "?s3\<lparr>g_rec := Some (rec_text cfg its'), g_rec_host := v, si_out := out\<rparr>"
  have nr: "\<not> g_replaying (host_record ?f ?s3)"
    using i1(1) by (simp add: host_record_def event_record_def rec_put_def base_inv_def)
  have hu: "host_update h io s1 = ?s4"
    using hf v(1) fc nr by (simp add: host_update_def s2_def s1_def Let_def)
  have nd: "\<not> g_rec_done ?s4" using i1(1) by (simp add: base_inv_def)
  have last: "g_rec_last ?s4 = g_rec_last s" by (simp add: s1_def)
  have ch: "channel pf_frame val_pad (pads_of its) b hp" "val_pad (newest (pads_of its)) = g_rec_last s"
    using i(2) by (simp_all add: pad_inv_def)
  define its2 where "its2 = (if st = g_rec_last s then its' else its' @ [Pad_item ?f st (in_retrace io)])"
  define s5 where "s5 = (if st = g_rec_last s then ?s4
    else ?s4\<lparr>g_rec := Some (rec_text cfg its2), g_rec_last := st, g_rec_changes := g_rec_changes ?s4 + 1\<rparr>)"
  have pr: "pad_record (in_retrace io) st ?f ?s4 = s5"
    using pad_record_appends [of ?s4 cfg its' "in_retrace io" st ?f] nd last
    by (simp add: s5_def its2_def)
  have ok2: "items_ok (unat ?f) its2"
    using its'(1) items_ok_snoc [OF its'(1) order_refl, of "Pad_item ?f st (in_retrace io)"] st(2)
    by (simp add: its2_def)
  have pc: "channel pf_frame val_pad (pads_of its2) (unat ?f + 1) (hp @ [(?f, st)])"
  proof (cases "st = g_rec_last s")
    case True
    then show ?thesis using channel_hold [OF ch(1), of ?f] ch(2) b its'(2) by (simp add: its2_def)
  next
    case False
    then show ?thesis
      using channel_change [OF ch(1) b, of "\<lparr>pf_frame = ?f, pf_retrace = in_retrace io, pf_st = st\<rparr>"] its'(2)
      by (simp add: its2_def)
  qed
  have pn: "val_pad (newest (pads_of its2)) = st" using ch(2) its'(2) by (simp add: its2_def)
  let ?s' = "s5\<lparr>g_pad_frame := ?f, g_pad_seen := True\<rparr>"
  have sel: "g_rec s5 = Some (rec_text cfg its2)" "g_rec_last s5 = st" "g_rec_done s5 = g_rec_done s"
    "g_rec_tried s5 = g_rec_tried s" "g_replaying s5 = g_replaying s" "g_scr1 s5 = ?sc" "g_scr2 s5 = g_scr2 s"
    "pad_latch s5 = Some (?f, st)" "g_host s5 = v" "g_rec_host s5 = v" "g_host_frame s5 = Some ?f"
    "pad2_latch s5 = pad2_latch s" "g_rec_p2_there s5 = g_rec_p2_there s" "g_rec_p2 s5 = g_rec_p2 s"
    by (simp_all add: s5_def its2_def s1_def)
  have "base_inv h cfg (unat ?f) its2 ?s'"
    using i(1) ok2 sc by (simp add: base_inv_def sel)
  moreover have "pad_inv (unat ?f + 1) (hp @ [(?f, st)]) its2 ?s'"
    using pc pn by (simp add: pad_inv_def sel)
  moreover have "host_inv (unat ?f + 1) (hh @ [(?f, v)]) its2 ?s'"
    using hc by (simp add: host_inv_def sel its2_def)
  moreover have "p2_inv b2 h2 its2 ?s'"
    using i(4) its'(3) by (simp add: p2_inv_def sel) (simp add: its2_def)
  ultimately have "run_inv h cfg (unat ?f) its2 (unat ?f + 1) (hp @ [(?f, st)]) (hh @ [(?f, v)]) b2 h2 ?s'"
    using i(6) c by (simp add: run_inv_def)
  moreover have "g_host ?s' = v" by (simp add: sel)
  moreover have "\<forall>k. k \<noteq> EV_HOST \<longrightarrow> kind_of_items k its2 = kind_of_items k its"
    using its'(3) by (simp add: its2_def)
  ultimately show ?thesis
    using sel(1) by (intro exI [of _ its2] exI [of _ st] exI [of _ v] exI [of _ ?s']) (simp add: rd hu pr Let_def)
qed

lemma step_read:
  assumes inv: "run_inv h cfg c its b hp hh b2 h2 s" and nr: "no_replay h"
    and c: "c \<le> unat (in_frame io)" and ok: "step_ok (Read io)"
  obtains its' st v s' where "si_do h (Read io) s = (Bytes (report_bytes (filtered io st)) v, s')"
    "run_inv h cfg (unat (in_frame io)) its' (unat (in_frame io) + 1) (hp @ [(in_frame io, st)])
        (hh @ [(in_frame io, v)]) b2 h2 s'"
    "\<And>k. k \<noteq> EV_HOST \<Longrightarrow> kind_of_items k its' = kind_of_items k its"
proof -
  let ?s = "s\<lparr>g_play_tried := True\<rparr>"
  have "base_inv h cfg c its s" using inv by (simp add: run_inv_def)
  then have o: "opened h s = ?s" by (rule opened_live [OF _ nr])
  have inv': "run_inv h cfg c its b hp hh b2 h2 ?s" using inv by simp
  show ?thesis
  proof (cases "\<exists>st. pad_latch ?s = Some (in_frame io, st)")
    case True
    then obtain st where st: "pad_latch ?s = Some (in_frame io, st)" by blast
    show ?thesis
      using read_again [OF inv' st c] that unfolding si_do.simps pad_report_def o by fastforce
  next
    case False
    then show ?thesis
      using read_first [OF inv' _ c ok] that unfolding si_do.simps pad_report_def o by fastforce
  qed
qed

text \<open>Port 2.\<close>

lemma sample2_live:
  assumes "base_inv h cfg c its s"
  obtains there st sc where "pad2_sample h io s = ((there, st), s\<lparr>g_scr2 := sc\<rparr>)"
    "script_as_set h ''SOA_PAD2'' sc" "\<not> there \<longrightarrow> st = PAD_NEUTRAL" "buttons st AND BTN_ALL = buttons st"
proof (cases "in_pad2 io")
  case None
  let ?es = "fst (script_init (getenv h ''SOA_PAD2''))"
  obtain b sst x where sc: "script_state ?es (in_frame io) = (b, sst, x)" by (metis prod_cases3)
  have set: "script_of h ''SOA_PAD2'' (g_scr2 s) = ?es" using assms by (simp add: base_inv_def script_as_set_def)
  show ?thesis
  proof (cases "?es = []")
    case True
    show ?thesis
      by (rule that [of False PAD_NEUTRAL "Some []"])
        (use None set True in \<open>simp_all add: pad2_sample_def Let_def script_as_set_def script_of_def\<close>)
  next
    case False
    show ?thesis
      by (rule that [of True "PAD_NEUTRAL\<lparr>buttons := b, stick := sst\<rparr>" "Some ?es"])
        (use None set sc False script_state_range(1) [OF sc] in
          \<open>simp_all add: pad2_sample_def Let_def script_as_set_def script_of_def\<close>)
  qed
next
  case (Some w)
  show ?thesis
    by (rule that [of True "w\<lparr>buttons := buttons w AND BTN_ALL\<rparr>" "g_scr2 s"])
      (use Some assms in \<open>simp_all add: pad2_sample_def base_inv_def\<close>)
qed

lemma pad2_recorded:
  assumes "g_rec s = Some (rec_text cfg its)" "\<not> g_rec_done s" "\<not> there \<longrightarrow> st = PAD_NEUTRAL"
    and "\<not> g_rec_p2_there s \<longrightarrow> g_rec_p2 s = PAD_NEUTRAL"
  shows "pad2_record st there f s = (if (there, st) = (g_rec_p2_there s, g_rec_p2 s) then s
    else s\<lparr>g_rec := Some (rec_text cfg (its @ [Ev_item f (if there then Pad2 st else Pad2_off)])),
           g_rec_p2_there := there, g_rec_p2 := st\<rparr>)"
  using event_record_appends [OF assms(1,2), of f "Pad2 st"] event_record_appends [OF assms(1,2), of f Pad2_off] assms(3,4)
  by (auto simp: pad2_record_def pad_same_eq kind_name_def)

lemma step_read2:
  assumes inv: "run_inv h cfg c its b hp hh b2 h2 s" and nr: "no_replay h" and c: "c \<le> unat (in_frame io)"
  obtains its' there st s' where "si_do h (Read2 io) s = (Second there st, s')"
    "run_inv h cfg (unat (in_frame io)) its' b hp hh (unat (in_frame io) + 1) (h2 @ [(in_frame io, there, st)]) s'"
    "\<And>k. k \<noteq> EV_PAD2 \<Longrightarrow> kind_of_items k its' = kind_of_items k its"
proof -
  let ?f = "in_frame io"
  let ?s = "s\<lparr>g_play_tried := True\<rparr>"
  have i: "base_inv h cfg c its ?s" "pad_inv b hp its ?s" "host_inv b hh its ?s" "p2_inv b2 h2 its ?s"
    "b \<le> c + 1" "b2 \<le> c + 1"
    using inv play_tried_inv [of h cfg c its b hp hh b2 h2 True s] by (simp_all add: run_inv_def)
  have "base_inv h cfg c its s" using inv by (simp add: run_inv_def)
  then have o: "opened h s = ?s" by (rule opened_live [OF _ nr])
  have rec: "g_rec ?s = Some (rec_text cfg its)" "\<not> g_rec_done ?s" "\<not> g_replaying ?s" "items_ok c its"
    using i(1) by (simp_all add: base_inv_def)
  have ch: "channel ev_frame val_p2 (kind_of_items EV_PAD2 its) b2 h2"
    "val_p2 (newest (kind_of_items EV_PAD2 its)) = (g_rec_p2_there s, g_rec_p2 s)"
    "\<not> g_rec_p2_there ?s \<longrightarrow> g_rec_p2 ?s = PAD_NEUTRAL"
    using i(4) by (simp_all add: p2_inv_def)
  show ?thesis
  proof (cases "\<exists>w. pad2_latch ?s = Some (?f, w)")
    case True
    then obtain there st where l: "pad2_latch s = Some (?f, there, st)" by auto
    have b2: "b2 = unat ?f + 1" "(there, st) = (g_rec_p2_there s, g_rec_p2 s)" using i(4) l by (simp_all add: p2_inv_def)
    have "channel ev_frame val_p2 (kind_of_items EV_PAD2 its) (unat ?f + 1) (h2 @ [(?f, there, st)])"
      using channel_hold [OF ch(1), of ?f] ch(2) b2 by simp
    moreover have "items_ok (unat ?f) its" by (rule items_ok_mono [OF rec(4) c])
    ultimately have "run_inv h cfg (unat ?f) its b hp hh (unat ?f + 1) (h2 @ [(?f, there, st)]) ?s"
      using i c b2 l by (auto simp: run_inv_def base_inv_def p2_inv_def)
    then show ?thesis
      using o l rec by (intro that [of there st ?s its]) (simp_all add: si_read_pad_def)
  next
    case False
    have b2: "b2 \<le> unat ?f"
    proof (cases "pad2_latch s")
      case None
      then show ?thesis using i(4) by (simp add: p2_inv_def)
    next
      case (Some p)
      obtain g w where p: "p = (g, w)" by (cases p)
      then have "g \<noteq> ?f" "b2 = unat g + 1" using False Some i(4) by (auto simp: p2_inv_def)
      then show ?thesis using i(6) c by (auto simp: word_unat_eq_iff)
    qed
    obtain there st sc where sm: "pad2_sample h io ?s = ((there, st), ?s\<lparr>g_scr2 := sc\<rparr>)"
        "script_as_set h ''SOA_PAD2'' sc" "\<not> there \<longrightarrow> st = PAD_NEUTRAL" "buttons st AND BTN_ALL = buttons st"
      by (rule sample2_live [OF i(1)])
    define s1 where "s1 = ?s\<lparr>g_scr2 := sc, pad2_latch := Some (?f, there, st)\<rparr>"
    define ev where "ev = (if there then Pad2 st else Pad2_off)"
    define its' where "its' = (if (there, st) = (g_rec_p2_there s, g_rec_p2 s) then its else its @ [Ev_item ?f ev])"
    define s2 where "s2 = pad2_record st there ?f s1"
    have rec1: "g_rec s1 = Some (rec_text cfg its)" "\<not> g_rec_done s1"
      "\<not> g_rec_p2_there s1 \<longrightarrow> g_rec_p2 s1 = PAD_NEUTRAL"
      using rec ch(3) by (simp_all add: s1_def)
    have s2: "s2 = s1\<lparr>g_rec := Some (rec_text cfg its'), g_rec_p2_there := there, g_rec_p2 := st\<rparr>"
      using pad2_recorded [OF rec1(1,2) sm(3) rec1(3), of ?f] rec
      by (intro si.equality) (simp_all add: s2_def its'_def ev_def s1_def)
    have "item_ok (Ev_item ?f ev)" using sm(4) by (simp add: ev_def)
    then have "items_ok (unat ?f) its'"
      using items_ok_snoc [OF rec(4) c] items_ok_mono [OF rec(4) c] by (simp add: its'_def)
    moreover have "channel ev_frame val_p2 (kind_of_items EV_PAD2 its') (unat ?f + 1) (h2 @ [(?f, there, st)])"
      using channel_hold [OF ch(1), of ?f] channel_change [OF ch(1) b2, of "kept_event ?f ev"] b2 ch(2) sm(3)
      by (cases there) (auto simp: its'_def ev_def kept_event_def)
    moreover have "val_p2 (newest (kind_of_items EV_PAD2 its')) = (there, st)"
      using ch(2) sm(3) by (simp add: its'_def ev_def kept_event_def)
    moreover have "pads_of its' = pads_of its" "kind_of_items EV_HOST its' = kind_of_items EV_HOST its"
      by (simp_all add: its'_def ev_def)
    ultimately have "run_inv h cfg (unat ?f) its' b hp hh (unat ?f + 1) (h2 @ [(?f, there, st)]) s2"
      using i c sm(2,3) by (simp add: run_inv_def base_inv_def pad_inv_def host_inv_def p2_inv_def s2 s1_def)
    moreover have "si_do h (Read2 io) s = (Second there st, s2)"
      using o rec sm(1) False by (cases "pad2_latch s") (auto simp: si_read_pad_def s2_def s1_def Let_def)
    ultimately show ?thesis
      by (intro that [of there st s2 its']) (simp_all add: its'_def ev_def)
  qed
qed

lemma step_applied:
  assumes inv: "run_inv h cfg c its b hp hh b2 h2 s" and c: "c \<le> unat f" and ok: "step_ok (Applied f ev)"
  obtains s' where "si_do h (Applied f ev) s = (Event_seen (event_text ev), s')"
    "run_inv h cfg (unat f) (its @ [Ev_item f ev]) b hp hh b2 h2 s'"
proof -
  have i: "base_inv h cfg c its s" "b \<le> c + 1" "b2 \<le> c + 1" using inv by (simp_all add: run_inv_def)
  then have rec: "g_rec s = Some (rec_text cfg its)" "\<not> g_rec_done s" "g_rec_tried s" "items_ok c its"
    by (simp_all add: base_inv_def)
  have "items_ok (unat f) (its @ [Ev_item f ev])" using items_ok_snoc [OF rec(4) c] ok by simp
  then have "run_inv h cfg (unat f) (its @ [Ev_item f ev]) b hp hh b2 h2
      (s\<lparr>g_rec := Some (rec_text cfg (its @ [Ev_item f ev]))\<rparr>)"
    using inv ok c i(2,3) by (simp add: run_inv_def base_inv_def pad_inv_def host_inv_def p2_inv_def)
  then show ?thesis
    using event_record_appends [OF rec(1,2), of f ev] rec(3) by (intro that) (simp_all add: event_applied_def)
qed

section \<open>The recording run\<close>

text \<open>The frames of pad 1's reads, the events of a kind, the frames in order, and the last of them.\<close>

fun reads :: "si_step list \<Rightarrow> u32 list" where
  "reads [] = []"
| "reads (Read io # xs) = in_frame io # reads xs"
| "reads (x # xs) = reads xs"

fun applied :: "ev_kind \<Rightarrow> si_step list \<Rightarrow> event_line list" where
  "applied k [] = []"
| "applied k (Applied f ev # xs) = (if event_kind ev = k then [kept_event f ev] else []) @ applied k xs"
| "applied k (x # xs) = applied k xs"

fun ordered :: "nat \<Rightarrow> si_step list \<Rightarrow> bool" where
  "ordered c [] = True"
| "ordered c (x # xs) = (c \<le> step_frame x \<and> ordered (step_frame x) xs)"

fun end_frame :: "nat \<Rightarrow> si_step list \<Rightarrow> nat" where
  "end_frame c [] = c"
| "end_frame c (x # xs) = end_frame (step_frame x) xs"

text \<open>What a step saw is a reading of its channel.\<close>

fun seen_in :: "(u32 \<times> pad) set \<Rightarrow> (u32 \<times> u32) set \<Rightarrow> (u32 \<times> bool \<times> pad) set \<Rightarrow> si_step \<Rightarrow> si_seen \<Rightarrow> bool" where
  "seen_in P H S (Read io) (Bytes bs v) = ((in_frame io, v) \<in> H
     \<and> (\<exists>st. (in_frame io, st) \<in> P \<and> bs = report_bytes (filtered io st)))"
| "seen_in P H S (Read2 io) (Second there st) = ((in_frame io, there, st) \<in> S)"
| "seen_in P H S (Applied f ev) (Event_seen t) = (t = event_text ev)"
| "seen_in P H S _ _ = False"

lemma seen_in_mono: "seen_in P H S x o1 \<Longrightarrow> P \<subseteq> P' \<Longrightarrow> H \<subseteq> H' \<Longrightarrow> S \<subseteq> S' \<Longrightarrow> seen_in P' H' S' x o1"
  by (cases x; cases o1) auto

lemma run_steps:
  assumes "run_inv h cfg c its b hp hh b2 h2 s" "no_replay h" "ordered c xs" "list_all step_ok xs"
    and "si_run h xs s = (os, s')"
  shows "\<exists>its' b' hp' hh' b2' h2'. run_inv h cfg (end_frame c xs) its' b' (hp @ hp') (hh @ hh') b2' (h2 @ h2') s'
    \<and> list_all2 (seen_in (set hp') (set hh') (set h2')) xs os \<and> map fst hp' = reads xs
    \<and> (\<forall>k. k \<noteq> EV_HOST \<and> k \<noteq> EV_PAD2 \<longrightarrow> kind_of_items k its' = kind_of_items k its @ applied k xs)"
  using assms
proof (induction xs arbitrary: c its b hp hh b2 h2 s os)
  case Nil
  then show ?case
    by (intro exI [of _ its] exI [of _ b] exI [of _ "[]"] exI [of _ "[]"] exI [of _ b2] exI [of _ "[]"]) simp
next
  case (Cons x xs)
  obtain o1 s1 os' where do: "si_do h x s = (o1, s1)" and run: "si_run h xs s1 = (os', s')" and os: "os = o1 # os'"
    using Cons.prems(5) by (auto split: prod.splits)
  have c: "c \<le> step_frame x" "ordered (step_frame x) xs" "step_ok x" "list_all step_ok xs"
    using Cons.prems(3,4) by simp_all
  note inv = Cons.prems(1)
  note nr = Cons.prems(2)
  show ?case
  proof (cases x)
    case (Read io)
    have "c \<le> unat (in_frame io)" "step_ok (Read io)" using c Read by simp_all
    then obtain its1 st v t1 where d0: "si_do h (Read io) s = (Bytes (report_bytes (filtered io st)) v, t1)"
      "run_inv h cfg (unat (in_frame io)) its1 (unat (in_frame io) + 1) (hp @ [(in_frame io, st)])
        (hh @ [(in_frame io, v)]) b2 h2 t1"
      "\<And>k. k \<noteq> EV_HOST \<Longrightarrow> kind_of_items k its1 = kind_of_items k its"
      by (rule step_read [OF inv nr]) (rule that; assumption)
    then have "o1 = Bytes (report_bytes (filtered io st)) v" "t1 = s1" using do Read by simp_all
    note d = this(1) d0(2) [unfolded this(2)] d0(3)
    obtain its' b' hp' hh' b2' h2' where r: "run_inv h cfg (end_frame (step_frame x) xs) its' b'
        ((hp @ [(in_frame io, st)]) @ hp') ((hh @ [(in_frame io, v)]) @ hh') b2' (h2 @ h2') s'"
      "list_all2 (seen_in (set hp') (set hh') (set h2')) xs os'" "map fst hp' = reads xs"
      "\<forall>k. k \<noteq> EV_HOST \<and> k \<noteq> EV_PAD2 \<longrightarrow> kind_of_items k its' = kind_of_items k its1 @ applied k xs"
      using Cons.IH [OF d(2) nr _ c(4) run] c(2) Read by auto
    have "list_all2 (seen_in (set ((in_frame io, st) # hp')) (set ((in_frame io, v) # hh')) (set h2')) xs os'"
      using r(2) by (rule list_all2_mono) (auto elim!: seen_in_mono)
    then show ?thesis
      using r(1,3,4) d(1,3) os Read
      by (intro exI [of _ its'] exI [of _ b'] exI [of _ "(in_frame io, st) # hp'"]
          exI [of _ "(in_frame io, v) # hh'"] exI [of _ b2'] exI [of _ h2']) auto
  next
    case (Read2 io)
    have "c \<le> unat (in_frame io)" using c Read2 by simp
    then obtain its1 there st t1 where d0: "si_do h (Read2 io) s = (Second there st, t1)"
      "run_inv h cfg (unat (in_frame io)) its1 b hp hh (unat (in_frame io) + 1) (h2 @ [(in_frame io, there, st)]) t1"
      "\<And>k. k \<noteq> EV_PAD2 \<Longrightarrow> kind_of_items k its1 = kind_of_items k its"
      by (rule step_read2 [OF inv nr]) (rule that; assumption)
    then have "o1 = Second there st" "t1 = s1" using do Read2 by simp_all
    note d = this(1) d0(2) [unfolded this(2)] d0(3)
    obtain its' b' hp' hh' b2' h2' where r: "run_inv h cfg (end_frame (step_frame x) xs) its' b' (hp @ hp')
        (hh @ hh') b2' ((h2 @ [(in_frame io, there, st)]) @ h2') s'"
      "list_all2 (seen_in (set hp') (set hh') (set h2')) xs os'" "map fst hp' = reads xs"
      "\<forall>k. k \<noteq> EV_HOST \<and> k \<noteq> EV_PAD2 \<longrightarrow> kind_of_items k its' = kind_of_items k its1 @ applied k xs"
      using Cons.IH [OF d(2) nr _ c(4) run] c(2) Read2 by auto
    have "list_all2 (seen_in (set hp') (set hh') (set ((in_frame io, there, st) # h2'))) xs os'"
      using r(2) by (rule list_all2_mono) (auto elim!: seen_in_mono)
    then show ?thesis
      using r(1,3,4) d(1,3) os Read2
      by (intro exI [of _ its'] exI [of _ b'] exI [of _ hp'] exI [of _ hh'] exI [of _ b2']
          exI [of _ "(in_frame io, there, st) # h2'"]) auto
  next
    case (Applied f ev)
    have "c \<le> unat f" "step_ok (Applied f ev)" using c Applied by simp_all
    then obtain t1 where d0: "si_do h (Applied f ev) s = (Event_seen (event_text ev), t1)"
      "run_inv h cfg (unat f) (its @ [Ev_item f ev]) b hp hh b2 h2 t1"
      by (rule step_applied [OF inv])
    then have "o1 = Event_seen (event_text ev)" "t1 = s1" using do Applied by simp_all
    note d = this(1) d0(2) [unfolded this(2)]
    obtain its' b' hp' hh' b2' h2' where r: "run_inv h cfg (end_frame (step_frame x) xs) its' b' (hp @ hp')
        (hh @ hh') b2' (h2 @ h2') s'"
      "list_all2 (seen_in (set hp') (set hh') (set h2')) xs os'" "map fst hp' = reads xs"
      "\<forall>k. k \<noteq> EV_HOST \<and> k \<noteq> EV_PAD2 \<longrightarrow>
         kind_of_items k its' = kind_of_items k (its @ [Ev_item f ev]) @ applied k xs"
      using Cons.IH [OF d(2) nr _ c(4) run] c(2) Applied by auto
    then show ?thesis
      using d(1) os Applied
      by (intro exI [of _ its'] exI [of _ b'] exI [of _ hp'] exI [of _ hh'] exI [of _ b2'] exI [of _ h2']) auto
  qed
qed

section \<open>The first step and the end\<close>

definition recordable :: "si_host \<Rightarrow> bool" where
  "recordable h \<longleftrightarrow> env_text h ''SOA_PAD_RECORD'' \<noteq> []
     \<and> pad_record_create h (env_text h ''SOA_PAD_RECORD'') \<noteq> None"

lemma record_opened: "recordable h \<Longrightarrow> run_inv h (pad_config h) 0 [] 0 [] [] 0 [] (pad_record_open h si_init)"
  by (auto simp: recordable_def pad_record_open_def si_init_def run_inv_def base_inv_def pad_inv_def host_inv_def
      p2_inv_def rec_text_def config_line_def items_ok_def script_as_set_def script_of_def Let_def)

lemma run_from_init: "xs \<noteq> [] \<Longrightarrow> si_run h xs si_init = si_run h xs (pad_record_open h si_init)"
proof -
  have t: "g_rec_tried (pad_record_open h si_init)"
    by (simp add: pad_record_open_def Let_def split: option.splits)
  have "\<not> g_rec_tried si_init" by (simp add: si_init_def)
  then have o: "opened h si_init = opened h (pad_record_open h si_init)"
    using t by (simp add: opened_def)
  have "si_do h x si_init = si_do h x (pad_record_open h si_init)" for x
    using o t by (cases x) (simp_all add: pad_report_def si_read_pad_def event_applied_def si_init_def)
  then show "xs \<noteq> [] \<Longrightarrow> ?thesis" by (cases xs) simp_all
qed

text \<open>What the file has to hold for the readings of a run to come back.\<close>

definition says :: "item list \<Rightarrow> (u32 \<times> pad) set \<Rightarrow> (u32 \<times> u32) set \<Rightarrow> (u32 \<times> bool \<times> pad) set \<Rightarrow> bool" where
  "says its P H S \<longleftrightarrow> (\<forall>(f, v)\<in>P. v = val_pad (in_effect pf_frame (pads_of its) f))
     \<and> (\<forall>(f, v)\<in>H. v = val_host (in_effect ev_frame (kind_of_items EV_HOST its) f))
     \<and> (\<forall>(f, v)\<in>S. v = val_p2 (in_effect ev_frame (kind_of_items EV_PAD2 its) f))"

lemma run_says:
  assumes "run_inv h cfg c its b hp hh b2 h2 s"
  shows "says its (set hp) (set hh) (set h2)"
proof -
  have "channel pf_frame val_pad (pads_of its) b hp" "channel ev_frame val_host (kind_of_items EV_HOST its) b hh"
    "channel ev_frame val_p2 (kind_of_items EV_PAD2 its) b2 h2"
    using assms by (simp_all add: run_inv_def pad_inv_def host_inv_def p2_inv_def)
  note c = this [THEN channelD(4)]
  have "case x of (f, v) \<Rightarrow> v = val_pad (in_effect pf_frame (pads_of its) f)" if "x \<in> set hp" for x
    using c(1) [of "fst x" "snd x"] that by (cases x) simp
  moreover have "case x of (f, v) \<Rightarrow> v = val_host (in_effect ev_frame (kind_of_items EV_HOST its) f)"
    if "x \<in> set hh" for x
    using c(2) [of "fst x" "snd x"] that by (cases x) simp
  moreover have "case x of (f, v) \<Rightarrow> v = val_p2 (in_effect ev_frame (kind_of_items EV_PAD2 its) f)"
    if "x \<in> set h2" for x
    using c(3) [of "fst x" "snd x"] that by (cases x) simp
  ultimately show ?thesis unfolding says_def by blast
qed

lemma run_below:
  assumes "run_inv h cfg c its b hp hh b2 h2 s"
  shows "\<And>f v. (f, v) \<in> set hp \<Longrightarrow> unat f \<le> c" "\<And>f v. (f, v) \<in> set hh \<Longrightarrow> unat f \<le> c"
    "\<And>f v. (f, v) \<in> set h2 \<Longrightarrow> unat f \<le> c"
proof -
  have c: "channel pf_frame val_pad (pads_of its) b hp" "channel ev_frame val_host (kind_of_items EV_HOST its) b hh"
    "channel ev_frame val_p2 (kind_of_items EV_PAD2 its) b2 h2" "b \<le> c + 1" "b2 \<le> c + 1"
    using assms by (simp_all add: run_inv_def pad_inv_def host_inv_def p2_inv_def)
  show "unat f \<le> c" if "(f, v) \<in> set hp" for f v using channelD(3) [OF c(1) that] c(4) by simp
  show "unat f \<le> c" if "(f, v) \<in> set hh" for f v using channelD(3) [OF c(2) that] c(4) by simp
  show "unat f \<le> c" if "(f, v) \<in> set h2" for f v using channelD(3) [OF c(3) that] c(5) by simp
qed

text \<open>Lines behind every reading change nothing.\<close>

lemma says_later:
  assumes "says its P H S" "item_frame it = Suc c \<or> (\<exists>t. it = Remark t)"
    and "\<And>f v. (f, v) \<in> P \<Longrightarrow> unat f \<le> c" "\<And>f v. (f, v) \<in> H \<Longrightarrow> unat f \<le> c" "\<And>f v. (f, v) \<in> S \<Longrightarrow> unat f \<le> c"
  shows "says (its @ [it]) P H S"
proof -
  have p: "in_effect pf_frame (pads_of (its @ [it])) f = in_effect pf_frame (pads_of its) f" if "unat f \<le> c" for f
    using assms(2) that by (cases it) (auto intro!: in_effect_later)
  have e: "in_effect ev_frame (kind_of_items k (its @ [it])) f = in_effect ev_frame (kind_of_items k its) f"
    if "unat f \<le> c" for k f
    using assms(2) that by (cases it) (auto simp: kept_event_def intro!: in_effect_later)
  show ?thesis
    unfolding says_def
  proof (intro conjI ballI)
    note s = assms(1) [unfolded says_def]
    show "case x of (f, v) \<Rightarrow> v = val_pad (in_effect pf_frame (pads_of (its @ [it])) f)" if "x \<in> P" for x
      using bspec [OF s [THEN conjunct1] that] p [OF assms(3)] that by (cases x) (simp only: prod.case)
    show "case x of (f, v) \<Rightarrow> v = val_host (in_effect ev_frame (kind_of_items EV_HOST (its @ [it])) f)" if "x \<in> H" for x
      using bspec [OF s [THEN conjunct2, THEN conjunct1] that] e [OF assms(4)] that by (cases x) (simp only: prod.case)
    show "case x of (f, v) \<Rightarrow> v = val_p2 (in_effect ev_frame (kind_of_items EV_PAD2 (its @ [it])) f)" if "x \<in> S" for x
      using bspec [OF s [THEN conjunct2, THEN conjunct2] that] e [OF assms(5)] that by (cases x) (simp only: prod.case)
  qed
qed

text \<open>The lines the end of a recording adds: what is held is let go, and the totals.\<close>

definition closing :: "u64 \<Rightarrow> si \<Rightarrow> item list" where
  "closing r s = (let f = g_pad_frame s + 1 in
     (if g_rec_last s \<noteq> PAD_NEUTRAL then [Pad_item f PAD_NEUTRAL r] else [])
     @ (if g_rec_host s \<noteq> 0 then [Ev_item f (Host 0)] else [])
     @ (if g_rec_p2_there s \<and> g_rec_p2 s \<noteq> PAD_NEUTRAL then [Ev_item f (Pad2 PAD_NEUTRAL)] else []))"

definition totals :: "u64 \<Rightarrow> u64 \<Rightarrow> u32 \<Rightarrow> item" where
  "totals n r f = Remark (dec (unat n) @ '' state changes over '' @ dec (unat f) @ '' frames, '' @ dec (unat r)
     @ '' retraces'')"

lemma none_held: "host_names_str 0 = ''-''" "pad_state_str PAD_NEUTRAL = ''-''"
  by (simp_all add: host_names_str_def set_names_def g_host_names_def pad_state_str_def pad_buttons_str_def
      PAD_NEUTRAL_def g_button_names_def)

lemma close_text:
  assumes rec: "g_rec s = Some (rec_text cfg its)" "\<not> g_rec_done s" and seen: "g_pad_seen s"
  shows "\<exists>n. g_rec (si_close r s) = Some (rec_text cfg (its @ closing r s @ [totals n r (g_pad_frame s + 1)]))"
proof -
  let ?f = "g_pad_frame s + 1"
  define a where "a = (if g_rec_last s \<noteq> PAD_NEUTRAL then its @ [Pad_item ?f PAD_NEUTRAL r] else its)"
  define b where "b = (if g_rec_host s \<noteq> 0 then a @ [Ev_item ?f (Host 0)] else a)"
  define d where "d = (if g_rec_p2_there s \<and> g_rec_p2 s \<noteq> PAD_NEUTRAL then b @ [Ev_item ?f (Pad2 PAD_NEUTRAL)] else b)"
  define s1 where "s1 = (if g_pad_seen s \<and> \<not> pad_same (g_rec_last s) PAD_NEUTRAL
      then pad_record r PAD_NEUTRAL ?f s else s)"
  define s2 where "s2 = (if g_pad_seen s \<and> nonzero (g_rec_host s1) then event_record ?f ''host'' ''-'' s1 else s1)"
  define s3 where "s3 = (if g_pad_seen s \<and> g_rec_p2_there s2 \<and> \<not> pad_same (g_rec_p2 s2) PAD_NEUTRAL
      then event_record ?f ''pad2'' ''-'' s2 else s2)"
  have 1: "g_rec s1 = Some (rec_text cfg a)" "\<not> g_rec_done s1" "g_rec_host s1 = g_rec_host s"
    "g_rec_p2_there s1 = g_rec_p2_there s" "g_rec_p2 s1 = g_rec_p2 s"
    using pad_record_appends [OF rec, of r PAD_NEUTRAL ?f] rec seen by (simp_all add: s1_def a_def pad_same_eq)
  have 2: "g_rec s2 = Some (rec_text cfg b)" "\<not> g_rec_done s2" "g_rec_p2_there s2 = g_rec_p2_there s" "g_rec_p2 s2 = g_rec_p2 s"
    using event_record_appends [OF 1(1,2), of ?f "Host 0"] 1 seen
    by (simp_all add: s2_def b_def none_held kind_name_def)
  have 3: "g_rec s3 = Some (rec_text cfg d)"
    using event_record_appends [OF 2(1,2), of ?f "Pad2 PAD_NEUTRAL"] 2 seen
    by (simp add: s3_def d_def none_held kind_name_def pad_same_eq)
  have l: "length (dec (unat (v :: u64))) \<le> 20" "length (dec (unat (w :: u32))) \<le> 10" for v w
    by (simp_all add: dec_u64_length dec_u32_length)
  let ?t = "''# '' @ dec (unat (g_rec_changes s3)) @ '' state changes over ''
      @ dec (unat (if g_pad_seen s then ?f else 0)) @ '' frames, '' @ dec (unat r) @ '' retraces'' @ [nl]"
  have "take 127 ?t = item_text (totals (g_rec_changes s3) r ?f)"
    using l(1) [of "g_rec_changes s3"] l(2) [of ?f] l(1) [of r] seen by (simp add: totals_def)
  moreover have "si_close r s = rec_put (take 127 ?t) (s3\<lparr>g_rec_done := True\<rparr>)"
    using rec(1) unfolding si_close_def s1_def s2_def s3_def Let_def by simp
  ultimately have "g_rec (si_close r s) = Some (rec_text cfg (d @ [totals (g_rec_changes s3) r ?f]))"
    using 3 by (simp add: rec_put_def rec_text_snoc)
  moreover have "d = its @ closing r s" by (simp add: d_def b_def a_def closing_def Let_def)
  ultimately show ?thesis by auto
qed

lemma totals_ok: "item_ok (totals n r f)"
proof -
  let ?t = "dec (unat n) @ '' state changes over '' @ dec (unat f) @ '' frames, '' @ dec (unat r) @ '' retraces''"
  have "text_ok ?t" using word_text_ok [OF word_ok_dec] by (simp add: nl_def nul_def)
  moreover have "length ?t < 2000" using dec_u64_length [of n] dec_u32_length [of f] dec_u64_length [of r] by simp
  moreover have "take 7 ?t \<noteq> ''config ''"
  proof -
    obtain d ds where d: "dec (unat n) = d # ds" "is_digit d"
      using dec_digits [of "unat n"] by (cases "dec (unat n)") auto
    then show ?thesis by (auto simp: is_digit_def less_eq_char_def)
  qed
  ultimately show ?thesis by (simp add: totals_def text_ok_def)
qed

lemma items_ok_more: "items_ok c its \<Longrightarrow> c \<le> f \<Longrightarrow>
    list_all (\<lambda>it. item_ok it \<and> (item_frame it = f \<or> (\<exists>t. it = Remark t))) zs \<Longrightarrow> items_ok f (its @ zs)"
proof (induction zs arbitrary: c its)
  case Nil
  then show ?case using items_ok_mono by simp
next
  case (Cons z zs)
  then have "items_ok f (its @ [z])" by (intro items_ok_snoc [of c]) auto
  then show ?case using Cons.IH [of f "its @ [z]"] Cons.prems by simp
qed

lemma says_more:
  assumes "says its P H S" "list_all (\<lambda>it. item_frame it = Suc c \<or> (\<exists>t. it = Remark t)) zs"
    and "\<And>f v. (f, v) \<in> P \<Longrightarrow> unat f \<le> c" "\<And>f v. (f, v) \<in> H \<Longrightarrow> unat f \<le> c" "\<And>f v. (f, v) \<in> S \<Longrightarrow> unat f \<le> c"
  shows "says (its @ zs) P H S"
  using assms(1,2)
proof (induction zs arbitrary: its)
  case (Cons z zs)
  then have "says (its @ [z]) P H S" by (intro says_later [OF _ _ assms(3-5)]) auto
  then show ?case using Cons.IH [of "its @ [z]"] Cons.prems by simp
qed simp

lemma closing_parts:
  "pads_of (closing r s @ [totals n r f]) = (if g_rec_last s \<noteq> PAD_NEUTRAL
     then [\<lparr>pf_frame = g_pad_frame s + 1, pf_retrace = r, pf_st = PAD_NEUTRAL\<rparr>] else [])"
  "k \<noteq> EV_HOST \<Longrightarrow> k \<noteq> EV_PAD2 \<Longrightarrow> kind_of_items k (closing r s @ [totals n r f]) = []"
  by (auto simp: closing_def totals_def Let_def)

lemma closing_ok:
  assumes "unat (g_pad_frame s) + 1 < 2 ^ 32"
  shows "list_all (\<lambda>it. item_ok it \<and> (item_frame it = Suc (unat (g_pad_frame s)) \<or> (\<exists>t. it = Remark t)))
     (closing r s @ [totals n r (g_pad_frame s + 1)])"
proof -
  have "unat (g_pad_frame s + 1) = Suc (unat (g_pad_frame s))"
    using assms by (simp add: unat_word_ariths)
  then show ?thesis using totals_ok [of n r "g_pad_frame s + 1"] by (auto simp: closing_def Let_def totals_def)
qed

lemma run_ends_seen:
  assumes inv: "run_inv h cfg c its b hp hh b2 h2 s" and f: "f \<in> fst ` set hp" "unat f = c"
  shows "g_pad_seen s \<and> unat (g_pad_frame s) = c"
proof -
  have p: "channel pf_frame val_pad (pads_of its) b hp" "if g_pad_seen s then b = unat (g_pad_frame s) + 1 else b = 0"
    "b \<le> c + 1"
    using inv by (simp_all add: run_inv_def pad_inv_def)
  have "unat f < b" using channelD(3) [OF p(1)] f(1) by auto
  then show ?thesis using p(2,3) f(2) by (simp split: if_splits)
qed

lemma end_frame_last: "end_frame c (ys @ [x]) = step_frame x"
  by (induction ys arbitrary: c) simp_all

lemma reads_last: "reads (ys @ [Read io]) = reads ys @ [in_frame io]"
  by (induction ys rule: reads.induct) simp_all

text \<open>Everything a closed recording holds, in one place.\<close>

definition recorded :: "si_step list \<Rightarrow> (u32 \<times> pad) set \<Rightarrow> (u32 \<times> u32) set \<Rightarrow> (u32 \<times> bool \<times> pad) set \<Rightarrow> item list \<Rightarrow> bool" where
  "recorded xs P H S its \<longleftrightarrow> list_all item_ok its \<and> rising 0 its \<and> says its P H S
     \<and> sorted_wrt (<) (map (\<lambda>p. unat (pf_frame p)) (pads_of its))
     \<and> (\<forall>p\<in>set (pads_of its). pf_frame p \<in> set (reads xs) \<or> (\<forall>f\<in>set (reads xs). unat f < unat (pf_frame p)))
     \<and> val_pad (newest (pads_of its)) = PAD_NEUTRAL
     \<and> (\<forall>k. k \<noteq> EV_HOST \<and> k \<noteq> EV_PAD2 \<longrightarrow> kind_of_items k its = applied k xs)"

lemma recording:
  assumes h: "recordable h" "no_replay h" and xs: "ordered 0 xs" "list_all step_ok xs" "xs = ys @ [Read io]"
    and fits: "unat (in_frame io) + 1 < 2 ^ 32" and run: "si_run h xs si_init = (os, s')"
  obtains its P H S where "g_rec (si_close r s') = Some (rec_text (pad_config h) its)"
    "list_all2 (seen_in P H S) xs os" "recorded xs P H S its"
proof -
  let ?c = "unat (in_frame io)"
  have "si_run h xs (pad_record_open h si_init) = (os, s')"
    using run_from_init [of xs h] run xs(3) by simp
  then obtain its b hp hh b2 h2 where inv: "run_inv h (pad_config h) (end_frame 0 xs) its b hp hh b2 h2 s'"
    and seen: "list_all2 (seen_in (set hp) (set hh) (set h2)) xs os" and hp: "map fst hp = reads xs"
    and kinds: "\<And>k. k \<noteq> EV_HOST \<Longrightarrow> k \<noteq> EV_PAD2 \<Longrightarrow> kind_of_items k its = applied k xs"
    using run_steps [OF record_opened [OF h(1)] h(2) xs(1,2)] by auto
  have c: "end_frame 0 xs = ?c" by (simp add: xs(3) end_frame_last)
  note inv = inv [unfolded c]
  have hps: "fst ` set hp = set (reads xs)" using hp by (metis list.set_map)
  have "in_frame io \<in> fst ` set hp" by (simp add: hps xs(3) reads_last)
  then have gf: "g_pad_seen s'" "unat (g_pad_frame s') = ?c" using run_ends_seen [OF inv] by simp_all
  have base: "g_rec s' = Some (rec_text (pad_config h) its)" "\<not> g_rec_done s'" "items_ok ?c its"
    and ch: "channel pf_frame val_pad (pads_of its) b hp" "val_pad (newest (pads_of its)) = g_rec_last s'" "b \<le> ?c + 1"
    using inv by (simp_all add: run_inv_def base_inv_def pad_inv_def)
  obtain n where t: "g_rec (si_close r s')
      = Some (rec_text (pad_config h) (its @ closing r s' @ [totals n r (g_pad_frame s' + 1)]))"
    using close_text [OF base(1,2) gf(1)] by blast
  define zs where "zs = closing r s' @ [totals n r (g_pad_frame s' + 1)]"
  have zs: "list_all (\<lambda>it. item_ok it \<and> (item_frame it = Suc ?c \<or> (\<exists>t. it = Remark t))) zs"
    using closing_ok [of s' r n] fits gf(2) by (simp add: zs_def)
  have ok: "items_ok (Suc ?c) (its @ zs)" by (rule items_ok_more [OF base(3) _ zs]) simp
  have "list_all (\<lambda>it. item_frame it = Suc ?c \<or> (\<exists>t. it = Remark t)) zs"
    using zs by (auto simp: list_all_iff)
  then have says: "says (its @ zs) (set hp) (set hh) (set h2)"
    by (rule says_more [OF run_says [OF inv] _ run_below [OF inv]])
  have pz: "pads_of zs = (if g_rec_last s' \<noteq> PAD_NEUTRAL
      then [\<lparr>pf_frame = g_pad_frame s' + 1, pf_retrace = r, pf_st = PAD_NEUTRAL\<rparr>] else [])"
    using closing_parts(1) by (simp add: zs_def)
  have un: "unat (g_pad_frame s' + 1) = Suc ?c" using fits gf(2) by (simp add: unat_word_ariths)
  have sort: "sorted_wrt (<) (map (\<lambda>p. unat (pf_frame p)) (pads_of (its @ zs)))"
    using channelD(1,5) [OF ch(1)] ch(3) un by (fastforce simp: pz sorted_wrt_append)
  have below: "unat f \<le> ?c" if "f \<in> set (reads xs)" for f
    using that run_below(1) [OF inv] by (auto simp: hps [symmetric])
  have frames: "pf_frame p \<in> set (reads xs) \<or> (\<forall>f\<in>set (reads xs). unat f < unat (pf_frame p))"
    if "p \<in> set (pads_of (its @ zs))" for p
    using that channelD(2) [OF ch(1)] below un by (auto simp: pz hps less_Suc_eq_le split: if_splits)
  have last: "val_pad (newest (pads_of (its @ zs))) = PAD_NEUTRAL" using ch(2) by (simp add: pz)
  have "kind_of_items k (its @ zs) = applied k xs" if "k \<noteq> EV_HOST" "k \<noteq> EV_PAD2" for k
    using kinds [OF that] closing_parts(2) [OF that] by (simp add: zs_def)
  then have "recorded xs (set hp) (set hh) (set h2) (its @ zs)"
    using ok says sort frames last by (simp add: recorded_def items_ok_def)
  then show ?thesis using that [of "its @ zs"] t seen by (simp add: zs_def)
qed

end
