(* ===== verification/PadBack.thy ===== *)
theory PadBack
  imports PadRun
begin

text \<open>
  The run that replays a recording: the cursors of pad 1's lines and of each kind of event, and
  the theorem that what the recording run read, the replaying run reads.
\<close>

section \<open>Cursors over a kind of event\<close>

definition of_kind :: "ev_kind \<Rightarrow> event_line list \<Rightarrow> event_line list" where
  "of_kind k es = filter (\<lambda>e. ev_of e = k) es"

lemma of_kind_simps [simp]:
  "of_kind k [] = []" "of_kind k (e # es) = (if ev_of e = k then e # of_kind k es else of_kind k es)"
  "of_kind k (a @ b) = of_kind k a @ of_kind k b"
  by (simp_all add: of_kind_def)

text \<open>A cursor stands on a line of its kind, or at the end.\<close>

definition stands :: "ev_kind \<Rightarrow> event_line list \<Rightarrow> nat \<Rightarrow> bool" where
  "stands k es j \<longleftrightarrow> (j < length es \<longrightarrow> ev_of (es ! j) = k)"

lemma next_of_step:
  "j < length es \<Longrightarrow> next_of k es j = (if ev_of (es ! j) = k then j else next_of k es (Suc j))"
  by (simp add: next_of_def Cons_nth_drop_Suc [symmetric])

lemma next_of_end: "length es \<le> j \<Longrightarrow> next_of k es j = j"
  by (simp add: next_of_def)

lemma next_of_ahead: "stands k es (next_of k es j) \<and> of_kind k (drop (next_of k es j) es) = of_kind k (drop j es)"
proof (induction "length es - j" arbitrary: j)
  case 0
  then show ?case by (simp add: next_of_end stands_def)
next
  case (Suc n)
  then have j: "j < length es" by simp
  then have "drop j es = es ! j # drop (Suc j) es" by (simp add: Cons_nth_drop_Suc)
  then show ?case using Suc.hyps(1) [of "Suc j"] Suc.hyps(2) j by (simp add: next_of_step stands_def)
qed

lemma stands_head:
  assumes "stands k es j"
  shows "of_kind k (drop j es) = (if j < length es then es ! j # of_kind k (drop (Suc j) es) else [])"
  using assms by (simp add: stands_def Cons_nth_drop_Suc [symmetric])

definition due_by :: "u32 \<Rightarrow> event_line \<Rightarrow> bool" where
  "due_by f e \<longleftrightarrow> ev_frame e \<le> f"

lemma event_at_loop_takes:
  assumes "event_at_loop es k f at nxt = (at', nxt')" "stands k es nxt"
  defines "A \<equiv> of_kind k (drop nxt es)"
  shows "stands k es nxt' \<and> of_kind k (drop nxt' es) = dropWhile (due_by f) A
    \<and> (if takeWhile (due_by f) A = [] then at' = at
       else \<exists>j. at' = Some j \<and> es ! j = List.last (takeWhile (due_by f) A))"
  using assms(1,2) unfolding A_def
proof (induction es k f at nxt rule: event_at_loop.induct)
  case (1 es k f at nxt)
  note h = stands_head [OF "1.prems"(2)]
  show ?case
  proof (cases "nxt < length es \<and> ev_frame (es ! nxt) \<le> f")
    case True
    let ?n = "next_of k es (Suc nxt)"
    have n: "stands k es ?n" "of_kind k (drop ?n es) = of_kind k (drop (Suc nxt) es)"
      using next_of_ahead [of k es "Suc nxt"] by simp_all
    have "event_at_loop es k f (Some nxt) ?n = (at', nxt')"
      using "1.prems"(1) True by (subst (asm) event_at_loop.simps) simp
    moreover have d: "due_by f (es ! nxt)" using True by (simp add: due_by_def)
    ultimately show ?thesis
      using "1.IH" [OF True _ n(1)] True h n(2)
      by (cases "takeWhile (due_by f) (of_kind k (drop (Suc nxt) es)) = []") auto
  next
    case False
    then have "(at', nxt') = (at, nxt)" using "1.prems"(1) by (subst (asm) event_at_loop.simps) auto
    then show ?thesis using False h "1.prems"(2) by (auto simp: due_by_def)
  qed
qed

lemma in_effect_split:
  assumes "\<And>x. x \<in> set T \<Longrightarrow> fr x \<le> f" "\<And>x. x \<in> set A \<Longrightarrow> \<not> fr x \<le> f"
  shows "in_effect fr (T @ A) f = newest T"
  using assms by (simp add: in_effect_newest filter_id_conv [THEN iffD2])

text \<open>The cursor of a kind after every reading up to a frame.\<close>

definition kind_cursor :: "nat \<Rightarrow> ev_kind \<Rightarrow> event_line list \<Rightarrow> nat option \<Rightarrow> nat \<Rightarrow> bool" where
  "kind_cursor c k es at nxt \<longleftrightarrow> stands k es nxt
     \<and> (\<exists>T. of_kind k es = T @ of_kind k (drop nxt es) \<and> (\<forall>e\<in>set T. unat (ev_frame e) \<le> c)
          \<and> map_option (\<lambda>j. es ! j) at = newest T)"

definition frames_rise :: "event_line list \<Rightarrow> bool" where
  "frames_rise es \<longleftrightarrow> sorted (map (\<lambda>e. unat (ev_frame e)) es)"

lemma newest_append: "newest (a @ b) = (if b = [] then newest a else Some (List.last b))"
  by (simp add: newest_def)

lemma dropWhile_rising:
  assumes "frames_rise A" "e \<in> set (dropWhile (due_by f) A)"
  shows "\<not> ev_frame e \<le> f"
  using assms
proof (induction A)
  case (Cons a A)
  then show ?case
    by (cases "due_by f a") (force simp: frames_rise_def due_by_def word_le_nat_alt)+
qed simp

lemma event_at_in_effect:
  assumes cur: "kind_cursor c k es at nxt" and c: "c \<le> unat f" and rise: "frames_rise es"
    and loop: "event_at_loop es k f at nxt = (at', nxt')"
  shows "map_option (\<lambda>j. es ! j) at' = in_effect ev_frame (of_kind k es) f \<and> kind_cursor (unat f) k es at' nxt'"
proof -
  let ?A = "of_kind k (drop nxt es)"
  obtain T where st: "stands k es nxt" and T: "of_kind k es = T @ ?A" "\<And>e. e \<in> set T \<Longrightarrow> unat (ev_frame e) \<le> c"
    "map_option (\<lambda>j. es ! j) at = newest T"
    using cur by (auto simp: kind_cursor_def)
  note l = event_at_loop_takes [OF loop st]
  let ?T = "T @ takeWhile (due_by f) ?A"
  have all: "of_kind k es = ?T @ of_kind k (drop nxt' es)" using T(1) l by simp
  have "frames_rise (of_kind k es)"
    using rise by (auto simp: frames_rise_def of_kind_def sorted_map intro: sorted_wrt_filter)
  then have ra: "frames_rise ?A" using T(1) by (simp add: frames_rise_def sorted_append)
  have le: "ev_frame e \<le> f" if "e \<in> set ?T" for e
    using that T(2) c set_takeWhileD [of e "due_by f" ?A] by (fastforce simp: word_le_nat_alt due_by_def)
  have gt: "\<not> ev_frame e \<le> f" if "e \<in> set (of_kind k (drop nxt' es))" for e
    using that l dropWhile_rising [OF ra] by simp
  have at': "map_option (\<lambda>j. es ! j) at' = newest ?T"
    using l T(3) by (auto simp: newest_append split: if_splits)
  have "in_effect ev_frame (of_kind k es) f = newest ?T"
    unfolding all by (rule in_effect_split) (use le gt in auto)
  then show ?thesis
    using at' l all le by (auto simp: kind_cursor_def word_le_nat_alt intro!: exI [of _ ?T])
qed

section \<open>The cursor over pad 1's lines\<close>

text \<open>
  Before the read at the head of the frames \<open>fs\<close>: the lines taken are behind, and each line ahead has
  the frame of a read to come, or lies after all of them.
\<close>

definition pad_cursor :: "nat \<Rightarrow> u32 list \<Rightarrow> pad_frame list \<Rightarrow> nat \<Rightarrow> bool" where
  "pad_cursor c fs ps i \<longleftrightarrow> i \<le> length ps \<and> (\<forall>p\<in>set (take i ps). unat (pf_frame p) \<le> c)
     \<and> (\<forall>p\<in>set (drop i ps). pf_frame p \<in> set fs \<or> (\<forall>f\<in>set fs. unat f < unat (pf_frame p)))"

definition pad_steps :: "pad_frame list \<Rightarrow> nat \<Rightarrow> u32 \<Rightarrow> nat" where
  "pad_steps ps i f = (if due ps i f then Suc i else i)"

lemma pad_cursor_read:
  assumes cur: "pad_cursor c (f # fs) ps i" and c: "c \<le> unat f" "\<And>g. g \<in> set fs \<Longrightarrow> unat f \<le> unat g"
    and ps: "sorted_wrt (<) (map (\<lambda>p. unat (pf_frame p)) ps)"
  shows "pad_cursor (unat f) fs ps (pad_steps ps i f)
    \<and> (if pad_steps ps i f = 0 then PAD_NEUTRAL else pf_st (ps ! (pad_steps ps i f - 1)))
        = val_pad (in_effect pf_frame ps f)"
proof -
  let ?i = "pad_steps ps i f"
  have i: "i \<le> length ps" and took: "\<And>p. p \<in> set (take i ps) \<Longrightarrow> unat (pf_frame p) \<le> c"
    and ahead: "\<And>p. p \<in> set (drop i ps) \<Longrightarrow> pf_frame p \<in> set (f # fs) \<or> (\<forall>g\<in>set (f # fs). unat g < unat (pf_frame p))"
    using cur unfolding pad_cursor_def by blast+
  have ge: "unat f \<le> unat (pf_frame p)" if "p \<in> set (drop i ps)" for p
    using ahead [OF that] c(2) by fastforce
  have gt: "unat f < unat (pf_frame p)" if "p \<in> set (drop ?i ps)" for p
  proof (cases "due ps i f")
    case True
    then have d: "drop i ps = ps ! i # drop (Suc i) ps" by (simp add: due_def Cons_nth_drop_Suc)
    have "sorted_wrt (<) (map (\<lambda>p. unat (pf_frame p)) (drop i ps))"
      using sorted_wrt_drop [OF ps, of i] by (simp add: drop_map)
    then have "unat (pf_frame (ps ! i)) < unat (pf_frame p)"
      using that True by (simp add: d pad_steps_def)
    then show ?thesis using ge [of "ps ! i"] d by simp
  next
    case False
    show ?thesis
    proof (cases "i < length ps")
      case True
      then have d: "drop i ps = ps ! i # drop (Suc i) ps" by (simp add: Cons_nth_drop_Suc)
      have "sorted_wrt (<) (map (\<lambda>p. unat (pf_frame p)) (drop i ps))"
        using sorted_wrt_drop [OF ps, of i] by (simp add: drop_map)
      then have "unat (pf_frame (ps ! i)) \<le> unat (pf_frame p)"
        using that False by (auto simp: d pad_steps_def)
      moreover have "unat f < unat (pf_frame (ps ! i))" using False True by (simp add: due_def word_le_nat_alt)
      ultimately show ?thesis by simp
    next
      case i: False
      then show ?thesis using that False by (simp add: pad_steps_def)
    qed
  qed
  have le: "unat (pf_frame p) \<le> unat f" if "p \<in> set (take ?i ps)" for p
    using that took c(1) by (fastforce simp: pad_steps_def due_def take_Suc_conv_app_nth word_le_nat_alt split: if_splits)
  have len: "?i \<le> length ps" using i by (simp add: pad_steps_def due_def)
  have sub: "p \<in> set (drop i ps)" if "p \<in> set (drop ?i ps)" for p
    using that set_drop_subset_set_drop [of i ?i ps] by (auto simp: pad_steps_def split: if_splits)
  have "pad_cursor (unat f) fs ps ?i"
    unfolding pad_cursor_def
  proof (intro conjI ballI)
    show "pf_frame p \<in> set fs \<or> (\<forall>g\<in>set fs. unat g < unat (pf_frame p))" if "p \<in> set (drop ?i ps)" for p
      using ahead [OF sub [OF that]] gt [OF that] by auto
  qed (use len le in auto)
  moreover have "in_effect pf_frame ps f = newest (take ?i ps)"
    using in_effect_split [of "take ?i ps" pf_frame f "drop ?i ps"] le gt by (simp add: word_le_nat_alt not_le)
  moreover have "newest (take ?i ps) = (if ?i = 0 then None else Some (ps ! (?i - 1)))"
    using len by (cases ps) (auto simp: newest_def last_conv_nth min_def)
  ultimately show ?thesis by simp
qed

section \<open>A replaying run\<close>

text \<open>The safe point of a replaying run asks for the events of its kind.\<close>

fun si_again :: "si_host \<Rightarrow> si_step \<Rightarrow> si \<Rightarrow> si_seen \<times> si" where
  "si_again h (Applied f ev) s = (case event_take h (kind_name (event_kind ev)) f s of ((r, t), s1) \<Rightarrow>
     (if r = 1 then Event_seen t else Nothing_due, s1))"
| "si_again h x s = si_do h x s"

fun si_rerun :: "si_host \<Rightarrow> si_step list \<Rightarrow> si \<Rightarrow> si_seen list \<times> si" where
  "si_rerun h [] s = ([], s)"
| "si_rerun h (x # xs) s = (case si_again h x s of (o1, s1) \<Rightarrow> case si_rerun h xs s1 of (os, s2) \<Rightarrow> (o1 # os, s2))"

text \<open>The same call at the same frame, whatever the window and the second pad give now.\<close>

fun same_step :: "si_step \<Rightarrow> si_step \<Rightarrow> bool" where
  "same_step (Read io) (Read io') = (in_frame io = in_frame io' \<and> in_filter io = in_filter io')"
| "same_step (Read2 io) (Read2 io') = (in_frame io = in_frame io')"
| "same_step (Applied f ev) (Applied f' ev') = (f = f' \<and> ev = ev')"
| "same_step _ _ = False"

definition replay_base :: "si \<Rightarrow> bool" where
  "replay_base s \<longleftrightarrow> g_play_tried s \<and> g_replaying s \<and> g_rec s = None \<and> Exit11 \<notin> set (si_out s)"

definition events_inv :: "nat \<Rightarrow> si_step list \<Rightarrow> si \<Rightarrow> bool" where
  "events_inv c zs s \<longleftrightarrow> frames_rise (g_ev s)
     \<and> kind_cursor c EV_HOST (g_ev s) (g_ev_at s EV_HOST) (g_ev_next s EV_HOST)
     \<and> kind_cursor c EV_PAD2 (g_ev s) (g_ev_at s EV_PAD2) (g_ev_next s EV_PAD2)
     \<and> (\<forall>k. k \<noteq> EV_HOST \<and> k \<noteq> EV_PAD2 \<longrightarrow> stands k (g_ev s) (g_ev_next s k)
          \<and> of_kind k (drop (g_ev_next s k) (g_ev s)) = applied k zs)
     \<and> (\<forall>f. g_host_frame s = Some f \<longrightarrow> g_host s = val_host (in_effect ev_frame (of_kind EV_HOST (g_ev s)) f))"

definition again_inv :: "item list \<Rightarrow> nat \<Rightarrow> si_step list \<Rightarrow> si \<Rightarrow> bool" where
  "again_inv its c zs s \<longleftrightarrow> replay_base s \<and> g_play s = pads_of its \<and> g_ev s = events_of its
     \<and> pad_cursor c (reads zs) (g_play s) (g_play_i s) \<and> events_inv c zs s"

lemma pad_replay_again:
  assumes "replay_base s"
  obtains t where "pad_replay h r f s = (Some (if pad_steps (g_play s) (g_play_i s) f = 0 then PAD_NEUTRAL
      else pf_st (g_play s ! (pad_steps (g_play s) (g_play_i s) f - 1))), t)"
    "g_play_i t = pad_steps (g_play s) (g_play_i s) f" "replay_base t" "g_play t = g_play s" "g_ev t = g_ev s"
    "g_ev_at t = g_ev_at s" "g_ev_next t = g_ev_next s" "g_host_frame t = g_host_frame s" "g_host t = g_host s"
    "g_rec_tried t = g_rec_tried s"
  using assms
  by (auto simp: replay_base_def pad_replay_def pad_steps_def pad_replay_drift_def pad_replay_end_def call_out_def Let_def
      intro!: that)

lemma kind_cursor_mono: "kind_cursor c k es at nxt \<Longrightarrow> c \<le> d \<Longrightarrow> kind_cursor d k es at nxt"
  by (force simp: kind_cursor_def)

lemma pad_cursor_mono: "pad_cursor c fs ps i \<Longrightarrow> c \<le> d \<Longrightarrow> pad_cursor d fs ps i"
  by (force simp: pad_cursor_def)

text \<open>An event's line in effect at a frame, through the cursor of its kind.\<close>

lemma event_at_again:
  assumes "kind_cursor c k (g_ev s) (g_ev_at s k) (g_ev_next s k)" "c \<le> unat f" "frames_rise (g_ev s)"
  obtains at nxt where "event_at k f s = (at, s\<lparr>g_ev_at := (g_ev_at s)(k := at), g_ev_next := (g_ev_next s)(k := nxt)\<rparr>)"
    "map_option (\<lambda>j. g_ev s ! j) at = in_effect ev_frame (of_kind k (g_ev s)) f"
    "kind_cursor (unat f) k (g_ev s) at nxt"
proof -
  obtain at nxt where l: "event_at_loop (g_ev s) k f (g_ev_at s k) (g_ev_next s k) = (at, nxt)" by fastforce
  show ?thesis
    using event_at_in_effect [OF assms l] by (intro that [of at nxt]) (simp_all add: event_at_def l)
qed

lemma opened_again:
  assumes "replay_base s" "env_text h ''SOA_PAD_RECORD'' = []"
  obtains last where "opened h s = s\<lparr>g_rec_tried := True, g_rec_last := last\<rparr>"
proof (cases "g_rec_tried s")
  case True
  then have "opened h s = s\<lparr>g_rec_tried := True, g_rec_last := g_rec_last s\<rparr>"
    using assms(1) by (simp add: opened_def replay_base_def)
  then show ?thesis by (rule that)
next
  case False
  then have "opened h s = s\<lparr>g_rec_tried := True, g_rec_last := PAD_NEUTRAL\<rparr>"
    using assms by (simp add: opened_def replay_base_def pad_record_open_def)
  then show ?thesis by (rule that)
qed

lemma host_again:
  assumes base: "replay_base s" and ev: "events_inv c zs s" and c: "c \<le> unat (in_frame io)"
  obtains t where "host_update h io s = t" "g_host t = val_host (in_effect ev_frame (of_kind EV_HOST (g_ev s)) (in_frame io))"
    "replay_base t" "events_inv (unat (in_frame io)) zs t" "g_play t = g_play s" "g_play_i t = g_play_i s"
    "g_ev t = g_ev s" "g_rec_tried t = g_rec_tried s"
proof (cases "g_host_frame s = Some (in_frame io)")
  case True
  then have "host_update h io s = s" by (simp add: host_update_def)
  moreover have "events_inv (unat (in_frame io)) zs s"
  proof -
    have "kind_cursor c EV_HOST (g_ev s) (g_ev_at s EV_HOST) (g_ev_next s EV_HOST)"
      "kind_cursor c EV_PAD2 (g_ev s) (g_ev_at s EV_PAD2) (g_ev_next s EV_PAD2)"
      using ev unfolding events_inv_def by blast+
    note this [THEN kind_cursor_mono, OF c]
    then show ?thesis using ev unfolding events_inv_def by blast
  qed
  moreover have "g_host s = val_host (in_effect ev_frame (of_kind EV_HOST (g_ev s)) (in_frame io))"
    using ev True unfolding events_inv_def by blast
  ultimately show ?thesis using that base by blast
next
  case False
  let ?f = "in_frame io"
  let ?s = "s\<lparr>g_host_frame := Some ?f, g_host_prev := g_host s\<rparr>"
  have cur: "kind_cursor c EV_HOST (g_ev ?s) (g_ev_at ?s EV_HOST) (g_ev_next ?s EV_HOST)"
    and rise: "frames_rise (g_ev ?s)" using ev by (simp_all add: events_inv_def)
  obtain at nxt where at: "event_at EV_HOST ?f ?s
      = (at, ?s\<lparr>g_ev_at := (g_ev_at ?s)(EV_HOST := at), g_ev_next := (g_ev_next ?s)(EV_HOST := nxt)\<rparr>)"
      "map_option (\<lambda>j. g_ev ?s ! j) at = in_effect ev_frame (of_kind EV_HOST (g_ev ?s)) ?f"
      "kind_cursor (unat ?f) EV_HOST (g_ev ?s) at nxt"
    by (rule event_at_again [OF cur c rise])
  define v where "v = val_host (in_effect ev_frame (of_kind EV_HOST (g_ev s)) ?f)"
  define t where "t = ?s\<lparr>g_ev_at := (g_ev_at s)(EV_HOST := at), g_ev_next := (g_ev_next s)(EV_HOST := nxt), g_host := v\<rparr>"
  have v: "v = val_host (map_option (\<lambda>j. g_ev s ! j) at)" using at(2) by (simp add: v_def)
  have "host_taken h io ?s = (v, ?s\<lparr>g_ev_at := (g_ev_at s)(EV_HOST := at), g_ev_next := (g_ev_next s)(EV_HOST := nxt)\<rparr>)"
    using at(1) v base by (cases at) (simp_all add: host_taken_def replay_base_def)
  then have "host_update h io s = t"
    using False base by (simp add: host_update_def host_record_def t_def replay_base_def Let_def)
  moreover have "events_inv (unat ?f) zs t"
    using ev at(3) c kind_cursor_mono [of c EV_PAD2 "g_ev s" "g_ev_at s EV_PAD2" "g_ev_next s EV_PAD2" "unat ?f"]
    by (simp add: events_inv_def t_def v_def)
  ultimately show ?thesis using that base by (simp add: t_def replay_base_def v_def)
qed

text \<open>What each step of the replaying run sees.\<close>

definition pad_told :: "item list \<Rightarrow> u32 \<Rightarrow> pad" where
  "pad_told its f = val_pad (in_effect pf_frame (pads_of its) f)"

definition host_told :: "item list \<Rightarrow> u32 \<Rightarrow> u32" where
  "host_told its f = val_host (in_effect ev_frame (of_kind EV_HOST (events_of its)) f)"

definition pad2_told :: "item list \<Rightarrow> u32 \<Rightarrow> bool \<times> pad" where
  "pad2_told its f = val_p2 (in_effect ev_frame (of_kind EV_PAD2 (events_of its)) f)"

fun told :: "item list \<Rightarrow> si_step \<Rightarrow> si_seen" where
  "told its (Read io) = Bytes (report_bytes (filtered io (pad_told its (in_frame io)))) (host_told its (in_frame io))"
| "told its (Read2 io) = (case pad2_told its (in_frame io) of (there, st) \<Rightarrow> Second there st)"
| "told its (Applied f ev) = Event_seen (event_text ev)"

lemma again_read:
  assumes inv: "again_inv its c (Read io # zs) s" and c: "c \<le> unat (in_frame io)"
    and zs: "\<And>g. g \<in> set (reads zs) \<Longrightarrow> unat (in_frame io) \<le> unat g"
    and ps: "sorted_wrt (<) (map (\<lambda>p. unat (pf_frame p)) (pads_of its))"
    and nr: "env_text h ''SOA_PAD_RECORD'' = []"
  obtains t where "si_again h (Read io) s = (told its (Read io), t)" "again_inv its (unat (in_frame io)) zs t"
proof -
  let ?f = "in_frame io"
  have i: "replay_base s" "g_play s = pads_of its" "g_ev s = events_of its"
    "pad_cursor c (?f # reads zs) (g_play s) (g_play_i s)" "events_inv c (Read io # zs) s"
    using inv by (auto simp: again_inv_def)
  obtain lst where o: "opened h s = s\<lparr>g_rec_tried := True, g_rec_last := lst\<rparr>" by (rule opened_again [OF i(1) nr])
  let ?s = "s\<lparr>g_rec_tried := True, g_rec_last := lst\<rparr>"
  have b: "replay_base ?s" using i(1) by (simp add: replay_base_def)
  let ?k = "pad_steps (g_play ?s) (g_play_i ?s) ?f"
  obtain t where t: "pad_replay h (in_retrace io) ?f ?s
      = (Some (if ?k = 0 then PAD_NEUTRAL else pf_st (g_play ?s ! (?k - 1))), t)" "g_play_i t = ?k" "replay_base t"
    "g_play t = g_play ?s" "g_ev t = g_ev ?s" "g_ev_at t = g_ev_at ?s" "g_ev_next t = g_ev_next ?s"
    "g_host_frame t = g_host_frame ?s" "g_host t = g_host ?s" "g_rec_tried t = g_rec_tried ?s"
    by (rule pad_replay_again [OF b])
  note p = pad_cursor_read [OF i(4) c zs, unfolded i(2), OF _ ps]
  have st: "(if ?k = 0 then PAD_NEUTRAL else pf_st (g_play ?s ! (?k - 1))) = pad_told its ?f"
    using p [THEN conjunct2] i(2) by (simp only: pad_told_def si.select_convs si.update_convs) (simp split: if_splits)
  define t1 where "t1 = t\<lparr>pad_latch := Some (?f, pad_told its ?f)\<rparr>"
  have rd: "pad_read h io ?s = (pad_told its ?f, t1)"
    using t(1) st i(1) by (simp add: pad_read_def pad_sample_def replay_base_def t1_def)
  have b1: "replay_base t1" using t(3) by (simp add: t1_def replay_base_def)
  have e1: "events_inv c zs t1" using i(5) t by (simp add: events_inv_def t1_def)
  obtain t2 where u: "host_update h io t1 = t2"
    "g_host t2 = val_host (in_effect ev_frame (of_kind EV_HOST (g_ev t1)) ?f)" "replay_base t2"
    "events_inv (unat ?f) zs t2" "g_play t2 = g_play t1" "g_play_i t2 = g_play_i t1" "g_ev t2 = g_ev t1"
    "g_rec_tried t2 = g_rec_tried t1"
    by (rule host_again [OF b1 e1 c])
  let ?t = "t2\<lparr>g_pad_frame := ?f, g_pad_seen := True\<rparr>"
  have ev: "g_ev t1 = events_of its" "g_play t1 = pads_of its" "g_play_i t1 = ?k" using t i by (simp_all add: t1_def)
  have h: "g_host t2 = host_told its ?f" using u(2) ev by (simp add: host_told_def)
  have "si_again h (Read io) s = (told its (Read io), ?t)"
    using u(1,3) h by (simp add: pad_report_def o rd replay_base_def Let_def)
  moreover have "pad_cursor (unat ?f) (reads zs) (g_play ?t) (g_play_i ?t)" using p ev u i(2) by simp
  then have "again_inv its (unat ?f) zs ?t"
    using u ev by (simp add: again_inv_def replay_base_def events_inv_def)
  ultimately show ?thesis by (rule that)
qed

lemma again_read2:
  assumes inv: "again_inv its c (Read2 io # zs) s" and c: "c \<le> unat (in_frame io)"
    and nr: "env_text h ''SOA_PAD_RECORD'' = []"
  obtains t where "si_again h (Read2 io) s = (told its (Read2 io), t)" "again_inv its (unat (in_frame io)) zs t"
proof -
  let ?f = "in_frame io"
  have i: "replay_base s" "g_play s = pads_of its" "g_ev s = events_of its"
    "pad_cursor c (reads zs) (g_play s) (g_play_i s)" "events_inv c zs s"
    using inv by (auto simp: again_inv_def events_inv_def)
  obtain lst where o: "opened h s = s\<lparr>g_rec_tried := True, g_rec_last := lst\<rparr>" by (rule opened_again [OF i(1) nr])
  let ?s = "s\<lparr>g_rec_tried := True, g_rec_last := lst\<rparr>"
  have cur: "kind_cursor c EV_PAD2 (g_ev ?s) (g_ev_at ?s EV_PAD2) (g_ev_next ?s EV_PAD2)"
    "kind_cursor c EV_HOST (g_ev s) (g_ev_at s EV_HOST) (g_ev_next s EV_HOST)"
    and rise: "frames_rise (g_ev ?s)" using i(5) by (simp_all add: events_inv_def)
  obtain at nxt where at: "event_at EV_PAD2 ?f ?s
      = (at, ?s\<lparr>g_ev_at := (g_ev_at ?s)(EV_PAD2 := at), g_ev_next := (g_ev_next ?s)(EV_PAD2 := nxt)\<rparr>)"
      "map_option (\<lambda>j. g_ev ?s ! j) at = in_effect ev_frame (of_kind EV_PAD2 (g_ev ?s)) ?f"
      "kind_cursor (unat ?f) EV_PAD2 (g_ev ?s) at nxt"
    by (rule event_at_again [OF cur(1) c rise])
  let ?t = "?s\<lparr>g_ev_at := (g_ev_at s)(EV_PAD2 := at), g_ev_next := (g_ev_next s)(EV_PAD2 := nxt)\<rparr>"
  have v: "val_p2 (map_option (\<lambda>j. g_ev s ! j) at) = pad2_told its ?f"
    using at(2) i(3) by (simp add: pad2_told_def)
  have "si_again h (Read2 io) s = (told its (Read2 io), ?t)"
    using at(1) i(1) v by (cases at) (auto simp: si_read_pad_def o replay_base_def Let_def split: prod.splits)
  moreover have "again_inv its (unat ?f) zs ?t"
    using i kind_cursor_mono [OF cur(2) c] pad_cursor_mono [OF i(4) c] at(3)
    by (simp add: again_inv_def events_inv_def replay_base_def)
  ultimately show ?thesis by (rule that)
qed

lemma again_applied:
  assumes inv: "again_inv its c (Applied f ev # zs) s" and c: "c \<le> unat f"
    and k: "event_kind ev \<noteq> EV_PAD2" "event_kind ev \<noteq> EV_HOST"
  obtains t where "si_again h (Applied f ev) s = (told its (Applied f ev), t)" "again_inv its (unat f) zs t"
proof -
  let ?k = "event_kind ev" and ?es = "g_ev s" and ?j = "g_ev_next s (event_kind ev)"
  have i: "replay_base s" "g_play s = pads_of its" "g_ev s = events_of its"
    "pad_cursor c (reads zs) (g_play s) (g_play_i s)" "frames_rise ?es"
    "kind_cursor c EV_HOST ?es (g_ev_at s EV_HOST) (g_ev_next s EV_HOST)"
    "kind_cursor c EV_PAD2 ?es (g_ev_at s EV_PAD2) (g_ev_next s EV_PAD2)"
    and others: "\<And>k. k \<noteq> EV_HOST \<Longrightarrow> k \<noteq> EV_PAD2 \<Longrightarrow> stands k ?es (g_ev_next s k)
      \<and> of_kind k (drop (g_ev_next s k) ?es) = applied k (Applied f ev # zs)"
    and host: "\<forall>g. g_host_frame s = Some g \<longrightarrow> g_host s = val_host (in_effect ev_frame (of_kind EV_HOST ?es) g)"
    using inv unfolding again_inv_def events_inv_def by auto
  have st: "stands ?k ?es ?j" "of_kind ?k (drop ?j ?es) = kept_event f ev # applied ?k zs"
    using others [OF k(2,1)] by simp_all
  have j: "?j < length ?es" "?es ! ?j = kept_event f ev" "of_kind ?k (drop (Suc ?j) ?es) = applied ?k zs"
    using st(2) unfolding stands_head [OF st(1)] by (simp_all split: if_splits)
  let ?t = "s\<lparr>g_ev_next := (g_ev_next s)(?k := next_of ?k ?es (Suc ?j))\<rparr>"
  have "ev_text (kept_event f ev) = event_text ev" using k by (cases ev) (simp_all add: kept_event_def)
  then have "si_again h (Applied f ev) s = (told its (Applied f ev), ?t)"
    using i(1) j k kind_name_word(2) [of ?k] by (simp add: event_take_def replay_base_def kept_event_def Let_def)
  moreover have "stands ?k ?es (next_of ?k ?es (Suc ?j))"
    "of_kind ?k (drop (next_of ?k ?es (Suc ?j)) ?es) = applied ?k zs"
    using next_of_ahead [of ?k ?es "Suc ?j"] j(3) by simp_all
  then have "events_inv (unat f) zs ?t"
    using i(5) i(6,7) [THEN kind_cursor_mono, OF c] others host k by (auto simp: events_inv_def)
  then have "again_inv its (unat f) zs ?t"
    using i(1,2,3) pad_cursor_mono [OF i(4) c] by (simp add: again_inv_def replay_base_def)
  ultimately show ?thesis by (rule that)
qed

lemma ordered_reads: "ordered c zs \<Longrightarrow> f \<in> set (reads zs) \<Longrightarrow> c \<le> unat f"
  by (induction zs arbitrary: c rule: reads.induct) (auto intro: order_trans)

fun events_apart :: "si_step \<Rightarrow> bool" where
  "events_apart (Applied f ev) = (event_kind ev \<noteq> EV_PAD2 \<and> event_kind ev \<noteq> EV_HOST)"
| "events_apart _ = True"

lemma again_run:
  assumes "again_inv its c zs s" "ordered c zs" "list_all events_apart zs"
    and ps: "sorted_wrt (<) (map (\<lambda>p. unat (pf_frame p)) (pads_of its))"
    and nr: "env_text h ''SOA_PAD_RECORD'' = []"
  shows "\<exists>t. si_rerun h zs s = (map (told its) zs, t) \<and> Exit11 \<notin> set (si_out t)"
  using assms(1-3)
proof (induction zs arbitrary: c s)
  case Nil
  then show ?case by (simp add: again_inv_def replay_base_def)
next
  case (Cons z zs)
  have o: "c \<le> step_frame z" "ordered (step_frame z) zs" "events_apart z" "list_all events_apart zs"
    using Cons.prems(2,3) by simp_all
  obtain t where t: "si_again h z s = (told its z, t)" "again_inv its (step_frame z) zs t"
  proof (cases z)
    case (Read io)
    have zs: "\<And>g. g \<in> set (reads zs) \<Longrightarrow> unat (in_frame io) \<le> unat g" using o(2) ordered_reads Read by simp
    show ?thesis
      using again_read [OF Cons.prems(1) [unfolded Read] _ zs ps nr] o(1) Read that by (metis step_frame.simps(1))
  next
    case (Read2 io)
    then show ?thesis
      using again_read2 [OF Cons.prems(1) [unfolded Read2] _ nr] o(1) Read2 that by (metis step_frame.simps(2))
  next
    case (Applied f ev)
    then show ?thesis
      using again_applied [OF Cons.prems(1) [unfolded Applied]] o(1,3) Applied that
      by (metis step_frame.simps(3) events_apart.simps(1))
  qed
  show ?case using Cons.IH [OF t(2) o(2,4)] t(1) by auto
qed

section \<open>Loading the recording\<close>

lemma events_rise: "rising c its \<Longrightarrow> frames_rise (events_of its) \<and> (\<forall>e\<in>set (events_of its). c \<le> unat (ev_frame e))"
proof (induction its arbitrary: c)
  case (Cons it its)
  then show ?case
    by (cases it) (fastforce simp: frames_rise_def events_of_def kept_event_def)+
qed (simp add: frames_rise_def)

text \<open>A replay of a recording: a host whose \<open>SOA_PAD_FILE\<close> is the text, and who records nothing.\<close>

definition replays :: "si_host \<Rightarrow> string \<Rightarrow> string \<Rightarrow> bool" where
  "replays h cfg t \<longleftrightarrow> env_text h ''SOA_PAD_FILE'' \<noteq> [] \<and> files h (env_text h ''SOA_PAD_FILE'') = Some t
     \<and> env_text h ''SOA_PAD_RECORD'' = [] \<and> (pad_config h = cfg \<or> \<not> pad_strict h)"

lemma kept_neutral: "val_pad (newest ps) = PAD_NEUTRAL \<Longrightarrow> with_release ps = ps"
  by (simp add: with_release_def newest_def pad_same_eq split: if_splits)

lemma next_stands: "stands k es (next_of k es 0)" "of_kind k (drop (next_of k es 0) es) = of_kind k es"
  using next_of_ahead [of k es 0] by simp_all

lemma replay_loaded:
  assumes cfg: "plain_config cfg" and h: "replays h cfg (rec_text cfg its)" and its: "recorded xs P H S its"
    and on: "g_replaying (pad_replay_load h si_init)"
  shows "again_inv its 0 xs (pad_replay_load h si_init)"
proof -
  have r: "list_all item_ok its" "rising 0 its" "val_pad (newest (pads_of its)) = PAD_NEUTRAL"
    "\<And>p. p \<in> set (pads_of its) \<Longrightarrow> pf_frame p \<in> set (reads xs) \<or> (\<forall>f\<in>set (reads xs). unat f < unat (pf_frame p))"
    "\<And>k. k \<noteq> EV_HOST \<Longrightarrow> k \<noteq> EV_PAD2 \<Longrightarrow> of_kind k (events_of its) = applied k xs"
    using its unfolding recorded_def kind_of_items_def of_kind_def by blast+
  let ?l = "fold load_line (fgets_lines (rec_text cfg its)) \<lparr>ld_was = [], ld_play = [], ld_ev = [], ld_latest = (\<lambda>_. None)\<rparr>"
  have l: "ld_play ?l = pads_of its" "ld_ev ?l = events_of its" "ld_was ?l = cfg"
    using recording_loads [OF cfg r(1,2), of "\<lparr>ld_was = [], ld_play = [], ld_ev = [], ld_latest = (\<lambda>_. None)\<rparr>"]
    by (simp_all add: rec_text_def)
  let ?t = "si_init\<lparr>g_play_tried := True, g_replaying := True, g_ev := events_of its, g_ev_at := (\<lambda>_. None),
      g_ev_next := (\<lambda>k. next_of k (events_of its) 0), g_play := pads_of its,
      g_play_last := last_frame (pads_of its) (events_of its)\<rparr>"
  have i: "g_play si_init = []" "g_ev si_init = []" "\<not> g_replaying si_init" "si_out si_init = []"
    "g_play_i si_init = 0" "g_host_frame si_init = None" "g_rec si_init = None"
    by (simp_all add: si_init_def)
  have "pad_replay_load h si_init = (if pads_of its = [] \<and> events_of its = [] then si_init\<lparr>g_play_tried := True\<rparr> else ?t)"
    using h l i kept_neutral [OF r(3)] by (auto simp: pad_replay_load_def replays_def Let_def)
  then have load: "pad_replay_load h si_init = ?t" using on i(3) by (auto split: if_splits)
  have cur: "kind_cursor 0 k (events_of its) None (next_of k (events_of its) 0)" for k
    using next_stands [of k "events_of its"] by (auto simp: kind_cursor_def intro: exI [of _ "[]"])
  have "events_inv 0 xs ?t"
    using cur events_rise [OF r(2)] next_stands [of _ "events_of its"] r(5) i(6) by (simp add: events_inv_def)
  moreover have "pad_cursor 0 (reads xs) (pads_of its) 0" using r(4) by (simp add: pad_cursor_def)
  ultimately show ?thesis
    using i by (simp add: again_inv_def replay_base_def load)
qed

lemma load_then_open:
  assumes "env_text h ''SOA_PAD_RECORD'' = []"
  shows "opened h si_init = opened h (pad_replay_load h si_init)"
proof -
  have "\<not> g_rec_tried si_init" "\<not> g_play_tried si_init" by (simp_all add: si_init_def)
  moreover have "g_play_tried (pad_replay_load h s)" "g_rec_tried (pad_replay_load h s) = g_rec_tried s" for s
    by (auto simp: pad_replay_load_def call_out_def Let_def split: option.splits)
  moreover have "pad_replay_load h (s\<lparr>g_rec_tried := True, g_rec_last := PAD_NEUTRAL\<rparr>)
      = (pad_replay_load h s)\<lparr>g_rec_tried := True, g_rec_last := PAD_NEUTRAL\<rparr>" for s
    by (auto simp: pad_replay_load_def call_out_def Let_def split: option.splits)
  ultimately show ?thesis using assms by (simp add: opened_def pad_record_open_def)
qed

lemma rerun_from_init:
  assumes "env_text h ''SOA_PAD_RECORD'' = []" "zs \<noteq> []"
  shows "si_rerun h zs si_init = si_rerun h zs (pad_replay_load h si_init)"
proof -
  have t: "g_play_tried (pad_replay_load h s)" for s
    by (auto simp: pad_replay_load_def call_out_def Let_def split: option.splits)
  have "\<not> g_play_tried si_init" by (simp add: si_init_def)
  then have "si_again h z si_init = si_again h z (pad_replay_load h si_init)" for z
    using load_then_open [OF assms(1)] t by (cases z) (simp_all add: pad_report_def si_read_pad_def event_take_def)
  then show ?thesis using assms(2) by (cases zs) simp_all
qed

lemma same_steps:
  assumes "list_all2 same_step xs ys"
  shows "reads ys = reads xs" "applied k ys = applied k xs" "ordered c xs \<Longrightarrow> ordered c ys"
    "list_all step_ok xs \<Longrightarrow> list_all events_apart ys"
  using assms
proof (induction arbitrary: c rule: list_all2_induct)
  case (Cons x xs y ys)
  { case 1 show ?case using Cons by (cases x; cases y) auto }
  { case 2 show ?case using Cons by (cases x; cases y) auto }
  { case 3 then show ?case using Cons by (cases x; cases y) auto }
  { case 4 then show ?case using Cons by (cases x; cases y) auto }
qed simp_all

lemma seen_told:
  assumes "seen_in P H S x out" "says its P H S" "same_step x y"
  shows "out = told its y"
proof -
  have s: "(f, p) \<in> P \<Longrightarrow> p = pad_told its f" "(f, v) \<in> H \<Longrightarrow> v = host_told its f" "(f, w) \<in> S \<Longrightarrow> w = pad2_told its f"
    for f p v w
    using assms(2) unfolding says_def pad_told_def host_told_def pad2_told_def kind_of_items_def of_kind_def by blast+
  show ?thesis
  proof (cases x)
    case (Read io)
    then obtain io' bs v where y: "y = Read io'" "out = Bytes bs v" using assms(1,3) by (cases y; cases out) auto
    then show ?thesis using assms(1,3) s(1,2) Read by (auto simp: filtered_def)
  next
    case (Read2 io)
    then obtain io' there st where y: "y = Read2 io'" "out = Second there st" using assms(1,3) by (cases y; cases out) auto
    then show ?thesis using assms(1,3) s(3) [of "in_frame io" "(there, st)"] Read2 by (auto split: prod.splits)
  next
    case (Applied f ev)
    then show ?thesis using assms(1,3) by (cases y; cases out) auto
  qed
qed

text \<open>What a step sees with nothing held and nothing applied.\<close>

fun idle :: "si_step \<Rightarrow> si_seen" where
  "idle (Read io) = Bytes (report_bytes (filtered io PAD_NEUTRAL)) 0"
| "idle (Read2 io) = Second False PAD_NEUTRAL"
| "idle (Applied f ev) = Nothing_due"

lemma told_nothing: "pads_of its = [] \<Longrightarrow> events_of its = [] \<Longrightarrow> (\<forall>f ev. x \<noteq> Applied f ev) \<Longrightarrow> told its x = idle x"
  by (cases x) (simp_all add: pad_told_def host_told_def pad2_told_def in_effect_def)

lemma applied_none: "(\<And>k. k \<noteq> EV_HOST \<Longrightarrow> k \<noteq> EV_PAD2 \<Longrightarrow> applied k xs = []) \<Longrightarrow> list_all step_ok xs \<Longrightarrow>
    x \<in> set xs \<Longrightarrow> x \<noteq> Applied f ev"
proof (induction xs)
  case (Cons y ys)
  show ?case
  proof (cases y)
    case (Applied g e)
    then have "event_kind e \<noteq> EV_PAD2" "event_kind e \<noteq> EV_HOST" using Cons.prems(2) by simp_all
    then have "applied (event_kind e) (y # ys) = []" using Cons.prems(1) by blast
    then show ?thesis using Applied by simp
  qed (use Cons in auto)
qed simp

lemma recording_replays:
  assumes "plain_config cfg" "replays h cfg (rec_text cfg its)" "recorded xs P H S its" "list_all step_ok xs"
    and seen: "list_all2 (seen_in P H S) xs os" and busy: "os \<noteq> map idle xs"
  shows "g_replaying (pad_replay_load h si_init)"
proof (rule ccontr)
  assume off: "\<not> g_replaying (pad_replay_load h si_init)"
  have r: "list_all item_ok its" "rising 0 its" "says its P H S"
    "\<And>k. k \<noteq> EV_HOST \<Longrightarrow> k \<noteq> EV_PAD2 \<Longrightarrow> of_kind k (events_of its) = applied k xs"
    using assms(3) unfolding recorded_def kind_of_items_def of_kind_def by blast+
  let ?l = "fold load_line (fgets_lines (rec_text cfg its)) \<lparr>ld_was = [], ld_play = [], ld_ev = [], ld_latest = (\<lambda>_. None)\<rparr>"
  have l: "ld_play ?l = pads_of its" "ld_ev ?l = events_of its" "ld_was ?l = cfg"
    using recording_loads [OF assms(1) r(1,2), of "\<lparr>ld_was = [], ld_play = [], ld_ev = [], ld_latest = (\<lambda>_. None)\<rparr>"]
    by (simp_all add: rec_text_def)
  have "g_play si_init = []" "g_ev si_init = []" by (simp_all add: si_init_def)
  then have none: "pads_of its = []" "events_of its = []"
    using off l assms(2) by (auto simp: pad_replay_load_def replays_def Let_def split: if_splits)
  then have apart: "x \<noteq> Applied f ev" if "x \<in> set xs" for x f ev
    using applied_none [OF _ assms(4) that] r(4) by simp
  have refl: "same_step x x" for x by (cases x) simp_all
  have "os = map (told its) xs"
    using seen by (induction rule: list_all2_induct) (use seen_told [OF _ r(3) refl] in auto)
  also have "\<dots> = map idle xs" using told_nothing [OF none] apart by simp
  finally show False using busy by simp
qed

text \<open>C3: a recording replays exactly. Take any run that records: reads of the controller port by the game, reads of
  port 2 by mods, events applied at the safe point, at frames that never go back, with any input
  from the window, the scripts, the second pad and the menu, through any mod's filter. Close it after
  a read of its last frame and give the file to a run that makes the same calls at the same frames.
  Whatever the window gives there, every call gets what it got: the same bytes, the same host
  buttons, the same second pad, the same events in their order; and no check refuses it.\<close>

theorem replay_reads_what_was_read:
  assumes h: "recordable h" "no_replay h" "plain_config (pad_config h)"
    and xs: "ordered 0 xs" "list_all step_ok xs" "xs = ys @ [Read io]" "unat (in_frame io) + 1 < 2 ^ 32"
    and run: "si_run h xs si_init = (os, s')" "os \<noteq> map idle xs"
    and h': "replays h' (pad_config h) (the (g_rec (si_close r s')))" and zs: "list_all2 same_step xs zs"
  shows "\<exists>t. si_rerun h' zs si_init = (os, t) \<and> Exit11 \<notin> set (si_out t)"
proof -
  obtain its P H S where rec: "g_rec (si_close r s') = Some (rec_text (pad_config h) its)"
    and seen: "list_all2 (seen_in P H S) xs os" and its: "recorded xs P H S its"
    by (rule recording [OF h(1,2) xs run(1)])
  have re: "replays h' (pad_config h) (rec_text (pad_config h) its)" using h' rec by simp
  have "again_inv its 0 xs (pad_replay_load h' si_init)"
    by (rule replay_loaded [OF h(3) re its recording_replays [OF h(3) re its xs(2) seen run(2)]])
  then have "again_inv its 0 zs (pad_replay_load h' si_init)"
    unfolding again_inv_def events_inv_def same_steps(1,2) [OF zs] .
  moreover have "sorted_wrt (<) (map (\<lambda>p. unat (pf_frame p)) (pads_of its))" "says its P H S"
    using its by (simp_all add: recorded_def)
  moreover have nr: "env_text h' ''SOA_PAD_RECORD'' = []" using re by (simp add: replays_def)
  ultimately obtain t where t: "si_rerun h' zs (pad_replay_load h' si_init) = (map (told its) zs, t)"
      "Exit11 \<notin> set (si_out t)"
    using again_run same_steps(3) [OF zs xs(1)] same_steps(4) [OF zs xs(2)] by blast
  have "zs \<noteq> []" using zs xs(3) by auto
  moreover have "os = map (told its) zs"
  proof (rule nth_equalityI)
    show "length os = length (map (told its) zs)" using seen zs by (simp add: list_all2_lengthD [symmetric])
    fix i
    assume "i < length os"
    then have "seen_in P H S (xs ! i) (os ! i)" "same_step (xs ! i) (zs ! i)" "i < length zs"
      using seen zs by (auto simp: list_all2_conv_all_nth)
    then show "os ! i = map (told its) zs ! i" using seen_told [OF _ \<open>says its P H S\<close>] by simp
  qed
  ultimately show ?thesis using t rerun_from_init [OF nr] by simp
qed

text \<open>A run that holds a button, turns turbo on and lets a mod read port 2, and its replay.\<close>

definition witness_read :: "u32 \<Rightarrow> pad option \<Rightarrow> si_in" where
  "witness_read f p = \<lparr>in_frame = f, in_retrace = 0, in_window = p, in_host = None, in_pad2 = p, in_menu = False,
     in_filter = id\<rparr>"

definition witness_run :: "si_step list" where
  "witness_run = [Applied 1 (Turbo True), Read (witness_read 2 (Some (PAD_NEUTRAL\<lparr>buttons := BTN_A\<rparr>))),
     Read2 (witness_read 2 None)] @ [Read (witness_read 7 None)]"

definition witness_host :: "string \<Rightarrow> string option \<Rightarrow> si_host" where
  "witness_host name file = \<lparr>getenv = (\<lambda>n. if n = name then Some ''pad.txt'' else None), files = (\<lambda>p. file),
     path_root = [], cfg_extra = []\<rparr>"

theorem replay_reads_what_was_read_witness:
  "(case si_run (witness_host ''SOA_PAD_RECORD'' None) witness_run si_init of (os, s) \<Rightarrow>
     \<exists>t. si_rerun (witness_host ''SOA_PAD_FILE'' (Some (the (g_rec (si_close 0 s))))) witness_run si_init = (os, t)
       \<and> Exit11 \<notin> set (si_out t))"
proof -
  let ?h = "witness_host ''SOA_PAD_RECORD'' None"
  obtain os s where run: "si_run ?h witness_run si_init = (os, s)" by fastforce
  have 1: "recordable ?h" "no_replay ?h"
    by (simp_all add: recordable_def no_replay_def env_text_def witness_host_def pad_record_create_def)
  have 2: "plain_config (pad_config ?h)"
    by (simp add: plain_config_def pad_config_def witness_host_def env_or_def env_text_def file_size_text_def
        pad_knobs_def force_word_def under_path_root_def text_ok_def nl_def nul_def Let_def)
  have 3: "ordered 0 witness_run" "list_all step_ok witness_run"
    by (simp_all add: witness_run_def witness_read_def)
  have 4: "unat (in_frame (witness_read 7 None)) + 1 < 2 ^ 32" by (simp add: witness_read_def)
  have 5: "os \<noteq> map idle witness_run"
    using run by (auto simp: witness_run_def split: prod.splits)
  have 6: "replays (witness_host ''SOA_PAD_FILE'' (Some (the (g_rec (si_close 0 s))))) (pad_config ?h)
      (the (g_rec (si_close 0 s)))"
    by (simp add: replays_def witness_host_def env_text_def pad_strict_def)
  have 7: "list_all2 same_step witness_run witness_run" by (simp add: witness_run_def)
  show ?thesis
    using replay_reads_what_was_read [OF 1 2 3 witness_run_def 4 run 5 6 7] by (simp add: run)
qed

text \<open>
  A file with no line is no replay: the report says that nothing will be pressed, but the window and
  the scripts still are the input, and a strict run does not compare the configuration.
\<close>

lemma empty_recording_not_replayed:
  assumes "plain_config cfg" "env_text h ''SOA_PAD_FILE'' \<noteq> []"
    "files h (env_text h ''SOA_PAD_FILE'') = Some (rec_text cfg [])"
  shows "pad_replay_load h si_init = si_init\<lparr>g_play_tried := True\<rparr>"
    "fst (pad_replay h r f (pad_replay_load h si_init)) = None"
proof -
  let ?l = "fold load_line (fgets_lines (rec_text cfg [])) \<lparr>ld_was = [], ld_play = [], ld_ev = [], ld_latest = (\<lambda>_. None)\<rparr>"
  have "ld_play ?l = []" "ld_ev ?l = []"
    using recording_loads [OF assms(1), of "[]" "\<lparr>ld_was = [], ld_play = [], ld_ev = [], ld_latest = (\<lambda>_. None)\<rparr>"]
    by (simp_all add: rec_text_def)
  then show l: "pad_replay_load h si_init = si_init\<lparr>g_play_tried := True\<rparr>"
    using assms(2,3) by (simp add: pad_replay_load_def si_init_def Let_def)
  show "fst (pad_replay h r f (pad_replay_load h si_init)) = None"
    by (simp add: l pad_replay_def) (simp add: si_init_def)
qed

end
