(* ===== verification/SaveNow.thy ===== *)
theory SaveNow
  imports ModClaims
begin

text \<open>
  runtime/savenow.c: the game's own save menu opened wherever the field is quiet, and a
  Continue from such a save landing where it was made. A save made off a save point carries
  the last save-point map in the block's map word and letter and its own map in a chunk; the
  load puts the chunk's map back where the block still holds the fallback. The event track of
  si.c (a recording being made or replayed) is the parameter \<open>tr\<close>, the renderer's frame count
  and the environment are arguments; the messages are left out, except the refusal the menu shows.
\<close>

section \<open>State\<close>

record savenow = mods +
  g_pending :: bool
  g_opened :: bool
  g_frame_set :: bool
  g_at_frame :: u32
  g_last_sp :: u32
  g_why :: string
  g_loaded_savenow :: bool

type_synonym 'm scpu = "'m savenow_scheme cpu"

text \<open>The event track: \<open>track_take\<close> answers 1 (an event due, taken), 0 (none due) or -1 (no replay).\<close>

record 's event_track =
  track_record :: "u32 \<Rightarrow> string \<Rightarrow> string \<Rightarrow> 's \<Rightarrow> 's"
  track_take :: "string \<Rightarrow> u32 \<Rightarrow> 's \<Rightarrow> int \<times> 's"
  track_replaying :: "'s \<Rightarrow> bool"
  track_left :: "u32 \<Rightarrow> string \<Rightarrow> string \<Rightarrow> 's \<Rightarrow> 's"

definition sn_upd :: "('m savenow_scheme \<Rightarrow> 'm savenow_scheme) \<Rightarrow> 'm scpu \<Rightarrow> 'm scpu" where
  "sn_upd f s = s\<lparr>user := f (user s)\<rparr>"

section \<open>Constants of the game's memory\<close>

definition SOA_SCENE :: u32 where "SOA_SCENE = 0x803475CC"
definition SOA_FIELD_STATE :: u32 where "SOA_FIELD_STATE = 0x80311AEC"
definition SOA_MAP_NUMBER :: u32 where "SOA_MAP_NUMBER = 0x80311AC0"
definition SOA_MAP_LETTER :: u32 where "SOA_MAP_LETTER = 0x80311AC8"
definition SOA_STORY_FLAGS :: u32 where "SOA_STORY_FLAGS = 0x80310B3C"
definition SOA_SYS15 :: u32 where "SOA_SYS15 = 0x8030E420"
definition SOA_SCRIPT_ENTRY_BUSY :: u32 where "SOA_SCRIPT_ENTRY_BUSY = 0x8030E714"
definition SOA_SAVE_VARIANT :: u32 where "SOA_SAVE_VARIANT = 0x803473B0"
definition SOA_SAVE_REQUEST :: u32 where "SOA_SAVE_REQUEST = 0x803473B4"

definition SCENE_FIELD :: u32 where "SCENE_FIELD = 6"
definition FIELD_RUNNING :: u32 where "FIELD_RUNNING = 8"
definition FLAG_EVENT :: nat where "FLAG_EVENT = 1087"
definition BLOCK_MAP :: u32 where "BLOCK_MAP = 5808"
definition BLOCK_LETTER :: u32 where "BLOCK_LETTER = 5812"
definition CHUNK_LEN :: nat where "CHUNK_LEN = 12"

definition k_save_point_maps :: "u32 list" where
  "k_save_point_maps =
    [0x261, 0x262, 0x263, 0x264, 0x265, 0x461, 0x561, 0x562, 0x861, 0x862, 0xA61, 0xD61, 0xD62,
     0xD64, 0xD65, 0x1161, 0x1162, 0x1165, 0x1166, 0x1168, 0x1169, 0x1261, 0x1262, 0x1361,
     0x1364, 0x1461, 0x1C61, 0x6562, 0x6761, 0x6763, 0x6A61, 0x6B61, 0x6D64, 0x6D67, 0x6F61,
     0x6F64, 0x7061, 0x7063, 0x7362, 0x7461, 0x7465, 0x7467, 0x7468, 0x7961, 0x7964, 0x7A61,
     0x7B62, 0x7D61, 0x7E61, 0x7E65, 0x8261, 0x8262, 0x8361, 0x8368, 0x1FE61, 0x20361, 0x20C61]"

section \<open>Asking for the menu\<close>

definition savenow_is_save_point :: "u32 \<Rightarrow> bool" where
  "savenow_is_save_point mp \<longleftrightarrow> list_ex (\<lambda>m. m = mp) k_save_point_maps"

definition current_map :: "'m savenow_scheme io \<Rightarrow> 'm scpu \<Rightarrow> u32 \<times> 'm scpu" where
  "current_map io s =
     (case mem_r32 io SOA_MAP_NUMBER s of (n, s1) \<Rightarrow>
      case mem_r8 io SOA_MAP_LETTER s1 of (l, s2) \<Rightarrow> (push_bit 8 n OR ucast l, s2))"

definition savenow_request :: "'m scpu event_track option \<Rightarrow> 'm scpu \<Rightarrow> 'm scpu" where
  "savenow_request tr s =
     (case tr of
        Some t \<Rightarrow> if track_replaying t s then s else sn_upd (g_pending_update (\<lambda>_. True)) s
      | None \<Rightarrow> sn_upd (g_pending_update (\<lambda>_. True)) s)"

definition savenow_refusal :: "'m scpu \<Rightarrow> string" where
  "savenow_refusal s = g_why (user s)"

definition savenow_opened :: "'m scpu \<Rightarrow> bool" where
  "savenow_opened s = g_opened (user s)"

text \<open>Why the field is not quiet, or None when it is; the world map passes too where \<open>world\<close>.\<close>

definition field_not_quiet :: "'m savenow_scheme io \<Rightarrow> bool \<Rightarrow> 'm scpu \<Rightarrow> string option \<times> 'm scpu" where
  "field_not_quiet io world s =
     (case mem_r32 io (SOA_STORY_FLAGS + of_nat (FLAG_EVENT div 32 * 4)) s of (flags, s1) \<Rightarrow>
      case mem_r32 io SOA_SCENE s1 of (scene, s2) \<Rightarrow>
      case mem_r32 io SOA_MAP_NUMBER s2 of (mp, s3) \<Rightarrow>
        if scene = 7 then (Some ''in a battle'', s3)
        else if scene \<noteq> SCENE_FIELD then (Some ''not on the field'', s3)
        else (case mem_r32 io SOA_FIELD_STATE s3 of (fs, s4) \<Rightarrow>
          if fs \<noteq> FIELD_RUNNING then (Some ''while the field loads'', s4)
          else if mp \<ge> 500 then (Some ''in a ship battle'', s4)
          else if mp = 99 \<and> \<not> world then (Some ''on the world map (not built)'', s4)
          else if drop_bit (FLAG_EVENT mod 32) flags AND 1 \<noteq> 0 then (Some ''during an event'', s4)
          else (case mem_r32 io SOA_SCRIPT_ENTRY_BUSY s4 of (busy, s5) \<Rightarrow>
            if busy = 1 then (Some ''during an event'', s5)
            else (case mem_r32 io SOA_SAVE_REQUEST s5 of (req, s6) \<Rightarrow>
              (if req = 1 then Some ''a save is open'' else None, s6)))))"

text \<open>The save menu asked for now: None, and recorded; or why not.\<close>

definition ask :: "'m savenow_scheme io \<Rightarrow> 'm scpu event_track option \<Rightarrow> u32 \<Rightarrow> 'm scpu \<Rightarrow> string option \<times> 'm scpu" where
  "ask io tr f s =
     (case field_not_quiet io False s of
        (Some why, s1) \<Rightarrow> (Some why, sn_upd (g_why_update (\<lambda>_. take 95 (''not now: '' @ why))) s1)
      | (None, s1) \<Rightarrow>
          let s2 = mem_w32 io SOA_SAVE_VARIANT 0 s1;
              s3 = mem_w32 io SOA_SAVE_REQUEST 1 s2;
              s4 = sn_upd (g_opened_update (\<lambda>_. True)) s3;
              s5 = snd (current_map io s4)
          in (None, case tr of Some t \<Rightarrow> track_record t f ''savenow'' [] s5 | None \<Rightarrow> s5))"

text \<open>
  The recording's own asks while they are due. How many a replay has queued is the track's
  affair, so the loop is \<open>partial_function\<close>: None is a track that never runs dry.
\<close>

partial_function (option) replay_asks ::
  "'m savenow_scheme io \<Rightarrow> 'm scpu event_track \<Rightarrow> u32 \<Rightarrow> int \<Rightarrow> 'm scpu \<Rightarrow> 'm scpu option" where
  "replay_asks io t f r s =
     (if r \<noteq> 1 then Some s
      else (case ask io (Some t) f s of (why, s1) \<Rightarrow>
        let s2 = (case why of None \<Rightarrow> s1 | Some w \<Rightarrow> track_left t f ''save now'' w s1)
        in case track_take t ''savenow'' f s2 of (r', s3) \<Rightarrow> replay_asks io t f r' s3))"

definition last_save_point :: "'m savenow_scheme io \<Rightarrow> 'm scpu \<Rightarrow> 'm scpu" where
  "last_save_point io s =
     (case mem_r32 io SOA_SCENE s of (scene, s1) \<Rightarrow>
        if scene \<noteq> SCENE_FIELD then s1
        else (case mem_r32 io SOA_FIELD_STATE s1 of (fs, s2) \<Rightarrow>
          if fs \<noteq> FIELD_RUNNING then s2
          else (case current_map io s2 of (mp, s3) \<Rightarrow>
            if savenow_is_save_point mp then sn_upd (g_last_sp_update (\<lambda>_. mp)) s3 else s3)))"

definition savenow_safe_point ::
  "'m savenow_scheme io \<Rightarrow> 'm scpu event_track option \<Rightarrow> u32 \<Rightarrow> 'm scpu \<Rightarrow> 'm scpu option" where
  "savenow_safe_point io tr f s =
     (let s1 = last_save_point io s
      in case (case tr of Some t \<Rightarrow> track_take t ''savenow'' f s1 | None \<Rightarrow> (-1, s1)) of (r, s2) \<Rightarrow>
        if r \<ge> 0 then
          (let s3 = sn_upd (\<lambda>d. d\<lparr>g_frame_set := False, g_pending := False\<rparr>) s2
           in case tr of Some t \<Rightarrow> replay_asks io t f r s3 | None \<Rightarrow> Some s3)
        else
          (let s3 = (if g_frame_set (user s2) \<and> f \<ge> g_at_frame (user s2)
                     then savenow_request tr (sn_upd (g_frame_set_update (\<lambda>_. False)) s2) else s2)
           in if g_pending (user s3)
              then Some (snd (ask io tr f (sn_upd (g_pending_update (\<lambda>_. False)) s3)))
              else Some s3))"

section \<open>The chunk\<close>

text \<open>For a save this port opened, the chunk, and off a save point the block's map word and
  letter set to the last save-point map.\<close>

definition savenow_snapshot ::
  "'m savenow_scheme io \<Rightarrow> u32 \<Rightarrow> nat \<Rightarrow> 'm scpu \<Rightarrow> u8 list option \<times> 'm scpu" where
  "savenow_snapshot io block cap s =
     (if \<not> g_opened (user s) \<or> cap < CHUNK_LEN then (None, s)
      else let s1 = sn_upd (g_opened_update (\<lambda>_. False)) s
        in case mem_r32 io (block + BLOCK_MAP) s1 of (number, s2) \<Rightarrow>
           case mem_r8 io (block + BLOCK_LETTER) s2 of (letter, s3) \<Rightarrow>
           let mp = push_bit 8 number OR ucast letter;
               fallback = (if \<not> savenow_is_save_point mp \<and> g_last_sp (user s3) \<noteq> 0
                           then g_last_sp (user s3) else 0);
               s4 = (if fallback \<noteq> 0 then
                       mem_w8 io (block + BLOCK_LETTER) (ucast fallback)
                         (mem_w32 io (block + BLOCK_MAP) (drop_bit 8 fallback) s3)
                     else s3)
           in (Some ([0x53, 0x4E, 0x31, 0] @ put32 mp @ put32 fallback), s4))"

text \<open>The load, before the game copies the block: the chunk's own map back where the block
  still holds its fallback.\<close>

definition savenow_load_pre ::
  "'m savenow_scheme io \<Rightarrow> bool \<Rightarrow> u32 \<Rightarrow> u8 list option \<Rightarrow> 'm scpu \<Rightarrow> 'm scpu" where
  "savenow_load_pre io no_restore block chunk s =
     (let s0 = sn_upd (g_loaded_savenow_update (\<lambda>_. False)) s
      in case chunk of None \<Rightarrow> s0
       | Some c \<Rightarrow>
          if length c < CHUNK_LEN \<or> take 4 c \<noteq> [0x53, 0x4E, 0x31, 0] then s0
          else let s1 = sn_upd (g_loaded_savenow_update (\<lambda>_. True)) s0;
                   mp = get32_at c 4;
                   fallback = get32_at c 8
            in case mem_r32 io (block + BLOCK_MAP) s1 of (number, s2) \<Rightarrow>
               case mem_r8 io (block + BLOCK_LETTER) s2 of (letter, s3) \<Rightarrow>
               let have = push_bit 8 number OR ucast letter
               in if no_restore then s3
                  else if fallback \<noteq> 0 \<and> have = fallback then
                    mem_w8 io (block + BLOCK_LETTER) (ucast mp)
                      (mem_w32 io (block + BLOCK_MAP) (drop_bit 8 mp) s3)
                  else if fallback \<noteq> 0 then sn_upd (g_loaded_savenow_update (\<lambda>_. False)) s3
                  else s3)"

text \<open>After the copy: sys15 is 0, so the player lands where the save was made.\<close>

definition savenow_load_post :: "'m savenow_scheme io \<Rightarrow> bool \<Rightarrow> 'm scpu \<Rightarrow> 'm scpu" where
  "savenow_load_post io no_restore s =
     (if \<not> g_loaded_savenow (user s) then s
      else let s1 = sn_upd (g_loaded_savenow_update (\<lambda>_. False)) s
        in if no_restore then s1 else mem_w32 io SOA_SYS15 0 s1)"

text \<open>SOA_SAVE_NOW's frame, read once at the start; the safe point is registered with tick.c.\<close>

definition savenow_init :: "u32 option \<Rightarrow> 'm scpu \<Rightarrow> 'm scpu" where
  "savenow_init env s =
     (case env of None \<Rightarrow> s
      | Some f \<Rightarrow> sn_upd (\<lambda>d. d\<lparr>g_at_frame := f, g_frame_set := True\<rparr>) s)"

section \<open>A save block in RAM\<close>

text \<open>The whole block lies in console memory, so its fields are plain bytes.\<close>

definition block_ok :: "u32 \<Rightarrow> bool" where
  "block_ok b \<longleftrightarrow> 0x80000000 \<le> b \<and> unat b + 12800 \<le> 0x81800000"

lemma ram_offset:
  assumes "0x80000000 \<le> b" "unat b + n \<le> 0x81800000" "k < n"
  shows "mem_ptr (b + of_nat k) = mem_ptr b + k" and "\<not> is_mmio (b + of_nat k)"
proof -
  have u: "unat (b + of_nat k) = unat b + k"
    using assms by (intro unat_add_le) simp
  have le: "0x80000000 \<le> b + of_nat k"
    using assms(1) u by (simp add: word_le_nat_alt)
  show "\<not> is_mmio (b + of_nat k)" using ram_plain [OF le] u assms by simp
  have "mem_ptr (b + of_nat k) = unat (b + of_nat k) - 0x80000000"
    using u assms by (intro mem_ptr_ram le) simp
  moreover have "mem_ptr b = unat b - 0x80000000"
    using assms by (intro mem_ptr_ram) simp_all
  ultimately show "mem_ptr (b + of_nat k) = mem_ptr b + k"
    using u assms(1) by (simp add: word_le_nat_alt)
qed

lemma wr_bytes_append: "wr_bytes (wr_bytes m a xs) (a + length xs) ys = wr_bytes m a (xs @ ys)"
  by (auto simp: wr_bytes_def fun_eq_iff nth_append)

lemma sn_upd_simps [simp]:
  "mem (sn_upd f s) = mem s" "user (sn_upd f s) = f (user s)"
  by (simp_all add: sn_upd_def)

lemma user_mem_w [simp]:
  "\<not> is_mmio a \<Longrightarrow> user (mem_w32 io a v s) = user s" "\<not> is_mmio a \<Longrightarrow> user (mem_w8 io a v8 s) = user s"
  by (simp_all add: mem_w32_def mem_w8_def)

text \<open>The map word and letter: five bytes, the first 0 in every map there is.\<close>

lemma place_bytes: "push_bit 8 (get32 0 b c d) OR ucast e = get32 b c d e"
  by (auto simp: get32_def bit_eq_iff bit_simps not_le not_less dest: bit_imp_le_length)

lemma put_place: "put32 (drop_bit 8 m) @ [ucast m] = 0 # put32 m"
proof -
  have "ucast (drop_bit 24 (drop_bit 8 m)) = (0 :: u8)"
    by (rule bit_eqI) (auto simp: bit_simps dest: bit_imp_le_length)
  then show ?thesis by (simp add: put32_def)
qed

lemma map_fields:
  assumes "block_ok b"
  shows "mem_ptr (b + BLOCK_MAP) = mem_ptr b + 5808" "\<not> is_mmio (b + BLOCK_MAP)"
    "mem_ptr (b + BLOCK_LETTER) = mem_ptr b + 5812" "\<not> is_mmio (b + BLOCK_LETTER)"
  using assms ram_offset [of b 12800 5808] ram_offset [of b 12800 5812]
  by (simp_all add: block_ok_def BLOCK_MAP_def BLOCK_LETTER_def)

text \<open>Reading the place from the five bytes, and laying five bytes down.\<close>

definition map_bytes :: "(nat \<Rightarrow> u8) \<Rightarrow> u32 \<Rightarrow> u8 list" where
  "map_bytes m b = rd_bytes m (mem_ptr b + 5808) 5"

lemma rd_bytes_5: "rd_bytes m a 5 = [m a, m (a + 1), m (a + 2), m (a + 3), m (a + 4)]"
  by (simp add: rd_bytes_def upt_rec eval_nat_numeral)

lemma place_read:
  assumes "block_ok b" "map_bytes (mem s) b = 0 # put32 v"
  obtains n l where "mem_r32 io (b + BLOCK_MAP) s = (n, s)" "mem_r8 io (b + BLOCK_LETTER) s = (l, s)"
    "push_bit 8 n OR ucast l = v"
proof
  let ?m = "\<lambda>k. mem s (mem_ptr b + (5808 + k))"
  show "mem_r32 io (b + BLOCK_MAP) s = (get32 (?m 0) (?m 1) (?m 2) (?m 3), s)"
    using map_fields [OF assms(1)] by (simp add: mem_r32_def Let_def add.commute)
  show "mem_r8 io (b + BLOCK_LETTER) s = (?m 4, s)"
    using map_fields [OF assms(1)] by (simp add: mem_r8_def)
  have "[?m 0, ?m 1, ?m 2, ?m 3, ?m 4] = 0 # put32 v"
    using assms(2) by (simp add: map_bytes_def rd_bytes_5 add.commute)
  then have z: "?m 0 = 0" and p: "put32 v = [?m 1, ?m 2, ?m 3, ?m 4]" by (simp_all add: add.commute)
  have "put32 (get32 (?m 1) (?m 2) (?m 3) (?m 4)) = put32 v" unfolding get32_put32 p ..
  then show "push_bit 8 (get32 (?m 0) (?m 1) (?m 2) (?m 3)) OR ucast (?m 4) = v"
    unfolding z place_bytes by simp
qed

lemma place_write:
  assumes "block_ok b"
  shows "mem (mem_w8 io (b + BLOCK_LETTER) (ucast v) (mem_w32 io (b + BLOCK_MAP) (drop_bit 8 v) s))
      = wr_bytes (mem s) (mem_ptr b + 5808) (0 # put32 v)" (is "mem ?s = _")
    and "user (mem_w8 io (b + BLOCK_LETTER) (ucast v) (mem_w32 io (b + BLOCK_MAP) (drop_bit 8 v) s)) = user s"
proof -
  note f = map_fields [OF assms]
  have "mem ?s = wr_bytes (wr_bytes (mem s) (mem_ptr b + 5808) (put32 (drop_bit 8 v))) (mem_ptr b + 5808 + 4) [ucast v]"
    using f by (simp add: mem_w_plain add.assoc)
  also have "\<dots> = wr_bytes (mem s) (mem_ptr b + 5808) (put32 (drop_bit 8 v) @ [ucast v])"
    using wr_bytes_append [of "mem s" "mem_ptr b + 5808" "put32 (drop_bit 8 v)" "[ucast v]"] by simp
  finally show "mem ?s = wr_bytes (mem s) (mem_ptr b + 5808) (0 # put32 v)" unfolding put_place .
  show "user ?s = user s" using f by simp
qed

section \<open>A save-now lands where it was made\<close>

definition SN1 :: "u32 \<Rightarrow> u32 \<Rightarrow> u8 list" where
  "SN1 place fallback = [0x53, 0x4E, 0x31, 0] @ put32 place @ put32 fallback"

lemma SN1_fields: "length (SN1 v w) = 12" "take 4 (SN1 v w) = [0x53, 0x4E, 0x31, 0]"
    "get32_at (SN1 v w) 4 = v" "get32_at (SN1 v w) 8 = w"
  using get32_at_put32 [of "[0x53, 0x4E, 0x31, 0]" v "put32 w"]
    get32_at_put32 [of "[0x53, 0x4E, 0x31, 0] @ put32 v" w "[]"]
  by (simp_all add: SN1_def eval_nat_numeral)

definition fallback_of :: "'m savenow_scheme \<Rightarrow> u32 \<Rightarrow> u32" where
  "fallback_of d v = (if savenow_is_save_point v then 0 else g_last_sp d)"

lemma snapshot_place:
  assumes "block_ok b" "map_bytes (mem s) b = 0 # put32 v" "g_opened (user s)" "12 \<le> cap"
  shows "\<exists>s'. savenow_snapshot io b cap s = (Some (SN1 v (fallback_of (user s) v)), s')
    \<and> user s' = (user s)\<lparr>g_opened := False\<rparr>
    \<and> mem s' = (if fallback_of (user s) v = 0 then mem s
        else wr_bytes (mem s) (mem_ptr b + 5808) (0 # put32 (fallback_of (user s) v)))"
proof -
  let ?s1 = "sn_upd (g_opened_update (\<lambda>_. False)) s"
  obtain n l where r: "mem_r32 io (b + BLOCK_MAP) ?s1 = (n, ?s1)" "mem_r8 io (b + BLOCK_LETTER) ?s1 = (l, ?s1)"
    "push_bit 8 n OR ucast l = v"
    using place_read [of b ?s1 v] assms(1,2) by auto
  show ?thesis
    using assms(3,4) r place_write [OF assms(1), of io "fallback_of (user s) v" ?s1]
    by (auto simp: savenow_snapshot_def CHUNK_LEN_def SN1_def fallback_of_def Let_def)
qed

lemma load_place:
  assumes "block_ok b" "map_bytes (mem s) b = 0 # put32 (if fb = 0 then v else fb)"
  shows "\<exists>s'. savenow_load_pre io False b (Some (SN1 v fb)) s = s'
    \<and> user s' = (user s)\<lparr>g_loaded_savenow := True\<rparr> \<and> map_bytes (mem s') b = 0 # put32 v
    \<and> (\<forall>x. x < mem_ptr b + 5808 \<or> mem_ptr b + 5813 \<le> x \<longrightarrow> mem s' x = mem s x)"
proof -
  let ?s1 = "sn_upd (g_loaded_savenow_update (\<lambda>_. True)) (sn_upd (g_loaded_savenow_update (\<lambda>_. False)) s)"
  obtain n l where r: "mem_r32 io (b + BLOCK_MAP) ?s1 = (n, ?s1)" "mem_r8 io (b + BLOCK_LETTER) ?s1 = (l, ?s1)"
    "push_bit 8 n OR ucast l = (if fb = 0 then v else fb)"
    using place_read [of b ?s1 "if fb = 0 then v else fb"] assms by auto
  show ?thesis
    using r place_write [OF assms(1), of io v ?s1] assms(2)
    by (auto simp: savenow_load_pre_def SN1_fields CHUNK_LEN_def Let_def map_bytes_def store_simps)
qed

text \<open>C11: A save made with the menu this port opened is consumed once, and wherever the block is
  loaded again with its chunk, the map word and letter are those the save was made at, even
  though off a save point the block itself carries the last save-point map for the game alone;
  and the player is then sent where the save was made.\<close>

theorem savenow_lands_where_saved:
  assumes "block_ok b" "block_ok b'" "g_opened (user s)" "12 \<le> cap"
    and place: "map_bytes (mem s) b = 0 # put32 v"
    and snap: "savenow_snapshot io b cap s = (chunk, s1)"
    and copied: "map_bytes (mem s2) b' = map_bytes (mem s1) b"
  shows "\<not> g_opened (user s1)
    \<and> map_bytes (mem s1) b = 0 # put32 (if fallback_of (user s) v = 0 then v else fallback_of (user s) v)
    \<and> map_bytes (mem (savenow_load_pre io False b' chunk s2)) b' = 0 # put32 v
    \<and> rd_bytes (mem (savenow_load_post io False (savenow_load_pre io False b' chunk s2))) (mem_ptr SOA_SYS15) 4
        = [0, 0, 0, 0]"
proof -
  let ?fb = "fallback_of (user s) v"
  obtain s' where s': "savenow_snapshot io b cap s = (Some (SN1 v ?fb), s')"
    "user s' = (user s)\<lparr>g_opened := False\<rparr>"
    "mem s' = (if ?fb = 0 then mem s else wr_bytes (mem s) (mem_ptr b + 5808) (0 # put32 ?fb))"
    using snapshot_place [OF assms(1) place assms(3,4)] by blast
  then have c: "chunk = Some (SN1 v ?fb)" "s' = s1" using snap by auto
  have m1: "map_bytes (mem s1) b = 0 # put32 (if ?fb = 0 then v else ?fb)"
    using s'(3) place unfolding c by (auto simp: map_bytes_def store_simps)
  then obtain s3 where s3: "savenow_load_pre io False b' chunk s2 = s3"
    "user s3 = (user s2)\<lparr>g_loaded_savenow := True\<rparr>" "map_bytes (mem s3) b' = 0 # put32 v"
    using load_place [OF assms(2), of s2 ?fb v io] copied c by auto
  have "\<not> is_mmio SOA_SYS15" by (simp add: SOA_SYS15_def is_mmio_def)
  then have "rd_bytes (mem (savenow_load_post io False s3)) (mem_ptr SOA_SYS15) 4 = put32 0"
    using s3(2) by (simp add: savenow_load_post_def mem_w_plain store_simps)
  then show ?thesis using s'(2) m1 s3 c by (simp add: put32_def)
qed

text \<open>A save on map a116c after a116a, the last save point's: the block holds a116a, the load a116c.\<close>

definition saver0 :: "savenow cpu" where
  "saver0 = \<lparr>gpr = (\<lambda>_. 0), fpr = (\<lambda>_. (0, 0)), cr = 0, xer = 0, lr = 0, ctr = 0, fpscr = 0, msr = 0,
    decr = 0, pc = 0, gqr = (\<lambda>_. 0), hid2 = 0, wpar = 0, spr = (\<lambda>_. 0), sr = (\<lambda>_. 0),
    mem = (\<lambda>x. if x = 0x4016B3 then 0x74 else if x = 0x4016B4 then 0x63 else 0),
    user = \<lparr>g_mods = [], g_s_set = True, g_text = [], g_cur_mod = -1, g_in_init = False, g_init_id = [],
      g_event_now = None, cb_calls = (\<lambda>_ _. 0), g_pending = False, g_opened = True, g_frame_set = False,
      g_at_frame = 0, g_last_sp = 0x7461, g_why = [], g_loaded_savenow = False\<rparr>\<rparr>"

definition io1 :: "savenow io" where
  "io1 = \<lparr>mmio_read = (\<lambda>_ _ s. (0, s)), mmio_write = (\<lambda>_ _ _ s. s), gx_pipe_write = (\<lambda>_ _ s. s)\<rparr>"

theorem savenow_lands_where_saved_witness:
  "let (chunk, s1) = savenow_snapshot io1 0x80400000 16 saver0
   in map_bytes (mem s1) 0x80400000 = [0, 0, 0, 0x74, 0x61]
      \<and> map_bytes (mem (savenow_load_pre io1 False 0x80400000 chunk s1)) 0x80400000 = [0, 0, 0, 0x74, 0x63]"
proof -
  obtain chunk s1 where s1: "savenow_snapshot io1 0x80400000 16 saver0 = (chunk, s1)" by fastforce
  have b: "block_ok 0x80400000" by (simp add: block_ok_def)
  have m: "map_bytes (mem saver0) 0x80400000 = 0 # put32 0x7463"
    by (simp add: map_bytes_def rd_bytes_5 saver0_def mem_ptr_def MEM_MASK_def put32_def)
  have "fallback_of (user saver0) 0x7463 = 0x7461"
    by (simp add: fallback_of_def savenow_is_save_point_def k_save_point_maps_def saver0_def)
  then show ?thesis
    using savenow_lands_where_saved [OF b b _ _ m s1 refl]
    by (simp add: s1 put32_def) (simp add: saver0_def)
qed

end
