(* ===== verification/Events.thy ===== *)
theory Events
  imports PadBack SaveNow
begin

text \<open>
  The event track as the safe point uses it (runtime/eventtrack.h): what a file that applies
  events relies on is the interface \<open>event_source\<close>, a source of the texts due at a frame, each
  given once and in order. si.c's replay is one (\<open>event_take\<close>), also as part of the guest state
  in which tick.c, actions.c and savenow.c keep their variables, the record \<open>safe_point\<close>.
\<close>

section \<open>The interface\<close>

text \<open>The loop the files share: apply what was taken and take again, until nothing is due.\<close>

partial_function (option) drain ::
  "('s \<Rightarrow> (int \<times> string) \<times> 's) \<Rightarrow> (string \<Rightarrow> 's \<Rightarrow> 's) \<Rightarrow> int \<times> string \<Rightarrow> 's \<Rightarrow> 's option" where
  "drain tk one r s =
     (if fst r \<noteq> 1 then Some s
      else case tk (one (snd r) s) of (r', s') \<Rightarrow> drain tk one r' s')"

declare drain.simps [simp del]

locale event_source =
  fixes take_ev :: "string \<Rightarrow> u32 \<Rightarrow> 's \<Rightarrow> (int \<times> string) \<times> 's"
    and pending :: "string \<Rightarrow> u32 \<Rightarrow> 's \<Rightarrow> string list"
  assumes take_due: "pending k f s = t # ts \<Longrightarrow> fst (take_ev k f s) = (1, t) \<and> pending k f (snd (take_ev k f s)) = ts"
    and take_none: "pending k f s = [] \<Longrightarrow> fst (fst (take_ev k f s)) \<noteq> 1 \<and> pending k f (snd (take_ev k f s)) = []"
begin

text \<open>
  The loop ends, and what it does is the texts applied in order: on any view of the state that a
  take leaves as it is and an application changes by itself.
\<close>

lemma drain_applies:
  assumes one: "\<And>t s. pending k f (one t s) = pending k f s"
    and view: "\<And>s. view (snd (take_ev k f s)) = view s" "\<And>t s. view (one t s) = g t (view s)"
  shows "\<exists>s'. drain (take_ev k f) one (fst (take_ev k f s)) (snd (take_ev k f s)) = Some s'
    \<and> view s' = fold g (pending k f s) (view s) \<and> pending k f s' = []"
proof (induction "pending k f s" arbitrary: s)
  case Nil
  then show ?case using take_none [of k f s] view(1) [of s] by (subst drain.simps) auto
next
  case (Cons t ts)
  let ?s = "one t (snd (take_ev k f s))"
  have t: "fst (take_ev k f s) = (1, t)" "pending k f (snd (take_ev k f s)) = ts"
    using take_due [of k f s t ts] Cons.hyps(2) by simp_all
  have p: "pending k f ?s = ts" using one t(2) by simp
  have "drain (take_ev k f) one (fst (take_ev k f s)) (snd (take_ev k f s))
      = drain (take_ev k f) one (fst (take_ev k f ?s)) (snd (take_ev k f ?s))"
    by (subst drain.simps) (simp add: t(1) split: prod.splits)
  then show ?case using Cons.hyps(1) [of ?s] p Cons.hyps(2) [symmetric] view by simp
qed

lemma drain_returns:
  assumes "\<And>t s. pending k f (one t s) = pending k f s"
  shows "\<exists>s'. drain (take_ev k f) one (fst (take_ev k f s)) (snd (take_ev k f s)) = Some s'"
  using drain_applies [where view = "\<lambda>_. ()" and g = "\<lambda>_ _. ()" and s = s and one = one, OF assms] by auto

end

section \<open>The replay of si.c is a source\<close>

function due_texts :: "event_line list \<Rightarrow> ev_kind \<Rightarrow> u32 \<Rightarrow> nat \<Rightarrow> string list" where
  "due_texts es k f j =
     (if j < length es \<and> ev_frame (es ! j) \<le> f then ev_text (es ! j) # due_texts es k f (next_of k es (Suc j)) else [])"
  by pat_completeness auto
termination
  by (relation "measure (\<lambda>(es, k, f, j). length es - j)")
    (use next_of_ge in \<open>auto intro!: diff_less_mono2 intro: Suc_le_lessD [OF next_of_ge]\<close>)

declare due_texts.simps [simp del]

definition loaded_si :: "si_host \<Rightarrow> si \<Rightarrow> si" where
  "loaded_si h s = (if g_play_tried s then s else pad_replay_load h s)"

definition si_pending :: "si_host \<Rightarrow> string \<Rightarrow> u32 \<Rightarrow> si \<Rightarrow> string list" where
  "si_pending h kind f s =
     (let s' = loaded_si h s
      in if \<not> g_replaying s' then []
         else (case map_of k_ev_names kind of None \<Rightarrow> []
           | Some k \<Rightarrow> if k = EV_PAD2 \<or> k = EV_HOST then [] else due_texts (g_ev s') k f (g_ev_next s' k)))"

lemma loaded_tried [simp]: "g_play_tried (loaded_si h s)"
  by (auto simp: loaded_si_def pad_replay_load_def call_out_def Let_def split: option.splits)

lemma loaded_again [simp]: "g_play_tried s \<Longrightarrow> loaded_si h s = s"
  by (simp add: loaded_si_def)

interpretation si_events: event_source "event_take h" "si_pending h" for h
proof
  fix k f t ts and s :: si
  assume p: "si_pending h k f s = t # ts"
  then show "fst (event_take h k f s) = (1, t) \<and> si_pending h k f (snd (event_take h k f s)) = ts"
    by (subst (asm) si_pending_def, subst (asm) due_texts.simps)
      (auto simp: event_take_def si_pending_def loaded_si_def [symmetric] Let_def not_le split: if_splits option.splits)
next
  fix k f and s :: si
  assume "si_pending h k f s = []"
  then show "fst (fst (event_take h k f s)) \<noteq> 1 \<and> si_pending h k f (snd (event_take h k f s)) = []"
    by (subst (asm) si_pending_def, subst (asm) due_texts.simps)
      (auto simp: event_take_def si_pending_def loaded_si_def [symmetric] due_texts.simps Let_def not_le
        split: if_splits option.splits)
qed

text \<open>On a cursor that stands on its kind, the texts due are those of the lines due.\<close>

lemma due_texts_lines:
  "stands k es j \<Longrightarrow> due_texts es k f j = map ev_text (takeWhile (due_by f) (of_kind k (drop j es)))"
proof (induction es k f j rule: due_texts.induct)
  case (1 es k f j)
  note h = stands_head [OF "1.prems"]
  show ?case
  proof (cases "j < length es \<and> ev_frame (es ! j) \<le> f")
    case True
    have n: "stands k es (next_of k es (Suc j))" "of_kind k (drop (next_of k es (Suc j)) es) = of_kind k (drop (Suc j) es)"
      using next_of_ahead [of k es "Suc j"] by simp_all
    have d: "due_by f (es ! j)" using True by (simp add: due_by_def)
    show ?thesis using "1.IH" [OF True n(1)] True d n(2) h by (subst due_texts.simps) simp
  next
    case False
    then show ?thesis using h by (subst due_texts.simps) (auto simp: due_by_def)
  qed
qed

section \<open>The state of the safe point\<close>

text \<open>
  The variables of tick.c and actions.c, and si.c's, beside savenow.c's in the guest state. The
  turbo mode is None before it is read; a pending request of the menu is one word.
\<close>

record safe_point = savenow +
  sp_si :: si
  g_turbo_mode :: "u32 option"
  g_turbo_armed :: bool
  g_turbo_now :: bool
  g_turbo_toggle :: bool
  g_turbo_frames :: u64
  g_unlock_from :: u32
  g_safe_points :: u64
  g_released :: u64
  g_sched :: "(nat \<times> u32 \<times> u32) list"
  g_req :: u32
  g_enc_off :: bool

type_synonym 'm pcpu = "'m safe_point_scheme cpu"

definition sp_upd :: "('m safe_point_scheme \<Rightarrow> 'm safe_point_scheme) \<Rightarrow> 'm pcpu \<Rightarrow> 'm pcpu" where
  "sp_upd f s = s\<lparr>user := f (user s)\<rparr>"

definition on_si :: "(si \<Rightarrow> si) \<Rightarrow> 'm pcpu \<Rightarrow> 'm pcpu" where
  "on_si f s = sp_upd (\<lambda>d. d\<lparr>sp_si := f (sp_si d)\<rparr>) s"

lemma sp_upd_simps [simp]:
  "mem (sp_upd f s) = mem s" "user (sp_upd f s) = f (user s)" "gpr (sp_upd f s) = gpr s" "lr (sp_upd f s) = lr s"
  by (simp_all add: sp_upd_def)

lemma on_si_simps [simp]:
  "mem (on_si f s) = mem s" "sp_si (user (on_si f s)) = f (sp_si (user s))" "lr (on_si f s) = lr s"
  "gpr (on_si f s) = gpr s"
  by (simp_all add: on_si_def)

definition sp_take :: "si_host \<Rightarrow> string \<Rightarrow> u32 \<Rightarrow> 'm pcpu \<Rightarrow> (int \<times> string) \<times> 'm pcpu" where
  "sp_take h k f s = (case event_take h k f (sp_si (user s)) of (r, si') \<Rightarrow> (r, on_si (\<lambda>_. si') s))"

definition sp_pending :: "si_host \<Rightarrow> string \<Rightarrow> u32 \<Rightarrow> 'm pcpu \<Rightarrow> string list" where
  "sp_pending h k f s = si_pending h k f (sp_si (user s))"

definition sp_record :: "si_host option \<Rightarrow> u32 \<Rightarrow> string \<Rightarrow> string \<Rightarrow> 'm pcpu \<Rightarrow> 'm pcpu" where
  "sp_record tr f kind val s = (case tr of Some h \<Rightarrow> on_si (event_applied h f kind val) s | None \<Rightarrow> s)"

interpretation sp_events: event_source "sp_take h" "sp_pending h" for h
proof
  fix k f t ts and s :: "'m pcpu"
  assume "sp_pending h k f s = t # ts"
  then show "fst (sp_take h k f s) = (1, t) \<and> sp_pending h k f (snd (sp_take h k f s)) = ts"
    using si_events.take_due [of h k f "sp_si (user s)" t ts]
    by (cases "event_take h k f (sp_si (user s))") (simp add: sp_take_def sp_pending_def)
next
  fix k f and s :: "'m pcpu"
  assume "sp_pending h k f s = []"
  then show "fst (fst (sp_take h k f s)) \<noteq> 1 \<and> sp_pending h k f (snd (sp_take h k f s)) = []"
    using si_events.take_none [of h k f "sp_si (user s)"]
    by (cases "event_take h k f (sp_si (user s))") (simp add: sp_take_def sp_pending_def)
qed

text \<open>Recording and refusing leave what is due as it is.\<close>

lemma load_cong:
  assumes "g_ev s' = g_ev s" "g_ev_next s' = g_ev_next s" "g_replaying s' = g_replaying s" "g_play s' = g_play s"
  shows "g_ev (pad_replay_load h s') = g_ev (pad_replay_load h s)"
    "g_ev_next (pad_replay_load h s') = g_ev_next (pad_replay_load h s)"
    "g_replaying (pad_replay_load h s') = g_replaying (pad_replay_load h s)"
  using assms by (simp_all add: pad_replay_load_def call_out_def Let_def split: option.split)

lemma si_pending_cong:
  assumes "g_ev s' = g_ev s" "g_ev_next s' = g_ev_next s" "g_replaying s' = g_replaying s"
    "g_play_tried s' = g_play_tried s" "g_play s' = g_play s"
  shows "si_pending h k f s' = si_pending h k f s"
proof (cases "g_play_tried s")
  case True
  then show ?thesis using assms by (simp add: si_pending_def split: option.split)
next
  case False
  then have "loaded_si h s' = pad_replay_load h s'" "loaded_si h s = pad_replay_load h s"
    using assms(4) by (simp_all add: loaded_si_def)
  then show ?thesis using load_cong [OF assms(1-3,5)] by (simp add: si_pending_def Let_def split: option.split)
qed

lemma open_keeps:
  "g_ev (pad_record_open h s) = g_ev s" "g_ev_next (pad_record_open h s) = g_ev_next s"
  "g_replaying (pad_record_open h s) = g_replaying s" "g_play_tried (pad_record_open h s) = g_play_tried s"
  "g_play (pad_record_open h s) = g_play s"
  unfolding pad_record_open_def Let_def
  by (cases "pad_record_create h (env_text h ''SOA_PAD_RECORD'')"; simp)+

lemma event_record_keeps:
  "g_ev (event_record f k v s) = g_ev s" "g_ev_next (event_record f k v s) = g_ev_next s"
  "g_replaying (event_record f k v s) = g_replaying s" "g_play_tried (event_record f k v s) = g_play_tried s"
  "g_play (event_record f k v s) = g_play s"
  by (simp_all add: event_record_def rec_put_def)

lemma applied_keeps:
  "g_ev (event_applied h f k v s) = g_ev s" "g_ev_next (event_applied h f k v s) = g_ev_next s"
  "g_replaying (event_applied h f k v s) = g_replaying s" "g_play_tried (event_applied h f k v s) = g_play_tried s"
  "g_play (event_applied h f k v s) = g_play s"
  by (simp_all add: event_applied_def event_record_keeps open_keeps)

lemma pending_record [simp]: "sp_pending h k f (sp_record tr f' k' v s) = sp_pending h k f s"
  using si_pending_cong [OF applied_keeps] by (cases tr) (simp_all add: sp_pending_def sp_record_def)

end
