(* ===== verification/Tick.thy ===== *)
theory Tick
  imports Events
begin

text \<open>
  runtime/tick.c: VIGetRetraceCount answered natively. Called from the top of the main loop it is
  the safe point, where the port's callbacks run and turbo is worked out for the frame; called
  from the spin at the frame's end it lets the game go after one field when the tick is
  unlocked or the frame is at turbo; anywhere else it is the original. The renderer's frame count
  is the argument \<open>f\<close>, the event track with the environment \<open>tr\<close> (None: no track), the
  callbacks the list \<open>safe\<close>, the answers of the hold \<open>held\<close>. The messages and the report are
  left out.
\<close>

section \<open>Constants\<close>

definition RETRACE_COUNT :: u32 where "RETRACE_COUNT = 0x80347A64"
definition FRAME_START_FIELDS :: u32 where "FRAME_START_FIELDS = 0x8034768C"
definition LR_FRAME_START :: u32 where "LR_FRAME_START = 0x801DCB88"
definition LR_FRAME_END_SPIN :: u32 where "LR_FRAME_END_SPIN = 0x801DC49C"
definition SAFE_POINT_MAX :: nat where "SAFE_POINT_MAX = 8"
definition SKY_MODE :: u32 where "SKY_MODE = 0x80347464"
definition TURBO_BATTLE :: u32 where "TURBO_BATTLE = 1"
definition TURBO_SKY :: u32 where "TURBO_SKY = 2"

lemmas tick_consts = RETRACE_COUNT_def FRAME_START_FIELDS_def LR_FRAME_START_def LR_FRAME_END_SPIN_def
  SCENE_ID_def MAP_NUMBER_def SKY_MODE_def TURBO_BATTLE_def TURBO_SKY_def

section \<open>Turbo\<close>

text \<open>SOA_TURBO, read once; an empty or missing one arms nothing.\<close>

definition turbo_mode_of :: "string \<Rightarrow> u32" where
  "turbo_mode_of v = (if v = ''battle'' then TURBO_BATTLE else if v = ''sky'' then TURBO_SKY
     else if v = ''both'' then TURBO_BATTLE OR TURBO_SKY else 0)"

definition turbo_read :: "string option \<Rightarrow> 'm pcpu \<Rightarrow> 'm pcpu" where
  "turbo_read env s =
     (case env of None \<Rightarrow> sp_upd (\<lambda>d. d\<lparr>g_turbo_mode := Some 0\<rparr>) s
      | Some v \<Rightarrow> if v = [] then sp_upd (\<lambda>d. d\<lparr>g_turbo_mode := Some 0\<rparr>) s
          else sp_upd (\<lambda>d. d\<lparr>g_turbo_mode := Some (turbo_mode_of v), g_turbo_armed := nonzero (turbo_mode_of v)\<rparr>) s)"

definition turbo_known :: "string option \<Rightarrow> 'm pcpu \<Rightarrow> 'm pcpu" where
  "turbo_known env s = (if g_turbo_mode (user s) = None then turbo_read env s else s)"

text \<open>The chord and the menu: the answer is what turbo will be, in a replay what it is.\<close>

definition tick_turbo_toggle :: "si_host option \<Rightarrow> string option \<Rightarrow> 'm pcpu \<Rightarrow> bool \<times> 'm pcpu" where
  "tick_turbo_toggle tr env s0 =
     (let s = turbo_known env s0
      in if tr \<noteq> None \<and> g_replaying (sp_si (user s)) then (g_turbo_armed (user s), s)
         else (\<not> g_turbo_armed (user s), sp_upd (\<lambda>d. d\<lparr>g_turbo_toggle := True\<rparr>) s))"

definition tick_turbo_now :: "'m pcpu \<Rightarrow> bool" where
  "tick_turbo_now s = g_turbo_now (user s)"

definition turbo_set :: "si_host option \<Rightarrow> u32 \<Rightarrow> bool \<Rightarrow> 'm pcpu \<Rightarrow> 'm pcpu" where
  "turbo_set tr f on s =
     sp_record tr f ''turbo'' (if on then ''on'' else ''off'') (sp_upd (\<lambda>d. d\<lparr>g_turbo_armed := on\<rparr>) s)"

text \<open>The flips of the recording, or the one asked for. None: the recording never runs dry.\<close>

definition turbo_flips :: "si_host option \<Rightarrow> u32 \<Rightarrow> 'm pcpu \<Rightarrow> 'm pcpu option" where
  "turbo_flips tr f s =
     (case (case tr of Some h \<Rightarrow> sp_take h ''turbo'' f s | None \<Rightarrow> ((-1, []), s)) of (r, s1) \<Rightarrow>
        if fst r \<ge> 0 then
          (case tr of Some h \<Rightarrow>
             drain (sp_take h ''turbo'' f) (\<lambda>t. turbo_set tr f (take 7 t = ''on'')) r (sp_upd (\<lambda>d. d\<lparr>g_turbo_toggle := False\<rparr>) s1)
           | None \<Rightarrow> Some (sp_upd (\<lambda>d. d\<lparr>g_turbo_toggle := False\<rparr>) s1))
        else if g_turbo_toggle (user s1)
        then Some (turbo_set tr f (\<not> g_turbo_armed (user s1)) (sp_upd (\<lambda>d. d\<lparr>g_turbo_toggle := False\<rparr>) s1))
        else Some s1)"

definition turbo_battle :: "'m savenow_scheme io \<Rightarrow> u32 \<Rightarrow> 'm scpu \<Rightarrow> bool \<times> 'm scpu" where
  "turbo_battle io scene s =
     (if scene = 7 then (True, s)
      else if scene = 6 then (case mem_r32 io MAP_NUMBER s of (mp, s1) \<Rightarrow> (mp \<ge> 500, s1))
      else (False, s))"

definition turbo_here :: "'m savenow_scheme io \<Rightarrow> u32 \<Rightarrow> u32 \<Rightarrow> 'm scpu \<Rightarrow> bool \<times> 'm scpu" where
  "turbo_here io mode scene s =
     (case (if nonzero (mode AND TURBO_BATTLE) then turbo_battle io scene s else (False, s)) of (b, s1) \<Rightarrow>
        if b then (True, s1)
        else if nonzero (mode AND TURBO_SKY) then (case mem_r32 io SKY_MODE s1 of (sky, s2) \<Rightarrow> (sky = 1, s2))
        else (False, s1))"

definition turbo_evaluate ::
  "'m safe_point_scheme io \<Rightarrow> si_host option \<Rightarrow> string option \<Rightarrow> u32 \<Rightarrow> 'm pcpu \<Rightarrow> 'm pcpu option" where
  "turbo_evaluate io tr env f s =
     (case turbo_flips tr f (turbo_known env s) of None \<Rightarrow> None
      | Some s1 \<Rightarrow>
          let m = (case g_turbo_mode (user s1) of Some m \<Rightarrow> m | None \<Rightarrow> 0);
              mode = (if nonzero m then m else TURBO_BATTLE OR TURBO_SKY)
          in case mem_r32 io SCENE_ID s1 of (scene, s2) \<Rightarrow>
             case (if g_turbo_armed (user s2) then turbo_here io mode scene s2 else (False, s2)) of (now, s3) \<Rightarrow>
               Some (sp_upd (\<lambda>d. d\<lparr>g_turbo_now := now,
                 g_turbo_frames := (if now then g_turbo_frames d + 1 else g_turbo_frames d)\<rparr>) s3))"

section \<open>The safe point\<close>

definition tick_on_safe_point :: "'c \<Rightarrow> 'c list \<Rightarrow> bool \<times> 'c list" where
  "tick_on_safe_point c safe = (if length safe = SAFE_POINT_MAX then (False, safe) else (True, safe @ [c]))"

fun run_safe_points :: "('s \<Rightarrow> 's option) list \<Rightarrow> 's \<Rightarrow> 's option" where
  "run_safe_points [] s = Some s"
| "run_safe_points (c # cs) s = (case c s of None \<Rightarrow> None | Some s1 \<Rightarrow> run_safe_points cs s1)"

text \<open>The pause: sleep while held says so; None is a pause that never ends.\<close>

partial_function (option) hold_while_paused :: "(nat \<Rightarrow> bool) \<Rightarrow> nat \<Rightarrow> nat option" where
  "hold_while_paused held n = (if held n then hold_while_paused held (Suc n) else Some n)"

definition tick_unlock_from :: "u32 \<Rightarrow> 'm pcpu \<Rightarrow> 'm pcpu" where
  "tick_unlock_from frame s = sp_upd (\<lambda>d. d\<lparr>g_unlock_from := frame\<rparr>) s"

definition set_gpr3 :: "u32 \<times> 'm cpu \<Rightarrow> 'm cpu" where
  "set_gpr3 p = (snd p)\<lparr>gpr := (gpr (snd p))(3 := fst p)\<rparr>"

definition released :: "u32 \<Rightarrow> 'm pcpu \<Rightarrow> bool" where
  "released f s \<longleftrightarrow> nonzero (g_unlock_from (user s)) \<and> f \<ge> g_unlock_from (user s) \<or> g_turbo_now (user s)"

definition fn_8023F704 ::
  "'m safe_point_scheme io \<Rightarrow> si_host option \<Rightarrow> string option \<Rightarrow> u32 \<Rightarrow> (nat \<Rightarrow> bool) \<Rightarrow>
     ('m pcpu \<Rightarrow> 'm pcpu option) list \<Rightarrow> 'm pcpu \<Rightarrow> 'm pcpu option" where
  "fn_8023F704 io tr env f held safe s0 =
     (let s = s0\<lparr>pc := 0x8023F704\<rparr>
      in if lr s = LR_FRAME_START then
           (case hold_while_paused held 0 of None \<Rightarrow> None
            | Some _ \<Rightarrow>
              (case turbo_evaluate io tr env f (sp_upd (\<lambda>d. d\<lparr>g_safe_points := g_safe_points d + 1\<rparr>) s) of None \<Rightarrow> None
               | Some s1 \<Rightarrow> map_option (\<lambda>s2. set_gpr3 (mem_r32 io RETRACE_COUNT s2)) (run_safe_points safe s1)))
         else if lr s = LR_FRAME_END_SPIN \<and> released f s then
           (case mem_r32 io FRAME_START_FIELDS (sp_upd (\<lambda>d. d\<lparr>g_released := g_released d + 1\<rparr>) s) of (v, s1) \<Rightarrow>
              Some (set_gpr3 (v + 1, s1)))
         else Some (set_gpr3 (mem_r32 io RETRACE_COUNT s)))"

section \<open>Lemmas\<close>

lemma plain_tick [simp]: "\<not> is_mmio SCENE_ID" "\<not> is_mmio MAP_NUMBER" "\<not> is_mmio SKY_MODE"
    "\<not> is_mmio RETRACE_COUNT" "\<not> is_mmio FRAME_START_FIELDS"
  by (simp_all add: tick_consts is_mmio_def Let_def)

text \<open>A read of the game's memory changes nothing; its value.\<close>

definition tick_word :: "'m cpu \<Rightarrow> u32 \<Rightarrow> u32" where
  "tick_word s a = get32 (mem s (mem_ptr a)) (mem s (mem_ptr a + 1)) (mem s (mem_ptr a + 2)) (mem s (mem_ptr a + 3))"

lemma mem_r32_tick: "\<not> is_mmio a \<Longrightarrow> mem_r32 io a s = (tick_word s a, s)"
  by (simp add: mem_r32_def tick_word_def Let_def)

text \<open>The two instructions of the original.\<close>

definition retrace_original :: "'m io \<Rightarrow> 'm cpu \<Rightarrow> 'm cpu" where
  "retrace_original io s = set_gpr3 (mem_r32 io (gpr s 13 - 27836) (s\<lparr>pc := 0x8023F704\<rparr>))"

lemma turbo_set_pending [simp]: "sp_pending h k f (turbo_set tr f' on s) = sp_pending h k f s"
  by (simp add: turbo_set_def) (simp add: sp_pending_def)

lemma toggle_pending [simp]: "sp_pending h k f (sp_upd (\<lambda>d. d\<lparr>g_turbo_toggle := b\<rparr>) s) = sp_pending h k f s"
  by (simp add: sp_pending_def)

text \<open>What the tick does to everything but the variables of the runtime: nothing.\<close>

definition same_machine :: "'m cpu \<Rightarrow> 'm cpu \<Rightarrow> bool" where
  "same_machine s t \<longleftrightarrow> t\<lparr>user := user s\<rparr> = s"

lemma same_machine_refl [simp]: "same_machine s s"
  by (simp add: same_machine_def)

lemma same_machine_upd [simp]: "same_machine s (sp_upd f t) = same_machine s t" "same_machine s (on_si g t) = same_machine s t"
  by (simp_all add: same_machine_def sp_upd_def on_si_def)

lemma same_machine_record [simp]: "same_machine s (sp_record tr f k v t) = same_machine s t"
  by (cases tr) (simp_all add: sp_record_def)

lemma same_machine_set [simp]: "same_machine s (turbo_set tr f on t) = same_machine s t"
  by (simp add: turbo_set_def)

lemma same_machine_take [simp]: "same_machine s (snd (sp_take h k f t)) = same_machine s t"
  by (simp add: sp_take_def split: prod.split)

lemma same_machine_known [simp]: "same_machine s (turbo_known env t) = same_machine s t"
  by (simp add: turbo_known_def turbo_read_def split: option.split)

lemma fold_keeps [simp]: "fold (\<lambda>_ b. b) xs v = v"
  by (induction xs) simp_all

lemma take_toggle: "sp_take h k f (sp_upd (\<lambda>d. d\<lparr>g_turbo_toggle := b\<rparr>) s)
    = (fst (sp_take h k f s), sp_upd (\<lambda>d. d\<lparr>g_turbo_toggle := b\<rparr>) (snd (sp_take h k f s)))"
  by (simp add: sp_take_def on_si_def sp_upd_def split: prod.split)

lemma armed_simps [simp]:
  "g_turbo_armed (user (on_si g s)) = g_turbo_armed (user s)" "g_turbo_toggle (user (on_si g s)) = g_turbo_toggle (user s)"
  "g_turbo_armed (user (sp_record tr f k v s)) = g_turbo_armed (user s)"
  "g_turbo_toggle (user (sp_record tr f k v s)) = g_turbo_toggle (user s)"
  "g_turbo_mode (user (on_si g s)) = g_turbo_mode (user s)"
  by (cases tr; simp add: on_si_def sp_record_def)+

lemma take_view [simp]:
  "g_turbo_armed (user (snd (sp_take h k f s))) = g_turbo_armed (user s)"
  "g_turbo_toggle (user (snd (sp_take h k f s))) = g_turbo_toggle (user s)"
  by (simp_all add: sp_take_def split: prod.split)

lemma turbo_set_view [simp]:
  "g_turbo_armed (user (turbo_set tr f on s)) = on" "g_turbo_toggle (user (turbo_set tr f on s)) = g_turbo_toggle (user s)"
  by (simp_all add: turbo_set_def)

text \<open>The flips of a recording: the last one due is what turbo is, whatever the chord asked.\<close>

lemma flips_replayed:
  assumes r: "0 \<le> fst (fst (sp_take h ''turbo'' f s))"
  shows "\<exists>t. turbo_flips (Some h) f s = Some t \<and> \<not> g_turbo_toggle (user t) \<and> same_machine s t
    \<and> g_turbo_armed (user t) = fold (\<lambda>x b. take 7 x = ''on'') (sp_pending h ''turbo'' f s) (g_turbo_armed (user s))
    \<and> sp_pending h ''turbo'' f t = []"
proof -
  let ?s = "sp_upd (\<lambda>d. d\<lparr>g_turbo_toggle := False\<rparr>) s" and ?one = "\<lambda>x. turbo_set (Some h) f (take 7 x = ''on'')"
  have "\<exists>t. drain (sp_take h ''turbo'' f) ?one (fst (sp_take h ''turbo'' f ?s)) (snd (sp_take h ''turbo'' f ?s)) = Some t
    \<and> (g_turbo_armed (user t), g_turbo_toggle (user t), same_machine s t)
      = fold (\<lambda>x (b, tg, m). (take 7 x = ''on'', tg, m)) (sp_pending h ''turbo'' f ?s)
          (g_turbo_armed (user ?s), g_turbo_toggle (user ?s), same_machine s ?s)
    \<and> sp_pending h ''turbo'' f t = []"
    by (rule sp_events.drain_applies) simp_all
  moreover have "fold (\<lambda>x (b, tg, m). (take 7 x = ''on'', tg, m)) xs (b, False, True)
      = (fold (\<lambda>x b. take 7 x = ''on'') xs b, False, True)" for xs b
    by (induction xs arbitrary: b) simp_all
  moreover have "turbo_flips (Some h) f s
      = drain (sp_take h ''turbo'' f) ?one (fst (sp_take h ''turbo'' f ?s)) (snd (sp_take h ''turbo'' f ?s))"
    using r by (cases "sp_take h ''turbo'' f s") (simp add: turbo_flips_def take_toggle)
  ultimately show ?thesis by auto
qed

lemma flips_machine: "\<exists>t. turbo_flips tr f s = Some t \<and> same_machine s t"
proof (cases tr)
  case None
  then show ?thesis by (simp add: turbo_flips_def)
next
  case (Some h)
  show ?thesis
  proof (cases "0 \<le> fst (fst (sp_take h ''turbo'' f s))")
    case True
    then show ?thesis using flips_replayed [OF True] Some by blast
  next
    case False
    obtain r s1 where t: "sp_take h ''turbo'' f s = (r, s1)" by fastforce
    then have "same_machine s s1" using same_machine_take [of s h "''turbo''" f s] by simp
    then show ?thesis using False Some t by (auto simp: turbo_flips_def)
  qed
qed

lemma same_machine_trans: "same_machine s t \<Longrightarrow> same_machine t u \<Longrightarrow> same_machine s u"
proof -
  assume t: "same_machine s t" and u: "same_machine t u"
  have "u\<lparr>user := user s\<rparr> = u\<lparr>user := user t\<rparr>\<lparr>user := user s\<rparr>" by simp
  also have "\<dots> = s" using t u unfolding same_machine_def by simp
  finally show ?thesis by (simp add: same_machine_def)
qed

lemma same_machineE:
  assumes "same_machine s t"
  obtains u where "t = s\<lparr>user := u\<rparr>"
proof -
  have "t = t\<lparr>user := user s\<rparr>\<lparr>user := user t\<rparr>" by simp
  then have "t = s\<lparr>user := user t\<rparr>" using assms by (simp only: same_machine_def)
  then show ?thesis by (rule that)
qed

lemma turbo_here_reads: "turbo_here io mode scene s = (fst (turbo_here io mode scene s), s)"
  by (simp add: turbo_here_def turbo_battle_def mem_r32_tick)

lemma evaluate_after_flips:
  assumes "turbo_flips tr f (turbo_known env s) = Some t"
  shows "\<exists>now. turbo_evaluate io tr env f s = Some (sp_upd (\<lambda>d. d\<lparr>g_turbo_now := now,
    g_turbo_frames := (if now then g_turbo_frames d + 1 else g_turbo_frames d)\<rparr>) t)"
proof -
  let ?m = "case g_turbo_mode (user t) of Some m \<Rightarrow> m | None \<Rightarrow> 0"
  let ?mode = "if nonzero ?m then ?m else TURBO_BATTLE OR TURBO_SKY"
  let ?now = "if g_turbo_armed (user t) then fst (turbo_here io ?mode (tick_word t SCENE_ID) t) else False"
  have "(if g_turbo_armed (user t) then turbo_here io ?mode (tick_word t SCENE_ID) t else (False, t)) = (?now, t)"
    using turbo_here_reads [of io ?mode "tick_word t SCENE_ID" t] by simp
  then show ?thesis by (intro exI [of _ ?now]) (simp only: turbo_evaluate_def assms mem_r32_tick plain_tick Let_def
      option.case prod.case not_False_eq_True)
qed

lemma evaluate_machine: "\<exists>t. turbo_evaluate io tr env f s = Some t \<and> same_machine s t"
proof -
  obtain t where t: "turbo_flips tr f (turbo_known env s) = Some t" "same_machine (turbo_known env s) t"
    using flips_machine by blast
  have "same_machine s t" by (rule same_machine_trans [OF _ t(2)]) simp
  then show ?thesis using evaluate_after_flips [OF t(1)] by fastforce
qed

text \<open>C25: the tick is the game's own except where it says so: a call from the end-of-frame spin of a frame that is
  let go answers one field after the frame's start, so the spin leaves on its first pass; every
  other call, and one from the frame's start with no callback and no pause, returns what the
  two instructions of the original return and leaves the machine as they leave it, whatever the
  turbo mode, the event track and the chord.\<close>

theorem tick_is_original:
  assumes "gpr s 13 - 27836 = RETRACE_COUNT" "\<not> held 0"
  shows "if lr s = LR_FRAME_END_SPIN \<and> released f s
    then \<exists>t. fn_8023F704 io tr env f held safe s = Some t \<and> gpr t 3 - tick_word t FRAME_START_FIELDS = 1
      \<and> mem t = mem s \<and> (\<forall>r. r \<noteq> 3 \<longrightarrow> gpr t r = gpr s r)
    else lr s = LR_FRAME_START \<and> safe \<noteq> []
      \<or> (\<exists>t. fn_8023F704 io tr env f held safe s = Some t \<and> same_machine (retrace_original io s) t)"
proof (cases "lr s = LR_FRAME_END_SPIN \<and> released f s")
  case True
  have "lr s \<noteq> LR_FRAME_START" using True by (simp add: tick_consts)
  then show ?thesis
    using True by (simp add: fn_8023F704_def Let_def released_def mem_r32_tick set_gpr3_def tick_word_def sp_upd_def)
next
  case False
  have o: "retrace_original io s = (s\<lparr>pc := 0x8023F704\<rparr>)\<lparr>gpr := (gpr s)(3 := tick_word s RETRACE_COUNT)\<rparr>"
    using assms(1) by (simp add: retrace_original_def set_gpr3_def mem_r32_tick tick_word_def)
  show ?thesis
  proof (cases "lr s = LR_FRAME_START")
    case start: True
    have nf: "LR_FRAME_START \<noteq> LR_FRAME_END_SPIN" by (simp add: tick_consts)
    let ?s = "sp_upd (\<lambda>d. d\<lparr>g_safe_points := g_safe_points d + 1\<rparr>) (s\<lparr>pc := 0x8023F704\<rparr>)"
    obtain t where t: "turbo_evaluate io tr env f ?s = Some t" "same_machine ?s t" using evaluate_machine by blast
    have m: "same_machine (s\<lparr>pc := 0x8023F704\<rparr>) t" by (rule same_machine_trans [OF _ t(2)]) simp
    then obtain u where u: "t = s\<lparr>pc := 0x8023F704\<rparr>\<lparr>user := u\<rparr>" by (rule same_machineE)
    have w: "tick_word t a = tick_word s a" for a by (simp add: u tick_word_def)
    have "hold_while_paused held 0 = Some 0" using assms(2) by (simp add: hold_while_paused.simps)
    then have "safe = [] \<Longrightarrow> fn_8023F704 io tr env f held safe s = Some (t\<lparr>gpr := (gpr t)(3 := tick_word s RETRACE_COUNT)\<rparr>)"
      using start t(1) by (simp add: fn_8023F704_def mem_r32_tick set_gpr3_def w Let_def)
    moreover have "same_machine (retrace_original io s) (t\<lparr>gpr := (gpr t)(3 := tick_word s RETRACE_COUNT)\<rparr>)"
      by (simp add: o same_machine_def u)
    ultimately show ?thesis using start nf by auto
  next
    case False': False
    have nr: "\<not> (lr s = LR_FRAME_END_SPIN \<and> released f (s\<lparr>pc := 0x8023F704\<rparr>))" using False by (simp add: released_def)
    have "fn_8023F704 io tr env f held safe s = Some (retrace_original io s)"
      using False' nr o unfolding fn_8023F704_def Let_def by (auto simp: mem_r32_tick set_gpr3_def tick_word_def)
    moreover have "same_machine (retrace_original io s) (retrace_original io s)" by simp
    ultimately show ?thesis unfolding if_not_P [OF False] by blast
  qed
qed

definition tick_user :: safe_point where
  "tick_user = \<lparr>g_mods = [], g_s_set = True, g_text = [], g_cur_mod = -1, g_in_init = False, g_init_id = [],
     g_event_now = None, cb_calls = (\<lambda>_ _. 0), g_pending = False,
     g_opened = False, g_frame_set = False, g_at_frame = 0, g_last_sp = 0, g_why = [], g_loaded_savenow = False,
     sp_si = si_init, g_turbo_mode = Some 0, g_turbo_armed = True, g_turbo_now = True, g_turbo_toggle = True,
     g_turbo_frames = 0, g_unlock_from = 0, g_safe_points = 0, g_released = 0, g_sched = [], g_req = 0, g_enc_off = False\<rparr>"

definition tick_cpu :: "u32 \<Rightarrow> safe_point cpu" where
  "tick_cpu at = \<lparr>gpr = (\<lambda>r. if r = 13 then 0x8034E720 else 0), fpr = (\<lambda>_. (0, 0)), cr = 0, xer = 0, lr = at, ctr = 0,
     fpscr = 0, msr = 0, decr = 0, pc = 0, gqr = (\<lambda>_. 0), hid2 = 0, wpar = 0, spr = (\<lambda>_. 0), sr = (\<lambda>_. 0),
     mem = (\<lambda>_. 0), user = tick_user\<rparr>"

theorem tick_is_original_witness:
  "\<exists>t. fn_8023F704 io_none None None 5 (\<lambda>_. False) [] (tick_cpu LR_FRAME_END_SPIN) = Some t
     \<and> gpr t 3 - tick_word t FRAME_START_FIELDS = 1 \<and> mem t = mem (tick_cpu LR_FRAME_END_SPIN)
     \<and> (\<forall>r. r \<noteq> 3 \<longrightarrow> gpr t r = gpr (tick_cpu LR_FRAME_END_SPIN) r)"
proof -
  let ?s = "tick_cpu LR_FRAME_END_SPIN"
  have 1: "gpr ?s 13 - 27836 = RETRACE_COUNT" by (simp add: tick_cpu_def RETRACE_COUNT_def)
  have 2: "\<not> (\<lambda>_. False) (0 :: nat)" by simp
  have 3: "lr ?s = LR_FRAME_END_SPIN \<and> released 5 ?s" by (simp add: tick_cpu_def released_def tick_user_def)
  show ?thesis
    using tick_is_original [OF 1, of "\<lambda>_. False" 5 io_none None None "[]"] 2 by (simp only: 3 if_True simp_thms)
qed

section \<open>Turbo in a replay\<close>

lemma take_on: "take 7 x = ''on'' \<longleftrightarrow> x = ''on''"
proof
  assume t: "take 7 x = ''on''"
  then have "length (take 7 x) = 2" by simp
  then have "length x \<le> 7" by (simp split: if_splits)
  then show "x = ''on''" using t by simp
qed simp

lemma fold_on: "fold (\<lambda>x b. x = ''on'') xs b = (if xs = [] then b else List.last xs = ''on'')"
  by (induction xs arbitrary: b) simp_all

lemma take_in_replay: "g_replaying (loaded_si h (sp_si (user s))) \<Longrightarrow> 0 \<le> fst (fst (sp_take h k f s))"
  by (simp add: sp_take_def event_take_def loaded_si_def [symmetric] Let_def split: option.split)

definition turbo_lines :: "si_host \<Rightarrow> u32 \<Rightarrow> 'm pcpu \<Rightarrow> event_line list" where
  "turbo_lines h f s = (let si = loaded_si h (sp_si (user s))
     in takeWhile (due_by f) (of_kind EV_TURBO (drop (g_ev_next si EV_TURBO) (g_ev si))))"

text \<open>C26: in a replay turbo is what the recording says: after the safe point of a frame it is on or off as the last
  turbo line due by then, or as it was when none is; what the chord or the menu asked in between
  takes nothing, all lines due are used up, and the machine is untouched.\<close>

theorem turbo_follows_recording:
  assumes on: "g_replaying (loaded_si h (sp_si (user s)))"
    and at: "stands EV_TURBO (g_ev (loaded_si h (sp_si (user s)))) (g_ev_next (loaded_si h (sp_si (user s))) EV_TURBO)"
  shows "\<exists>t. turbo_evaluate io (Some h) env f s = Some t \<and> same_machine s t \<and> \<not> g_turbo_toggle (user t)
    \<and> g_turbo_armed (user t) = (case newest (turbo_lines h f s) of
         None \<Rightarrow> g_turbo_armed (user (turbo_known env s)) | Some e \<Rightarrow> ev_text e = ''on'')
    \<and> sp_pending h ''turbo'' f t = []"
proof -
  let ?s = "turbo_known env s"
  have si: "sp_si (user ?s) = sp_si (user s)"
    by (simp add: turbo_known_def turbo_read_def split: option.split)
  have "0 \<le> fst (fst (sp_take h ''turbo'' f ?s))" using take_in_replay [of h ?s] on si by simp
  from flips_replayed [OF this] obtain t where t: "turbo_flips (Some h) f ?s = Some t" "\<not> g_turbo_toggle (user t)"
      "same_machine ?s t" "sp_pending h ''turbo'' f t = []"
      "g_turbo_armed (user t) = fold (\<lambda>x b. take 7 x = ''on'') (sp_pending h ''turbo'' f ?s) (g_turbo_armed (user ?s))"
    by blast
  have "sp_pending h ''turbo'' f ?s = map ev_text (turbo_lines h f s)"
    using on due_texts_lines [OF at] by (simp add: sp_pending_def si_pending_def turbo_lines_def si k_ev_names_def Let_def)
  then have armed: "g_turbo_armed (user t) = (case newest (turbo_lines h f s) of
      None \<Rightarrow> g_turbo_armed (user ?s) | Some e \<Rightarrow> ev_text e = ''on'')"
    using t(5) by (simp add: take_on fold_on newest_def last_map)
  have "same_machine s t" by (rule same_machine_trans [OF _ t(3)]) simp
  moreover obtain now where e: "turbo_evaluate io (Some h) env f s = Some (sp_upd (\<lambda>d. d\<lparr>g_turbo_now := now,
      g_turbo_frames := (if now then g_turbo_frames d + 1 else g_turbo_frames d)\<rparr>) t)"
    using evaluate_after_flips [OF t(1)] by blast
  ultimately show ?thesis using armed t(2,4) unfolding e by (auto simp: sp_pending_def)
qed

definition tick_replay :: "safe_point cpu" where
  "tick_replay = (tick_cpu 0)\<lparr>user := tick_user\<lparr>sp_si := si_init\<lparr>g_play_tried := True, g_replaying := True,
     g_ev := [kept_event 3 (Turbo False), kept_event 9 (Turbo True)], g_ev_next := (\<lambda>_. 0)\<rparr>\<rparr>\<rparr>"

theorem turbo_follows_recording_witness:
  "\<exists>t. turbo_evaluate io_none (Some (witness_host ''X'' None)) None 4 tick_replay = Some t
     \<and> \<not> g_turbo_armed (user t) \<and> \<not> g_turbo_toggle (user t)"
proof -
  let ?h = "witness_host ''X'' None"
  have l: "loaded_si ?h (sp_si (user tick_replay)) = sp_si (user tick_replay)"
    by (simp add: tick_replay_def)
  have 1: "g_replaying (loaded_si ?h (sp_si (user tick_replay)))" unfolding l by (simp add: tick_replay_def)
  have 2: "stands EV_TURBO (g_ev (loaded_si ?h (sp_si (user tick_replay))))
      (g_ev_next (loaded_si ?h (sp_si (user tick_replay))) EV_TURBO)"
    unfolding l by (simp add: tick_replay_def stands_def kept_event_def)
  have "turbo_lines ?h 4 tick_replay = [kept_event 3 (Turbo False)]"
    unfolding turbo_lines_def l by (simp add: tick_replay_def kept_event_def due_by_def)
  then have "newest (turbo_lines ?h 4 tick_replay) = Some (kept_event 3 (Turbo False))" by (simp add: newest_def)
  then show ?thesis
    using turbo_follows_recording [OF 1 2, of io_none None 4] by (auto simp: kept_event_def)
qed

end
