(* ===== verification/Battle.thy ===== *)
theory Battle
  imports SaveNow
begin

text \<open>
  runtime/battle.c: the battle harness. Eleven functions of the game are answered by a wrapper
  that runs the translated original and lets the mods' callbacks of one event read and change
  what it worked out; a safe-point hook writes a forced battle request and follows what a
  battle changes. The translated originals are guest code, the parameter \<open>orig\<close>: the function
  at an address, on the whole state. The log lines are left out, the state they are drawn from
  (\<open>seen\<close>) is kept.
\<close>

section \<open>State\<close>

definition SCENE_BATTLE :: u32 where "SCENE_BATTLE = 7"
definition SLOTS :: nat where "SLOTS = 12"
definition SOA_BATTLE_ACTORS :: u32 where "SOA_BATTLE_ACTORS = 0x80309DE4"
definition SOA_BATTLE_TASKS :: u32 where "SOA_BATTLE_TASKS = 0x80309700"
definition SOA_BATTLE_COMMANDS :: u32 where "SOA_BATTLE_COMMANDS = 0x80309174"
definition SOA_BATTLE_CONTEXT :: u32 where "SOA_BATTLE_CONTEXT = 0x80347390"
definition SOA_BATTLE_TURN_ORDER :: u32 where "SOA_BATTLE_TURN_ORDER = 0x803092F4"
definition SOA_BATTLE_PHASE :: u32 where "SOA_BATTLE_PHASE = 0x8034733C"
definition SOA_BATTLE_ROUND_STATE :: u32 where "SOA_BATTLE_ROUND_STATE = 0x80347338"
definition SOA_BATTLE_ROUND :: u32 where "SOA_BATTLE_ROUND = 0x80347340"
definition SOA_ENCOUNTER_STEPS :: u32 where "SOA_ENCOUNTER_STEPS = 0x80346D28"
definition SOA_BATTLE_REQUEST_STAGE :: u32 where "SOA_BATTLE_REQUEST_STAGE = 0x803473C8"
definition SOA_BATTLE_REQUEST_ID :: u32 where "SOA_BATTLE_REQUEST_ID = 0x803473CC"
definition SOA_BATTLE_REQUEST_MODE :: u32 where "SOA_BATTLE_REQUEST_MODE = 0x803473D0"
definition SOA_BATTLE_REQUEST_FORCED :: u32 where "SOA_BATTLE_REQUEST_FORCED = 0x803473D4"
definition SOA_BATTLE_REQUEST_TRANSITION :: u32 where "SOA_BATTLE_REQUEST_TRANSITION = 0x803473D8"

text \<open>What the last safe point saw; the arrays have one element per slot.\<close>

record battle_seen =
  in_battle :: bool
  seen_actor :: "u32 list"
  seen_hp :: "u32 list"
  seen_status :: "u32 list"
  seen_mp :: "u8 list"
  seen_sp :: u16
  seen_order :: "u8 list"
  seen_phase :: u32
  seen_rounds :: u32
  start_frame :: u32
  calls_at_start :: u64
  nonzero_at_start :: u64

record battle_dev = mods +
  g_log :: bool
  g_force :: bool
  g_forced :: bool
  g_armed_said :: bool
  g_force_mode :: u32
  g_force_id :: u32
  g_force_stage :: u32
  g_force_frame :: u32
  g_calls :: u64
  g_nonzero :: u64
  g_changed :: u64
  g_battles :: u64
  g_seen :: battle_seen
  g_site_calls :: "event \<Rightarrow> u64"
  g_site_changed :: "event \<Rightarrow> u64"
  g_any_event :: bool

type_synonym 'b bcpu = "'b battle_dev_scheme cpu"
type_synonym 'b bio = "'b battle_dev_scheme io"
type_synonym 'b bregistry = "'b battle_dev_ext registry"
type_synonym 'b orig = "u32 \<Rightarrow> 'b bcpu \<Rightarrow> 'b bcpu"

definition b_upd :: "('b battle_dev_scheme \<Rightarrow> 'b battle_dev_scheme) \<Rightarrow> 'b bcpu \<Rightarrow> 'b bcpu" where
  "b_upd f s = s\<lparr>user := f (user s)\<rparr>"

definition site :: "event \<Rightarrow> bool \<Rightarrow> 'b bcpu \<Rightarrow> 'b bcpu" where
  "site ev changed = b_upd (\<lambda>b. b\<lparr>
     g_site_calls := (g_site_calls b)(ev := g_site_calls b ev + 1),
     g_site_changed := (if changed then (g_site_changed b)(ev := g_site_changed b ev + 1)
       else g_site_changed b)\<rparr>)"

text \<open>The slot of an actor, or -1; a null pointer is nobody's.\<close>

fun slot_of_from :: "'b bio \<Rightarrow> u32 \<Rightarrow> nat list \<Rightarrow> 'b bcpu \<Rightarrow> int \<times> 'b bcpu" where
  "slot_of_from io actor [] s = (-1, s)"
| "slot_of_from io actor (i # is') s =
     (if actor = 0 then slot_of_from io actor is' s
      else case mem_r32 io (SOA_BATTLE_ACTORS + 4 * of_nat i) s of (a, s1) \<Rightarrow>
        if a = actor then (int i, s1) else slot_of_from io actor is' s1)"

definition battle_slot_of :: "'b bio \<Rightarrow> u32 \<Rightarrow> 'b bcpu \<Rightarrow> int \<times> 'b bcpu" where
  "battle_slot_of io actor s = slot_of_from io actor [0..<SLOTS] s"

definition set_r3 :: "u32 \<Rightarrow> 'b bcpu \<Rightarrow> 'b bcpu" where
  "set_r3 v s = s\<lparr>gpr := (gpr s)(3 := v)\<rparr>"

text \<open>A register as \<open>int16_t\<close>, and a slot number in range.\<close>

definition r_s16 :: "'b bcpu \<Rightarrow> nat \<Rightarrow> int" where
  "r_s16 s n = sint (ucast (gpr s n) :: u16)"

definition is_slot :: "int \<Rightarrow> bool" where
  "is_slot x \<longleftrightarrow> 0 \<le> x \<and> x < int SLOTS"

section \<open>The wrapped functions\<close>

definition fn_800108EC :: "'b orig \<Rightarrow> 'b bregistry \<Rightarrow> 'b bcpu \<Rightarrow> 'b bcpu" where
  "fn_800108EC orig r s =
     (let s0 = s\<lparr>pc := 0x800108EC\<rparr>; base = gpr s0 3; element = gpr s0 4; attacker = gpr s0 5;
          target = gpr s0 6; s1 = orig 0x800108EC s0; original = gpr s1 3
      in case (if mod_event_count r MOD_EV_DAMAGE \<noteq> 0
               then mod_damage r original base attacker target element s1 else (original, s1)) of
        (returned, s2) \<Rightarrow>
          let s3 = site MOD_EV_DAMAGE (returned \<noteq> original)
                     (b_upd (\<lambda>b. b\<lparr>g_calls := g_calls b + 1\<rparr>) (set_r3 returned s2))
          in if nonzero returned then b_upd (\<lambda>b. b\<lparr>g_nonzero := g_nonzero b + 1\<rparr>) s3 else s3)"

text \<open>The work of a slot's task: where the value of a heal or an effect is.\<close>

definition task_work :: "'b bio \<Rightarrow> int \<Rightarrow> 'b bcpu \<Rightarrow> u32 \<times> 'b bcpu" where
  "task_work io target s =
     (case mem_r32 io (SOA_BATTLE_TASKS + 4 * word_of_int target) s of (task, s1) \<Rightarrow>
        if nonzero task then mem_r32 io (task + 36) s1 else (0, s1))"

definition heal_value :: "'b bio \<Rightarrow> int \<Rightarrow> 'b bcpu \<Rightarrow> (u32 \<times> u32) \<times> 'b bcpu" where
  "heal_value io target s =
     (case task_work io target s of (work, s1) \<Rightarrow>
        if nonzero work then (case mem_r32 io (work + 60) s1 of (v, s2) \<Rightarrow> ((work, v), s2))
        else ((work, 0), s1))"

definition fn_8006AE20 :: "'b bio \<Rightarrow> 'b orig \<Rightarrow> 'b bregistry \<Rightarrow> 'b bcpu \<Rightarrow> 'b bcpu" where
  "fn_8006AE20 io orig r s =
     (let s0 = s\<lparr>pc := 0x8006AE20\<rparr>; source = r_s16 s0 3; target = r_s16 s0 4;
          s1 = orig 0x8006AE20 s0; mods = mod_event_count r MOD_EV_HEAL \<noteq> 0
      in case (if is_slot target \<and> (mods \<or> g_log (user s1)) then heal_value io target s1
               else ((0, 0), s1)) of ((work, v), s2) \<Rightarrow>
         case (if nonzero work \<and> mods then mod_heal r v source target s2 else (v, s2)) of (returned, s3) \<Rightarrow>
           site MOD_EV_HEAL (returned \<noteq> v)
             (if returned \<noteq> v then mem_w32 io (work + 60) returned s3 else s3))"

definition fn_800770B8 :: "'b bio \<Rightarrow> 'b orig \<Rightarrow> 'b bregistry \<Rightarrow> 'b bcpu \<Rightarrow> 'b bcpu" where
  "fn_800770B8 io orig r s =
     (let s0 = s\<lparr>pc := 0x800770B8\<rparr>; actor = gpr s0 3; rec = gpr s0 4
      in case mem_r32 io (actor + 20) (orig 0x800770B8 s0) of (hp, s2) \<Rightarrow>
        if mod_event_count r MOD_EV_ENEMY_SPAWN \<noteq> 0
        then let before = rd_bytes (mem s2) (mem_ptr actor) 276; s3 = mod_enemy_spawn r actor rec s2
             in site MOD_EV_ENEMY_SPAWN (rd_bytes (mem s3) (mem_ptr actor) 276 \<noteq> before) s3
        else site MOD_EV_ENEMY_SPAWN False s2)"

definition fn_8008A424 :: "'b orig \<Rightarrow> 'b bregistry \<Rightarrow> 'b bcpu \<Rightarrow> 'b bcpu" where
  "fn_8008A424 orig r s =
     (let s0 = s\<lparr>pc := 0x8008A424\<rparr>; slot = r_s16 s0 3;
          cmd = SOA_BATTLE_COMMANDS + 32 * word_of_int (slot mod 16);
          s1 = orig 0x8008A424 s0; ty = gpr s1 3
      in if mod_event_count r MOD_EV_ENEMY_ACTION \<noteq> 0 \<and> is_slot slot
         then let before = rd_bytes (mem s1) (mem_ptr cmd) 32
              in case mod_enemy_action r ty slot cmd s1 of (returned, s2) \<Rightarrow>
                let s3 = set_r3 returned s2
                in site MOD_EV_ENEMY_ACTION
                     (returned \<noteq> ty \<or> rd_bytes (mem s3) (mem_ptr cmd) 32 \<noteq> before) s3
         else site MOD_EV_ENEMY_ACTION False s1)"

text \<open>
  A mod's turn order: distinct slots up to the first negative entry. The scan gives how many
  entries come before it and whether all were distinct slots; the slots seen are the bits of a word.
\<close>

fun order_scan :: "u8 list \<Rightarrow> nat \<Rightarrow> u32 \<Rightarrow> bool \<Rightarrow> nat \<times> bool" where
  "order_scan [] n seen ok = (n, ok)"
| "order_scan (x # xs) n seen ok =
     (if sint x < 0 then (n, ok)
      else if sint x \<ge> int SLOTS \<or> bit seen (unat x) then order_scan xs (Suc n) seen False
      else order_scan xs (Suc n) (seen OR push_bit (unat x) 1) ok)"

fun write_order :: "'b bio \<Rightarrow> nat \<Rightarrow> u8 list \<Rightarrow> 'b bcpu \<Rightarrow> 'b bcpu" where
  "write_order io i [] s = s"
| "write_order io i (x # xs) s = write_order io (Suc i) xs (mem_w8 io (SOA_BATTLE_TURN_ORDER + of_nat i) x s)"

fun order_bytes :: "'b bio \<Rightarrow> nat list \<Rightarrow> 'b bcpu \<Rightarrow> u8 list \<times> 'b bcpu" where
  "order_bytes io [] s = ([], s)"
| "order_bytes io (i # is') s =
     (case mem_r8 io (SOA_BATTLE_TURN_ORDER + of_nat i) s of (b, s1) \<Rightarrow>
      case order_bytes io is' s1 of (bs, s2) \<Rightarrow> (b # bs, s2))"

definition take_order :: "'b bio \<Rightarrow> u8 list \<Rightarrow> u8 list \<Rightarrow> 'b bcpu \<Rightarrow> bool \<times> 'b bcpu" where
  "take_order io order mine s =
     (case order_scan mine 0 0 True of (n, ok0) \<Rightarrow>
        let ok = ok0 \<and> \<not> (n < SLOTS \<and> mine ! n \<noteq> 0xFF);
            m = (if n < SLOTS then n + 1 else SLOTS)
        in if ok \<and> take m mine \<noteq> take m order
           then let s1 = write_order io 0 (take n mine) s
                in (True, if n < SLOTS then mem_w8 io (SOA_BATTLE_TURN_ORDER + of_nat n) 0xFF s1 else s1)
           else (False, s))"

definition fn_80070C18 :: "'b bio \<Rightarrow> 'b orig \<Rightarrow> 'b bregistry \<Rightarrow> 'b bcpu \<Rightarrow> 'b bcpu" where
  "fn_80070C18 io orig r s =
     (case mem_r32 io SOA_BATTLE_PHASE (s\<lparr>pc := 0x80070C18\<rparr>) of (was, s0) \<Rightarrow>
      let s1 = orig 0x80070C18 s0
      in if was \<noteq> 2 then s1
         else case mem_r32 io SOA_BATTLE_PHASE s1 of (phase, s2) \<Rightarrow>
           if phase \<noteq> 3 then s2
           else case order_bytes io [0..<SLOTS] s2 of (order, s3) \<Rightarrow>
             if mod_event_count r MOD_EV_TURN_ORDER \<noteq> 0
             then case mod_turn_order r order s3 of (mine, s4) \<Rightarrow>
                  case take_order io order mine s4 of (changed, s5) \<Rightarrow> site MOD_EV_TURN_ORDER changed s5
             else site MOD_EV_TURN_ORDER False s3)"

text \<open>
  The round's spirit. The sum of the gauge and the mod's amount is an \<open>int\<close> of 32 bits; an
  overflowing sum, undefined in C, wraps here.
\<close>

definition clamp_spirit :: "u16 \<Rightarrow> u32 \<Rightarrow> u16 \<Rightarrow> u32" where
  "clamp_spirit sp amount mx =
     (let now = scast sp + amount
      in if sint now < 0 then 0 else if sint now > sint mx then scast mx else now)"

definition fn_8006EF48 :: "'b bio \<Rightarrow> 'b orig \<Rightarrow> 'b bregistry \<Rightarrow> 'b bcpu \<Rightarrow> 'b bcpu" where
  "fn_8006EF48 io orig r s =
     (case mem_r32 io SOA_BATTLE_CONTEXT (s\<lparr>pc := 0x8006EF48\<rparr>) of (ctx, s0) \<Rightarrow>
      if ctx = 0 \<or> mod_event_count r MOD_EV_SPIRIT_GAIN = 0
      then case (if nonzero ctx then mem_r16 io (ctx + 8) s0 else (0, s0)) of (sp, s1) \<Rightarrow>
             site MOD_EV_SPIRIT_GAIN False (orig 0x8006EF48 s1)
      else case mem_r16 io (ctx + 8) s0 of (sp, s1) \<Rightarrow>
           case mem_r16 io (ctx + 6) s1 of (mx, s2) \<Rightarrow>
           case mem_r16 io (ctx + 8)
             (orig 0x8006EF48 (mem_w16 io (ctx + 6) 0x7FFF (mem_w16 io (ctx + 8) 0 s2))) of (gain, s3) \<Rightarrow>
           case mod_spirit_gain r (scast gain) (mem_w16 io (ctx + 6) mx s3) of (amount, s4) \<Rightarrow>
             let now = clamp_spirit sp amount mx
             in site MOD_EV_SPIRIT_GAIN (amount \<noteq> scast gain)
                  (mem_w16 io (ctx + 10) (ucast now) (mem_w16 io (ctx + 8) (ucast now) s4)))"

definition fn_80010340 :: "'b orig \<Rightarrow> 'b bregistry \<Rightarrow> 'b bcpu \<Rightarrow> 'b bcpu" where
  "fn_80010340 orig r s =
     (let s0 = s\<lparr>pc := 0x80010340\<rparr>; slot = r_s16 s0 3; s1 = orig 0x80010340 s0;
          success = nonzero (gpr s1 3)
      in if mod_event_count r MOD_EV_ESCAPE \<noteq> 0
         then case mod_escape r (of_bool success) slot s1 of (returned, s2) \<Rightarrow>
                site MOD_EV_ESCAPE (returned \<noteq> success) (set_r3 (of_bool returned) s2)
         else site MOD_EV_ESCAPE False s1)"

definition hold_rewards :: "soa_rewards \<Rightarrow> soa_rewards" where
  "hold_rewards r = \<lparr>
     rw_exp = (if sint (rw_exp r) < 0 then 0 else rw_exp r),
     rw_gold = (if sint (rw_gold r) < 0 then 0 else if sint (rw_gold r) > 99999999 then 99999999 else rw_gold r),
     rw_magic_exp = (if sint (rw_magic_exp r) < 0 then 0 else if sint (rw_magic_exp r) > 127 then 127
       else rw_magic_exp r)\<rparr>"

definition put_rewards :: "'b bio \<Rightarrow> u32 \<Rightarrow> soa_rewards \<Rightarrow> soa_rewards \<Rightarrow> 'b bcpu \<Rightarrow> 'b bcpu" where
  "put_rewards io ctx was r s =
     (let s1 = (if rw_exp r \<noteq> rw_exp was then mem_w32 io (ctx + 48) (rw_exp r) s else s);
          s2 = (if rw_gold r \<noteq> rw_gold was then mem_w32 io (ctx + 52) (rw_gold r) s1 else s1)
      in if rw_magic_exp r \<noteq> rw_magic_exp was then mem_w8 io (ctx + 1) (ucast (rw_magic_exp r)) s2 else s2)"

definition get_rewards :: "'b bio \<Rightarrow> u32 \<Rightarrow> 'b bcpu \<Rightarrow> soa_rewards \<times> 'b bcpu" where
  "get_rewards io ctx s =
     (case mem_r32 io (ctx + 48) s of (e, s1) \<Rightarrow>
      case mem_r32 io (ctx + 52) s1 of (g, s2) \<Rightarrow>
      case mem_r8 io (ctx + 1) s2 of (m, s3) \<Rightarrow>
        (\<lparr>rw_exp = e, rw_gold = g, rw_magic_exp = scast m\<rparr>, s3))"

definition pay_rewards :: "'b bio \<Rightarrow> 'b bregistry \<Rightarrow> u32 \<Rightarrow> 'b bcpu \<Rightarrow> 'b bcpu" where
  "pay_rewards io r ctx s =
     (case get_rewards io ctx s of (was, s1) \<Rightarrow>
      if mod_event_count r MOD_EV_REWARDS \<noteq> 0
      then case mod_rewards r was s1 of (given, s2) \<Rightarrow>
             let rw = hold_rewards given
             in site MOD_EV_REWARDS (rw \<noteq> was) (put_rewards io ctx was rw s2)
      else site MOD_EV_REWARDS False s1)"

definition fn_8006F4B0 :: "'b bio \<Rightarrow> 'b orig \<Rightarrow> 'b bregistry \<Rightarrow> 'b bcpu \<Rightarrow> 'b bcpu" where
  "fn_8006F4B0 io orig r s =
     (case mem_r32 io SOA_BATTLE_CONTEXT (s\<lparr>pc := 0x8006F4B0\<rparr>) of (ctx, s0) \<Rightarrow>
      if ctx = 0 then orig 0x8006F4B0 s0
      else case mem_r32 io SOA_BATTLE_ROUND_STATE s0 of (state, s1) \<Rightarrow>
        orig 0x8006F4B0 (if state = 2 then pay_rewards io r ctx s1 else s1))"

text \<open>An effect about to be applied: the message holds target, effect and value.\<close>

definition put_effect_value :: "'b bio \<Rightarrow> u32 \<Rightarrow> int \<Rightarrow> u32 \<Rightarrow> u32 \<Rightarrow> 'b bcpu \<Rightarrow> 'b bcpu" where
  "put_effect_value io msg target v v' s =
     (case (if is_slot target then task_work io target s else (0, s)) of (work, s1) \<Rightarrow>
        let s2 = mem_w32 io (msg + 8) v' s1
        in if work = 0 then s2
           else case mem_r32 io (work + 60) s2 of (w, s3) \<Rightarrow>
             if w = v then mem_w32 io (work + 60) v' s3 else s3)"

definition apply_effect ::
  "'b bio \<Rightarrow> 'b bregistry \<Rightarrow> u32 \<Rightarrow> int \<Rightarrow> u16 \<Rightarrow> u32 \<Rightarrow> 'b bcpu \<Rightarrow> (bool \<times> bool) \<times> 'b bcpu" where
  "apply_effect io r msg target e v s =
     (if mod_event_count r MOD_EV_EFFECT \<noteq> 0
      then case mod_effect r target e v s of ((cancel, e', v'), s1) \<Rightarrow>
           let s2 = (if e' \<noteq> e then mem_w16 io (msg + 6) e' s1 else s1)
           in ((cancel, cancel \<or> e' \<noteq> e \<or> v' \<noteq> v),
               if v' \<noteq> v then put_effect_value io msg target v v' s2 else s2)
      else ((False, False), s))"

definition fn_8002BD88 :: "'b bio \<Rightarrow> 'b orig \<Rightarrow> 'b bregistry \<Rightarrow> 'b bcpu \<Rightarrow> 'b bcpu" where
  "fn_8002BD88 io orig r s =
     (let s0 = s\<lparr>pc := 0x8002BD88\<rparr>; msg = gpr s0 3
      in case mem_r16 io msg s0 of (t, s1) \<Rightarrow>
         case mem_r16 io (msg + 6) s1 of (e, s2) \<Rightarrow>
         case mem_r32 io (msg + 8) s2 of (v, s3) \<Rightarrow>
         case apply_effect io r msg (sint t) e v s3 of ((cancel, changed), s4) \<Rightarrow>
           let s5 = site MOD_EV_EFFECT changed s4
           in if cancel then s5 else orig 0x8002BD88 s5)"

definition fn_8006FD6C :: "'b bio \<Rightarrow> 'b orig \<Rightarrow> 'b bregistry \<Rightarrow> 'b bcpu \<Rightarrow> 'b bcpu" where
  "fn_8006FD6C io orig r s =
     (case mem_r32 io SOA_BATTLE_ROUND_STATE (s\<lparr>pc := 0x8006FD6C\<rparr>) of (was, s0) \<Rightarrow>
      let s1 = orig 0x8006FD6C s0
      in if nonzero was then s1
         else case mem_r32 io SOA_BATTLE_ROUND_STATE s1 of (now, s2) \<Rightarrow>
           if now = 0 then s2
           else site MOD_EV_ROUND_END False
             (if mod_event_count r MOD_EV_ROUND_END \<noteq> 0
              then case mem_r8 io SOA_BATTLE_ROUND s2 of (round, s3) \<Rightarrow> mod_round_end r (ucast round) s3
              else s2))"

definition fn_80146BF4 :: "'b orig \<Rightarrow> 'b bregistry \<Rightarrow> 'b bcpu \<Rightarrow> 'b bcpu" where
  "fn_80146BF4 orig r s =
     (let s1 = orig 0x80146BF4 (s\<lparr>pc := 0x80146BF4\<rparr>); original = gpr s1 3
      in if mod_event_count r MOD_EV_SHIP_DAMAGE \<noteq> 0
         then case mod_ship_damage r original s1 of (returned, s2) \<Rightarrow>
                site MOD_EV_SHIP_DAMAGE (returned \<noteq> original) (set_r3 returned s2)
         else site MOD_EV_SHIP_DAMAGE False s1)"

section \<open>Following a battle, and the forced request\<close>

text \<open>The turn order as the game keeps it: every entry after the first negative one reads as -1.\<close>

fun read_order_from :: "'b bio \<Rightarrow> nat list \<Rightarrow> bool \<Rightarrow> 'b bcpu \<Rightarrow> u8 list \<times> 'b bcpu" where
  "read_order_from io [] past s = ([], s)"
| "read_order_from io (i # is') past s =
     (case (if past then (0xFF, s) else mem_r8 io (0x803092F4 + of_nat i) s) of (b, s1) \<Rightarrow>
      case read_order_from io is' (past \<or> sint b < 0) s1 of (bs, s2) \<Rightarrow> (b # bs, s2))"

definition read_order :: "'b bio \<Rightarrow> 'b bcpu \<Rightarrow> u8 list \<times> 'b bcpu" where
  "read_order io s = read_order_from io [0..<SLOTS] False s"

text \<open>One slot: its actor, HP, status and MP now, kept; a difference is one change.\<close>

definition actor_now :: "'b bio \<Rightarrow> nat \<Rightarrow> 'b bcpu \<Rightarrow> (u32 \<times> u32 \<times> u32 \<times> u8) \<times> 'b bcpu" where
  "actor_now io i s =
     (case mem_r32 io (SOA_BATTLE_ACTORS + 4 * of_nat i) s of (a, s1) \<Rightarrow>
      if a = 0 then ((a, 0, 0, 0), s1)
      else case mem_r32 io (a + 20) s1 of (hp, s2) \<Rightarrow>
           case mem_r32 io (a + 28) s2 of (status, s3) \<Rightarrow>
           case mem_r8 io (a + 254) s3 of (mp, s4) \<Rightarrow> ((a, hp, status, mp), s4))"

definition actor_seen :: "battle_seen \<Rightarrow> nat \<Rightarrow> u32 \<times> u32 \<times> u32 \<times> u8" where
  "actor_seen v i = (seen_actor v ! i, seen_hp v ! i, seen_status v ! i, seen_mp v ! i)"

definition see_actor :: "nat \<Rightarrow> u32 \<times> u32 \<times> u32 \<times> u8 \<Rightarrow> battle_seen \<Rightarrow> battle_seen" where
  "see_actor i q v = (case q of (a, hp, status, mp) \<Rightarrow>
     v\<lparr>seen_actor := (seen_actor v)[i := a], seen_hp := (seen_hp v)[i := hp],
       seen_status := (seen_status v)[i := status], seen_mp := (seen_mp v)[i := mp]\<rparr>)"

fun log_actors :: "'b bio \<Rightarrow> nat list \<Rightarrow> 'b bcpu \<Rightarrow> 'b bcpu" where
  "log_actors io [] s = s"
| "log_actors io (i # is') s =
     (case actor_now io i s of (q, s1) \<Rightarrow>
        log_actors io is' (b_upd (\<lambda>b. b\<lparr>
          g_changed := g_changed b + (if q \<noteq> actor_seen (g_seen b) i then 1 else 0),
          g_seen := see_actor i q (g_seen b)\<rparr>) s1))"

definition b_seen :: "(battle_seen \<Rightarrow> battle_seen) \<Rightarrow> 'b bcpu \<Rightarrow> 'b bcpu" where
  "b_seen f = b_upd (\<lambda>b. b\<lparr>g_seen := f (g_seen b)\<rparr>)"

definition battle_log_changes :: "'b bio \<Rightarrow> 'b bcpu \<Rightarrow> 'b bcpu" where
  "battle_log_changes io s =
     (case mem_r32 io SOA_BATTLE_CONTEXT s of (ctx, s0) \<Rightarrow>
      case mem_r32 io SOA_BATTLE_PHASE s0 of (phase, s1) \<Rightarrow>
      let s2 = log_actors io [0..<SLOTS] s1;
          s3 = (if nonzero ctx
                then case mem_r16 io (ctx + 8) s2 of (sp, s') \<Rightarrow> b_seen (\<lambda>v. v\<lparr>seen_sp := sp\<rparr>) s'
                else s2)
      in case read_order io s3 of (order, s4) \<Rightarrow>
           b_seen (\<lambda>v. v\<lparr>seen_order := order,
             seen_rounds := seen_rounds v + (if phase = 1 \<and> seen_phase v \<noteq> 1 then 1 else 0),
             seen_phase := phase\<rparr>) s4)"

text \<open>The request's words, the forced flag last: the game reads it first.\<close>

definition write_request :: "'b bio \<Rightarrow> 'b bcpu \<Rightarrow> 'b bcpu" where
  "write_request io s =
     (let b = user s;
          s1 = mem_w32 io SOA_ENCOUNTER_STEPS 0 s;
          s2 = mem_w32 io SOA_BATTLE_REQUEST_MODE (g_force_mode b) s1;
          s3 = mem_w32 io SOA_BATTLE_REQUEST_ID (g_force_id b) s2;
          s4 = mem_w32 io SOA_BATTLE_REQUEST_STAGE (g_force_stage b) s3;
          s5 = mem_w32 io SOA_BATTLE_REQUEST_TRANSITION 0xFFFFFFFF s4
      in mem_w32 io SOA_BATTLE_REQUEST_FORCED 1 s5)"

definition seen_new :: "u32 \<Rightarrow> u64 \<Rightarrow> u64 \<Rightarrow> battle_seen" where
  "seen_new frame calls nonz = \<lparr>in_battle = True, seen_actor = replicate SLOTS 0, seen_hp = replicate SLOTS 0,
     seen_status = replicate SLOTS 0, seen_mp = replicate SLOTS 0, seen_sp = 0,
     seen_order = replicate SLOTS 0xFF, seen_phase = 0, seen_rounds = 0, start_frame = frame,
     calls_at_start = calls, nonzero_at_start = nonz\<rparr>"

definition force_step :: "'b bio \<Rightarrow> u32 \<Rightarrow> u32 \<Rightarrow> u32 \<Rightarrow> 'b bcpu \<Rightarrow> 'b bcpu" where
  "force_step io frame scene state s =
     (let b = user s
      in if g_force b \<and> \<not> g_forced b \<and> frame \<ge> g_force_frame b \<and> scene = SCENE_FIELD \<and> state = FIELD_RUNNING
         then b_upd (\<lambda>b. b\<lparr>g_forced := True\<rparr>) (write_request io s)
         else if g_forced b \<and> \<not> g_armed_said b \<and> scene = SCENE_FIELD \<and> state \<noteq> FIELD_RUNNING
         then case mem_r32 io SOA_BATTLE_REQUEST_FORCED s of (armed, s1) \<Rightarrow>
                if nonzero armed then b_upd (\<lambda>b. b\<lparr>g_armed_said := True\<rparr>) s1 else s1
         else s)"

definition log_step :: "'b bio \<Rightarrow> u32 \<Rightarrow> u32 \<Rightarrow> 'b bcpu \<Rightarrow> 'b bcpu" where
  "log_step io frame scene s =
     (let s1 = (if scene = SCENE_BATTLE \<and> \<not> in_battle (g_seen (user s))
                then b_upd (\<lambda>b. b\<lparr>g_seen := seen_new frame (g_calls b) (g_nonzero b),
                  g_battles := g_battles b + 1\<rparr>) s
                else s);
          s2 = (if scene = SCENE_BATTLE then battle_log_changes io s1 else s1)
      in if scene \<noteq> SCENE_BATTLE \<and> in_battle (g_seen (user s2))
         then b_seen (\<lambda>v. v\<lparr>in_battle := False\<rparr>) s2 else s2)"

definition battle_safe_point :: "'b bio \<Rightarrow> u32 \<Rightarrow> 'b bcpu \<Rightarrow> 'b bcpu" where
  "battle_safe_point io frame s =
     (case mem_r32 io SOA_SCENE s of (scene, s0) \<Rightarrow>
      case mem_r32 io SOA_FIELD_STATE s0 of (state, s1) \<Rightarrow>
      let s2 = force_step io frame scene state s1
      in if g_log (user s2) then log_step io frame scene s2 else s2)"

text \<open>
  \<open>mode:id:stage@frame\<close>, as \<open>sscanf\<close> with four \<open>%u\<close> reads it: white space and a sign may come
  before each number, the text between must match, the rest of the text is not looked at. The
  numbers read before a mismatch are stored.
\<close>

definition scan_u :: "string \<Rightarrow> (u32 \<times> string) option" where
  "scan_u s =
     (let p = dropWhile is_space s;
          q = (if p \<noteq> [] \<and> hd p \<in> {CHR ''-'', CHR ''+''} then tl p else p)
      in if takeWhile is_digit q = [] then None
         else Some (of_nat (fst (strtoul p)), dropWhile is_digit q))"

definition scan_char :: "char \<Rightarrow> string \<Rightarrow> string option" where
  "scan_char c s = (if s \<noteq> [] \<and> hd s = c then Some (tl s) else None)"

fun scan_force :: "char list \<Rightarrow> string \<Rightarrow> u32 list" where
  "scan_force [] s = (case scan_u s of None \<Rightarrow> [] | Some (v, _) \<Rightarrow> [v])"
| "scan_force (c # cs) s =
     (case scan_u s of None \<Rightarrow> []
      | Some (v, p) \<Rightarrow> v # (case scan_char c p of None \<Rightarrow> [] | Some p' \<Rightarrow> scan_force cs p'))"

definition set_force :: "u32 list \<Rightarrow> 'b battle_dev_scheme \<Rightarrow> 'b battle_dev_scheme" where
  "set_force vs b = b\<lparr>
     g_force_mode := (if length vs \<ge> 1 then vs ! 0 else g_force_mode b),
     g_force_id := (if length vs \<ge> 2 then vs ! 1 else g_force_id b),
     g_force_stage := (if length vs \<ge> 3 then vs ! 2 else g_force_stage b),
     g_force_frame := (if length vs \<ge> 4 then vs ! 3 else g_force_frame b),
     g_force := g_force b \<or> length vs = 4\<rparr>"

definition battle_events :: "event list" where
  "battle_events = [MOD_EV_DAMAGE, MOD_EV_HEAL, MOD_EV_ENEMY_SPAWN, MOD_EV_ENEMY_ACTION, MOD_EV_TURN_ORDER,
     MOD_EV_SPIRIT_GAIN, MOD_EV_ESCAPE, MOD_EV_REWARDS, MOD_EV_EFFECT, MOD_EV_ROUND_END, MOD_EV_SHIP_DAMAGE]"

text \<open>The last two components: whether the safe-point hook and the report are registered.\<close>

definition battle_init ::
  "string option \<Rightarrow> string option \<Rightarrow> 'b bregistry \<Rightarrow> 'b battle_dev_scheme \<Rightarrow> 'b battle_dev_scheme \<times> bool \<times> bool" where
  "battle_init log force r b =
     (let b1 = b\<lparr>g_log := (case log of None \<Rightarrow> False
            | Some t \<Rightarrow> (case scan_u t of None \<Rightarrow> False | Some (v, _) \<Rightarrow> nonzero v))\<rparr>;
          b2 = (case force of None \<Rightarrow> b1
            | Some t \<Rightarrow> if t = [] then b1 else set_force (scan_force ''::@'' t) b1);
          b3 = b2\<lparr>g_any_event := g_any_event b2 \<or> list_ex (\<lambda>ev. mod_event_count r ev \<noteq> 0) battle_events\<rparr>
      in (b3, g_log b3 \<or> g_force b3, g_log b3 \<or> g_force b3 \<or> g_any_event b3))"

section \<open>Lemmas\<close>

lemma b_upd_simps [simp]:
  "mem (b_upd f s) = mem s" "gpr (b_upd f s) = gpr s" "user (b_upd f s) = f (user s)"
  by (simp_all add: b_upd_def)

lemma site_keeps [simp]: "mem (site ev c s) = mem s" "gpr (site ev c s) = gpr s"
  by (simp_all add: site_def)

lemma plain_words_of_battle [simp]:
  "\<not> is_mmio SOA_BATTLE_PHASE" "\<not> is_mmio SOA_BATTLE_CONTEXT" "\<not> is_mmio SOA_BATTLE_ROUND_STATE"
  "\<not> is_mmio SOA_BATTLE_ROUND" "\<not> is_mmio SOA_SCENE" "\<not> is_mmio SOA_FIELD_STATE"
  "\<not> is_mmio SOA_BATTLE_REQUEST_FORCED"
  by (simp_all add: is_mmio_def SOA_BATTLE_PHASE_def SOA_BATTLE_CONTEXT_def SOA_BATTLE_ROUND_STATE_def
      SOA_BATTLE_ROUND_def SOA_SCENE_def SOA_FIELD_STATE_def SOA_BATTLE_REQUEST_FORCED_def)

text \<open>A word of ordinary memory.\<close>

definition word_at :: "(nat \<Rightarrow> u8) \<Rightarrow> u32 \<Rightarrow> u32" where
  "word_at m a = get32 (m (mem_ptr a)) (m (mem_ptr a + 1)) (m (mem_ptr a + 2)) (m (mem_ptr a + 3))"

definition half_at :: "(nat \<Rightarrow> u8) \<Rightarrow> u32 \<Rightarrow> u16" where
  "half_at m a = ucast (get16 (m (mem_ptr a)) (m (mem_ptr a + 1)))"

lemma plain_reads:
  assumes "\<not> is_mmio a"
  shows "mem_r8 io a s = (mem s (mem_ptr a), s)" "mem_r16 io a s = (half_at (mem s) a, s)"
    "mem_r32 io a s = (word_at (mem s) a, s)"
  using assms by (simp_all add: mem_r8_def mem_r16_def mem_r32_def Let_def word_at_def half_at_def)

text \<open>The two states differ in nothing but the statics of the host.\<close>

definition same_game :: "'b bcpu \<Rightarrow> 'b bcpu \<Rightarrow> bool" where
  "same_game s t \<longleftrightarrow> s\<lparr>user := user t\<rparr> = t"

lemma same_game_refl [simp]: "same_game s s" "same_game (site ev c s) s" "same_game (b_upd f s) s"
  by (simp_all add: same_game_def site_def b_upd_def)

lemma same_game_trans: "same_game s t \<Longrightarrow> same_game t u \<Longrightarrow> same_game s u"
  unfolding same_game_def by (metis cpu.surjective cpu.update_convs(17) cpu.fold_congs(17))

text \<open>With no callback on any battle event, a wrapper answers exactly as the translated function
  would: the state it leaves is the one the original leaves, or the one the original leaves
  started from the wrapper's own, up to the counters of the report.\<close>

definition vanilla :: "'b orig \<Rightarrow> u32 \<Rightarrow> 'b bcpu \<Rightarrow> 'b bcpu \<Rightarrow> bool" where
  "vanilla orig a s t \<longleftrightarrow> (\<exists>s0. same_game s0 (s\<lparr>pc := a\<rparr>) \<and> same_game t (orig a s0))"

definition no_battle_mods :: "'b bregistry \<Rightarrow> bool" where
  "no_battle_mods r \<longleftrightarrow> list_all (\<lambda>ev. mod_event_count r ev = 0) battle_events"

lemma no_battle_mods_simps:
  "no_battle_mods r \<Longrightarrow> ev \<in> set battle_events \<Longrightarrow> mod_event_count r ev = 0"
  by (auto simp: no_battle_mods_def list_all_iff)

lemma set_r3_self [simp]: "gpr s 3 = v \<Longrightarrow> set_r3 v s = s"
  by (auto simp: set_r3_def)

lemma vanilla_after: "same_game t (orig a (s\<lparr>pc := a\<rparr>)) \<Longrightarrow> vanilla orig a s t"
  unfolding vanilla_def using same_game_refl(1) by blast

lemma vanilla_before: "same_game s0 (s\<lparr>pc := a\<rparr>) \<Longrightarrow> vanilla orig a s (orig a s0)"
  unfolding vanilla_def using same_game_refl(1) by blast

lemma same_game_site: "same_game s t \<Longrightarrow> same_game (site ev c s) t" "same_game s t \<Longrightarrow> same_game (b_upd f s) t"
  using same_game_trans same_game_refl by blast+

text \<open>The twelve bytes of the turn order.\<close>

lemma order_plain: "i < 12 \<Longrightarrow> \<not> is_mmio (SOA_BATTLE_TURN_ORDER + of_nat i)"
  "i < 12 \<Longrightarrow> mem_ptr (SOA_BATTLE_TURN_ORDER + of_nat i) = mem_ptr SOA_BATTLE_TURN_ORDER + i"
  using ram_offset [of SOA_BATTLE_TURN_ORDER 12 i] by (simp_all add: SOA_BATTLE_TURN_ORDER_def)

lemma order_bytes_from:
  "i + k \<le> 12 \<Longrightarrow> order_bytes io [i..<i + k] s = (rd_bytes (mem s) (mem_ptr SOA_BATTLE_TURN_ORDER + i) k, s)"
proof (induction k arbitrary: i)
  case (Suc k)
  have r: "rd_bytes m a (Suc k) = m a # rd_bytes m (a + 1) k" for m :: "nat \<Rightarrow> u8" and a
    using rd_bytes_add [of m a 1 k] by (simp add: rd_bytes_def)
  have "[i..<i + Suc k] = i # [Suc i..<Suc i + k]" by (simp add: upt_conv_Cons)
  then show ?case
    using Suc.IH [of "Suc i"] Suc.prems by (simp add: plain_reads order_plain r)
qed simp

lemma order_bytes_plain:
  "order_bytes io [0..<SLOTS] s = (rd_bytes (mem s) (mem_ptr SOA_BATTLE_TURN_ORDER) 12, s)"
  using order_bytes_from [of 0 12] by (simp add: SLOTS_def)

lemma wrappers_vanilla:
  assumes none: "no_battle_mods r" and log: "\<And>a. \<not> g_log (user (orig a (s\<lparr>pc := a\<rparr>)))"
    and actor: "\<not> is_mmio (gpr s 3 + 20)"
    and ctx: "ctx = word_at (mem s) SOA_BATTLE_CONTEXT" "\<not> is_mmio (ctx + 1)" "\<not> is_mmio (ctx + 8)"
      "\<not> is_mmio (ctx + 48)" "\<not> is_mmio (ctx + 52)"
    and msg: "\<not> is_mmio (gpr s 3)" "\<not> is_mmio (gpr s 3 + 6)" "\<not> is_mmio (gpr s 3 + 8)"
  shows "vanilla orig 0x800108EC s (fn_800108EC orig r s)"
    and "vanilla orig 0x8006AE20 s (fn_8006AE20 io orig r s)"
    and "vanilla orig 0x800770B8 s (fn_800770B8 io orig r s)"
    and "vanilla orig 0x8008A424 s (fn_8008A424 orig r s)"
    and "vanilla orig 0x80070C18 s (fn_80070C18 io orig r s)"
    and "vanilla orig 0x8006EF48 s (fn_8006EF48 io orig r s)"
    and "vanilla orig 0x80010340 s (fn_80010340 orig r s)"
    and "vanilla orig 0x8006F4B0 s (fn_8006F4B0 io orig r s)"
    and "vanilla orig 0x8002BD88 s (fn_8002BD88 io orig r s)"
    and "vanilla orig 0x8006FD6C s (fn_8006FD6C io orig r s)"
    and "vanilla orig 0x80146BF4 s (fn_80146BF4 orig r s)"
proof -
  note n = no_battle_mods_simps [OF none, unfolded battle_events_def, simplified]
  note p = same_game_site plain_reads n
  show "vanilla orig 0x800108EC s (fn_800108EC orig r s)"
    by (rule vanilla_after) (simp add: fn_800108EC_def Let_def p)
  show "vanilla orig 0x8006AE20 s (fn_8006AE20 io orig r s)"
    using log by (intro vanilla_after) (simp add: fn_8006AE20_def Let_def p)
  show "vanilla orig 0x800770B8 s (fn_800770B8 io orig r s)"
    using actor by (intro vanilla_after) (simp add: fn_800770B8_def Let_def p)
  show "vanilla orig 0x8008A424 s (fn_8008A424 orig r s)"
    by (rule vanilla_after) (simp add: fn_8008A424_def Let_def p)
  show "vanilla orig 0x80010340 s (fn_80010340 orig r s)"
    by (rule vanilla_after) (simp add: fn_80010340_def Let_def p)
  show "vanilla orig 0x80146BF4 s (fn_80146BF4 orig r s)"
    by (rule vanilla_after) (simp add: fn_80146BF4_def Let_def p)
  show "vanilla orig 0x8006FD6C s (fn_8006FD6C io orig r s)"
    by (rule vanilla_after) (simp add: fn_8006FD6C_def Let_def p)
  show "vanilla orig 0x80070C18 s (fn_80070C18 io orig r s)"
    by (rule vanilla_after) (simp add: fn_80070C18_def Let_def p order_bytes_plain)
  show "vanilla orig 0x8006EF48 s (fn_8006EF48 io orig r s)"
    using ctx by (intro vanilla_after) (simp add: fn_8006EF48_def Let_def p)
  show "vanilla orig 0x8006F4B0 s (fn_8006F4B0 io orig r s)"
    using ctx by (cases "ctx = 0"; cases "word_at (mem s) SOA_BATTLE_ROUND_STATE = 2")
      (simp_all add: fn_8006F4B0_def pay_rewards_def get_rewards_def vanilla_before p)
  show "vanilla orig 0x8002BD88 s (fn_8002BD88 io orig r s)"
    using msg by (simp add: fn_8002BD88_def apply_effect_def Let_def vanilla_before p)
qed

section \<open>The turn order\<close>

definition slots_of :: "u8 list \<Rightarrow> u8 list" where
  "slots_of order = takeWhile (\<lambda>x. 0 \<le> sint x) order"

text \<open>Distinct slots 0-11, up to a -1 or all twelve.\<close>

definition proper_order :: "u8 list \<Rightarrow> bool" where
  "proper_order order \<longleftrightarrow> distinct (slots_of order) \<and> (\<forall>x\<in>set (slots_of order). sint x < int SLOTS)
     \<and> (length (slots_of order) < SLOTS \<longrightarrow> order ! length (slots_of order) = 0xFF)"

lemma slot_unat:
  assumes "0 \<le> sint (x :: u8)"
  shows "unat x = nat (sint x)"
proof -
  have b: "\<not> bit x 7" using assms bit_last_iff [of x] by simp
  then have "sint x = take_bit 7 (uint x)"
    by (simp add: sint_uint signed_take_bit_eq_if_positive bit_uint_iff)
  moreover have "n < 7" if "bit x n" for n
    using b that bit_imp_le_length [OF that] by (cases "n = 7") auto
  then have "take_bit 7 (uint x) = uint x"
    by (intro bit_eqI) (auto simp: bit_simps)
  ultimately show ?thesis by (simp add: nat_uint_eq)
qed

lemma bit_seen:
  "0 \<le> sint x \<Longrightarrow> sint x < 12 \<Longrightarrow>
   bit (seen OR 2 ^ unat x :: u32) (unat (y :: u8)) \<longleftrightarrow> bit seen (unat y) \<or> y = x"
  using slot_unat [of x] by (auto simp: bit_simps word_unat_eq_iff)

lemma order_scan_spec:
  "order_scan xs n seen ok = (n + length (slots_of xs),
     ok \<and> distinct (slots_of xs) \<and> (\<forall>x\<in>set (slots_of xs). sint x < 12 \<and> \<not> bit seen (unat x)))"
proof (induction xs n seen ok rule: order_scan.induct)
  case (2 x xs n seen ok)
  then show ?case
    by (auto simp: slots_of_def SLOTS_def bit_seen not_le)
qed (simp add: slots_of_def)

lemma write_order_mem:
  "i + length xs \<le> 12 \<Longrightarrow>
   mem (write_order io i xs s) = wr_bytes (mem s) (mem_ptr SOA_BATTLE_TURN_ORDER + i) xs"
proof (induction xs arbitrary: i s)
  case (Cons x xs)
  have "wr_bytes (wr_bytes m a [x]) (Suc a) xs = wr_bytes m a (x # xs)" for m a
    using wr_bytes_append [of m a "[x]" xs] by simp
  then show ?case using Cons by (simp add: order_plain mem_w_plain)
qed simp

lemma slots_of_length: "length (slots_of xs) \<le> length xs"
  by (simp add: slots_of_def length_takeWhile_le)

lemma take_order_mem:
  assumes len: "length mine = 12" "length order = 12" and t: "take_order io order mine s = (changed, t)"
  shows "mem t = (if changed then wr_bytes (mem s) (mem_ptr SOA_BATTLE_TURN_ORDER)
      (slots_of mine @ (if length (slots_of mine) < 12 then [0xFF] else [])) else mem s)"
    and "changed \<longleftrightarrow> proper_order mine
      \<and> take (Suc (length (slots_of mine))) mine \<noteq> take (Suc (length (slots_of mine))) order"
proof -
  let ?p = "slots_of mine"
  have le: "length ?p \<le> 12" using slots_of_length [of mine] len by simp
  have tk: "take (length ?p) mine = ?p" by (simp add: slots_of_def takeWhile_eq_take [symmetric])
  show "mem t = (if changed then wr_bytes (mem s) (mem_ptr SOA_BATTLE_TURN_ORDER)
      (?p @ (if length ?p < 12 then [0xFF] else [])) else mem s)"
    using t le wr_bytes_append [of "mem s" "mem_ptr SOA_BATTLE_TURN_ORDER" ?p "[0xFF]"]
    by (auto simp: take_order_def order_scan_spec Let_def SLOTS_def tk write_order_mem order_plain
        mem_w_plain split: if_splits)
  show "changed \<longleftrightarrow> proper_order mine \<and> take (Suc (length ?p)) mine \<noteq> take (Suc (length ?p)) order"
    using t le len
    by (auto simp: take_order_def order_scan_spec Let_def SLOTS_def proper_order_def split: if_splits)
qed

section \<open>Gauges\<close>

lemma uint_of_nonneg:
  assumes "0 \<le> sint (w :: 'a::len word)"
  shows "uint w = sint w"
  using assms sint_lt [of w] by (simp add: uint_sint take_bit_int_eq_self_iff) (metis less_imp_diff_less less_le_trans linorder_not_le one_le_numeral power_increasing diff_le_self not_le)

lemma sint_of_small:
  assumes "uint (w :: 'a::len word) < 2 ^ (LENGTH('a) - 1)"
  shows "sint w = uint w"
  using assms order_trans [of "- (2 ^ (LENGTH('a) - Suc 0))" 0 "uint w"]
  by (simp add: sint_uint signed_take_bit_int_eq_self_iff)

lemma sint_ucast_half: 
  assumes "0 \<le> sint (w :: u32)" "sint w < 2 ^ 15"
  shows "sint (ucast w :: u16) = sint w"
proof -
  have "uint w = sint w" by (rule uint_of_nonneg [OF assms(1)])
  then have "uint (ucast w :: u16) = sint w"
    using assms by (simp add: uint_up_ucast unsigned_ucast_eq take_bit_int_eq_self_iff)
  then show ?thesis using assms sint_of_small [of "ucast w :: u16"] by simp
qed

lemma half_at_put: "half_at (wr_bytes m (mem_ptr a) (put16 (ucast v))) a = v"
proof -
  have "ucast ((ucast v :: u32) AND mask 16) = v"
    by (intro bit_word_eqI) (auto simp: bit_simps dest: bit_imp_le_length)
  then have "ucast ((ucast v :: u32) AND 0xFFFF) = v" by (simp add: mask_eq_exp_minus_1)
  then show ?thesis by (simp add: half_at_def put16_def wr_bytes_def put16_get16)
qed

lemma half_at_other:
  "mem_ptr b + 2 \<le> p \<or> p + length bs \<le> mem_ptr b \<Longrightarrow> half_at (wr_bytes m p bs) b = half_at m b"
  by (auto simp: half_at_def wr_bytes_def)

lemma clamp_spirit_bounds:
  assumes "0 \<le> sint mx"
  shows "0 \<le> sint (ucast (clamp_spirit sp amount mx) :: u16) \<and> sint (ucast (clamp_spirit sp amount mx) :: u16) \<le> sint mx"
    and "- (2 ^ 31) \<le> sint sp + sint amount \<Longrightarrow> sint sp + sint amount < 2 ^ 31 \<Longrightarrow>
      sint (ucast (clamp_spirit sp amount mx) :: u16) = max 0 (min (sint sp + sint amount) (sint mx))"
proof -
  have m: "sint (scast mx :: u32) = sint mx" "sint mx < 2 ^ 15"
    using sint_lt [of mx] by (simp_all add: sint_up_scast is_up_def source_size_def target_size_def word_size)
  have c: "sint (clamp_spirit sp amount mx) = max 0 (min (sint (scast sp + amount)) (sint mx))"
    using assms m by (auto simp: clamp_spirit_def Let_def)
  then have u: "sint (ucast (clamp_spirit sp amount mx) :: u16) = sint (clamp_spirit sp amount mx)"
    using m assms by (intro sint_ucast_half) auto
  then show "0 \<le> sint (ucast (clamp_spirit sp amount mx) :: u16) \<and> sint (ucast (clamp_spirit sp amount mx) :: u16) \<le> sint mx"
    using c assms by auto
  assume r: "- (2 ^ 31) \<le> sint sp + sint amount" "sint sp + sint amount < 2 ^ 31"
  have "sint (scast sp :: u32) = sint sp"
    by (simp add: sint_up_scast is_up_def source_size_def target_size_def word_size)
  then have "sint (scast sp + amount) = sint sp + sint amount"
    using r by (simp add: sint_word_ariths signed_take_bit_int_eq_self)
  then show "sint (ucast (clamp_spirit sp amount mx) :: u16) = max 0 (min (sint sp + sint amount) (sint mx))"
    using c u by simp
qed

text \<open>A context block of the battle in RAM: its fields are plain and keep apart.\<close>

definition ctx_ok :: "u32 \<Rightarrow> bool" where
  "ctx_ok ctx \<longleftrightarrow> 0x80000000 \<le> ctx \<and> unat ctx + 56 \<le> 0x81800000"

lemma ctx_field:
  assumes "ctx_ok ctx"
  shows "\<not> is_mmio (ctx + 1)" "\<not> is_mmio (ctx + 6)" "\<not> is_mmio (ctx + 8)" "\<not> is_mmio (ctx + 10)"
    "\<not> is_mmio (ctx + 48)" "\<not> is_mmio (ctx + 52)"
    "mem_ptr (ctx + 1) = mem_ptr ctx + 1" "mem_ptr (ctx + 6) = mem_ptr ctx + 6"
    "mem_ptr (ctx + 8) = mem_ptr ctx + 8" "mem_ptr (ctx + 10) = mem_ptr ctx + 10"
    "mem_ptr (ctx + 48) = mem_ptr ctx + 48" "mem_ptr (ctx + 52) = mem_ptr ctx + 52" "ctx \<noteq> 0"
  using assms ram_offset [of ctx 56 1] ram_offset [of ctx 56 6] ram_offset [of ctx 56 8]
    ram_offset [of ctx 56 10] ram_offset [of ctx 56 48] ram_offset [of ctx 56 52]
  by (auto simp: ctx_ok_def)

text \<open>The guest the mods see: the original has run with no ceiling, the ceiling is back.\<close>

definition spirit_run :: "'b bio \<Rightarrow> 'b orig \<Rightarrow> u32 \<Rightarrow> 'b bcpu \<Rightarrow> 'b bcpu" where
  "spirit_run io orig ctx s =
     orig 0x8006EF48 (mem_w16 io (ctx + 6) 0x7FFF (mem_w16 io (ctx + 8) 0 (s\<lparr>pc := 0x8006EF48\<rparr>)))"

lemma spirit_gauge:
  assumes ctx: "ctx = word_at (mem s) SOA_BATTLE_CONTEXT" "ctx_ok ctx" and mods: "reg_spirit_gain r \<noteq> []"
    and gain: "s1 = spirit_run io orig ctx s" "mx = half_at (mem s) (ctx + 6)" "sp = half_at (mem s) (ctx + 8)"
      "mod_spirit_gain r (scast (half_at (mem s1) (ctx + 8))) (mem_w16 io (ctx + 6) mx s1) = (amount, s2)"
  defines "now \<equiv> ucast (clamp_spirit sp amount mx) :: u16"
  shows "mem (fn_8006EF48 io orig r s)
    = wr_bytes (wr_bytes (mem s2) (mem_ptr ctx + 8) (put16 (ucast now))) (mem_ptr ctx + 10) (put16 (ucast now))"
proof -
  have c: "mod_event_count r MOD_EV_SPIRIT_GAIN \<noteq> 0" using mods by (simp add: mod_event_count_def)
  show ?thesis
    using ctx gain c ctx_field [OF ctx(2)]
    by (simp add: fn_8006EF48_def plain_reads Let_def spirit_run_def mem_w_plain now_def)
qed

definition rewards_at :: "(nat \<Rightarrow> u8) \<Rightarrow> u32 \<Rightarrow> soa_rewards" where
  "rewards_at m ctx = \<lparr>rw_exp = word_at m (ctx + 48), rw_gold = word_at m (ctx + 52),
     rw_magic_exp = scast (m (mem_ptr (ctx + 1)))\<rparr>"

lemma word_at_put: "mem_ptr b = p \<Longrightarrow> word_at (wr_bytes m p (put32 v)) b = v"
  by (auto simp: word_at_def wr_bytes_def put32_def be_simps)

lemma wr_bytes_one: "wr_bytes m p [v] p = v"
  by (simp add: wr_bytes_def)

lemma word_at_other:
  "mem_ptr b + 4 \<le> p \<or> p + length bs \<le> mem_ptr b \<Longrightarrow> word_at (wr_bytes m p bs) b = word_at m b"
  by (auto simp: word_at_def wr_bytes_def)

lemma held_ranges:
  "0 \<le> sint (rw_exp (hold_rewards g)) \<and> 0 \<le> sint (rw_gold (hold_rewards g))
    \<and> sint (rw_gold (hold_rewards g)) \<le> 99999999 \<and> 0 \<le> sint (rw_magic_exp (hold_rewards g))
    \<and> sint (rw_magic_exp (hold_rewards g)) \<le> 127"
  by (simp add: hold_rewards_def)

lemma scast_ucast_small:
  assumes "0 \<le> sint (w :: u32)" "sint w < 2 ^ 7"
  shows "scast (ucast w :: u8) = w"
proof -
  have "uint w = sint w" by (rule uint_of_nonneg [OF assms(1)])
  then have "uint (ucast w :: u8) = sint w"
    using assms by (simp add: unsigned_ucast_eq take_bit_int_eq_self_iff)
  then have "sint (ucast w :: u8) = sint w"
    using assms sint_of_small [of "ucast w :: u8"] by simp
  then show ?thesis by (simp add: scast_eq)
qed

lemma put_rewards_mem:
  assumes ctx: "ctx_ok ctx" and was: "rewards_at (mem s) ctx = was" and r: "r = hold_rewards g"
  shows "rewards_at (mem (put_rewards io ctx was r s)) ctx = r"
proof -
  note c = ctx_field [OF ctx]
  have m: "scast (ucast (rw_magic_exp r) :: u8) = rw_magic_exp r"
    unfolding r using held_ranges [of g] by (intro scast_ucast_small) auto
  have w: "word_at (mem s) (ctx + 48) = rw_exp was" "word_at (mem s) (ctx + 52) = rw_gold was"
    "scast (mem s (mem_ptr ctx + 1)) = rw_magic_exp was"
    "scast (mem s (Suc (mem_ptr ctx))) = rw_magic_exp was"
    using was c by (auto simp: rewards_at_def)
  show ?thesis
    by (rule soa_rewards.equality)
      (auto simp: rewards_at_def put_rewards_def Let_def mem_w_plain c m w word_at_put word_at_other
        wr_bytes_outside wr_bytes_one)
qed

text \<open>What the twelve bytes read as once a proper order is written over them.\<close>

lemma slots_of_written:
  assumes "length mine = 12" "proper_order mine"
  defines "p \<equiv> slots_of mine"
  defines "bs \<equiv> p @ (if length p < 12 then [0xFF] else [])"
  shows "length bs \<le> 12" and "slots_of (rd_bytes (wr_bytes m a bs) a 12) = p"
    and "proper_order (rd_bytes (wr_bytes m a bs) a 12)"
proof -
  show le: "length bs \<le> 12"
    using slots_of_length [of mine] assms(1) by (auto simp: bs_def p_def)
  define rest where "rest = rd_bytes m (a + length bs) (12 - length bs)"
  have rd: "rd_bytes (wr_bytes m a bs) a 12 = bs @ rest"
    using rd_bytes_add [of "wr_bytes m a bs" a "length bs" "12 - length bs"] le
    by (simp add: rest_def store_simps)
  have pos: "\<forall>x\<in>set p. 0 \<le> sint x" by (auto simp: p_def slots_of_def dest: set_takeWhileD)
  have full: "rest = []" if "length p = 12" using that by (simp add: rest_def bs_def)
  show s: "slots_of (rd_bytes (wr_bytes m a bs) a 12) = p"
    using pos full le unfolding rd by (cases "length p = 12") (auto simp: slots_of_def bs_def)
  show "proper_order (rd_bytes (wr_bytes m a bs) a 12)"
    using assms(2) le unfolding proper_order_def s unfolding rd
    by (auto simp: bs_def nth_append SLOTS_def p_def)
qed

lemma event_each_length:
  assumes "\<And>c v s. c \<in> set cs \<Longrightarrow> length (fst (run (cb_fn c) v s)) = length v"
  shows "length (fst (event_each ev i cs run v s)) = length v"
  using assms
proof (induction cs arbitrary: i v s)
  case (Cons c cs)
  obtain ctx s1 where b: "event_begin ev i (cb_mod c) s = (ctx, s1)" by fastforce
  obtain v' s2 where r: "run (cb_fn c) v s1 = (v', s2)" by fastforce
  then show ?case using Cons.IH [of "Suc i" v' "event_end ctx s2"] Cons.prems [of c v s1] Cons.prems b
    by simp
qed simp

section \<open>Properties\<close>

text \<open>C24: with no mod on a battle event each of the eleven answered functions leaves the guest exactly
  as the translated original does: every register and byte, only the report's counters apart.\<close>

theorem battle_without_mods:
  assumes "no_battle_mods r" "\<And>a. \<not> g_log (user (orig a (s\<lparr>pc := a\<rparr>)))"
    "\<not> is_mmio (gpr s 3 + 20)"
    "ctx = word_at (mem s) SOA_BATTLE_CONTEXT" "\<not> is_mmio (ctx + 1)" "\<not> is_mmio (ctx + 8)"
      "\<not> is_mmio (ctx + 48)" "\<not> is_mmio (ctx + 52)"
    "\<not> is_mmio (gpr s 3)" "\<not> is_mmio (gpr s 3 + 6)" "\<not> is_mmio (gpr s 3 + 8)"
  shows "vanilla orig 0x800108EC s (fn_800108EC orig r s)
    \<and> vanilla orig 0x8006AE20 s (fn_8006AE20 io orig r s)
    \<and> vanilla orig 0x800770B8 s (fn_800770B8 io orig r s)
    \<and> vanilla orig 0x8008A424 s (fn_8008A424 orig r s)
    \<and> vanilla orig 0x80070C18 s (fn_80070C18 io orig r s)
    \<and> vanilla orig 0x8006EF48 s (fn_8006EF48 io orig r s)
    \<and> vanilla orig 0x80010340 s (fn_80010340 orig r s)
    \<and> vanilla orig 0x8006F4B0 s (fn_8006F4B0 io orig r s)
    \<and> vanilla orig 0x8002BD88 s (fn_8002BD88 io orig r s)
    \<and> vanilla orig 0x8006FD6C s (fn_8006FD6C io orig r s)
    \<and> vanilla orig 0x80146BF4 s (fn_80146BF4 orig r s)"
  by (intro conjI wrappers_vanilla [where orig = orig and s = s, OF assms])

text \<open>C21: after the call that sets the turn order, memory holds what the mods' callbacks left, but for
  the twelve bytes of the order; those are rewritten exactly when the mods answered with another
  order of distinct slots ending at -1 or full, and then they read as that order.\<close>

theorem turn_order_kept_valid:
  assumes len: "\<And>c v s. c \<in> set (reg_turn_order r) \<Longrightarrow> length (fst (cb_fn c v s)) = length v"
    and mods: "reg_turn_order r \<noteq> []"
    and s1: "s1 = orig 0x80070C18 (s\<lparr>pc := 0x80070C18\<rparr>)" "word_at (mem s) SOA_BATTLE_PHASE = 2"
      "word_at (mem s1) SOA_BATTLE_PHASE = 3"
    and was: "was = rd_bytes (mem s1) (mem_ptr SOA_BATTLE_TURN_ORDER) 12"
      "mod_turn_order r was s1 = (mine, s2)"
  shows "let t = fn_80070C18 io orig r s; now = rd_bytes (mem t) (mem_ptr SOA_BATTLE_TURN_ORDER) 12;
      n = Suc (length (slots_of mine))
    in if proper_order mine \<and> take n mine \<noteq> take n was
       then slots_of now = slots_of mine \<and> proper_order now
         \<and> (\<forall>x. x < mem_ptr SOA_BATTLE_TURN_ORDER \<or> mem_ptr SOA_BATTLE_TURN_ORDER + 12 \<le> x
              \<longrightarrow> mem t x = mem s2 x)
       else mem t = mem s2"
proof -
  have l: "length mine = 12"
    using event_each_length [of "reg_turn_order r" "\<lambda>f. f" MOD_EV_TURN_ORDER 0 was s1] len was
    by (simp add: mod_turn_order_def)
  obtain changed t where t: "take_order io was mine s2 = (changed, t)" by fastforce
  have "fn_80070C18 io orig r s = site MOD_EV_TURN_ORDER changed t"
    using s1 was mods t
    by (simp add: fn_80070C18_def plain_reads Let_def order_bytes_plain mod_event_count_def)
  then have m: "mem (fn_80070C18 io orig r s) = mem t" by simp
  have wl: "length was = 12" using was by simp
  note k = take_order_mem [OF l wl t]
  show ?thesis
  proof (cases changed)
    case True
    have "mem t = wr_bytes (mem s2) (mem_ptr SOA_BATTLE_TURN_ORDER)
        (slots_of mine @ (if length (slots_of mine) < 12 then [0xFF] else []))"
      unfolding k(1) by (simp only: True if_True)
    moreover have p: "proper_order mine"
      and "take (Suc (length (slots_of mine))) mine \<noteq> take (Suc (length (slots_of mine))) was"
      using True k(2) by blast+
    ultimately show ?thesis
      using slots_of_written [OF l p] by (simp only: Let_def m) (simp add: wr_bytes_outside)
  next
    case False
    have "mem t = mem s2" unfolding k(1) by (simp only: False if_False)
    then show ?thesis using False k(2) by (simp only: Let_def m if_False)
  qed
qed

text \<open>A battle whose order is set by the call: the first and the fifth slot act, and a mod passes
  the first one over.\<close>

definition battle0 :: "battle_dev" where
  "battle0 = \<lparr>g_mods = [], g_s_set = True, g_text = [], g_cur_mod = -1, g_in_init = False, g_init_id = [],
     g_event_now = None, cb_calls = (\<lambda>_ _. 0), g_log = False, g_force = False, g_forced = False,
     g_armed_said = False, g_force_mode = 0, g_force_id = 0, g_force_stage = 0, g_force_frame = 0,
     g_calls = 0, g_nonzero = 0, g_changed = 0, g_battles = 0, g_seen = seen_new 0 0 0,
     g_site_calls = (\<lambda>_. 0), g_site_changed = (\<lambda>_. 0), g_any_event = True\<rparr>"

definition battle_mods0 :: "unit bregistry" where
  "battle_mods0 = \<lparr>reg_frame_end = [], reg_safe_point = [], reg_map_loaded = [], reg_scene_change = [],
    reg_damage = [], reg_heal = [], reg_enemy_spawn = [], reg_enemy_action = [],
    reg_turn_order = [\<lparr>cb_fn = (\<lambda>v s. (rotate1 v, s)), cb_mod = 0\<rparr>],
    reg_spirit_gain = [\<lparr>cb_fn = (\<lambda>v s. (v + v, s)), cb_mod = 0\<rparr>],
    reg_escape = [], reg_rewards = [\<lparr>cb_fn = (\<lambda>v s. (v\<lparr>rw_gold := 0x7FFFFFFF\<rparr>, s)), cb_mod = 0\<rparr>],
    reg_effect = [], reg_round_end = [], reg_ship_damage = [], reg_save = [], reg_load = [], reg_new_game = []\<rparr>"

definition battle_guest0 :: "battle_dev cpu" where
  "battle_guest0 = \<lparr>gpr = (\<lambda>_. 0x80300000), fpr = (\<lambda>_. (0, 0)), cr = 0, xer = 0, lr = 0, ctr = 0, fpscr = 0,
     msr = 0, decr = 0, pc = 0, gqr = (\<lambda>_. 0), hid2 = 0, wpar = 0, spr = (\<lambda>_. 0), sr = (\<lambda>_. 0),
     mem = (\<lambda>a. if a = 0x34733F \<or> a = 0x34733B then 2 else if a = 0x347390 then 0x80
       else if a = 0x347391 then 0x30 else if a \<in> {0x300007, 0x300009} then 100 else 0),
     user = battle0\<rparr>"

definition battle_orig0 :: "unit orig" where
  "battle_orig0 a s = (if a = 0x80070C18
     then s\<lparr>mem := wr_bytes ((mem s)(0x34733F := 3)) 0x3092F4 [0, 4, 255, 0, 0, 0, 0, 0, 0, 0, 0, 0]\<rparr>
     else s)"

theorem turn_order_kept_valid_witness:
  "slots_of (rd_bytes (mem (fn_80070C18 io_none battle_orig0 battle_mods0 battle_guest0)) 0x3092F4 12) = [4]"
proof -
  have p: "mem_ptr SOA_BATTLE_TURN_ORDER = 0x3092F4" "mem_ptr SOA_BATTLE_PHASE = 0x34733C"
    by (simp_all add: mem_ptr_def MEM_MASK_def SOA_BATTLE_TURN_ORDER_def SOA_BATTLE_PHASE_def)
  let ?s1 = "battle_orig0 0x80070C18 (battle_guest0\<lparr>pc := 0x80070C18\<rparr>)"
  let ?was = "[0, 4, 255, 0, 0, 0, 0, 0, 0, 0, 0, 0] :: u8 list"
  have w: "?was = rd_bytes (mem ?s1) (mem_ptr SOA_BATTLE_TURN_ORDER) 12"
    by (simp add: p battle_orig0_def store_simps)
  obtain s2 where m: "mod_turn_order battle_mods0 ?was ?s1 = ([4, 255, 0, 0, 0, 0, 0, 0, 0, 0, 0, 0], s2)"
    by (simp add: mod_turn_order_def battle_mods0_def event_begin_def event_end_def)
  have l: "length (fst (cb_fn c v s)) = length v" if "c \<in> set (reg_turn_order battle_mods0)" for c v s
    using that by (simp add: battle_mods0_def)
  have ph: "word_at (mem battle_guest0) SOA_BATTLE_PHASE = 2" "word_at (mem ?s1) SOA_BATTLE_PHASE = 3"
    by (simp_all add: p word_at_def battle_guest0_def battle_orig0_def wr_bytes_def get32_def)
  have "slots_of [4, 255, 0, 0, 0, 0, 0, 0, 0, 0, 0, 0] = [4]" by (simp add: slots_of_def)
  moreover have "proper_order [4, 255, 0, 0, 0, 0, 0, 0, 0, 0, 0, 0]"
    by (simp add: proper_order_def slots_of_def SLOTS_def)
  ultimately show ?thesis
    using turn_order_kept_valid [where s = battle_guest0 and orig = battle_orig0 and io = io_none,
        OF l _ refl ph w m]
    by (simp add: battle_mods0_def p Let_def)
qed

theorem battle_without_mods_witness:
  "vanilla battle_orig0 0x80070C18 battle_guest0
     (fn_80070C18 io_none battle_orig0 (battle_mods0\<lparr>reg_turn_order := [], reg_spirit_gain := [], reg_rewards := []\<rparr>)
       battle_guest0)"
proof -
  have c: "0x80300000 = word_at (mem battle_guest0) SOA_BATTLE_CONTEXT"
    by (simp add: word_at_def battle_guest0_def mem_ptr_def MEM_MASK_def SOA_BATTLE_CONTEXT_def get32_def)
  show ?thesis
    using battle_without_mods [OF _ _ _ c, of "battle_mods0\<lparr>reg_turn_order := [], reg_spirit_gain := [], reg_rewards := []\<rparr>"
        battle_orig0 io_none]
    by (simp add: no_battle_mods_def battle_events_def mod_event_count_def battle_mods0_def battle_guest0_def
        battle_orig0_def battle0_def is_mmio_def)
qed

text \<open>C23: a mod's answer to the round's spirit never leaves the gauge outside 0 and the party's ceiling,
  both words of it agree, and where the sum does not overflow an \<open>int\<close> the gauge is what it was
  plus the mod's amount, held to that range; the game's own rule is asked with an empty gauge and
  no ceiling, and only these four bytes change after the mods.\<close>

theorem spirit_gauge_held:
  assumes ctx: "ctx = word_at (mem s) SOA_BATTLE_CONTEXT" "ctx_ok ctx" and mods: "reg_spirit_gain r \<noteq> []"
    and gain: "s1 = spirit_run io orig ctx s" "mx = half_at (mem s) (ctx + 6)" "sp = half_at (mem s) (ctx + 8)"
      "mod_spirit_gain r (scast (half_at (mem s1) (ctx + 8))) (mem_w16 io (ctx + 6) mx s1) = (amount, s2)"
    and mx: "0 \<le> sint mx"
  shows "let t = fn_8006EF48 io orig r s; now = half_at (mem t) (ctx + 8)
    in 0 \<le> sint now \<and> sint now \<le> sint mx \<and> half_at (mem t) (ctx + 10) = now
      \<and> (- (2 ^ 31) \<le> sint sp + sint amount \<and> sint sp + sint amount < 2 ^ 31
           \<longrightarrow> sint now = max 0 (min (sint sp + sint amount) (sint mx)))
      \<and> (\<forall>x. x < mem_ptr ctx + 8 \<or> mem_ptr ctx + 12 \<le> x \<longrightarrow> mem t x = mem s2 x)"
proof -
  let ?now = "ucast (clamp_spirit sp amount mx) :: u16"
  let ?t = "fn_8006EF48 io orig r s"
  note m = spirit_gauge [OF ctx mods gain]
  note c = ctx_field [OF ctx(2)]
  have n: "half_at (mem ?t) (ctx + 8) = ?now" "half_at (mem ?t) (ctx + 10) = ?now"
    using half_at_put [where a = "ctx + 8" and v = ?now] half_at_put [where a = "ctx + 10" and v = ?now]
    by (simp_all add: m c half_at_other)
  have "mem ?t x = mem s2 x" if "x < mem_ptr ctx + 8 \<or> mem_ptr ctx + 12 \<le> x" for x
    using that by (auto simp: m wr_bytes_outside)
  then show ?thesis
    using clamp_spirit_bounds [OF mx, of sp amount] by (simp add: Let_def n)
qed

text \<open>An amount near the top of its range wraps the sum, which then reads as negative: the largest
  gain empties the gauge.\<close>

lemma spirit_overflow_empties: "clamp_spirit 1 0x7FFFFFFF 100 = 0"
  by (simp add: clamp_spirit_def)

lemma half_of_sint:
  assumes "sint (x :: u16) = 100"
  shows "x = 100"
proof -
  have "(scast x :: u16) = word_of_int (sint x)" by (rule scast_eq)
  then show ?thesis unfolding assms by simp
qed

theorem spirit_gauge_held_witness:
  "let t = fn_8006EF48 io_none (\<lambda>_ s. s\<lparr>mem := (mem s)(0x300009 := 30)\<rparr>) battle_mods0 battle_guest0
   in half_at (mem t) 0x80300008 = 100 \<and> half_at (mem t) 0x8030000A = 100"
proof -
  let ?orig = "\<lambda>(_ :: u32) (s :: battle_dev cpu). s\<lparr>mem := (mem s)(0x300009 := 30)\<rparr>"
  let ?s1 = "spirit_run io_none ?orig 0x80300000 battle_guest0"
  have c: "0x80300000 = word_at (mem battle_guest0) SOA_BATTLE_CONTEXT"
    by (simp add: word_at_def battle_guest0_def mem_ptr_def MEM_MASK_def SOA_BATTLE_CONTEXT_def get32_def)
  have h: "100 = half_at (mem battle_guest0) (0x80300000 + 6)" "100 = half_at (mem battle_guest0) (0x80300000 + 8)"
    by (simp_all add: half_at_def battle_guest0_def mem_ptr_def MEM_MASK_def get16_def)
  have g: "half_at (mem ?s1) (0x80300000 + 8) = 30"
    by (simp add: spirit_run_def half_at_def mem_w16_def is_mmio_def mem_ptr_def MEM_MASK_def
        get16_def put16_def wr_bytes_def)
  obtain s2 where m: "mod_spirit_gain battle_mods0 (scast (half_at (mem ?s1) (0x80300000 + 8)))
      (mem_w16 io_none (0x80300000 + 6) 100 ?s1) = (60, s2)"
    unfolding g by (simp add: mod_spirit_gain_def battle_mods0_def event_begin_def event_end_def)
  let ?t = "fn_8006EF48 io_none ?orig battle_mods0 battle_guest0"
  have n: "sint (half_at (mem ?t) 0x80300008) = 100" "half_at (mem ?t) 0x8030000A = half_at (mem ?t) 0x80300008"
    using spirit_gauge_held [OF c _ _ refl h m] by (simp_all add: ctx_ok_def battle_mods0_def Let_def)
  have "half_at (mem ?t) 0x80300008 = 100"
    using n(1) by (rule half_of_sint)
  then show ?thesis using n by (simp only: Let_def)
qed

text \<open>C27: the rewards a mod sets are paid within the game's ranges: the original is run on a guest whose
  experience and gold are not negative, gold at most 99999999, magic experience 0 to 127, and
  they are the mod's own values wherever those lie in range.\<close>

theorem rewards_held:
  assumes ctx: "ctx = word_at (mem s) SOA_BATTLE_CONTEXT" "ctx_ok ctx" and mods: "reg_rewards r \<noteq> []"
    and state: "word_at (mem s) SOA_BATTLE_ROUND_STATE = 2"
    and given: "mod_rewards r (rewards_at (mem s) ctx) (s\<lparr>pc := 0x8006F4B0\<rparr>) = (given, s2)"
      "rewards_at (mem s2) ctx = rewards_at (mem s) ctx"
  shows "\<exists>t. fn_8006F4B0 io orig r s = orig 0x8006F4B0 t \<and> (case rewards_at (mem t) ctx of rw \<Rightarrow>
      rw = hold_rewards given \<and> 0 \<le> sint (rw_exp rw) \<and> 0 \<le> sint (rw_gold rw)
      \<and> sint (rw_gold rw) \<le> 99999999 \<and> 0 \<le> sint (rw_magic_exp rw) \<and> sint (rw_magic_exp rw) \<le> 127)"
proof -
  have c: "mod_event_count r MOD_EV_REWARDS \<noteq> 0" using mods by (simp add: mod_event_count_def)
  have g: "get_rewards io ctx (s\<lparr>pc := 0x8006F4B0\<rparr>) = (rewards_at (mem s) ctx, s\<lparr>pc := 0x8006F4B0\<rparr>)"
    using ctx_field [OF ctx(2)] by (simp add: get_rewards_def plain_reads rewards_at_def)
  define t where "t = site MOD_EV_REWARDS (hold_rewards given \<noteq> rewards_at (mem s) ctx)
    (put_rewards io ctx (rewards_at (mem s) ctx) (hold_rewards given) s2)"
  have "fn_8006F4B0 io orig r s = orig 0x8006F4B0 t"
    using ctx_field [OF ctx(2)] state given(1) c g
    by (simp add: fn_8006F4B0_def plain_reads pay_rewards_def t_def Let_def flip: ctx(1))
  moreover have "rewards_at (mem t) ctx = hold_rewards given"
    using put_rewards_mem [OF ctx(2) given(2) refl] by (simp add: t_def)
  ultimately show ?thesis using held_ranges [of given] by (intro exI [of _ t]) simp
qed

theorem rewards_held_witness:
  "\<exists>t. fn_8006F4B0 io_none battle_orig0 battle_mods0
        (battle_guest0\<lparr>mem := (mem battle_guest0)(0x347338 := 0)\<rparr>) = battle_orig0 0x8006F4B0 t
      \<and> rw_gold (rewards_at (mem t) 0x80300000) = 99999999"
proof -
  let ?g = "battle_guest0\<lparr>mem := (mem battle_guest0)(0x347338 := 0)\<rparr>"
  have c: "0x80300000 = word_at (mem ?g) SOA_BATTLE_CONTEXT" "word_at (mem ?g) SOA_BATTLE_ROUND_STATE = 2"
    by (simp_all add: word_at_def battle_guest0_def mem_ptr_def MEM_MASK_def SOA_BATTLE_CONTEXT_def
        SOA_BATTLE_ROUND_STATE_def get32_def)
  let ?rw = "rewards_at (mem ?g) 0x80300000"
  obtain s2 where m: "mod_rewards battle_mods0 ?rw (?g\<lparr>pc := 0x8006F4B0\<rparr>) = (?rw\<lparr>rw_gold := 0x7FFFFFFF\<rparr>, s2)"
    "mem s2 = mem ?g"
    by (simp add: mod_rewards_def battle_mods0_def event_begin_def event_end_def)
  have "rw_gold (hold_rewards (?rw\<lparr>rw_gold := 0x7FFFFFFF\<rparr>)) = 99999999"
    by (simp add: hold_rewards_def)
  then show ?thesis
    using rewards_held [OF c(1) _ _ c(2) m(1), of io_none battle_orig0] m(2)
    by (auto simp: ctx_ok_def battle_mods0_def)
qed

section \<open>The forced request\<close>

text \<open>The hook changes guest memory at one safe point at most: once it has written the request it
  never writes again, and it writes nothing when no request was asked for.\<close>

definition quiet_io :: "'b bio \<Rightarrow> bool" where
  "quiet_io io \<longleftrightarrow> (\<forall>n a s. snd (mmio_read io n a s) = s)"

lemma quiet_reads:
  assumes "quiet_io io"
  shows "snd (mem_r8 io a s) = s" "snd (mem_r16 io a s) = s" "snd (mem_r32 io a s) = s"
  using assms by (auto simp: quiet_io_def mem_r8_def mem_r16_def mem_r32_def Let_def split: prod.splits)
    (metis snd_conv)+

text \<open>Quiet reads are functions of the state alone.\<close>

lemma quiet_readers:
  assumes "quiet_io io"
  obtains r8 r16 r32 where "\<And>a s. mem_r8 io a s = (r8 a s, s)" "\<And>a s. mem_r16 io a s = (r16 a s, s)"
    "\<And>a s. mem_r32 io a s = (r32 a s, s)"
  using that [of "\<lambda>a s. fst (mem_r8 io a s)" "\<lambda>a s. fst (mem_r16 io a s)" "\<lambda>a s. fst (mem_r32 io a s)"]
    quiet_reads [OF assms] by (metis prod.collapse)

lemma log_actors_keeps:
  assumes "quiet_io io"
  shows "mem (log_actors io is s) = mem s \<and> g_forced (user (log_actors io is s)) = g_forced (user s)"
proof -
  obtain r8 r16 r32 where r: "\<And>a s. mem_r8 io a s = (r8 a s, s)" "\<And>a s. mem_r16 io a s = (r16 a s, s)"
    "\<And>a s. mem_r32 io a s = (r32 a s, s)" by (rule quiet_readers [OF assms]) blast
  show ?thesis by (induction "is" arbitrary: s) (simp_all add: actor_now_def r)
qed

lemma read_order_quiet:
  assumes "quiet_io io"
  obtains order where "\<And>s. read_order io s = (order s, s)"
proof -
  obtain r8 r16 r32 where r: "\<And>a s. mem_r8 io a s = (r8 a s, s)" "\<And>a s. mem_r16 io a s = (r16 a s, s)"
    "\<And>a s. mem_r32 io a s = (r32 a s, s)" by (rule quiet_readers [OF assms]) blast
  have "snd (read_order_from io is past s) = s" for "is" past s
    by (induction "is" arbitrary: past) (simp_all add: r case_prod_beta)
  then show ?thesis using that [of "\<lambda>s. fst (read_order io s)"] by (metis read_order_def prod.collapse)
qed

lemma log_step_keeps:
  assumes "quiet_io io"
  shows "mem (log_step io frame scene s) = mem s"
    and "g_forced (user (log_step io frame scene s)) = g_forced (user s)"
proof -
  obtain r8 r16 r32 where r: "\<And>a s. mem_r8 io a s = (r8 a s, s)" "\<And>a s. mem_r16 io a s = (r16 a s, s)"
    "\<And>a s. mem_r32 io a s = (r32 a s, s)" by (rule quiet_readers [OF assms]) blast
  obtain order where o: "\<And>s. read_order io s = (order s, s)" by (rule read_order_quiet [OF assms]) blast
  have c: "mem (battle_log_changes io t) = mem t \<and> g_forced (user (battle_log_changes io t)) = g_forced (user t)" for t
    using log_actors_keeps [OF assms] by (simp add: battle_log_changes_def b_seen_def Let_def r o)
  then show "mem (log_step io frame scene s) = mem s"
    "g_forced (user (log_step io frame scene s)) = g_forced (user s)"
    by (simp_all add: log_step_def Let_def b_seen_def)
qed

text \<open>The words of the request lie apart, so all six read back.\<close>

lemma request_words:
  "\<not> is_mmio SOA_ENCOUNTER_STEPS" "\<not> is_mmio SOA_BATTLE_REQUEST_MODE" "\<not> is_mmio SOA_BATTLE_REQUEST_ID"
  "\<not> is_mmio SOA_BATTLE_REQUEST_STAGE" "\<not> is_mmio SOA_BATTLE_REQUEST_TRANSITION"
  "mem_ptr SOA_ENCOUNTER_STEPS = 0x346D28" "mem_ptr SOA_BATTLE_REQUEST_STAGE = 0x3473C8"
  "mem_ptr SOA_BATTLE_REQUEST_ID = 0x3473CC" "mem_ptr SOA_BATTLE_REQUEST_MODE = 0x3473D0"
  "mem_ptr SOA_BATTLE_REQUEST_FORCED = 0x3473D4" "mem_ptr SOA_BATTLE_REQUEST_TRANSITION = 0x3473D8"
  by (simp_all add: is_mmio_def mem_ptr_def MEM_MASK_def SOA_ENCOUNTER_STEPS_def SOA_BATTLE_REQUEST_MODE_def
      SOA_BATTLE_REQUEST_ID_def SOA_BATTLE_REQUEST_STAGE_def SOA_BATTLE_REQUEST_TRANSITION_def
      SOA_BATTLE_REQUEST_FORCED_def)

lemma write_request_words:
  "(let m = mem (write_request io s) in word_at m SOA_ENCOUNTER_STEPS = 0
    \<and> word_at m SOA_BATTLE_REQUEST_MODE = g_force_mode (user s) \<and> word_at m SOA_BATTLE_REQUEST_ID = g_force_id (user s)
    \<and> word_at m SOA_BATTLE_REQUEST_STAGE = g_force_stage (user s)
    \<and> word_at m SOA_BATTLE_REQUEST_TRANSITION = 0xFFFFFFFF \<and> word_at m SOA_BATTLE_REQUEST_FORCED = 1)"
  by (simp add: write_request_def Let_def mem_w_plain request_words word_at_put word_at_other)

lemma write_request_forced: "g_forced (user (write_request io s)) = g_forced (user s)"
  by (simp add: write_request_def Let_def mem_w32_def request_words)

lemma safe_point_writes_once:
  assumes q: "quiet_io io"
  shows "g_forced (user s) \<or> \<not> g_force (user s) \<Longrightarrow> mem (battle_safe_point io frame s) = mem s"
    and "mem (battle_safe_point io frame s) \<noteq> mem s \<Longrightarrow> g_forced (user (battle_safe_point io frame s))
      \<and> mem (battle_safe_point io frame s) = mem (write_request io s)"
    and "g_forced (user s) \<Longrightarrow> g_forced (user (battle_safe_point io frame s))"
proof -
  obtain scene where 1: "mem_r32 io SOA_SCENE s = (scene, s)" by (simp add: plain_reads)
  obtain state where 2: "mem_r32 io SOA_FIELD_STATE s = (state, s)" by (simp add: plain_reads)
  note d = battle_safe_point_def 1 2 force_step_def Let_def log_step_keeps [OF q] plain_reads
  show "g_forced (user s) \<or> \<not> g_force (user s) \<Longrightarrow> mem (battle_safe_point io frame s) = mem s"
    by (auto simp: d)
  show "mem (battle_safe_point io frame s) \<noteq> mem s \<Longrightarrow> g_forced (user (battle_safe_point io frame s))
      \<and> mem (battle_safe_point io frame s) = mem (write_request io s)"
    by (auto simp: d split: if_splits)
  show "g_forced (user s) \<Longrightarrow> g_forced (user (battle_safe_point io frame s))"
    by (auto simp: d write_request_forced)
qed

end
