(* ===== verification/Actions.thy ===== *)
theory Actions
  imports Tick Battle
begin

text \<open>
  runtime/actions.c: the debug actions. SOA_ACTION schedules them, the menu asks for one, a
  recording replays them; each is written into the game's memory at the safe point, or refused
  with its reason when the field is not quiet or the map is not one a warp can reach. The
  frame count is the argument \<open>f\<close>, the event track \<open>tr\<close>; the pending request is the one word the
  other thread sets. Messages are left out, but for the reasons, which the event track is told.
\<close>

section \<open>Names and maps\<close>

definition SCHEDULE_MAX :: nat where "SCHEDULE_MAX = 32"
definition ENDING_VAR :: u32 where "ENDING_VAR = 76"
definition FIELD_WARP :: u32 where "FIELD_WARP = 15"
definition SOA_WARP_SCRIPT :: u32 where "SOA_WARP_SCRIPT = 0x80305CF0"
definition SOA_STORY_VARS :: u32 where "SOA_STORY_VARS = 0x80310A1C"
definition SOA_FADE_DIRECTION :: u32 where "SOA_FADE_DIRECTION = 0x80347518"

definition ACT_NONE :: nat where "ACT_NONE = 0"
definition ACT_WARP :: nat where "ACT_WARP = 1"
definition ACT_PART :: nat where "ACT_PART = 2"
definition ACT_ENDING :: nat where "ACT_ENDING = 3"
definition ACT_FADE :: nat where "ACT_FADE = 4"
definition ACT_ENCOUNTERS_OFF :: nat where "ACT_ENCOUNTERS_OFF = 5"
definition ACT_ENCOUNTERS_ON :: nat where "ACT_ENCOUNTERS_ON = 6"
definition ACT_KINDS :: nat where "ACT_KINDS = 7"

lemmas act_kinds = ACT_NONE_def ACT_WARP_def ACT_PART_def ACT_ENDING_def ACT_FADE_def ACT_ENCOUNTERS_OFF_def
  ACT_ENCOUNTERS_ON_def ACT_KINDS_def

definition k_name :: "string list" where
  "k_name = [[], ''warp'', ''part'', ''ending'', ''fade'', ''encounters:off'', ''encounters:on'']"

definition k_warp_maps :: "u32 list" where
  "k_warp_maps =
    [0x261, 0x262, 0x263, 0x264, 0x265, 0x461, 0x561, 0x562, 0x861, 0x862, 0xA61, 0xA62, 0xA63,
     0xD61, 0xD62, 0xD63, 0xD64, 0xD65, 0xD66, 0x1161, 0x1162, 0x1163, 0x1164, 0x1165, 0x1166,
     0x1168, 0x1169, 0x1261, 0x1262, 0x1361, 0x1362, 0x1363, 0x1364, 0x1461, 0x1462, 0x1C61,
     0x1C62, 0x1C63, 0x1C64, 0x1C65, 0x1C66, 0x1C67, 0x2061, 0x2161, 0x2162, 0x2261, 0x2262,
     0x2263, 0x2264, 0x2265, 0x2266, 0x2267, 0x2268, 0x2269, 0x2361, 0x2362, 0x2364, 0x2365,
     0x2366, 0x2367, 0x2368, 0x2369, 0x5A61, 0x6261, 0x6361, 0x6362, 0x6363, 0x6364, 0x6365,
     0x6366, 0x6367, 0x6368, 0x6369, 0x636A, 0x636B, 0x636C, 0x636D, 0x636F, 0x6370, 0x6371,
     0x6562, 0x6563, 0x6761, 0x6762, 0x6763, 0x6A61, 0x6A62, 0x6A63, 0x6B61, 0x6B64, 0x6B65,
     0x6D61, 0x6D62, 0x6D63, 0x6D64, 0x6D65, 0x6D67, 0x6F61, 0x6F62, 0x6F63, 0x6F64, 0x7061,
     0x7062, 0x7063, 0x7361, 0x7362, 0x7363, 0x7461, 0x7462, 0x7463, 0x7464, 0x7465, 0x7466,
     0x7467, 0x7468, 0x7961, 0x7962, 0x7963, 0x7964, 0x7A61, 0x7A62, 0x7B61, 0x7B62, 0x7B63,
     0x7B64, 0x7D61, 0x7D62, 0x7D63, 0x7D64, 0x7E61, 0x7E62, 0x7E63, 0x7E64, 0x7E65, 0x7E66,
     0x7F61, 0x7F62, 0x8261, 0x8262, 0x8263, 0x8264, 0x8361, 0x8363, 0x8364, 0x8365, 0x8366,
     0x8367, 0x8368, 0x8369, 0xC766, 0xC861, 0xC961, 0xCA61, 0xCB61, 0xCC61, 0xCD61, 0xD061,
     0xD161, 0xD561, 0xD761, 0xD861, 0xDB61, 0xDC61, 0xDE61, 0xE661, 0xE861, 0xEB61, 0xEC61,
     0xED61, 0xEE61, 0xEF61, 0xF061, 0xF161, 0xF261, 0xF361, 0xF461, 0xF661, 0xF761, 0xF961,
     0xFA61, 0xFB61, 0xFD61, 0x10461, 0x12461, 0x12961, 0x12A61, 0x12B61, 0x16361, 0x18E61]"

definition warpable :: "u32 \<Rightarrow> bool" where
  "warpable mp \<longleftrightarrow> list_ex (\<lambda>m. m = mp) k_warp_maps"

definition is_lower_letter :: "char \<Rightarrow> bool" where
  "is_lower_letter c \<longleftrightarrow> CHR ''a'' \<le> c \<and> c \<le> CHR ''z''"

text \<open>\<open>116c\<close> or \<open>a116c\<close>: the number above the letter, 0 for anything else.\<close>

definition act_map_of :: "string \<Rightarrow> u32" where
  "act_map_of t0 =
     (let t = (if t0 \<noteq> [] \<and> hd t0 = CHR ''a'' \<and> length t0 = 5 then tl t0 else t0)
      in case t of
           [x, y, z, c] \<Rightarrow>
             if \<not> is_lower_letter c \<or> \<not> is_digit x \<or> \<not> is_digit y \<or> \<not> is_digit z then 0
             else push_bit 8 (of_nat (digits_val [x, y, z])) OR of_char c
         | _ \<Rightarrow> 0)"

definition act_kind_of :: "string \<Rightarrow> nat \<times> u32" where
  "act_kind_of item =
     (if take 5 item = ''warp:'' then
        (let m = act_map_of (drop 5 item) in if nonzero m then (ACT_WARP, m) else (ACT_NONE, 0))
      else (case find (\<lambda>k. item = k_name ! k) [ACT_PART..<ACT_KINDS] of Some k \<Rightarrow> (k, 0) | None \<Rightarrow> (ACT_NONE, 0)))"

text \<open>A map as \<open>%03u%c\<close> prints it; a letter of 0 ends the string.\<close>

definition map_text :: "u32 \<Rightarrow> string" where
  "map_text mp =
     (let n = dec (unat (drop_bit 8 mp)); c = char_of (unat (mp AND 0xFF))
      in replicate (3 - length n) CHR ''0'' @ n @ (if c = nul then [] else [c]))"

definition act_text_of :: "nat \<Rightarrow> u32 \<Rightarrow> string" where
  "act_text_of kind mp = take 23 (if kind = ACT_WARP then ''warp:'' @ map_text mp else k_name ! kind)"

section \<open>Asking\<close>

text \<open>The menu's request: one waits at a time.\<close>

definition actions_request :: "si_host option \<Rightarrow> nat \<Rightarrow> u32 \<Rightarrow> 'm pcpu \<Rightarrow> bool \<times> 'm pcpu" where
  "actions_request tr kind mp s =
     (if kind \<le> ACT_NONE \<or> kind \<ge> ACT_KINDS then (False, s)
      else if tr \<noteq> None \<and> g_replaying (sp_si (user s)) then (False, s)
      else if g_req (user s) \<noteq> 0 then (False, s)
      else (True, sp_upd (\<lambda>d. d\<lparr>g_req := push_bit 24 (of_nat kind) OR (mp AND 0xFFFFFF)\<rparr>) s))"

text \<open>One item of SOA_ACTION: the action and its frame, or None for a fault.\<close>

definition parse_action :: "string \<Rightarrow> (nat \<times> u32 \<times> u32) option" where
  "parse_action item =
     (let r = rev item; after = rev (takeWhile (\<lambda>c. c \<noteq> CHR ''@'') r); rest = dropWhile (\<lambda>c. c \<noteq> CHR ''@'') r
      in if rest = [] \<or> after = [] then None
         else (case strtoul after of (frame, end) \<Rightarrow>
           if end \<noteq> [] then None
           else (case act_kind_of (dropWhile (\<lambda>c. c = CHR '' '') (rev (tl rest))) of (kind, mp) \<Rightarrow>
             if kind = ACT_NONE then None else Some (kind, mp, of_nat frame))))"

fun parse_items :: "string list \<Rightarrow> int \<Rightarrow> (nat \<times> u32 \<times> u32) list \<Rightarrow> int \<times> (nat \<times> u32 \<times> u32) list" where
  "parse_items [] n sched = (n, sched)"
| "parse_items (item # items) n sched =
     (if item = [] then parse_items items n sched
      else case parse_action item of None \<Rightarrow> (-1, sched)
       | Some a \<Rightarrow> if length sched = SCHEDULE_MAX then (-1, sched) else parse_items items (n + 1) (sched @ [a]))"

function comma_items :: "string \<Rightarrow> string list" where
  "comma_items t = (let i = takeWhile (\<lambda>c. c \<noteq> CHR '','') t; r = dropWhile (\<lambda>c. c \<noteq> CHR '','') t
     in if r = [] then [i] else i # comma_items (tl r))"
  by pat_completeness auto
termination
proof (relation "measure length")
  fix t :: string and i r
  assume "r = dropWhile (\<lambda>c. c \<noteq> CHR '','') t" "r \<noteq> []"
  then have "length r \<le> length t" "0 < length r" by (simp_all add: length_dropWhile_le)
  then show "(tl r, t) \<in> measure length" by (cases r) auto
qed simp

declare comma_items.simps [simp del]

definition actions_parse :: "string option \<Rightarrow> 'm pcpu \<Rightarrow> int \<times> 'm pcpu" where
  "actions_parse text s =
     (case parse_items (comma_items (take 511 (case text of Some t \<Rightarrow> t | None \<Rightarrow> []))) 0 (g_sched (user s)) of
        (n, sched) \<Rightarrow> (n, sp_upd (\<lambda>d. d\<lparr>g_sched := sched\<rparr>) s))"

section \<open>One action\<close>

definition PART_MAP :: u32 where "PART_MAP = 0x16361"

definition warp_script :: "u32 \<Rightarrow> u8 list" where
  "warp_script mp =
     (let n = dec (unat (drop_bit 8 mp));
          t = take 11 (''ME'' @ replicate (3 - length n) CHR ''0'' @ n @ [char_of (unat ((mp AND 0xFF) - 97 + 65))] @ ''.SCT'')
      in take 12 (map (\<lambda>c. of_char c) t @ replicate 12 0))"

fun write_bytes :: "'m io \<Rightarrow> u32 \<Rightarrow> u8 list \<Rightarrow> 'm cpu \<Rightarrow> 'm cpu" where
  "write_bytes io a [] s = s"
| "write_bytes io a (b # bs) s = write_bytes io (a + 1) bs (mem_w8 io a b s)"

text \<open>Why an action is refused now; the maps of the two warps are checked last.\<close>

definition act_refused :: "'m safe_point_scheme io \<Rightarrow> nat \<Rightarrow> u32 \<Rightarrow> 'm pcpu \<Rightarrow> string option \<times> 'm pcpu" where
  "act_refused io kind mp s =
     (case (if kind = ACT_FADE
            then (case mem_r32 io SOA_SCENE s of (scene, s1) \<Rightarrow> (if scene \<noteq> 6 then Some ''not on the field'' else None, s1))
            else field_not_quiet io (kind = ACT_WARP \<or> kind = ACT_PART) s) of (why, s1) \<Rightarrow>
        (if why = None \<and> (kind = ACT_WARP \<or> kind = ACT_PART) \<and> \<not> warpable mp
         then Some (if drop_bit 8 mp \<ge> 500 then ''a ship battle starts through op 210, not a warp''
                    else ''no script and geometry by that name'')
         else why, s1))"

definition act_write :: "'m safe_point_scheme io \<Rightarrow> nat \<Rightarrow> u32 \<Rightarrow> 'm pcpu \<Rightarrow> 'm pcpu" where
  "act_write io kind mp s =
     (if kind = ACT_WARP \<or> kind = ACT_PART then
        mem_w32 io SOA_FIELD_STATE FIELD_WARP (mem_w32 io SOA_SYS15 0 (write_bytes io SOA_WARP_SCRIPT (warp_script mp) s))
      else if kind = ACT_ENDING then mem_w8 io (SOA_STORY_VARS + ENDING_VAR) 0x4C s
      else if kind = ACT_FADE then mem_w32 io SOA_FADE_DIRECTION 0 s
      else s)"

text \<open>One action now: None and recorded, or why not.\<close>

definition act_run :: "'m safe_point_scheme io \<Rightarrow> si_host option \<Rightarrow> u32 \<Rightarrow> nat \<Rightarrow> u32 \<Rightarrow> 'm pcpu \<Rightarrow> string option \<times> 'm pcpu" where
  "act_run io tr f kind mp0 s =
     (let text = act_text_of kind mp0
      in if kind = ACT_ENCOUNTERS_OFF \<or> kind = ACT_ENCOUNTERS_ON then
           (None, sp_record tr f ''action'' text (sp_upd (\<lambda>d. d\<lparr>g_enc_off := (kind = ACT_ENCOUNTERS_OFF)\<rparr>) s))
         else let mp = (if kind = ACT_PART then PART_MAP else mp0)
              in case act_refused io kind mp s of
                   (Some why, s1) \<Rightarrow> (Some why, s1)
                 | (None, s1) \<Rightarrow> (None, sp_record tr f ''action'' text (act_write io kind mp s1)))"

text \<open>A recording's action at its frame; one this replay cannot run is the replay leaving it.\<close>

definition act_replay_one :: "'m safe_point_scheme io \<Rightarrow> si_host \<Rightarrow> u32 \<Rightarrow> string \<Rightarrow> 'm pcpu \<Rightarrow> 'm pcpu" where
  "act_replay_one io h f text s =
     (case act_kind_of text of (kind, mp) \<Rightarrow>
      case (if kind = ACT_NONE then (Some ''not an action this build knows'', s) else act_run io (Some h) f kind mp s) of
        (None, s1) \<Rightarrow> s1
      | (Some why, s1) \<Rightarrow> on_si (event_left h) s1)"

section \<open>The safe point\<close>

fun act_scheduled :: "'m safe_point_scheme io \<Rightarrow> si_host option \<Rightarrow> u32 \<Rightarrow> nat list \<Rightarrow> 'm pcpu \<Rightarrow> 'm pcpu" where
  "act_scheduled io tr f [] s = s"
| "act_scheduled io tr f (i # is) s =
     (case g_sched (user s) ! i of (kind, mp, frame) \<Rightarrow>
        act_scheduled io tr f is
          (if kind \<noteq> ACT_NONE \<and> f \<ge> frame
           then sp_upd (\<lambda>d. d\<lparr>g_sched := (g_sched d)[i := (ACT_NONE, mp, frame)]\<rparr>) (snd (act_run io tr f kind mp s))
           else s))"

definition act_requested :: "'m safe_point_scheme io \<Rightarrow> si_host option \<Rightarrow> u32 \<Rightarrow> 'm pcpu \<Rightarrow> 'm pcpu" where
  "act_requested io tr f s =
     (let req = g_req (user s); s1 = sp_upd (\<lambda>d. d\<lparr>g_req := 0\<rparr>) s
      in if req = 0 then s else snd (act_run io tr f (unat (drop_bit 24 req)) (req AND 0xFFFFFF) s1))"

definition actions_safe_point :: "'m safe_point_scheme io \<Rightarrow> si_host option \<Rightarrow> u32 \<Rightarrow> 'm pcpu \<Rightarrow> 'm pcpu option" where
  "actions_safe_point io tr f s =
     (case (case tr of Some h \<Rightarrow> sp_take h ''action'' f s | None \<Rightarrow> ((-1, []), s)) of (r, s1) \<Rightarrow>
      case (if fst r \<ge> 0 then
              map_option (sp_upd (\<lambda>d. d\<lparr>g_req := 0\<rparr>))
                (case tr of Some h \<Rightarrow> drain (sp_take h ''action'' f) (\<lambda>t. act_replay_one io h f (take 23 t)) r s1
                 | None \<Rightarrow> Some s1)
            else Some (act_requested io tr f (act_scheduled io tr f [0..<length (g_sched (user s1))] s1))) of
        None \<Rightarrow> None
      | Some s2 \<Rightarrow> Some (if g_enc_off (user s2) then mem_w32 io SOA_ENCOUNTER_STEPS 0 s2 else s2))"

definition actions_init :: "string option \<Rightarrow> 'm pcpu \<Rightarrow> 'm pcpu" where
  "actions_init env s = (case env of Some t \<Rightarrow> if t \<noteq> [] then snd (actions_parse (Some t) s) else s | None \<Rightarrow> s)"

section \<open>What an action does\<close>

text \<open>The specification: an action is a function on the game's memory and the encounter switch.\<close>

definition word_in :: "(nat \<Rightarrow> u8) \<Rightarrow> u32 \<Rightarrow> u32" where
  "word_in m a = get32 (m (mem_ptr a)) (m (mem_ptr a + 1)) (m (mem_ptr a + 2)) (m (mem_ptr a + 3))"

definition quiet_field :: "bool \<Rightarrow> (nat \<Rightarrow> u8) \<Rightarrow> bool" where
  "quiet_field world m \<longleftrightarrow> word_in m SOA_SCENE = SCENE_FIELD \<and> word_in m SOA_FIELD_STATE = FIELD_RUNNING
     \<and> word_in m SOA_MAP_NUMBER < 500 \<and> (word_in m SOA_MAP_NUMBER = 99 \<longrightarrow> world)
     \<and> drop_bit (FLAG_EVENT mod 32) (word_in m (SOA_STORY_FLAGS + of_nat (FLAG_EVENT div 32 * 4))) AND 1 = 0
     \<and> word_in m SOA_SCRIPT_ENTRY_BUSY \<noteq> 1 \<and> word_in m SOA_SAVE_REQUEST \<noteq> 1"

definition act_allowed :: "nat \<Rightarrow> u32 \<Rightarrow> (nat \<Rightarrow> u8) \<Rightarrow> bool" where
  "act_allowed kind mp m \<longleftrightarrow>
     (if kind = ACT_ENCOUNTERS_OFF \<or> kind = ACT_ENCOUNTERS_ON then True
      else if kind = ACT_FADE then word_in m SOA_SCENE = 6
      else quiet_field (kind = ACT_WARP \<or> kind = ACT_PART) m \<and> (kind = ACT_WARP \<longrightarrow> warpable mp))"

definition act_effect :: "nat \<Rightarrow> u32 \<Rightarrow> (nat \<Rightarrow> u8) \<Rightarrow> (nat \<Rightarrow> u8)" where
  "act_effect kind mp m =
     (if kind = ACT_WARP \<or> kind = ACT_PART then
        wr_bytes (wr_bytes (wr_bytes m (mem_ptr SOA_WARP_SCRIPT) (warp_script (if kind = ACT_PART then PART_MAP else mp)))
          (mem_ptr SOA_SYS15) (put32 0)) (mem_ptr SOA_FIELD_STATE) (put32 FIELD_WARP)
      else if kind = ACT_ENDING then m(mem_ptr (SOA_STORY_VARS + ENDING_VAR) := 0x4C)
      else if kind = ACT_FADE then wr_bytes m (mem_ptr SOA_FADE_DIRECTION) (put32 0)
      else m)"

fun act_does :: "nat \<times> u32 \<Rightarrow> (nat \<Rightarrow> u8) \<times> bool \<Rightarrow> (nat \<Rightarrow> u8) \<times> bool" where
  "act_does (kind, mp) (m, off) =
     (if kind \<noteq> ACT_NONE \<and> act_allowed kind mp m
      then (act_effect kind mp m,
            if kind = ACT_ENCOUNTERS_OFF then True else if kind = ACT_ENCOUNTERS_ON then False else off)
      else (m, off))"

lemma plain_act [simp]: "\<not> is_mmio SOA_SCENE" "\<not> is_mmio SOA_FIELD_STATE" "\<not> is_mmio SOA_MAP_NUMBER"
    "\<not> is_mmio SOA_SYS15" "\<not> is_mmio SOA_FADE_DIRECTION" "\<not> is_mmio (SOA_STORY_VARS + ENDING_VAR)"
    "\<not> is_mmio SOA_SCRIPT_ENTRY_BUSY" "\<not> is_mmio SOA_SAVE_REQUEST" "\<not> is_mmio SOA_ENCOUNTER_STEPS"
    "\<not> is_mmio (SOA_STORY_FLAGS + 132)"
  by (simp_all add: is_mmio_def SOA_SCENE_def SOA_FIELD_STATE_def SOA_MAP_NUMBER_def SOA_SYS15_def SOA_FADE_DIRECTION_def
      SOA_STORY_VARS_def ENDING_VAR_def SOA_SCRIPT_ENTRY_BUSY_def SOA_SAVE_REQUEST_def SOA_ENCOUNTER_STEPS_def
      SOA_STORY_FLAGS_def Let_def)

lemma mem_r32_word_in: "\<not> is_mmio a \<Longrightarrow> mem_r32 io a s = (word_in (mem s) a, s)"
  by (simp add: mem_r32_def word_in_def Let_def)

lemma not_quiet_spec: "snd (field_not_quiet io world s) = s \<and> (fst (field_not_quiet io world s) = None \<longleftrightarrow> quiet_field world (mem s))"
  by (auto simp: field_not_quiet_def quiet_field_def mem_r32_word_in SCENE_FIELD_def FIELD_RUNNING_def
      FLAG_EVENT_def not_le Let_def)

section \<open>Names come back\<close>

lemma pad3:
  assumes "n < 1000"
  shows "replicate (3 - length (dec n)) CHR ''0'' @ dec n
    = [digit_char (n div 100), digit_char (n div 10 mod 10), digit_char (n mod 10)]"
proof -
  have z: "digit_char 0 = CHR ''0''" by code_simp
  consider "n < 10" | "10 \<le> n" "n < 100" | "100 \<le> n" by linarith
  then show ?thesis
  proof cases
    case 1
    then show ?thesis by (simp add: dec.simps z numeral_3_eq_3)
  next
    case 2
    then have "dec n = [digit_char (n div 10), digit_char (n mod 10)]" by (subst dec.simps) (simp add: dec.simps)
    then show ?thesis using 2 by (simp add: z)
  next
    case 3
    have "n div 10 < 100" "10 \<le> n div 10" using assms 3 by auto
    then have "dec (n div 10) = [digit_char (n div 10 div 10), digit_char (n div 10 mod 10)]"
      by (subst dec.simps) (simp add: dec.simps)
    then have "dec n = [digit_char (n div 100), digit_char (n div 10 mod 10), digit_char (n mod 10)]"
      using 3 by (subst dec.simps) (simp add: div_mult2_eq [symmetric])
    then show ?thesis by simp
  qed
qed

lemma digits_val_3:
  assumes "n < 1000"
  shows "digits_val [digit_char (n div 100), digit_char (n div 10 mod 10), digit_char (n mod 10)] = n"
    and "is_digit (digit_char (n div 100))" "is_digit (digit_char (n div 10 mod 10))" "is_digit (digit_char (n mod 10))"
proof -
  have d: "is_digit (digit_char d)" "of_char (digit_char d) = (48 + d :: nat)" if "d < 10" for d
    using that by (simp_all add: is_digit_def digit_char_def less_eq_char_def)
  have l: "n div 100 < 10" "n div 10 mod 10 < 10" "n mod 10 < 10" using assms by auto
  show "is_digit (digit_char (n div 100))" "is_digit (digit_char (n div 10 mod 10))" "is_digit (digit_char (n mod 10))"
    using d(1) l by auto
  have "(n div 100 * 10 + n div 10 mod 10) * 10 + n mod 10 = n"
    using div_mult_mod_eq [of "n div 10" 10] div_mult_mod_eq [of n 10] by (simp add: div_mult2_eq [symmetric])
  then show "digits_val [digit_char (n div 100), digit_char (n div 10 mod 10), digit_char (n mod 10)] = n"
    using d(2) l by (simp add: digits_val_def algebra_simps)
qed

definition letter_map :: "u32 \<Rightarrow> bool" where
  "letter_map m \<longleftrightarrow> drop_bit 8 m < 1000 \<and> 97 \<le> m AND 0xFF \<and> m AND 0xFF \<le> 122"

lemma warpable_letter: "warpable m \<Longrightarrow> letter_map m"
proof -
  have "list_all letter_map k_warp_maps" by (simp add: k_warp_maps_def letter_map_def)
  then show "warpable m \<Longrightarrow> letter_map m" by (auto simp: warpable_def list_all_iff list_ex_iff)
qed

lemma of_char_letter: "unat (x :: u32) < 256 \<Longrightarrow> (of_char (char_of (unat x)) :: u32) = x"
proof -
  assume "unat x < 256"
  then have "(of_char (char_of (unat x)) :: nat) = unat x" by simp
  then have "of_nat (of_char (char_of (unat x))) = (of_nat (unat x) :: u32)" by (rule arg_cong)
  then show ?thesis by (simp only: of_nat_of_char) simp
qed

lemma map_text_letter:
  assumes "letter_map m"
  shows "map_text m = [digit_char (unat (drop_bit 8 m) div 100), digit_char (unat (drop_bit 8 m) div 10 mod 10),
      digit_char (unat (drop_bit 8 m) mod 10), char_of (unat (m AND 0xFF))]"
    and "is_lower_letter (char_of (unat (m AND 0xFF)))"
proof -
  let ?n = "unat (drop_bit 8 m)" and ?l = "unat (m AND 0xFF)"
  have n: "?n < 1000" using assms by (simp add: letter_map_def word_less_nat_alt)
  have l: "97 \<le> ?l" "?l \<le> 122" using assms by (simp_all add: letter_map_def word_le_nat_alt)
  have c: "of_char (char_of ?l) = ?l" using l by simp
  then show "is_lower_letter (char_of ?l)" using l by (simp add: is_lower_letter_def less_eq_char_def)
  have "char_of ?l \<noteq> nul"
  proof
    assume "char_of ?l = nul"
    then have "?l = of_char nul" using c by simp
    then show False using l by (simp add: nul_def)
  qed
  then show "map_text m = [digit_char (?n div 100), digit_char (?n div 10 mod 10), digit_char (?n mod 10), char_of ?l]"
    using pad3 [OF n] by (simp add: map_text_def Let_def)
qed

lemma split_map: "push_bit 8 (drop_bit 8 m) OR (m AND 0xFF) = (m :: u32)"
proof -
  have "(0xFF :: u32) = mask 8" by (simp add: mask_eq_exp_minus_1)
  then show ?thesis by (auto simp: bit_eq_iff bit_simps)
qed

lemma map_of_text:
  assumes "letter_map m"
  shows "act_map_of (map_text m) = m" "m \<noteq> 0"
proof -
  have n: "unat (drop_bit 8 m) < 1000" using assms by (simp add: letter_map_def word_less_nat_alt)
  have "unat (m AND 0xFF) < 256" using assms by (simp add: letter_map_def word_le_nat_alt)
  note c = of_char_letter [OF this]
  show "act_map_of (map_text m) = m"
    using map_text_letter(2) [OF assms] digits_val_3 [OF n] c split_map [of m]
    by (simp add: act_map_of_def map_text_letter(1) [OF assms] Let_def)
  show "m \<noteq> 0" using assms by (auto simp: letter_map_def)
qed

lemma text_kind:
  "act_kind_of (act_text_of ACT_WARP m) = (ACT_WARP, m)" if "letter_map m"
  using that map_of_text [OF that] map_text_letter(1) [OF that]
  by (simp add: act_kind_of_def act_text_of_def Let_def)

lemma text_kind_other:
  "kind \<in> {ACT_PART, ACT_ENDING, ACT_FADE, ACT_ENCOUNTERS_OFF, ACT_ENCOUNTERS_ON} \<Longrightarrow>
   act_kind_of (act_text_of kind m) = (kind, 0)"
  by (auto simp: act_kind_of_def act_text_of_def act_kinds k_name_def eval_nat_numeral)

text \<open>The text an action is recorded by names it again, as far as it matters to what it does.\<close>

lemma recorded_action:
  assumes "0 < kind" "kind < ACT_KINDS" "act_allowed kind mp m"
  shows "act_does (act_kind_of (act_text_of kind mp)) (m, off) = act_does (kind, mp) (m, off)"
    and "fst (act_kind_of (act_text_of kind mp)) = kind"
proof -
  have k: "kind = ACT_WARP \<or> kind \<in> {ACT_PART, ACT_ENDING, ACT_FADE, ACT_ENCOUNTERS_OFF, ACT_ENCOUNTERS_ON}"
    using assms(1,2) by (auto simp: act_kinds)
  have w: "act_kind_of (act_text_of ACT_WARP mp) = (ACT_WARP, mp)" if "kind = ACT_WARP"
    using assms(3) that warpable_letter by (intro text_kind) (simp add: act_allowed_def act_kinds)
  show "act_does (act_kind_of (act_text_of kind mp)) (m, off) = act_does (kind, mp) (m, off)"
    using k w text_kind_other by (auto simp: act_allowed_def act_effect_def act_kinds)
  show "fst (act_kind_of (act_text_of kind mp)) = kind"
    using k w text_kind_other by (elim disjE) simp_all
qed

section \<open>The code does what the specification says\<close>

lemma user_write_bytes: "\<forall>k<length bs. \<not> is_mmio (a + of_nat k) \<Longrightarrow> user (write_bytes io a bs s) = user s"
proof (induction bs arbitrary: a s)
  case (Cons b bs)
  have "\<not> is_mmio a" using Cons.prems by force
  moreover have "\<forall>k<length bs. \<not> is_mmio (a + 1 + of_nat k)"
  proof (intro allI impI)
    fix k assume "k < length bs"
    then have "\<not> is_mmio (a + of_nat (Suc k))" using Cons.prems by (metis Suc_mono length_Cons)
    then show "\<not> is_mmio (a + 1 + of_nat k)" by (simp add: add.assoc)
  qed
  ultimately show ?case using Cons.IH by simp
qed simp

lemma mem_write_bytes:
  "\<forall>k<length bs. \<not> is_mmio (a + of_nat k) \<and> mem_ptr (a + of_nat k) = mem_ptr a + k \<Longrightarrow>
     mem (write_bytes io a bs s) = wr_bytes (mem s) (mem_ptr a) bs"
proof (induction bs arbitrary: a s)
  case (Cons b bs)
  have a: "\<not> is_mmio a" using Cons.prems by force
  have n: "mem_ptr (a + 1) = mem_ptr a + 1" if "bs \<noteq> []"
    using Cons.prems [rule_format, of 1] that by simp
  have "\<forall>k<length bs. \<not> is_mmio (a + 1 + of_nat k) \<and> mem_ptr (a + 1 + of_nat k) = mem_ptr (a + 1) + k"
  proof (intro allI impI)
    fix k assume k: "k < length bs"
    then have "\<not> is_mmio (a + of_nat (Suc k)) \<and> mem_ptr (a + of_nat (Suc k)) = mem_ptr a + Suc k"
      using Cons.prems by (metis Suc_mono length_Cons)
    then show "\<not> is_mmio (a + 1 + of_nat k) \<and> mem_ptr (a + 1 + of_nat k) = mem_ptr (a + 1) + k"
      using n k by (cases bs) (simp_all add: add.assoc)
  qed
  from Cons.IH [OF this] have "mem (write_bytes io (a + 1) bs (mem_w8 io a b s))
      = wr_bytes ((mem s)(mem_ptr a := b)) (mem_ptr (a + 1)) bs" using a by (simp add: mem_w8_def fun_upd_def)
  then show ?case using n by (cases "bs = []") (auto simp: wr_bytes_def fun_eq_iff nth_Cons' Suc_diff_le)
qed simp

lemma script_place:
  "\<forall>k<length (warp_script mp). \<not> is_mmio (SOA_WARP_SCRIPT + of_nat k) \<and> mem_ptr (SOA_WARP_SCRIPT + of_nat k) = mem_ptr SOA_WARP_SCRIPT + k"
  using ram_offset [of SOA_WARP_SCRIPT 12]
  by (auto simp: warp_script_def SOA_WARP_SCRIPT_def Let_def)

definition game_view :: "'m pcpu \<Rightarrow> (nat \<Rightarrow> u8) \<times> bool" where
  "game_view s = (mem s, g_enc_off (user s))"

lemma game_view_simps [simp]:
  "game_view (on_si g s) = game_view s" "game_view (sp_record tr f k v s) = game_view s"
  by (cases tr; simp add: game_view_def on_si_def sp_record_def)+

lemma record_view [simp]: "mem (sp_record tr f k v s) = mem s" "g_enc_off (user (sp_record tr f k v s)) = g_enc_off (user s)"
  by (cases tr; simp add: on_si_def sp_record_def)+

lemma refused_spec:
  assumes "kind \<noteq> ACT_ENCOUNTERS_OFF" "kind \<noteq> ACT_ENCOUNTERS_ON"
  shows "snd (act_refused io kind (if kind = ACT_PART then PART_MAP else mp) s) = s
    \<and> (fst (act_refused io kind (if kind = ACT_PART then PART_MAP else mp) s) = None \<longleftrightarrow> act_allowed kind mp (mem s))"
proof -
  have p: "warpable PART_MAP" by (simp add: warpable_def k_warp_maps_def PART_MAP_def)
  let ?mp = "if kind = ACT_PART then PART_MAP else mp"
  have w: "(kind = ACT_WARP \<or> kind = ACT_PART) \<and> \<not> warpable ?mp \<longleftrightarrow> kind = ACT_WARP \<and> \<not> warpable mp"
    using p by (auto simp: act_kinds)
  show ?thesis
  proof (cases "kind = ACT_FADE")
    case True
    then show ?thesis by (auto simp: act_refused_def act_allowed_def mem_r32_word_in act_kinds)
  next
    case False
    obtain why where q: "field_not_quiet io (kind = ACT_WARP \<or> kind = ACT_PART) s = (why, s)"
        "why = None \<longleftrightarrow> quiet_field (kind = ACT_WARP \<or> kind = ACT_PART) (mem s)"
      using not_quiet_spec [of io "kind = ACT_WARP \<or> kind = ACT_PART" s] by (metis prod.collapse)
    show ?thesis
      unfolding act_refused_def if_not_P [OF False] q(1) prod.case act_allowed_def using assms False q(2) w by auto
  qed
qed

lemma write_spec:
  "mem (act_write io kind (if kind = ACT_PART then PART_MAP else mp) s) = act_effect kind mp (mem s)"
  "user (act_write io kind mp' s) = user s"
  using script_place user_write_bytes [of "warp_script mp'" SOA_WARP_SCRIPT io s]
  by (auto simp: act_write_def act_effect_def mem_w_plain mem_write_bytes [OF script_place] mem_w8_def user_mem_w act_kinds)

lemma run_spec:
  assumes "0 < kind" "kind < ACT_KINDS"
  shows "(fst (act_run io tr f kind mp s) = None \<longleftrightarrow> act_allowed kind mp (mem s))
    \<and> game_view (snd (act_run io tr f kind mp s)) = act_does (kind, mp) (game_view s)"
proof (cases "kind = ACT_ENCOUNTERS_OFF \<or> kind = ACT_ENCOUNTERS_ON")
  case True
  then show ?thesis using assms
    by (auto simp: act_run_def act_allowed_def act_effect_def game_view_def act_kinds Let_def)
next
  case False
  let ?mp = "if kind = ACT_PART then PART_MAP else mp"
  obtain why where r: "act_refused io kind ?mp s = (why, s)" "why = None \<longleftrightarrow> act_allowed kind mp (mem s)"
    using refused_spec [of kind io mp s] False by (metis prod.collapse)
  have u: "\<not> (kind = ACT_ENCOUNTERS_OFF \<or> kind = ACT_ENCOUNTERS_ON)" by (rule False)
  show ?thesis
    using r assms u write_spec(1) [of io kind mp s] write_spec(2) [of io kind ?mp s]
    by (cases why) (auto simp: act_run_def game_view_def Let_def act_kinds)
qed

section \<open>The safe point of a replay\<close>

text \<open>Actions in order, each allowed where it comes.\<close>

fun all_allowed :: "(nat \<times> u32) list \<Rightarrow> (nat \<Rightarrow> u8) \<times> bool \<Rightarrow> bool" where
  "all_allowed [] v = True"
| "all_allowed ((kind, mp) # acts) v =
     (0 < kind \<and> kind < ACT_KINDS \<and> act_allowed kind mp (fst v) \<and> all_allowed acts (act_does (kind, mp) v))"

definition act_text :: "nat \<times> u32 \<Rightarrow> string" where
  "act_text a = act_text_of (fst a) (snd a)"

definition act_state :: "'m pcpu \<Rightarrow> ((nat \<Rightarrow> u8) \<times> bool) \<times> (nat \<times> u32 \<times> u32) list \<times> u32" where
  "act_state s = (game_view s, g_sched (user s), g_req (user s))"

lemma run_user: "\<exists>off si. user (snd (act_run io tr f kind mp s)) = (user s)\<lparr>g_enc_off := off, sp_si := si\<rparr>
    \<and> si_pending h k g si = si_pending h k g (sp_si (user s))"
proof -
  have rec: "user (sp_record tr f ''action'' x u) = (user u)\<lparr>sp_si := sp_si (user (sp_record tr f ''action'' x u))\<rparr>" for x u
    by (cases tr) (simp_all add: sp_record_def on_si_def)
  have pend: "si_pending h k g (sp_si (user (sp_record tr f ''action'' x u))) = si_pending h k g (sp_si (user u))" for x u
    using pending_record [of h k g tr f "''action''" x u] by (simp add: sp_pending_def)
  show ?thesis
  proof (cases "kind = ACT_ENCOUNTERS_OFF \<or> kind = ACT_ENCOUNTERS_ON")
    case True
    let ?u = "sp_upd (\<lambda>d. d\<lparr>g_enc_off := (kind = ACT_ENCOUNTERS_OFF)\<rparr>) s"
    show ?thesis
      using True rec [of "act_text_of kind mp" ?u] pend [of "act_text_of kind mp" ?u]
      by (intro exI [of _ "kind = ACT_ENCOUNTERS_OFF"] exI [of _ "sp_si (user (sp_record tr f ''action'' (act_text_of kind mp) ?u))"])
        (simp add: act_run_def Let_def)
  next
    case False
    let ?mp = "if kind = ACT_PART then PART_MAP else mp"
    let ?u = "act_write io kind ?mp s"
    obtain why where r: "act_refused io kind ?mp s = (why, s)"
      using refused_spec [of kind io mp s] False by (metis prod.collapse)
    have "snd (act_run io tr f kind mp s) = (if why = None then sp_record tr f ''action'' (act_text_of kind mp) ?u else s)"
      unfolding act_run_def Let_def if_not_P [OF False] r by (cases why) simp_all
    then show ?thesis
      using rec [of "act_text_of kind mp" ?u] pend [of "act_text_of kind mp" ?u] write_spec(2) [of io kind ?mp s]
      by (intro exI [of _ "g_enc_off (user s)"] exI [of _ "sp_si (user (snd (act_run io tr f kind mp s)))"]) simp
  qed
qed

lemma kind_of_range: "fst (act_kind_of x) < ACT_KINDS"
  by (auto simp: act_kind_of_def act_kinds Let_def find_Some_iff split: option.splits)

lemma run_state:
  assumes "0 < kind" "kind < ACT_KINDS"
  shows "act_state (snd (act_run io tr f kind mp s)) = (act_does (kind, mp) (game_view s), g_sched (user s), g_req (user s))"
    and "sp_pending h k g (snd (act_run io tr f kind mp s)) = sp_pending h k g s"
  using run_spec [OF assms, of io tr f mp s] run_user [of io tr f kind mp s h k g]
  by (auto simp: act_state_def sp_pending_def)

lemma left_keeps [simp]:
  "act_state (on_si (event_left h) s) = act_state s" "sp_pending h' k f (on_si (event_left h) s) = sp_pending h' k f s"
proof -
  show "act_state (on_si (event_left h) s) = act_state s" by (simp add: act_state_def) (simp add: on_si_def)
  have "si_pending h' k f (event_left h (sp_si (user s))) = si_pending h' k f (sp_si (user s))"
    by (rule si_pending_cong) (simp_all add: event_left_def call_out_def)
  then show "sp_pending h' k f (on_si (event_left h) s) = sp_pending h' k f s" by (simp add: sp_pending_def)
qed

definition replay_step :: "string \<Rightarrow> ((nat \<Rightarrow> u8) \<times> bool) \<times> 'x \<Rightarrow> ((nat \<Rightarrow> u8) \<times> bool) \<times> 'x" where
  "replay_step x v = (act_does (act_kind_of (take 23 x)) (fst v), snd v)"

lemma replay_one_state:
  "act_state (act_replay_one io h f (take 23 x) s) = replay_step x (act_state s)"
  "sp_pending h' k g (act_replay_one io h f (take 23 x) s) = sp_pending h' k g s"
proof -
  obtain kind mp where k: "act_kind_of (take 23 x) = (kind, mp)" by fastforce
  then have r: "kind < ACT_KINDS" using kind_of_range [of "take 23 x"] by simp
  have "act_state (act_replay_one io h f (take 23 x) s) = replay_step x (act_state s)
      \<and> sp_pending h' k g (act_replay_one io h f (take 23 x) s) = sp_pending h' k g s"
  proof (cases "kind = ACT_NONE")
    case True
    obtain m off where v: "game_view s = (m, off)" by fastforce
    show ?thesis using True k v by (simp add: act_replay_one_def replay_step_def) (simp add: act_state_def)
  next
    case False
    then have "0 < kind" by (simp add: act_kinds)
    note st = run_state(1) [OF this r, where io = io and tr = "Some h" and f = f and mp = mp and s = s]
      and pe = run_state(2) [OF this r, where io = io and tr = "Some h" and f = f and mp = mp and s = s and h = h' and k = k and g = g]
    obtain why s1 where run: "act_run io (Some h) f kind mp s = (why, s1)" by fastforce
    have "act_replay_one io h f (take 23 x) s = (case why of None \<Rightarrow> s1 | Some _ \<Rightarrow> on_si (event_left h) s1)"
      using k False run by (cases why) (simp_all add: act_replay_one_def)
    then show ?thesis using st pe k by (cases why) (simp_all add: run replay_step_def act_state_def [of s])
  qed
  then show "act_state (act_replay_one io h f (take 23 x) s) = replay_step x (act_state s)"
    "sp_pending h' k g (act_replay_one io h f (take 23 x) s) = sp_pending h' k g s" by simp_all
qed

lemma take_state [simp]: "act_state (snd (sp_take h k f s)) = act_state s"
  by (cases "event_take h k f (sp_si (user s))") (simp add: sp_take_def act_state_def, simp add: on_si_def)

lemma fold_replay_step: "fold replay_step xs (v, r) = (fold (\<lambda>x. act_does (act_kind_of (take 23 x))) xs v, r)"
  by (induction xs arbitrary: v) (simp_all add: replay_step_def)

definition encounters :: "(nat \<Rightarrow> u8) \<times> bool \<Rightarrow> (nat \<Rightarrow> u8) \<times> bool" where
  "encounters v = (if snd v then wr_bytes (fst v) (mem_ptr SOA_ENCOUNTER_STEPS) (put32 0) else fst v, snd v)"

lemma safe_point_replay:
  assumes on: "g_replaying (loaded_si h (sp_si (user s)))"
  shows "\<exists>t. actions_safe_point io (Some h) f s = Some t \<and> g_req (user t) = 0 \<and> g_sched (user t) = g_sched (user s)
    \<and> game_view t = encounters (fold (\<lambda>x. act_does (act_kind_of (take 23 x))) (sp_pending h ''action'' f s) (game_view s))
    \<and> sp_pending h ''action'' f t = []"
proof -
  have "\<exists>t. drain (sp_take h ''action'' f) (\<lambda>t. act_replay_one io h f (take 23 t))
      (fst (sp_take h ''action'' f s)) (snd (sp_take h ''action'' f s)) = Some t
    \<and> act_state t = fold replay_step (sp_pending h ''action'' f s) (act_state s) \<and> sp_pending h ''action'' f t = []"
    by (rule sp_events.drain_applies) (simp_all add: replay_one_state)
  then obtain t where t: "drain (sp_take h ''action'' f) (\<lambda>t. act_replay_one io h f (take 23 t))
      (fst (sp_take h ''action'' f s)) (snd (sp_take h ''action'' f s)) = Some t"
    "act_state t = fold replay_step (sp_pending h ''action'' f s) (act_state s)" "sp_pending h ''action'' f t = []" by blast
  have v: "game_view t = fold (\<lambda>x. act_does (act_kind_of (take 23 x))) (sp_pending h ''action'' f s) (game_view s)"
    "g_sched (user t) = g_sched (user s)"
    using t(2) by (simp_all add: act_state_def fold_replay_step)
  let ?t1 = "sp_upd (\<lambda>d. d\<lparr>g_req := 0\<rparr>) t"
  let ?t = "if g_enc_off (user t) then mem_w32 io SOA_ENCOUNTER_STEPS 0 ?t1 else ?t1"
  have "0 \<le> fst (fst (sp_take h ''action'' f s))" by (rule take_in_replay [OF on])
  then have s: "actions_safe_point io (Some h) f s = Some ?t"
    using t(1) by (cases "sp_take h ''action'' f s") (simp add: actions_safe_point_def)
  have u: "user ?t = (user t)\<lparr>g_req := 0\<rparr>" by simp
  have "mem ?t = (if g_enc_off (user t) then wr_bytes (mem t) (mem_ptr SOA_ENCOUNTER_STEPS) (put32 0) else mem t)"
    by (simp add: mem_w_plain)
  then have "game_view ?t = encounters (game_view t)" unfolding game_view_def encounters_def u by simp
  moreover have "sp_pending h ''action'' f ?t = []" using t(3) unfolding sp_pending_def u by simp
  ultimately show ?thesis using s v u by (intro exI [of _ ?t]) simp
qed

section \<open>A replay does what was done\<close>

text \<open>The recording side: the actions run one after another, none refused.\<close>

fun all_run :: "'m safe_point_scheme io \<Rightarrow> si_host option \<Rightarrow> u32 \<Rightarrow> (nat \<times> u32) list \<Rightarrow> 'm pcpu \<Rightarrow> 'm pcpu option" where
  "all_run io tr f [] s = Some s"
| "all_run io tr f ((kind, mp) # acts) s =
     (if kind = ACT_NONE \<or> ACT_KINDS \<le> kind then None
      else case act_run io tr f kind mp s of (None, s1) \<Rightarrow> all_run io tr f acts s1 | (Some _, _) \<Rightarrow> None)"

lemma all_run_does:
  "all_run io tr f acts s = Some s' \<Longrightarrow> all_allowed acts (game_view s) \<and> game_view s' = fold act_does acts (game_view s)"
proof (induction acts arbitrary: s)
  case (Cons a acts)
  obtain kind mp where a: "a = (kind, mp)" by fastforce
  have k: "0 < kind" "kind < ACT_KINDS" using Cons.prems by (auto simp: a act_kinds split: if_splits)
  then have k': "\<not> (kind = ACT_NONE \<or> ACT_KINDS \<le> kind)" by (simp add: act_kinds)
  obtain s1 where s1: "act_run io tr f kind mp s = (None, s1)" "all_run io tr f acts s1 = Some s'"
    using Cons.prems k' by (auto simp: a split: prod.splits option.splits)
  from run_spec [OF k, of io tr f mp s] s1(1)
  have "act_allowed kind mp (mem s)" "game_view s1 = act_does (kind, mp) (game_view s)" by simp_all
  then show ?case using Cons.IH [OF s1(2)] k by (simp add: a game_view_def)
qed simp

lemma short_text: "all_allowed acts v \<Longrightarrow> a \<in> set acts \<Longrightarrow> take 23 (act_text a) = act_text a"
  by (simp add: act_text_def act_text_of_def)

lemma texts_do:
  "all_allowed acts v \<Longrightarrow> fold (\<lambda>x. act_does (act_kind_of (take 23 x))) (map act_text acts) v = fold act_does acts v"
proof (induction acts arbitrary: v)
  case (Cons a acts)
  obtain kind mp m off where a: "a = (kind, mp)" "v = (m, off)" by fastforce
  have t: "take 23 (act_text a) = act_text_of kind mp" by (simp add: a act_text_def act_text_of_def)
  have "act_does (act_kind_of (act_text_of kind mp)) v = act_does a v"
    using Cons.prems recorded_action(1) [of kind mp m off] by (simp add: a)
  then show ?case using Cons.IH [of "act_does a v"] Cons.prems t by (simp add: a(1))
qed simp

section \<open>What the recording holds\<close>

text \<open>The actions that a piece of a recording names: its lines as the reader takes them apart.\<close>

definition action_texts :: "string \<Rightarrow> string list" where
  "action_texts t = concat (map (\<lambda>line. case pad_parse_event (\<lambda>_. None) line of
       Event e \<Rightarrow> if ev_of e = EV_ACTION then [ev_text e] else []
     | _ \<Rightarrow> []) (fgets_lines t))"

definition rec_open :: "string \<Rightarrow> 'm pcpu \<Rightarrow> bool" where
  "rec_open t s \<longleftrightarrow> g_rec (sp_si (user s)) = Some t \<and> g_rec_tried (sp_si (user s)) \<and> \<not> g_rec_done (sp_si (user s))"

abbreviation action_line :: "u32 \<Rightarrow> nat \<times> u32 \<Rightarrow> string" where
  "action_line f a \<equiv> recorded_event f (Action (act_text a))"

lemma act_text_word:
  assumes "0 < kind" "kind < ACT_KINDS" "act_allowed kind mp m"
  shows "event_ok (Action (act_text (kind, mp)))"
proof (cases "kind = ACT_WARP")
  case True
  then have l: "letter_map mp" using assms(3) warpable_letter by (auto simp: act_allowed_def act_kinds)
  have n: "unat (drop_bit 8 mp) < 1000" using l by (simp add: letter_map_def word_less_nat_alt)
  have w: "\<not> is_sep c \<and> c \<noteq> CHR ''#'' \<and> c \<noteq> nl \<and> c \<noteq> nul" if "is_digit c \<or> is_lower_letter c" for c
    using that by (auto simp: is_digit_def is_lower_letter_def is_sep_def nl_def nul_def less_eq_char_def)
  have t: "act_text (kind, mp) = ''warp:'' @ map_text mp"
    using True by (simp add: act_text_def act_text_of_def map_text_letter(1) [OF l])
  have "list_all (\<lambda>c. \<not> is_sep c \<and> c \<noteq> CHR ''#'' \<and> c \<noteq> nl \<and> c \<noteq> nul) (map_text mp)"
    using w digits_val_3(2-4) [OF n] map_text_letter(2) [OF l] by (simp add: map_text_letter(1) [OF l])
  then have "word_ok (act_text (kind, mp))"
    unfolding t by (simp add: word_ok_def list_all_iff is_sep_def nl_def nul_def)
  then show ?thesis by (simp add: t map_text_letter(1) [OF l])
next
  case False
  then have "kind \<in> {ACT_PART, ACT_ENDING, ACT_FADE, ACT_ENCOUNTERS_OFF, ACT_ENCOUNTERS_ON}"
    using assms(1,2) by (auto simp: act_kinds)
  then show ?thesis
    by (auto simp: act_text_def act_text_of_def act_kinds k_name_def word_ok_def is_sep_def nl_def nul_def)
qed

lemma run_records:
  assumes "act_run io (Some h) f kind mp s = (None, s1)" "0 < kind" "kind < ACT_KINDS" "rec_open t s"
  shows "rec_open (t @ action_line f (kind, mp)) s1"
proof -
  have r: "rec_open (t @ action_line f (kind, mp)) (sp_record (Some h) f ''action'' (act_text_of kind mp) u)"
    if "sp_si (user u) = sp_si (user s)" for u
    using assms(4) that
    by (simp add: rec_open_def sp_record_def event_applied_def event_record_def rec_put_def recorded_event_def kind_name_def
        act_text_def)
  show ?thesis
  proof (cases "kind = ACT_ENCOUNTERS_OFF \<or> kind = ACT_ENCOUNTERS_ON")
    case True
    let ?u = "sp_upd (\<lambda>d. d\<lparr>g_enc_off := (kind = ACT_ENCOUNTERS_OFF)\<rparr>) s"
    have "s1 = sp_record (Some h) f ''action'' (act_text_of kind mp) ?u"
      using assms(1) True by (simp add: act_run_def Let_def)
    then show ?thesis using r [of ?u] by simp
  next
    case False
    let ?mp = "if kind = ACT_PART then PART_MAP else mp"
    obtain why where w: "act_refused io kind ?mp s = (why, s)"
      using refused_spec [of kind io mp s] False by (metis prod.collapse)
    then have "s1 = sp_record (Some h) f ''action'' (act_text_of kind mp) (act_write io kind ?mp s)"
      using assms(1) False by (cases why) (auto simp: act_run_def Let_def)
    moreover have "sp_si (user (act_write io kind ?mp s)) = sp_si (user s)" by (simp only: write_spec(2))
    ultimately show ?thesis using r [of "act_write io kind ?mp s"] by (simp only:)
  qed
qed

lemma all_run_records:
  "all_run io (Some h) f acts s = Some s' \<Longrightarrow> rec_open t s \<Longrightarrow> rec_open (t @ concat (map (action_line f) acts)) s'"
proof (induction acts arbitrary: s t)
  case (Cons a acts)
  obtain kind mp where a: "a = (kind, mp)" by fastforce
  have k: "0 < kind" "kind < ACT_KINDS" "\<not> (kind = ACT_NONE \<or> ACT_KINDS \<le> kind)"
    using Cons.prems(1) by (auto simp: a act_kinds split: if_splits)
  then obtain s1 where s1: "act_run io (Some h) f kind mp s = (None, s1)" "all_run io (Some h) f acts s1 = Some s'"
    using Cons.prems(1) by (auto simp: a split: prod.splits option.splits)
  show ?case using Cons.IH [OF s1(2) run_records [OF s1(1) k(1,2) Cons.prems(2)]] by (simp add: a)
qed simp

lemma texts_read_back:
  "all_allowed acts v \<Longrightarrow> action_texts (concat (map (action_line f) acts)) = map act_text acts"
proof (induction acts arbitrary: v)
  case (Cons a acts)
  obtain kind mp m off where a: "a = (kind, mp)" "v = (m, off)" by fastforce
  have ok: "event_ok (Action (act_text a))" using act_text_word [of kind mp m] Cons.prems by (simp add: a)
  then have "fgets_lines (action_line f a @ concat (map (action_line f) acts))
      = action_line f a # fgets_lines (concat (map (action_line f) acts))"
    using fgets_line_ok [OF item_line_ok [of "Ev_item f (Action (act_text a))"]] by simp
  moreover have "pad_parse_event (\<lambda>_. None) (action_line f a) = Event (kept_event f (Action (act_text a)))"
    using event_line_roundtrip [where latest = "\<lambda>_. None" and f = f, OF ok] by simp
  moreover have "all_allowed acts (act_does a v)" using Cons.prems by (simp only: a all_allowed.simps fst_conv)
  then have "action_texts (concat (map (action_line f) acts)) = map act_text acts" by (rule Cons.IH)
  ultimately show ?case by (simp add: action_texts_def kept_event_def)
qed (simp add: action_texts_def fgets_lines.simps)

text \<open>C20: the actions of a recording are replayed as they ran: where a run with its recording open carried
  out a list of actions, what was added to the recording is such that a replay with the actions
  named there due, on the same memory and the same encounter switch, comes out of its safe point with the
  memory and the switch of the recording run (the encounter counter cleared if encounters are off),
  nothing left due, no request of the menu carried out or kept, and the schedule of SOA_ACTION
  untouched.\<close>

theorem actions_replay_as_run:
  assumes ran: "all_run io (Some h0) f acts l = Some l'" and opened: "rec_open before l"
  shows "\<exists>added. g_rec (sp_si (user l')) = Some (before @ added)
    \<and> (\<forall>h g s. game_view s = game_view l \<and> g_replaying (loaded_si h (sp_si (user s)))
          \<and> sp_pending h ''action'' g s = action_texts added \<longrightarrow>
        (\<exists>t. actions_safe_point io (Some h) g s = Some t \<and> game_view t = encounters (game_view l')
          \<and> sp_pending h ''action'' g t = [] \<and> g_req (user t) = 0 \<and> g_sched (user t) = g_sched (user s)))"
proof -
  let ?added = "concat (map (action_line f) acts)"
  have recorded: "g_rec (sp_si (user l')) = Some (before @ ?added)"
    using all_run_records [OF ran opened] by (simp add: rec_open_def)
  note d = all_run_does [OF ran]
  have "\<exists>t. actions_safe_point io (Some h) g s = Some t \<and> game_view t = encounters (game_view l')
      \<and> sp_pending h ''action'' g t = [] \<and> g_req (user t) = 0 \<and> g_sched (user t) = g_sched (user s)"
    if "game_view s = game_view l \<and> g_replaying (loaded_si h (sp_si (user s))) \<and> sp_pending h ''action'' g s = action_texts ?added"
    for h g s
  proof -
    have "sp_pending h ''action'' g s = map act_text acts"
      using that texts_read_back [OF d [THEN conjunct1], of f] by simp
    then show ?thesis
      using safe_point_replay [of h s io g] that texts_do [OF d [THEN conjunct1]] d by auto
  qed
  with recorded show ?thesis by blast
qed

text \<open>A run that turns encounters off and fades, its recording open; the replay of its lines.\<close>

definition action_run :: "safe_point cpu" where
  "action_run = (tick_cpu 0)\<lparr>mem := (\<lambda>p. if p = mem_ptr SOA_SCENE + 3 then 6 else 0),
     user := tick_user\<lparr>sp_si := si_init\<lparr>g_rec := Some rec_header, g_rec_tried := True\<rparr>\<rparr>\<rparr>"

definition action_replay :: "safe_point cpu" where
  "action_replay = action_run\<lparr>user := tick_user\<lparr>sp_si := si_init\<lparr>g_play_tried := True, g_replaying := True,
     g_ev := [kept_event 3 (Action ''encounters:off''), kept_event 3 (Action ''fade'')], g_ev_next := (\<lambda>_. 0)\<rparr>\<rparr>\<rparr>"

theorem actions_replay_as_run_witness:
  "\<exists>l' added t. all_run io_none (Some (witness_host ''X'' None)) 3 [(ACT_ENCOUNTERS_OFF, 0), (ACT_FADE, 0)] action_run = Some l'
     \<and> g_rec (sp_si (user l')) = Some (rec_header @ added) \<and> action_texts added = [''encounters:off'', ''fade'']
     \<and> actions_safe_point io_none (Some (witness_host ''X'' None)) 4 action_replay = Some t
     \<and> g_enc_off (user t) \<and> g_req (user t) = 0"
proof -
  let ?h = "witness_host ''X'' None" and ?acts = "[(ACT_ENCOUNTERS_OFF, 0), (ACT_FADE, 0)]"
  have scene: "word_in (mem action_run) SOA_SCENE = 6" by (simp add: word_in_def action_run_def get32_def)
  have l: "loaded_si ?h (sp_si (user action_replay)) = sp_si (user action_replay)" by (simp add: action_replay_def)
  have on: "g_replaying (loaded_si ?h (sp_si (user action_replay)))" unfolding l by (simp add: action_replay_def)
  have texts: "map act_text ?acts = [''encounters:off'', ''fade'']"
    by (simp add: act_text_def act_text_of_def act_kinds k_name_def eval_nat_numeral)
  have due: "sp_pending ?h ''action'' 4 action_replay = map act_text ?acts"
    unfolding texts sp_pending_def si_pending_def Let_def l
    by (simp add: action_replay_def k_ev_names_def kept_event_def due_texts.simps next_of_def)
  obtain l' where run: "all_run io_none (Some ?h) 3 ?acts action_run = Some l'" "g_enc_off (user l')"
    using scene
    by (auto simp: act_kinds act_run_def act_refused_def act_write_def mem_r32_word_in user_mem_w)
  have same: "game_view action_replay = game_view action_run"
    by (simp add: game_view_def action_replay_def action_run_def tick_cpu_def tick_user_def)
  have opened: "rec_open rec_header action_run" by (simp add: rec_open_def action_run_def si_init_def)
  obtain added where added: "g_rec (sp_si (user l')) = Some (rec_header @ added)"
    and replays: "\<And>s :: safe_point cpu. game_view s = game_view action_run \<and> g_replaying (loaded_si ?h (sp_si (user s)))
          \<and> sp_pending ?h ''action'' 4 s = action_texts added \<longrightarrow>
        (\<exists>t. actions_safe_point io_none (Some ?h) 4 s = Some t \<and> game_view t = encounters (game_view l')
          \<and> sp_pending ?h ''action'' 4 t = [] \<and> g_req (user t) = 0 \<and> g_sched (user t) = g_sched (user s))"
    using actions_replay_as_run [OF run(1) opened] by blast
  have "g_rec (sp_si (user l')) = Some (rec_header @ concat (map (action_line 3) ?acts))"
    using all_run_records [OF run(1) opened] by (simp add: rec_open_def)
  then have "action_texts added = map act_text ?acts"
    using added texts_read_back [OF all_run_does [OF run(1), THEN conjunct1], of 3] by simp
  then show ?thesis
    using replays [of action_replay] same on due run added texts
    by (auto simp: game_view_def encounters_def)
qed

text \<open>A fault of one item leaves the items before it scheduled, though its message says nothing is.\<close>

lemma fault_keeps_earlier:
  assumes "parse_action item = Some a" "item \<noteq> []" "parse_action bad = None" "bad \<noteq> []" "length sched < SCHEDULE_MAX"
  shows "parse_items (item # bad # items) n sched = (-1, sched @ [a])"
  using assms by (simp add: SCHEDULE_MAX_def)

end
