(* ===== verification/DevBase.thy ===== *)
theory DevBase
  imports GuestMem
begin

text \<open>
  What the device models share: the timebase they read and the DSP control and status
  register, whose interrupt bits dsp.c raises and aram.c stores. The static variables of
  the device files are one record, \<open>dev_base\<close>, that each file's theory extends with its
  own; it is the \<open>user\<close> part of the CPU state. The timebase is driven by the host's clock,
  so its readings are an input: \<open>clk\<close> is the sequence of the readings still to come and
  \<open>tb_now\<close> takes the next.
\<close>

record dev_base =
  clk :: "nat \<Rightarrow> u64"
  g_csr :: u16

definition dev :: "('d \<Rightarrow> 'd) \<Rightarrow> 'd cpu \<Rightarrow> 'd cpu" where
  "dev f s = s\<lparr>user := f (user s)\<rparr>"

definition tb_now :: "'m dev_base_scheme cpu \<Rightarrow> u64 \<times> 'm dev_base_scheme cpu" where
  "tb_now s = (clk (user s) 0, dev (\<lambda>d. d\<lparr>clk := (\<lambda>n. clk d (Suc n))\<rparr>) s)"

definition TB_HZ :: u64 where "TB_HZ = 40500000"

section \<open>The bits of DSP_CSR\<close>

definition CSR_RES :: u16 where "CSR_RES = 0x0001"
definition CSR_PIINT :: u16 where "CSR_PIINT = 0x0002"
definition CSR_HALT :: u16 where "CSR_HALT = 0x0004"
definition CSR_AIDINT :: u16 where "CSR_AIDINT = 0x0008"
definition CSR_AIDINTMSK :: u16 where "CSR_AIDINTMSK = 0x0010"
definition CSR_ARINT :: u16 where "CSR_ARINT = 0x0020"
definition CSR_ARINTMSK :: u16 where "CSR_ARINTMSK = 0x0040"
definition CSR_DSPINT :: u16 where "CSR_DSPINT = 0x0080"
definition CSR_DSPINTMSK :: u16 where "CSR_DSPINTMSK = 0x0100"
definition CSR_DSPINITCODE :: u16 where "CSR_DSPINITCODE = 0x0400"
definition CSR_DSPINIT :: u16 where "CSR_DSPINIT = 0x0800"

definition CSR_W1C :: u16 where
  "CSR_W1C = CSR_PIINT OR CSR_AIDINT OR CSR_ARINT OR CSR_DSPINT"

definition CSR_STORED :: u16 where
  "CSR_STORED = CSR_HALT OR CSR_AIDINTMSK OR CSR_ARINTMSK OR CSR_DSPINTMSK OR CSR_DSPINITCODE
     OR CSR_DSPINIT"

lemmas csr_defs = CSR_RES_def CSR_PIINT_def CSR_HALT_def CSR_AIDINT_def CSR_AIDINTMSK_def
  CSR_ARINT_def CSR_ARINTMSK_def CSR_DSPINT_def CSR_DSPINTMSK_def CSR_DSPINITCODE_def
  CSR_DSPINIT_def CSR_W1C_def CSR_STORED_def

text \<open>The mailbox and AI DMA models raise their interrupt bits with this.\<close>

definition dsp_csr_raise :: "u16 \<Rightarrow> 'm dev_base_scheme cpu \<Rightarrow> 'm dev_base_scheme cpu" where
  "dsp_csr_raise bits s = dev (\<lambda>d. d\<lparr>g_csr := g_csr d OR bits\<rparr>) s"

definition dsp_irq_pending :: "'m dev_base_scheme cpu \<Rightarrow> bool" where
  "dsp_irq_pending s =
     (nonzero (g_csr (user s) AND CSR_DSPINT) \<and> nonzero (g_csr (user s) AND CSR_DSPINTMSK))"

definition ai_dma_irq_pending :: "'m dev_base_scheme cpu \<Rightarrow> bool" where
  "ai_dma_irq_pending s =
     (nonzero (g_csr (user s) AND CSR_AIDINT) \<and> nonzero (g_csr (user s) AND CSR_AIDINTMSK))"

definition aram_irq_pending :: "'m dev_base_scheme cpu \<Rightarrow> bool" where
  "aram_irq_pending s =
     (nonzero (g_csr (user s) AND CSR_ARINT) \<and> nonzero (g_csr (user s) AND CSR_ARINTMSK))"

section \<open>Lemmas\<close>

lemma user_dev [simp]: "user (dev f s) = f (user s)"
  by (simp add: dev_def)

lemma mem_dev [simp]: "mem (dev f s) = mem s"
  by (simp add: dev_def)

lemma regs_dev [simp]: "gpr (dev f s) = gpr s" "lr (dev f s) = lr s" "msr (dev f s) = msr s"
  by (simp_all add: dev_def)

lemma dev_dev [simp]: "dev f (dev g s) = dev (\<lambda>d. f (g d)) s"
  by (simp add: dev_def)

lemma nonzero_or [simp]: "nonzero ((a :: 'a::len word) OR b) \<longleftrightarrow> nonzero a \<or> nonzero b"
  by (metis or_eq_0_iff)

section \<open>The interface of a memory-mapped device\<close>

text \<open>
  A device answers or declines an access. What the dispatcher of irq.c relies on is that a
  device declines every address outside its own window and that declining changes nothing,
  so that the order in which it asks the devices only matters inside a shared window.
\<close>

locale mmio_device =
  fixes rd :: "u32 \<Rightarrow> nat \<Rightarrow> 's \<Rightarrow> u64 option \<times> 's"
    and wr :: "u32 \<Rightarrow> nat \<Rightarrow> u64 \<Rightarrow> 's \<Rightarrow> bool \<times> 's"
    and window :: "u32 \<Rightarrow> bool"
  assumes rd_outside: "\<not> window ea \<Longrightarrow> rd ea n s = (None, s)"
    and wr_outside: "\<not> window ea \<Longrightarrow> wr ea n v s = (False, s)"
begin

lemma rd_answered: "rd ea n s = (Some v, s') \<Longrightarrow> window ea"
  using rd_outside by (metis option.distinct(1) prod.inject)

lemma wr_taken: "wr ea n v s = (True, s') \<Longrightarrow> window ea"
  using wr_outside by (metis prod.inject)

end

end
