(* ===== verification/Dsp.thy ===== *)
theory Dsp
  imports DevBase
begin

text \<open>
  runtime/dsp.c: the mailboxes between CPU and DSP, the mail protocol of the microcode, and
  the AI DMA clock. Mixing (ax.c) and the audio queue (audio_out.c) are the parameters
  \<open>ax_command_list\<close> and \<open>audio_push_block\<close>; \<open>noax\<close> is the environment switch that leaves
  mixing out.
\<close>

record dsp_dev = dev_base +
  g_in_hi :: u32
  g_out :: "nat \<Rightarrow> u32"
  g_out_head :: nat
  g_out_tail :: nat
  g_expect :: nat
  g_last_ctrl :: u32
  g_booted :: bool
  g_rom_after_stub :: bool
  g_mails_in :: u64
  g_mails_out :: u64
  g_cmdlists :: u64
  g_unknown :: u64
  g_dma_start :: u32
  g_dma_ctrl :: u16
  g_dma_due :: u64
  g_dma_period :: u64
  g_dma_blocks_done :: u64
  g_ctl_starts :: u64
  g_ctl_running :: u64
  g_ctl_stops :: u64
  g_ctl_running_lr :: u32

record 's dsp_env =
  noax :: bool
  ax_command_list :: "u32 \<Rightarrow> 's \<Rightarrow> 's"
  audio_push_block :: "u8 list \<Rightarrow> nat \<Rightarrow> 's \<Rightarrow> 's"

definition DSP_BASE :: u32 where "DSP_BASE = 0xCC005000"
definition DSP_INIT :: u32 where "DSP_INIT = 0xDCD10000"
definition DSP_RESUME :: u32 where "DSP_RESUME = 0xDCD10001"
definition DSP_YIELD :: u32 where "DSP_YIELD = 0xDCD10002"
definition MAIL_RESUME :: u32 where "MAIL_RESUME = 0xCDD10001"
definition MAIL_NEW_UCODE :: u32 where "MAIL_NEW_UCODE = 0xCDD10002"
definition MAIL_RESET :: u32 where "MAIL_RESET = 0xCDD10003"
definition MAIL_CONTINUE :: u32 where "MAIL_CONTINUE = 0xCDD10004"

section \<open>Mailboxes\<close>

definition push_out :: "u32 \<Rightarrow> bool \<Rightarrow> 'm dsp_dev_scheme cpu \<Rightarrow> 'm dsp_dev_scheme cpu" where
  "push_out mail irq s =
     (let d = user s; nxt = (g_out_tail d + 1) mod 16
      in if nxt = g_out_head d then s
         else let s1 = dev (\<lambda>d. d\<lparr>g_out := (g_out d)(g_out_tail d := mail), g_out_tail := nxt,
                                  g_mails_out := g_mails_out d + 1\<rparr>) s
              in if irq then dsp_csr_raise CSR_DSPINT s1 else s1)"

definition dsp_reset :: "'m dsp_dev_scheme cpu \<Rightarrow> 'm dsp_dev_scheme cpu" where
  "dsp_reset s =
     push_out 0x8071FEED False
       (dev (\<lambda>d. d\<lparr>g_out_head := 0, g_out_tail := 0, g_expect := 0, g_booted := False,
                   g_rom_after_stub := False\<rparr>) s)"

definition dsp_stub_boot :: "'m dsp_dev_scheme cpu \<Rightarrow> 'm dsp_dev_scheme cpu" where
  "dsp_stub_boot s =
     dev (\<lambda>d. d\<lparr>g_rom_after_stub := True\<rparr>)
       (push_out 0x80544348 False
         (dev (\<lambda>d. d\<lparr>g_out_head := 0, g_out_tail := 0, g_expect := 0, g_booted := False\<rparr>) s))"

definition handle_mail ::
  "'m dsp_dev_scheme cpu dsp_env \<Rightarrow> u32 \<Rightarrow> 'm dsp_dev_scheme cpu \<Rightarrow> 'm dsp_dev_scheme cpu" where
  "handle_mail env mail s0 =
     (let s = dev (\<lambda>d. d\<lparr>g_mails_in := g_mails_in d + 1\<rparr>) s0; d = user s
      in if g_expect d = 1 then
           (let s1 = dev (\<lambda>d. d\<lparr>g_expect := 0\<rparr>) s
            in if g_last_ctrl d = 0x80F3D001 \<and> \<not> g_booted d
               then push_out DSP_INIT True (dev (\<lambda>d. d\<lparr>g_booted := True\<rparr>) s1)
               else s1)
         else if g_expect d = 2 then
           (let s1 = dev (\<lambda>d. d\<lparr>g_expect := 0, g_cmdlists := g_cmdlists d + 1\<rparr>) s;
                s2 = (if noax env then s1 else ax_command_list env mail s1)
            in push_out DSP_YIELD True s2)
         else if mail AND 0xFFFF0000 = 0x80F30000 then
           dev (\<lambda>d. d\<lparr>g_last_ctrl := mail, g_expect := 1\<rparr>) s
         else if mail AND 0xFFFF0000 = 0xBABE0000 then
           dev (\<lambda>d. d\<lparr>g_expect := 2\<rparr>) s
         else if mail = MAIL_RESUME then push_out DSP_RESUME True s
         else if mail = MAIL_NEW_UCODE then dev (\<lambda>d. d\<lparr>g_booted := False\<rparr>) s
         else if mail = MAIL_RESET then dev (\<lambda>d. d\<lparr>g_booted := False\<rparr>) s
         else if mail = MAIL_CONTINUE then s
         else dev (\<lambda>d. d\<lparr>g_unknown := g_unknown d + 1\<rparr>) s)"

section \<open>Registers\<close>

definition dsp_window :: "u32 \<Rightarrow> bool" where
  "dsp_window ea = (DSP_BASE \<le> ea \<and> ea < DSP_BASE + 0x40)"

definition dsp_read ::
  "u32 \<Rightarrow> nat \<Rightarrow> 'm dsp_dev_scheme cpu \<Rightarrow> u64 option \<times> 'm dsp_dev_scheme cpu" where
  "dsp_read ea sz s =
     (if ea < DSP_BASE \<or> ea \<ge> DSP_BASE + 0x40 \<or> sz \<noteq> 2 then (None, s)
      else let d = user s; off = unat (ea - DSP_BASE) in
        if off = 0x00 then (Some 0, s)
        else if off = 0x02 then (Some 0, s)
        else if off = 0x04 then
          (Some (if g_out_head d \<noteq> g_out_tail d
                 then ucast (0x8000 OR drop_bit 16 (g_out d (g_out_head d))) else 0), s)
        else if off = 0x06 then
          (if g_out_head d \<noteq> g_out_tail d then
             (let v = ucast (g_out d (g_out_head d) AND 0xFFFF);
                  s1 = dev (\<lambda>d. d\<lparr>g_out_head := (g_out_head d + 1) mod 16\<rparr>) s
              in (Some v,
                  if g_out_head (user s1) = g_out_tail (user s1) \<and> g_rom_after_stub (user s1)
                  then push_out 0x8071FEED False (dev (\<lambda>d. d\<lparr>g_rom_after_stub := False\<rparr>) s1)
                  else s1))
           else (Some 0, s))
        else if off = 0x30 then (Some (ucast (drop_bit 16 (g_dma_start d))), s)
        else if off = 0x32 then (Some (ucast (g_dma_start d AND 0xFFFF)), s)
        else if off = 0x36 then (Some (ucast (g_dma_ctrl d)), s)
        else if off = 0x3A then
          (case tb_now s of (now, s1) \<Rightarrow>
             let blocks = (ucast (g_dma_ctrl d) AND 0x7FFF :: u32)
             in if g_dma_ctrl d AND 0x8000 = 0 \<or> g_dma_period d = 0 \<or> now \<ge> g_dma_due d
                then (Some 0, s1)
                else (Some (ucast (ucast ((g_dma_due d - now) * ucast blocks div g_dma_period d) :: u32)), s1))
        else (None, s))"

definition dsp_write ::
  "'m dsp_dev_scheme cpu dsp_env \<Rightarrow> u32 \<Rightarrow> nat \<Rightarrow> u64 \<Rightarrow> 'm dsp_dev_scheme cpu \<Rightarrow>
     bool \<times> 'm dsp_dev_scheme cpu" where
  "dsp_write env ea sz v s =
     (if ea < DSP_BASE \<or> ea \<ge> DSP_BASE + 0x40 \<or> sz \<noteq> 2 then (False, s)
      else let d = user s; off = unat (ea - DSP_BASE); v32 = (ucast v :: u32) in
        if off = 0x00 then (True, dev (\<lambda>d. d\<lparr>g_in_hi := v32 AND 0xFFFF\<rparr>) s)
        else if off = 0x02 then
          (True, handle_mail env (push_bit 16 (g_in_hi d) OR (v32 AND 0xFFFF)) s)
        else if off = 0x30 then
          (True, dev (\<lambda>d. d\<lparr>g_dma_start := (g_dma_start d AND 0xFFFF) OR push_bit 16 (v32 AND 0xFFFF)\<rparr>) s)
        else if off = 0x32 then
          (True, dev (\<lambda>d. d\<lparr>g_dma_start := (g_dma_start d AND 0xFFFF0000) OR (v32 AND 0xFFFF)\<rparr>) s)
        else if off = 0x36 then
          (let blocks = v32 AND 0x7FFF; was_on = nonzero (g_dma_ctrl d AND 0x8000);
               s1 = dev (\<lambda>d. d\<lparr>g_dma_ctrl := ucast v\<rparr>) s
           in if nonzero (v AND 0x8000) then
                (let per = ucast blocks * 32 * TB_HZ div 128000;
                     s2 = dev (\<lambda>d. d\<lparr>g_dma_period := (if per = 0 then 1 else per)\<rparr>) s1
                 in if \<not> was_on then
                      (case tb_now s2 of (now, s3) \<Rightarrow>
                         (True, dev (\<lambda>d. d\<lparr>g_dma_due := now + g_dma_period d,
                                           g_ctl_starts := g_ctl_starts d + 1\<rparr>) s3))
                    else
                      (True, dev (\<lambda>d. if g_ctl_running d = 0
                                then d\<lparr>g_ctl_running := g_ctl_running d + 1, g_ctl_running_lr := lr s2\<rparr>
                                else d\<lparr>g_ctl_running := g_ctl_running d + 1\<rparr>) s2))
              else if was_on then (True, dev (\<lambda>d. d\<lparr>g_ctl_stops := g_ctl_stops d + 1\<rparr>) s1)
              else (True, s1))
        else (False, s))"

definition dsp_poll :: "'m dsp_dev_scheme cpu dsp_env \<Rightarrow> 'm dsp_dev_scheme cpu \<Rightarrow> 'm dsp_dev_scheme cpu" where
  "dsp_poll env s =
     (let d = user s
      in if g_dma_ctrl d AND 0x8000 = 0 \<or> g_dma_period d = 0 then s
         else case tb_now s of (now, s0) \<Rightarrow>
           if now < g_dma_due d then s0
           else
             let bytes = (ucast (g_dma_ctrl d) AND 0x7FFF :: u32) * 32;
                 s1 = dev (\<lambda>d. d\<lparr>g_dma_due := g_dma_due d + g_dma_period d,
                                 g_dma_blocks_done := g_dma_blocks_done d + 1\<rparr>) s0;
                 s2 = (if nonzero bytes
                            \<and> unat ((g_dma_start d AND MEM_MASK) + bytes) \<le> MEM1_SIZE
                       then audio_push_block env
                              (rd_bytes (mem s1) (mem_ptr (g_dma_start d OR 0x80000000)) (unat bytes))
                              32000 s1
                       else s1)
             in dsp_csr_raise CSR_AIDINT s2)"

definition dsp_dma_blocks :: "'m dsp_dev_scheme cpu \<Rightarrow> u64" where
  "dsp_dma_blocks s = g_dma_blocks_done (user s)"

definition dsp_dma_backdate :: "nat \<Rightarrow> 'm dsp_dev_scheme cpu \<Rightarrow> 'm dsp_dev_scheme cpu" where
  "dsp_dma_backdate periods s =
     dev (\<lambda>d. d\<lparr>g_dma_due := g_dma_due d - of_nat periods * g_dma_period d\<rparr>) s"

section \<open>The outgoing mailbox is a bounded queue\<close>

text \<open>The mails waiting, oldest first, and the index invariant of the ring.\<close>

definition out_mails :: "'m dsp_dev_scheme cpu \<Rightarrow> u32 list" where
  "out_mails s = (let d = user s in
     map (\<lambda>i. g_out d ((g_out_head d + i) mod 16)) [0..<(g_out_tail d + 16 - g_out_head d) mod 16])"

definition ring_ok :: "'m dsp_dev_scheme cpu \<Rightarrow> bool" where
  "ring_ok s \<longleftrightarrow> g_out_head (user s) < 16 \<and> g_out_tail (user s) < 16"

definition empty_box :: "'m dsp_dev_scheme cpu \<Rightarrow> 'm dsp_dev_scheme cpu" where
  "empty_box s = dev (\<lambda>d. d\<lparr>g_out_head := 0, g_out_tail := 0\<rparr>) s"

definition pop_box :: "'m dsp_dev_scheme cpu \<Rightarrow> 'm dsp_dev_scheme cpu" where
  "pop_box s = dev (\<lambda>d. d\<lparr>g_out_head := (g_out_head d + 1) mod 16\<rparr>) s"

lemma out_mails_raise [simp]: "out_mails (dsp_csr_raise b s) = out_mails s"
  and ring_ok_raise [simp]: "ring_ok (dsp_csr_raise b s) = ring_ok s"
  by (simp_all add: out_mails_def ring_ok_def dsp_csr_raise_def Let_def)

lemma ring_count:
  assumes "h < (16 :: nat)" "t < 16"
  shows "(t + 16 - h) mod 16 = (if h \<le> t then t - h else t + 16 - h)"
  using assms by (auto simp: mod_if)

lemma length_out_mails: "ring_ok s \<Longrightarrow> length (out_mails s) \<le> 15"
  by (simp add: out_mails_def Let_def)

lemma out_mails_empty_iff:
  "ring_ok s \<Longrightarrow> out_mails s = [] \<longleftrightarrow> g_out_head (user s) = g_out_tail (user s)"
  by (auto simp: out_mails_def Let_def ring_ok_def ring_count split: if_splits)

lemma push_out_ring_ok [simp]: "ring_ok s \<Longrightarrow> ring_ok (push_out m irq s)"
  by (simp add: push_out_def Let_def) (simp add: ring_ok_def)

lemma out_mails_push:
  assumes "ring_ok s"
  shows "out_mails (push_out m irq s) = (if length (out_mails s) < 15 then out_mails s @ [m] else out_mails s)"
proof -
  let ?h = "g_out_head (user s)" and ?t = "g_out_tail (user s)"
  have ht: "?h < 16" "?t < 16" using assms by (simp_all add: ring_ok_def)
  define n where "n = (?t + 16 - ?h) mod 16"
  have full: "(?t + 1) mod 16 = ?h \<longleftrightarrow> \<not> n < 15"
    using ht unfolding n_def by (auto simp: mod_if)
  have tail: "(?h + n) mod 16 = ?t" "n < 16"
    using ht unfolding n_def by (auto simp: mod_if)
  show ?thesis
  proof (cases "n < 15")
    case False
    then show ?thesis
      using full by (simp add: push_out_def out_mails_def Let_def n_def)
  next
    case True
    have n': "((?t + 1) mod 16 + 16 - ?h) mod 16 = Suc n"
      using ht True unfolding n_def by (auto simp: mod_if)
    have ne: "(?h + i) mod 16 \<noteq> ?t" if "i < n" for i
      using that ht True unfolding n_def by (auto simp: mod_if split: if_splits)
    have "out_mails (push_out m irq s)
        = map (\<lambda>i. ((g_out (user s))(?t := m)) ((?h + i) mod 16)) [0..<Suc n]"
      using full True n' by (simp add: push_out_def out_mails_def Let_def dsp_csr_raise_def)
    also have "\<dots> = map (\<lambda>i. g_out (user s) ((?h + i) mod 16)) [0..<n] @ [m]"
      using ne tail by simp
    finally show ?thesis
      using True by (simp add: out_mails_def Let_def n_def)
  qed
qed

lemma out_mails_empty_box: "out_mails (empty_box s) = []" "ring_ok (empty_box s)"
  by (simp_all add: empty_box_def out_mails_def ring_ok_def)

lemma out_mails_pop:
  assumes "ring_ok s" "out_mails s \<noteq> []"
  shows "out_mails (pop_box s) = tl (out_mails s)"
    and "hd (out_mails s) = g_out (user s) (g_out_head (user s))"
    and "ring_ok (pop_box s)"
proof -
  let ?h = "g_out_head (user s)" and ?t = "g_out_tail (user s)"
  have ht: "?h < 16" "?t < 16" using assms by (simp_all add: ring_ok_def)
  define n where "n = (?t + 16 - ?h) mod 16"
  have "?h \<noteq> ?t" using assms by (simp add: out_mails_empty_iff)
  then have n: "0 < n" using ht unfolding n_def by (auto simp: mod_if)
  then obtain k where k: "n = Suc k" by (cases n) auto
  have n': "(?t + 16 - (?h + 1) mod 16) mod 16 = k"
    using ht k \<open>?h \<noteq> ?t\<close> unfolding n_def by (auto simp: mod_if split: if_splits)
  have step: "((?h + 1) mod 16 + i) mod 16 = (?h + Suc i) mod 16" for i
    by (simp add: mod_simps)
  have q: "out_mails s = map (\<lambda>i. g_out (user s) ((?h + i) mod 16)) [0..<Suc k]"
    using k by (simp add: out_mails_def Let_def n_def)
  have "out_mails (pop_box s) = map (\<lambda>i. g_out (user s) ((?h + Suc i) mod 16)) [0..<k]"
    using n' step by (simp add: out_mails_def pop_box_def Let_def)
  then show "out_mails (pop_box s) = tl (out_mails s)"
    unfolding q by (simp add: upt_rec [of 0] map_tl [symmetric] map_Suc_upt [symmetric] del: upt_Suc)
  show "hd (out_mails s) = g_out (user s) ?h"
    unfolding q using ht by (simp add: upt_rec [of 0] del: upt_Suc)
  show "ring_ok (pop_box s)"
    using ht by (simp add: ring_ok_def pop_box_def)
qed

text \<open>The contract of a bounded mailbox, and what follows for a burst of mails.\<close>

locale bounded_box =
  fixes empty :: "'s \<Rightarrow> 's" and push :: "'a \<Rightarrow> 's \<Rightarrow> 's" and front :: "'s \<Rightarrow> 'a"
    and pop :: "'s \<Rightarrow> 's" and box :: "'s \<Rightarrow> 'a list" and ok :: "'s \<Rightarrow> bool" and cap :: nat
  assumes ok_empty: "ok (empty s)" and box_empty: "box (empty s) = []"
    and ok_push: "ok s \<Longrightarrow> ok (push x s)"
    and box_push: "ok s \<Longrightarrow> box (push x s) = (if length (box s) < cap then box s @ [x] else box s)"
    and ok_pop: "ok s \<Longrightarrow> box s \<noteq> [] \<Longrightarrow> ok (pop s)"
    and box_pop: "ok s \<Longrightarrow> box s \<noteq> [] \<Longrightarrow> box (pop s) = tl (box s)"
    and front_box: "ok s \<Longrightarrow> box s \<noteq> [] \<Longrightarrow> front s = hd (box s)"
begin

lemma ok_pushes: "ok s \<Longrightarrow> ok (fold push xs s)"
  by (induction xs arbitrary: s) (auto simp: ok_push)

lemma box_pushes: "ok s \<Longrightarrow> box (fold push xs s) = box s @ take (cap - length (box s)) xs"
  by (induction xs arbitrary: s) (auto simp: ok_push box_push take_Cons')

lemma pops_ok_box: "ok s \<Longrightarrow> n \<le> length (box s) \<Longrightarrow> ok ((pop ^^ n) s) \<and> box ((pop ^^ n) s) = drop n (box s)"
  by (induction n) (auto simp: ok_pop box_pop drop_Suc tl_drop)

lemma burst: "n < length xs \<Longrightarrow> n < cap \<Longrightarrow> front ((pop ^^ n) (fold push xs (empty s))) = xs ! n"
  using pops_ok_box [of "fold push xs (empty s)" n] ok_pushes [OF ok_empty] box_pushes [OF ok_empty, of xs s]
  by (simp add: front_box box_empty hd_drop_conv_nth)

end

interpretation mailbox: bounded_box empty_box "\<lambda>m. push_out m irq"
  "\<lambda>s. g_out (user s) (g_out_head (user s))" pop_box out_mails ring_ok 15
  by unfold_locales (simp_all add: out_mails_empty_box out_mails_push out_mails_pop)

section \<open>What the CPU reads\<close>

text \<open>The CPU's polling loop: high half, then low half, which takes the mail.\<close>

fun read_mails :: "nat \<Rightarrow> 'm dsp_dev_scheme cpu \<Rightarrow> u32 list \<times> 'm dsp_dev_scheme cpu" where
  "read_mails 0 s = ([], s)"
| "read_mails (Suc n) s =
     (case dsp_read 0xCC005004 2 s of (hi, s1) \<Rightarrow>
      case dsp_read 0xCC005006 2 s1 of (lo, s2) \<Rightarrow>
      case read_mails n s2 of (ms, s3) \<Rightarrow>
        ((push_bit 16 (ucast (the hi)) OR ucast (the lo)) # ms, s3))"

lemma bit_0x8000: "bit (0x8000 :: u32) k \<longleftrightarrow> k = 15" "bit (0x8000 :: int) k \<longleftrightarrow> k = 15"
  using bit_exp_iff [of 15 k, where ?'a = u32] bit_exp_iff [of 15 k, where ?'a = int] by auto

lemma mail_halves:
  assumes "bit m 31"
  shows "push_bit 16 (ucast (ucast (0x8000 OR drop_bit 16 m) :: u64)) OR ucast (ucast (m AND 0xFFFF) :: u64) = (m :: u32)"
proof (rule bit_word_eqI)
  fix n
  assume n: "n < LENGTH(32)"
  have c: "(0xFFFF :: u32) = mask 16"
    by (simp add: mask_eq_exp_minus_1)
  show "bit (push_bit 16 (ucast (ucast (0x8000 OR drop_bit 16 m) :: u64)) OR ucast (ucast (m AND 0xFFFF) :: u64) :: u32) n
      = bit m n"
    using n assms unfolding c
    by (cases "n < 16"; cases "n = 31")
      (auto simp: bit_simps bit_0x8000 le_add_diff_inverse2)
qed

lemma dsp_read_front:
  assumes "ring_ok s" "out_mails s = m # q" "\<not> g_rom_after_stub (user s)" "bit m 31"
  shows "read_mails (Suc n) s = (m # fst (read_mails n (pop_box s)), snd (read_mails n (pop_box s)))"
proof -
  have ne: "g_out_head (user s) \<noteq> g_out_tail (user s)"
    using assms by (simp add: out_mails_empty_iff [symmetric])
  have m: "g_out (user s) (g_out_head (user s)) = m"
    using out_mails_pop(2) [of s] assms by simp
  have "dsp_read 0xCC005004 2 s = (Some (ucast (0x8000 OR drop_bit 16 m)), s)"
    using ne m by (simp add: dsp_read_def DSP_BASE_def Let_def)
  moreover have "dsp_read 0xCC005006 2 s = (Some (ucast (m AND 0xFFFF)), pop_box s)"
    using ne m assms(3) by (simp add: dsp_read_def DSP_BASE_def Let_def pop_box_def)
  ultimately show ?thesis
    using mail_halves [OF assms(4)] by (simp add: case_prod_beta)
qed

lemma read_all_mails:
  assumes "ring_ok s" "\<not> g_rom_after_stub (user s)" "\<forall>m\<in>set (out_mails s). bit m 31"
  shows "fst (read_mails (length (out_mails s)) s) = out_mails s"
  using assms
proof (induction "length (out_mails s)" arbitrary: s)
  case (Suc n)
  then obtain m q where mq: "out_mails s = m # q" by (cases "out_mails s") auto
  have pop: "ring_ok (pop_box s)" "out_mails (pop_box s) = q" "\<not> g_rom_after_stub (user (pop_box s))"
    using out_mails_pop [OF Suc.prems(1)] mq Suc.prems(2) by (simp_all add: pop_box_def)
  have "fst (read_mails n (pop_box s)) = q"
    using Suc.hyps(1) [of "pop_box s"] Suc.hyps(2) Suc.prems(3) pop mq by simp
  then show ?case
    using dsp_read_front [OF Suc.prems(1) mq Suc.prems(2), of n] Suc.prems(3) Suc.hyps(2) mq by simp
qed simp

lemma push_out_rom [simp]:
  "g_rom_after_stub (user (push_out m irq s)) = g_rom_after_stub (user s)"
  by (simp add: push_out_def dsp_csr_raise_def Let_def)

lemma pushes_rom [simp]:
  "g_rom_after_stub (user (fold (\<lambda>m. push_out m irq) ms s)) = g_rom_after_stub (user s)"
  by (induction ms arbitrary: s) auto

text \<open>C29: a burst of at most fifteen mails the DSP leaves in an empty box is what the CPU reads
  through the two halves of the outgoing mailbox register, complete and in order.\<close>

theorem mailbox_reads_in_order:
  assumes "length ms \<le> 15" and "\<forall>m\<in>set ms. bit m 31" and "\<not> g_rom_after_stub (user s)"
  shows "fst (read_mails (length ms) (fold (\<lambda>m. push_out m irq) ms (empty_box s))) = ms"
proof -
  let ?s = "fold (\<lambda>m. push_out m irq) ms (empty_box s)"
  have q: "out_mails ?s = ms"
    using mailbox.box_pushes [OF mailbox.ok_empty, of irq ms s] assms(1)
    by (simp add: out_mails_empty_box)
  have "fst (read_mails (length (out_mails ?s)) ?s) = out_mails ?s"
    using mailbox.ok_pushes [OF mailbox.ok_empty] assms q
    by (intro read_all_mails) (simp_all add: empty_box_def)
  then show ?thesis by (simp add: q)
qed

definition dsp_zero :: "unit dsp_dev_ext dev_base_ext cpu" where
  "dsp_zero = \<lparr>gpr = (\<lambda>_. 0), fpr = (\<lambda>_. (0, 0)), cr = 0, xer = 0, lr = 0, ctr = 0, fpscr = 0,
     msr = 0, decr = 0, pc = 0, gqr = (\<lambda>_. 0), hid2 = 0, wpar = 0, spr = (\<lambda>_. 0), sr = (\<lambda>_. 0),
     mem = (\<lambda>_. 0),
     user = \<lparr>clk = (\<lambda>_. 0), g_csr = CSR_HALT OR CSR_DSPINIT, g_in_hi = 0, g_out = (\<lambda>_. 0),
       g_out_head = 0, g_out_tail = 0, g_expect = 0, g_last_ctrl = 0, g_booted = False,
       g_rom_after_stub = False, g_mails_in = 0, g_mails_out = 0, g_cmdlists = 0, g_unknown = 0,
       g_dma_start = 0, g_dma_ctrl = 0, g_dma_due = 0, g_dma_period = 0, g_dma_blocks_done = 0,
       g_ctl_starts = 0, g_ctl_running = 0, g_ctl_stops = 0, g_ctl_running_lr = 0\<rparr>\<rparr>"

theorem mailbox_reads_in_order_witness:
  "fst (read_mails 2 (fold (\<lambda>m. push_out m True) [0xDCD10000, 0x8071FEED] (empty_box dsp_zero)))
     = [0xDCD10000, 0x8071FEED]"
proof -
  have "\<forall>m\<in>set [0xDCD10000, 0x8071FEED :: u32]. bit m 31" by simp
  moreover have "\<not> g_rom_after_stub (user dsp_zero)" by (simp add: dsp_zero_def)
  ultimately show ?thesis
    using mailbox_reads_in_order [of "[0xDCD10000, 0x8071FEED]" dsp_zero True]
    by (simp add: numeral_2_eq_2 del: read_mails.simps)
qed

section \<open>The mail protocol\<close>

lemma push_out_fields [simp]:
  "g_expect (user (push_out m irq s)) = g_expect (user s)"
  "g_booted (user (push_out m irq s)) = g_booted (user s)"
  "g_last_ctrl (user (push_out m irq s)) = g_last_ctrl (user s)"
  "g_cmdlists (user (push_out m irq s)) = g_cmdlists (user s)"
  "g_mails_in (user (push_out m irq s)) = g_mails_in (user s)"
  by (simp_all add: push_out_def dsp_csr_raise_def Let_def)

text \<open>Updates that leave the box alone.\<close>

lemma box_dev [simp]:
  assumes "\<And>d. g_out (f d) = g_out d" "\<And>d. g_out_head (f d) = g_out_head d"
    "\<And>d. g_out_tail (f d) = g_out_tail d"
  shows "out_mails (dev f s) = out_mails s" "ring_ok (dev f s) = ring_ok s"
  using assms by (simp_all add: out_mails_def ring_ok_def Let_def)

lemma out_mails_user: "user s = user t \<Longrightarrow> out_mails s = out_mails t"
  by (simp add: out_mails_def Let_def)

lemma ring_ok_user: "user s = user t \<Longrightarrow> ring_ok s = ring_ok t"
  by (simp add: ring_ok_def)

text \<open>A command word and the address after it, from the idle state.\<close>

lemma handle_command:
  assumes "g_expect (user s) = 0" "c AND 0xFFFF0000 = 0xBABE0000" "ring_ok s"
    and ax: "\<And>x t. user (ax_command_list env x t) = user t"
    and s'_def: "s' = handle_mail env a (handle_mail env c s)"
  shows "g_expect (user s') = 0 \<and> g_cmdlists (user s') = g_cmdlists (user s) + 1 \<and> ring_ok s'
    \<and> out_mails s' = (if length (out_mails s) < 15 then out_mails s @ [DSP_YIELD] else out_mails s)"
proof -
  let ?s1 = "dev (\<lambda>d. d\<lparr>g_mails_in := g_mails_in d + 1, g_expect := 2\<rparr>) s"
  have one: "handle_mail env c s = ?s1"
    using assms(1,2) by (simp add: handle_mail_def Let_def)
  let ?s2 = "dev (\<lambda>d. d\<lparr>g_mails_in := g_mails_in d + 1, g_expect := 0, g_cmdlists := g_cmdlists d + 1\<rparr>) ?s1"
  let ?s3 = "if noax env then ?s2 else ax_command_list env a ?s2"
  have two: "s' = push_out DSP_YIELD True ?s3"
    unfolding s'_def one by (simp add: handle_mail_def Let_def)
  have u: "user ?s3 = user ?s2" using ax by simp
  have b: "out_mails ?s3 = out_mails s" "ring_ok ?s3"
    using out_mails_user [OF u] ring_ok_user [OF u] assms(3) by simp_all
  have f: "g_expect (user ?s3) = 0" "g_cmdlists (user ?s3) = g_cmdlists (user s) + 1"
    unfolding u by simp_all
  show ?thesis
    unfolding two using f b by (simp add: out_mails_push [OF b(2)])
qed

text \<open>C17: every command the CPU sends, with whatever address word follows it, is one frame of
  work answered by one yield mail: after any number of them the microcode is idle again, the
  frames counted are the commands sent, and the yields in the box are as many as fit. The
  address word is never taken for a command, whatever it looks like.\<close>

theorem command_lists_served:
  assumes "\<And>a t. user (ax_command_list env a t) = user t" and "g_expect (user s) = 0" and "ring_ok s"
    and "\<forall>(c, a)\<in>set cs. c AND 0xFFFF0000 = 0xBABE0000"
  shows "let s' = fold (handle_mail env) (concat (map (\<lambda>(c, a). [c, a]) cs)) s
    in g_expect (user s') = 0 \<and> g_cmdlists (user s') = g_cmdlists (user s) + of_nat (length cs)
      \<and> out_mails s' = out_mails s @ replicate (min (length cs) (15 - length (out_mails s))) DSP_YIELD"
  using assms(2-)
proof (induction cs arbitrary: s)
  case (Cons ca cs)
  obtain c a where ca: "ca = (c, a)" by (cases ca)
  let ?s = "handle_mail env a (handle_mail env c s)"
  have h: "g_expect (user ?s) = 0" "g_cmdlists (user ?s) = g_cmdlists (user s) + 1" "ring_ok ?s"
    "out_mails ?s = (if length (out_mails s) < 15 then out_mails s @ [DSP_YIELD] else out_mails s)"
    using handle_command [of s c env ?s a] Cons.prems assms(1) ca by auto
  have "15 - length (out_mails s) = Suc (14 - length (out_mails s))" if "length (out_mails s) < 15"
    using that by simp
  then show ?case
    using Cons.IH [OF h(1,3)] Cons.prems(3) h(2,4) ca
    by (auto simp: Let_def)
qed simp

definition quiet_env :: "'s dsp_env" where
  "quiet_env = \<lparr>noax = False, ax_command_list = (\<lambda>_ s. s), audio_push_block = (\<lambda>_ _ s. s)\<rparr>"

theorem command_lists_served_witness:
  "g_cmdlists (user (fold (handle_mail quiet_env) [0xBABE0180, 0x80F31000, 0xBABE0000, 0xBABE0000] dsp_zero)) = 2"
proof -
  have "g_expect (user dsp_zero) = 0" "ring_ok dsp_zero" "g_cmdlists (user dsp_zero) = 0"
    by (simp_all add: dsp_zero_def ring_ok_def)
  then show ?thesis
    using command_lists_served [of quiet_env dsp_zero "[(0xBABE0180, 0x80F31000), (0xBABE0000, 0xBABE0000)]"]
    by (simp add: quiet_env_def Let_def)
qed

section \<open>The boot handshake\<close>

lemma handle_boot_pair:
  assumes "g_expect (user s) = 0" "c AND 0xFFFF0000 = 0x80F30000" "c \<noteq> 0x80F3D001"
    and s'_def: "s' = handle_mail env p (handle_mail env c s)"
  shows "g_expect (user s') = 0 \<and> g_booted (user s') = g_booted (user s) \<and> ring_ok s' = ring_ok s
    \<and> out_mails s' = out_mails s"
  unfolding s'_def using assms(1-3) by (simp add: handle_mail_def Let_def)

lemma handle_boot_pairs:
  assumes "g_expect (user s) = 0" "\<forall>(c, p)\<in>set ps. c AND 0xFFFF0000 = 0x80F30000 \<and> c \<noteq> 0x80F3D001"
    and s'_def: "s' = fold (handle_mail env) (concat (map (\<lambda>(c, p). [c, p]) ps)) s"
  shows "g_expect (user s') = 0 \<and> g_booted (user s') = g_booted (user s) \<and> ring_ok s' = ring_ok s
    \<and> out_mails s' = out_mails s"
  unfolding s'_def using assms(1,2)
proof (induction ps arbitrary: s)
  case (Cons cp ps)
  then show ?case
    using handle_boot_pair [of s "fst cp" _ env "snd cp", OF _ _ _ refl]
      Cons.IH [of "handle_mail env (snd cp) (handle_mail env (fst cp) s)"]
    by (auto simp: split_beta)
qed simp

lemma reset_box:
  "out_mails (dsp_reset s) = [0x8071FEED]" "ring_ok (dsp_reset s)" "g_expect (user (dsp_reset s)) = 0"
  "\<not> g_booted (user (dsp_reset s))"
proof -
  let ?s = "dev (\<lambda>d. d\<lparr>g_out_head := 0, g_out_tail := 0, g_expect := 0, g_booted := False,
                   g_rom_after_stub := False\<rparr>) s"
  have "ring_ok ?s" "out_mails ?s = []" by (simp_all add: ring_ok_def out_mails_def)
  then show "out_mails (dsp_reset s) = [0x8071FEED]" "ring_ok (dsp_reset s)"
    by (simp_all add: dsp_reset_def out_mails_push)
  show "g_expect (user (dsp_reset s)) = 0" "\<not> g_booted (user (dsp_reset s))"
    by (simp_all add: dsp_reset_def)
qed

lemma raised_bit: "nonzero (g_csr (user (dsp_csr_raise CSR_DSPINT s)) AND CSR_DSPINT)"
  by (simp add: dsp_csr_raise_def word_ao_absorbs CSR_DSPINT_def)

lemma push_out_raises:
  assumes "ring_ok s" "length (out_mails s) < 15"
  shows "nonzero (g_csr (user (push_out m True s)) AND CSR_DSPINT)"
proof -
  have "(g_out_tail (user s) + 1) mod 16 \<noteq> g_out_head (user s)"
    using assms unfolding out_mails_def Let_def ring_ok_def by (auto simp: mod_if split: if_splits)
  then show ?thesis
    unfolding push_out_def Let_def by (simp only: if_True if_False raised_bit simp_thms)
qed

text \<open>after a reset the ROM announces itself once; the SDK's boot sends control and parameter
  pairs in any number, and nothing is mailed back until the pair whose control word starts the
  microcode, which is answered by exactly one DSP_INIT and the DSP interrupt.\<close>

theorem boot_handshake:
  assumes "\<forall>(c, p)\<in>set ps. c AND 0xFFFF0000 = 0x80F30000 \<and> c \<noteq> 0x80F3D001"
  shows "let s1 = fold (handle_mail env) (concat (map (\<lambda>(c, p). [c, p]) ps)) (dsp_reset s);
      s2 = fold (handle_mail env) [0x80F3D001, vec] s1
    in \<not> g_booted (user s1) \<and> out_mails s1 = [0x8071FEED]
      \<and> g_booted (user s2) \<and> out_mails s2 = [0x8071FEED, DSP_INIT]
      \<and> nonzero (g_csr (user s2) AND CSR_DSPINT)"
proof -
  define s1 where "s1 = fold (handle_mail env) (concat (map (\<lambda>(c, p). [c, p]) ps)) (dsp_reset s)"
  have s1: "g_expect (user s1) = 0" "\<not> g_booted (user s1)" "ring_ok s1" "out_mails s1 = [0x8071FEED]"
    using handle_boot_pairs [OF reset_box(3) assms, of s1 env s] reset_box [of s] by (simp_all add: s1_def)
  let ?t = "dev (\<lambda>d. d\<lparr>g_last_ctrl := 0x80F3D001, g_mails_in := g_mails_in d + 2, g_expect := 0,
      g_booted := True\<rparr>) s1"
  have t: "ring_ok ?t" "out_mails ?t = [0x8071FEED]" using s1 by simp_all
  have "handle_mail env vec (handle_mail env 0x80F3D001 s1) = push_out DSP_INIT True ?t"
    using s1 by (simp add: handle_mail_def Let_def add.assoc)
  moreover have "nonzero (g_csr (user (push_out DSP_INIT True ?t)) AND CSR_DSPINT)"
    using t by (intro push_out_raises) simp_all
  ultimately show ?thesis
    using s1 t out_mails_push [OF t(1), of DSP_INIT True] by (simp add: s1_def [symmetric] Let_def)
qed

theorem boot_handshake_witness:
  "out_mails (fold (handle_mail quiet_env) [0x80F3A001, 0x1000, 0x80F3D001, 0x10] (dsp_reset dsp_zero))
    = [0x8071FEED, DSP_INIT]"
  using boot_handshake [where ps = "[(0x80F3A001, 0x1000)]" and env = quiet_env and s = dsp_zero and vec = "0x10"]
  by (simp add: Let_def)

section \<open>Pacing of the AI DMA\<close>

text \<open>The audio engine, playing: a nonzero period, the enable bit set.\<close>

definition dma_playing :: "'m dsp_dev_scheme cpu \<Rightarrow> bool" where
  "dma_playing s \<longleftrightarrow> nonzero (g_dma_ctrl (user s) AND 0x8000) \<and> nonzero (g_dma_period (user s))"

text \<open>How many blocks are owed at time \<open>now\<close>: one per deadline that has passed.\<close>

definition blocks_owed :: "u64 \<Rightarrow> u64 \<Rightarrow> u64 \<Rightarrow> nat" where
  "blocks_owed now due per =
     (if now < due then 0 else (unat now - unat due) div unat per + 1)"

lemma poll_not_due:
  assumes "dma_playing s" "clk (user s) 0 < g_dma_due (user s)"
  shows "dsp_poll env s = snd (tb_now s)"
  using assms by (simp add: dsp_poll_def dma_playing_def tb_now_def Let_def)

lemma poll_due:
  assumes "dma_playing s" "g_dma_due (user s) \<le> clk (user s) 0"
    and quiet: "\<And>bs r t. user (audio_push_block env bs r t) = user t"
  shows "user (dsp_poll env s) = (user s)\<lparr>clk := (\<lambda>n. clk (user s) (Suc n)),
      g_dma_due := g_dma_due (user s) + g_dma_period (user s),
      g_dma_blocks_done := g_dma_blocks_done (user s) + 1, g_csr := g_csr (user s) OR CSR_AIDINT\<rparr>"
  using assms by (simp add: dsp_poll_def dma_playing_def tb_now_def dsp_csr_raise_def Let_def linorder_not_less)

lemma owed_step:
  assumes "due \<le> now" "per \<noteq> 0" "unat now + unat per < 2 ^ 64"
  shows "unat (due + per) = unat due + unat per"
    and "blocks_owed now due per = Suc (blocks_owed now (due + per) per)"
proof -
  have le: "unat due \<le> unat now" using assms(1) by (simp add: word_le_nat_alt)
  then show sum: "unat (due + per) = unat due + unat per"
    using assms(3) by (simp add: unat_word_ariths)
  have pos: "0 < unat per" using assms(2) by (simp add: unat_gt_0)
  show "blocks_owed now due per = Suc (blocks_owed now (due + per) per)"
  proof (cases "now < due + per")
    case True
    then have "unat now - unat due < unat per" using sum le by (simp add: word_less_nat_alt)
    then show ?thesis using True assms(1) by (simp add: blocks_owed_def linorder_not_less)
  next
    case False
    then have ge: "unat due + unat per \<le> unat now" using sum by (simp add: word_less_nat_alt)
    then have "(unat now - unat due) div unat per = Suc ((unat now - (unat due + unat per)) div unat per)"
      using pos le_div_geq [of "unat per" "unat now - unat due"] by (simp add: diff_diff_eq)
    then show ?thesis using False assms(1) sum by (simp add: blocks_owed_def linorder_not_less)
  qed
qed

lemma poll_keeps_aidint:
  assumes "\<And>bs r t. user (audio_push_block env bs r t) = user t"
    and "nonzero (g_csr (user s) AND CSR_AIDINT)"
  shows "nonzero (g_csr (user (dsp_poll env s)) AND CSR_AIDINT)"
  using assms by (simp add: dsp_poll_def tb_now_def dsp_csr_raise_def Let_def CSR_AIDINT_def)

lemma polls_keep_aidint:
  assumes "\<And>bs r t. user (audio_push_block env bs r t) = user t"
  shows "nonzero (g_csr (user s) AND CSR_AIDINT) \<Longrightarrow> nonzero (g_csr (user ((dsp_poll env ^^ n) s)) AND CSR_AIDINT)"
  by (induction n) (simp_all add: poll_keeps_aidint [OF assms])

text \<open>C30: the block clock catches up one block a poll and never drifts: polled \<open>n\<close> times at a time
  \<open>now\<close>, however long the host stalled, it has played as many of the blocks owed as there were
  polls, the deadline has moved on by exactly that many periods, and AIDINT is up if any played.\<close>

theorem dma_catches_up:
  assumes "\<And>bs r t. user (audio_push_block env bs r t) = user t" and "dma_playing s"
    and "\<forall>i. clk (user s) i = now" and "unat now + unat (g_dma_period (user s)) < 2 ^ 64"
  shows "let k = min n (blocks_owed now (g_dma_due (user s)) (g_dma_period (user s)));
      s' = (dsp_poll env ^^ n) s
    in g_dma_blocks_done (user s') = g_dma_blocks_done (user s) + of_nat k
      \<and> g_dma_due (user s') = g_dma_due (user s) + of_nat k * g_dma_period (user s)
      \<and> (0 < k \<longrightarrow> nonzero (g_csr (user s') AND CSR_AIDINT))"
  using assms(2-)
proof (induction n arbitrary: s)
  case (Suc n)
  let ?p = "dsp_poll env s"
  show ?case
  proof (cases "now < g_dma_due (user s)")
    case True
    then have p: "?p = snd (tb_now s)" using poll_not_due [OF Suc.prems(1)] Suc.prems(2) by simp
    then have "dma_playing ?p" "\<forall>i. clk (user ?p) i = now" "g_dma_due (user ?p) = g_dma_due (user s)"
      "g_dma_period (user ?p) = g_dma_period (user s)" "g_dma_blocks_done (user ?p) = g_dma_blocks_done (user s)"
      using Suc.prems by (simp_all add: tb_now_def dma_playing_def)
    then show ?thesis
      using Suc.IH [of ?p] Suc.prems(3) True by (simp add: blocks_owed_def funpow_Suc_right del: funpow.simps)
  next
    case False
    then have u: "user ?p = (user s)\<lparr>clk := (\<lambda>n. clk (user s) (Suc n)),
        g_dma_due := g_dma_due (user s) + g_dma_period (user s),
        g_dma_blocks_done := g_dma_blocks_done (user s) + 1, g_csr := g_csr (user s) OR CSR_AIDINT\<rparr>"
      using poll_due [OF Suc.prems(1) _ assms(1)] Suc.prems(2) by (simp add: linorder_not_less)
    have run: "dma_playing ?p" "\<forall>i. clk (user ?p) i = now"
      using Suc.prems by (simp_all add: u dma_playing_def)
    have per: "g_dma_period (user s) \<noteq> 0" using Suc.prems(1) by (simp add: dma_playing_def)
    have owed: "blocks_owed now (g_dma_due (user s)) (g_dma_period (user s))
        = Suc (blocks_owed now (g_dma_due (user ?p)) (g_dma_period (user ?p)))"
      using owed_step(2) [of "g_dma_due (user s)" now "g_dma_period (user s)"] False per Suc.prems(3)
      by (simp add: u linorder_not_less)
    have "nonzero (g_csr (user ?p) AND CSR_AIDINT)"
      unfolding u by (simp add: CSR_AIDINT_def)
    then have "nonzero (g_csr (user ((dsp_poll env ^^ n) ?p)) AND CSR_AIDINT)"
      by (rule polls_keep_aidint [OF assms(1)])
    moreover have "unat now + unat (g_dma_period (user ?p)) < 2 ^ 64"
      using Suc.prems(3) by (simp add: u)
    ultimately show ?thesis
      using Suc.IH [OF run] unfolding Let_def owed funpow_Suc_right o_apply
      by (simp add: u algebra_simps)
  qed
qed simp

theorem dma_catches_up_witness:
  "g_dma_blocks_done (user ((dsp_poll quiet_env ^^ 5)
      (dev (\<lambda>d. d\<lparr>g_dma_ctrl := 0x8014, g_dma_period := 202500, g_dma_due := 100, clk := (\<lambda>_. 405200)\<rparr>) dsp_zero))) = 3"
proof -
  let ?s = "dev (\<lambda>d. d\<lparr>g_dma_ctrl := 0x8014, g_dma_period := 202500, g_dma_due := 100, clk := (\<lambda>_. 405200)\<rparr>) dsp_zero"
  have "dma_playing ?s" "\<forall>i. clk (user ?s) i = 405200" "unat (405200 :: u64) + unat (g_dma_period (user ?s)) < 2 ^ 64"
    by (simp_all add: dma_playing_def)
  moreover have "user (audio_push_block quiet_env bs r t) = user t" for bs r and t :: "unit dsp_dev_ext dev_base_ext cpu"
    by (simp add: quiet_env_def)
  moreover have "blocks_owed 405200 100 202500 = 3"
    by (simp add: blocks_owed_def)
  ultimately show ?thesis
    using dma_catches_up [of quiet_env ?s 405200 5] by (simp add: Let_def dsp_zero_def)
qed

end
