(* ===== verification/Aram.thy ===== *)
theory Aram
  imports Dsp
begin

text \<open>
  runtime/aram.c: the 16 MB of auxiliary memory, its DMA engine, the DSP-side registers that
  drive it, and the census that names the disc file each uploaded range came from. The disc
  (disc.c) is a parameter: the FST image and a positioned read. \<open>g_aram\<close> is all zero until
  written, as the lazily allocated buffer is. A negative file number is the code's own mark:
  -1 unnamed, -2 ambiguous.
\<close>

record src_file =
  sf_name :: "u8 list"
  sf_size :: u32
  sf_off :: u32
  sf_stream :: bool

record src_ext =
  e_m0 :: u32
  e_m1 :: u32
  e_ar_next :: u32
  e_file :: int
  e_serial :: u32

record src_ivl =
  v_a0 :: u32
  v_a1 :: u32
  v_mm_next :: u32
  v_file :: int
  v_serial :: u32

record census =
  g_src_file :: "src_file list"
  g_src_aliases :: nat
  g_src_hash :: "nat \<Rightarrow> u64 \<times> int"
  g_src_ext :: "src_ext list"
  g_src_ivl :: "src_ivl list"
  g_src_last :: int
  g_src_serial :: u32
  g_src_ready :: int
  g_src_named :: u64
  g_src_unnamed :: u64

record aram_dev = dsp_dev +
  g_aram :: "nat \<Rightarrow> u8"
  g_ar_busy :: bool
  g_ar_due :: u64
  g_ar_size :: u16
  g_ar_mode :: u16
  g_ar_refresh :: u16
  g_mmaddr :: u32
  g_araddr :: u32
  g_cnt_hi :: u16
  g_dmas :: u64
  g_dma_bytes :: u64
  g_census :: census

record disc_env =
  disc_fst :: "u8 list option"
  disc_peek :: "u64 \<Rightarrow> nat \<Rightarrow> u8 list"

definition ARAM_SIZE :: u32 where "ARAM_SIZE = push_bit 20 16"
definition ARAM_MASK :: u32 where "ARAM_MASK = ARAM_SIZE - 1"
definition SRC_FILES :: nat where "SRC_FILES = 8192"
definition SRC_HASH :: nat where "SRC_HASH = 32768"
definition SRC_EXTENTS :: nat where "SRC_EXTENTS = 64"
definition SRC_INTERVALS :: nat where "SRC_INTERVALS = 512"

section \<open>The census: the index of file heads\<close>

definition src_hash32 :: "u8 list \<Rightarrow> u64" where
  "src_hash32 p =
     (let h = fold (\<lambda>b h. (h XOR ucast b) * 1099511628211) (take 32 p) 1469598103934665603
      in if nonzero h then h else 1)"

text \<open>Open addressing: \<open>n\<close> slots are still to be probed from slot \<open>i\<close> on.\<close>

fun src_hash_put_loop :: "nat \<Rightarrow> nat \<Rightarrow> u64 \<Rightarrow> int \<Rightarrow> (nat \<Rightarrow> u64 \<times> int) \<Rightarrow> (nat \<Rightarrow> u64 \<times> int)" where
  "src_hash_put_loop 0 i key file tab = tab"
| "src_hash_put_loop (Suc n) i key file tab =
     (if fst (tab i) = 0 then tab(i := (key, file))
      else if fst (tab i) = key then
        (if snd (tab i) \<noteq> file then tab(i := (key, -2)) else tab)
      else src_hash_put_loop n ((i + 1) mod SRC_HASH) key file tab)"

definition src_hash_put :: "u64 \<Rightarrow> int \<Rightarrow> (nat \<Rightarrow> u64 \<times> int) \<Rightarrow> (nat \<Rightarrow> u64 \<times> int)" where
  "src_hash_put key file tab = src_hash_put_loop SRC_HASH (unat key mod SRC_HASH) key file tab"

fun src_hash_get_loop :: "nat \<Rightarrow> nat \<Rightarrow> u64 \<Rightarrow> (nat \<Rightarrow> u64 \<times> int) \<Rightarrow> int" where
  "src_hash_get_loop 0 i key tab = -1"
| "src_hash_get_loop (Suc n) i key tab =
     (if fst (tab i) = 0 then -1
      else if fst (tab i) = key then snd (tab i)
      else src_hash_get_loop n ((i + 1) mod SRC_HASH) key tab)"

definition src_hash_get :: "u64 \<Rightarrow> (nat \<Rightarrow> u64 \<times> int) \<Rightarrow> int" where
  "src_hash_get key tab = src_hash_get_loop SRC_HASH (unat key mod SRC_HASH) key tab"

definition round32 :: "u32 \<Rightarrow> u32" where
  "round32 n = (n + 31) AND NOT 31"

fun src_by_span_loop :: "src_file list \<Rightarrow> int \<Rightarrow> u32 \<Rightarrow> int \<Rightarrow> int" where
  "src_by_span_loop [] i span found = found"
| "src_by_span_loop (f # fs) i span found =
     (if round32 (sf_size f) = span
      then (if found \<ge> 0 then -2 else src_by_span_loop fs (i + 1) span i)
      else src_by_span_loop fs (i + 1) span found)"

definition src_by_span :: "u32 \<Rightarrow> census \<Rightarrow> int" where
  "src_by_span span c = (if span < 4096 then -1 else src_by_span_loop (g_src_file c) 0 span (-1))"

definition src_be32 :: "u8 list \<Rightarrow> nat \<Rightarrow> u32" where
  "src_be32 bs i = get32_at bs i"

definition lower_byte :: "u8 \<Rightarrow> u8" where
  "lower_byte a = (if 0x41 \<le> a \<and> a \<le> 0x5A then a + 32 else a)"

definition src_suffix :: "u8 list \<Rightarrow> u8 list \<Rightarrow> bool" where
  "src_suffix name suf =
     (length suf \<le> length name
      \<and> list_all2 (\<lambda>a b. lower_byte a = b) (drop (length name - length suf) name) suf)"

definition dot_dsp :: "u8 list" where "dot_dsp = [0x2E, 0x64, 0x73, 0x70]"

definition alias_name :: "u8 list \<Rightarrow> u8 list \<Rightarrow> u8 list" where
  "alias_name old name = take 27 (old @ [0x20, 0x28, 0x3D, 0x20] @ name @ [0x29])"

fun find_same :: "src_file list \<Rightarrow> u32 \<Rightarrow> u32 \<Rightarrow> nat option" where
  "find_same [] off len = None"
| "find_same (f # fs) off len =
     (if sf_off f = off \<and> sf_size f = len then Some 0
      else map_option Suc (find_same fs off len))"

text \<open>One entry of the FST: skipped when it is a directory or its name is not in the table.\<close>

definition src_build_entry :: "disc_env \<Rightarrow> u8 list \<Rightarrow> nat \<Rightarrow> nat \<Rightarrow> census \<Rightarrow> census" where
  "src_build_entry de tbl strtab i c =
     (let e = i * 12;
          noff = unat (get32 0 (tbl ! (e + 1)) (tbl ! (e + 2)) (tbl ! (e + 3)));
          off = src_be32 tbl (e + 4); len = src_be32 tbl (e + 8)
      in if nonzero (tbl ! e) then c
         else if strtab + noff \<ge> length tbl then c
         else if 0 \<notin> set (drop (strtab + noff) tbl) then c
         else let name = takeWhile (\<lambda>b. b \<noteq> 0) (drop (strtab + noff) tbl);
                  is_dsp = src_suffix name dot_dsp
              in case find_same (g_src_file c) off len of
                   Some k \<Rightarrow>
                     (let old = sf_name (g_src_file c ! k)
                      in c\<lparr>g_src_file := (if 0x3D \<in> set old then g_src_file c
                             else (g_src_file c)[k := (g_src_file c ! k)\<lparr>sf_name := alias_name old name\<rparr>]),
                           g_src_aliases := g_src_aliases c + 1\<rparr>)
                 | None \<Rightarrow>
                     (let head = disc_peek de (ucast off) 32
                      in if len < 32 \<or> length head \<noteq> 32 then c
                         else let k = int (length (g_src_file c));
                                  h1 = src_hash_put (src_hash32 head) k (g_src_hash c);
                                  head2 = disc_peek de (ucast off + 96) 32;
                                  h2 = (if is_dsp \<and> len \<ge> 128 \<and> length head2 = 32
                                        then src_hash_put (src_hash32 head2) k h1 else h1)
                              in c\<lparr>g_src_file := g_src_file c @
                                     [\<lparr>sf_name = take 27 name, sf_size = len, sf_off = off, sf_stream = is_dsp\<rparr>],
                                   g_src_hash := h2\<rparr>))"

fun src_build_loop :: "disc_env \<Rightarrow> u8 list \<Rightarrow> nat \<Rightarrow> nat list \<Rightarrow> census \<Rightarrow> census" where
  "src_build_loop de tbl strtab [] c = c"
| "src_build_loop de tbl strtab (i # is) c =
     (if length (g_src_file c) \<ge> SRC_FILES then c
      else src_build_loop de tbl strtab is (src_build_entry de tbl strtab i c))"

definition src_build :: "disc_env \<Rightarrow> census \<Rightarrow> census" where
  "src_build de c0 =
     (let c = c0\<lparr>g_src_ready := -1\<rparr>
      in case disc_fst de of
           None \<Rightarrow> c
         | Some tbl \<Rightarrow>
             if length tbl \<le> 12 then c
             else let n = src_be32 tbl 8 in
               if n = 0 \<or> unat n > length tbl div 12 then c
               else let strtab = unat (n * 12) in
                 if strtab \<ge> length tbl then c
                 else let c1 = src_build_loop de tbl strtab [1..<unat n] c
                      in c1\<lparr>g_src_ready := (if g_src_file c1 \<noteq> [] then 1 else -1)\<rparr>)"

definition aram_census_prepare :: "disc_env \<Rightarrow> census \<Rightarrow> census" where
  "aram_census_prepare de c = (if g_src_ready c = 0 then src_build de c else c)"

section \<open>The census: extents and upload runs\<close>

definition src_ext_cut :: "u32 \<Rightarrow> u32 \<Rightarrow> src_ext \<Rightarrow> src_ext \<times> bool" where
  "src_ext_cut m0 m1 e =
     (if e_m1 e \<le> m0 \<or> e_m0 e \<ge> m1 then (e, False)
      else if e_m0 e \<ge> m0 \<and> e_m1 e \<le> m1 then (e\<lparr>e_m1 := e_m0 e\<rparr>, True)
      else if e_m0 e < m0 then (e\<lparr>e_m1 := m0\<rparr>, False)
      else (e\<lparr>e_m0 := m1\<rparr>, False))"

text \<open>The last index at which \<open>P\<close> holds: what a loop that keeps overwriting \<open>slot\<close> ends with.\<close>

definition last_index :: "('a \<Rightarrow> bool) \<Rightarrow> 'a list \<Rightarrow> nat option" where
  "last_index P xs = fold (\<lambda>i slot. if P (xs ! i) then Some i else slot) [0..<length xs] None"

definition oldest :: "('a \<Rightarrow> u32) \<Rightarrow> 'a list \<Rightarrow> nat" where
  "oldest ser xs = fold (\<lambda>i o'. if ser (xs ! i) < ser (xs ! o') then i else o') [1..<length xs] 0"

text \<open>The matching entry with the greatest serial number, the first of them if several.\<close>

definition src_best :: "('a \<Rightarrow> bool) \<Rightarrow> ('a \<Rightarrow> u32) \<Rightarrow> 'a list \<Rightarrow> nat option" where
  "src_best P ser xs =
     fold (\<lambda>i best. if P (xs ! i) \<and> (case best of None \<Rightarrow> True | Some b \<Rightarrow> ser (xs ! i) > ser (xs ! b))
                    then Some i else best) [0..<length xs] None"

definition src_ext_put :: "u32 \<Rightarrow> u32 \<Rightarrow> u32 \<Rightarrow> nat \<Rightarrow> census \<Rightarrow> census" where
  "src_ext_put m0 len ar file c =
     (let f = g_src_file c ! file;
          m1 = m0 + (if sf_stream f then len else sf_size f);
          cuts = map (src_ext_cut m0 m1) (g_src_ext c);
          exts = map fst cuts;
          ser = g_src_serial c + 1;
          new = \<lparr>e_m0 = m0, e_m1 = m1, e_ar_next = ar + len, e_file = int file, e_serial = ser\<rparr>
      in c\<lparr>g_src_ext :=
             (case last_index snd cuts of
                Some slot \<Rightarrow> exts[slot := new]
              | None \<Rightarrow> if length exts < SRC_EXTENTS then exts @ [new]
                        else exts[oldest e_serial exts := new]),
           g_src_serial := ser\<rparr>)"

definition src_ext_get :: "u32 \<Rightarrow> u32 \<Rightarrow> u32 \<Rightarrow> census \<Rightarrow> int \<times> census" where
  "src_ext_get mm ar len c =
     (case src_best (\<lambda>e. mm \<ge> e_m0 e \<and> mm < e_m1 e) e_serial (g_src_ext c) of
        None \<Rightarrow> (-1, c)
      | Some best \<Rightarrow>
          (let e = g_src_ext c ! best
           in if nonzero (e_ar_next e) \<and> ar \<noteq> e_ar_next e
              then (-1, c\<lparr>g_src_ext := (g_src_ext c)[best := e\<lparr>e_m1 := e_m0 e\<rparr>]\<rparr>)
              else (e_file e, c\<lparr>g_src_ext := (g_src_ext c)[best := e\<lparr>e_ar_next := ar + len\<rparr>]\<rparr>)))"

definition src_ivl_at :: "u32 \<Rightarrow> census \<Rightarrow> nat option" where
  "src_ivl_at ar c = src_best (\<lambda>v. ar \<ge> v_a0 v \<and> ar < v_a1 v) v_serial (g_src_ivl c)"

definition src_ivl_get :: "u32 \<Rightarrow> census \<Rightarrow> int" where
  "src_ivl_get ar c = (case src_ivl_at ar c of None \<Rightarrow> -1 | Some best \<Rightarrow> v_file (g_src_ivl c ! best))"

fun find_ring :: "u32 \<Rightarrow> int \<Rightarrow> src_ivl list \<Rightarrow> nat option" where
  "find_ring a0 file [] = None"
| "find_ring a0 file (v # vs) =
     (if v_a0 v = a0 \<and> v_file v = file then Some 0 else map_option Suc (find_ring a0 file vs))"

definition src_ivl_add :: "u32 \<Rightarrow> u32 \<Rightarrow> u32 \<Rightarrow> int \<Rightarrow> census \<Rightarrow> census" where
  "src_ivl_add mm a0 len file c =
     (let a1 = a0 + len; ivls = g_src_ivl c; ser = g_src_serial c + 1;
          l = nat (g_src_last c); v = ivls ! l
      in if g_src_last c \<ge> 0 \<and> v_file v = file \<and> v_a1 v = a0 \<and> v_mm_next v = mm
         then c\<lparr>g_src_ivl := ivls[l := v\<lparr>v_a1 := a1, v_mm_next := mm + len, v_serial := ser\<rparr>],
                g_src_serial := ser\<rparr>
         else case find_ring a0 file ivls of
           Some i \<Rightarrow>
             (let w = ivls ! i
              in c\<lparr>g_src_ivl := ivls[i := w\<lparr>v_a1 := (if a1 > v_a1 w then a1 else v_a1 w),
                                          v_mm_next := mm + len, v_serial := ser\<rparr>],
                   g_src_serial := ser, g_src_last := int i\<rparr>)
         | None \<Rightarrow>
             (let new = \<lparr>v_a0 = a0, v_a1 = a1, v_mm_next = mm + len, v_file = file, v_serial = ser\<rparr>
              in if length ivls < SRC_INTERVALS
                 then c\<lparr>g_src_ivl := ivls @ [new], g_src_serial := ser, g_src_last := int (length ivls)\<rparr>
                 else let i = oldest v_serial ivls
                      in c\<lparr>g_src_ivl := ivls[i := new], g_src_serial := ser, g_src_last := int i\<rparr>))"

text \<open>The code's two fixed answers when no file can be named.\<close>

datatype src_name = Named "u8 list" | SeveralThatLong | Unidentified | NothingThere

definition src_ivl_name :: "nat \<Rightarrow> census \<Rightarrow> src_name" where
  "src_ivl_name i c =
     (let v = g_src_ivl c ! i;
          f = (if v_file v < 0 then src_by_span (v_a1 v - v_a0 v) c else v_file v)
      in if f \<ge> 0 then Named (sf_name (g_src_file c ! nat f))
         else if f = -2 then SeveralThatLong else Unidentified)"

definition src_run_full :: "nat \<Rightarrow> census \<Rightarrow> bool" where
  "src_run_full i c =
     (let v = g_src_ivl c ! i; f = v_file v
      in if f < 0 \<or> sf_stream (g_src_file c ! nat f) then False
         else v_a1 v - v_a0 v \<ge> round32 (sf_size (g_src_file c ! nat f)))"

definition count_named :: "bool \<Rightarrow> census \<Rightarrow> census" where
  "count_named named c =
     (if named then c\<lparr>g_src_named := g_src_named c + 1\<rparr> else c\<lparr>g_src_unnamed := g_src_unnamed c + 1\<rparr>)"

definition src_note_dma :: "disc_env \<Rightarrow> (nat \<Rightarrow> u8) \<Rightarrow> u32 \<Rightarrow> u32 \<Rightarrow> u32 \<Rightarrow> census \<Rightarrow> census" where
  "src_note_dma de m mm ar len c0 =
     (let c = (if g_src_ready c0 = 0 then src_build de c0 else c0);
          l = nat (g_src_last c); v = g_src_ivl c ! l
      in if g_src_last c \<ge> 0 \<and> v_a1 v = ar \<and> v_mm_next v = mm \<and> \<not> src_run_full l c
         then count_named (v_file v \<ge> 0) (src_ivl_add mm ar len (v_file v) c)
         else
           let hit = (if g_src_ready c > 0 \<and> len \<ge> 32
                      then src_hash_get (src_hash32 (rd_bytes m (mem_ptr mm) 32)) (g_src_hash c) else -1);
               c1 = (if hit \<ge> 0 then src_ext_put mm len ar (nat hit) c else c);
               (f2, c2) = (if hit \<ge> 0 then (hit, c1) else src_ext_get mm ar len c1);
               f3 = (if f2 < 0 then src_ivl_get ar c2 else f2)
           in src_ivl_add mm ar len f3 (count_named (f3 \<ge> 0) c2))"

definition aram_source_name :: "u32 \<Rightarrow> census \<Rightarrow> src_name \<times> u32 \<times> u32" where
  "aram_source_name byte_addr c =
     (case src_ivl_at (byte_addr AND ARAM_MASK) c of
        None \<Rightarrow> (NothingThere, 0, 0)
      | Some best \<Rightarrow> (src_ivl_name best c, v_a0 (g_src_ivl c ! best), v_a1 (g_src_ivl c ! best)))"

section \<open>The DMA engine and the registers\<close>

definition dma :: "disc_env \<Rightarrow> u32 \<Rightarrow> 'm aram_dev_scheme cpu \<Rightarrow> 'm aram_dev_scheme cpu" where
  "dma de cnt s =
     (let d = user s; len = cnt AND 0x7FFFFFFF; to_main = bit cnt 31;
          ar = g_araddr d AND ARAM_MASK; mm = g_mmaddr d AND MEM_MASK;
          s1 = (if ar + len > ARAM_SIZE \<or> mm + len > of_nat MEM1_SIZE then s
                else if to_main then
                  s\<lparr>mem := wr_bytes (mem s) (mem_ptr (g_mmaddr d)) (rd_bytes (g_aram d) (unat ar) (unat len))\<rparr>
                else
                  dev (\<lambda>d. d\<lparr>g_aram := wr_bytes (g_aram d) (unat ar)
                                 (rd_bytes (mem s) (mem_ptr (g_mmaddr d)) (unat len)),
                             g_census := src_note_dma de (mem s) mm ar len (g_census d)\<rparr>) s)
      in case tb_now (dev (\<lambda>d. d\<lparr>g_dmas := g_dmas d + 1, g_dma_bytes := g_dma_bytes d + ucast len,
                                  g_ar_busy := True\<rparr>) s1) of
           (now, s2) \<Rightarrow>
             dev (\<lambda>d. d\<lparr>g_ar_due := now + TB_HZ div 20000 + ucast len * TB_HZ div 20000000\<rparr>) s2)"

definition aram_poll :: "'m aram_dev_scheme cpu \<Rightarrow> 'm aram_dev_scheme cpu" where
  "aram_poll s =
     (if g_ar_busy (user s) then
        (case tb_now s of (now, s1) \<Rightarrow>
           if now \<ge> g_ar_due (user s)
           then dev (\<lambda>d. d\<lparr>g_ar_busy := False, g_csr := g_csr d OR CSR_ARINT\<rparr>) s1 else s1)
      else s)"

definition aram_read ::
  "u32 \<Rightarrow> nat \<Rightarrow> 'm aram_dev_scheme cpu \<Rightarrow> u64 option \<times> 'm aram_dev_scheme cpu" where
  "aram_read ea sz s0 =
     (if ea < 0xCC005000 \<or> ea \<ge> 0xCC005040 then (None, s0)
      else let s = aram_poll s0; d = user s; off = unat (ea - 0xCC005000) in
        if off = 0x0A then
          (if sz \<noteq> 2 then None else Some (ucast (g_csr d) OR (if g_ar_busy d then 0x0200 else 0)), s)
        else if off = 0x12 then (if sz \<noteq> 2 then None else Some (ucast (g_ar_size d)), s)
        else if off = 0x16 then (if sz \<noteq> 2 then None else Some (ucast (g_ar_mode d) OR 1), s)
        else if off = 0x1A then (if sz \<noteq> 2 then None else Some (ucast (g_ar_refresh d)), s)
        else if off = 0x20 then
          (Some (ucast (if sz = 4 then g_mmaddr d else drop_bit 16 (g_mmaddr d))), s)
        else if off = 0x22 then (if sz \<noteq> 2 then None else Some (ucast (g_mmaddr d AND 0xFFFF)), s)
        else if off = 0x24 then
          (Some (ucast (if sz = 4 then g_araddr d else drop_bit 16 (g_araddr d))), s)
        else if off = 0x26 then (if sz \<noteq> 2 then None else Some (ucast (g_araddr d AND 0xFFFF)), s)
        else if off = 0x28 then
          (Some (if sz = 4 then ucast (push_bit 16 (ucast (g_cnt_hi d) :: u32)) else ucast (g_cnt_hi d)), s)
        else if off = 0x2A then (Some 0, s)
        else (None, s))"

definition aram_write ::
  "disc_env \<Rightarrow> u32 \<Rightarrow> nat \<Rightarrow> u64 \<Rightarrow> 'm aram_dev_scheme cpu \<Rightarrow> bool \<times> 'm aram_dev_scheme cpu" where
  "aram_write de ea sz v s =
     (if ea < 0xCC005000 \<or> ea \<ge> 0xCC005040 then (False, s)
      else let d = user s; off = unat (ea - 0xCC005000); v32 = (ucast v :: u32); v16 = (ucast v :: u16) in
        if off = 0x0A then
          (if sz \<noteq> 2 then (False, s)
           else
             let was = g_csr d;
                 s1 = dev (\<lambda>d. d\<lparr>g_csr := (g_csr d AND CSR_W1C AND NOT (v16 AND CSR_W1C)) OR (v16 AND CSR_STORED)\<rparr>) s;
                 s2 = (if nonzero (v16 AND CSR_RES) then dsp_reset s1 else s1)
             in if nonzero (was AND CSR_DSPINIT) \<and> \<not> nonzero (v16 AND CSR_DSPINIT)
                then (True, dsp_stub_boot (dev (\<lambda>d. d\<lparr>g_csr := g_csr d OR CSR_DSPINITCODE\<rparr>) s2))
                else (True, s2))
        else if off = 0x12 then (if sz \<noteq> 2 then (False, s) else (True, dev (\<lambda>d. d\<lparr>g_ar_size := v16\<rparr>) s))
        else if off = 0x16 then (if sz \<noteq> 2 then (False, s) else (True, dev (\<lambda>d. d\<lparr>g_ar_mode := v16\<rparr>) s))
        else if off = 0x1A then (if sz \<noteq> 2 then (False, s) else (True, dev (\<lambda>d. d\<lparr>g_ar_refresh := v16\<rparr>) s))
        else if off = 0x20 then
          (True, dev (\<lambda>d. d\<lparr>g_mmaddr := (if sz = 4 then v32 else (g_mmaddr d AND 0xFFFF) OR push_bit 16 v32)\<rparr>) s)
        else if off = 0x22 then
          (if sz \<noteq> 2 then (False, s)
           else (True, dev (\<lambda>d. d\<lparr>g_mmaddr := (g_mmaddr d AND 0xFFFF0000) OR (v32 AND 0xFFFF)\<rparr>) s))
        else if off = 0x24 then
          (True, dev (\<lambda>d. d\<lparr>g_araddr := (if sz = 4 then v32 else (g_araddr d AND 0xFFFF) OR push_bit 16 v32)\<rparr>) s)
        else if off = 0x26 then
          (if sz \<noteq> 2 then (False, s)
           else (True, dev (\<lambda>d. d\<lparr>g_araddr := (g_araddr d AND 0xFFFF0000) OR (v32 AND 0xFFFF)\<rparr>) s))
        else if off = 0x28 then
          (if sz = 4 then (True, dma de v32 s) else (True, dev (\<lambda>d. d\<lparr>g_cnt_hi := v16\<rparr>) s))
        else if off = 0x2A then
          (if sz \<noteq> 2 then (False, s)
           else (True, dma de (push_bit 16 (ucast (g_cnt_hi d)) OR (v32 AND 0xFFFF)) s))
        else (False, s))"

definition aram_memory :: "'m aram_dev_scheme cpu \<Rightarrow> nat \<Rightarrow> u8" where
  "aram_memory s = g_aram (user s)"

section \<open>A device at power-on\<close>

definition disc_none :: disc_env where
  "disc_none = \<lparr>disc_fst = None, disc_peek = (\<lambda>_ _. [])\<rparr>"

definition census_empty :: census where
  "census_empty = \<lparr>g_src_file = [], g_src_aliases = 0, g_src_hash = (\<lambda>_. (0, 0)), g_src_ext = [],
     g_src_ivl = [], g_src_last = -1, g_src_serial = 0, g_src_ready = 0, g_src_named = 0, g_src_unnamed = 0\<rparr>"

definition aram_zero :: "aram_dev cpu" where
  "aram_zero = \<lparr>gpr = (\<lambda>_. 0), fpr = (\<lambda>_. (0, 0)), cr = 0, xer = 0, lr = 0, ctr = 0, fpscr = 0,
     msr = 0, decr = 0, pc = 0, gqr = (\<lambda>_. 0), hid2 = 0, wpar = 0, spr = (\<lambda>_. 0), sr = (\<lambda>_. 0),
     mem = (\<lambda>_. 0),
     user = \<lparr>clk = (\<lambda>_. 0), g_csr = CSR_HALT OR CSR_DSPINIT, g_in_hi = 0, g_out = (\<lambda>_. 0),
       g_out_head = 0, g_out_tail = 0, g_expect = 0, g_last_ctrl = 0, g_booted = False,
       g_rom_after_stub = False, g_mails_in = 0, g_mails_out = 0, g_cmdlists = 0, g_unknown = 0,
       g_dma_start = 0, g_dma_ctrl = 0, g_dma_due = 0, g_dma_period = 0, g_dma_blocks_done = 0,
       g_ctl_starts = 0, g_ctl_running = 0, g_ctl_stops = 0, g_ctl_running_lr = 0,
       g_aram = (\<lambda>_. 0), g_ar_busy = False, g_ar_due = 0, g_ar_size = 0, g_ar_mode = 0,
       g_ar_refresh = 0, g_mmaddr = 0, g_araddr = 0, g_cnt_hi = 0, g_dmas = 0, g_dma_bytes = 0,
       g_census = census_empty\<rparr>\<rparr>"

section \<open>The index of file heads\<close>

lemma put_loop_fst: "fst (tab x) \<noteq> 0 \<Longrightarrow> fst (src_hash_put_loop n i key file tab x) = fst (tab x)"
  by (induction n arbitrary: i) auto

lemma put_loop_other:
  "fst (tab x) \<noteq> 0 \<Longrightarrow> fst (tab x) \<noteq> key \<Longrightarrow> src_hash_put_loop n i key file tab x = tab x"
  by (induction n arbitrary: i) auto

lemma get_put_loop_same:
  assumes "key \<noteq> 0" "file \<ge> 0" "\<forall>y. snd (tab y) \<noteq> -1" "j < n"
    "fst (tab ((i + j) mod SRC_HASH)) \<in> {0, key}" "i < SRC_HASH"
  shows "src_hash_get_loop n i key (src_hash_put_loop n i key file tab)
    = (if src_hash_get_loop n i key tab \<in> {-1, file} then file else -2)"
  using assms(4-)
proof (induction n arbitrary: i j)
  case (Suc n)
  show ?case
  proof (cases "fst (tab i) \<in> {0, key}")
    case True
    then show ?thesis using assms(1-3) by auto
  next
    case False
    then have keep: "src_hash_put_loop n ((i + 1) mod SRC_HASH) key file tab i = tab i"
      by (intro put_loop_other) auto
    have "j \<noteq> 0" using False Suc.prems by (auto intro: ccontr)
    then obtain k where "j = Suc k" by (cases j) auto
    then have "src_hash_get_loop n ((i + 1) mod SRC_HASH) key
        (src_hash_put_loop n ((i + 1) mod SRC_HASH) key file tab)
      = (if src_hash_get_loop n ((i + 1) mod SRC_HASH) key tab \<in> {-1, file} then file else -2)"
      using Suc.prems by (intro Suc.IH [of k]) (simp_all add: mod_simps SRC_HASH_def)
    then show ?thesis using False keep by simp
  qed
qed simp

lemma get_put_loop_other:
  assumes "key' \<noteq> key" "src_hash_get_loop n i key' tab \<noteq> -1"
  shows "src_hash_get_loop n i key' (src_hash_put_loop m k key file tab) = src_hash_get_loop n i key' tab"
  using assms(2)
proof (induction n arbitrary: i)
  case (Suc n)
  then have ne: "fst (tab i) \<noteq> 0" by (auto split: if_splits)
  then show ?case
    using Suc put_loop_fst [of tab i m k key "file"] put_loop_other [of tab i key m k "file"] assms(1)
    by (auto split: if_splits)
qed simp

text \<open>the index of file heads (open addressing, no deletion): while a slot is left, looking up
  the key just entered gives its file, or the ambiguity mark -2 when another file has the same
  head already; and no other key that was found before is found differently.\<close>

theorem src_hash_put_get:
  assumes "key \<noteq> 0" and "file \<ge> 0" and "\<forall>y. snd (tab y) \<noteq> -1" and "x < SRC_HASH"
    and "fst (tab x) \<in> {0, key}"
    and "key' \<noteq> key" and "src_hash_get key' tab \<noteq> -1"
  shows "src_hash_get key (src_hash_put key file tab)
      = (if src_hash_get key tab \<in> {-1, file} then file else -2)
    \<and> src_hash_get key' (src_hash_put key file tab) = src_hash_get key' tab"
proof -
  let ?i = "unat key mod SRC_HASH"
  have i: "?i < SRC_HASH" by (simp add: SRC_HASH_def)
  let ?j = "(x + SRC_HASH - ?i) mod SRC_HASH"
  have "?i + (x + SRC_HASH - ?i) = x + SRC_HASH" using i by simp
  then have "(?i + ?j) mod SRC_HASH = x"
    using assms(4) by (simp only: mod_add_right_eq) simp
  then show ?thesis
    using get_put_loop_same [of key "file" tab ?j SRC_HASH ?i]
      get_put_loop_other [of key' key] assms i
    by (simp add: src_hash_get_def src_hash_put_def)
qed

theorem src_hash_put_get_witness:
  "src_hash_get 9 (src_hash_put 9 4 (src_hash_put 7 3 (\<lambda>_. (0, 0)))) = 4
   \<and> src_hash_get 7 (src_hash_put 9 4 (src_hash_put 7 3 (\<lambda>_. (0, 0)))) = 3"
proof -
  let ?tab = "src_hash_put 7 3 (\<lambda>_. (0, 0))"
  have h: "src_hash_get k t = src_hash_get_loop (Suc 32767) (unat k mod SRC_HASH) k t"
    "src_hash_put k f t = src_hash_put_loop (Suc 32767) (unat k mod SRC_HASH) k f t" for k f t
    by (simp_all add: src_hash_get_def src_hash_put_def SRC_HASH_def)
  have "?tab = (\<lambda>_. (0, 0))(7 := (7, 3))"
    unfolding h src_hash_put_loop.simps by (simp add: SRC_HASH_def)
  then have "fst (?tab 8) \<in> {0, 9}" "src_hash_get 7 ?tab = 3" "src_hash_get 9 ?tab = -1" "\<forall>y. snd (?tab y) \<noteq> -1"
    unfolding h src_hash_get_loop.simps by (simp_all add: SRC_HASH_def)
  then show ?thesis
    using src_hash_put_get [of 9 4 ?tab 8 7] by (simp add: SRC_HASH_def)
qed

section \<open>The control and status register\<close>

text \<open>The bits the models ever set: the three device interrupts and the stored ones.\<close>

definition CSR_KNOWN :: u16 where
  "CSR_KNOWN = CSR_AIDINT OR CSR_ARINT OR CSR_DSPINT OR CSR_STORED"

definition csr_ok :: "'m dev_base_scheme cpu \<Rightarrow> bool" where
  "csr_ok s \<longleftrightarrow> g_csr (user s) AND NOT CSR_KNOWN = 0"

lemma push_out_quiet_csr [simp]: "g_csr (user (push_out m False s)) = g_csr (user s)"
  by (simp add: push_out_def Let_def)

lemma reset_csr [simp]: "g_csr (user (dsp_reset s)) = g_csr (user s)"
  "g_csr (user (dsp_stub_boot s)) = g_csr (user s)"
  by (simp_all add: dsp_reset_def dsp_stub_boot_def)

text \<open>The register after a write: the acknowledged interrupts go, the rest stay, the masks are
  the ones written, and booting sets the init-code bit.\<close>

lemma csr_after_write:
  "g_csr (user (snd (aram_write de 0xCC00500A 2 (ucast (v :: u16)) s)))
    = (g_csr (user s) AND CSR_W1C AND NOT v) OR (v AND CSR_STORED)
      OR (if nonzero (g_csr (user s) AND CSR_DSPINIT) \<and> \<not> nonzero (v AND CSR_DSPINIT) then CSR_DSPINITCODE else 0)"
proof -
  have u: "(ucast (ucast v :: u64) :: u16) = v"
    by (rule bit_word_eqI) (auto simp: bit_simps)
  have "(c :: u16) AND CSR_W1C AND NOT (v AND CSR_W1C) = c AND CSR_W1C AND NOT v" for c
    by (rule bit_word_eqI) (auto simp: bit_simps)
  then show ?thesis
    by (simp add: aram_write_def u Let_def or.assoc)
qed

interpretation dsp_io: mmio_device dsp_read "dsp_write env" dsp_window
  by unfold_locales (auto simp: dsp_read_def dsp_write_def dsp_window_def DSP_BASE_def linorder_not_less)

interpretation aram_io: mmio_device aram_read "aram_write de" dsp_window
  by unfold_locales (auto simp: aram_read_def aram_write_def dsp_window_def DSP_BASE_def linorder_not_less)

section \<open>The census never indexes outside its tables\<close>

text \<open>Sizes within the arrays of the source, and every index and file number in range.\<close>

definition file_ok :: "census \<Rightarrow> int \<Rightarrow> bool" where
  "file_ok c f \<longleftrightarrow> f < int (length (g_src_file c))"

definition census_ok :: "census \<Rightarrow> bool" where
  "census_ok c \<longleftrightarrow>
     length (g_src_file c) \<le> SRC_FILES \<and> length (g_src_ext c) \<le> SRC_EXTENTS
     \<and> length (g_src_ivl c) \<le> SRC_INTERVALS \<and> g_src_last c < int (length (g_src_ivl c))
     \<and> (\<forall>x. file_ok c (snd (g_src_hash c x)) \<or> fst (g_src_hash c x) = 0)
     \<and> (\<forall>e\<in>set (g_src_ext c). file_ok c (e_file e)) \<and> (\<forall>v\<in>set (g_src_ivl c). file_ok c (v_file v))"

lemma hash_put_loop_ok:
  "\<forall>x. P (snd (tab x)) \<or> fst (tab x) = 0 \<Longrightarrow> P file \<Longrightarrow> P (-2) \<Longrightarrow>
   \<forall>x. P (snd (src_hash_put_loop n i key file tab x)) \<or> fst (src_hash_put_loop n i key file tab x) = 0"
  by (induction n arbitrary: i) (auto simp: fun_upd_def)

lemma hash_get_loop_ok:
  "\<forall>x. P (snd (tab x)) \<or> fst (tab x) = 0 \<Longrightarrow> P (-1) \<Longrightarrow> P (src_hash_get_loop n i key tab)"
  by (induction n arbitrary: i) auto

lemma src_hash_get_ok: "census_ok c \<Longrightarrow> src_hash_get key (g_src_hash c) < int (length (g_src_file c))"
  unfolding census_ok_def file_ok_def src_hash_get_def
  by (rule hash_get_loop_ok [where P = "\<lambda>f. f < int (length (g_src_file c))"]) auto

lemma last_index_less: "last_index P xs = Some i \<Longrightarrow> i < length xs"
proof -
  have "fold (\<lambda>i slot. if P (xs ! i) then Some i else slot) ys a = Some i \<Longrightarrow> a = Some i \<or> i \<in> set ys" for ys a
    by (induction ys arbitrary: a) (fastforce split: if_splits)+
  from this [of "[0..<length xs]" None] show "last_index P xs = Some i \<Longrightarrow> i < length xs"
    by (simp add: last_index_def)
qed

lemma oldest_less: "xs \<noteq> [] \<Longrightarrow> oldest ser xs < length xs"
proof -
  have "fold (\<lambda>i o'. if ser (xs ! i) < ser (xs ! o') then i else o') ys a \<in> insert a (set ys)" for ys a
    by (induction ys arbitrary: a) (fastforce split: if_splits)+
  from this [of "[1..<length xs]" 0] show "xs \<noteq> [] \<Longrightarrow> oldest ser xs < length xs"
    by (auto simp: oldest_def)
qed

lemma src_best_less: "src_best P ser xs = Some i \<Longrightarrow> i < length xs"
proof -
  have "fold (\<lambda>i best. if P (xs ! i) \<and> (case best of None \<Rightarrow> True | Some b \<Rightarrow> ser (xs ! i) > ser (xs ! b))
      then Some i else best) ys a = Some i \<Longrightarrow> a = Some i \<or> i \<in> set ys" for ys a
    by (induction ys arbitrary: a) (fastforce split: if_splits)+
  from this [of "[0..<length xs]" None] show "src_best P ser xs = Some i \<Longrightarrow> i < length xs"
    by (simp add: src_best_def)
qed

lemma find_ring_less: "find_ring a f vs = Some i \<Longrightarrow> i < length vs"
  by (induction vs arbitrary: i) (auto split: if_splits)

lemma set_list_update_ok: "(\<forall>x\<in>set xs. P x) \<Longrightarrow> P y \<Longrightarrow> \<forall>x\<in>set (xs[i := y]). P x"
  by (auto dest!: set_update_subset_insert [THEN subsetD])

lemma ext_cut_file [simp]: "e_file (fst (src_ext_cut m0 m1 e)) = e_file e"
  by (simp add: src_ext_cut_def)

lemma src_ext_put_ok:
  assumes "census_ok c" "file < length (g_src_file c)"
  shows "census_ok (src_ext_put m0 len ar file c)"
proof -
  let ?f = "g_src_file c ! file"
  let ?cuts = "map (src_ext_cut m0 (m0 + (if sf_stream ?f then len else sf_size ?f))) (g_src_ext c)"
  have files: "\<forall>e\<in>set (map fst ?cuts). file_ok c (e_file e)"
    using assms(1) by (auto simp: census_ok_def)
  have len: "length (map fst ?cuts) \<le> SRC_EXTENTS" using assms(1) by (simp add: census_ok_def)
  have new: "file_ok c (int file)" using assms(2) by (simp add: file_ok_def)
  have fo: "file_ok (src_ext_put m0 len ar file c) = file_ok c"
    by (simp add: src_ext_put_def file_ok_def fun_eq_iff Let_def)
  show ?thesis
    using assms(1) files len new unfolding census_ok_def fo
    by (auto simp: src_ext_put_def Let_def split: option.splits dest!: in_set_takeD set_update_subset_insert [THEN subsetD])
qed

lemma ext_put_files: "g_src_file (src_ext_put m0 len ar file c) = g_src_file c"
  by (simp add: src_ext_put_def Let_def)

lemma src_ext_get_ok:
  assumes "census_ok c" "src_ext_get mm ar len c = (f, c')"
  shows "census_ok c' \<and> f < int (length (g_src_file c)) \<and> g_src_file c' = g_src_file c"
proof (cases "src_best (\<lambda>e. mm \<ge> e_m0 e \<and> mm < e_m1 e) e_serial (g_src_ext c)")
  case None
  then show ?thesis using assms by (simp add: src_ext_get_def)
next
  case (Some b)
  then have b: "g_src_ext c ! b \<in> set (g_src_ext c)" using src_best_less nth_mem by metis
  then have fb: "file_ok c (e_file (g_src_ext c ! b))" using assms(1) by (simp add: census_ok_def)
  then show ?thesis
    using assms Some
    by (auto simp: src_ext_get_def census_ok_def file_ok_def Let_def split: if_splits
        dest!: set_update_subset_insert [THEN subsetD])
qed

lemma src_ivl_get_ok: "census_ok c \<Longrightarrow> src_ivl_get ar c < int (length (g_src_file c))"
  by (auto simp: src_ivl_get_def src_ivl_at_def census_ok_def file_ok_def split: option.splits
      dest!: src_best_less)

lemma src_ivl_add_ok:
  assumes "census_ok c" "file_ok c f"
  shows "census_ok (src_ivl_add mm a0 len f c)"
proof -
  have fo: "file_ok (src_ivl_add mm a0 len f c) = file_ok c"
    by (simp add: src_ivl_add_def file_ok_def fun_eq_iff Let_def split: option.splits)
  have old: "oldest v_serial (g_src_ivl c) < length (g_src_ivl c)" if "\<not> length (g_src_ivl c) < SRC_INTERVALS"
    using that by (intro oldest_less) (auto simp: SRC_INTERVALS_def)
  have mem: "g_src_ivl c ! i \<in> set (g_src_ivl c)" if "find_ring a0 f (g_src_ivl c) = Some i" for i
    using that find_ring_less nth_mem by metis
  show ?thesis
    using assms old mem unfolding census_ok_def fo
    by (auto simp: src_ivl_add_def Let_def split: option.splits
        dest!: set_update_subset_insert [THEN subsetD] dest: find_ring_less)
qed

lemma count_named_ok [simp]: "census_ok (count_named b c) = census_ok c"
  "file_ok (count_named b c) = file_ok c"
  by (auto simp: count_named_def census_ok_def file_ok_def fun_eq_iff)

lemma find_same_less: "find_same fs off len = Some i \<Longrightarrow> i < length fs"
  by (induction fs arbitrary: i) (auto split: if_splits)

lemma src_hash_put_ok:
  assumes "\<forall>x. P (snd (tab x)) \<or> fst (tab x) = 0" "P file" "P (-2)"
  shows "\<forall>x. P (snd (src_hash_put key file tab x)) \<or> fst (src_hash_put key file tab x) = 0"
  unfolding src_hash_put_def using assms by (rule hash_put_loop_ok)

lemma src_build_entry_ok:
  assumes "census_ok c" "length (g_src_file c) < SRC_FILES"
  shows "census_ok (src_build_entry de tbl strtab i c)"
proof -
  let ?n = "int (length (g_src_file c))"
  let ?P = "\<lambda>f. f < ?n + 1"
  have mono: "f < ?n \<Longrightarrow> ?P f" for f by simp
  have tab: "\<forall>x. ?P (snd (g_src_hash c x)) \<or> fst (g_src_hash c x) = 0"
    using assms(1) by (auto simp: census_ok_def file_ok_def dest!: spec)
  have put1: "\<forall>x. ?P (snd (src_hash_put k ?n (g_src_hash c) x)) \<or> fst (src_hash_put k ?n (g_src_hash c) x) = 0" for k
    using tab by (rule src_hash_put_ok [where P = ?P]) simp_all
  have put2: "\<forall>x. ?P (snd (src_hash_put k2 ?n (src_hash_put k ?n (g_src_hash c)) x))
      \<or> fst (src_hash_put k2 ?n (src_hash_put k ?n (g_src_hash c)) x) = 0" for k k2
    using put1 by (rule src_hash_put_ok [where P = ?P]) simp_all
  have grow: "census_ok (c\<lparr>g_src_file := g_src_file c @ [f], g_src_hash := h\<rparr>)"
    if "\<forall>x. ?P (snd (h x)) \<or> fst (h x) = 0" for f h
  proof -
    have "\<forall>e\<in>set (g_src_ext c). ?P (e_file e)" "\<forall>v\<in>set (g_src_ivl c). ?P (v_file v)"
      using assms(1) unfolding census_ok_def file_ok_def by (meson mono)+
    then show ?thesis using assms that by (simp add: census_ok_def file_ok_def add.commute)
  qed
  have renamed: "census_ok (c\<lparr>g_src_file := (g_src_file c)[k := f], g_src_aliases := a\<rparr>)"
    "census_ok (c\<lparr>g_src_aliases := a\<rparr>)" "census_ok (c\<lparr>g_src_file := g_src_file c, g_src_aliases := a\<rparr>)"
    for k f a
    using assms(1) by (simp_all add: census_ok_def file_ok_def)
  show ?thesis
    unfolding src_build_entry_def Let_def
    by (simp add: assms(1) renamed grow [OF put1] grow [OF put2] split: option.split)
qed

lemma src_build_loop_ok: "census_ok c \<Longrightarrow> census_ok (src_build_loop de tbl strtab is c)"
  by (induction "is" arbitrary: c) (simp_all add: src_build_entry_ok)

lemma ready_ok [simp]: "census_ok (c\<lparr>g_src_ready := r\<rparr>) = census_ok c"
  by (simp add: census_ok_def file_ok_def)

lemma src_build_ok: "census_ok c \<Longrightarrow> census_ok (src_build de c)"
  by (simp add: src_build_def src_build_loop_ok Let_def split: option.split)

text \<open>the census cannot index outside its tables: whatever transfers are noted and however the
  index of the disc turns out, the four tables stay within the sizes the source declares, the
  last run and every file number stored anywhere stay in range.\<close>

theorem src_note_dma_safe:
  assumes "census_ok c"
  shows "census_ok (src_note_dma de m mm ar len c)"
proof -
  define c1 where "c1 = (if g_src_ready c = 0 then src_build de c else c)"
  have c1: "census_ok c1" using assms src_build_ok by (simp add: c1_def)
  define l where "l = nat (g_src_last c1)"
  define hit where "hit = (if g_src_ready c1 > 0 \<and> len \<ge> 32
    then src_hash_get (src_hash32 (rd_bytes m (mem_ptr mm) 32)) (g_src_hash c1) else -1)"
  have hit: "hit < int (length (g_src_file c1))"
    using src_hash_get_ok [OF c1] by (simp add: hit_def)
  define c2 where "c2 = (if hit \<ge> 0 then src_ext_put mm len ar (nat hit) c1 else c1)"
  have c2: "census_ok c2" "g_src_file c2 = g_src_file c1"
    using src_ext_put_ok [OF c1, of "nat hit"] hit c1 by (auto simp: c2_def ext_put_files)
  obtain f2 c3 where g: "(if hit \<ge> 0 then (hit, c2) else src_ext_get mm ar len c2) = (f2, c3)" by force
  have c3: "census_ok c3" "f2 < int (length (g_src_file c1))" "g_src_file c3 = g_src_file c1"
    using g c2 hit src_ext_get_ok [OF c2(1), of mm ar len f2 c3] by (auto split: if_splits)
  have last: "g_src_last c1 \<ge> 0 \<Longrightarrow> file_ok c1 (v_file (g_src_ivl c1 ! l))"
    using c1 by (auto simp: census_ok_def l_def)
  have carry: "g_src_last c1 \<ge> 0 \<Longrightarrow> census_ok (count_named b (src_ivl_add mm ar len (v_file (g_src_ivl c1 ! l)) c1))" for b
    using src_ivl_add_ok [OF c1 last] by simp
  have "file_ok c3 (if f2 < 0 then src_ivl_get ar c3 else f2)"
    using src_ivl_get_ok [OF c3(1), of ar] c3 by (simp add: file_ok_def)
  then have fresh: "census_ok (src_ivl_add mm ar len (if f2 < 0 then src_ivl_get ar c3 else f2) (count_named b c3))" for b
    using src_ivl_add_ok [of "count_named b c3"] c3(1) by simp
  show ?thesis
    unfolding src_note_dma_def Let_def c1_def [symmetric] l_def [symmetric] hit_def [symmetric] c2_def [symmetric] g
    using carry fresh by simp
qed

theorem src_note_dma_safe_witness:
  "g_src_last (src_note_dma disc_none (\<lambda>_. 0) 0x1000 0x4000 64 census_empty)
    < int (length (g_src_ivl (src_note_dma disc_none (\<lambda>_. 0) 0x1000 0x4000 64 census_empty)))"
proof -
  have "census_ok census_empty"
    by (simp add: census_ok_def census_empty_def)
  from src_note_dma_safe [OF this] show ?thesis by (simp add: census_ok_def)
qed

end
