(* ===== verification/ArLib.thy ===== *)
theory ArLib
  imports Aram
begin

text \<open>
  src/sdk/ar/ar.c: the AR library, the game-side driver of the ARAM registers. Its registers
  are a bank of 16-bit cells with a read and a write (\<open>dsp_bank\<close>), which the runtime answers
  with the device model of aram.c (\<open>aram_bank\<close>). The OS calls and the size probe are not part
  of this source and are the parameters \<open>os_ops\<close>; a function pointer is its address, 0 the
  null pointer. The library's own variables are the record \<open>ar_lib\<close> around the machine.
\<close>

record 's dsp_bank =
  reg_r :: "nat \<Rightarrow> 's \<Rightarrow> u16 \<times> 's"
  reg_w :: "nat \<Rightarrow> u16 \<Rightarrow> 's \<Rightarrow> 's"

datatype os_context = Interrupted u32 | Local_context

record 's os_ops =
  OSDisableInterrupts :: "'s \<Rightarrow> bool \<times> 's"
  OSRestoreInterrupts :: "bool \<Rightarrow> 's \<Rightarrow> 's"
  OSRegisterVersion :: "'s \<Rightarrow> 's"
  OSClearContext :: "os_context \<Rightarrow> 's \<Rightarrow> 's"
  OSSetCurrentContext :: "os_context \<Rightarrow> 's \<Rightarrow> 's"
  OSSetInterruptHandler :: "nat \<Rightarrow> u32 \<Rightarrow> 's \<Rightarrow> 's"
  OSUnmaskInterrupts :: "u32 \<Rightarrow> 's \<Rightarrow> 's"

record 's ar_lib =
  AR_Callback :: u32
  AR_Size :: u32
  AR_StackPointer :: u32
  AR_FreeBlocks :: u32
  AR_BlockLength :: u32
  AR_init_flag :: bool
  machine :: 's

definition ARAM_BASE_ADDRESS :: u32 where "ARAM_BASE_ADDRESS = 0x4000"
definition OS_INTERRUPT_DSP_ARAM :: nat where "OS_INTERRUPT_DSP_ARAM = 6"
definition OS_INTERRUPTMASK_DSP_ARAM :: u32 where "OS_INTERRUPTMASK_DSP_ARAM = 0x02000000"

definition on_machine :: "('s \<Rightarrow> 's) \<Rightarrow> 's ar_lib \<Rightarrow> 's ar_lib" where
  "on_machine f a = a\<lparr>machine := f (machine a)\<rparr>"

text \<open>A read, a change and a write back of one register, as every assignment below is.\<close>

definition reg_upd :: "'s dsp_bank \<Rightarrow> nat \<Rightarrow> (u16 \<Rightarrow> u16) \<Rightarrow> 's \<Rightarrow> 's" where
  "reg_upd rg i f s = (case reg_r rg i s of (v, s1) \<Rightarrow> reg_w rg i (f v) s1)"

definition ARRegisterDMACallback :: "'s os_ops \<Rightarrow> u32 \<Rightarrow> 's ar_lib \<Rightarrow> u32 \<times> 's ar_lib" where
  "ARRegisterDMACallback os callback a =
     (let oldCb = AR_Callback a
      in case OSDisableInterrupts os (machine a) of (enabled, s1) \<Rightarrow>
           (oldCb, a\<lparr>AR_Callback := callback, machine := OSRestoreInterrupts os enabled s1\<rparr>))"

definition ARGetDMAStatus :: "'s os_ops \<Rightarrow> 's dsp_bank \<Rightarrow> 's \<Rightarrow> u32 \<times> 's" where
  "ARGetDMAStatus os rg s =
     (case OSDisableInterrupts os s of (enabled, s1) \<Rightarrow>
      case reg_r rg 5 s1 of (v, s2) \<Rightarrow>
        (ucast (v AND 0x0200), OSRestoreInterrupts os enabled s2))"

definition ARStartDMA :: "'s os_ops \<Rightarrow> 's dsp_bank \<Rightarrow> u32 \<Rightarrow> u32 \<Rightarrow> u32 \<Rightarrow> u32 \<Rightarrow> 's \<Rightarrow> 's" where
  "ARStartDMA os rg ty mainmem_addr aram_addr len s =
     (case OSDisableInterrupts os s of (enabled, s0) \<Rightarrow>
        let s1 = reg_upd rg 16 (\<lambda>r. (r AND NOT 0x03ff) OR ucast (drop_bit 16 mainmem_addr)) s0;
            s2 = reg_upd rg 17 (\<lambda>r. (r AND NOT 0xffe0) OR ucast (mainmem_addr AND 0xffff)) s1;
            s3 = reg_upd rg 18 (\<lambda>r. (r AND NOT 0x03ff) OR ucast (drop_bit 16 aram_addr)) s2;
            s4 = reg_upd rg 19 (\<lambda>r. (r AND NOT 0xffe0) OR ucast (aram_addr AND 0xffff)) s3;
            s5 = reg_upd rg 20 (\<lambda>r. (r AND NOT 0x8000) OR ucast (push_bit 15 ty)) s4;
            s6 = reg_upd rg 20 (\<lambda>r. (r AND NOT 0x03ff) OR ucast (drop_bit 16 len)) s5;
            s7 = reg_upd rg 21 (\<lambda>r. (r AND NOT 0xffe0) OR ucast (len AND 0xffff)) s6
        in OSRestoreInterrupts os enabled s7)"

definition ARInit ::
  "'s os_ops \<Rightarrow> 's dsp_bank \<Rightarrow> ('s ar_lib \<Rightarrow> 's ar_lib) \<Rightarrow> u32 \<Rightarrow> u32 \<Rightarrow> u32 \<Rightarrow> 's ar_lib \<Rightarrow> u32 \<times> 's ar_lib" where
  "ARInit os rg ARChecksize handler stack_index_addr num_entries a0 =
     (if AR_init_flag a0 then (ARAM_BASE_ADDRESS, a0)
      else
        case OSDisableInterrupts os (OSRegisterVersion os (machine a0)) of (old, s1) \<Rightarrow>
          let s2 = OSUnmaskInterrupts os OS_INTERRUPTMASK_DSP_ARAM
                     (OSSetInterruptHandler os OS_INTERRUPT_DSP_ARAM handler s1)
          in case reg_r rg 13 s2 of (v, s3) \<Rightarrow>
             let refresh = v AND 0x00ff;
                 s4 = reg_upd rg 13 (\<lambda>r. (r AND NOT 0x00ff) OR (refresh AND 0x00ff)) s3;
                 a1 = ARChecksize (a0\<lparr>AR_Callback := 0, AR_StackPointer := ARAM_BASE_ADDRESS,
                        AR_FreeBlocks := num_entries, AR_BlockLength := stack_index_addr, machine := s4\<rparr>);
                 a2 = on_machine (OSRestoreInterrupts os old) (a1\<lparr>AR_init_flag := True\<rparr>)
             in (AR_StackPointer a2, a2))"

definition ARGetBaseAddress :: u32 where "ARGetBaseAddress = ARAM_BASE_ADDRESS"

definition ARGetSize :: "'s ar_lib \<Rightarrow> u32" where "ARGetSize a = AR_Size a"

definition ARHandler ::
  "'s os_ops \<Rightarrow> 's dsp_bank \<Rightarrow> (u32 \<Rightarrow> 's ar_lib \<Rightarrow> 's ar_lib) \<Rightarrow> u32 \<Rightarrow> 's ar_lib \<Rightarrow> 's ar_lib" where
  "ARHandler os rg call context a =
     (let s1 = reg_upd rg 5 (\<lambda>tmp. (tmp AND NOT (0x0080 OR 0x0008)) OR 0x0020) (machine a);
          s2 = OSSetCurrentContext os Local_context (OSClearContext os Local_context s1);
          a1 = a\<lparr>machine := s2\<rparr>;
          a2 = (if nonzero (AR_Callback a1) then call (AR_Callback a1) a1 else a1)
      in on_machine (\<lambda>s. OSSetCurrentContext os (Interrupted context) (OSClearContext os Local_context s)) a2)"

section \<open>The bank the runtime provides\<close>

definition aram_bank :: "disc_env \<Rightarrow> 'm aram_dev_scheme cpu dsp_bank" where
  "aram_bank de =
     \<lparr>reg_r = (\<lambda>i s. case aram_read (0xCC005000 + 2 * of_nat i) 2 s of (v, s') \<Rightarrow> (ucast (the v), s')),
      reg_w = (\<lambda>i v s. snd (aram_write de (0xCC005000 + 2 * of_nat i) 2 (ucast v) s))\<rparr>"

section \<open>What ARStartDMA does to the device\<close>

text \<open>The part of the device that a DMA is made of.\<close>

definition dma_view :: "'m aram_dev_scheme cpu \<Rightarrow> u32 \<times> u32 \<times> u16 \<times> (nat \<Rightarrow> u8) \<times> (nat \<Rightarrow> u8) \<times> u64" where
  "dma_view s = (g_mmaddr (user s), g_araddr (user s), g_cnt_hi (user s), mem s, g_aram (user s), g_dmas (user s))"

lemma dma_view_poll [simp]: "dma_view (aram_poll s) = dma_view s"
  by (simp add: aram_poll_def dma_view_def tb_now_def Let_def)

lemma mask_words:
  "(0xFFFF :: u32) = mask 16" "(0xFFFF0000 :: u32) = NOT (mask 16)" "MEM_MASK = mask 25"
  "ARAM_MASK = mask 24" "(0x03ff :: u16) = mask 10" "(0xffe0 :: u16) = NOT (mask 5)"
  "(0x8000 :: u16) = NOT (mask 15)" "(0x7C00 :: u16) = mask 15 AND NOT (mask 10)"
  "(31 :: u32) = mask 5" "(0x7FFFFFFF :: u32) = mask 31"
  by (simp_all add: mask_eq_exp_minus_1 MEM_MASK_def ARAM_MASK_def ARAM_SIZE_def)

text \<open>One read-modify-write of each of the six DMA registers, on the view.\<close>

lemma reg_upd_view:
  assumes "dma_view s = (mm, ar, cnt, m, am, n)"
  shows "dma_view (reg_upd (aram_bank de) 16 f s)
      = ((mm AND 0xFFFF) OR push_bit 16 (ucast (f (ucast (drop_bit 16 mm)))), ar, cnt, m, am, n)"
    and "dma_view (reg_upd (aram_bank de) 17 f s)
      = ((mm AND 0xFFFF0000) OR ucast (f (ucast mm)), ar, cnt, m, am, n)"
    and "dma_view (reg_upd (aram_bank de) 18 f s)
      = (mm, (ar AND 0xFFFF) OR push_bit 16 (ucast (f (ucast (drop_bit 16 ar)))), cnt, m, am, n)"
    and "dma_view (reg_upd (aram_bank de) 19 f s)
      = (mm, (ar AND 0xFFFF0000) OR ucast (f (ucast ar)), cnt, m, am, n)"
    and "dma_view (reg_upd (aram_bank de) 20 f s) = (mm, ar, f cnt, m, am, n)"
    and "reg_upd (aram_bank de) 21 f s
      = dma de (push_bit 16 (ucast cnt) OR ucast (f 0)) (aram_poll s)"
proof -
  have v: "g_mmaddr (user (aram_poll s)) = mm" "g_araddr (user (aram_poll s)) = ar"
    "g_cnt_hi (user (aram_poll s)) = cnt" "mem (aram_poll s) = m" "g_aram (user (aram_poll s)) = am"
    "g_dmas (user (aram_poll s)) = n"
    using assms dma_view_poll [of s] by (simp_all only: dma_view_def prod.inject)
  have u: "ucast (ucast (x :: u16) :: u64) = (ucast x :: u32)" "ucast (ucast x :: u64) = x" for x
    by (rule bit_word_eqI; simp add: bit_simps; auto dest: bit_imp_le_length)+
  have lo: "(ucast (x :: u16) :: u32) AND 0xFFFF = ucast x" for x
    unfolding mask_words by (rule bit_word_eqI) (auto simp: bit_simps dest: bit_imp_le_length)
  have lo16: "(ucast (ucast (w AND 0xFFFF) :: u64) :: u16) = ucast (w :: u32)" for w
    unfolding mask_words by (rule bit_word_eqI) (auto simp: bit_simps)
  have hi16: "(ucast (ucast (w :: u32) :: u64) :: u16) = ucast w" for w
    by (rule bit_word_eqI) (auto simp: bit_simps)
  note defs = reg_upd_def aram_bank_def aram_read_def aram_write_def Let_def
  show "dma_view (reg_upd (aram_bank de) 16 f s)
      = ((mm AND 0xFFFF) OR push_bit 16 (ucast (f (ucast (drop_bit 16 mm)))), ar, cnt, m, am, n)"
    by (simp add: defs dma_view_def v u hi16)
  show "dma_view (reg_upd (aram_bank de) 17 f s)
      = ((mm AND 0xFFFF0000) OR ucast (f (ucast mm)), ar, cnt, m, am, n)"
    by (simp add: defs dma_view_def v u lo lo16)
  show "dma_view (reg_upd (aram_bank de) 18 f s)
      = (mm, (ar AND 0xFFFF) OR push_bit 16 (ucast (f (ucast (drop_bit 16 ar)))), cnt, m, am, n)"
    by (simp add: defs dma_view_def v u hi16)
  show "dma_view (reg_upd (aram_bank de) 19 f s)
      = (mm, (ar AND 0xFFFF0000) OR ucast (f (ucast ar)), cnt, m, am, n)"
    by (simp add: defs dma_view_def v u lo lo16)
  show "dma_view (reg_upd (aram_bank de) 20 f s) = (mm, ar, f cnt, m, am, n)"
    by (simp add: defs dma_view_def v u)
  show "reg_upd (aram_bank de) 21 f s
      = dma de (push_bit 16 (ucast cnt) OR ucast (f 0)) (aram_poll s)"
    by (simp add: defs dma_view_def v u lo)
qed

text \<open>What two half-register updates leave of an address register that held \<open>old\<close>.\<close>

definition programmed :: "u32 \<Rightarrow> u32 \<Rightarrow> u32" where
  "programmed old a =
     (let x = (old AND 0xFFFF) OR push_bit 16 (ucast (((ucast (drop_bit 16 old) :: u16) AND NOT 0x03ff) OR ucast (drop_bit 16 a)))
      in (x AND 0xFFFF0000) OR ucast (((ucast x :: u16) AND NOT 0xffe0) OR ucast (a AND 0xffff)))"

lemma programmed_bit:
  assumes "n < 26"
  shows "bit (programmed old a) n \<longleftrightarrow> bit a n \<or> (n < 5 \<and> bit old n)"
  using assms unfolding programmed_def Let_def mask_words
  by (cases "n < 16"; cases "n < 5") (auto simp: bit_simps)

lemma programmed_masks:
  assumes "old AND 31 = 0"
  shows "programmed old a AND MEM_MASK = a AND MEM_MASK"
    and "programmed old a AND ARAM_MASK = a AND ARAM_MASK"
    and "programmed old a AND 31 = a AND 31"
proof -
  have low: "\<not> bit old n" if "n < 5" for n
  proof -
    have "bit (old AND mask 5) n = bit 0 n" using assms by (simp add: mask_words)
    then show ?thesis using that by (simp add: bit_simps)
  qed
  show "programmed old a AND MEM_MASK = a AND MEM_MASK"
    "programmed old a AND ARAM_MASK = a AND ARAM_MASK" "programmed old a AND 31 = a AND 31"
    unfolding mask_words by (rule bit_word_eqI; use low in \<open>auto simp: bit_simps programmed_bit\<close>)+
qed

text \<open>The count register assembled from its two halves: direction in bit 31, length below.\<close>

definition count_word :: "u16 \<Rightarrow> u32 \<Rightarrow> u32 \<Rightarrow> u32" where
  "count_word cnt ty len =
     push_bit 16 (ucast ((((cnt AND NOT 0x8000) OR ucast (push_bit 15 ty)) AND NOT 0x03ff) OR ucast (drop_bit 16 len)))
     OR ucast ((0 AND NOT 0xffe0) OR ucast (len AND 0xffff) :: u16)"

lemma count_word_bits:
  assumes "cnt AND 0x7C00 = 0" and ty: "ty = 0 \<or> ty = 1" and small: "unat len < 2 ^ 26"
  shows "count_word cnt ty len AND 0x7FFFFFFF = len" and "bit (count_word cnt ty len) 31 \<longleftrightarrow> ty = 1"
proof -
  have c: "\<not> bit cnt n" if "10 \<le> n" "n < 15" for n
  proof -
    have "bit (cnt AND (mask 15 AND NOT (mask 10))) n = bit 0 n" using assms(1) by (simp add: mask_words)
    then show ?thesis using that by (simp add: bit_simps)
  qed
  have len: "\<not> bit len n" if "26 \<le> n" for n
    using bit_above_unat [OF small that] .
  have one: "bit ty n \<longleftrightarrow> n = 0 \<and> ty = 1" for n
    using ty by (auto simp: bit_simps)
  show "count_word cnt ty len AND 0x7FFFFFFF = len"
    unfolding count_word_def mask_words
    by (rule bit_word_eqI)
      (use c len one in \<open>auto simp: bit_simps not_less intro: ccontr\<close>)
  show "bit (count_word cnt ty len) 31 \<longleftrightarrow> ty = 1"
    unfolding count_word_def mask_words
    using len [of 31] one [of 0] by (auto simp: bit_simps)
qed

text \<open>The OS calls only change interrupt enabling, which is outside memory and the devices.\<close>

definition os_quiet :: "'m aram_dev_scheme cpu os_ops \<Rightarrow> bool" where
  "os_quiet os \<longleftrightarrow>
     (\<forall>s. user (snd (OSDisableInterrupts os s)) = user s \<and> mem (snd (OSDisableInterrupts os s)) = mem s)
     \<and> (\<forall>b s. user (OSRestoreInterrupts os b s) = user s \<and> mem (OSRestoreInterrupts os b s) = mem s)"

lemma dma_view_same: "user s = user t \<Longrightarrow> mem s = mem t \<Longrightarrow> dma_view s = dma_view t"
  by (simp add: dma_view_def)

text \<open>The last write starts the transfer with the registers the others programmed.\<close>

lemma start_dma_view:
  assumes "os_quiet os"
  obtains t where
    "dma_view t = (programmed (g_mmaddr (user s)) mm, programmed (g_araddr (user s)) ar,
       (((g_cnt_hi (user s) AND NOT 0x8000) OR ucast (push_bit 15 ty)) AND NOT 0x03ff) OR ucast (drop_bit 16 len),
       mem s, g_aram (user s), g_dmas (user s))"
    "user (ARStartDMA os (aram_bank de) ty mm ar len s) = user (dma de (count_word (g_cnt_hi (user s)) ty len) t)"
    "mem (ARStartDMA os (aram_bank de) ty mm ar len s) = mem (dma de (count_word (g_cnt_hi (user s)) ty len) t)"
proof -
  let ?b = "aram_bank de"
  obtain en s0 where d: "OSDisableInterrupts os s = (en, s0)" by force
  have os: "user s0 = user s" "mem s0 = mem s"
    "\<And>b u. user (OSRestoreInterrupts os b u) = user u" "\<And>b u. mem (OSRestoreInterrupts os b u) = mem u"
    using assms d unfolding os_quiet_def by (metis snd_conv)+
  let ?s1 = "reg_upd ?b 16 (\<lambda>r. (r AND NOT 0x03ff) OR ucast (drop_bit 16 mm)) s0"
  let ?s2 = "reg_upd ?b 17 (\<lambda>r. (r AND NOT 0xffe0) OR ucast (mm AND 0xffff)) ?s1"
  let ?s3 = "reg_upd ?b 18 (\<lambda>r. (r AND NOT 0x03ff) OR ucast (drop_bit 16 ar)) ?s2"
  let ?s4 = "reg_upd ?b 19 (\<lambda>r. (r AND NOT 0xffe0) OR ucast (ar AND 0xffff)) ?s3"
  let ?s5 = "reg_upd ?b 20 (\<lambda>r. (r AND NOT 0x8000) OR ucast (push_bit 15 ty)) ?s4"
  let ?s6 = "reg_upd ?b 20 (\<lambda>r. (r AND NOT 0x03ff) OR ucast (drop_bit 16 len)) ?s5"
  have v0: "dma_view s0 = (g_mmaddr (user s), g_araddr (user s), g_cnt_hi (user s), mem s, g_aram (user s), g_dmas (user s))"
    using os by (simp add: dma_view_def)
  note v1 = reg_upd_view(1) [OF v0, of de "\<lambda>r. (r AND NOT 0x03ff) OR ucast (drop_bit 16 mm)"]
  note v2 = reg_upd_view(2) [OF v1, of de "\<lambda>r. (r AND NOT 0xffe0) OR ucast (mm AND 0xffff)"]
  note v3 = reg_upd_view(3) [OF v2, of de "\<lambda>r. (r AND NOT 0x03ff) OR ucast (drop_bit 16 ar)"]
  note v4 = reg_upd_view(4) [OF v3, of de "\<lambda>r. (r AND NOT 0xffe0) OR ucast (ar AND 0xffff)"]
  note v5 = reg_upd_view(5) [OF v4, of de "\<lambda>r. (r AND NOT 0x8000) OR ucast (push_bit 15 ty)"]
  note v6 = reg_upd_view(5) [OF v5, of de "\<lambda>r. (r AND NOT 0x03ff) OR ucast (drop_bit 16 len)"]
  note s7 = reg_upd_view(6) [OF v6, of de "\<lambda>r. (r AND NOT 0xffe0) OR ucast (len AND 0xffff)"]
  show thesis
  proof (rule that [of "aram_poll ?s6"])
    show "dma_view (aram_poll ?s6) = (programmed (g_mmaddr (user s)) mm, programmed (g_araddr (user s)) ar,
       (((g_cnt_hi (user s) AND NOT 0x8000) OR ucast (push_bit 15 ty)) AND NOT 0x03ff) OR ucast (drop_bit 16 len),
       mem s, g_aram (user s), g_dmas (user s))"
      unfolding dma_view_poll v6 programmed_def Let_def by (rule refl)
    show "user (ARStartDMA os ?b ty mm ar len s) = user (dma de (count_word (g_cnt_hi (user s)) ty len) (aram_poll ?s6))"
      "mem (ARStartDMA os ?b ty mm ar len s) = mem (dma de (count_word (g_cnt_hi (user s)) ty len) (aram_poll ?s6))"
      unfolding ARStartDMA_def d prod.case Let_def os s7 count_word_def by (rule refl)+
  qed
qed

text \<open>A transfer within both memories, by the view it starts from.\<close>

lemma dma_in_range:
  assumes "dma_view t = (m, a, c, mm, am, n)"
    and "unat (a AND ARAM_MASK) + unat (cnt AND 0x7FFFFFFF) \<le> 2 ^ 24"
    and "unat (m AND MEM_MASK) + unat (cnt AND 0x7FFFFFFF) \<le> MEM1_SIZE"
  shows "g_dmas (user (dma de cnt t)) = n + 1" and "g_ar_busy (user (dma de cnt t))"
    and "g_mmaddr (user (dma de cnt t)) = m" and "g_araddr (user (dma de cnt t)) = a"
    and "g_cnt_hi (user (dma de cnt t)) = c"
    and "mem (dma de cnt t) = (if bit cnt 31
      then wr_bytes mm (mem_ptr m) (rd_bytes am (unat (a AND ARAM_MASK)) (unat (cnt AND 0x7FFFFFFF))) else mm)"
    and "g_aram (user (dma de cnt t)) = (if bit cnt 31 then am
      else wr_bytes am (unat (a AND ARAM_MASK)) (rd_bytes mm (mem_ptr m) (unat (cnt AND 0x7FFFFFFF))))"
proof -
  have sum: "unat (x + y) = unat x + unat y" if "unat x + unat y \<le> 2 ^ 25" for x y :: u32
    using that by (simp add: unat_word_ariths)
  have "\<not> (a AND ARAM_MASK) + (cnt AND 0x7FFFFFFF) > ARAM_SIZE"
    using assms(2) sum [of "a AND ARAM_MASK" "cnt AND 0x7FFFFFFF"]
    by (simp add: word_less_nat_alt ARAM_SIZE_def)
  moreover have "\<not> (m AND MEM_MASK) + (cnt AND 0x7FFFFFFF) > of_nat MEM1_SIZE"
    using assms(3) sum [of "m AND MEM_MASK" "cnt AND 0x7FFFFFFF"]
    by (simp add: word_less_nat_alt MEM1_SIZE_def)
  moreover have "g_mmaddr (user t) = m" "g_araddr (user t) = a" "g_cnt_hi (user t) = c" "mem t = mm"
    "g_aram (user t) = am" "g_dmas (user t) = n"
    using assms(1) by (simp_all add: dma_view_def)
  ultimately show "g_dmas (user (dma de cnt t)) = n + 1" "g_ar_busy (user (dma de cnt t))"
    "g_mmaddr (user (dma de cnt t)) = m" "g_araddr (user (dma de cnt t)) = a"
    "g_cnt_hi (user (dma de cnt t)) = c"
    "mem (dma de cnt t) = (if bit cnt 31
      then wr_bytes mm (mem_ptr m) (rd_bytes am (unat (a AND ARAM_MASK)) (unat (cnt AND 0x7FFFFFFF))) else mm)"
    "g_aram (user (dma de cnt t)) = (if bit cnt 31 then am
      else wr_bytes am (unat (a AND ARAM_MASK)) (rd_bytes mm (mem_ptr m) (unat (cnt AND 0x7FFFFFFF))))"
    by (simp_all add: dma_def tb_now_def Let_def)
qed

text \<open>ARStartDMA on the runtime's device: its seven register writes start exactly one
  transfer, of exactly the bytes asked for in the direction asked for, whatever the address
  registers held before, and leave the registers ready for the next when its addresses are
  32-byte aligned as the SDK requires.\<close>

theorem start_dma_moves_range:
  assumes "os_quiet os" and "ty = 0 \<or> ty = 1"
    and "g_mmaddr (user s) AND 31 = 0" and "g_araddr (user s) AND 31 = 0" and "g_cnt_hi (user s) AND 0x7C00 = 0"
    and "unat (ar AND ARAM_MASK) + unat len \<le> 2 ^ 24" and "unat (mm AND MEM_MASK) + unat len \<le> MEM1_SIZE"
  shows "let s' = ARStartDMA os (aram_bank de) ty mm ar len s;
      main = mem_ptr mm; aux = unat (ar AND ARAM_MASK); n = unat len
    in g_dmas (user s') = g_dmas (user s) + 1 \<and> g_ar_busy (user s')
      \<and> mem s' = (if ty = 1 then wr_bytes (mem s) main (rd_bytes (g_aram (user s)) aux n) else mem s)
      \<and> g_aram (user s') = (if ty = 1 then g_aram (user s)
                            else wr_bytes (g_aram (user s)) aux (rd_bytes (mem s) main n))
      \<and> g_mmaddr (user s') AND 31 = mm AND 31 \<and> g_araddr (user s') AND 31 = ar AND 31"
proof -
  let ?c = "count_word (g_cnt_hi (user s)) ty len"
  have len: "unat len < 2 ^ 26" using assms(6) by simp
  note c = count_word_bits [OF assms(5,2) len]
  note pm = programmed_masks [OF assms(3), of mm] and pa = programmed_masks [OF assms(4), of ar]
  obtain t where t: "dma_view t = (programmed (g_mmaddr (user s)) mm, programmed (g_araddr (user s)) ar,
       (((g_cnt_hi (user s) AND NOT 0x8000) OR ucast (push_bit 15 ty)) AND NOT 0x03ff) OR ucast (drop_bit 16 len),
       mem s, g_aram (user s), g_dmas (user s))"
    and res: "user (ARStartDMA os (aram_bank de) ty mm ar len s) = user (dma de ?c t)"
      "mem (ARStartDMA os (aram_bank de) ty mm ar len s) = mem (dma de ?c t)"
    by (rule start_dma_view [OF assms(1)])
  have p: "mem_ptr (programmed (g_mmaddr (user s)) mm) = mem_ptr mm" by (simp add: mem_ptr_def pm)
  have "unat (programmed (g_araddr (user s)) ar AND ARAM_MASK) + unat (?c AND 0x7FFFFFFF) \<le> 2 ^ 24"
    "unat (programmed (g_mmaddr (user s)) mm AND MEM_MASK) + unat (?c AND 0x7FFFFFFF) \<le> MEM1_SIZE"
    using assms(6,7) by (simp_all add: pm pa c)
  note d = dma_in_range [OF t this, of de]
  show ?thesis
    unfolding Let_def res by (simp only: d pm pa c p)
qed

definition os_plain :: "'s os_ops" where
  "os_plain = \<lparr>OSDisableInterrupts = (\<lambda>s. (True, s)), OSRestoreInterrupts = (\<lambda>_ s. s),
     OSRegisterVersion = (\<lambda>s. s), OSClearContext = (\<lambda>_ s. s), OSSetCurrentContext = (\<lambda>_ s. s),
     OSSetInterruptHandler = (\<lambda>_ _ s. s), OSUnmaskInterrupts = (\<lambda>_ s. s)\<rparr>"

theorem start_dma_moves_range_witness:
  "g_aram (user (ARStartDMA os_plain (aram_bank disc_none) 0 0x80001000 0x4000 64 aram_zero)) 0x4001
     = mem aram_zero 0x1001"
proof -
  have "os_quiet (os_plain :: aram_dev cpu os_ops)" by (simp add: os_quiet_def os_plain_def)
  moreover have "g_mmaddr (user aram_zero) AND 31 = 0" "g_araddr (user aram_zero) AND 31 = 0"
    "g_cnt_hi (user aram_zero) AND 0x7C00 = 0"
    by (simp_all add: aram_zero_def)
  moreover have "unat (0x4000 AND ARAM_MASK) = 0x4000" "mem_ptr 0x80001000 = 0x1000"
    "unat (0x80001000 AND MEM_MASK) + unat (64 :: u32) \<le> MEM1_SIZE"
    by (simp_all add: ARAM_MASK_def ARAM_SIZE_def mem_ptr_def MEM_MASK_def MEM1_SIZE_def)
  ultimately show ?thesis
    using start_dma_moves_range [of os_plain 0 aram_zero "0x4000" 64 "0x80001000" disc_none]
    by (simp add: Let_def wr_bytes_def)
qed

section \<open>What the interrupt handler acknowledges\<close>

lemma word16_eqI:
  assumes "\<And>n. n \<in> {0, 1, 2, 3, 4, 5, 6, 7, 8, 9, 10, 11, 12, 13, 14, 15} \<Longrightarrow> bit a n = bit (b :: u16) n"
  shows "a = b"
proof (rule bit_word_eqI)
  fix n
  assume "n < LENGTH(16)"
  then have "n \<in> {0, 1, 2, 3, 4, 5, 6, 7, 8, 9, 10, 11, 12, 13, 14, 15}"
    by simp presburger
  then show "bit a n = bit b n" by (rule assms)
qed

text \<open>The value the handler writes back acknowledges ARINT, no other interrupt, and no mask.\<close>

lemma ack_value:
  fixes c b :: u16
  assumes "c AND NOT CSR_KNOWN = 0" "b = 0 \<or> b = 0x0200"
    and v: "v = ((c OR b) AND NOT (0x0080 OR 0x0008)) OR 0x0020"
  shows "(c AND CSR_W1C AND NOT v) OR (v AND CSR_STORED) = c AND NOT CSR_ARINT"
    and "v AND CSR_DSPINIT = c AND CSR_DSPINIT" and "v AND CSR_RES = 0"
proof -
  have known: "\<not> bit c n" if "\<not> bit CSR_KNOWN n" for n
  proof
    assume "bit c n"
    with that have "bit (c AND NOT CSR_KNOWN) n"
      by (auto simp: bit_and_iff bit_not_iff dest: bit_imp_le_length)
    with assms(1) show False by simp
  qed
  have ok: "\<not> bit c 0" "\<not> bit c (Suc 0)" "\<not> bit c 9" "\<not> bit c 12" "\<not> bit c 13" "\<not> bit c 14" "\<not> bit c 15"
    by (rule known; simp add: csr_defs CSR_KNOWN_def bit_Suc)+
  have vbit: "bit v n = (if n \<in> {0, 3, 7, 9, 12, 13, 14, 15} then n = 9 \<and> b \<noteq> 0 else n = 5 \<or> bit c n)"
    if "n \<in> {0, 1, 2, 3, 4, 5, 6, 7, 8, 9, 10, 11, 12, 13, 14, 15}" for n
    using that assms(2) unfolding v by (elim disjE insertE emptyE) (simp_all add: bit_simps ok)
  note vbit' = vbit vbit [of "Suc 0", simplified]
  show "(c AND CSR_W1C AND NOT v) OR (v AND CSR_STORED) = c AND NOT CSR_ARINT"
    by (rule word16_eqI) (elim insertE emptyE; simp add: csr_defs bit_and_iff bit_or_iff bit_not_iff vbit' ok)
  show "v AND CSR_DSPINIT = c AND CSR_DSPINIT"
    by (rule word16_eqI) (elim insertE emptyE; simp add: csr_defs bit_and_iff bit_or_iff bit_not_iff vbit' ok)
  show "v AND CSR_RES = 0"
    by (rule word16_eqI) (elim insertE emptyE; simp add: csr_defs bit_and_iff bit_or_iff bit_not_iff vbit' ok)
qed

lemma csr_ok_poll [simp]: "csr_ok s \<Longrightarrow> csr_ok (aram_poll s)"
  by (simp add: aram_poll_def csr_ok_def tb_now_def csr_defs CSR_KNOWN_def bit.conj_disj_distrib2)

lemma out_mails_poll [simp]: "out_mails (aram_poll s) = out_mails s"
  by (simp add: aram_poll_def tb_now_def out_mails_def Let_def)

lemma handler_register:
  assumes "csr_ok s" and s'_def: "s' = reg_upd (aram_bank de) 5 (\<lambda>tmp. (tmp AND NOT (0x0080 OR 0x0008)) OR 0x0020) s"
  shows "g_csr (user s') = g_csr (user (aram_poll s)) AND NOT CSR_ARINT" and "out_mails s' = out_mails s"
proof -
  let ?p = "aram_poll s" and ?b = "if g_ar_busy (user (aram_poll s)) then 0x0200 else 0 :: u16"
  define v where "v = ((g_csr (user ?p) OR ?b) AND NOT (0x0080 OR 0x0008)) OR 0x0020"
  have u: "(ucast (ucast (c :: u16) OR (if x then 0x0200 else 0) :: u64) :: u16) = c OR (if x then 0x0200 else 0)"
    and u': "(ucast (ucast c :: u64) :: u16) = c" for c x
    by (rule bit_word_eqI; auto simp: bit_simps)+
  have s': "s' = snd (aram_write de 0xCC00500A 2 (ucast v) ?p)"
    unfolding s'_def by (simp add: reg_upd_def aram_bank_def aram_read_def u v_def Let_def)
  have b: "?b = 0 \<or> ?b = 0x0200" by simp
  note ack = ack_value [OF csr_ok_poll [OF assms(1), unfolded csr_ok_def] b v_def]
  show "g_csr (user s') = g_csr (user ?p) AND NOT CSR_ARINT"
    unfolding s' csr_after_write using ack by (auto split: if_splits)
  show "out_mails s' = out_mails s"
    unfolding s' using ack by (simp add: aram_write_def u' Let_def)
qed

text \<open>the ARAM interrupt handler acknowledges its own interrupt only: when the registered
  callback is entered (or, without one, on return) the finished-transfer bit is down, every other
  interrupt bit and every mask of the control register is as it was, and no mail is lost.\<close>

theorem ar_handler_acks_own:
  assumes "csr_ok (machine a)"
    and "\<And>c s. user (OSClearContext os c s) = user s" and "\<And>c s. user (OSSetCurrentContext os c s) = user s"
  shows "\<exists>m. g_csr (user m) = g_csr (user (aram_poll (machine a))) AND NOT CSR_ARINT
      \<and> out_mails m = out_mails (machine a)
      \<and> user (machine (ARHandler os (aram_bank de) call ctx a))
        = user (machine (if AR_Callback a \<noteq> 0 then call (AR_Callback a) (a\<lparr>machine := m\<rparr>) else a\<lparr>machine := m\<rparr>))"
proof -
  let ?r = "reg_upd (aram_bank de) 5 (\<lambda>tmp. (tmp AND NOT (0x0080 OR 0x0008)) OR 0x0020) (machine a)"
  let ?m = "OSSetCurrentContext os Local_context (OSClearContext os Local_context ?r)"
  have "user ?m = user ?r" using assms(2,3) by simp
  then have m: "g_csr (user ?m) = g_csr (user ?r)" "out_mails ?m = out_mails ?r"
    by (rule arg_cong, rule out_mails_user)
  show ?thesis
  proof (intro exI conjI)
    show "g_csr (user ?m) = g_csr (user (aram_poll (machine a))) AND NOT CSR_ARINT" "out_mails ?m = out_mails (machine a)"
      by (simp_all only: m handler_register [OF assms(1) refl])
    show "user (machine (ARHandler os (aram_bank de) call ctx a))
        = user (machine (if AR_Callback a \<noteq> 0 then call (AR_Callback a) (a\<lparr>machine := ?m\<rparr>) else a\<lparr>machine := ?m\<rparr>))"
      by (simp add: ARHandler_def on_machine_def assms(2,3) Let_def)
  qed
qed

definition ar_idle :: "'s \<Rightarrow> 's ar_lib" where
  "ar_idle s = \<lparr>AR_Callback = 0, AR_Size = 0, AR_StackPointer = 0, AR_FreeBlocks = 0, AR_BlockLength = 0,
     AR_init_flag = True, machine = s\<rparr>"

theorem ar_handler_acks_own_witness:
  "g_csr (user (machine (ARHandler os_plain (aram_bank disc_none) (\<lambda>_ a. a) 0
      (ar_idle (dev (\<lambda>d. d\<lparr>g_csr := CSR_ARINT OR CSR_DSPINT OR CSR_ARINTMSK\<rparr>) aram_zero)))))
    = CSR_DSPINT OR CSR_ARINTMSK"
proof -
  let ?a = "ar_idle (dev (\<lambda>d. d\<lparr>g_csr := CSR_ARINT OR CSR_DSPINT OR CSR_ARINTMSK\<rparr>) aram_zero)"
  have quiet: "user (OSClearContext os_plain c s) = user s" "user (OSSetCurrentContext os_plain c s) = user s"
    for c and s :: "aram_dev cpu" by (simp_all add: os_plain_def)
  have idle: "AR_Callback ?a = 0" by (simp add: ar_idle_def)
  have ok: "csr_ok (machine ?a)" by (simp add: ar_idle_def csr_ok_def csr_defs CSR_KNOWN_def)
  obtain m where m: "g_csr (user m) = g_csr (user (aram_poll (machine ?a))) AND NOT CSR_ARINT"
    "user (machine (ARHandler os_plain (aram_bank disc_none) (\<lambda>_ a. a) 0 ?a))
      = user (machine (if AR_Callback ?a \<noteq> 0 then ?a\<lparr>machine := m\<rparr> else ?a\<lparr>machine := m\<rparr>))"
    using ar_handler_acks_own [OF ok quiet, of disc_none "\<lambda>_ a. a" 0] by blast
  have "g_csr (user (aram_poll (machine ?a))) = CSR_ARINT OR CSR_DSPINT OR CSR_ARINTMSK"
    by (simp add: ar_idle_def aram_poll_def aram_zero_def)
  then show ?thesis using m by (simp add: csr_defs)
qed

end
