(* ===== verification/Arq.thy ===== *)
theory Arq
  imports ArLib
begin

text \<open>
  src/sdk/ar/arq.c: the ARAM request queue, which feeds one transfer at a time to the AR
  library: requests of high priority whole, requests of low priority in chunks, the next one
  started from the completion interrupt. Requests live in the caller's memory and are linked
  through their \<open>next\<close> field, so the model has a heap of requests by address (0 is NULL) and
  the two queues are the heads and tails the source keeps. What the queue does to the world
  is the list of \<open>ARStartDMA\<close> calls and completion callbacks, oldest first.
\<close>

record arq_request =
  rq_next :: u32
  rq_owner :: u32
  rq_type :: u32
  rq_priority :: u32
  rq_source :: u32
  rq_dest :: u32
  rq_length :: u32
  rq_callback :: u32

datatype arq_event =
    StartDMA u32 u32 u32 u32
  | Callback u32 u32
  | SetDMACallback
  | RegisterVersion

record arq =
  heap :: "u32 \<Rightarrow> arq_request"
  QueueHi :: u32
  TailHi :: u32
  QueueLo :: u32
  TailLo :: u32
  PendingHi :: u32
  PendingLo :: u32
  CallbackHi :: u32
  CallbackLo :: u32
  ChunkSize :: u32
  InitFlag :: bool
  events :: "arq_event list"

definition ARQ_TYPE_MRAM_TO_ARAM :: u32 where "ARQ_TYPE_MRAM_TO_ARAM = 0"
definition ARQ_PRIORITY_LOW :: u32 where "ARQ_PRIORITY_LOW = 0"
definition ARQ_PRIORITY_HIGH :: u32 where "ARQ_PRIORITY_HIGH = 1"
definition ARQ_CHUNK_SIZE_DEFAULT :: u32 where "ARQ_CHUNK_SIZE_DEFAULT = 4096"

text \<open>The address of \<open>__ARQCallbackHack\<close>, the empty callback stored when none is given.\<close>

definition ARQCallbackHack :: u32 where "ARQCallbackHack = 0x80243B34"

definition emit :: "arq_event \<Rightarrow> arq \<Rightarrow> arq" where
  "emit e q = q\<lparr>events := events q @ [e]\<rparr>"

text \<open>ARStartDMA for one request: main memory first, ARAM second, by the direction.\<close>

definition start_request :: "arq_request \<Rightarrow> u32 \<Rightarrow> arq \<Rightarrow> arq" where
  "start_request r len q =
     (if rq_type r = ARQ_TYPE_MRAM_TO_ARAM
      then emit (StartDMA (rq_type r) (rq_source r) (rq_dest r) len) q
      else emit (StartDMA (rq_type r) (rq_dest r) (rq_source r) len) q)"

definition ARQPopTaskQueueHi :: "arq \<Rightarrow> arq" where
  "ARQPopTaskQueueHi q =
     (if QueueHi q \<noteq> 0 then
        let r = heap q (QueueHi q); q1 = start_request r (rq_length r) q
        in q1\<lparr>CallbackHi := rq_callback r, PendingHi := QueueHi q, QueueHi := rq_next r\<rparr>
      else q)"

definition ARQServiceQueueLo :: "arq \<Rightarrow> arq" where
  "ARQServiceQueueLo q0 =
     (let q = (if PendingLo q0 = 0 \<and> QueueLo q0 \<noteq> 0
               then q0\<lparr>PendingLo := QueueLo q0, QueueLo := rq_next (heap q0 (QueueLo q0))\<rparr> else q0)
      in if PendingLo q \<noteq> 0 then
           let p = PendingLo q; r = heap q p;
               q1 = (if rq_length r \<le> ChunkSize q
                     then (start_request r (rq_length r) q)\<lparr>CallbackLo := rq_callback r\<rparr>
                     else start_request r (ChunkSize q) q)
           in q1\<lparr>heap := (heap q1)(p := r\<lparr>rq_length := rq_length r - ChunkSize q,
                   rq_source := rq_source r + ChunkSize q, rq_dest := rq_dest r + ChunkSize q\<rparr>)\<rparr>
         else q)"

text \<open>A callback is the client's code and may post further requests: it is the parameter \<open>run_cb\<close>.\<close>

definition call_back :: "(u32 \<Rightarrow> u32 \<Rightarrow> arq \<Rightarrow> arq) \<Rightarrow> u32 \<Rightarrow> u32 \<Rightarrow> arq \<Rightarrow> arq" where
  "call_back run_cb f p q = run_cb f p (emit (Callback f p) q)"

definition ARQInterruptServiceRoutine :: "(u32 \<Rightarrow> u32 \<Rightarrow> arq \<Rightarrow> arq) \<Rightarrow> arq \<Rightarrow> arq" where
  "ARQInterruptServiceRoutine run_cb q0 =
     (let q1 = (if CallbackHi q0 \<noteq> 0
                then (call_back run_cb (CallbackHi q0) (PendingHi q0) q0)\<lparr>PendingHi := 0, CallbackHi := 0\<rparr>
                else if CallbackLo q0 \<noteq> 0
                then (call_back run_cb (CallbackLo q0) (PendingLo q0) q0)\<lparr>PendingLo := 0, CallbackLo := 0\<rparr>
                else q0);
          q2 = ARQPopTaskQueueHi q1
      in if PendingHi q2 = 0 then ARQServiceQueueLo q2 else q2)"

definition ARQInit :: "arq \<Rightarrow> arq" where
  "ARQInit q =
     (if InitFlag q then q
      else (emit SetDMACallback (emit RegisterVersion q))\<lparr>QueueHi := 0, QueueLo := 0,
             ChunkSize := ARQ_CHUNK_SIZE_DEFAULT, PendingHi := 0, PendingLo := 0, CallbackHi := 0,
             CallbackLo := 0, InitFlag := True\<rparr>)"

definition ARQPostRequest ::
  "u32 \<Rightarrow> u32 \<Rightarrow> u32 \<Rightarrow> u32 \<Rightarrow> u32 \<Rightarrow> u32 \<Rightarrow> u32 \<Rightarrow> u32 \<Rightarrow> arq \<Rightarrow> arq" where
  "ARQPostRequest task owner ty priority src dst len cb q0 =
     (let q = q0\<lparr>heap := (heap q0)(task := (heap q0 task)\<lparr>rq_next := 0, rq_owner := owner, rq_type := ty,
                rq_source := src, rq_dest := dst, rq_length := len,
                rq_callback := (if cb \<noteq> 0 then cb else ARQCallbackHack)\<rparr>)\<rparr>;
          q1 = (if priority = ARQ_PRIORITY_LOW then
                  (if QueueLo q \<noteq> 0
                   then q\<lparr>heap := (heap q)(TailLo q := (heap q (TailLo q))\<lparr>rq_next := task\<rparr>)\<rparr>
                   else q\<lparr>QueueLo := task\<rparr>)\<lparr>TailLo := task\<rparr>
                else if priority = ARQ_PRIORITY_HIGH then
                  (if QueueHi q \<noteq> 0
                   then q\<lparr>heap := (heap q)(TailHi q := (heap q (TailHi q))\<lparr>rq_next := task\<rparr>)\<rparr>
                   else q\<lparr>QueueHi := task\<rparr>)\<lparr>TailHi := task\<rparr>
                else q)
      in if PendingHi q1 = 0 \<and> PendingLo q1 = 0 then
           let q2 = ARQPopTaskQueueHi q1
           in if PendingHi q2 = 0 then ARQServiceQueueLo q2 else q2
         else q1)"

definition ARQSetChunkSize :: "u32 \<Rightarrow> arq \<Rightarrow> arq" where
  "ARQSetChunkSize n q =
     (if n mod 32 \<noteq> 0 then q\<lparr>ChunkSize := n + (32 - n mod 32)\<rparr> else q\<lparr>ChunkSize := n\<rparr>)"

definition ARQGetChunkSize :: "arq \<Rightarrow> u32" where "ARQGetChunkSize q = ChunkSize q"

section \<open>Chunks of a low-priority request\<close>

definition no_cb :: "u32 \<Rightarrow> u32 \<Rightarrow> arq \<Rightarrow> arq" where "no_cb f p q = q"

definition start_event :: "u32 \<Rightarrow> u32 \<Rightarrow> u32 \<Rightarrow> u32 \<Rightarrow> arq_event" where
  "start_event ty src dst len = (if ty = ARQ_TYPE_MRAM_TO_ARAM then StartDMA ty src dst len else StartDMA ty dst src len)"

lemma start_request_event:
  "start_request r len q = emit (start_event (rq_type r) (rq_source r) (rq_dest r) len) q"
  by (simp add: start_request_def start_event_def)

definition idle :: "arq \<Rightarrow> bool" where
  "idle q \<longleftrightarrow> QueueHi q = 0 \<and> QueueLo q = 0 \<and> PendingHi q = 0 \<and> PendingLo q = 0 \<and> CallbackHi q = 0 \<and> CallbackLo q = 0"

text \<open>The number of transfers a request of \<open>n\<close> bytes takes, and the length of the \<open>i\<close>th.\<close>

definition chunk_count :: "nat \<Rightarrow> nat \<Rightarrow> nat" where
  "chunk_count n c = (n - 1) div c + 1"

definition chunk_event :: "arq_request \<Rightarrow> u32 \<Rightarrow> nat \<Rightarrow> arq_event" where
  "chunk_event r c i =
     start_event (rq_type r) (rq_source r + of_nat i * c) (rq_dest r + of_nat i * c)
       (of_nat (min (unat c) (unat (rq_length r) - i * unat c)))"

text \<open>The request as it stands after \<open>i\<close> chunks.\<close>

definition advanced :: "arq_request \<Rightarrow> u32 \<Rightarrow> nat \<Rightarrow> arq_request" where
  "advanced r c i = r\<lparr>rq_length := rq_length r - of_nat i * c, rq_source := rq_source r + of_nat i * c,
     rq_dest := rq_dest r + of_nat i * c\<rparr>"

lemma advanced_0 [simp]: "advanced r c 0 = r"
  by (simp add: advanced_def)

lemma advanced_step:
  "(advanced r c i)\<lparr>rq_length := rq_length (advanced r c i) - c, rq_source := rq_source (advanced r c i) + c,
     rq_dest := rq_dest (advanced r c i) + c\<rparr> = advanced r c (Suc i)"
  by (simp add: advanced_def algebra_simps)

lemma chunk_count_last:
  assumes "0 < c" "i < chunk_count n c"
  shows "i * c \<le> n" and "n - i * c \<le> c \<longleftrightarrow> Suc i = chunk_count n c"
proof -
  have i: "i \<le> (n - 1) div c" using assms(2) by (simp add: chunk_count_def)
  then have "i * c \<le> n - 1" using assms(1) by (simp add: less_eq_div_iff_mult_less_eq)
  then show "i * c \<le> n" by simp
  have "n - i * c \<le> c \<longleftrightarrow> \<not> Suc i * c \<le> n - 1"
    using \<open>i * c \<le> n - 1\<close> assms(1) by (cases n) auto
  also have "\<dots> \<longleftrightarrow> \<not> Suc i \<le> (n - 1) div c"
    using assms(1) by (simp only: less_eq_div_iff_mult_less_eq)
  also have "\<dots> \<longleftrightarrow> Suc i = chunk_count n c"
    using i by (auto simp: chunk_count_def)
  finally show "n - i * c \<le> c \<longleftrightarrow> Suc i = chunk_count n c" .
qed

lemma service_chunk:
  assumes "PendingLo q = p" "p \<noteq> 0" "heap q p = advanced r (ChunkSize q) i" "ChunkSize q \<noteq> 0"
    and i: "i < chunk_count (unat (rq_length r)) (unat (ChunkSize q))"
  shows "ARQServiceQueueLo q = (emit (chunk_event r (ChunkSize q) i) q)\<lparr>
      heap := (heap q)(p := advanced r (ChunkSize q) (Suc i)),
      CallbackLo := (if Suc i = chunk_count (unat (rq_length r)) (unat (ChunkSize q)) then rq_callback r else CallbackLo q)\<rparr>"
proof -
  let ?c = "ChunkSize q" and ?n = "rq_length r"
  have c: "0 < unat ?c" using assms(4) by (simp add: unat_gt_0)
  note last = chunk_count_last [OF c i]
  have "unat (of_nat i * ?c) = i * unat ?c"
    using last(1) unat_lt32 [of ?n] by (simp add: unat_word_ariths unat_of_nat mod_mult_left_eq)
  then have len: "unat (?n - of_nat i * ?c) = unat ?n - i * unat ?c"
    using last(1) by (simp add: unat_sub word_le_nat_alt)
  then have le: "?n - of_nat i * ?c \<le> ?c \<longleftrightarrow> Suc i = chunk_count (unat ?n) (unat ?c)"
    using last(2) by (simp add: word_le_nat_alt)
  have len': "?n - of_nat i * ?c = of_nat (unat ?n - i * unat ?c)"
    unfolding len [symmetric] by simp
  have ev: "chunk_event r ?c i = start_event (rq_type r) (rq_source r + of_nat i * ?c) (rq_dest r + of_nat i * ?c)
      (if Suc i = chunk_count (unat ?n) (unat ?c) then ?n - of_nat i * ?c else ?c)"
    using last(2) len' by (auto simp: chunk_event_def min_def)
  define fin where "fin \<longleftrightarrow> Suc i = chunk_count (unat ?n) (unat ?c)"
  show ?thesis
    using assms(1-3) le unfolding ev fin_def [symmetric]
    by (cases fin; simp add: ARQServiceQueueLo_def start_request_event advanced_step Let_def)
      (simp_all add: advanced_def emit_def)
qed

lemma isr_continue:
  assumes "CallbackHi q = 0" "CallbackLo q = 0" "QueueHi q = 0" "PendingHi q = 0"
  shows "ARQInterruptServiceRoutine f q = ARQServiceQueueLo q"
  using assms by (simp add: ARQInterruptServiceRoutine_def ARQPopTaskQueueHi_def Let_def)

text \<open>The request a low-priority post leaves in the caller's record.\<close>

definition posted :: "arq_request \<Rightarrow> u32 \<Rightarrow> u32 \<Rightarrow> u32 \<Rightarrow> u32 \<Rightarrow> u32 \<Rightarrow> u32 \<Rightarrow> arq_request" where
  "posted r0 owner ty src dst len cb =
     r0\<lparr>rq_next := 0, rq_owner := owner, rq_type := ty, rq_source := src, rq_dest := dst, rq_length := len,
        rq_callback := (if cb \<noteq> 0 then cb else ARQCallbackHack)\<rparr>"

definition lo_state :: "arq \<Rightarrow> u32 \<Rightarrow> arq_request \<Rightarrow> nat \<Rightarrow> arq" where
  "lo_state q task r j =
     (let c = ChunkSize q
      in q\<lparr>heap := (heap q)(task := advanced r c (Suc j)), TailLo := task, PendingLo := task,
           QueueLo := 0, CallbackLo := (if Suc j = chunk_count (unat (rq_length r)) (unat c) then rq_callback r else 0),
           events := events q @ map (chunk_event r c) [0..<Suc j]\<rparr>)"

lemma service_take:
  assumes "PendingLo q = 0" "QueueLo q \<noteq> 0"
  shows "ARQServiceQueueLo q = ARQServiceQueueLo (q\<lparr>PendingLo := QueueLo q, QueueLo := rq_next (heap q (QueueLo q))\<rparr>)"
  using assms by (simp add: ARQServiceQueueLo_def Let_def)

lemma post_low_idle:
  assumes "idle q" "task \<noteq> 0" "ChunkSize q \<noteq> 0"
    and r: "r = posted (heap q task) owner ty src dst len cb"
  shows "ARQPostRequest task owner ty ARQ_PRIORITY_LOW src dst len cb q = lo_state q task r 0"
proof -
  let ?b = "q\<lparr>heap := (heap q)(task := r), TailLo := task, PendingLo := task, QueueLo := 0\<rparr>"
  let ?a = "q\<lparr>heap := (heap q)(task := r), QueueLo := task, TailLo := task\<rparr>"
  have "ARQPostRequest task owner ty ARQ_PRIORITY_LOW src dst len cb q = ARQServiceQueueLo ?a"
    using assms unfolding idle_def posted_def
    by (simp add: ARQPostRequest_def ARQPopTaskQueueHi_def Let_def)
  also have "\<dots> = ARQServiceQueueLo ?b"
    using service_take [of ?a] assms unfolding idle_def by (simp add: posted_def)
  also have "\<dots> = lo_state q task r 0"
    using assms(1-3) service_chunk [of ?b task r 0]
    by (simp add: lo_state_def idle_def emit_def chunk_count_def Let_def)
  finally show ?thesis .
qed

lemma isr_low_step:
  assumes "idle q" "task \<noteq> 0" "ChunkSize q \<noteq> 0"
    and "Suc j < chunk_count (unat (rq_length r)) (unat (ChunkSize q))"
  shows "ARQInterruptServiceRoutine f (lo_state q task r j) = lo_state q task r (Suc j)"
proof -
  have "ARQInterruptServiceRoutine f (lo_state q task r j) = ARQServiceQueueLo (lo_state q task r j)"
    using assms by (intro isr_continue) (simp_all add: lo_state_def idle_def Let_def)
  also have "\<dots> = lo_state q task r (Suc j)"
    using assms service_chunk [of "lo_state q task r j" task r "Suc j"]
    by (simp add: lo_state_def emit_def Let_def)
  finally show ?thesis .
qed

lemma isr_low_steps:
  assumes "idle q" "task \<noteq> 0" "ChunkSize q \<noteq> 0"
  shows "j < chunk_count (unat (rq_length r)) (unat (ChunkSize q)) \<Longrightarrow>
    (ARQInterruptServiceRoutine f ^^ j) (lo_state q task r 0) = lo_state q task r j"
  by (induction j) (simp_all add: isr_low_step [OF assms])

lemma isr_low_last:
  assumes "idle q" "task \<noteq> 0" "rq_callback r \<noteq> 0"
    and "Suc j = chunk_count (unat (rq_length r)) (unat (ChunkSize q))"
  shows "events (ARQInterruptServiceRoutine no_cb (lo_state q task r j))
      = events q @ map (chunk_event r (ChunkSize q)) [0..<Suc j] @ [Callback (rq_callback r) task]
    \<and> idle (ARQInterruptServiceRoutine no_cb (lo_state q task r j))"
  using assms
  by (simp add: ARQInterruptServiceRoutine_def lo_state_def idle_def call_back_def no_cb_def emit_def
      ARQPopTaskQueueHi_def ARQServiceQueueLo_def Let_def)

text \<open>C5: a low-priority request posted to an idle queue is carried out in full: over as many
  completion interrupts as it has chunks, the transfers started are the consecutive chunks of its
  range in order, the last one short, each in its direction; then its callback runs exactly once
  and the queue is idle.\<close>

theorem low_request_in_chunks:
  assumes "idle q" and "task \<noteq> 0" and "ChunkSize q \<noteq> 0"
  shows "let r = posted (heap q task) owner ty src dst len cb;
      n = chunk_count (unat len) (unat (ChunkSize q));
      q' = (ARQInterruptServiceRoutine no_cb ^^ n) (ARQPostRequest task owner ty ARQ_PRIORITY_LOW src dst len cb q)
    in events q' = events q
         @ map (\<lambda>i. start_event ty (src + of_nat i * ChunkSize q) (dst + of_nat i * ChunkSize q)
                 (of_nat (min (unat (ChunkSize q)) (unat len - i * unat (ChunkSize q))))) [0..<n]
         @ [Callback (rq_callback r) task]
      \<and> idle q'"
proof -
  define r where "r = posted (heap q task) owner ty src dst len cb"
  have f: "rq_length r = len" "rq_source r = src" "rq_dest r = dst" "rq_type r = ty" "rq_callback r \<noteq> 0"
    by (simp_all add: r_def posted_def ARQCallbackHack_def)
  obtain j where j: "Suc j = chunk_count (unat len) (unat (ChunkSize q))"
    by (simp add: chunk_count_def)
  have "(ARQInterruptServiceRoutine no_cb ^^ Suc j) (ARQPostRequest task owner ty ARQ_PRIORITY_LOW src dst len cb q)
      = ARQInterruptServiceRoutine no_cb (lo_state q task r j)"
    using isr_low_steps [OF assms, of j r no_cb] post_low_idle [OF assms r_def] by (simp add: f j [symmetric])
  moreover have "chunk_event r (ChunkSize q) = (\<lambda>i. start_event ty (src + of_nat i * ChunkSize q)
      (dst + of_nat i * ChunkSize q) (of_nat (min (unat (ChunkSize q)) (unat len - i * unat (ChunkSize q)))))"
    by (simp add: chunk_event_def f fun_eq_iff)
  ultimately show ?thesis
    using isr_low_last [OF assms(1,2) f(5), of j] unfolding Let_def r_def [symmetric] f(1) j [symmetric]
    by (metis (no_types))
qed

definition arq_zero :: arq where
  "arq_zero = ARQInit \<lparr>heap = (\<lambda>_. \<lparr>rq_next = 0, rq_owner = 0, rq_type = 0, rq_priority = 0, rq_source = 0,
       rq_dest = 0, rq_length = 0, rq_callback = 0\<rparr>), QueueHi = 0, TailHi = 0, QueueLo = 0, TailLo = 0,
     PendingHi = 0, PendingLo = 0, CallbackHi = 0, CallbackLo = 0, ChunkSize = 0, InitFlag = False, events = []\<rparr>"

theorem low_request_in_chunks_witness:
  "events ((ARQInterruptServiceRoutine no_cb ^^ 2)
      (ARQPostRequest 0x80400000 7 0 0 0x80500000 0x8000 5000 0x80001234 arq_zero))
    = [RegisterVersion, SetDMACallback, StartDMA 0 0x80500000 0x8000 4096, StartDMA 0 0x80501000 0x9000 904,
       Callback 0x80001234 0x80400000]"
proof -
  have z: "idle arq_zero" "ChunkSize arq_zero = 4096" "events arq_zero = [RegisterVersion, SetDMACallback]"
    by (simp_all add: arq_zero_def ARQInit_def idle_def emit_def ARQ_CHUNK_SIZE_DEFAULT_def)
  have n: "chunk_count (unat (5000 :: u32)) (unat (4096 :: u32)) = 2" "[0..<2] = [0, 1 :: nat]"
    by (simp_all add: chunk_count_def upt_rec)
  show ?thesis
    using low_request_in_chunks [of arq_zero "0x80400000" 7 0 "0x80500000" "0x8000" 5000 "0x80001234"]
    unfolding z(2,3) n Let_def ARQ_PRIORITY_LOW_def
    by (simp add: z(1) start_event_def posted_def ARQ_TYPE_MRAM_TO_ARAM_def)
qed

section \<open>The high-priority queue is a FIFO\<close>

text \<open>The requests reachable from an address through the links, in order.\<close>

fun chain :: "(u32 \<Rightarrow> arq_request) \<Rightarrow> u32 \<Rightarrow> u32 list \<Rightarrow> bool" where
  "chain h p [] \<longleftrightarrow> p = 0"
| "chain h p (x # xs) \<longleftrightarrow> p = x \<and> x \<noteq> 0 \<and> chain h (rq_next (h x)) xs"

lemma chain_cong: "(\<And>x. x \<in> set xs \<Longrightarrow> rq_next (h x) = rq_next (h' x)) \<Longrightarrow> chain h p xs = chain h' p xs"
  by (induction xs arbitrary: p) auto

lemma chain_upd_other [simp]: "t \<notin> set xs \<Longrightarrow> chain (h(t := r)) p xs = chain h p xs"
  by (rule chain_cong) auto

lemma chain_snoc:
  "chain h p xs \<Longrightarrow> xs \<noteq> [] \<Longrightarrow> distinct xs \<Longrightarrow> t \<notin> set xs \<Longrightarrow> t \<noteq> 0 \<Longrightarrow> rq_next (h t) = 0 \<Longrightarrow>
   chain (h(last xs := (h (last xs))\<lparr>rq_next := t\<rparr>)) p (xs @ [t])"
proof (induction xs arbitrary: p)
  case (Cons x xs)
  show ?case
  proof (cases "xs = []")
    case False
    then have "last xs \<noteq> x" using Cons.prems(3) last_in_set by fastforce
    then show ?thesis using Cons False by simp
  qed (use Cons.prems in auto)
qed simp

text \<open>A request as posted: its address and what was asked for; and what it leads to.\<close>

type_synonym job = "u32 \<times> arq_request"

definition job_callback :: "arq_request \<Rightarrow> u32" where
  "job_callback r = (if rq_callback r \<noteq> 0 then rq_callback r else ARQCallbackHack)"

definition job_events :: "job \<Rightarrow> arq_event list" where
  "job_events j = (case j of (t, r) \<Rightarrow>
     [start_event (rq_type r) (rq_source r) (rq_dest r) (rq_length r), Callback (job_callback r) t])"

definition holds_job :: "(u32 \<Rightarrow> arq_request) \<Rightarrow> job \<Rightarrow> bool" where
  "holds_job h j \<longleftrightarrow> (case j of (t, r) \<Rightarrow>
     rq_type (h t) = rq_type r \<and> rq_source (h t) = rq_source r \<and> rq_dest (h t) = rq_dest r
     \<and> rq_length (h t) = rq_length r \<and> rq_callback (h t) = job_callback r)"

lemma holds_job_upd: "fst j \<noteq> t \<Longrightarrow> holds_job (h(t := r)) j = holds_job h j"
  by (cases j) (simp add: holds_job_def)

definition post_hi :: "job \<Rightarrow> arq \<Rightarrow> arq" where
  "post_hi j q = (case j of (t, r) \<Rightarrow>
     ARQPostRequest t (rq_owner r) (rq_type r) ARQ_PRIORITY_HIGH (rq_source r) (rq_dest r) (rq_length r) (rq_callback r) q)"

definition lo_idle :: "arq \<Rightarrow> bool" where
  "lo_idle q \<longleftrightarrow> QueueLo q = 0 \<and> PendingLo q = 0 \<and> CallbackLo q = 0"

definition hi_jobs :: "arq \<Rightarrow> job list \<Rightarrow> bool" where
  "hi_jobs q js \<longleftrightarrow> chain (heap q) (QueueHi q) (map fst js) \<and> (js \<noteq> [] \<longrightarrow> TailHi q = fst (last js))
     \<and> distinct (map fst js) \<and> (\<forall>j\<in>set js. holds_job (heap q) j)"

lemma hi_jobs_head: "hi_jobs q [] \<Longrightarrow> QueueHi q = 0" "hi_jobs q ((t, r) # js) \<Longrightarrow> QueueHi q = t \<and> t \<noteq> 0"
  by (simp_all add: hi_jobs_def)

lemma post_hi_busy:
  assumes "hi_jobs q js" "lo_idle q" "PendingHi q \<noteq> 0" "fst j \<notin> fst ` set js" "fst j \<noteq> 0"
  shows "hi_jobs (post_hi j q) (js @ [j])" and "lo_idle (post_hi j q)"
    and "PendingHi (post_hi j q) = PendingHi q" and "CallbackHi (post_hi j q) = CallbackHi q"
    and "events (post_hi j q) = events q"
proof -
  obtain t r where j: "j = (t, r)" by (cases j)
  let ?h = "(heap q)(t := posted (heap q t) (rq_owner r) (rq_type r) (rq_source r) (rq_dest r) (rq_length r) (rq_callback r))"
  let ?q = "if QueueHi q \<noteq> 0 then q\<lparr>heap := ?h(TailHi q := (?h (TailHi q))\<lparr>rq_next := t\<rparr>), TailHi := t\<rparr>
    else q\<lparr>heap := ?h, QueueHi := t, TailHi := t\<rparr>"
  have p: "post_hi j q = ?q"
    using assms(3) by (simp add: post_hi_def j ARQPostRequest_def posted_def ARQ_PRIORITY_LOW_def ARQ_PRIORITY_HIGH_def Let_def)
  have empty: "QueueHi q = 0 \<longleftrightarrow> js = []"
    using hi_jobs_head [of q] assms(1) by (cases js) auto
  have t: "t \<notin> set (map fst js)" "t \<noteq> 0" using assms(4,5) j by auto
  have old: "chain ?h (QueueHi q) (map fst js)"
    using assms(1) unfolding hi_jobs_def chain_upd_other [OF t(1)] by blast
  have old': "\<forall>k\<in>set js. holds_job ?h k"
  proof
    fix k
    assume k: "k \<in> set js"
    then have "fst k \<noteq> t" using t(1) by auto
    then show "holds_job ?h k"
      using assms(1) k unfolding hi_jobs_def by (subst holds_job_upd) blast+
  qed
  have new: "holds_job ?h j" "rq_next (?h t) = 0"
    by (simp_all add: holds_job_def j posted_def job_callback_def)
  have tail: "js \<noteq> [] \<Longrightarrow> TailHi q = last (map fst js)"
    using assms(1) by (simp add: hi_jobs_def last_map)
  show "hi_jobs (post_hi j q) (js @ [j])"
  proof (cases "js = []")
    case True
    then show ?thesis using p empty t new by (simp add: hi_jobs_def j)
  next
    case False
    let ?h' = "?h(TailHi q := (?h (TailHi q))\<lparr>rq_next := t\<rparr>)"
    have "chain ?h' (QueueHi q) (map fst js @ [t])"
      using chain_snoc [OF old _ _ t new(2)] False assms(1) unfolding tail [OF False] hi_jobs_def by blast
    moreover have "holds_job ?h' k = holds_job ?h k" for k
      by (simp add: holds_job_def split: prod.split)
    ultimately show ?thesis
      using p empty False old' new(1) assms(1) t by (simp add: hi_jobs_def j)
  qed
  show "lo_idle (post_hi j q)" "PendingHi (post_hi j q) = PendingHi q" "CallbackHi (post_hi j q) = CallbackHi q"
    "events (post_hi j q) = events q"
    using assms(2) by (simp_all add: p lo_idle_def)
qed

lemma posts_hi_busy:
  assumes "hi_jobs q js" "lo_idle q" "PendingHi q \<noteq> 0" "distinct (map fst (js @ ks))" "0 \<notin> fst ` set ks"
    and q'_def: "q' = fold post_hi ks q"
  shows "hi_jobs q' (js @ ks) \<and> lo_idle q' \<and> PendingHi q' = PendingHi q \<and> CallbackHi q' = CallbackHi q \<and> events q' = events q"
  unfolding q'_def using assms(1-5)
proof (induction ks arbitrary: q js)
  case (Cons k ks)
  have k: "fst k \<notin> fst ` set js" "fst k \<noteq> 0" using Cons.prems(4,5) by auto
  note p = post_hi_busy [OF Cons.prems(1-3) k]
  have "hi_jobs (fold post_hi ks (post_hi k q)) ((js @ [k]) @ ks)
      \<and> lo_idle (fold post_hi ks (post_hi k q))
      \<and> PendingHi (fold post_hi ks (post_hi k q)) = PendingHi (post_hi k q)
      \<and> CallbackHi (fold post_hi ks (post_hi k q)) = CallbackHi (post_hi k q)
      \<and> events (fold post_hi ks (post_hi k q)) = events (post_hi k q)"
    using p Cons.prems(3-5) by (intro Cons.IH) auto
  then show ?case using p by simp
qed simp

lemma drain_hi:
  assumes "hi_jobs q js" "lo_idle q" "PendingHi q = t" "CallbackHi q = cb" "cb \<noteq> 0"
  shows "events ((ARQInterruptServiceRoutine no_cb ^^ Suc (length js)) q)
      = events q @ [Callback cb t] @ concat (map job_events js)
    \<and> idle ((ARQInterruptServiceRoutine no_cb ^^ Suc (length js)) q)"
  using assms
proof (induction js arbitrary: q t cb)
  case Nil
  then show ?case
    using hi_jobs_head(1) [OF Nil(1)]
    by (simp add: ARQInterruptServiceRoutine_def call_back_def no_cb_def emit_def ARQPopTaskQueueHi_def
        ARQServiceQueueLo_def lo_idle_def idle_def Let_def)
next
  case (Cons j js)
  obtain u r where j: "j = (u, r)" by (cases j)
  have u: "QueueHi q = u" "u \<noteq> 0" using hi_jobs_head(2) Cons.prems(1) j by auto
  have hj: "holds_job (heap q) (u, r)" using Cons.prems(1) j by (simp add: hi_jobs_def)
  let ?q = "ARQInterruptServiceRoutine no_cb q"
  have q: "?q = q\<lparr>CallbackHi := job_callback r, PendingHi := u, QueueHi := rq_next (heap q u),
      events := events q @ [Callback cb t, start_event (rq_type r) (rq_source r) (rq_dest r) (rq_length r)]\<rparr>"
    using Cons.prems(3-5) u hj
    by (simp add: ARQInterruptServiceRoutine_def call_back_def no_cb_def emit_def ARQPopTaskQueueHi_def
        start_request_event holds_job_def Let_def)
  have "hi_jobs ?q js" "lo_idle ?q" "PendingHi ?q = u" "CallbackHi ?q = job_callback r" "job_callback r \<noteq> 0"
    using Cons.prems(1,2) u j by (auto simp: q hi_jobs_def lo_idle_def job_callback_def ARQCallbackHack_def)
  from Cons.IH [OF this] show ?case
    unfolding list.size add_Suc_right add_0_right funpow_Suc_right [of "Suc (length js)"] o_apply
    by (simp add: q job_events_def j del: funpow.simps)
qed

text \<open>requests of high priority are served first come, first served, one at a time: any number
  of them posted to an idle queue, at distinct addresses, are each started whole and completed by
  their own callback in the order they were posted, and each transfer is started only when the
  one before it has been called back.\<close>

theorem high_requests_fifo:
  assumes "idle q" and "distinct (map fst js)" and "0 \<notin> fst ` set js"
  shows "let q' = (ARQInterruptServiceRoutine no_cb ^^ length js) (fold post_hi js q)
    in events q' = events q @ concat (map job_events js) \<and> idle q'"
proof (cases js)
  case Nil
  then show ?thesis using assms(1) by simp
next
  case (Cons j ks)
  obtain t r where j: "j = (t, r)" by (cases j)
  let ?q = "post_hi j q"
  have t: "t \<noteq> 0" using assms(3) Cons j by auto
  have st: "hi_jobs ?q []" "lo_idle ?q" "PendingHi ?q = t" "CallbackHi ?q = job_callback r"
    "events ?q = events q @ [start_event (rq_type r) (rq_source r) (rq_dest r) (rq_length r)]"
    using assms(1) t
    by (simp_all add: idle_def post_hi_def j ARQPostRequest_def ARQ_PRIORITY_LOW_def ARQ_PRIORITY_HIGH_def
        ARQPopTaskQueueHi_def start_request_event emit_def hi_jobs_def lo_idle_def job_callback_def Let_def)
  have busy: "hi_jobs (fold post_hi ks ?q) ks" "lo_idle (fold post_hi ks ?q)" "PendingHi (fold post_hi ks ?q) = t"
    "CallbackHi (fold post_hi ks ?q) = job_callback r" "events (fold post_hi ks ?q) = events ?q"
    using posts_hi_busy [OF st(1,2), of ks, OF _ _ _ refl] st t assms(2,3) Cons by auto
  show ?thesis
    using drain_hi [OF busy(1-4)] busy(5) st(5) Cons j
    by (simp add: Let_def job_events_def job_callback_def ARQCallbackHack_def del: funpow.simps split: if_splits)
qed

theorem high_requests_fifo_witness:
  "let r = posted (heap arq_zero 0) 7 1 0x9000 0x80500000 64 0x80001234;
      js = [(0x80400000, r), (0x80400020, r)]
    in events ((ARQInterruptServiceRoutine no_cb ^^ length js) (fold post_hi js arq_zero))
      = [RegisterVersion, SetDMACallback] @ concat (map job_events js)"
proof -
  let ?r = "posted (heap arq_zero 0) 7 1 0x9000 0x80500000 64 0x80001234"
  have z: "idle arq_zero" "events arq_zero = [RegisterVersion, SetDMACallback]"
    by (simp_all add: arq_zero_def ARQInit_def idle_def emit_def)
  have "distinct (map fst [(0x80400000 :: u32, ?r), (0x80400020, ?r)])"
    "0 \<notin> fst ` set [(0x80400000 :: u32, ?r), (0x80400020, ?r)]"
    by simp_all
  from high_requests_fifo [OF z(1) this] show ?thesis
    unfolding Let_def z(2) by (rule conjunct1)
qed

end
