(* ===== verification/Msl.thy ===== *)
theory Msl
  imports Prelude "HOL-Library.Sublist"
begin

text \<open>
  src/sdk/msl: the C library's string and memory routines as the game links them. Memory is
  a function from 32-bit addresses to bytes, pointers are addresses and wrap, and a word
  access is big-endian, as on the target. A loop that only ends at a zero byte is a partial
  function whose value is None when it does not end; a loop that counts down from \<open>n\<close> is
  recursion on \<open>n\<close> (\<open>n++; while (--n)\<close> runs the body exactly \<open>n\<close> times for every \<open>n\<close>, also at
  the greatest one, where \<open>n++\<close> wraps to zero). Pointers biased by one, as the sources have
  them, are kept.
\<close>

type_synonym cmem = "u32 \<Rightarrow> u8"

definition rd32 :: "cmem \<Rightarrow> u32 \<Rightarrow> u32" where
  "rd32 m a = get32 (m a) (m (a + 1)) (m (a + 2)) (m (a + 3))"

text \<open>Bytes laid down one after the other; a word store is its four bytes.\<close>

fun wrl :: "cmem \<Rightarrow> u32 \<Rightarrow> u8 list \<Rightarrow> cmem" where
  "wrl m a [] = m"
| "wrl m a (b # bs) = wrl (m(a := b)) (a + 1) bs"

definition wr32 :: "cmem \<Rightarrow> u32 \<Rightarrow> u32 \<Rightarrow> cmem" where
  "wr32 m a w = wrl m a (put32 w)"

section \<open>string.c\<close>

partial_function (option) strlen_loop :: "cmem \<Rightarrow> u32 \<Rightarrow> u32 \<Rightarrow> u32 option" where
  "strlen_loop m p len =
     (if m (p + 1) \<noteq> 0 then strlen_loop m (p + 1) (len + 1) else Some (len + 1))"

definition strlen :: "cmem \<Rightarrow> u32 \<Rightarrow> u32 option" where
  "strlen m str = strlen_loop m (str - 1) (-1)"

partial_function (option) strchr_loop :: "cmem \<Rightarrow> u8 \<Rightarrow> u32 \<Rightarrow> u32 option" where
  "strchr_loop m c p =
     (let p' = p + 1; ch = m p'
      in if ch \<noteq> 0 then (if ch = c then Some p' else strchr_loop m c p')
         else Some (if c \<noteq> 0 then 0 else p'))"

definition strchr :: "cmem \<Rightarrow> u32 \<Rightarrow> u32 \<Rightarrow> u32 option" where
  "strchr m str chr = strchr_loop m (ucast chr) (str - 1)"

fun memchr_loop :: "nat \<Rightarrow> cmem \<Rightarrow> u8 \<Rightarrow> u32 \<Rightarrow> u32" where
  "memchr_loop 0 m v p = 0"
| "memchr_loop (Suc n) m v p = (if m (p + 1) = v then p + 1 else memchr_loop n m v (p + 1))"

definition memchr :: "cmem \<Rightarrow> u32 \<Rightarrow> u32 \<Rightarrow> u32 \<Rightarrow> u32" where
  "memchr m src val n = memchr_loop (unat n) m (ucast val) (src - 1)"

text \<open>The difference of two bytes as the int that the comparisons return.\<close>

definition byte_diff :: "u8 \<Rightarrow> u8 \<Rightarrow> int" where
  "byte_diff a b = sint (ucast a - ucast b :: u32)"

fun strncmp_loop :: "nat \<Rightarrow> cmem \<Rightarrow> u32 \<Rightarrow> u32 \<Rightarrow> int" where
  "strncmp_loop 0 m p1 p2 = 0"
| "strncmp_loop (Suc n) m p1 p2 =
     (let c1 = m (p1 + 1); c2 = m (p2 + 1)
      in if c1 \<noteq> c2 then byte_diff c1 c2
         else if c1 = 0 then 0 else strncmp_loop n m (p1 + 1) (p2 + 1))"

definition strncmp :: "cmem \<Rightarrow> u32 \<Rightarrow> u32 \<Rightarrow> u32 \<Rightarrow> int" where
  "strncmp m str1 str2 n = strncmp_loop (unat n) m (str1 - 1) (str2 - 1)"

text \<open>\<open>while ((*++q = *++p) != 0);\<close>\<close>

partial_function (option) copy_loop :: "cmem \<Rightarrow> u32 \<Rightarrow> u32 \<Rightarrow> cmem option" where
  "copy_loop m q p =
     (let c = m (p + 1); m' = m(q + 1 := c)
      in if c \<noteq> 0 then copy_loop m' (q + 1) (p + 1) else Some m')"

partial_function (option) strend_loop :: "cmem \<Rightarrow> u32 \<Rightarrow> u32 option" where
  "strend_loop m q = (if m (q + 1) \<noteq> 0 then strend_loop m (q + 1) else Some (q + 1))"

definition strcat :: "cmem \<Rightarrow> u32 \<Rightarrow> u32 \<Rightarrow> (u32 \<times> cmem) option" where
  "strcat m dst src =
     (case strend_loop m (dst - 1) of
        None \<Rightarrow> None
      | Some q \<Rightarrow> map_option (Pair dst) (copy_loop m (q - 1) (src - 1)))"

fun memrchr_loop :: "nat \<Rightarrow> cmem \<Rightarrow> u8 \<Rightarrow> u32 \<Rightarrow> u32" where
  "memrchr_loop 0 m v p = 0"
| "memrchr_loop (Suc n) m v p = (if m (p - 1) = v then p - 1 else memrchr_loop n m v (p - 1))"

definition memrchr :: "cmem \<Rightarrow> u32 \<Rightarrow> u32 \<Rightarrow> u32 \<Rightarrow> u32" where
  "memrchr m src val n = memrchr_loop (unat n) m (ucast val) (src + n)"

fun zero_loop :: "nat \<Rightarrow> cmem \<Rightarrow> u32 \<Rightarrow> cmem" where
  "zero_loop 0 m q = m"
| "zero_loop (Suc n) m q = zero_loop n (m(q + 1 := 0)) (q + 1)"

fun strncpy_loop :: "nat \<Rightarrow> cmem \<Rightarrow> u32 \<Rightarrow> u32 \<Rightarrow> cmem" where
  "strncpy_loop 0 m q p = m"
| "strncpy_loop (Suc n) m q p =
     (let c = m (p + 1); m' = m(q + 1 := c)
      in if c = 0 then zero_loop n m' (q + 1) else strncpy_loop n m' (q + 1) (p + 1))"

definition strncpy :: "cmem \<Rightarrow> u32 \<Rightarrow> u32 \<Rightarrow> u32 \<Rightarrow> u32 \<times> cmem" where
  "strncpy m dst src n = (dst, strncpy_loop (unat n) m (dst - 1) (src - 1))"

section \<open>mem.c and fillmem.c\<close>

fun copy_fwd :: "nat \<Rightarrow> cmem \<Rightarrow> u32 \<Rightarrow> u32 \<Rightarrow> cmem" where
  "copy_fwd 0 m q p = m"
| "copy_fwd (Suc n) m q p = copy_fwd n (m(q + 1 := m (p + 1))) (q + 1) (p + 1)"

fun copy_bwd :: "nat \<Rightarrow> cmem \<Rightarrow> u32 \<Rightarrow> u32 \<Rightarrow> cmem" where
  "copy_bwd 0 m q p = m"
| "copy_bwd (Suc n) m q p = copy_bwd n (m(q - 1 := m (p - 1))) (q - 1) (p - 1)"

definition memcpy :: "cmem \<Rightarrow> u32 \<Rightarrow> u32 \<Rightarrow> u32 \<Rightarrow> u32 \<times> cmem" where
  "memcpy m dst src n =
     (if src \<ge> dst then (dst, copy_fwd (unat n) m (dst - 1) (src - 1))
      else (dst, copy_bwd (unat n) m (dst + n) (src + n)))"

text \<open>\<open>do *++b = v; while (--i);\<close> and the same on words.\<close>

fun fill_bytes :: "nat \<Rightarrow> cmem \<Rightarrow> u32 \<Rightarrow> u8 \<Rightarrow> cmem \<times> u32" where
  "fill_bytes 0 m b v = (m, b)"
| "fill_bytes (Suc i) m b v = fill_bytes i (m(b + 1 := v)) (b + 1) v"

fun fill_words :: "nat \<Rightarrow> cmem \<Rightarrow> u32 \<Rightarrow> u32 \<Rightarrow> cmem \<times> u32" where
  "fill_words 0 m w v = (m, w)"
| "fill_words (Suc i) m w v = fill_words i (wr32 m (w + 4) v) (w + 4) v"

fun fill_blocks :: "nat \<Rightarrow> cmem \<Rightarrow> u32 \<Rightarrow> u32 \<Rightarrow> cmem \<times> u32" where
  "fill_blocks 0 m w v = (m, w)"
| "fill_blocks (Suc i) m w v = (case fill_words 8 m w v of (m', w') \<Rightarrow> fill_blocks i m' w' v)"

definition fill_mem :: "cmem \<Rightarrow> u32 \<Rightarrow> u32 \<Rightarrow> u32 \<Rightarrow> cmem" where
  "fill_mem m dst val n0 =
     (let b0 = dst - 1; v8 = (ucast val :: u8); v0 = (ucast v8 :: u32)
      in if n0 \<ge> 32 then
           let i1 = unat (NOT b0 AND 3);
               n1 = n0 - of_nat i1;
               (m1, b1) = fill_bytes i1 m b0 v8;
               v = (if nonzero v0 then v0 OR push_bit 24 v0 OR push_bit 16 v0 OR push_bit 8 v0 else v0);
               (m2, w2) = fill_blocks (unat (drop_bit 5 n1)) m1 (b1 - 3) v;
               (m3, w3) = fill_words (unat (drop_bit 2 (n1 AND 31))) m2 w2 v;
               (m4, b4) = fill_bytes (unat (n1 AND 3)) m3 (w3 + 3) v8
           in m4
         else fst (fill_bytes (unat n0) m b0 v8))"

definition memset :: "cmem \<Rightarrow> u32 \<Rightarrow> u32 \<Rightarrow> u32 \<Rightarrow> u32 \<times> cmem" where
  "memset m dst val n = (dst, fill_mem m dst val n)"

section \<open>strcpy.c and strcmp.c\<close>

text \<open>The word test: no bit 7 is set by subtracting one from every byte.\<close>

definition strcpy_test :: "u32 \<Rightarrow> u32" where
  "strcpy_test w = (w + 0xFEFEFEFF) AND 0x80808080"

definition strcmp_test :: "u32 \<Rightarrow> u32" where
  "strcmp_test w = (w - 0x01010101) AND 0x80808080"

text \<open>The byte steps up to a word boundary: True when the zero byte was among them.\<close>

fun strcpy_align :: "nat \<Rightarrow> cmem \<Rightarrow> u32 \<Rightarrow> u32 \<Rightarrow> bool \<times> cmem \<times> u32 \<times> u32" where
  "strcpy_align 0 m q p = (False, m, q, p)"
| "strcpy_align (Suc n) m q p =
     (let c = m (p + 1); m' = m(q + 1 := c)
      in if c = 0 then (True, m', q + 1, p + 1) else strcpy_align n m' (q + 1) (p + 1))"

partial_function (option) strcpy_words :: "cmem \<Rightarrow> u32 \<Rightarrow> u32 \<Rightarrow> u32 \<Rightarrow> (cmem \<times> u32 \<times> u32) option" where
  "strcpy_words m lq lp w =
     (let m' = wr32 m (lq + 4) w; w' = rd32 m' (lp + 4)
      in if strcpy_test w' = 0 then strcpy_words m' (lq + 4) (lp + 4) w'
         else Some (m', lq + 4 + 4, lp + 4))"

definition strcpy_tail :: "cmem \<Rightarrow> u32 \<Rightarrow> u32 \<Rightarrow> cmem option" where
  "strcpy_tail m q p =
     (let c = m p; m' = m(q := c) in if c \<noteq> 0 then copy_loop m' q p else Some m')"

definition strcpy_aligned :: "cmem \<Rightarrow> u32 \<Rightarrow> u32 \<Rightarrow> cmem option" where
  "strcpy_aligned m q p =
     (let w = rd32 m p
      in if strcpy_test w = 0 then
           (case strcpy_words m (q - 4) p w of
              None \<Rightarrow> None
            | Some (m', q', p') \<Rightarrow> strcpy_tail m' q' p')
         else strcpy_tail m q p)"

definition strcpy :: "cmem \<Rightarrow> u32 \<Rightarrow> u32 \<Rightarrow> (u32 \<times> cmem) option" where
  "strcpy m dst src =
     map_option (Pair dst)
       (if dst AND 3 = src AND 3 then
          (let n = unat (src AND 3)
           in if n \<noteq> 0 then
                (let m1 = m(dst := m src)
                 in if m src = 0 then Some m1
                    else case strcpy_align (3 - n) m1 dst src of
                           (True, m2, _, _) \<Rightarrow> Some m2
                         | (False, m2, q, p) \<Rightarrow> strcpy_aligned m2 (q + 1) (p + 1))
              else strcpy_aligned m dst src)
        else strcpy_tail m dst src)"

partial_function (option) strcmp_bytes :: "cmem \<Rightarrow> u32 \<Rightarrow> u32 \<Rightarrow> int option" where
  "strcmp_bytes m p1 p2 =
     (let c1 = m (p1 + 1); c2 = m (p2 + 1); d = byte_diff c1 c2
      in if d \<noteq> 0 then Some d
         else if c1 \<noteq> 0 then strcmp_bytes m (p1 + 1) (p2 + 1) else Some 0)"

text \<open>The plain comparison that everything ends in, entered with the first byte already equal.\<close>

definition strcmp_plain :: "cmem \<Rightarrow> u32 \<Rightarrow> u32 \<Rightarrow> int option" where
  "strcmp_plain m p1 p2 = (if m p1 = 0 then Some 0 else strcmp_bytes m p1 p2)"

definition strcmp_tail :: "cmem \<Rightarrow> u32 \<Rightarrow> u32 \<Rightarrow> int option" where
  "strcmp_tail m wp1 wp2 =
     (let d = byte_diff (m wp1) (m wp2) in if d \<noteq> 0 then Some d else strcmp_plain m wp1 wp2)"

partial_function (option) strcmp_words :: "cmem \<Rightarrow> u32 \<Rightarrow> u32 \<Rightarrow> int option" where
  "strcmp_words m wp1 wp2 =
     (let w1 = rd32 m wp1; w2 = rd32 m wp2
      in if nonzero (strcmp_test w1) then strcmp_tail m wp1 wp2
         else if w1 = w2 then strcmp_words m (wp1 + 4) (wp2 + 4)
         else Some (if w1 > w2 then 1 else -1))"

text \<open>The byte steps to the boundary: a result, or the pointers past the last byte compared.\<close>

fun strcmp_align :: "nat \<Rightarrow> cmem \<Rightarrow> u32 \<Rightarrow> u32 \<Rightarrow> int + (u32 \<times> u32)" where
  "strcmp_align 0 m p1 p2 = Inr (p1 + 1, p2 + 1)"
| "strcmp_align (Suc n) m p1 p2 =
     (let c1 = m (p1 + 1); c2 = m (p2 + 1); d = byte_diff c1 c2
      in if d \<noteq> 0 then Inl d
         else if c1 = 0 then Inl 0 else strcmp_align n m (p1 + 1) (p2 + 1))"

definition strcmp :: "cmem \<Rightarrow> u32 \<Rightarrow> u32 \<Rightarrow> int option" where
  "strcmp m str1 str2 =
     (let d = byte_diff (m str1) (m str2); a = str1 AND 3
      in if d \<noteq> 0 then Some d
         else if a = str2 AND 3 then
           (if nonzero a then
              (if m str1 = 0 then Some 0
               else case strcmp_align (3 - unat a) m str1 str2 of
                      Inl r \<Rightarrow> Some r
                    | Inr (p1, p2) \<Rightarrow> strcmp_words m p1 p2)
            else strcmp_words m str1 str2)
         else strcmp_plain m str1 str2)"

section \<open>strstr.c\<close>

text \<open>The inner loop: the last two bytes read, where they first differ or both end.\<close>

partial_function (option) strstr_match :: "cmem \<Rightarrow> u32 \<Rightarrow> u32 \<Rightarrow> u8 option" where
  "strstr_match m s2 p2 =
     (let c1 = m (s2 + 1); c2 = m (p2 + 1)
      in if c1 = c2 \<and> c1 \<noteq> 0 then strstr_match m (s2 + 1) (p2 + 1) else Some c2)"

partial_function (option) strstr_loop :: "cmem \<Rightarrow> u8 \<Rightarrow> u32 \<Rightarrow> u32 \<Rightarrow> u32 option" where
  "strstr_loop m firstc p1 s1 =
     (let s = s1 + 1; c1 = m s
      in if c1 = 0 then Some 0
         else if c1 = firstc then
           (case strstr_match m (s - 1) (p1 - 1) of
              None \<Rightarrow> None
            | Some c2 \<Rightarrow> if c2 = 0 then Some s else strstr_loop m firstc p1 s)
         else strstr_loop m firstc p1 s)"

definition strstr :: "cmem \<Rightarrow> u32 \<Rightarrow> u32 \<Rightarrow> u32 option" where
  "strstr m str pat =
     (if pat = 0 \<or> m pat = 0 then Some str else strstr_loop m (m pat) pat (str - 1))"

section \<open>misc.c\<close>

fun memcmp_loop :: "nat \<Rightarrow> cmem \<Rightarrow> u32 \<Rightarrow> u32 \<Rightarrow> int" where
  "memcmp_loop 0 m p1 p2 = 0"
| "memcmp_loop (Suc n) m p1 p2 =
     (if m (p1 + 1) \<noteq> m (p2 + 1) then (if m (p1 + 1) < m (p2 + 1) then -1 else 1)
      else memcmp_loop n m (p1 + 1) (p2 + 1))"

definition memcmp :: "cmem \<Rightarrow> u32 \<Rightarrow> u32 \<Rightarrow> u32 \<Rightarrow> int" where
  "memcmp m src1 src2 n = memcmp_loop (unat n) m (src1 - 1) (src2 - 1)"

definition cont_byte :: "u16 \<Rightarrow> u8" where
  "cont_byte w = ucast ((w AND 0x3F) OR 0x80)"

text \<open>The bytes wctomb stores, from the target pointer downwards, as its switch falls through.\<close>

definition wctomb_bytes :: "u16 \<Rightarrow> u8 list" where
  "wctomb_bytes w =
     (if w < 0x80 then [ucast w]
      else if w < 0x800 then [ucast (drop_bit 6 w OR 0xC0), cont_byte w]
      else [ucast (drop_bit 6 (drop_bit 6 w) OR 0xE0), cont_byte (drop_bit 6 w), cont_byte w])"

definition wctomb :: "cmem \<Rightarrow> u32 \<Rightarrow> u16 \<Rightarrow> nat \<times> cmem" where
  "wctomb m s wchar =
     (if s = 0 then (0, m) else (length (wctomb_bytes wchar), wrl m s (wctomb_bytes wchar)))"

definition LONG_MAX :: u32 where "LONG_MAX = 0x7FFFFFFF"
definition LONG_MIN :: u32 where "LONG_MIN = - LONG_MAX - 1"
definition ERANGE :: int where "ERANGE = 34"

text \<open>What \<open>__strtoul\<close>, which this source only declares, reports of its input.\<close>

record scan_result =
  sc_value :: u32
  sc_chars :: u32
  sc_negative :: bool
  sc_overflow :: bool

definition clamp_long :: "scan_result \<Rightarrow> int \<Rightarrow> int \<times> int" where
  "clamp_long r errno =
     (let ul = sc_value r; negative = sc_negative r
      in if sc_overflow r \<or> (\<not> negative \<and> ul > LONG_MAX) \<or> (negative \<and> ul > - LONG_MIN)
         then (sint (if negative then LONG_MIN else LONG_MAX), ERANGE)
         else if negative then (sint (- ul), errno)
         else (sint ul, errno))"

definition strtol ::
  "(u32 \<Rightarrow> u32 \<Rightarrow> scan_result) \<Rightarrow> u32 \<Rightarrow> u32 \<Rightarrow> int \<Rightarrow> int \<times> u32 \<times> int" where
  "strtol strtoul str base errno =
     (let r = strtoul base str in case clamp_long r errno of (v, e) \<Rightarrow> (v, str + sc_chars r, e))"

definition atoi :: "(u32 \<Rightarrow> u32 \<Rightarrow> scan_result) \<Rightarrow> u32 \<Rightarrow> int \<Rightarrow> int \<times> int" where
  "atoi strtoul str errno = clamp_long (strtoul 10 str) errno"

section \<open>strto.c: memmove\<close>

text \<open>The four long-copy routines are declared only: \<open>long_copy reverse unaligned\<close>.\<close>

definition memmove ::
  "(bool \<Rightarrow> bool \<Rightarrow> u32 \<Rightarrow> u32 \<Rightarrow> u32 \<Rightarrow> cmem \<Rightarrow> cmem) \<Rightarrow> cmem \<Rightarrow> u32 \<Rightarrow> u32 \<Rightarrow> u32 \<Rightarrow> u32 \<times> cmem" where
  "memmove long_copy m dst src n =
     (let rev = (src < dst)
      in if n \<ge> 32 then (dst, long_copy rev (nonzero ((src XOR dst) AND 3)) dst src n m)
         else if \<not> rev then (dst, copy_fwd (unat n) m (dst - 1) (src - 1))
         else (dst, copy_bwd (unat n) m (dst + n) (src + n)))"

section \<open>wide.c\<close>

record msl_file =
  file_kind :: nat
  io_state :: nat
  file_error :: bool
  position :: u32
  buffer :: u32
  buffer_ptr :: u32
  buffer_position :: u32

definition EFPOS :: int where "EFPOS = 40"

definition ftell :: "msl_file \<Rightarrow> int \<Rightarrow> u32 \<times> int" where
  "ftell f errno =
     (if (file_kind f \<noteq> 1 \<and> file_kind f \<noteq> 2) \<or> file_error f then (-1, EFPOS)
      else if io_state f = 0 then (position f, errno)
      else let pos = buffer_position f + (buffer_ptr f - buffer f)
           in (if io_state f \<ge> 3 then pos - (of_nat (io_state f) - 3 + 1) else pos, errno))"

text \<open>wcstombs over a wide string in memory (two bytes a character, most significant first). The
  strncpy of the one to three bytes from the temporary stops at none of them, as none is zero.\<close>

definition rd16 :: "cmem \<Rightarrow> u32 \<Rightarrow> u16" where
  "rd16 m a = ucast (get16 (m a) (m (a + 1)))"

partial_function (option) wcstombs_loop ::
  "cmem \<Rightarrow> u32 \<Rightarrow> u32 \<Rightarrow> u32 \<Rightarrow> u32 \<Rightarrow> (u32 \<times> cmem) option" where
  "wcstombs_loop m s p n written =
     (if written \<le> n then
        (if rd16 m p = 0 then Some (written, m(s + written := 0))
         else let bs = wctomb_bytes (rd16 m p); result = of_nat (length bs)
              in if written + result > n then Some (written, m)
                 else wcstombs_loop (wrl m (s + written) bs) s (p + 2) n (written + result))
      else Some (written, m))"

definition wcstombs :: "cmem \<Rightarrow> u32 \<Rightarrow> u32 \<Rightarrow> u32 \<Rightarrow> (u32 \<times> cmem) option" where
  "wcstombs m s pwcs n = (if s = 0 \<or> pwcs = 0 then Some (0, m) else wcstombs_loop m s pwcs n 0)"

record in_str_ctrl =
  NextChar :: u32
  NullCharDetected :: bool

text \<open>\<open>__StringRead\<close>: -1 is EOF; the actions are get (0), unget (1) and test for error (2).\<close>

definition StringRead :: "cmem \<Rightarrow> int \<Rightarrow> nat \<Rightarrow> in_str_ctrl \<Rightarrow> int \<times> in_str_ctrl" where
  "StringRead m ch action isc =
     (if action = 0 then
        (let RetChar = m (NextChar isc)
         in if RetChar = 0 then (-1, isc\<lparr>NullCharDetected := True\<rparr>)
            else (uint RetChar, isc\<lparr>NextChar := NextChar isc + 1\<rparr>))
      else if action = 1 then
        (ch, if \<not> NullCharDetected isc then isc\<lparr>NextChar := NextChar isc - 1\<rparr>
             else isc\<lparr>NullCharDetected := False\<rparr>)
      else if action = 2 then (if NullCharDetected isc then 1 else 0, isc)
      else (0, isc))"

end
