(* ===== verification/MslStr.thy ===== *)
theory MslStr
  imports Msl
begin

text \<open>
  The string routines of Msl against what C promises of them: a string in memory is a list of
  nonzero bytes with a zero after it, and each routine is compared with a function on lists.
  The word-at-a-time paths of strcpy and strcmp read past the terminator within their last
  word; the lemmas show that what they read there does not matter.
\<close>

section \<open>Strings in memory\<close>

fun cstr :: "cmem \<Rightarrow> u32 \<Rightarrow> u8 list \<Rightarrow> bool" where
  "cstr m p [] \<longleftrightarrow> m p = 0"
| "cstr m p (b # bs) \<longleftrightarrow> m p = b \<and> b \<noteq> 0 \<and> cstr m (p + 1) bs"

lemma strlen_loop_cstr: "cstr m (p + 1) bs \<Longrightarrow> strlen_loop m p len = Some (len + 1 + of_nat (length bs))"
proof (induction bs arbitrary: p len)
  case Nil
  then show ?case by (subst strlen_loop.simps) simp
next
  case (Cons b bs)
  have "strlen_loop m p len = strlen_loop m (p + 1) (len + 1)"
    using Cons.prems by (subst strlen_loop.simps) simp
  also have "\<dots> = Some (len + 1 + 1 + of_nat (length bs))"
    using Cons.prems by (intro Cons.IH) simp
  finally show ?case by (simp add: add.assoc add.commute)
qed

text \<open>strlen returns on every string, with its length.\<close>

theorem strlen_cstr:
  assumes "cstr m s bs"
  shows "strlen m s = Some (of_nat (length bs))"
  unfolding strlen_def using strlen_loop_cstr [of m "s - 1" bs "-1"] assms by simp

definition mem_of :: "u32 \<Rightarrow> u8 list \<Rightarrow> cmem" where
  "mem_of a bs = wrl (\<lambda>_. 0) a bs"

theorem strlen_cstr_witness: "strlen (mem_of 0xFFFFFFFE [65, 66, 67]) 0xFFFFFFFE = Some 3"
proof -
  have "cstr (mem_of 0xFFFFFFFE [65, 66, 67]) 0xFFFFFFFE [65, 66, 67]"
    by (simp add: mem_of_def)
  from strlen_cstr [OF this] show ?thesis by simp
qed

section \<open>Comparison\<close>

fun lexcmp :: "u8 list \<Rightarrow> u8 list \<Rightarrow> int" where
  "lexcmp [] [] = 0"
| "lexcmp [] (y # ys) = -1"
| "lexcmp (x # xs) [] = 1"
| "lexcmp (x # xs) (y # ys) = (if x < y then -1 else if y < x then 1 else lexcmp xs ys)"

lemma byte_diff_int: "byte_diff a b = uint a - uint b"
proof -
  have a: "uint a < 256" "uint b < 256" "0 \<le> uint a" "0 \<le> uint b"
    using uint_bounded [of a] uint_bounded [of b] by simp_all
  have up: "sint (ucast w :: u32) = uint w" for w :: u8
  proof -
    have "uint (ucast w :: u32) = uint w"
      using uint_bounded [of w] by (simp add: unsigned_ucast_eq take_bit_int_eq_self)
    moreover have "0 \<le> uint w" "uint w < 256" using uint_bounded [of w] by simp_all
    then have "- (2 ^ 31) \<le> uint w" "uint w < 2 ^ 31"
      by (auto intro: order_trans [of _ 0])
    then have "signed_take_bit 31 (uint w) = uint w" by (rule signed_take_bit_int_eq_self)
    ultimately show ?thesis by (simp add: sint_uint)
  qed
  have "byte_diff a b = signed_take_bit 31 (uint a - uint b)"
    unfolding byte_diff_def by (simp add: sint_word_ariths up)
  then show ?thesis
    using a by (simp add: signed_take_bit_int_eq_self)
qed

lemma byte_diff_0 [simp]: "byte_diff a b = 0 \<longleftrightarrow> a = b"
  by (simp add: byte_diff_int word_uint_eq_iff)

lemma byte_diff_sgn: "a \<noteq> b \<Longrightarrow> sgn (byte_diff a b) = (if a < b then -1 else 1)"
  by (auto simp: byte_diff_int word_less_def sgn_if word_uint_eq_iff)

lemma lexcmp_refl [simp]: "lexcmp xs xs = 0"
  by (induction xs) auto

lemma strcmp_bytes_cstr:
  "cstr m (p1 + 1) xs \<Longrightarrow> cstr m (p2 + 1) ys \<Longrightarrow>
   \<exists>d. strcmp_bytes m p1 p2 = Some d \<and> sgn d = lexcmp xs ys"
proof (induction xs arbitrary: p1 p2 ys)
  case Nil
  then show ?case
    by (subst strcmp_bytes.simps) (cases ys; auto simp: Let_def byte_diff_sgn word_gt_0)
next
  case (Cons x xs)
  show ?case
  proof (cases "ys = [] \<or> hd ys \<noteq> x")
    case True
    then show ?thesis
      using Cons.prems
      by (subst strcmp_bytes.simps) (cases ys; auto simp: Let_def byte_diff_sgn)
  next
    case False
    then obtain ys' where ys: "ys = x # ys'" by (cases ys) auto
    have "strcmp_bytes m p1 p2 = strcmp_bytes m (p1 + 1) (p2 + 1)"
      using Cons.prems ys by (subst strcmp_bytes.simps) (simp add: Let_def)
    then show ?thesis
      using Cons.IH [of "p1 + 1" "p2 + 1" ys'] Cons.prems ys by simp
  qed
qed

text \<open>What a comparison that ends in \<open>f\<close> owes: a value whose sign is that of the strings.\<close>

definition compares :: "int option \<Rightarrow> u8 list \<Rightarrow> u8 list \<Rightarrow> bool" where
  "compares r xs ys \<longleftrightarrow> (\<exists>d. r = Some d \<and> sgn d = lexcmp xs ys)"

lemma compares_byte_diff:
  assumes "cstr m p1 xs" "cstr m p2 ys" "m p1 \<noteq> m p2"
  shows "compares (Some (byte_diff (m p1) (m p2))) xs ys"
  using assms by (cases xs; cases ys; auto simp: compares_def byte_diff_sgn word_gt_0)

lemma strcmp_plain_cstr:
  assumes "cstr m p1 xs" "cstr m p2 ys" "m p1 = m p2"
  shows "compares (strcmp_plain m p1 p2) xs ys"
proof (cases xs)
  case Nil
  then show ?thesis using assms by (cases ys) (auto simp: strcmp_plain_def compares_def)
next
  case (Cons x xs')
  then obtain ys' where "ys = x # ys'" using assms by (cases ys) auto
  then show ?thesis
    using assms Cons strcmp_bytes_cstr [of m p1 xs' p2 ys']
    by (auto simp: strcmp_plain_def compares_def)
qed

lemma strcmp_tail_cstr:
  "cstr m p1 xs \<Longrightarrow> cstr m p2 ys \<Longrightarrow> compares (strcmp_tail m p1 p2) xs ys"
  using compares_byte_diff strcmp_plain_cstr by (auto simp: strcmp_tail_def Let_def)

section \<open>The word test\<close>

text \<open>If any byte of a word is zero, subtracting one from every byte sets bit 7 of the last zero
  byte: the bytes after it are at least one, so nothing is borrowed from it.\<close>

lemma test_bits: "strcmp_test w = 0 \<Longrightarrow> \<not> bit (w - 0x01010101) 7 \<and> \<not> bit (w - 0x01010101) 15
    \<and> \<not> bit (w - 0x01010101) 23 \<and> \<not> bit (w - 0x01010101) 31"
proof -
  assume t: "strcmp_test w = 0"
  have "\<not> bit ((w - 0x01010101) AND 0x80808080) n" for n
    using t by (simp add: strcmp_test_def)
  from this [of 7] this [of 15] this [of 23] this [of 31] show ?thesis
    by (simp add: bit_and_iff)
qed

lemma strcmp_test_nonzero:
  assumes "strcmp_test (get32 a b c d) = 0"
  shows "a \<noteq> 0 \<and> b \<noteq> 0 \<and> c \<noteq> 0 \<and> d \<noteq> 0"
proof -
  let ?z = "((uint a * 256 + uint b) * 256 + uint c) * 256 + uint d - 0x01010101"
  have bounds: "0 \<le> uint x" "uint x < 256" for x :: u8
    using uint_bounded [of x] by simp_all
  have pos: "x \<noteq> 0" if "1 \<le> uint x" for x :: u8
    using that by auto
  have "uint (get32 a b c d) = ((uint a * 256 + uint b) * 256 + uint c) * 256 + uint d"
    unfolding uint_nat unat_get32 by simp
  then have "word_of_int (uint (get32 a b c d)) = (word_of_int (((uint a * 256 + uint b) * 256 + uint c) * 256 + uint d) :: u32)"
    by (rule arg_cong)
  then have g: "get32 a b c d = word_of_int (((uint a * 256 + uint b) * 256 + uint c) * 256 + uint d)"
    by (simp only: word_of_int_uint)
  have w: "get32 a b c d - 0x01010101 = word_of_int ?z"
    unfolding g by (simp only: of_int_diff of_int_numeral)
  have "\<not> 2 ^ 7 \<le> ?z mod 2 ^ 8" "\<not> 2 ^ 15 \<le> ?z mod 2 ^ 16" "\<not> 2 ^ 23 \<le> ?z mod 2 ^ 24" "\<not> 2 ^ 31 \<le> ?z mod 2 ^ 32"
    using test_bits [OF assms] unfolding w
      bit_word_of_int_mod [of 7, where 'a = 32, simplified] bit_word_of_int_mod [of 15, where 'a = 32, simplified]
      bit_word_of_int_mod [of 23, where 'a = 32, simplified] bit_word_of_int_mod [of 31, where 'a = 32, simplified]
    by simp_all
  then have z: "?z mod 256 < 128" "?z mod 65536 < 32768" "?z mod 16777216 < 8388608" "?z mod 4294967296 < 2147483648"
    by simp_all
  have rem: "x mod M = r" if "x = q * M + r" "0 \<le> r" "r < M" for x q M r :: int
    using that by simp
  let ?a = "uint a" and ?b = "uint b" and ?c = "uint c" and ?d = "uint d"
  have d: "1 \<le> ?d"
  proof (rule ccontr)
    assume "\<not> 1 \<le> ?d"
    then have "?d = 0" using bounds(1) [of d] by linarith
    then have "?z mod 256 = 255"
      by (intro rem [of _ "(?a * 256 + ?b) * 256 + ?c - 65794"]) simp_all
    then show False using z(1) by simp
  qed
  have c: "1 \<le> ?c"
  proof (rule ccontr)
    assume "\<not> 1 \<le> ?c"
    then have "?c = 0" using bounds(1) [of c] by linarith
    then have "?z mod 65536 = ?d + 65279"
      using bounds [of d] by (intro rem [of _ "?a * 256 + ?b - 258"]) simp_all
    then show False using z(2) bounds(1) [of d] by simp
  qed
  have b: "1 \<le> ?b"
  proof (rule ccontr)
    assume "\<not> 1 \<le> ?b"
    then have "?b = 0" using bounds(1) [of b] by linarith
    then have "?z mod 16777216 = ?c * 256 + ?d + 16711423"
      using bounds [of c] bounds [of d] by (intro rem [of _ "?a - 2"]) simp_all
    then show False using z(3) bounds(1) [of c] bounds(1) [of d] by simp
  qed
  have "1 \<le> ?a"
  proof (rule ccontr)
    assume "\<not> 1 \<le> ?a"
    then have "?a = 0" using bounds(1) [of a] by linarith
    then have "?z mod 4294967296 = (?b * 256 + ?c) * 256 + ?d + 4278124287"
      using bounds [of b] bounds [of c] bounds [of d] by (intro rem [of _ "-1"]) simp_all
    then show False using z(4) bounds(1) [of b] bounds(1) [of c] bounds(1) [of d] by simp
  qed
  with b c d show ?thesis using pos by blast
qed

lemma strcpy_test_eq: "strcpy_test w = strcmp_test w"
proof -
  have "(0xFEFEFEFF :: u32) = - 0x01010101" by simp
  then have "w + 0xFEFEFEFF = w - 0x01010101" by (simp only: diff_conv_add_uminus)
  then show ?thesis by (simp only: strcpy_test_def strcmp_test_def)
qed

section \<open>strcmp\<close>

lemma cstr_word_full:
  assumes "cstr m p xs" "strcmp_test (rd32 m p) = 0"
  obtains xs' where "xs = m p # m (p + 1) # m (p + 2) # m (p + 3) # xs'" "cstr m (p + 4) xs'"
    "m p \<noteq> 0" "m (p + 1) \<noteq> 0" "m (p + 2) \<noteq> 0" "m (p + 3) \<noteq> 0"
proof -
  have nz: "m p \<noteq> 0 \<and> m (p + 1) \<noteq> 0 \<and> m (p + 2) \<noteq> 0 \<and> m (p + 3) \<noteq> 0"
    using strcmp_test_nonzero assms(2) by (simp add: rd32_def)
  have next1: "cstr m q ys \<Longrightarrow> m q \<noteq> 0 \<Longrightarrow> \<exists>ys'. ys = m q # ys' \<and> cstr m (q + 1) ys'" for q ys
    by (cases ys) auto
  obtain x1 where x1: "xs = m p # x1" "cstr m (p + 1) x1" using next1 assms(1) nz by blast
  obtain x2 where x2: "x1 = m (p + 1) # x2" "cstr m (p + 1 + 1) x2" using next1 x1 nz by blast
  have q: "p + 1 + 1 = p + 2" "p + 2 + 1 = p + 3" by simp_all
  obtain x3 where x3: "x2 = m (p + 2) # x3" "cstr m (p + 2 + 1) x3"
    using next1 [OF x2(2) [unfolded q(1)]] nz by blast
  obtain x4 where x4: "x3 = m (p + 3) # x4" "cstr m (p + 3 + 1) x4"
    using next1 [OF x3(2) [unfolded q(2)]] nz by blast
  have q4: "p + 3 + 1 = p + 4" by simp
  show thesis
  proof (rule that)
    show "xs = m p # m (p + 1) # m (p + 2) # m (p + 3) # x4" by (simp only: x1 x2 x3 x4)
    show "cstr m (p + 4) x4" using x4(2) unfolding q4 .
  qed (use nz in blast)+
qed

text \<open>Two different words decide: the first string has all four bytes, whatever the second has.\<close>

lemma lexcmp_words:
  assumes "cstr m q ys" "m q = a' \<and> m (q + 1) = b' \<and> m (q + 2) = c' \<and> m (q + 3) = d'"
    and "a \<noteq> 0" "b \<noteq> 0" "c \<noteq> 0" "d \<noteq> 0" "get32 a b c d \<noteq> get32 a' b' c' d'"
  shows "lexcmp (a # b # c # d # xs) ys = (if get32 a b c d > get32 a' b' c' d' then 1 else -1)"
proof -
  have step: "lexcmp (x # us) vs = (if x < m r then -1 else if m r < x then 1 else lexcmp us (tl vs))
      \<and> (x = m r \<longrightarrow> cstr m (r + 1) (tl vs))" if "cstr m r vs" "x \<noteq> 0" for x us vs r
    using that by (cases vs) (auto simp: word_gt_0)
  have q: "q + 1 + 1 = q + 2" "q + 2 + 1 = q + 3" by simp_all
  show ?thesis
    using step [OF assms(1,3), of "b # c # d # xs"] step [of "q + 1" "tl ys" b "c # d # xs"]
      step [of "q + 2" "tl (tl ys)" c "d # xs"] step [of "q + 3" "tl (tl (tl ys))" d xs] assms(2-7)
    unfolding get32_less get32_inject q by (auto simp: not_less_iff_gr_or_eq)
qed

lemma strcmp_words_cstr:
  "cstr m p1 xs \<Longrightarrow> cstr m p2 ys \<Longrightarrow> compares (strcmp_words m p1 p2) xs ys"
proof (induction "length xs" arbitrary: p1 p2 xs ys rule: less_induct)
  case less
  show ?case
  proof (cases "strcmp_test (rd32 m p1) = 0")
    case False
    then show ?thesis
      using strcmp_tail_cstr [OF less.prems] by (subst strcmp_words.simps) simp
  next
    case True
    obtain xs' where xs: "xs = m p1 # m (p1 + 1) # m (p1 + 2) # m (p1 + 3) # xs'" "cstr m (p1 + 4) xs'"
      "m p1 \<noteq> 0" "m (p1 + 1) \<noteq> 0" "m (p1 + 2) \<noteq> 0" "m (p1 + 3) \<noteq> 0"
      by (rule cstr_word_full [OF less.prems(1) True])
    show ?thesis
    proof (cases "rd32 m p1 = rd32 m p2")
      case eq: True
      obtain ys' where ys: "ys = m p2 # m (p2 + 1) # m (p2 + 2) # m (p2 + 3) # ys'" "cstr m (p2 + 4) ys'"
        by (rule cstr_word_full [OF less.prems(2)]) (use eq True in simp)
      have same: "m p1 = m p2" "m (p1 + 1) = m (p2 + 1)" "m (p1 + 2) = m (p2 + 2)" "m (p1 + 3) = m (p2 + 3)"
        using eq by (simp_all add: rd32_def get32_inject)
      have "compares (strcmp_words m (p1 + 4) (p2 + 4)) xs' ys'"
        using xs ys by (intro less.hyps) simp_all
      then show ?thesis
        using eq True xs(1) ys(1) same by (subst strcmp_words.simps) (simp add: compares_def)
    next
      case False
      have "lexcmp xs ys = (if rd32 m p1 > rd32 m p2 then 1 else -1)"
        unfolding xs(1) rd32_def using False xs(3-6)
        by (intro lexcmp_words [OF less.prems(2)]) (simp_all add: rd32_def)
      then show ?thesis
        using True False by (subst strcmp_words.simps) (simp add: compares_def)
    qed
  qed
qed

lemma strcmp_align_cstr:
  assumes "cstr m p1 (x # xs)" "cstr m p2 (x # ys)"
  shows "case strcmp_align n m p1 p2 of
      Inl d \<Rightarrow> compares (Some d) xs ys
    | Inr (q1, q2) \<Rightarrow> \<exists>us vs. cstr m q1 us \<and> cstr m q2 vs \<and> lexcmp us vs = lexcmp xs ys"
  using assms
proof (induction n arbitrary: p1 p2 x xs ys)
  case 0
  then show ?case by auto
next
  case (Suc n)
  have c: "cstr m (p1 + 1) xs" "cstr m (p2 + 1) ys" using Suc.prems by simp_all
  show ?case
  proof (cases "m (p1 + 1) = m (p2 + 1)")
    case False
    then show ?thesis using compares_byte_diff [OF c False] by (simp add: Let_def)
  next
    case True
    show ?thesis
    proof (cases xs)
      case Nil
      then show ?thesis using True c by (cases ys) (auto simp: compares_def Let_def)
    next
      case (Cons z xs')
      then obtain ys' where ys: "ys = z # ys'" using True c by (cases ys) auto
      have "strcmp_align (Suc n) m p1 p2 = strcmp_align n m (p1 + 1) (p2 + 1)"
        using True c Cons by (simp add: Let_def)
      then show ?thesis
        using Suc.IH [of "p1 + 1" z xs' "p2 + 1" ys'] c Cons ys
        by (simp add: compares_def split: sum.splits prod.splits)
    qed
  qed
qed

text \<open>C9: strcmp, word path included, returns for every two strings, and the sign of its result is
  their order as sequences of unsigned bytes: zero exactly when they are equal.\<close>

theorem strcmp_orders:
  assumes "cstr m a xs" and "cstr m b ys"
  shows "\<exists>d. strcmp m a b = Some d \<and> sgn d = lexcmp xs ys"
proof -
  have "compares (strcmp m a b) xs ys"
  proof (cases "m a = m b")
    case False
    then show ?thesis using compares_byte_diff [OF assms False] by (simp add: strcmp_def Let_def)
  next
    case eq: True
    show ?thesis
    proof (cases "a AND 3 = b AND 3")
      case False
      then show ?thesis using eq strcmp_plain_cstr [OF assms eq] by (simp add: strcmp_def Let_def)
    next
      case al: True
      show ?thesis
      proof (cases "a AND 3 = 0")
        case True
        then show ?thesis using eq al strcmp_words_cstr [OF assms] by (simp add: strcmp_def Let_def)
      next
        case False
        show ?thesis
        proof (cases xs)
          case Nil
          then show ?thesis
            using assms eq al False by (cases ys) (auto simp: strcmp_def compares_def Let_def)
        next
          case (Cons x xs')
          then obtain ys' where ys: "ys = x # ys'" using assms eq by (cases ys) auto
          have nz: "m a \<noteq> 0" using assms Cons by auto
          have "case strcmp_align (3 - unat (a AND 3)) m a b of
              Inl d \<Rightarrow> compares (Some d) xs' ys'
            | Inr (q1, q2) \<Rightarrow> \<exists>us vs. cstr m q1 us \<and> cstr m q2 vs \<and> lexcmp us vs = lexcmp xs' ys'"
            using assms Cons ys by (intro strcmp_align_cstr [where x = x]) simp_all
          then show ?thesis
            using eq al False nz strcmp_words_cstr Cons ys
            by (auto simp: strcmp_def compares_def Let_def split: sum.splits prod.splits) metis
        qed
      qed
    qed
  qed
  then show ?thesis by (simp add: compares_def)
qed

theorem strcmp_orders_witness:
  "\<exists>d. strcmp (wrl (mem_of 0x1000 [65, 66, 67, 68, 0x80]) 0x2000 [65, 66, 67, 68, 0x7F]) 0x1000 0x2000 = Some d
     \<and> sgn d = 1"
proof -
  let ?m = "wrl (mem_of 0x1000 [65, 66, 67, 68, 0x80]) 0x2000 [65, 66, 67, 68, 0x7F]"
  have "cstr ?m 0x1000 [65, 66, 67, 68, 0x80]" "cstr ?m 0x2000 [65, 66, 67, 68, 0x7F]"
    by (simp_all add: mem_of_def)
  from strcmp_orders [OF this] show ?thesis by simp
qed

section \<open>strcpy\<close>

lemma wrl_append: "wrl m a (xs @ ys) = wrl (wrl m a xs) (a + of_nat (length xs)) ys"
  by (induction xs arbitrary: m a) (simp_all add: add.assoc)

lemma wrl_outside: "(\<And>i. i < length xs \<Longrightarrow> x \<noteq> a + of_nat i) \<Longrightarrow> wrl m a xs x = m x"
proof (induction xs arbitrary: m a)
  case (Cons b xs)
  have "x \<noteq> a" using Cons.prems [of 0] by simp
  moreover have "x \<noteq> a + 1 + of_nat i" if "i < length xs" for i
    using Cons.prems [of "Suc i"] that by (simp add: add.assoc)
  ultimately show ?case using Cons.IH by simp
qed simp

lemma cstr_nth: "cstr m p bs \<Longrightarrow> i \<le> length bs \<Longrightarrow> m (p + of_nat i) = (bs @ [0]) ! i"
proof (induction bs arbitrary: p i)
  case (Cons b bs)
  then show ?case by (cases i) (simp_all add: add.assoc [symmetric])
qed simp

lemma cstr_nonzero: "cstr m p bs \<Longrightarrow> i < length bs \<Longrightarrow> bs ! i \<noteq> 0"
  by (induction bs arbitrary: p i) (auto simp: less_Suc_eq_0_disj)

text \<open>The string with its terminator, apart from where it is to be copied.\<close>

definition copyable :: "cmem \<Rightarrow> u32 \<Rightarrow> u32 \<Rightarrow> u8 list \<Rightarrow> bool" where
  "copyable m dst src bs \<longleftrightarrow> cstr m src bs
     \<and> (\<forall>i\<le>length bs. \<forall>j\<le>length bs. dst + of_nat i \<noteq> src + of_nat j)"

definition copied :: "cmem \<Rightarrow> u32 \<Rightarrow> u8 list \<Rightarrow> nat \<Rightarrow> cmem" where
  "copied m dst bs k = wrl m dst (take k (bs @ [0]))"

lemma copied_src:
  assumes "copyable m dst src bs" "j \<le> length bs"
  shows "copied m dst bs k (src + of_nat j) = (bs @ [0]) ! j"
proof -
  have "copied m dst bs k (src + of_nat j) = m (src + of_nat j)"
    unfolding copied_def
  proof (rule wrl_outside)
    fix i
    assume "i < length (take k (bs @ [0]))"
    then have "i \<le> length bs" by simp
    then show "src + of_nat j \<noteq> dst + of_nat i"
      using assms by (metis copyable_def)
  qed
  then show ?thesis using assms cstr_nth by (simp add: copyable_def)
qed

lemma copied_Suc:
  assumes "k \<le> length bs"
  shows "copied m dst bs (Suc k) = (copied m dst bs k)(dst + of_nat k := (bs @ [0]) ! k)"
proof -
  have k: "k < length (bs @ [0])" using assms by simp
  have "length (take k (bs @ [0])) = k" using k by simp
  then show ?thesis
    unfolding copied_def take_Suc_conv_app_nth [OF k] wrl_append by (simp only: wrl.simps)
qed

lemma copied_0 [simp]: "copied m dst bs 0 = m"
  by (simp add: copied_def)

lemma nul_index: "copyable m dst src bs \<Longrightarrow> k \<le> length bs \<Longrightarrow> (bs @ [0]) ! k = 0 \<longleftrightarrow> k = length bs"
  using cstr_nonzero [of m src bs k] by (auto simp: copyable_def nth_append)

lemma ptr_Suc: "(a :: u32) + of_nat k + 1 = a + of_nat (Suc k)"
  by simp

lemma copy_loop_copied:
  assumes "copyable m dst src bs"
  shows "k < length bs \<Longrightarrow> copy_loop (copied m dst bs (Suc k)) (dst + of_nat k) (src + of_nat k)
    = Some (copied m dst bs (Suc (length bs)))"
proof (induction "length bs - k" arbitrary: k)
  case (Suc d)
  let ?m = "copied m dst bs (Suc k)"
  have c: "?m (src + of_nat (Suc k)) = (bs @ [0]) ! Suc k"
    using Suc.prems by (intro copied_src [OF assms]) simp
  have m': "?m(dst + of_nat (Suc k) := (bs @ [0]) ! Suc k) = copied m dst bs (Suc (Suc k))"
    using Suc.prems by (subst (2) copied_Suc) simp_all
  have step: "copy_loop ?m (dst + of_nat k) (src + of_nat k)
      = (if (bs @ [0]) ! Suc k \<noteq> 0
         then copy_loop (copied m dst bs (Suc (Suc k))) (dst + of_nat (Suc k)) (src + of_nat (Suc k))
         else Some (copied m dst bs (Suc (Suc k))))"
    by (subst copy_loop.simps) (simp only: ptr_Suc c m' Let_def)
  have nul: "(bs @ [0]) ! Suc k = 0 \<longleftrightarrow> Suc k = length bs"
    using Suc.prems by (intro nul_index [OF assms]) simp
  show ?case
  proof (cases "Suc k = length bs")
    case True
    then show ?thesis unfolding step nul by simp
  next
    case False
    then have "copy_loop (copied m dst bs (Suc (Suc k))) (dst + of_nat (Suc k)) (src + of_nat (Suc k))
        = Some (copied m dst bs (Suc (length bs)))"
      using Suc.hyps(2) Suc.prems by (intro Suc.hyps(1)) simp_all
    then show ?thesis unfolding step nul using False by (simp only: simp_thms if_True)
  qed
qed simp

lemma strcpy_tail_copied:
  assumes "copyable m dst src bs" "k \<le> length bs"
  shows "strcpy_tail (copied m dst bs k) (dst + of_nat k) (src + of_nat k) = Some (copied m dst bs (Suc (length bs)))"
proof -
  have c: "copied m dst bs k (src + of_nat k) = (bs @ [0]) ! k" by (rule copied_src [OF assms])
  have m': "(copied m dst bs k)(dst + of_nat k := (bs @ [0]) ! k) = copied m dst bs (Suc k)"
    using assms(2) by (simp only: copied_Suc)
  show ?thesis
    using nul_index [OF assms] copy_loop_copied [OF assms(1), of k] assms(2)
    unfolding strcpy_tail_def c m' Let_def by auto
qed

text \<open>A word without a zero byte is four more bytes of the string.\<close>

lemma word_of_string:
  assumes "copyable m dst src bs" "k \<le> length bs" "strcpy_test (rd32 (copied m dst bs k) (src + of_nat k)) = 0"
  shows "k + 4 \<le> length bs"
    and "wr32 (copied m dst bs k) (dst + of_nat k) (rd32 (copied m dst bs k) (src + of_nat k)) = copied m dst bs (k + 4)"
proof -
  let ?M = "copied m dst bs k" and ?p = "src + of_nat k"
  have nz: "?M ?p \<noteq> 0 \<and> ?M (?p + 1) \<noteq> 0 \<and> ?M (?p + 2) \<noteq> 0 \<and> ?M (?p + 3) \<noteq> 0"
    using strcmp_test_nonzero assms(3) by (simp add: rd32_def strcpy_test_eq)
  have off: "?p + 1 = src + of_nat (Suc k)" "?p + 2 = src + of_nat (Suc (Suc k))" "?p + 3 = src + of_nat (Suc (Suc (Suc k)))"
    by simp_all
  have r: "?M (src + of_nat j) = (bs @ [0]) ! j" if "j \<le> length bs" for j
    by (rule copied_src [OF assms(1) that])
  note nul = nul_index [OF assms(1)]
  have k0: "k < length bs" using nz r [OF assms(2)] nul [OF assms(2)] assms(2) by auto
  have k1: "Suc k < length bs" using nz r [of "Suc k"] nul [of "Suc k"] k0 unfolding off by auto
  have k2: "Suc (Suc k) < length bs" using nz r [of "Suc (Suc k)"] nul [of "Suc (Suc k)"] k1 unfolding off by auto
  have k3: "Suc (Suc (Suc k)) < length bs"
    using nz r [of "Suc (Suc (Suc k))"] nul [of "Suc (Suc (Suc k))"] k2 unfolding off by auto
  then show "k + 4 \<le> length bs" by simp
  have "put32 (rd32 ?M ?p) = [(bs @ [0]) ! k, (bs @ [0]) ! Suc k, (bs @ [0]) ! Suc (Suc k), (bs @ [0]) ! Suc (Suc (Suc k))]"
    unfolding rd32_def off get32_put32 using k3
    by (simp only: r Suc_leI less_imp_le_nat Suc_leD Suc_lessD)
  moreover have "dst + of_nat k + 1 = dst + of_nat (Suc k)" "dst + of_nat (Suc k) + 1 = dst + of_nat (Suc (Suc k))"
    "dst + of_nat (Suc (Suc k)) + 1 = dst + of_nat (Suc (Suc (Suc k)))" by simp_all
  moreover have "k + 4 = Suc (Suc (Suc (Suc k)))" by simp
  ultimately show "wr32 ?M (dst + of_nat k) (rd32 ?M ?p) = copied m dst bs (k + 4)"
    using k3 unfolding wr32_def by (simp only: wrl.simps copied_Suc Suc_leI less_imp_le_nat Suc_leD)
qed

lemma strcpy_words_copied:
  assumes "copyable m dst src bs"
  shows "k \<le> length bs \<Longrightarrow> strcpy_test (rd32 (copied m dst bs k) (src + of_nat k)) = 0 \<Longrightarrow>
    (case strcpy_words (copied m dst bs k) (dst + of_nat k - 4) (src + of_nat k) (rd32 (copied m dst bs k) (src + of_nat k)) of
       None \<Rightarrow> None | Some (m', q', p') \<Rightarrow> strcpy_tail m' q' p') = Some (copied m dst bs (Suc (length bs)))"
proof (induction "length bs - k" arbitrary: k rule: less_induct)
  case less
  let ?M = "copied m dst bs k" and ?M' = "copied m dst bs (k + 4)"
  note w = word_of_string [OF assms less.prems]
  have q: "dst + of_nat k - 4 + 4 = dst + of_nat k" "dst + of_nat k + 4 = dst + of_nat (k + 4)"
    "src + of_nat k + 4 = src + of_nat (k + 4)" by simp_all
  have step: "strcpy_words ?M (dst + of_nat k - 4) (src + of_nat k) (rd32 ?M (src + of_nat k))
      = (if strcpy_test (rd32 ?M' (src + of_nat (k + 4))) = 0
         then strcpy_words ?M' (dst + of_nat k) (src + of_nat (k + 4)) (rd32 ?M' (src + of_nat (k + 4)))
         else Some (?M', dst + of_nat (k + 4), src + of_nat (k + 4)))"
    by (subst strcpy_words.simps) (simp only: q w(2) Let_def)
  show ?case
  proof (cases "strcpy_test (rd32 ?M' (src + of_nat (k + 4))) = 0")
    case False
    then show ?thesis using strcpy_tail_copied [OF assms w(1)] unfolding step by simp
  next
    case True
    have d: "dst + of_nat k = dst + of_nat (k + 4) - 4" by simp
    have eq: "strcpy_words ?M (dst + of_nat k - 4) (src + of_nat k) (rd32 ?M (src + of_nat k))
        = strcpy_words ?M' (dst + of_nat (k + 4) - 4) (src + of_nat (k + 4)) (rd32 ?M' (src + of_nat (k + 4)))"
      unfolding step d [symmetric] using True by (simp only: simp_thms if_True)
    show ?thesis
      unfolding eq using w(1) True by (intro less.hyps) simp_all
  qed
qed

lemma strcpy_aligned_copied:
  assumes "copyable m dst src bs" "k \<le> length bs"
  shows "strcpy_aligned (copied m dst bs k) (dst + of_nat k) (src + of_nat k) = Some (copied m dst bs (Suc (length bs)))"
  using strcpy_words_copied [OF assms] strcpy_tail_copied [OF assms] by (simp add: strcpy_aligned_def Let_def)

lemma strcpy_align_copied:
  assumes "copyable m dst src bs"
  shows "k < length bs \<Longrightarrow>
    (case strcpy_align n (copied m dst bs (Suc k)) (dst + of_nat k) (src + of_nat k) of
       (True, m2, _, _) \<Rightarrow> m2 = copied m dst bs (Suc (length bs))
     | (False, m2, q, p) \<Rightarrow> \<exists>k'<length bs. m2 = copied m dst bs (Suc k') \<and> q = dst + of_nat k' \<and> p = src + of_nat k')"
proof (induction n arbitrary: k)
  case (Suc n)
  let ?m = "copied m dst bs (Suc k)"
  have c: "?m (src + of_nat (Suc k)) = (bs @ [0]) ! Suc k"
    using Suc.prems by (intro copied_src [OF assms]) simp
  have m': "?m(dst + of_nat (Suc k) := (bs @ [0]) ! Suc k) = copied m dst bs (Suc (Suc k))"
    using Suc.prems by (subst (2) copied_Suc) simp_all
  have nul: "(bs @ [0]) ! Suc k = 0 \<longleftrightarrow> Suc k = length bs"
    using nul_index [OF assms, of "Suc k"] Suc.prems by simp
  show ?case
  proof (cases "Suc k = length bs")
    case True
    then show ?thesis
      using nul unfolding strcpy_align.simps ptr_Suc c m' Let_def by simp
  next
    case False
    then show ?thesis
      using nul Suc.IH [of "Suc k"] Suc.prems unfolding strcpy_align.simps ptr_Suc c m' Let_def by simp
  qed
qed auto

text \<open>C31: strcpy, word path included, returns the destination and has laid down exactly the bytes of
  the string and its terminator there, and nothing else, at every alignment of the two pointers,
  when the destination does not overlap the string.\<close>

theorem strcpy_copies:
  assumes "cstr m src bs" and "\<forall>i\<le>length bs. \<forall>j\<le>length bs. dst + of_nat i \<noteq> src + of_nat j"
  shows "strcpy m dst src = Some (dst, wrl m dst (bs @ [0]))"
proof -
  have cp: "copyable m dst src bs" using assms by (simp add: copyable_def)
  have result: "copied m dst bs (Suc (length bs)) = wrl m dst (bs @ [0])" by (simp add: copied_def)
  note whole = strcpy_aligned_copied [OF cp, of 0, simplified] strcpy_tail_copied [OF cp, of 0, simplified]
  have m0: "m src = (bs @ [0]) ! 0" using cstr_nth [OF assms(1), of 0] by simp
  have first: "m(dst := m src) = copied m dst bs (Suc 0)"
    unfolding m0 by (subst copied_Suc) simp_all
  have "(if dst AND 3 = src AND 3 then
          (let n = unat (src AND 3)
           in if n \<noteq> 0 then
                (let m1 = m(dst := m src)
                 in if m src = 0 then Some m1
                    else case strcpy_align (3 - n) m1 dst src of
                           (True, m2, _, _) \<Rightarrow> Some m2
                         | (False, m2, q, p) \<Rightarrow> strcpy_aligned m2 (q + 1) (p + 1))
              else strcpy_aligned m dst src)
        else strcpy_tail m dst src) = Some (copied m dst bs (Suc (length bs)))"
  proof (cases "dst AND 3 = src AND 3 \<and> unat (src AND 3) \<noteq> 0 \<and> m src \<noteq> 0")
    case True
    then have k: "0 < length bs" using nul_index [OF cp, of 0] m0 by simp
    obtain d m2 q p where al: "strcpy_align (3 - unat (src AND 3)) (copied m dst bs (Suc 0)) dst src = (d, m2, q, p)"
      using prod_cases4 by blast
    show ?thesis
    proof (cases d)
      case True
      then have "m2 = copied m dst bs (Suc (length bs))"
        using strcpy_align_copied [OF cp k, of "3 - unat (src AND 3)"] al by simp
      then show ?thesis
        using \<open>dst AND 3 = src AND 3 \<and> _\<close> al True unfolding first Let_def by simp
    next
      case False
      then obtain k' where k': "k' < length bs" "m2 = copied m dst bs (Suc k')" "q = dst + of_nat k'" "p = src + of_nat k'"
        using strcpy_align_copied [OF cp k, of "3 - unat (src AND 3)"] al by auto
      have "strcpy_aligned m2 (q + 1) (p + 1) = Some (copied m dst bs (Suc (length bs)))"
        unfolding k'(2-) ptr_Suc using k'(1) by (intro strcpy_aligned_copied [OF cp]) simp
      then show ?thesis
        using \<open>dst AND 3 = src AND 3 \<and> _\<close> al False unfolding first Let_def by simp
    qed
  next
    case False
    have "m src = 0 \<Longrightarrow> m(dst := 0) = copied m dst bs (Suc (length bs))"
      using first nul_index [OF cp, of 0] m0 by simp
    then show ?thesis using False whole unfolding Let_def by auto
  qed
  then show ?thesis unfolding strcpy_def result by simp
qed

theorem strcpy_copies_witness:
  "strcpy (mem_of 0x1001 [72, 101, 108, 108, 111, 33]) 0x2005 0x1001
     = Some (0x2005, wrl (mem_of 0x1001 [72, 101, 108, 108, 111, 33]) 0x2005 [72, 101, 108, 108, 111, 33, 0])"
proof -
  have "cstr (mem_of 0x1001 [72, 101, 108, 108, 111, 33]) 0x1001 [72, 101, 108, 108, 111, 33]"
    by (simp add: mem_of_def)
  moreover have "\<forall>i\<le>length [72, 101, 108, 108, 111, 33 :: u8]. \<forall>j\<le>length [72, 101, 108, 108, 111, 33 :: u8].
      (0x2005 :: u32) + of_nat i \<noteq> 0x1001 + of_nat j"
    by (simp add: le_Suc_eq)
  ultimately have "strcpy (mem_of 0x1001 [72, 101, 108, 108, 111, 33]) 0x2005 0x1001
      = Some (0x2005, wrl (mem_of 0x1001 [72, 101, 108, 108, 111, 33]) 0x2005 ([72, 101, 108, 108, 111, 33] @ [0]))"
    by (rule strcpy_copies)
  then show ?thesis by (simp only: append.simps)
qed

section \<open>strstr\<close>

text \<open>The inner loop ends at the end of the pattern exactly when the pattern is a prefix.\<close>

lemma strstr_match_prefix:
  "cstr m (s2 + 1) xs \<Longrightarrow> cstr m (p2 + 1) ys \<Longrightarrow> \<exists>c. strstr_match m s2 p2 = Some c \<and> (c = 0 \<longleftrightarrow> prefix ys xs)"
proof (induction ys arbitrary: xs s2 p2)
  case Nil
  then show ?case by (subst strstr_match.simps) (cases xs; simp add: Let_def)
next
  case (Cons y ys)
  show ?case
  proof (cases "xs \<noteq> [] \<and> hd xs = y")
    case False
    then show ?thesis
      using Cons.prems by (subst strstr_match.simps) (cases xs; auto simp: Let_def)
  next
    case True
    then obtain xs' where xs: "xs = y # xs'" by (cases xs) auto
    have "strstr_match m s2 p2 = strstr_match m (s2 + 1) (p2 + 1)"
      using Cons.prems xs by (subst strstr_match.simps) (simp add: Let_def)
    then show ?thesis using Cons.IH [of "s2 + 1" xs' "p2 + 1"] Cons.prems xs by simp
  qed
qed

text \<open>The first place a pattern occurs in a list, if it does.\<close>

fun find_sub :: "u8 list \<Rightarrow> u8 list \<Rightarrow> nat option" where
  "find_sub pat [] = (if pat = [] then Some 0 else None)"
| "find_sub pat (x # xs) = (if prefix pat (x # xs) then Some 0 else map_option Suc (find_sub pat xs))"

lemma strstr_loop_first:
  assumes "cstr m p (f # ys)"
  shows "cstr m (s1 + 1) xs \<Longrightarrow> strstr_loop m f p s1
    = Some (case find_sub (f # ys) xs of None \<Rightarrow> 0 | Some i \<Rightarrow> s1 + 1 + of_nat i)"
proof (induction xs arbitrary: s1)
  case Nil
  then show ?case by (subst strstr_loop.simps) (simp add: Let_def)
next
  case (Cons x xs)
  have later: "strstr_loop m f p (s1 + 1) = Some (case find_sub (f # ys) xs of None \<Rightarrow> 0 | Some i \<Rightarrow> s1 + 1 + 1 + of_nat i)"
    using Cons.prems by (intro Cons.IH) simp
  have shift: "(case map_option Suc r of None \<Rightarrow> 0 | Some i \<Rightarrow> s1 + 1 + of_nat i)
      = (case r of None \<Rightarrow> 0 | Some i \<Rightarrow> s1 + 1 + 1 + of_nat i)" for r
    by (cases r) (simp_all add: add.assoc)
  show ?case
  proof (cases "x = f")
    case False
    then have "\<not> prefix (f # ys) (x # xs)" by simp
    then show ?thesis
      using False Cons.prems later shift by (subst strstr_loop.simps) (simp add: Let_def)
  next
    case True
    obtain c where c: "strstr_match m s1 (p - 1) = Some c" "c = 0 \<longleftrightarrow> prefix (f # ys) (x # xs)"
      using strstr_match_prefix [of m s1 "x # xs" "p - 1" "f # ys"] Cons.prems assms by auto
    show ?thesis
      using True Cons.prems later shift c by (subst strstr_loop.simps) (simp add: Let_def)
  qed
qed

lemma strstr_eq:
  assumes "cstr m s xs" and "cstr m p ys" and "p \<noteq> 0"
  shows "strstr m s p = Some (case find_sub ys xs of None \<Rightarrow> 0 | Some i \<Rightarrow> s + of_nat i)"
proof (cases ys)
  case Nil
  then show ?thesis using assms by (cases xs) (simp_all add: strstr_def)
next
  case (Cons f ys')
  then show ?thesis
    using assms strstr_loop_first [of m p f ys' "s - 1" xs] unfolding diff_add_cancel by (simp add: strstr_def)
qed

text \<open>strstr returns for every string and pattern: the address of the first occurrence of the
  pattern, the string itself for an empty pattern, NULL when there is none.\<close>

theorem strstr_first:
  assumes "cstr m s xs" and "cstr m p ys" and "p \<noteq> 0"
  shows "strstr m s p = Some (case find_sub ys xs of None \<Rightarrow> 0 | Some i \<Rightarrow> s + of_nat i)"
  using assms by (rule strstr_eq)

theorem strstr_first_witness:
  "strstr (wrl (mem_of 0x1000 [65, 65, 66, 65, 66, 67]) 0x2000 [65, 66, 67]) 0x1000 0x2000 = Some 0x1003"
proof -
  let ?m = "wrl (mem_of 0x1000 [65, 65, 66, 65, 66, 67]) 0x2000 [65, 66, 67]"
  have "cstr ?m 0x1000 [65, 65, 66, 65, 66, 67]" "cstr ?m 0x2000 [65, 66, 67]" "(0x2000 :: u32) \<noteq> 0"
    by (simp_all add: mem_of_def)
  from strstr_first [OF this] show ?thesis by simp
qed

end
