(* ===== verification/AramCache.thy ===== *)
theory AramCache
  imports Arq MslStr
begin

text \<open>
  src/soa: the ARAM package cache, sixteen battle packages staged in ARAM and described by a
  table of 32-byte slots under a byte checksum. The table, the array of package names and every
  string lie in the game's flat big-endian memory, so they are read with the loads of
  \<open>Msl\<close>; the fetch goes through the request queue of \<open>Arq\<close>. The allocator and the ARAM
  status are parameters, and what happens between two reads of a volatile variable (the
  interrupts) is the parameter \<open>wait\<close>.
\<close>

definition aramCacheTable :: u32 where "aramCacheTable = 0x803165C8"
definition aramCacheNames :: u32 where "aramCacheNames = 0x802F91F8"
definition aramCacheReq :: u32 where "aramCacheReq = 0x803167CC"
definition aramCacheSaved :: u32 where "aramCacheSaved = 0x80800000"

text \<open>An AramSlot, as loaded from the table.\<close>

record aram_slot =
  as_valid :: u32
  as_owner :: u32
  as_priority :: u32
  as_staging :: u32
  as_aramAddr :: u32
  as_length :: u32
  as_callback :: u32

definition slot_of :: "cmem \<Rightarrow> u32 \<Rightarrow> aram_slot" where
  "slot_of m index =
     (let p = aramCacheTable + 32 * index
      in \<lparr>as_valid = rd32 m p, as_owner = rd32 m (p + 4), as_priority = rd32 m (p + 12),
          as_staging = rd32 m (p + 16), as_aramAddr = rd32 m (p + 20), as_length = rd32 m (p + 24),
          as_callback = rd32 m (p + 28)\<rparr>)"

record aram_cache =
  ac_mem :: cmem
  ac_checksum :: u32
  ac_done :: u32
  ac_arq :: arq

section \<open>aramcache.c\<close>

text \<open>The table is 16 slots of 32 bytes and a last word: 516 bytes.\<close>

definition aramCacheSave :: "cmem \<Rightarrow> cmem" where
  "aramCacheSave m = snd (memcpy m aramCacheSaved aramCacheTable 516)"

definition aramCacheRestore :: "cmem \<Rightarrow> cmem" where
  "aramCacheRestore m = snd (memcpy m aramCacheTable aramCacheSaved 516)"

definition aramCacheCallback :: "u32 \<Rightarrow> aram_cache \<Rightarrow> aram_cache" where
  "aramCacheCallback task s = s\<lparr>ac_done := 1\<rparr>"

section \<open>aramcache_valid.c\<close>

fun sum_loop :: "nat \<Rightarrow> cmem \<Rightarrow> u32 \<Rightarrow> u32 \<Rightarrow> u32" where
  "sum_loop 0 m p acc = acc"
| "sum_loop (Suc n) m p acc = sum_loop n m (p + 1) (acc + ucast (m p))"

definition aramCacheSum :: "cmem \<Rightarrow> u32" where
  "aramCacheSum m = sum_loop 516 m aramCacheTable 0"

definition aramCacheIntact :: "aram_cache \<Rightarrow> bool" where
  "aramCacheIntact s \<longleftrightarrow> ac_checksum s = aramCacheSum (ac_mem s)"

definition aramCacheValid :: "u32 \<Rightarrow> aram_cache \<Rightarrow> u32" where
  "aramCacheValid index s = (if aramCacheIntact s then as_valid (slot_of (ac_mem s) index) else 0)"

section \<open>aramcache_find.c\<close>

definition lower_char :: "u8 \<Rightarrow> u8" where
  "lower_char c = (if 65 \<le> c \<and> c \<le> 90 then c + 32 else c)"

partial_function (option) strlower_loop :: "cmem \<Rightarrow> u32 \<Rightarrow> u32 \<Rightarrow> cmem option" where
  "strlower_loop m p src =
     (if m src = 0 then Some (m(p := 0))
      else strlower_loop (m(p := lower_char (m src))) (p + 1) (src + 1))"

definition strlower :: "cmem \<Rightarrow> u32 \<Rightarrow> u32 \<Rightarrow> cmem option" where
  "strlower m dst src = (if dst \<noteq> 0 \<and> src \<noteq> 0 then strlower_loop m dst src else Some m)"

fun find_loop :: "cmem \<Rightarrow> u32 \<Rightarrow> nat list \<Rightarrow> int option" where
  "find_loop m lower [] = Some (-1)"
| "find_loop m lower (i # is) =
     (case strstr m (rd32 m (aramCacheNames + 4 * of_nat i)) lower of
        None \<Rightarrow> None
      | Some r \<Rightarrow> if r \<noteq> 0 then Some (int i) else find_loop m lower is)"

text \<open>\<open>lower\<close> is the address of the caller-invisible 64-byte array on the stack.\<close>

definition aramCacheFind :: "u32 \<Rightarrow> cmem \<Rightarrow> u32 \<Rightarrow> int option" where
  "aramCacheFind lower m name =
     (case strlower m lower name of None \<Rightarrow> None | Some m' \<Rightarrow> find_loop m' lower [0..<16])"

section \<open>aramcache_fetch.c\<close>

definition aramCacheSlotValid :: "u32 \<Rightarrow> aram_cache \<Rightarrow> u32" where
  "aramCacheSlotValid index s =
     (let intact = (ac_checksum s = aramCacheSum (ac_mem s))
      in if intact then as_valid (slot_of (ac_mem s) index) else 0)"

partial_function (option) spin ::
  "(aram_cache \<Rightarrow> bool) \<Rightarrow> (aram_cache \<Rightarrow> aram_cache) \<Rightarrow> aram_cache \<Rightarrow> aram_cache option" where
  "spin busy wait s = (if busy s then spin busy wait (wait s) else Some s)"

definition aramCacheFetch ::
  "(u32 \<Rightarrow> aram_cache \<Rightarrow> u32 \<times> aram_cache) \<Rightarrow> (aram_cache \<Rightarrow> bool) \<Rightarrow> (aram_cache \<Rightarrow> aram_cache) \<Rightarrow>
   u32 \<Rightarrow> aram_cache \<Rightarrow> (u32 \<times> aram_cache) option" where
  "aramCacheFetch alloc dma_busy wait index s =
     (if aramCacheSlotValid index s \<noteq> 0 then
        if as_valid (slot_of (ac_mem s) index) \<noteq> 0 then
          (case alloc (as_length (slot_of (ac_mem s) index)) s of (buf, s1) \<Rightarrow>
             if buf \<noteq> 0 then
               (case spin dma_busy wait s1 of
                  None \<Rightarrow> None
                | Some s2 \<Rightarrow>
                    let chunk = ARQGetChunkSize (ac_arq s2);
                        s3 = s2\<lparr>ac_arq := ARQSetChunkSize 32 (ac_arq s2), ac_done := 0\<rparr>;
                        slot = slot_of (ac_mem s3) index;
                        s4 = s3\<lparr>ac_arq := ARQPostRequest aramCacheReq (as_owner slot) 1 (as_priority slot)
                                  (as_aramAddr slot) buf (as_length slot) (as_callback slot) (ac_arq s3)\<rparr>
                    in (case spin (\<lambda>s. ac_done s = 0) wait s4 of
                          None \<Rightarrow> None
                        | Some s5 \<Rightarrow> Some (buf, s5\<lparr>ac_arq := ARQSetChunkSize chunk (ac_arq s5)\<rparr>)))
             else Some (0, s1))
        else Some (0, s)
      else Some (0, s))"

section \<open>The checksum\<close>

lemma sum_loop_sum: "sum_loop n m p acc = acc + (\<Sum>i<n. ucast (m (p + of_nat i)))"
proof (induction n arbitrary: p acc)
  case (Suc n)
  show ?case
    by (simp only: sum_loop.simps Suc sum.lessThan_Suc_shift) (simp add: add.assoc)
qed simp

lemma ucast_u8_u32_inject: "(ucast (a :: u8) :: u32) = ucast b \<longleftrightarrow> a = b"
  by (metis unat_ucast_u8 word_unat_eq_iff)

lemma sum_one_change:
  assumes "i < n" "n < 2 ^ 32" "m (p + of_nat i) \<noteq> b"
  shows "sum_loop n (m(p + of_nat i := b)) p acc \<noteq> sum_loop n m p acc"
proof -
  let ?m = "m(p + of_nat i := b)"
  have other: "?m (p + of_nat j) = m (p + of_nat j)" if "j \<in> {..<n} - {i}" for j
  proof -
    have "(of_nat j :: u32) \<noteq> of_nat i" using that assms(1,2)
      by (auto simp: word_of_nat_eq_iff take_bit_nat_eq_self)
    then show ?thesis by simp
  qed
  have "(\<Sum>j<n. ucast (?m (p + of_nat j)) :: u32) = ucast b + (\<Sum>j\<in>{..<n} - {i}. ucast (m (p + of_nat j)))"
    using assms(1) other by (subst sum.remove [of _ i]) auto
  moreover have "(\<Sum>j<n. ucast (m (p + of_nat j)) :: u32)
      = ucast (m (p + of_nat i)) + (\<Sum>j\<in>{..<n} - {i}. ucast (m (p + of_nat j)))"
    using assms(1) by (subst sum.remove [of _ i]) auto
  ultimately show ?thesis using assms(3) by (simp add: sum_loop_sum ucast_u8_u32_inject)
qed

text \<open>one damaged byte is always noticed: when the table's checksum holds and any one of its 516
  bytes is changed, no slot counts as valid any more and a fetch returns NULL without touching the
  allocator, the request queue or anything else.\<close>

theorem one_damaged_byte:
  assumes "aramCacheIntact s" and "i < 516" and "ac_mem s (aramCacheTable + of_nat i) \<noteq> b"
  shows "let s' = s\<lparr>ac_mem := (ac_mem s)(aramCacheTable + of_nat i := b)\<rparr>
    in (\<forall>index. aramCacheValid index s' = 0) \<and> (\<forall>index. aramCacheFetch alloc busy wait index s' = Some (0, s'))"
proof -
  have "aramCacheSum ((ac_mem s)(aramCacheTable + of_nat i := b)) \<noteq> aramCacheSum (ac_mem s)"
    unfolding aramCacheSum_def using assms(2,3) by (intro sum_one_change) simp_all
  then show ?thesis
    using assms(1) by (simp add: aramCacheIntact_def aramCacheValid_def aramCacheFetch_def aramCacheSlotValid_def Let_def)
qed

theorem one_damaged_byte_witness:
  "aramCacheFetch (\<lambda>n s. (0x80600000, s)) (\<lambda>s. False) id 0
     \<lparr>ac_mem = (\<lambda>_. 0)(aramCacheTable + of_nat 3 := 1), ac_checksum = 0, ac_done = 0, ac_arq = arq_zero\<rparr>
   = Some (0, \<lparr>ac_mem = (\<lambda>_. 0)(aramCacheTable + of_nat 3 := 1), ac_checksum = 0, ac_done = 0, ac_arq = arq_zero\<rparr>)"
proof -
  let ?s = "\<lparr>ac_mem = (\<lambda>_. 0), ac_checksum = 0, ac_done = 0, ac_arq = arq_zero\<rparr>"
  have "aramCacheIntact ?s" by (simp add: aramCacheIntact_def aramCacheSum_def sum_loop_sum)
  from one_damaged_byte [OF this, of 3 1 "\<lambda>n s. (0x80600000, s)" "\<lambda>s. False" id] show ?thesis
    by (simp add: Let_def)
qed

section \<open>Finding a package\<close>

lemma cstr_cong:
  "(\<And>j. j \<le> length bs \<Longrightarrow> m' (p + of_nat j) = m (p + of_nat j)) \<Longrightarrow> cstr m' p bs = cstr m p bs"
proof (induction bs arbitrary: p)
  case (Cons b bs)
  have "m' (p + 1 + of_nat j) = m (p + 1 + of_nat j)" if "j \<le> length bs" for j
    using Cons.prems [of "Suc j"] that by (simp add: add.assoc)
  from Cons.IH [OF this] Cons.prems [of 0] show ?case by simp
qed simp

lemma strlower_loop_lays:
  "cstr m src bs \<Longrightarrow> (\<And>i j. i \<le> length bs \<Longrightarrow> j \<le> length bs \<Longrightarrow> p + of_nat i \<noteq> src + of_nat j) \<Longrightarrow>
   strlower_loop m p src = Some (wrl m p (map lower_char bs @ [0]))"
proof (induction bs arbitrary: m p src)
  case Nil
  then show ?case by (subst strlower_loop.simps) simp
next
  case (Cons b bs)
  let ?m = "m(p := lower_char b)"
  have "?m (src + 1 + of_nat j) = m (src + 1 + of_nat j)" if "j \<le> length bs" for j
    using Cons.prems(2) [of 0 "Suc j"] that by (simp add: add.assoc)
  then have "cstr ?m (src + 1) bs \<longleftrightarrow> cstr m (src + 1) bs" by (rule cstr_cong)
  then have "cstr ?m (src + 1) bs" using Cons.prems(1) by simp
  moreover have "p + 1 + of_nat i \<noteq> src + 1 + of_nat j" if "i \<le> length bs" "j \<le> length bs" for i j
    using Cons.prems(2) [of "Suc i" "Suc j"] that by (simp add: add.assoc)
  ultimately have "strlower_loop ?m (p + 1) (src + 1) = Some (wrl ?m (p + 1) (map lower_char bs @ [0]))"
    by (rule Cons.IH)
  moreover have "m src = b" "b \<noteq> 0" using Cons.prems(1) by simp_all
  ultimately show ?case by (subst strlower_loop.simps) (simp only: if_False list.map append_Cons wrl.simps)
qed

text \<open>The copy is not limited to its 64-byte array: the terminator of a name of \<open>n\<close> characters goes
  to byte \<open>n\<close>, past the array for a name of 64 characters or more.\<close>

lemma strlower_past_array:
  assumes "cstr m src bs" "\<forall>i\<le>length bs. \<forall>j\<le>length bs. dst + of_nat i \<noteq> src + of_nat j" "dst \<noteq> 0" "src \<noteq> 0"
    and "64 \<le> length bs" "length bs < 2 ^ 32"
  shows "\<exists>m'. strlower m dst src = Some m' \<and> m' (dst + of_nat (length bs)) = 0"
proof -
  have "strlower m dst src = Some (wrl m dst (map lower_char bs @ [0]))"
    using assms strlower_loop_lays by (simp add: strlower_def)
  then show ?thesis by (simp add: wrl_append)
qed

lemma find_sub_sublist: "find_sub pat xs \<noteq> None \<longleftrightarrow> sublist pat xs"
  by (induction xs) (auto simp: sublist_Cons_right)

lemma find_sub_le: "find_sub pat xs = Some i \<Longrightarrow> i \<le> length xs"
  by (induction xs arbitrary: i) (auto split: if_splits)

text \<open>A string in memory away from address 0.\<close>

definition named :: "cmem \<Rightarrow> u32 \<Rightarrow> u8 list \<Rightarrow> bool" where
  "named m p bs \<longleftrightarrow> cstr m p bs \<and> (\<forall>j\<le>length bs. p + of_nat j \<noteq> 0)"

lemma strstr_named:
  assumes "named m s xs" "cstr m p ys" "p \<noteq> 0"
  shows "\<exists>r. strstr m s p = Some r \<and> (r \<noteq> 0 \<longleftrightarrow> sublist ys xs)"
proof -
  have "strstr m s p = Some (case find_sub ys xs of None \<Rightarrow> 0 | Some i \<Rightarrow> s + of_nat i)"
    using assms by (intro strstr_eq) (simp_all add: named_def)
  then show ?thesis
    using assms(1) find_sub_sublist [of ys xs] find_sub_le [of ys xs]
    by (auto simp: named_def split: option.splits)
qed

definition name_ptr :: "cmem \<Rightarrow> nat \<Rightarrow> u32" where
  "name_ptr m i = rd32 m (aramCacheNames + 4 * of_nat i)"

lemma find_loop_first:
  assumes "cstr m lower pat" "lower \<noteq> 0"
  shows "(\<And>i. i \<in> set is \<Longrightarrow> named m (name_ptr m i) (names i)) \<Longrightarrow>
    find_loop m lower is = Some (case List.find (\<lambda>i. sublist pat (names i)) is of None \<Rightarrow> -1 | Some i \<Rightarrow> int i)"
proof (induction "is")
  case (Cons i js)
  obtain r where "strstr m (name_ptr m i) lower = Some r" "r \<noteq> 0 \<longleftrightarrow> sublist pat (names i)"
    using strstr_named [OF Cons.prems assms, of i] by auto
  then show ?case using Cons by (simp add: name_ptr_def)
qed simp

definition span :: "u32 \<Rightarrow> nat \<Rightarrow> u32 set" where
  "span a n = (\<lambda>i. a + of_nat i) ` {..<n}"

lemma span_iff: "x \<in> span a n \<longleftrightarrow> (\<exists>i<n. x = a + of_nat i)"
  by (auto simp: span_def)

lemma span_mem: "i < n \<Longrightarrow> a + of_nat i \<in> span a n"
  by (auto simp: span_def)

lemma span_apart: "x \<in> span a n \<Longrightarrow> span a n \<inter> span b k = {} \<Longrightarrow> l \<le> k \<Longrightarrow> x \<notin> span b l"
  unfolding span_iff by (metis (no_types) disjoint_iff order_less_le_trans span_mem)

lemma wrl_outside_span: "x \<notin> span a (length bs) \<Longrightarrow> wrl m a bs x = m x"
  by (rule wrl_outside) (auto simp: span_iff)

lemma cstr_outside:
  assumes "span p (Suc (length xs)) \<inter> span a n = {}" "length bs \<le> n"
  shows "cstr (wrl m a bs) p xs = cstr m p xs"
proof (rule cstr_cong)
  fix j assume "j \<le> length xs"
  then have "p + of_nat j \<in> span p (Suc (length xs))" by (intro span_mem) simp
  then have "p + of_nat j \<notin> span a (length bs)" using assms by (rule span_apart)
  then show "wrl m a bs (p + of_nat j) = m (p + of_nat j)" by (rule wrl_outside_span)
qed

lemma cstr_wrl:
  "\<forall>b\<in>set bs. b \<noteq> 0 \<Longrightarrow> length bs < 2 ^ 32 \<Longrightarrow> cstr (wrl m a (bs @ [0])) a bs"
proof (induction bs arbitrary: m a)
  case (Cons b bs)
  have "a \<noteq> a + 1 + of_nat i" if "i < Suc (length bs)" for i
  proof -
    have "(of_nat (Suc i) :: u32) \<noteq> 0"
      using that Cons.prems(2) by (simp only: word_of_nat_eq_0_iff) (auto dest: dvd_imp_le)
    then show ?thesis by (simp add: add.assoc)
  qed
  then have "wrl (m(a := b)) (a + 1) (bs @ [0]) a = b" by (subst wrl_outside) simp_all
  then show ?case using Cons by simp
qed simp

text \<open>The package names in memory, the name asked for, and the array on the stack, all apart.\<close>

definition find_layout :: "cmem \<Rightarrow> u32 \<Rightarrow> u32 \<Rightarrow> u8 list \<Rightarrow> (nat \<Rightarrow> u8 list) \<Rightarrow> bool" where
  "find_layout m lower name bs names \<longleftrightarrow>
     cstr m name bs \<and> name \<noteq> 0 \<and> lower \<noteq> 0 \<and> length bs < 64
     \<and> span name (Suc (length bs)) \<inter> span lower 64 = {}
     \<and> span aramCacheNames 64 \<inter> span lower 64 = {}
     \<and> (\<forall>i<16. named m (name_ptr m i) (names i) \<and> span (name_ptr m i) (Suc (length (names i))) \<inter> span lower 64 = {})"

lemma lower_char_nonzero: "c \<noteq> 0 \<Longrightarrow> lower_char c \<noteq> 0"
proof -
  have "c + 32 \<noteq> 0" if "c \<le> 90"
  proof -
    have "unat (c + 32) = unat c + 32" using that by (simp add: unat_word_ariths word_le_nat_alt)
    then show ?thesis by auto
  qed
  then show "c \<noteq> 0 \<Longrightarrow> ?thesis" by (auto simp: lower_char_def)
qed

lemma cstr_nonzero_set: "cstr m p bs \<Longrightarrow> \<forall>b\<in>set bs. b \<noteq> 0"
  by (induction bs arbitrary: p) auto

lemma name_ptr_outside:
  assumes "span aramCacheNames 64 \<inter> span a n = {}" "length bs \<le> n" "i < 16"
  shows "name_ptr (wrl m a bs) i = name_ptr m i"
proof -
  have "wrl m a bs (aramCacheNames + 4 * of_nat i + of_nat k) = m (aramCacheNames + 4 * of_nat i + of_nat k)" if "k < 4" for k
  proof (rule wrl_outside_span)
    have "aramCacheNames + 4 * of_nat i + of_nat k = aramCacheNames + of_nat (4 * i + k)" by simp
    moreover have "4 * i + k < 64" using assms(3) that by simp
    ultimately have "aramCacheNames + 4 * of_nat i + of_nat k \<in> span aramCacheNames 64" unfolding span_iff by blast
    then show "aramCacheNames + 4 * of_nat i + of_nat k \<notin> span a (length bs)" using assms(1,2) by (rule span_apart)
  qed
  from this [of 0] this [of 1] this [of 2] this [of 3] show ?thesis
    by (simp add: name_ptr_def rd32_def)
qed

text \<open>looking a package up by a name of up to 63 characters gives the index of the first of the
  sixteen packages whose path contains the name in lower case, or -1 when none does.\<close>

theorem find_first_package:
  assumes "find_layout m lower name bs names"
  shows "aramCacheFind lower m name = Some
    (case List.find (\<lambda>i. sublist (map lower_char bs) (names i)) [0..<16] of None \<Rightarrow> -1 | Some i \<Rightarrow> int i)"
proof -
  let ?bs = "map lower_char bs" and ?m = "wrl m lower (map lower_char bs @ [0])"
  note L = assms [unfolded find_layout_def]
  have len: "length (?bs @ [0]) \<le> 64" using L by simp
  have "p + of_nat i \<noteq> q + of_nat j" if "span q (Suc n) \<inter> span p 64 = {}" "i \<le> length bs" "j \<le> n" for p q i j n
  proof -
    have "p + of_nat i \<in> span p 64" "q + of_nat j \<in> span q (Suc n)" using that L by (simp_all add: span_mem)
    then show ?thesis using that(1) by auto
  qed
  then have "strlower m lower name = Some ?m"
    using L unfolding strlower_def by (auto intro!: strlower_loop_lays)
  moreover have "cstr ?m lower ?bs"
    using L cstr_nonzero_set [of m name bs] by (intro cstr_wrl) (auto simp: lower_char_nonzero)
  moreover have "named ?m (name_ptr ?m i) (names i)" if "i < 16" for i
    using L that len unfolding named_def
    by (simp add: name_ptr_outside [where n = 64] cstr_outside [where n = 64])
  ultimately show ?thesis
    using L find_loop_first [of ?m lower ?bs "[0..<16]" names] by (simp add: aramCacheFind_def)
qed

lemma span_disjoint:
  assumes "unat a + n \<le> unat b" "unat b + k \<le> 2 ^ 32"
  shows "span a n \<inter> span b k = {}" and "span b k \<inter> span a n = {}"
proof -
  have u: "unat (a + of_nat i) = unat a + i" if "i < n" for i
    using that assms by (intro unat_add_le) simp_all
  have v: "unat (b + of_nat i) = unat b + i" if "i < k" for i
    using that assms by (intro unat_add_le) simp_all
  have "a + of_nat i \<noteq> b + of_nat j" if "i < n" "j < k" for i j
  proof -
    have "unat (a + of_nat i) < unat (b + of_nat j)"
      unfolding u [OF that(1)] v [OF that(2)] using that assms(1) by linarith
    then show ?thesis by auto
  qed
  then show "span a n \<inter> span b k = {}" "span b k \<inter> span a n = {}"
    by (fastforce simp: span_def)+
qed

theorem find_first_package_witness:
  "aramCacheFind 0x9000 ((\<lambda>_. 1)(0x01010101 := 97, 0x01010102 := 98, 0x01010103 := 0, 0x2000 := 66, 0x2001 := 0)) 0x2000 = Some 0"
proof -
  let ?m = "(\<lambda>_. 1)(0x01010101 := 97, 0x01010102 := 98, 0x01010103 := 0, 0x2000 := 66, 0x2001 := 0) :: cmem"
  have ptr: "name_ptr ?m i = 0x01010101" if "i < 16" for i
  proof -
    have "?m (aramCacheNames + 4 * of_nat i + of_nat k) = 1" if "k < 4" for k
    proof -
      let ?y = "aramCacheNames + 4 * of_nat i + of_nat k"
      have "?y = aramCacheNames + of_nat (4 * i + k)" by simp
      also have "unat \<dots> = unat aramCacheNames + (4 * i + k)"
        using that \<open>i < 16\<close> by (intro unat_add_le) (simp add: aramCacheNames_def)
      finally have "unat aramCacheNames \<le> unat ?y" by simp
      then have ne: "?y \<noteq> x" if "unat x < unat aramCacheNames" for x using that by auto
      have "?y \<noteq> 0x01010101" "?y \<noteq> 0x01010102" "?y \<noteq> 0x01010103" "?y \<noteq> 0x2000" "?y \<noteq> 0x2001"
        by (rule ne, simp add: aramCacheNames_def)+
      then show ?thesis by (simp only: fun_upd_apply if_False)
    qed
    from this [of 0] this [of 1] this [of 2] this [of 3] show ?thesis by (simp add: name_ptr_def rd32_def get32_def)
  qed
  have all: "(\<forall>j\<le>Suc (Suc 0). P j) \<longleftrightarrow> P 0 \<and> P 1 \<and> P 2" for P :: "nat \<Rightarrow> bool"
    by (auto simp: le_Suc_eq numeral_2_eq_2)
  have "named ?m 0x01010101 [97, 98]" by (simp add: named_def all)
  then have "find_layout ?m 0x9000 0x2000 [66] (\<lambda>_. [97, 98])"
    by (simp add: find_layout_def ptr span_disjoint aramCacheNames_def)
  from find_first_package [OF this] show ?thesis
    by (simp add: lower_char_def upt_rec [of 0] sublist_Cons_right)
qed

section \<open>Fetching a package\<close>

text \<open>The completion interrupt: the queue's service routine runs, and with it the callback stored
  for the request; only the cache's own callback (\<open>fn_8022AE88\<close>) has an effect here.\<close>

definition cache_cb :: u32 where "cache_cb = 0x8022AE88"

definition completion :: "aram_cache \<Rightarrow> aram_cache" where
  "completion s =
     (let q = ac_arq s; f = (if CallbackHi q \<noteq> 0 then CallbackHi q else CallbackLo q);
          s' = s\<lparr>ac_arq := ARQInterruptServiceRoutine no_cb q\<rparr>
      in if f = cache_cb then aramCacheCallback (PendingLo q) s' else s')"

lemma isr_chunk_size: "ChunkSize (ARQInterruptServiceRoutine no_cb q) = ChunkSize q"
  by (simp add: ARQInterruptServiceRoutine_def ARQPopTaskQueueHi_def ARQServiceQueueLo_def start_request_event
      call_back_def no_cb_def emit_def Let_def)

lemma set_chunk_32: "ARQSetChunkSize 32 q = q\<lparr>ChunkSize := 32\<rparr>"
  by (simp add: ARQSetChunkSize_def)

lemma idle_chunk [simp]: "idle (q\<lparr>ChunkSize := c\<rparr>) = idle q"
  by (simp add: idle_def)

lemma spin_low:
  assumes "idle q" "t \<noteq> 0" "ChunkSize q \<noteq> 0" "rq_callback r = cache_cb"
    and n: "n = chunk_count (unat (rq_length r)) (unat (ChunkSize q))"
  shows "j < n \<Longrightarrow> spin (\<lambda>s. ac_done s = 0) completion (s\<lparr>ac_done := 0, ac_arq := lo_state q t r j\<rparr>)
    = Some (s\<lparr>ac_arq := ARQInterruptServiceRoutine no_cb (lo_state q t r (n - 1)), ac_done := 1\<rparr>)"
proof (induction "n - j" arbitrary: j)
  case (Suc k)
  have cb: "CallbackHi (lo_state q t r j) = 0" "CallbackLo (lo_state q t r j) = (if Suc j = n then cache_cb else 0)"
    using assms by (simp_all add: lo_state_def idle_def Let_def)
  have nz: "cache_cb \<noteq> 0" by (simp add: cache_cb_def)
  show ?case
  proof (cases "Suc j = n")
    case True
    then have "n - 1 = j" by simp
    then show ?thesis using cb nz True
      by (subst spin.simps, subst spin.simps) (simp add: completion_def aramCacheCallback_def Let_def)
  next
    case False
    then have "Suc j < n" using Suc.prems by simp
    then have step: "ARQInterruptServiceRoutine no_cb (lo_state q t r j) = lo_state q t r (Suc j)"
      using assms by (intro isr_low_step) simp_all
    have "completion (s\<lparr>ac_done := 0, ac_arq := lo_state q t r j\<rparr>) = s\<lparr>ac_done := 0, ac_arq := lo_state q t r (Suc j)\<rparr>"
      using cb nz False step by (simp add: completion_def Let_def)
    then show ?thesis
      using Suc.hyps(1) [of "Suc j"] Suc.hyps(2) \<open>Suc j < n\<close> by (subst spin.simps) simp
  qed
qed simp

lemma post_high_idle:
  assumes "idle q" "t \<noteq> 0" and r: "r = posted (heap q t) owner ty src dst len cb"
  shows "ARQPostRequest t owner ty ARQ_PRIORITY_HIGH src dst len cb q
    = q\<lparr>heap := (heap q)(t := r), TailHi := t, QueueHi := 0, PendingHi := t, CallbackHi := rq_callback r,
        events := events q @ [start_event ty src dst len]\<rparr>"
  using assms unfolding idle_def posted_def
  by (simp add: ARQPostRequest_def ARQPopTaskQueueHi_def start_request_event emit_def ARQ_PRIORITY_LOW_def
      ARQ_PRIORITY_HIGH_def Let_def)

lemma isr_high:
  assumes "idle q" "f \<noteq> 0"
  shows "ARQInterruptServiceRoutine no_cb (q\<lparr>heap := h, TailHi := t, QueueHi := 0, PendingHi := t, CallbackHi := f, events := es\<rparr>)
    = q\<lparr>heap := h, TailHi := t, events := es @ [Callback f t]\<rparr>"
  using assms
  by (simp add: idle_def ARQInterruptServiceRoutine_def ARQPopTaskQueueHi_def ARQServiceQueueLo_def call_back_def no_cb_def
      emit_def Let_def)

text \<open>The transfers of a package: whole at high priority, in 32-byte chunks at low priority.\<close>

definition package_transfers :: "u32 \<Rightarrow> u32 \<Rightarrow> u32 \<Rightarrow> u32 \<Rightarrow> arq_event list" where
  "package_transfers priority from buf len =
     (if priority = ARQ_PRIORITY_HIGH then [StartDMA 1 buf from len]
      else map (\<lambda>i. StartDMA 1 (buf + of_nat i * 32) (from + of_nat i * 32) (of_nat (min 32 (unat len - i * 32))))
             [0..<chunk_count (unat len) 32])"

definition fetched :: "u32 \<Rightarrow> aram_slot \<Rightarrow> aram_cache \<Rightarrow> aram_cache \<Rightarrow> bool" where
  "fetched buf slot s s' \<longleftrightarrow>
     events (ac_arq s') = events (ac_arq s)
        @ package_transfers (as_priority slot) (as_aramAddr slot) buf (as_length slot) @ [Callback cache_cb aramCacheReq]
     \<and> ChunkSize (ac_arq s') = ChunkSize (ac_arq s) \<and> idle (ac_arq s') \<and> ac_mem s' = ac_mem s \<and> ac_done s' = 1"

lemma set_chunk_back: "c mod 32 = 0 \<Longrightarrow> ARQSetChunkSize c q = q\<lparr>ChunkSize := c\<rparr>"
  by (simp add: ARQSetChunkSize_def)

lemma fetch_unfold:
  assumes "aramCacheIntact s" "as_valid (slot_of (ac_mem s) index) \<noteq> 0" "ChunkSize (ac_arq s) mod 32 = 0"
    and "alloc (as_length (slot_of (ac_mem s) index)) s = (buf, s)" "buf \<noteq> 0" "\<not> busy s"
    and slot: "slot = slot_of (ac_mem s) index"
    and q: "q = ARQPostRequest aramCacheReq (as_owner slot) 1 (as_priority slot) (as_aramAddr slot) buf (as_length slot)
       (as_callback slot) ((ac_arq s)\<lparr>ChunkSize := 32\<rparr>)"
    and spun: "spin (\<lambda>s. ac_done s = 0) wait (s\<lparr>ac_done := 0, ac_arq := q\<rparr>) = Some s5"
  shows "aramCacheFetch alloc busy wait index s
    = Some (buf, s5\<lparr>ac_arq := (ac_arq s5)\<lparr>ChunkSize := ChunkSize (ac_arq s)\<rparr>\<rparr>)"
proof -
  have "spin busy wait s = Some s" using assms(6) by (subst spin.simps) simp
  moreover have "aramCacheSlotValid index s \<noteq> 0"
    using assms(1,2) by (simp add: aramCacheSlotValid_def aramCacheIntact_def)
  ultimately show ?thesis
    using assms(2,4,5) spun
    by (simp add: aramCacheFetch_def Let_def slot ARQGetChunkSize_def set_chunk_back [OF assms(3)] set_chunk_32 q)
qed

text \<open>C32: fetching an intact package through an idle queue returns the allocated buffer: the whole
  package is transferred from its ARAM address into the buffer exactly once, in 32-byte chunks or
  whole by its priority, the completion callback runs once, and the queue is left idle with the
  chunk size it had.\<close>

theorem fetch_transfers_package:
  assumes "aramCacheIntact s" and "as_valid (slot_of (ac_mem s) index) \<noteq> 0"
    and "idle (ac_arq s)" and "ChunkSize (ac_arq s) mod 32 = 0"
    and "as_priority (slot_of (ac_mem s) index) \<in> {ARQ_PRIORITY_LOW, ARQ_PRIORITY_HIGH}"
    and "as_callback (slot_of (ac_mem s) index) = cache_cb"
    and "alloc (as_length (slot_of (ac_mem s) index)) s = (buf, s)" and "buf \<noteq> 0" and "\<not> busy s"
  shows "\<exists>s'. aramCacheFetch alloc busy completion index s = Some (buf, s') \<and> fetched buf (slot_of (ac_mem s) index) s s'"
proof -
  define slot where "slot = slot_of (ac_mem s) index"
  define q0 where "q0 = (ac_arq s)\<lparr>ChunkSize := 32\<rparr>"
  define r where "r = posted (heap q0 aramCacheReq) (as_owner slot) 1 (as_aramAddr slot) buf (as_length slot) cache_cb"
  note F = fetch_unfold [where alloc = alloc and busy = busy and index = index, OF assms(1,2,4,7-9) refl refl]
  have nz: "cache_cb \<noteq> 0" "aramCacheReq \<noteq> 0" by (simp_all add: cache_cb_def aramCacheReq_def)
  have f: "rq_length r = as_length slot" "rq_source r = as_aramAddr slot" "rq_dest r = buf" "rq_type r = 1" "rq_callback r = cache_cb"
    by (simp_all add: r_def posted_def nz)
  have q0: "idle q0" "ChunkSize q0 = 32" "events q0 = events (ac_arq s)" using assms(3) by (simp_all add: q0_def)
  have ev: "start_event 1 a b l = StartDMA 1 b a l" for a b l by (simp add: start_event_def ARQ_TYPE_MRAM_TO_ARAM_def)
  let ?post = "ARQPostRequest aramCacheReq (as_owner slot) 1 (as_priority slot) (as_aramAddr slot) buf (as_length slot)
    (as_callback slot) q0"
  let ?ts = "package_transfers (as_priority slot) (as_aramAddr slot) buf (as_length slot)"
  have "\<exists>z. spin (\<lambda>s. ac_done s = 0) completion (s\<lparr>ac_done := 0, ac_arq := ?post\<rparr>) = Some (s\<lparr>ac_arq := z, ac_done := 1\<rparr>)
      \<and> events z = events (ac_arq s) @ ?ts @ [Callback cache_cb aramCacheReq] \<and> idle z"
  proof (cases "as_priority slot = ARQ_PRIORITY_HIGH")
    case True
    let ?q = "q0\<lparr>heap := (heap q0)(aramCacheReq := r), TailHi := aramCacheReq, QueueHi := 0, PendingHi := aramCacheReq,
      CallbackHi := cache_cb, events := events q0 @ [start_event 1 (as_aramAddr slot) buf (as_length slot)]\<rparr>"
    have "?post = ?q"
      using post_high_idle [OF q0(1) nz(2) r_def] True assms(6) by (simp add: slot_def f)
    moreover have "spin (\<lambda>s. ac_done s = 0) completion (s\<lparr>ac_done := 0, ac_arq := ?q\<rparr>)
        = Some (s\<lparr>ac_arq := ARQInterruptServiceRoutine no_cb ?q, ac_done := 1\<rparr>)"
      using nz by (subst spin.simps, subst spin.simps) (simp add: completion_def aramCacheCallback_def Let_def)
    moreover have "events (ARQInterruptServiceRoutine no_cb ?q) = events (ac_arq s) @ ?ts @ [Callback cache_cb aramCacheReq]"
      unfolding isr_high [OF q0(1) nz(1)] using True q0(3) by (simp add: package_transfers_def ev)
    moreover have "idle (ARQInterruptServiceRoutine no_cb ?q)"
      unfolding isr_high [OF q0(1) nz(1)] using q0(1) by (simp add: idle_def)
    ultimately show ?thesis by (intro exI [of _ "ARQInterruptServiceRoutine no_cb ?q"]) simp
  next
    case False
    then have low: "as_priority slot = ARQ_PRIORITY_LOW" using assms(5) by (simp add: slot_def)
    define n where "n = chunk_count (unat (as_length slot)) 32"
    have n: "n = chunk_count (unat (rq_length r)) (unat (ChunkSize q0))" "Suc (n - 1) = n" "n - 1 < n"
      by (simp_all add: n_def f q0 chunk_count_def)
    let ?z = "ARQInterruptServiceRoutine no_cb (lo_state q0 aramCacheReq r (n - 1))"
    have "?post = lo_state q0 aramCacheReq r 0"
      using post_low_idle [OF q0(1) nz(2) _ r_def] low assms(6) q0(2) by (simp add: slot_def)
    moreover have "spin (\<lambda>s. ac_done s = 0) completion (s\<lparr>ac_done := 0, ac_arq := lo_state q0 aramCacheReq r 0\<rparr>)
        = Some (s\<lparr>ac_arq := ?z, ac_done := 1\<rparr>)"
      using q0 nz f n by (intro spin_low) simp_all
    moreover have "chunk_event r (ChunkSize q0) = (\<lambda>i. StartDMA 1 (buf + of_nat i * 32) (as_aramAddr slot + of_nat i * 32)
        (of_nat (min 32 (unat (as_length slot) - i * 32))))"
      by (simp add: chunk_event_def ev f q0(2) fun_eq_iff)
    then have "map (chunk_event r (ChunkSize q0)) [0..<n] = ?ts"
      using False by (simp add: package_transfers_def n_def)
    then have "events ?z = events (ac_arq s) @ ?ts @ [Callback cache_cb aramCacheReq] \<and> idle ?z"
      using isr_low_last [OF q0(1) nz(2), of r "n - 1"] n nz(1) by (simp only: f q0(3) n(2) simp_thms)
    ultimately show ?thesis by (intro exI [of _ ?z]) simp
  qed
  then obtain z where z: "spin (\<lambda>s. ac_done s = 0) completion (s\<lparr>ac_done := 0, ac_arq := ?post\<rparr>) = Some (s\<lparr>ac_arq := z, ac_done := 1\<rparr>)"
    "events z = events (ac_arq s) @ ?ts @ [Callback cache_cb aramCacheReq]" "idle z" by blast
  show ?thesis
    using F [folded slot_def q0_def, OF z(1)] z(2,3) unfolding slot_def [symmetric] by (simp add: fetched_def)
qed

theorem fetch_transfers_package_witness:
  "\<exists>m s'. let s = \<lparr>ac_mem = m, ac_checksum = aramCacheSum m, ac_done = 0, ac_arq = arq_zero\<rparr>
     in aramCacheFetch (\<lambda>n s. (0x80600000, s)) (\<lambda>s. False) completion 0 s = Some (0x80600000, s')
      \<and> events (ac_arq s') = [RegisterVersion, SetDMACallback, StartDMA 1 0x80600000 0x8000 32,
           StartDMA 1 0x80600020 0x8020 8, Callback cache_cb aramCacheReq]"
proof -
  let ?m = "(\<lambda>_. 0)(0x803165CB := 1, 0x803165DE := 0x80, 0x803165E3 := 40, 0x803165E4 := 0x80, 0x803165E5 := 0x22,
    0x803165E6 := 0xAE, 0x803165E7 := 0x88) :: cmem"
  let ?s = "\<lparr>ac_mem = ?m, ac_checksum = aramCacheSum ?m, ac_done = 0, ac_arq = arq_zero\<rparr>"
  have slot: "as_valid (slot_of ?m 0) = 1" "as_priority (slot_of ?m 0) = 0" "as_aramAddr (slot_of ?m 0) = 0x8000"
    "as_length (slot_of ?m 0) = 40" "as_callback (slot_of ?m 0) = cache_cb"
    by (simp_all add: slot_of_def rd32_def get32_def aramCacheTable_def cache_cb_def Let_def)
  have z: "idle arq_zero" "ChunkSize arq_zero = 4096" "events arq_zero = [RegisterVersion, SetDMACallback]"
    by (simp_all add: arq_zero_def ARQInit_def idle_def emit_def ARQ_CHUNK_SIZE_DEFAULT_def)
  have n: "package_transfers 0 0x8000 0x80600000 40 = [StartDMA 1 0x80600000 0x8000 32, StartDMA 1 0x80600020 0x8020 8]"
    by (simp add: package_transfers_def ARQ_PRIORITY_HIGH_def chunk_count_def upt_rec)
  have "aramCacheIntact ?s" by (simp add: aramCacheIntact_def)
  then obtain s' where "aramCacheFetch (\<lambda>n s. (0x80600000, s)) (\<lambda>s. False) completion 0 ?s = Some (0x80600000, s')"
    "fetched 0x80600000 (slot_of ?m 0) ?s s'"
    using fetch_transfers_package [of ?s 0 "\<lambda>n s. (0x80600000, s)" "0x80600000" "\<lambda>s. False"]
    by (auto simp: slot z ARQ_PRIORITY_LOW_def)
  then show ?thesis by (auto simp: Let_def fetched_def slot n z)
qed

end
