(* ===== verification/MslMem.thy ===== *)
theory MslMem
  imports MslStr
begin

text \<open>
  The memory routines of Msl: memcpy and memmove copy as if through a buffer when the regions
  overlap, the word-wise fill of fillmem.c is the byte-wise one, wctomb writes UTF-8, strtol
  saturates, and the string reader's unget undoes its get.
\<close>

section \<open>Copying\<close>

text \<open>The bytes from \<open>lo\<close> to \<open>hi\<close> of \<open>dst\<close> are the ones that were at \<open>src\<close>; nothing else changes.\<close>

definition is_copy :: "cmem \<Rightarrow> cmem \<Rightarrow> u32 \<Rightarrow> u32 \<Rightarrow> nat \<Rightarrow> nat \<Rightarrow> bool" where
  "is_copy m m' dst src lo hi \<longleftrightarrow>
     (\<forall>i. lo \<le> i \<and> i < hi \<longrightarrow> m' (dst + of_nat i) = m (src + of_nat i))
     \<and> (\<forall>x. (\<forall>i. lo \<le> i \<and> i < hi \<longrightarrow> x \<noteq> dst + of_nat i) \<longrightarrow> m' x = m x)"

lemma copy_fwd_app: "copy_fwd (n + k) m q p = copy_fwd k (copy_fwd n m q p) (q + of_nat n) (p + of_nat n)"
  by (induction n arbitrary: m q p) (simp_all add: add.assoc)

lemma copy_bwd_app: "copy_bwd (n + k) m q p = copy_bwd k (copy_bwd n m q p) (q - of_nat n) (p - of_nat n)"
  by (induction n arbitrary: m q p) (simp_all add: diff_diff_eq)

lemma copy_bwd_last:
  "copy_bwd (Suc k) m q p = (copy_bwd k m q p)(q - of_nat k - 1 := copy_bwd k m q p (p - of_nat k - 1))"
  using copy_bwd_app [of k "Suc 0" m q p] by simp

lemma off_inj: "i < 2 ^ 32 \<Longrightarrow> j < 2 ^ 32 \<Longrightarrow> (a :: u32) + of_nat i = a + of_nat j \<longleftrightarrow> i = j"
  using of_nat_inj_on_word [of i j, where 'a = 32] by simp

lemma off_nat: "unat a + i < 2 ^ 32 \<Longrightarrow> unat ((a :: u32) + of_nat i) = unat a + i"
  by (rule unat_add_le) simp

lemma off_neq:
  assumes "unat a + i < 2 ^ 32" "unat b + j < 2 ^ 32" "unat a + i \<noteq> unat b + j"
  shows "(a :: u32) + of_nat i \<noteq> b + of_nat j"
  using off_nat [OF assms(1)] off_nat [OF assms(2)] assms(3) by metis

text \<open>Forwards, from a source not below the destination.\<close>

lemma copy_fwd_is_copy:
  assumes "dst \<le> src" "unat src + n \<le> 2 ^ 32"
  shows "is_copy m (copy_fwd n m (dst - 1) (src - 1)) dst src 0 n"
  using assms(2)
proof (induction n)
  case (Suc n)
  let ?m = "copy_fwd n m (dst - 1) (src - 1)"
  have le: "unat dst \<le> unat src" using assms(1) by (simp add: word_le_nat_alt)
  have IH: "is_copy m ?m dst src 0 n" using Suc by simp
  have "copy_fwd (Suc n) m (dst - 1) (src - 1) = ?m(dst + of_nat n := ?m (src + of_nat n))"
    using copy_fwd_app [of n 1 m "dst - 1" "src - 1"] by simp
  moreover have "src + of_nat n \<noteq> dst + of_nat i" if "i < n" for i
    using that Suc.prems le by (intro off_neq) auto
  then have "?m (src + of_nat n) = m (src + of_nat n)"
    using IH unfolding is_copy_def by blast
  moreover have "dst + of_nat i \<noteq> dst + of_nat n" if "i < n" for i
    using that Suc.prems le by (intro off_neq) auto
  ultimately show ?case
    using IH by (auto simp: is_copy_def less_Suc_eq)
qed (simp add: is_copy_def)

lemma is_copy_extend:
  assumes "is_copy m m0 dst src (Suc j) n" "j < n" "m0 (src + of_nat j) = m (src + of_nat j)"
    and apart: "\<And>i. Suc j \<le> i \<Longrightarrow> i < n \<Longrightarrow> dst + of_nat i \<noteq> dst + of_nat j"
  shows "is_copy m (m0(dst + of_nat j := m0 (src + of_nat j))) dst src j n"
  unfolding is_copy_def
proof (intro conjI allI impI)
  fix i
  assume i: "j \<le> i \<and> i < n"
  show "(m0(dst + of_nat j := m0 (src + of_nat j))) (dst + of_nat i) = m (src + of_nat i)"
  proof (cases "i = j")
    case False
    then have "Suc j \<le> i" using i by simp
    then show ?thesis using assms(1) i apart [of i] unfolding is_copy_def by simp
  qed (simp add: assms(3))
next
  fix x
  assume x: "\<forall>i. j \<le> i \<and> i < n \<longrightarrow> x \<noteq> dst + of_nat i"
  then have "x \<noteq> dst + of_nat j" "\<forall>i. Suc j \<le> i \<and> i < n \<longrightarrow> x \<noteq> dst + of_nat i"
    using assms(2) by auto
  then show "(m0(dst + of_nat j := m0 (src + of_nat j))) x = m x"
    using assms(1) unfolding is_copy_def by simp
qed

text \<open>Backwards, from a source below the destination: the last bytes first.\<close>

lemma copy_bwd_is_copy:
  assumes "src < dst" "unat dst + n \<le> 2 ^ 32" "k \<le> n"
  shows "is_copy m (copy_bwd k m (dst + of_nat n) (src + of_nat n)) dst src (n - k) n"
  using assms(3)
proof (induction k)
  case (Suc k)
  let ?m = "copy_bwd k m (dst + of_nat n) (src + of_nat n)"
  let ?j = "n - Suc k"
  have lt: "unat src < unat dst" using assms(1) by (simp add: word_less_nat_alt)
  have IH: "is_copy m ?m dst src (n - k) n" using Suc by simp
  have j: "n - k = Suc ?j" "?j < n" using Suc.prems by simp_all
  have bk: "a + of_nat n - of_nat k - 1 = a + of_nat ?j" for a :: u32
  proof -
    have "(of_nat n :: u32) = of_nat (?j + 1 + k)" using Suc.prems by simp
    then show ?thesis by simp
  qed
  have m': "copy_bwd (Suc k) m (dst + of_nat n) (src + of_nat n) = ?m(dst + of_nat ?j := ?m (src + of_nat ?j))"
    unfolding copy_bwd_last bk ..
  have "src + of_nat ?j \<noteq> dst + of_nat i" if "Suc ?j \<le> i" "i < n" for i
    using that assms(2) lt by (intro off_neq) auto
  then have c: "?m (src + of_nat ?j) = m (src + of_nat ?j)"
    using IH unfolding is_copy_def j by blast
  have d: "dst + of_nat i \<noteq> dst + of_nat ?j" if "Suc ?j \<le> i" "i < n" for i
    using that assms(2) by (intro off_neq) auto
  show ?case
    unfolding m' using IH c d j by (intro is_copy_extend) simp_all
qed (auto simp: is_copy_def)

text \<open>memcpy, in either direction, is a copy through a buffer: also when the two regions
  overlap, the destination ends with the bytes the source had before, and no other byte changes;
  memmove below its long-copy threshold is the same.\<close>

theorem memcpy_overlap:
  assumes "unat src + unat n \<le> 2 ^ 32" and "unat dst + unat n \<le> 2 ^ 32"
  shows "fst (memcpy m dst src n) = dst \<and> is_copy m (snd (memcpy m dst src n)) dst src 0 (unat n)
    \<and> (n < 32 \<longrightarrow> memmove lc m dst src n = memcpy m dst src n)"
proof (cases "src < dst")
  case True
  then have nle: "\<not> dst \<le> src" by (simp only: not_le)
  then have "memcpy m dst src n = (dst, copy_bwd (unat n) m (dst + n) (src + n))"
    by (simp only: memcpy_def if_False)
  moreover have "is_copy m (copy_bwd (unat n) m (dst + n) (src + n)) dst src 0 (unat n)"
    using copy_bwd_is_copy [OF True assms(2), of "unat n" m] by simp
  ultimately show ?thesis using True nle by (auto simp: memmove_def Let_def dest: leD)
next
  case False
  then have "memcpy m dst src n = (dst, copy_fwd (unat n) m (dst - 1) (src - 1))"
    by (simp add: memcpy_def not_less)
  moreover have "is_copy m (copy_fwd (unat n) m (dst - 1) (src - 1)) dst src 0 (unat n)"
    using copy_fwd_is_copy [of dst src "unat n" m] False assms(1) by (simp add: not_less)
  ultimately show ?thesis using False by (auto simp: memmove_def Let_def dest: leD)
qed

theorem memcpy_overlap_witness:
  "snd (memcpy (mem_of 0x1000 [1, 2, 3, 4, 5]) 0x1002 0x1000 4) 0x1005 = 4"
proof -
  let ?m = "mem_of 0x1000 [1, 2, 3, 4, 5]"
  have "unat (0x1000 :: u32) + unat (4 :: u32) \<le> 2 ^ 32" "unat (0x1002 :: u32) + unat (4 :: u32) \<le> 2 ^ 32"
    by simp_all
  from memcpy_overlap [OF this, of ?m "\<lambda>_ _ _ _ _ m. m"]
  have "is_copy ?m (snd (memcpy ?m 0x1002 0x1000 4)) 0x1002 0x1000 0 4" by simp
  then have "\<forall>i. 0 \<le> i \<and> i < 4 \<longrightarrow> snd (memcpy ?m 0x1002 0x1000 4) (0x1002 + of_nat i) = ?m (0x1000 + of_nat i)"
    unfolding is_copy_def by (rule conjunct1)
  then have "snd (memcpy ?m 0x1002 0x1000 4) (0x1002 + of_nat 3) = ?m (0x1000 + of_nat 3)"
    by (elim allE [of _ 3]) simp
  then show ?thesis by (simp add: mem_of_def)
qed

section \<open>Filling\<close>

lemma fill_bytes_wrl:
  "fill_bytes n m b v = (wrl m (b + 1) (replicate n v), b + of_nat n)"
  by (induction n arbitrary: m b) (simp_all add: add.assoc)

text \<open>The byte repeated in a word, as the shifts build it.\<close>

lemma put32_splat:
  "put32 (if nonzero (ucast v :: u32) then ucast v OR push_bit 24 (ucast v) OR push_bit 16 (ucast v) OR push_bit 8 (ucast v)
     else ucast v) = replicate 4 (v :: u8)"
proof (cases "ucast v = (0 :: u32)")
  case True
  then have "unat v = 0" using unat_ucast_u8 [of v] by simp
  then show ?thesis using True by (simp add: put32_def unsigned_eq_0_iff numeral_eq_Suc)
next
  case False
  have "ucast v OR push_bit 24 (ucast v) OR push_bit 16 (ucast v) OR push_bit 8 (ucast v) = get32 v v v v"
    unfolding get32_def by (simp only: or.assoc or.commute or.left_commute)
  then show ?thesis using False by (simp add: be_simps numeral_eq_Suc)
qed

lemma fill_words_wrl:
  assumes "put32 w = replicate 4 v"
  shows "fill_words n m p w = (wrl m (p + 4) (replicate (4 * n) v), p + 4 * of_nat n)"
proof (induction n arbitrary: m p)
  case (Suc n)
  have "replicate (4 * Suc n) v = replicate 4 v @ replicate (4 * n) v"
    by (simp add: replicate_add [symmetric])
  then show ?case
    using Suc by (simp add: wr32_def assms wrl_append algebra_simps)
qed simp

lemma fill_blocks_wrl:
  assumes "put32 w = replicate 4 v"
  shows "fill_blocks n m p w = (wrl m (p + 4) (replicate (32 * n) v), p + 32 * of_nat n)"
proof (induction n arbitrary: m p)
  case (Suc n)
  have "replicate (32 * Suc n) v = replicate 32 v @ replicate (32 * n) v"
    by (simp add: replicate_add [symmetric])
  then show ?case
    using Suc by (simp add: fill_words_wrl [OF assms] wrl_append algebra_simps)
qed simp

lemma unat_and_3: "unat ((w :: u32) AND 3) = unat w mod 4"
  using word_and_mask_mod [of w 2] by (simp add: mask_eq_exp_minus_1)

lemma unat_and_31: "unat ((w :: u32) AND 31) = unat w mod 32"
  using word_and_mask_mod [of w 5] by (simp add: mask_eq_exp_minus_1)

text \<open>the fill routine, which aligns, stores words eight at a time, then words, then bytes, is the
  byte-by-byte fill: exactly the \<open>n\<close> bytes from \<open>dst\<close> on hold the value, for every length, value
  and alignment.\<close>

theorem fill_mem_fills:
  "fill_mem m dst val n = wrl m dst (replicate (unat n) (ucast val))"
proof (cases "n \<ge> 32")
  case False
  then show ?thesis by (simp add: fill_mem_def fill_bytes_wrl Let_def)
next
  case True
  define v where "v = (ucast val :: u8)"
  define w :: u32 where "w = (if nonzero (ucast v :: u32) then ucast v OR push_bit 24 (ucast v) OR push_bit 16 (ucast v) OR push_bit 8 (ucast v)
     else ucast v)"
  have w: "put32 w = replicate 4 v" unfolding w_def by (rule put32_splat)
  define i where "i = unat (NOT (dst - 1) AND 3)"
  have "i < 4" by (simp add: i_def unat_and_3)
  moreover have "32 \<le> unat n" using True by (simp add: word_le_nat_alt)
  ultimately have n1: "unat (n - of_nat i) = unat n - i"
    by (simp add: unat_sub word_le_nat_alt unat_of_nat)
  define k where "k = unat n - i"
  define b where "b = k div 32"
  define c where "c = k mod 32 div 4"
  define d where "d = k mod 4"
  have parts: "unat (drop_bit 5 (n - of_nat i)) = b" "unat (drop_bit 2 ((n - of_nat i) AND 31)) = c"
    "unat ((n - of_nat i) AND 3) = d"
    by (simp_all add: drop_bit_eq_div unat_div unat_and_31 unat_and_3 n1 b_def c_def d_def k_def)
  have "k mod 32 mod 4 = k mod 4" by (simp add: mod_mod_cancel)
  then have "k = 32 * b + 4 * c + d"
    unfolding b_def c_def d_def by (metis add.assoc mult_div_mod_eq)
  then have whole: "unat n = i + (32 * b + (4 * c + d))"
    using \<open>i < 4\<close> \<open>32 \<le> unat n\<close> k_def by simp
  have "fill_mem m dst val n =
      wrl (wrl (wrl (wrl m dst (replicate i v)) (dst + of_nat i) (replicate (32 * b) v))
        (dst + of_nat i + 32 * of_nat b) (replicate (4 * c) v))
        (dst + of_nat i + 32 * of_nat b + 4 * of_nat c) (replicate d v)"
    using True unfolding fill_mem_def Let_def v_def [symmetric] w_def [symmetric] i_def [symmetric] parts
    by (simp add: fill_bytes_wrl fill_blocks_wrl [OF w] fill_words_wrl [OF w] algebra_simps)
  also have "\<dots> = wrl m dst (replicate i v @ replicate (32 * b) v @ replicate (4 * c) v @ replicate d v)"
    by (simp add: wrl_append algebra_simps)
  also have "\<dots> = wrl m dst (replicate (unat n) v)"
    by (simp add: whole replicate_add)
  finally show ?thesis by (simp add: v_def)
qed

section \<open>UTF-8\<close>

text \<open>The decoder of the one- to three-byte forms: a character and the number of bytes it took.\<close>

definition utf8_decode :: "u8 \<Rightarrow> u8 \<Rightarrow> u8 \<Rightarrow> nat \<times> nat" where
  "utf8_decode a b c =
     (if unat a < 0x80 then (unat a, 1)
      else if unat a < 0xE0 then ((unat a - 0xC0) * 64 + (unat b - 0x80), 2)
      else (((unat a - 0xE0) * 64 + (unat b - 0x80)) * 64 + (unat c - 0x80), 3))"

lemma or_is_plus:
  assumes "unat (x :: 'a::len word) < 2 ^ k"
  shows "x OR push_bit k y = x + push_bit k y"
proof (rule disjunctive_add [symmetric])
  fix n
  show "\<not> bit x n \<or> \<not> bit (push_bit k y) n"
    using bit_above_unat [OF assms, of n] by (cases "k \<le> n") (auto simp: bit_simps)
qed

lemma unat_u16: "unat (w :: u16) < 65536"
  using unsigned_less [of w] by simp

lemma unat_low_byte: "unat (ucast (w :: u16) :: u8) = unat w mod 256"
  by (simp add: unsigned_ucast_eq take_bit_eq_mod)

lemma unat_drop6: "unat (drop_bit 6 (w :: u16)) = unat w div 64"
  by (simp add: drop_bit_eq_div unat_div)

lemma unat_cont_byte: "unat (cont_byte w) = unat w mod 64 + 128"
proof -
  have x: "unat (w AND 0x3F) = unat w mod 64"
    using word_and_mask_mod [of w 6] by (simp add: mask_eq_exp_minus_1)
  have "unat w mod 64 < 64" by simp
  then have "(w AND 0x3F) OR push_bit 6 2 = (w AND 0x3F) + push_bit 6 2"
    using x by (intro or_is_plus) simp
  then have "(w AND 0x3F) OR 0x80 = (w AND 0x3F) + 0x80" by simp
  then show ?thesis
    using x \<open>unat w mod 64 < 64\<close> by (simp add: cont_byte_def unat_low_byte unat_word_ariths)
qed

lemma unat_lead_byte:
  assumes "unat x < 32" "c = 0xC0 \<or> c = 0xE0"
  shows "unat (ucast (x OR c :: u16) :: u8) = unat x + unat c"
proof -
  have "x OR c = x + c"
    using assms or_is_plus [of x 5 6] or_is_plus [of x 5 7] by auto
  then show ?thesis using assms by (auto simp: unat_low_byte unat_word_ariths)
qed

text \<open>wctomb writes the UTF-8 form of every 16-bit character: decoding the bytes at the pointer
  gives the character back and as many bytes as were returned, and no other byte is written.\<close>

theorem wctomb_utf8:
  assumes "s \<noteq> 0"
  shows "let n = fst (wctomb m s w); m' = snd (wctomb m s w)
    in utf8_decode (m' s) (m' (s + 1)) (m' (s + 2)) = (unat w, n)
      \<and> (\<forall>x. x \<noteq> s \<longrightarrow> x \<noteq> s + 1 \<longrightarrow> x \<noteq> s + 2 \<longrightarrow> m' x = m x)
      \<and> (n < 3 \<longrightarrow> m' (s + 2) = m (s + 2)) \<and> (n < 2 \<longrightarrow> m' (s + 1) = m (s + 1))"
proof -
  have ne: "s + 1 \<noteq> s" "s + 2 \<noteq> s" "s + 2 \<noteq> s + 1" by simp_all
  have w: "w < 0x80 \<longleftrightarrow> unat w < 0x80" "w < 0x800 \<longleftrightarrow> unat w < 0x800"
    by (simp_all add: word_less_nat_alt)
  consider "unat w < 0x80" | "\<not> unat w < 0x80" "unat w < 0x800" | "\<not> unat w < 0x800" by blast
  then show ?thesis
  proof cases
    case 1
    then show ?thesis
      using assms w ne by (simp add: wctomb_def wctomb_bytes_def utf8_decode_def unat_low_byte Let_def)
  next
    case 2
    have "unat (ucast (drop_bit 6 w OR 0xC0) :: u8) = unat w div 64 + 0xC0"
      using 2 unat_lead_byte [of "drop_bit 6 w" "0xC0"] by (simp add: unat_drop6)
    then show ?thesis
      using 2 assms w ne
      by (simp add: wctomb_def wctomb_bytes_def utf8_decode_def unat_cont_byte Let_def)
  next
    case 3
    have "unat (ucast (drop_bit 6 (drop_bit 6 w) OR 0xE0) :: u8) = unat w div 4096 + 0xE0"
    proof -
      have d: "unat (drop_bit 6 (drop_bit 6 w)) = unat w div 4096"
        unfolding unat_drop6 by (simp add: div_mult2_eq [symmetric])
      then have "unat (drop_bit 6 (drop_bit 6 w)) < 32"
        using unat_u16 [of w] unfolding d by (simp add: less_mult_imp_div_less)
      then show ?thesis
        using unat_lead_byte [of "drop_bit 6 (drop_bit 6 w)" "0xE0"] unfolding d by simp
    qed
    moreover have "unat w div 4096 * 64 + unat w div 64 mod 64 = unat w div 64"
      using div_mult_mod_eq [of "unat w div 64" 64] by (simp add: div_mult2_eq [symmetric])
    moreover have "unat w div 64 * 64 + unat w mod 64 = unat w" by simp
    ultimately show ?thesis
      using 3 assms w ne
      by (simp add: wctomb_def wctomb_bytes_def utf8_decode_def unat_cont_byte unat_drop6 Let_def)
  qed
qed

theorem wctomb_utf8_witness: "utf8_decode
    (snd (wctomb (\<lambda>_. 0) 0x1000 0x20AC) 0x1000) (snd (wctomb (\<lambda>_. 0) 0x1000 0x20AC) 0x1001)
    (snd (wctomb (\<lambda>_. 0) 0x1000 0x20AC) 0x1002) = (0x20AC, 3)"
  using wctomb_utf8 [of "0x1000" "\<lambda>_. 0" "0x20AC"] by (simp add: wctomb_def wctomb_bytes_def Let_def)

section \<open>Saturation and the string reader\<close>

text \<open>strtol and atoi: the scanned magnitude and sign, clamped to a long, with ERANGE exactly when
  it does not fit.\<close>

lemma clamp_long_value:
  assumes "\<not> sc_overflow r"
  defines "v \<equiv> (if sc_negative r then - uint (sc_value r) else uint (sc_value r))"
  shows "clamp_long r errno = (max (- (2 ^ 31)) (min (2 ^ 31 - 1) v),
    if v < - (2 ^ 31) \<or> 2 ^ 31 - 1 < v then ERANGE else errno)"
proof -
  let ?u = "sc_value r"
  have u: "0 \<le> uint ?u" "uint ?u < 2 ^ 32" using uint_bounded [of ?u] by simp_all
  have lt: "?u > LONG_MAX \<longleftrightarrow> 2 ^ 31 - 1 < uint ?u" "?u > - LONG_MIN \<longleftrightarrow> 2 ^ 31 < uint ?u"
    by (simp_all add: word_less_def LONG_MAX_def LONG_MIN_def)
  have lim: "sint LONG_MAX = 2 ^ 31 - 1" "sint LONG_MIN = - (2 ^ 31)"
    by (simp_all add: LONG_MAX_def LONG_MIN_def sint_uint signed_take_bit_eq_if_positive
        signed_take_bit_eq_if_negative bit_iff_odd)
  have pos: "sint ?u = uint ?u" if "uint ?u < 2 ^ 31"
  proof -
    have "- (2 ^ 31) \<le> uint ?u" using u by (auto intro: order_trans [of _ 0])
    then have "signed_take_bit 31 (uint ?u) = uint ?u" using that by (rule signed_take_bit_int_eq_self)
    then show ?thesis by (simp add: sint_uint)
  qed
  have neg: "sint (- ?u) = - uint ?u" if "uint ?u \<le> 2 ^ 31"
  proof -
    have m: "- ?u = word_of_int (- uint ?u)"
      by (simp only: of_int_minus word_of_int_uint)
    have "sint (word_of_int (- uint ?u) :: u32) = signed_take_bit 31 (- uint ?u)"
      using sint_sbintrunc' [of "- uint ?u", where 'a = 32] by (simp only: len_num1 len_bit0) simp
    then have "sint (- ?u) = signed_take_bit 31 (- uint ?u)"
      by (simp only: m)
    moreover have "- (2 ^ 31) \<le> - uint ?u" "- uint ?u < 2 ^ 31"
      using that u by (simp_all add: order_le_less_trans [of _ 0])
    then have "signed_take_bit 31 (- uint ?u) = - uint ?u" by (rule signed_take_bit_int_eq_self)
    ultimately show ?thesis by simp
  qed
  have "- (2 ^ 31) \<le> uint ?u" "- uint ?u \<le> 2 ^ 31 - (1 :: int)" 
    using u(1) by (auto intro: order_trans [of _ 0])
  then have out: "\<not> uint ?u < - (2 ^ 31)" "\<not> 2 ^ 31 - 1 < - uint ?u"
    by (simp_all only: not_less)
  show ?thesis
    using assms(1) out pos neg unfolding v_def clamp_long_def Let_def lt by (auto simp: lim)
qed

text \<open>Taking a character back after reading it, or after meeting the end, restores the reader.\<close>

lemma string_read_unget:
  assumes "\<not> NullCharDetected isc" "StringRead m ch 0 isc = (c, isc')"
  shows "StringRead m c 1 isc' = (c, isc)"
  using assms by (auto simp: StringRead_def Let_def split: if_splits)

text \<open>wcstombs stores its terminator at \<open>s + n\<close> when the text fills the \<open>n\<close> bytes exactly.\<close>

lemma wcstombs_terminator_past_limit:
  "wcstombs (mem_of 0x2000 [0, 65]) 0x1000 0x2000 1
     = Some (1, (mem_of 0x2000 [0, 65])(0x1000 := 65, 0x1001 := 0))"
proof -
  let ?m = "mem_of 0x2000 [0, 65]"
  have first: "rd16 ?m 0x2000 = 65" by (simp add: rd16_def mem_of_def get16_def)
  have second: "rd16 (?m(0x1000 := 65)) 0x2002 = 0" by (simp add: rd16_def mem_of_def get16_def)
  have "wcstombs_loop ?m 0x1000 0x2000 1 0 = wcstombs_loop (?m(0x1000 := 65)) 0x1000 0x2002 1 1"
    by (subst wcstombs_loop.simps) (simp add: first wctomb_bytes_def Let_def)
  also have "\<dots> = Some (1, ?m(0x1000 := 65, 0x1001 := 0))"
    by (subst wcstombs_loop.simps) (simp add: second)
  finally show ?thesis by (simp add: wcstombs_def)
qed

end
