(* ===== verification/ExiCard.thy ===== *)
theory ExiCard
  imports Prelude
begin

text \<open>
  runtime/exi.c, the devices on channel 0: the memory card (flash array, command protocol,
  interrupt line, write-through to its image file) and the RTC/SRAM device. The statics of the
  file are the record \<open>exi\<close>. The host's file is the list of its bytes, absent before it is
  created; whether the host lets the card open it for writing is the flag \<open>may_write\<close>, and
  the readings of the host's clock still to come are \<open>rtc_clk\<close>. What the file only prints is
  left out.
\<close>

record channel =
  ch_csr :: u32
  ch_mar :: u32
  ch_len :: u32
  ch_cr :: u32
  ch_data :: u32
  ch_selected :: int
  ch_pos :: u32
  ch_cmd :: u32

record exi =
  g_ch :: "nat \<Rightarrow> channel"
  g_imm :: u64
  g_dma :: u64
  g_card_reads :: u64
  g_card_writes :: u64
  g_card_ints :: u64
  g_card :: "(nat \<Rightarrow> u8) option"
  g_card_addr :: u32
  g_card_cmd :: u8
  g_card_status :: u8
  g_card_int_en :: u8
  g_card_int_req :: u8
  g_card_dirty :: bool
  g_card_dirty_lo :: u32
  g_card_dirty_hi :: u32
  g_card_file :: bool
  g_sram :: "u8 list"
  g_sram_init :: bool
  g_rtc_cmd :: u32
  g_rtc_latch :: u32
  host_file :: "u8 list option"
  may_write :: bool
  rtc_clk :: "nat \<Rightarrow> u32"

definition EXI_CSR_EXIINTMSK :: u32 where "EXI_CSR_EXIINTMSK = 0x0001"
definition EXI_CSR_EXIINT :: u32 where "EXI_CSR_EXIINT = 0x0002"
definition EXI_CSR_TCINTMSK :: u32 where "EXI_CSR_TCINTMSK = 0x0004"
definition EXI_CSR_TCINT :: u32 where "EXI_CSR_TCINT = 0x0008"
definition EXI_CSR_EXT :: u32 where "EXI_CSR_EXT = 0x1000"
definition EXI_CSR_W1C :: u32 where "EXI_CSR_W1C = 0x080A"
definition EXI_CSR_STORED :: u32 where "EXI_CSR_STORED = 0x07F5"

definition CARD_BYTES :: u32 where "CARD_BYTES = push_bit 17 4"
definition CARD_SECTOR :: u32 where "CARD_SECTOR = 0x2000"
definition CARD_ID :: u32 where "CARD_ID = 0x00000004"

definition CARD_FLASH_ID :: "u8 list" where
  "CARD_FLASH_ID = [0x53, 0x4F, 0x41, 0x50, 0x4F, 0x52, 0x54, 0x00, 0x00, 0x00, 0x00, 0x01]"

definition upd_ch :: "nat \<Rightarrow> (channel \<Rightarrow> channel) \<Rightarrow> exi \<Rightarrow> exi" where
  "upd_ch ch f e = e\<lparr>g_ch := (g_ch e)(ch := f (g_ch e ch))\<rparr>"

section \<open>The image file\<close>

definition card_load :: "exi \<Rightarrow> exi" where
  "card_load e =
     (if g_card e \<noteq> None then e
      else case host_file e of
        Some f \<Rightarrow> e\<lparr>g_card := Some (\<lambda>i. if i < length f \<and> i < unat CARD_BYTES then f ! i else 0xFF)\<rparr>
      | None \<Rightarrow> e\<lparr>g_card := Some (\<lambda>i. 0xFF)\<rparr>)"

definition exi_card_loaded :: "exi \<Rightarrow> bool" where
  "exi_card_loaded e = (g_card e \<noteq> None)"

definition card_dirty :: "u32 \<Rightarrow> u32 \<Rightarrow> exi \<Rightarrow> exi" where
  "card_dirty off n e =
     (if \<not> g_card_dirty e then e\<lparr>g_card_dirty := True, g_card_dirty_lo := off, g_card_dirty_hi := off + n\<rparr>
      else let e1 = (if off < g_card_dirty_lo e then e\<lparr>g_card_dirty_lo := off\<rparr> else e)
           in if off + n > g_card_dirty_hi e1 then e1\<lparr>g_card_dirty_hi := off + n\<rparr> else e1)"

text \<open>fseek and fwrite: bytes placed at an offset, a gap before them read as zero.\<close>

definition file_put :: "nat \<Rightarrow> u8 list \<Rightarrow> u8 list \<Rightarrow> u8 list" where
  "file_put lo bs f =
     take lo f @ replicate (lo - length f) 0 @ bs @ drop (lo + length bs) f"

definition card_flush :: "exi \<Rightarrow> exi" where
  "card_flush e =
     (case g_card e of
        None \<Rightarrow> e
      | Some img \<Rightarrow>
          if \<not> g_card_dirty e then e
          else if \<not> g_card_file e \<and> \<not> may_write e then e\<lparr>g_card_dirty := False\<rparr>
          else
            let f = (case host_file e of Some f \<Rightarrow> f | None \<Rightarrow> []);
                e1 = (if g_card_file e then e
                      else if length f \<noteq> unat CARD_BYTES
                      then e\<lparr>g_card_file := True, g_card_dirty_lo := 0, g_card_dirty_hi := CARD_BYTES\<rparr>
                      else e\<lparr>g_card_file := True\<rparr>);
                lo = unat (g_card_dirty_lo e1); n = unat (g_card_dirty_hi e1 - g_card_dirty_lo e1)
            in e1\<lparr>host_file := Some (file_put lo (map img [lo..<lo + n]) f), g_card_dirty := False\<rparr>)"

definition exi_card_save :: "exi \<Rightarrow> exi" where "exi_card_save e = card_flush e"

section \<open>The identity of a formatted image\<close>

fun checksum_loop :: "(nat \<Rightarrow> u8) \<Rightarrow> nat list \<Rightarrow> u32 \<times> u32 \<Rightarrow> u32 \<times> u32" where
  "checksum_loop p [] sv = sv"
| "checksum_loop p (i # is) (s, v) =
     (let w = ucast (push_bit 8 (ucast (p i) :: u16)) OR ucast (p (i + 1)) :: u16
      in checksum_loop p is (s + ucast w, v + ucast (NOT w)))"

text \<open>The pairs start at the even offsets below the length.\<close>

definition card_checksum :: "(nat \<Rightarrow> u8) \<Rightarrow> nat \<Rightarrow> u16 \<times> u16" where
  "card_checksum p n =
     (case checksum_loop p (map (\<lambda>k. 2 * k) [0..<(n + 1) div 2]) (0, 0) of (s, v) \<Rightarrow>
        let fold0 = (\<lambda>x :: u16. if x = 0xFFFF then 0 else x)
        in (fold0 (ucast s), fold0 (ucast v)))"

definition card_scramble_step :: "u64 \<Rightarrow> u64" where
  "card_scramble_step r = signed_drop_bit 16 (r * 0x41C64E6D + 12345)"

fun flash_id_loop :: "(nat \<Rightarrow> u8) \<Rightarrow> nat list \<Rightarrow> u64 \<Rightarrow> u8 list" where
  "flash_id_loop h [] r = []"
| "flash_id_loop h (i # is) r =
     (let r1 = card_scramble_step r; out = h i - ucast r1; r2 = card_scramble_step r1 AND 0x7FFF
      in out # flash_id_loop h is r2)"

definition card_flash_id :: "(nat \<Rightarrow> u8) \<Rightarrow> u8 list option" where
  "card_flash_id h =
     (case card_checksum h 508 of (sm, iv) \<Rightarrow>
        if get16 (h 508) (h 509) \<noteq> ucast sm then None
        else if get16 (h 510) (h 511) \<noteq> ucast iv then None
        else Some (flash_id_loop h [0..<12] (get64 (map h [12..<20]))))"

section \<open>The card's command protocol\<close>

text \<open>The four address bytes of the read and program commands.\<close>

definition card_address :: "u32 \<Rightarrow> u8 \<Rightarrow> u32 \<Rightarrow> u32" where
  "card_address pos b addr =
     (if pos = 1 then push_bit 17 (ucast b)
      else if pos = 2 then addr OR push_bit 9 (ucast b)
      else if pos = 3 then addr OR push_bit 7 (ucast (b AND 3))
      else addr OR ucast (b AND 0x7F))"

definition card_put :: "(nat \<Rightarrow> u8) \<Rightarrow> exi \<Rightarrow> exi" where
  "card_put img e = e\<lparr>g_card := Some img\<rparr>"

definition card_command :: "u32 \<Rightarrow> u8 \<Rightarrow> exi \<Rightarrow> u8 \<times> exi" where
  "card_command pos b e =
     (let cmd = g_card_cmd e; img = the (g_card e)
      in if cmd = 0x00 then
           (if pos \<ge> 2 then ucast (drop_bit (8 * (3 - unat ((pos - 2) AND 3))) CARD_ID) else 0xFF, e)
         else if cmd = 0x85 then
           (if pos = 1 then 0x80 else if pos = 2 then 0xC2 else if pos = 3 then 0x21 else 0, e)
         else if cmd = 0x83 then (g_card_status e, e)
         else if cmd = 0x52 then
           (if pos \<le> 4 then (0xFF, e\<lparr>g_card_addr := card_address pos b (g_card_addr e)\<rparr>)
            else if pos \<ge> 9 then
              (img (unat (g_card_addr e mod CARD_BYTES)),
               e\<lparr>g_card_addr := g_card_addr e + 1, g_card_reads := g_card_reads e + 1\<rparr>)
            else (0xFF, e))
         else if cmd = 0xF2 then
           (if pos \<le> 4 then (0xFF, e\<lparr>g_card_addr := card_address pos b (g_card_addr e)\<rparr>)
            else
              (let a = g_card_addr e mod CARD_BYTES;
                   e1 = card_dirty a 1 (card_put (img(unat a := img (unat a) AND b)) e)
               in (0xFF, e1\<lparr>g_card_addr := g_card_addr e1 + 1, g_card_writes := g_card_writes e1 + 1\<rparr>)))
         else if cmd = 0xF1 then
           (if pos = 1 then (0xFF, e\<lparr>g_card_addr := push_bit 17 (ucast b)\<rparr>)
            else if pos = 2 then
              (let e1 = e\<lparr>g_card_addr := g_card_addr e OR push_bit 9 (ucast b)\<rparr>;
                   base = (g_card_addr e1 mod CARD_BYTES) AND NOT (CARD_SECTOR - 1)
               in (0xFF, card_dirty base CARD_SECTOR
                     (card_put (\<lambda>i. if unat base \<le> i \<and> i < unat base + unat CARD_SECTOR then 0xFF else img i) e1)))
            else (0xFF, e))
         else if cmd = 0xF4 then
           (if pos = 2 then (0xFF, card_dirty 0 CARD_BYTES
                               (card_put (\<lambda>i. if i < unat CARD_BYTES then 0xFF else img i) e))
            else (0xFF, e))
         else if cmd = 0x81 then
           (if pos = 1 then (0xFF, e\<lparr>g_card_int_en := b AND 1\<rparr>) else (0xFF, e))
         else (0xFF, e))"

definition card_byte :: "nat \<Rightarrow> u8 \<Rightarrow> exi \<Rightarrow> u8 \<times> exi" where
  "card_byte ch b e0 =
     (let e = card_load e0; pos = ch_pos (g_ch e ch); step = upd_ch ch (\<lambda>c. c\<lparr>ch_pos := ch_pos c + 1\<rparr>)
      in if pos = 0 then
           (let e1 = e\<lparr>g_card_cmd := b\<rparr>;
                e2 = (if b = 0x89
                      then e1\<lparr>g_card_status := g_card_status e1 AND NOT 0x18, g_card_int_req := 0\<rparr> else e1)
            in (0xFF, step e2))
         else case card_command pos b e of (out, e1) \<Rightarrow> (out, step e1))"

definition card_deselected :: "nat \<Rightarrow> exi \<Rightarrow> exi" where
  "card_deselected ch e =
     (if g_card_cmd e \<noteq> 0xF1 \<and> g_card_cmd e \<noteq> 0xF2 \<and> g_card_cmd e \<noteq> 0xF4 then e
      else let e1 = card_flush e
           in if nonzero (g_card_int_en e1) \<and> \<not> nonzero (g_card_int_req e1)
              then (upd_ch ch (\<lambda>c. c\<lparr>ch_csr := ch_csr c OR EXI_CSR_EXIINT\<rparr>) e1)
                     \<lparr>g_card_int_req := 1, g_card_ints := g_card_ints e1 + 1\<rparr>
              else e1)"

section \<open>RTC and SRAM\<close>

definition RTC_COUNTER_ADDR :: u32 where "RTC_COUNTER_ADDR = 0x800000"
definition SRAM_ADDR :: u32 where "SRAM_ADDR = 0x800004"

fun list_put :: "'a list \<Rightarrow> nat \<Rightarrow> 'a list \<Rightarrow> 'a list" where
  "list_put xs i [] = xs"
| "list_put xs i (y # ys) = list_put (xs[i := y]) (Suc i) ys"

definition sram_bytes :: "u8 list option \<Rightarrow> u8 list" where
  "sram_bytes fid =
     (let s0 = (replicate 64 0)[19 := 0x04];
          s1 = list_put s0 20 (case fid of Some xs \<Rightarrow> xs | None \<Rightarrow> CARD_FLASH_ID);
          idsum = fold (\<lambda>i acc. acc + ucast (s1 ! (20 + i))) [0..<12] (0 :: u32);
          s2 = s1[58 := ucast (NOT idsum), 59 := 0xFF];
          (sm, iv) = checksum_loop (\<lambda>i. s2 ! i) [12, 14, 16, 18] (0, 0)
      in s2[0 := ucast (drop_bit 8 sm), 1 := ucast sm, 2 := ucast (drop_bit 8 iv), 3 := ucast iv])"

definition sram_init :: "exi \<Rightarrow> exi" where
  "sram_init e =
     (if g_sram_init e then e
      else let e1 = card_load (e\<lparr>g_sram_init := True\<rparr>)
           in e1\<lparr>g_sram := sram_bytes (card_flash_id (the (g_card e1)))\<rparr>)"

definition rtc_seconds :: "exi \<Rightarrow> u32 \<times> exi" where
  "rtc_seconds e = (rtc_clk e 0, e\<lparr>rtc_clk := (\<lambda>n. rtc_clk e (Suc n))\<rparr>)"

definition rtc_byte :: "nat \<Rightarrow> u8 \<Rightarrow> exi \<Rightarrow> u8 \<times> exi" where
  "rtc_byte ch b e0 =
     (let e = sram_init e0; pos = ch_pos (g_ch e ch); step = upd_ch ch (\<lambda>c. c\<lparr>ch_pos := ch_pos c + 1\<rparr>)
      in if pos < 4 then
           (let e1 = e\<lparr>g_rtc_cmd := push_bit 8 (g_rtc_cmd e) OR ucast b\<rparr>;
                e2 = (if pos = 3 then (case rtc_seconds e1 of (t, e') \<Rightarrow> e'\<lparr>g_rtc_latch := t\<rparr>) else e1)
            in (0, step e2))
         else
           (let off = pos - 4; addr = drop_bit 6 (g_rtc_cmd e) AND 0x01FFFFFF; e1 = step e;
                wr = nonzero (drop_bit 31 (g_rtc_cmd e))
            in if SRAM_ADDR \<le> addr \<and> addr < SRAM_ADDR + 64 then
                 (let off = off + (addr - SRAM_ADDR)
                  in if off \<ge> 64 then (0, e1)
                     else if wr then (0, e1\<lparr>g_sram := (g_sram e1)[unat off := b]\<rparr>)
                     else (g_sram e1 ! unat off, e1))
               else if RTC_COUNTER_ADDR \<le> addr \<and> addr < SRAM_ADDR \<and> \<not> wr then
                 (let off = off + (addr - RTC_COUNTER_ADDR)
                  in (if off < 4 then ucast (drop_bit (8 * (3 - unat off)) (g_rtc_latch e1)) else 0, e1))
               else (0, e1)))"

definition exi_card_reset :: "exi \<Rightarrow> exi" where
  "exi_card_reset e =
     (card_flush e)\<lparr>g_card_file := False, g_card := None, g_card_addr := 0, g_card_cmd := 0, g_card_int_en := 0,
        g_card_int_req := 0, g_sram_init := False\<rparr>"

definition exi_card_counters :: "exi \<Rightarrow> u64 \<times> u64 \<times> u64" where
  "exi_card_counters e = (g_card_reads e, g_card_writes e, g_card_ints e)"

section \<open>The image file keeps up with the card\<close>

lemma CARD_BYTES_value [simp]: "unat CARD_BYTES = 524288"
  by (simp add: CARD_BYTES_def)

text \<open>What loading an image file gives at an offset of the card.\<close>

definition loaded :: "u8 list option \<Rightarrow> nat \<Rightarrow> u8" where
  "loaded f i = (case f of Some bs \<Rightarrow> if i < length bs then bs ! i else 0xFF | None \<Rightarrow> 0xFF)"

definition in_dirty :: "exi \<Rightarrow> nat \<Rightarrow> bool" where
  "in_dirty e i \<longleftrightarrow> g_card_dirty e \<and> unat (g_card_dirty_lo e) \<le> i \<and> i < unat (g_card_dirty_hi e)"

text \<open>The dirty range lies on the card, an open file has the card's size at least, and outside the
  dirty range the file holds what the card holds.\<close>

definition synced :: "exi \<Rightarrow> bool" where
  "synced e \<longleftrightarrow> may_write e
     \<and> (g_card_dirty e \<longrightarrow> g_card_dirty_lo e \<le> g_card_dirty_hi e \<and> g_card_dirty_hi e \<le> CARD_BYTES)
     \<and> (g_card_file e \<longrightarrow> (\<exists>f. host_file e = Some f \<and> unat CARD_BYTES \<le> length f))
     \<and> (case g_card e of
          None \<Rightarrow> \<not> g_card_dirty e \<and> \<not> g_card_file e
        | Some img \<Rightarrow> \<forall>i<unat CARD_BYTES. in_dirty e i \<or> img i = loaded (host_file e) i)"

lemma card_load_synced: "synced e \<Longrightarrow> synced (card_load e)"
  by (auto simp: synced_def card_load_def in_dirty_def loaded_def split: option.splits)

lemma card_load_some: "g_card (card_load e) \<noteq> None"
  by (simp add: card_load_def split: option.splits)

lemma card_load_id [simp]: "g_card e = Some img \<Longrightarrow> card_load e = e"
  by (simp add: card_load_def)

text \<open>Fields the invariant does not mention may change freely.\<close>

lemma synced_cong:
  assumes "may_write e' = may_write e" "g_card_dirty e' = g_card_dirty e" "g_card_dirty_lo e' = g_card_dirty_lo e"
    "g_card_dirty_hi e' = g_card_dirty_hi e" "g_card_file e' = g_card_file e" "host_file e' = host_file e" "g_card e' = g_card e"
  shows "synced e' = synced e"
  using assms by (cases "g_card e") (simp_all add: synced_def in_dirty_def)

lemma upd_ch_synced [simp]: "synced (upd_ch ch f e) = synced e"
  by (rule synced_cong) (simp_all add: upd_ch_def)

text \<open>Changing the card inside a range that is then marked dirty.\<close>

lemma card_dirty_fields:
  "g_card_dirty (card_dirty off n e)" "g_card (card_dirty off n e) = g_card e" "host_file (card_dirty off n e) = host_file e"
  "g_card_file (card_dirty off n e) = g_card_file e" "may_write (card_dirty off n e) = may_write e"
  by (auto simp: card_dirty_def Let_def)

lemma card_dirty_range:
  assumes "off \<le> off + n" "off + n \<le> CARD_BYTES"
    and "g_card_dirty e \<longrightarrow> g_card_dirty_lo e \<le> g_card_dirty_hi e \<and> g_card_dirty_hi e \<le> CARD_BYTES"
  shows "g_card_dirty_lo (card_dirty off n e) \<le> g_card_dirty_hi (card_dirty off n e)"
    and "g_card_dirty_hi (card_dirty off n e) \<le> CARD_BYTES"
    and "in_dirty (card_dirty off n e) i \<longleftrightarrow> g_card_dirty (card_dirty off n e)
      \<and> unat (g_card_dirty_lo (card_dirty off n e)) \<le> i \<and> i < unat (g_card_dirty_hi (card_dirty off n e))"
    and "in_dirty e i \<or> unat off \<le> i \<and> i < unat (off + n) \<Longrightarrow> in_dirty (card_dirty off n e) i"
  using assms by (auto simp: card_dirty_def in_dirty_def Let_def word_le_nat_alt word_less_nat_alt)

lemma card_change_synced:
  assumes "synced e" "g_card e = Some img" "off \<le> off + n" "off + n \<le> CARD_BYTES"
    and same: "\<And>i. i < unat CARD_BYTES \<Longrightarrow> \<not> (unat off \<le> i \<and> i < unat (off + n)) \<Longrightarrow> img' i = img i"
  shows "synced (card_dirty off n (card_put img' e))"
proof -
  let ?e = "card_put img' e"
  have r: "g_card_dirty ?e \<longrightarrow> g_card_dirty_lo ?e \<le> g_card_dirty_hi ?e \<and> g_card_dirty_hi ?e \<le> CARD_BYTES"
    using assms(1) by (simp add: synced_def card_put_def)
  have "in_dirty (card_dirty off n ?e) i \<or> img' i = loaded (host_file e) i" if "i < unat CARD_BYTES" for i
  proof (cases "in_dirty e i \<or> unat off \<le> i \<and> i < unat (off + n)")
    case True
    then have "in_dirty ?e i \<or> unat off \<le> i \<and> i < unat (off + n)" by (simp add: in_dirty_def card_put_def)
    then show ?thesis using card_dirty_range(4) [OF assms(3,4) r] by blast
  next
    case False
    then show ?thesis using assms(1,2) same [OF that] that by (auto simp: synced_def)
  qed
  then show ?thesis
    using assms(1) card_dirty_range(1,2) [OF assms(3,4) r] card_dirty_fields [of off n ?e]
    by (simp add: synced_def card_put_def)
qed

lemma loaded_file_put:
  assumes "lo + length bs \<le> 524288" "524288 \<le> length f" "i < 524288"
  shows "loaded (Some (file_put lo bs f)) i = (if lo \<le> i \<and> i < lo + length bs then bs ! (i - lo) else loaded (Some f) i)"
  using assms by (auto simp: loaded_def file_put_def nth_append min_def)

lemma length_file_put: "max (length f) (lo + length bs) \<le> length (file_put lo bs f)"
  by (auto simp: file_put_def)

lemma loaded_file_put_whole:
  assumes "length bs = 524288" "i < 524288"
  shows "loaded (Some (file_put 0 bs f)) i = bs ! i"
  using assms by (simp add: loaded_def file_put_def nth_append)

lemma nth_map_upt_from: "lo \<le> i \<Longrightarrow> i < lo + n \<Longrightarrow> map g [lo..<lo + n] ! (i - lo) = g i"
  by (subst nth_map) auto

lemma card_flush_some: "g_card (card_flush e) = g_card e"
  by (simp add: card_flush_def Let_def split: option.split)

lemma card_flush_synced:
  assumes "synced e"
  shows "synced (card_flush e) \<and> \<not> g_card_dirty (card_flush e)"
proof (cases "g_card e")
  case None
  then show ?thesis using assms by (simp add: card_flush_def synced_def)
next
  case (Some img)
  note S = assms [unfolded synced_def]
  show ?thesis
  proof (cases "g_card_dirty e")
    case False
    then show ?thesis using assms Some by (simp add: card_flush_def)
  next
    case True
    define f where "f = (case host_file e of Some f \<Rightarrow> f | None \<Rightarrow> [])"
    define e1 where "e1 = (if g_card_file e then e else if length f \<noteq> unat CARD_BYTES
      then e\<lparr>g_card_file := True, g_card_dirty_lo := 0, g_card_dirty_hi := CARD_BYTES\<rparr> else e\<lparr>g_card_file := True\<rparr>)"
    let ?lo = "unat (g_card_dirty_lo e1)" and ?n = "unat (g_card_dirty_hi e1 - g_card_dirty_lo e1)"
    let ?f = "file_put ?lo (map img [?lo..<?lo + ?n]) f"
    have fl: "card_flush e = e1\<lparr>host_file := Some ?f, g_card_dirty := False\<rparr>"
      using S True Some by (simp add: card_flush_def f_def [symmetric] e1_def [symmetric] Let_def)
    have e1: "g_card e1 = Some img" "may_write e1" "g_card_file e1" "g_card_dirty e1"
      using S Some True by (simp_all add: e1_def)
    have le: "g_card_dirty_lo e1 \<le> g_card_dirty_hi e1" "g_card_dirty_hi e1 \<le> CARD_BYTES"
      using S True by (simp_all add: e1_def)
    then have n: "?lo + ?n = unat (g_card_dirty_hi e1)" "?lo + ?n \<le> 524288"
      by (simp_all add: unat_sub word_le_nat_alt)
    have same: "img i = loaded (Some ?f) i" if i: "i < 524288" for i
    proof (cases "g_card_file e \<or> length f = 524288")
      case True
      have len: "524288 \<le> length f" and h: "host_file e = Some f"
        using True S by (auto simp: f_def split: option.splits)
      have r: "e1 = e \<or> e1 = e\<lparr>g_card_file := True\<rparr>" using True by (auto simp: e1_def)
      then have dr: "in_dirty e i \<longleftrightarrow> ?lo \<le> i \<and> i < ?lo + ?n"
        using \<open>g_card_dirty e\<close> unfolding n(1) by (auto simp: in_dirty_def)
      show ?thesis
      proof (cases "?lo \<le> i \<and> i < ?lo + ?n")
        case True
        then show ?thesis using n(2) len i by (subst loaded_file_put) (simp_all add: nth_map_upt_from)
      next
        case False
        then have "img i = loaded (Some f) i" using S dr Some i h by auto
        then show ?thesis using False n(2) len i by (subst loaded_file_put) auto
      qed
    next
      case False
      then have z: "?lo = 0" "?n = 524288" by (simp_all add: e1_def)
      have "loaded (Some (file_put 0 (map img [0..<0 + 524288]) f)) i = map img [0..<0 + 524288] ! i"
        using i by (intro loaded_file_put_whole) simp_all
      then show ?thesis using i unfolding z by simp
    qed
    have "524288 \<le> length ?f"
    proof (cases "g_card_file e \<or> length f = 524288")
      case True
      then have "524288 \<le> length f" using S by (auto simp: f_def)
      then show ?thesis using length_file_put [of f ?lo] by (meson max.boundedE order_trans)
    next
      case False
      then have z: "?lo = 0" "?n = 524288" by (simp_all add: e1_def)
      show ?thesis unfolding z using length_file_put [of f 0 "map img [0..<0 + 524288]"] by simp
    qed
    then show ?thesis
      unfolding fl using e1 same by (simp add: synced_def)
  qed
qed

text \<open>Every byte of the command protocol.\<close>

lemma mod_card: "unat (a mod CARD_BYTES) < 524288"
  by (simp add: unat_mod)

lemma card_program_synced:
  assumes "synced e" "g_card e = Some img"
  defines "a \<equiv> g_card_addr e mod CARD_BYTES"
  shows "synced (card_dirty a 1 (card_put (img(unat a := v)) e))"
proof (rule card_change_synced [OF assms(1,2)])
  have "unat a < 524288" unfolding a_def by (rule mod_card)
  then have "unat (a + 1) = unat a + 1" by (simp add: unat_word_ariths)
  then show "a \<le> a + 1" "a + 1 \<le> CARD_BYTES" using \<open>unat a < 524288\<close> by (simp_all add: word_le_nat_alt)
  show "\<And>i. \<not> (unat a \<le> i \<and> i < unat (a + 1)) \<Longrightarrow> (img(unat a := v)) i = img i"
    using \<open>unat (a + 1) = unat a + 1\<close> by auto
qed

lemma sector_base:
  fixes a :: u32
  defines "base \<equiv> (a mod CARD_BYTES) AND NOT (CARD_SECTOR - 1)"
  shows "unat base + 8192 \<le> 524288" and "unat (base + CARD_SECTOR) = unat base + 8192"
proof -
  let ?m = "a mod CARD_BYTES"
  have "CARD_SECTOR - 1 = mask 13" by (simp add: CARD_SECTOR_def mask_eq_exp_minus_1)
  then have "base = push_bit 13 (drop_bit 13 ?m)" unfolding base_def
    by (intro bit_word_eqI) (auto simp: bit_simps not_less)
  moreover have "unat (drop_bit 13 ?m) = unat ?m div 8192"
    by (simp only: unat_drop_bit_eq) (simp add: drop_bit_eq_div)
  moreover have "unat ?m div 8192 * 8192 < 2 ^ 32" using mod_card [of a] by simp
  ultimately have u: "unat base = unat ?m div 8192 * 8192"
    by (simp only: push_bit_eq_mult unat_word_ariths) (simp add: push_bit_eq_mult)
  have "unat ?m div 8192 < 64" using mod_card [of a] by simp
  then show le: "unat base + 8192 \<le> 524288" unfolding u by simp
  show "unat (base + CARD_SECTOR) = unat base + 8192"
    using le by (simp add: unat_word_ariths CARD_SECTOR_def)
qed

lemma card_erase_synced:
  assumes "synced e" "g_card e = Some img"
  defines "base \<equiv> (g_card_addr e mod CARD_BYTES) AND NOT (CARD_SECTOR - 1)"
  shows "synced (card_dirty base CARD_SECTOR
    (card_put (\<lambda>i. if unat base \<le> i \<and> i < unat base + unat CARD_SECTOR then 0xFF else img i) e))"
proof (rule card_change_synced [OF assms(1,2)])
  note b = sector_base [of "g_card_addr e", folded base_def]
  show "base \<le> base + CARD_SECTOR" "base + CARD_SECTOR \<le> CARD_BYTES"
    using b by (simp_all add: word_le_nat_alt)
  show "\<And>i. \<not> (unat base \<le> i \<and> i < unat (base + CARD_SECTOR)) \<Longrightarrow>
      (if unat base \<le> i \<and> i < unat base + unat CARD_SECTOR then 0xFF else img i) = img i"
    using b(2) by (auto simp: CARD_SECTOR_def)
qed

lemma card_chip_erase_synced:
  assumes "synced e" "g_card e = Some img"
  shows "synced (card_dirty 0 CARD_BYTES (card_put (\<lambda>i. if i < unat CARD_BYTES then 0xFF else img i) e))"
  by (rule card_change_synced [OF assms]) simp_all

lemma synced_addr [simp]: "synced (e\<lparr>g_card_addr := a\<rparr>) = synced e" "synced (e\<lparr>g_card_int_en := b\<rparr>) = synced e"
  "synced (e\<lparr>g_card_reads := x\<rparr>) = synced e" "synced (e\<lparr>g_card_writes := x\<rparr>) = synced e"
  "synced (e\<lparr>g_card_cmd := b\<rparr>) = synced e" "synced (e\<lparr>g_card_status := b\<rparr>) = synced e"
  "synced (e\<lparr>g_card_int_req := b\<rparr>) = synced e" "synced (e\<lparr>g_card_ints := x\<rparr>) = synced e"
  "synced (e\<lparr>g_sram := sr\<rparr>) = synced e" "synced (e\<lparr>g_sram_init := q\<rparr>) = synced e" "synced (e\<lparr>g_rtc_cmd := a\<rparr>) = synced e"
  "synced (e\<lparr>g_rtc_latch := a\<rparr>) = synced e" "synced (e\<lparr>rtc_clk := k\<rparr>) = synced e" "synced (e\<lparr>g_ch := c\<rparr>) = synced e"
  by (rule synced_cong; simp)+

lemma card_command_synced:
  assumes "synced e" "g_card e = Some img"
  shows "synced (snd (card_command pos b e))"
  using assms card_program_synced [OF assms] card_chip_erase_synced [OF assms]
    card_erase_synced [of "e\<lparr>g_card_addr := g_card_addr e OR push_bit 9 (ucast b)\<rparr>" img]
  by (simp add: card_command_def Let_def)

lemma card_byte_synced: "synced e \<Longrightarrow> synced (snd (card_byte ch b e))"
proof -
  assume "synced e"
  then have l: "synced (card_load e)" by (rule card_load_synced)
  obtain img where "g_card (card_load e) = Some img" using card_load_some by blast
  from card_command_synced [OF l this] show ?thesis
    using l by (simp add: card_byte_def Let_def case_prod_beta)
qed

lemma card_deselected_synced: "synced e \<Longrightarrow> synced (card_deselected ch e)"
  using card_flush_synced [of e] by (simp add: card_deselected_def Let_def)

lemma sram_init_synced: "synced e \<Longrightarrow> synced (sram_init e)"
  using card_load_synced [of "e\<lparr>g_sram_init := True\<rparr>"] by (simp add: sram_init_def Let_def)

lemma rtc_byte_synced: "synced e \<Longrightarrow> synced (snd (rtc_byte ch b e))"
  using sram_init_synced [of e] by (simp add: rtc_byte_def rtc_seconds_def Let_def)

lemma card_reset_synced: "synced e \<Longrightarrow> synced (exi_card_reset e)"
  using card_flush_synced [of e]
  by (simp add: exi_card_reset_def synced_def in_dirty_def split: option.splits)

text \<open>The card and its file as a step relation: what the channel code can do to them, in any order.\<close>

inductive card_step :: "exi \<Rightarrow> exi \<Rightarrow> bool" where
  step_byte: "card_step e (snd (card_byte ch b e))"
| step_rtc: "card_step e (snd (rtc_byte ch b e))"
| step_deselect: "card_step e (card_deselected ch e)"
| step_channel: "card_step e (upd_ch ch f e)"
| step_save: "card_step e (exi_card_save e)"
| step_reset: "card_step e (exi_card_reset e)"

inductive_cases card_stepE [elim]: "card_step e e'"

lemma card_step_synced: "card_step e e' \<Longrightarrow> synced e \<Longrightarrow> synced e'"
  by (auto simp: card_byte_synced rtc_byte_synced card_deselected_synced card_reset_synced exi_card_save_def
      card_flush_synced)

lemma card_steps_synced: "rtranclp card_step e e' \<Longrightarrow> synced e \<Longrightarrow> synced e'"
  by (induction rule: rtranclp_induct) (auto intro: card_step_synced)

definition card_off :: "exi \<Rightarrow> bool" where
  "card_off e \<longleftrightarrow> g_card e = None \<and> \<not> g_card_dirty e \<and> \<not> g_card_file e \<and> may_write e"

lemma card_off_synced: "card_off e \<Longrightarrow> synced e"
  by (simp add: card_off_def synced_def)

text \<open>C4: nothing written to the memory card is lost: after any sequence of card and clock bytes,
  frames, saves and resets from power-on, closing the card and loading it again from its file, as the
  next run does, gives back every byte of the card as it was, the ones not yet flushed included.\<close>

theorem card_survives_power_cycle:
  assumes "card_off e0" and "rtranclp card_step e0 e" and "g_card e = Some img" and "i < unat CARD_BYTES"
  shows "\<exists>img'. g_card (card_load (exi_card_reset e)) = Some img' \<and> img' i = img i"
proof -
  have "synced e" using card_steps_synced [OF assms(2) card_off_synced [OF assms(1)]] .
  then have "synced (card_flush e)" "\<not> g_card_dirty (card_flush e)" using card_flush_synced by auto
  then have "img i = loaded (host_file (card_flush e)) i"
    using assms(3,4) by (auto simp: synced_def card_flush_some in_dirty_def)
  then show ?thesis
    using assms(4) by (auto simp: card_load_def exi_card_reset_def loaded_def split: option.splits)
qed

definition channel_zero :: channel where
  "channel_zero = \<lparr>ch_csr = 0, ch_mar = 0, ch_len = 0, ch_cr = 0, ch_data = 0, ch_selected = -1, ch_pos = 0, ch_cmd = 0\<rparr>"

definition exi_zero :: exi where
  "exi_zero = \<lparr>g_ch = (\<lambda>_. channel_zero), g_imm = 0, g_dma = 0, g_card_reads = 0, g_card_writes = 0, g_card_ints = 0,
     g_card = None, g_card_addr = 0, g_card_cmd = 0, g_card_status = 0x41, g_card_int_en = 0, g_card_int_req = 0,
     g_card_dirty = False, g_card_dirty_lo = 0, g_card_dirty_hi = 0, g_card_file = False, g_sram = replicate 64 0,
     g_sram_init = False, g_rtc_cmd = 0, g_rtc_latch = 0, host_file = None, may_write = True, rtc_clk = (\<lambda>_. 0)\<rparr>"

lemma g_card_byte_step: "g_card (snd (card_byte ch b e)) = g_card (if ch_pos (g_ch (card_load e) ch) = 0 then card_load e
    else snd (card_command (ch_pos (g_ch (card_load e) ch)) b (card_load e)))"
  by (simp add: card_byte_def upd_ch_def Let_def case_prod_beta)

theorem card_survives_power_cycle_witness:
  "\<exists>e img'. rtranclp card_step exi_zero e \<and> g_card_dirty e \<and> g_card (card_load (exi_card_reset e)) = Some img' \<and> img' 5 = 0xFF"
proof -
  let ?sel = "\<lambda>p. upd_ch 0 (\<lambda>c. c\<lparr>ch_pos := p\<rparr>)"
  let ?e1 = "snd (card_byte 0 0xF4 exi_zero)"
  let ?e2 = "snd (card_byte 0 0 (?sel 2 ?e1))"
  have "rtranclp card_step exi_zero ?e1" by (rule r_into_rtranclp) (rule step_byte)
  then have "rtranclp card_step exi_zero (?sel 2 ?e1)" by (rule rtranclp.rtrancl_into_rtrancl) (rule step_channel)
  then have r: "rtranclp card_step exi_zero ?e2" by (rule rtranclp.rtrancl_into_rtrancl) (rule step_byte)
  have l: "card_load exi_zero = exi_zero\<lparr>g_card := Some (\<lambda>i. 0xFF)\<rparr>"
    by (simp add: card_load_def exi_zero_def)
  have "?e1 = upd_ch 0 (\<lambda>c. c\<lparr>ch_pos := 1\<rparr>) (exi_zero\<lparr>g_card := Some (\<lambda>i. 0xFF), g_card_cmd := 0xF4\<rparr>)"
    by (simp add: card_byte_def l Let_def) (simp add: exi_zero_def upd_ch_def channel_zero_def)
  moreover define x where "x = ?sel 2 (upd_ch 0 (\<lambda>c. c\<lparr>ch_pos := 1\<rparr>) (exi_zero\<lparr>g_card := Some (\<lambda>i. 0xFF), g_card_cmd := 0xF4\<rparr>))"
  ultimately have e2: "?e2 = snd (card_byte 0 0 x)" by simp
  have x: "g_card x = Some (\<lambda>i. 0xFF)" "g_card_cmd x = 0xF4" "ch_pos (g_ch x 0) = 2"
    by (simp_all add: x_def upd_ch_def exi_zero_def)
  have "snd (card_byte 0 0 x) = upd_ch 0 (\<lambda>c. c\<lparr>ch_pos := ch_pos c + 1\<rparr>)
      (card_dirty 0 CARD_BYTES (card_put (\<lambda>i. if i < unat CARD_BYTES then 0xFF else 0xFF) x))"
    by (simp add: card_byte_def card_load_id [OF x(1)] x card_command_def Let_def del: if_cancel)
  then have "g_card ?e2 = Some (\<lambda>i. 0xFF)" "g_card_dirty ?e2"
    unfolding e2 by (simp_all add: upd_ch_def card_dirty_fields card_put_def)
  moreover have "card_off exi_zero" by (simp add: card_off_def exi_zero_def)
  ultimately show ?thesis
    using card_survives_power_cycle [of exi_zero ?e2 "\<lambda>i. 0xFF" 5] r by auto
qed

section \<open>Erase, program and read back\<close>

text \<open>A frame: the chip select, the bytes sent one after the other, and the deselect.\<close>

fun card_send :: "nat \<Rightarrow> u8 list \<Rightarrow> exi \<Rightarrow> u8 list \<times> exi" where
  "card_send ch [] e = ([], e)"
| "card_send ch (b # bs) e =
     (let (out, e1) = card_byte ch b e; (outs, e2) = card_send ch bs e1 in (out # outs, e2))"

definition card_frame :: "nat \<Rightarrow> u8 list \<Rightarrow> exi \<Rightarrow> u8 list \<times> exi" where
  "card_frame ch bs e =
     (let (outs, e1) = card_send ch bs (upd_ch ch (\<lambda>c. c\<lparr>ch_pos := 0\<rparr>) e) in (outs, card_deselected ch e1))"

definition card_addr_bytes :: "u32 \<Rightarrow> u8 list" where
  "card_addr_bytes a = [ucast (drop_bit 17 a), ucast (drop_bit 9 a), ucast (drop_bit 7 a), ucast a]"

lemma small_bits: "a < CARD_BYTES \<Longrightarrow> 19 \<le> n \<Longrightarrow> \<not> bit a n"
  by (rule bit_above_unat [of _ 19]) (simp_all add: word_less_nat_alt)

lemma card_address_of:
  assumes "a < CARD_BYTES"
  shows "push_bit 17 (ucast (ucast (drop_bit 17 a) :: u8)) OR push_bit 9 (ucast (ucast (drop_bit 9 a) :: u8))
    OR push_bit 7 (ucast (ucast (drop_bit 7 a) AND (3 :: u8))) OR ucast (ucast a AND (0x7F :: u8)) = a"
proof (rule bit_word_eqI)
  fix n assume n: "n < LENGTH(32)"
  have m: "(3 :: u8) = mask 2" "(0x7F :: u8) = mask 7" by (simp_all add: mask_eq_exp_minus_1)
  have "n < 7 \<or> 7 \<le> n \<and> n < 9 \<or> 9 \<le> n \<and> n < 17 \<or> 17 \<le> n \<and> n < 25 \<or> 25 \<le> n" by auto
  then show "bit (push_bit 17 (ucast (ucast (drop_bit 17 a) :: u8)) OR push_bit 9 (ucast (ucast (drop_bit 9 a) :: u8))
    OR push_bit 7 (ucast (ucast (drop_bit 7 a) AND (3 :: u8))) OR ucast (ucast a AND (0x7F :: u8)) :: u32) n = bit a n"
    using n small_bits [OF assms, of n] unfolding m by (elim disjE) (auto simp: bit_simps)
qed

text \<open>The fields a frame's progress depends on.\<close>

definition card_at :: "nat \<Rightarrow> u8 \<Rightarrow> u32 \<Rightarrow> u32 \<Rightarrow> (nat \<Rightarrow> u8) \<Rightarrow> exi \<Rightarrow> bool" where
  "card_at ch cmd p a img e \<longleftrightarrow>
     g_card_cmd e = cmd \<and> ch_pos (g_ch e ch) = p \<and> g_card_addr e = a \<and> g_card e = Some img"

lemma card_start:
  assumes "g_card e = Some img"
  shows "card_at ch cmd 1 (g_card_addr e) img (snd (card_byte ch cmd (upd_ch ch (\<lambda>c. c\<lparr>ch_pos := 0\<rparr>) e)))"
  using assms by (simp add: card_at_def card_byte_def card_load_def upd_ch_def Let_def)

lemma card_address_step:
  assumes "card_at ch cmd p a img e" "cmd = 0x52 \<or> cmd = 0xF2" "p \<noteq> 0" "p \<le> 4"
  shows "card_at ch cmd (p + 1) (card_address p b a) img (snd (card_byte ch b e))"
  using assms by (auto simp: card_at_def card_byte_def card_load_def card_command_def upd_ch_def Let_def)

lemma card_address_steps:
  assumes "card_at ch cmd 1 a0 img e" "cmd = 0x52 \<or> cmd = 0xF2" "a < CARD_BYTES"
  shows "card_at ch cmd 5 a img (snd (card_send ch (card_addr_bytes a) e))"
proof -
  let ?b1 = "ucast (drop_bit 17 a)" and ?b2 = "ucast (drop_bit 9 a)" and ?b3 = "ucast (drop_bit 7 a)" and ?b4 = "ucast a"
  note s = card_address_step [OF _ assms(2)]
  have s1: "card_at ch cmd 2 (card_address 1 ?b1 a0) img (snd (card_byte ch ?b1 e))"
    using s [OF assms(1), of ?b1] by simp
  note s2 = s [OF s1, of ?b2, simplified]
  note s3 = s [OF s2, of ?b3, simplified]
  note s4 = s [OF s3, of ?b4, simplified]
  from s4 have "card_at ch cmd 5 (push_bit 17 (ucast (ucast (drop_bit 17 a) :: u8)) OR push_bit 9 (ucast (ucast (drop_bit 9 a) :: u8))
      OR push_bit 7 (ucast (ucast (drop_bit 7 a) AND (3 :: u8))) OR ucast (ucast a AND (0x7F :: u8))) img
      (snd (card_send ch (card_addr_bytes a) e))"
    by (simp add: card_addr_bytes_def card_address_def or.assoc Let_def case_prod_beta)
  then show ?thesis using card_address_of [OF assms(3)] by simp
qed

lemma card_send_append:
  "card_send ch (xs @ ys) e = (let (os, e1) = card_send ch xs e; (os', e2) = card_send ch ys e1 in (os @ os', e2))"
  by (induction xs arbitrary: e) (simp_all add: Let_def case_prod_beta)

lemma length_card_send [simp]: "length (fst (card_send ch bs e)) = length bs"
  by (induction bs arbitrary: e) (simp_all add: Let_def case_prod_beta)

lemma addr_mod: "unat a < 524288 \<Longrightarrow> a mod CARD_BYTES = a"
  by (simp add: mod_word_less word_less_nat_alt)

lemma card_program_steps:
  "card_at ch 0xF2 p a img e \<Longrightarrow> 5 \<le> unat p \<Longrightarrow> unat p + length ds < 2 ^ 32 \<Longrightarrow> unat a + length ds \<le> 524288 \<Longrightarrow>
   \<exists>p' a'. card_at ch 0xF2 p' a'
     (\<lambda>i. if unat a \<le> i \<and> i < unat a + length ds then img i AND ds ! (i - unat a) else img i) (snd (card_send ch ds e))"
proof (induction ds arbitrary: p a img e)
  case (Cons d ds)
  let ?img = "img(unat a := img (unat a) AND d)"
  have p: "\<not> p \<le> 4" "p \<noteq> 0" "unat (p + 1) = unat p + 1"
    using Cons.prems(2,3) by (auto simp: word_le_nat_alt unat_word_ariths)
  have a: "a mod CARD_BYTES = a" "unat (a + 1) = unat a + 1"
    using Cons.prems(4) by (auto simp: addr_mod unat_word_ariths)
  have "card_at ch 0xF2 (p + 1) (a + 1) ?img (snd (card_byte ch d e))"
    using Cons.prems(1) p a(1)
    by (simp add: card_at_def card_byte_def card_load_def card_command_def upd_ch_def card_dirty_def card_put_def Let_def)
  from Cons.IH [OF this] obtain p' a' where "card_at ch 0xF2 p' a'
      (\<lambda>i. if unat (a + 1) \<le> i \<and> i < unat (a + 1) + length ds then ?img i AND ds ! (i - unat (a + 1)) else ?img i)
      (snd (card_send ch ds (snd (card_byte ch d e))))"
    using p(3) a(2) Cons.prems by auto
  moreover have "(\<lambda>i. if unat (a + 1) \<le> i \<and> i < unat (a + 1) + length ds then ?img i AND ds ! (i - unat (a + 1)) else ?img i)
      = (\<lambda>i. if unat a \<le> i \<and> i < unat a + length (d # ds) then img i AND (d # ds) ! (i - unat a) else img i)"
    unfolding a(2) by (auto simp: fun_eq_iff nth_Cons')
  ultimately show ?case by (auto simp: Let_def case_prod_beta)
next
  case Nil
  have "(\<lambda>i. if unat a \<le> i \<and> i < unat a + length [] then img i AND [] ! (i - unat a) else img i) = img"
    by (auto simp: fun_eq_iff)
  then show ?case using Nil.prems(1) by auto
qed

lemma card_read_steps:
  "card_at ch 0x52 p a img e \<Longrightarrow> 9 \<le> unat p \<Longrightarrow> unat p + n < 2 ^ 32 \<Longrightarrow> unat a + n \<le> 524288 \<Longrightarrow>
   fst (card_send ch (replicate n b) e) = map img [unat a..<unat a + n]"
proof (induction n arbitrary: p a e)
  case (Suc n)
  have p: "9 \<le> p" "\<not> p \<le> 4" "p \<noteq> 0" "unat (p + 1) = unat p + 1"
    using Suc.prems(2,3) by (auto simp: word_le_nat_alt unat_word_ariths)
  have a: "a mod CARD_BYTES = a" "unat (a + 1) = unat a + 1"
    using Suc.prems(4) by (auto simp: addr_mod unat_word_ariths)
  have "fst (card_byte ch b e) = img (unat a)" "card_at ch 0x52 (p + 1) (a + 1) img (snd (card_byte ch b e))"
    using Suc.prems(1) p a(1)
    by (simp_all add: card_at_def card_byte_def card_load_def card_command_def upd_ch_def Let_def)
  then show ?case
    using Suc.IH [of "p + 1" "a + 1" "snd (card_byte ch b e)"] p(4) a(2) Suc.prems
    by (simp add: Let_def case_prod_beta upt_conv_Cons del: upt_Suc)
qed simp

lemma card_latency_steps:
  assumes "card_at ch 0x52 5 a img e"
  shows "card_at ch 0x52 9 a img (snd (card_send ch (replicate 4 b) e))"
proof -
  have s: "card_at ch 0x52 (p + 1) a img (snd (card_byte ch b e))" if "card_at ch 0x52 p a img e" "\<not> p \<le> 4" "\<not> 9 \<le> p" "p \<noteq> 0" for p e
    using that by (simp add: card_at_def card_byte_def card_load_def card_command_def upd_ch_def Let_def)
  have rep: "replicate 4 b = [b, b, b, b]" by (simp add: numeral_eq_Suc)
  show ?thesis
    using s [OF s [OF s [OF s [OF assms, simplified], simplified], simplified], simplified]
    by (simp add: rep Let_def case_prod_beta)
qed

lemma card_deselected_card [simp]: "g_card (card_deselected ch e) = g_card e"
  by (simp add: card_deselected_def card_flush_some upd_ch_def Let_def)

lemma unat_sector_base:
  assumes "a < CARD_BYTES"
  shows "unat (((push_bit 17 (ucast (ucast (drop_bit 17 a) :: u8)) OR push_bit 9 (ucast (ucast (drop_bit 9 a) :: u8))) mod CARD_BYTES)
    AND NOT (CARD_SECTOR - 1) :: u32) = unat a div 8192 * 8192"
proof -
  let ?x = "push_bit 17 (ucast (ucast (drop_bit 17 a) :: u8)) OR push_bit 9 (ucast (ucast (drop_bit 9 a) :: u8)) :: u32"
  have m: "CARD_SECTOR - 1 = mask 13" by (simp add: CARD_SECTOR_def mask_eq_exp_minus_1)
  have x: "?x = push_bit 9 (drop_bit 9 a)"
  proof (rule bit_word_eqI)
    fix n assume n: "n < LENGTH(32)"
    have "n < 9 \<or> 9 \<le> n \<and> n < 17 \<or> 17 \<le> n \<and> n < 25 \<or> 25 \<le> n" by auto
    then show "bit ?x n = bit (push_bit 9 (drop_bit 9 a)) n"
      using n small_bits [OF assms, of n] by (elim disjE) (auto simp: bit_simps)
  qed
  have ua: "unat a < 524288" using assms by (simp add: word_less_nat_alt)
  have push: "unat (push_bit k (drop_bit k a)) = unat a div 2 ^ k * 2 ^ k" if "k = 9 \<or> k = 13" for k
  proof -
    have "unat (drop_bit k a) = unat a div 2 ^ k"
      by (simp only: unat_drop_bit_eq) (simp add: drop_bit_eq_div)
    moreover have "unat a div 2 ^ k * 2 ^ k < 2 ^ 32" using ua by (simp add: order_le_less_trans [OF div_times_less_eq_dividend])
    moreover have "unat ((2 ^ k) :: u32) = 2 ^ k" using that by auto
    ultimately show ?thesis by (simp only: push_bit_eq_mult unat_word_ariths) (simp add: push_bit_eq_mult)
  qed
  have "unat ?x < 524288"
    unfolding x push [of 9, simplified] using ua by (simp add: order_le_less_trans [OF div_times_less_eq_dividend])
  then have "?x mod CARD_BYTES = ?x" by (rule addr_mod)
  moreover have "?x AND NOT (mask 13) = push_bit 13 (drop_bit 13 a)"
    unfolding x by (rule bit_word_eqI) (auto simp: bit_simps not_less)
  ultimately show ?thesis unfolding m using push [of 13] by simp
qed

lemma card_erase_frame:
  assumes "g_card e = Some img" "a < CARD_BYTES"
  shows "g_card (snd (card_frame ch [0xF1, ucast (drop_bit 17 a), ucast (drop_bit 9 a)] e))
    = Some (\<lambda>i. if i div 8192 = unat a div 8192 then 0xFF else img i)"
proof -
  let ?b1 = "ucast (drop_bit 17 a) :: u8" and ?b2 = "ucast (drop_bit 9 a) :: u8"
  have s0: "card_at ch 0xF1 1 (g_card_addr e) img (snd (card_byte ch 0xF1 (upd_ch ch (\<lambda>c. c\<lparr>ch_pos := 0\<rparr>) e)))"
    by (rule card_start [OF assms(1)])
  have s1: "card_at ch 0xF1 2 (push_bit 17 (ucast ?b1)) img (snd (card_byte ch ?b1 e'))" if "card_at ch 0xF1 1 a0 img e'" for a0 e'
    using that by (simp add: card_at_def card_byte_def card_load_def card_command_def upd_ch_def Let_def)
  have "(\<lambda>i. if unat a div 8192 * 8192 \<le> i \<and> i < unat a div 8192 * 8192 + unat CARD_SECTOR then 0xFF else img i)
      = (\<lambda>i. if i div 8192 = unat a div 8192 then 0xFF else img i)"
    by (auto simp: fun_eq_iff CARD_SECTOR_def div_nat_eqI less_eq_div_iff_mult_less_eq)
  then have s2: "g_card (snd (card_byte ch ?b2 e')) = Some (\<lambda>i. if i div 8192 = unat a div 8192 then 0xFF else img i)"
    if "card_at ch 0xF1 2 (push_bit 17 (ucast ?b1)) img e'" for e'
    using that unat_sector_base [OF assms(2)]
    by (simp add: card_at_def card_byte_def card_load_def card_command_def upd_ch_def card_dirty_fields card_put_def Let_def)
  show ?thesis
    using s2 [OF s1 [OF s0]] by (simp add: card_frame_def Let_def case_prod_beta)
qed

lemma card_program_frame:
  assumes "g_card e = Some img" "a < CARD_BYTES" "unat a + length ds \<le> 524288"
  shows "g_card (snd (card_frame ch (0xF2 # card_addr_bytes a @ ds) e))
    = Some (\<lambda>i. if unat a \<le> i \<and> i < unat a + length ds then img i AND ds ! (i - unat a) else img i)"
proof -
  have "card_at ch 0xF2 5 a img (snd (card_send ch (card_addr_bytes a)
      (snd (card_byte ch 0xF2 (upd_ch ch (\<lambda>c. c\<lparr>ch_pos := 0\<rparr>) e)))))"
    by (rule card_address_steps [OF card_start [OF assms(1)] _ assms(2)]) simp
  from card_program_steps [OF this, of ds] show ?thesis
    using assms(3) by (auto simp: card_frame_def card_send_append card_at_def Let_def case_prod_beta)
qed

lemma card_read_frame:
  assumes "g_card e = Some img" "a < CARD_BYTES" "unat a + n \<le> 524288"
  shows "drop 9 (fst (card_frame ch (0x52 # card_addr_bytes a @ replicate (4 + n) b) e)) = map img [unat a..<unat a + n]"
proof -
  let ?e1 = "snd (card_byte ch 0x52 (upd_ch ch (\<lambda>c. c\<lparr>ch_pos := 0\<rparr>) e))"
  let ?e2 = "snd (card_send ch (card_addr_bytes a) ?e1)"
  let ?e3 = "snd (card_send ch (replicate 4 b) ?e2)"
  have "card_at ch 0x52 5 a img ?e2"
    by (rule card_address_steps [OF card_start [OF assms(1)] _ assms(2)]) simp
  then have "fst (card_send ch (replicate n b) ?e3) = map img [unat a..<unat a + n]"
    using assms(3) by (intro card_read_steps [OF card_latency_steps]) simp_all
  moreover have "length (card_addr_bytes a) = 4" by (simp add: card_addr_bytes_def)
  ultimately show ?thesis
    by (simp add: card_frame_def card_send_append replicate_add Let_def case_prod_beta)
qed

text \<open>C33: what a save writes is what a load reads: erasing a sector, programming bytes inside it and
  reading them back, all through the card's byte protocol with its address and latency bytes, gives
  exactly the bytes programmed, whatever the sector held before.\<close>

theorem erase_program_read:
  assumes "g_card e = Some img" and "a < CARD_BYTES" and "unat a mod 8192 + length ds \<le> 8192"
  shows "let e1 = snd (card_frame ch [0xF1, ucast (drop_bit 17 a), ucast (drop_bit 9 a)] e);
      e2 = snd (card_frame ch (0xF2 # card_addr_bytes a @ ds) e1)
    in drop 9 (fst (card_frame ch (0x52 # card_addr_bytes a @ replicate (4 + length ds) b) e2)) = ds"
proof -
  have a: "unat a < 524288" using assms(2) by (simp add: word_less_nat_alt)
  then have "unat a div 8192 < 64" by auto
  moreover have d: "unat a div 8192 * 8192 + unat a mod 8192 = unat a" by simp
  ultimately have len: "unat a + length ds \<le> 524288" using assms(3) by linarith
  have sector: "i div 8192 = unat a div 8192" if "unat a \<le> i" "i < unat a + length ds" for i
  proof (rule div_nat_eqI)
    show "8192 * (unat a div 8192) \<le> i" using that d by linarith
    show "i < 8192 * Suc (unat a div 8192)" unfolding mult_Suc_right using that d assms(3) by linarith
  qed
  note F = card_read_frame [OF card_program_frame [OF card_erase_frame [OF assms(1,2)] assms(2) len] assms(2) len]
  have "(0xFF :: u8) = - 1" by simp
  then have ff: "(0xFF :: u8) AND x = x" for x by (simp only: and.left_neutral)
  have "map (\<lambda>i. if unat a \<le> i \<and> i < unat a + length ds
      then (if i div 8192 = unat a div 8192 then 0xFF else img i) AND ds ! (i - unat a)
      else (if i div 8192 = unat a div 8192 then 0xFF else img i)) [unat a..<unat a + length ds] = ds"
    by (rule nth_equalityI) (simp_all add: sector ff)
  then show ?thesis using F by (simp add: Let_def)
qed

theorem erase_program_read_witness:
  "let e1 = snd (card_frame 0 [0xF1, 0, 63] (card_load exi_zero));
       e2 = snd (card_frame 0 (0xF2 # card_addr_bytes 0x7E80 @ [0x12, 0x34]) e1)
   in drop 9 (fst (card_frame 0 (0x52 # card_addr_bytes 0x7E80 @ replicate 6 0) e2)) = [0x12, 0x34]"
  using erase_program_read [of "card_load exi_zero" "\<lambda>i. 0xFF" "0x7E80" "[0x12, 0x34]" 0 0]
  by (simp add: card_load_def exi_zero_def word_less_nat_alt)

section \<open>A formatted card verifies against the SRAM\<close>

text \<open>The serial the card library writes when it formats: the flash ID plus the scrambling sequence.\<close>

fun serial :: "u8 list \<Rightarrow> u64 \<Rightarrow> u8 list" where
  "serial [] r = []"
| "serial (x # xs) r =
     (let r1 = card_scramble_step r; r2 = card_scramble_step r1 AND 0x7FFF in (x + ucast r1) # serial xs r2)"

lemma flash_id_serial:
  "map h is = serial xs r \<Longrightarrow> flash_id_loop h is r = xs"
  by (induction xs arbitrary: "is" r) (auto simp: Let_def)

definition formatted :: "u8 list \<Rightarrow> (nat \<Rightarrow> u8) \<Rightarrow> bool" where
  "formatted fid h \<longleftrightarrow>
     length fid = 12 \<and> map h [0..<12] = serial fid (get64 (map h [12..<20]))
     \<and> get16 (h 508) (h 509) = ucast (fst (card_checksum h 508))
     \<and> get16 (h 510) (h 511) = ucast (snd (card_checksum h 508))"

lemma formatted_flash_id: "formatted fid h \<Longrightarrow> card_flash_id h = Some fid"
  using flash_id_serial [of h "[0..<12]"] by (simp add: formatted_def card_flash_id_def case_prod_beta)

lemma list_put_nth: "i < length xs \<Longrightarrow> list_put xs k ys ! i = (if k \<le> i \<and> i < k + length ys then ys ! (i - k) else xs ! i)"
  by (induction xs k ys rule: list_put.induct) (auto simp: nth_list_update nth_Cons' Suc_diff_le)

lemma length_list_put [simp]: "length (list_put xs k ys) = length xs"
  by (induction xs k ys rule: list_put.induct) auto

lemma fold_sum_shift: "fold (\<lambda>i acc. acc + f i) is (a :: 'a::comm_monoid_add) = a + sum_list (map f is)"
  by (induction "is" arbitrary: a) (simp_all add: add.assoc)

lemma ucast_add_u8: "(ucast (a + b :: u32) :: u8) = ucast a + ucast b"
  by (simp add: word_unat_eq_iff unsigned_ucast_eq take_bit_eq_mod unat_word_ariths mod_mod_cancel mod_add_eq)

lemma ucast_sum_u8: "(ucast (sum_list (map (\<lambda>i. ucast (f i :: u8) :: u32) is)) :: u8) = sum_list (map f is)"
proof (induction "is")
  case (Cons i js)
  have "(ucast (ucast (f i) :: u32) :: u8) = f i" by (rule bit_word_eqI) (auto simp: bit_simps)
  then show ?case using Cons by (simp add: ucast_add_u8)
qed simp

lemma ucast_not_u8: "(ucast (NOT w :: u32) :: u8) = NOT (ucast w)"
  by (rule bit_word_eqI) (auto simp: bit_simps)

lemma ucast_ones_u16: "(ucast (- 1 :: u16) :: u32) = 0xFFFF"
proof -
  have m: "(0xFFFF :: u32) = mask 16" by (simp add: mask_eq_exp_minus_1)
  show ?thesis unfolding m by (rule bit_word_eqI) (auto simp: bit_simps)
qed

text \<open>The SRAM for an identity of twelve bytes: where each field lands, and the two checks.\<close>

lemma sram_bytes_fields:
  fixes xs :: "u8 list"
  assumes "length xs = 12"
  shows "length (sram_bytes (Some xs)) = 64"
    and "map (\<lambda>i. sram_bytes (Some xs) ! (20 + i)) [0..<12] = xs"
    and "sram_bytes (Some xs) ! 58 = NOT (sum_list xs)"
    and "map (\<lambda>i. sram_bytes (Some xs) ! i) [12..<20] = [0, 0, 0, 0, 0, 0, 0, 4]"
    and "map (\<lambda>i. sram_bytes (Some xs) ! i) [0..<4] = [0, 4, 0xFF, 0xF8]"
proof -
  define s0 :: "u8 list" where "s0 = (replicate 64 0)[19 := 0x04]"
  define s1 where "s1 = list_put s0 20 xs"
  have l: "length s1 = 64" by (simp add: s1_def s0_def)
  have n: "s1 ! i = (if 20 \<le> i \<and> i < 32 then xs ! (i - 20) else if i = 19 then 4 else 0)" if "i < 64" for i
    using that assms by (auto simp: s1_def list_put_nth s0_def nth_list_update)
  have id: "map (\<lambda>i. s1 ! (20 + i)) [0..<12] = xs"
    by (rule nth_equalityI) (simp_all add: assms n)
  define s2 where "s2 = s1[58 := ucast (NOT (fold (\<lambda>i acc. acc + ucast (s1 ! (20 + i))) [0..<12] (0 :: u32))), 59 := 0xFF]"
  have c: "checksum_loop (\<lambda>i. s2 ! i) [12, 14, 16, 18] (0, 0) = (4, 0x3FFF8)"
    using l by (simp add: s2_def n nth_list_update Let_def not_eq_complement ucast_ones_u16)
  have b: "(1023 :: u8) = 255" "(262136 :: u8) = 248" by simp_all
  from c have s: "sram_bytes (Some xs) = s2[0 := 0, 1 := 4, 2 := 0xFF, 3 := 0xF8]"
    by (simp add: sram_bytes_def s0_def [symmetric] s1_def [symmetric] s2_def [symmetric] Let_def b del: checksum_loop.simps)
  show "length (sram_bytes (Some xs)) = 64" by (simp add: s s2_def l)
  show "map (\<lambda>i. sram_bytes (Some xs) ! (20 + i)) [0..<12] = xs"
    by (rule nth_equalityI) (simp_all add: s s2_def nth_list_update n l assms)
  have "(ucast (fold (\<lambda>i acc. acc + ucast (s1 ! (20 + i))) [0..<12] (0 :: u32)) :: u8) = sum_list (map (\<lambda>i. s1 ! (20 + i)) [0..<12])"
    unfolding fold_sum_shift add_0 by (rule ucast_sum_u8)
  then have "ucast (NOT (fold (\<lambda>i acc. acc + ucast (s1 ! (20 + i))) [0..<12] (0 :: u32))) = NOT (sum_list xs)"
    by (simp only: ucast_not_u8 id)
  then show "sram_bytes (Some xs) ! 58 = NOT (sum_list xs)"
    unfolding s s2_def using l by (simp only:) simp
  show "map (\<lambda>i. sram_bytes (Some xs) ! i) [12..<20] = [0, 0, 0, 0, 0, 0, 0, 4]"
    using l by (simp add: s s2_def n nth_list_update upt_rec)
  show "map (\<lambda>i. sram_bytes (Some xs) ! i) [0..<4] = [0, 4, 0xFF, 0xF8]"
    using l by (simp add: s s2_def n nth_list_update upt_rec)
qed

text \<open>a formatted card always mounts: for an image formatted anywhere, its serial scrambled from
  a flash ID and its header checksums right, the SRAM presented at the next boot carries exactly that
  flash ID, with the flash-ID checksum the mount recomputes and a checksum pair that is the sum and
  the complement sum of the four settings words.\<close>

theorem formatted_card_mounts:
  assumes "formatted fid h"
  shows "let s = sram_bytes (card_flash_id h)
    in length s = 64 \<and> map (\<lambda>i. s ! (20 + i)) [0..<12] = fid \<and> s ! 58 = NOT (sum_list fid)
      \<and> put16 (fst (checksum_loop (\<lambda>i. s ! i) [12, 14, 16, 18] (0, 0))) = [s ! 0, s ! 1]
      \<and> put16 (snd (checksum_loop (\<lambda>i. s ! i) [12, 14, 16, 18] (0, 0))) = [s ! 2, s ! 3]"
proof -
  have l: "length fid = 12" using assms by (simp add: formatted_def)
  let ?s = "sram_bytes (Some fid)"
  note F = sram_bytes_fields [OF l]
  have w: "?s ! 12 = 0" "?s ! 13 = 0" "?s ! 14 = 0" "?s ! 15 = 0" "?s ! 16 = 0" "?s ! 17 = 0" "?s ! 18 = 0" "?s ! 19 = 4"
    using F(4) by (simp_all add: upt_rec)
  have c: "?s ! 0 = 0" "?s ! 1 = 4" "?s ! 2 = 0xFF" "?s ! 3 = 0xF8"
    using F(5) by (simp_all add: upt_rec numeral_2_eq_2 numeral_3_eq_3)
  have "checksum_loop (\<lambda>i. ?s ! i) [12, 14, 16, 18] (0, 0) = (4, 0x3FFF8)"
    by (simp add: w Let_def ucast_ones_u16)
  then show ?thesis
    using F(1-3) by (simp add: formatted_flash_id [OF assms] Let_def c c(2) [simplified] put16_def del: checksum_loop.simps)
qed

lemma checksum_loop_cong:
  "(\<And>i. i \<in> set is \<Longrightarrow> p i = q i \<and> p (i + 1) = q (i + 1)) \<Longrightarrow> checksum_loop p is sv = checksum_loop q is sv"
  by (induction q "is" sv rule: checksum_loop.induct) (simp_all add: Let_def)

text \<open>An image with a given identity, as formatting a blank card lays it down.\<close>

definition format_image :: "u8 list \<Rightarrow> nat \<Rightarrow> u8" where
  "format_image fid =
     (let h0 = (\<lambda>i. if i < 12 then serial fid 0 ! i else 0);
          (a, b) = card_checksum h0 508
      in h0(508 := ucast (drop_bit 8 a), 509 := ucast a, 510 := ucast (drop_bit 8 b), 511 := ucast b))"

lemma length_serial [simp]: "length (serial xs r) = length xs"
  by (induction xs arbitrary: r) (simp_all add: Let_def)

lemma get16_u16: "get16 (ucast (drop_bit 8 (w :: u16))) (ucast w) = ucast w"
  unfolding get16_def by (rule bit_word_eqI) (auto simp: bit_simps not_less dest: bit_imp_le_length)

lemma format_image_formatted:
  assumes "length fid = 12"
  shows "formatted fid (format_image fid)"
proof -
  let ?base = "\<lambda>i. if i < 12 then serial fid 0 ! i else 0" and ?h = "format_image fid"
  have h: "?h i = ?base i" if "i < 508" for i
    using that by (simp add: format_image_def Let_def case_prod_beta)
  have "checksum_loop ?h (map (\<lambda>k. 2 * k) [0..<(508 + 1) div 2]) (0, 0)
      = checksum_loop ?base (map (\<lambda>k. 2 * k) [0..<(508 + 1) div 2]) (0, 0)"
    by (rule checksum_loop_cong) (auto simp: h)
  then have c: "card_checksum ?h 508 = card_checksum ?base 508"
    by (simp only: card_checksum_def)
  have "replicate 8 (0 :: u8) = [0, 0, 0, 0, 0, 0, 0, 0]" by (simp add: numeral_eq_Suc)
  moreover have "map ?h [12..<20] = [0, 0, 0, 0, 0, 0, 0, 0]" by (simp add: h)
  ultimately have "map ?h [12..<20] = replicate 8 0" by simp
  moreover have "foldl (\<lambda>acc b. push_bit 8 acc OR ucast b) 0 (replicate n (0 :: u8)) = (0 :: u64)" for n
    by (induction n) simp_all
  then have "get64 (replicate 8 0) = 0" by (simp add: get64_def)
  ultimately have r: "get64 (map ?h [12..<20]) = 0" by simp
  have m: "map ?h [0..<12] = serial fid 0"
    using assms by (intro nth_equalityI) (simp_all add: h)
  have "?h 508 = ucast (drop_bit 8 (fst (card_checksum ?base 508)))" "?h 509 = ucast (fst (card_checksum ?base 508))"
    "?h 510 = ucast (drop_bit 8 (snd (card_checksum ?base 508)))" "?h 511 = ucast (snd (card_checksum ?base 508))"
    unfolding format_image_def Let_def case_prod_beta by (simp_all only: fun_upd_apply refl if_True if_False) simp_all
  then show ?thesis
    unfolding formatted_def c r m by (simp only: assms get16_u16 simp_thms)
qed

theorem formatted_card_mounts_witness:
  "map (\<lambda>i. sram_bytes (card_flash_id (format_image CARD_FLASH_ID)) ! (20 + i)) [0..<12] = CARD_FLASH_ID"
  using formatted_card_mounts [OF format_image_formatted [of CARD_FLASH_ID]]
  by (simp add: CARD_FLASH_ID_def Let_def del: checksum_loop.simps)

end
