(* ===== verification/Exi.thy ===== *)
theory Exi
  imports Aram ExiCard
begin

text \<open>
  runtime/exi.c, the three channels: their registers, immediate and DMA transfers, chip selects
  and interrupt bits, over the devices of \<open>ExiCard\<close>. The EXI state is one field of the device
  record. A DMA reads and writes guest memory with the accessors of cpu.h; its addresses never
  lie in the hardware range, so the \<open>io\<close> it is given does not matter (\<open>card_dma_io\<close>).
\<close>

record exi_dev = aram_dev +
  g_exi :: exi

definition EXI_BASE :: u32 where "EXI_BASE = 0xCC006800"

definition exi_upd :: "(exi \<Rightarrow> exi) \<Rightarrow> 'm exi_dev_scheme cpu \<Rightarrow> 'm exi_dev_scheme cpu" where
  "exi_upd f s = dev (\<lambda>d. d\<lparr>g_exi := f (g_exi d)\<rparr>) s"

definition on_exi :: "(exi \<Rightarrow> 'a \<times> exi) \<Rightarrow> 'm exi_dev_scheme cpu \<Rightarrow> 'a \<times> 'm exi_dev_scheme cpu" where
  "on_exi f s = (case f (g_exi (user s)) of (x, e) \<Rightarrow> (x, dev (\<lambda>d. d\<lparr>g_exi := e\<rparr>) s))"

definition chan :: "nat \<Rightarrow> 'm exi_dev_scheme cpu \<Rightarrow> channel" where
  "chan ch s = g_ch (g_exi (user s)) ch"

section \<open>DMA against the card\<close>

fun card_dma_loop ::
  "'m exi_dev_scheme io \<Rightarrow> nat \<Rightarrow> u32 \<Rightarrow> bool \<Rightarrow> nat list \<Rightarrow> 'm exi_dev_scheme cpu \<Rightarrow> 'm exi_dev_scheme cpu" where
  "card_dma_loop io ch mar send [] s = s"
| "card_dma_loop io ch mar send (i # is) s =
     (let ea = (mar OR 0x80000000) + of_nat i
      in card_dma_loop io ch mar send is
           (if send then (case mem_r8 io ea s of (b, s1) \<Rightarrow> snd (on_exi (card_byte ch b) s1))
            else (case on_exi (card_byte ch 0) s of (out, s1) \<Rightarrow> mem_w8 io ea out s1)))"

definition card_dma ::
  "'m exi_dev_scheme io \<Rightarrow> nat \<Rightarrow> u32 \<Rightarrow> u32 \<Rightarrow> bool \<Rightarrow> 'm exi_dev_scheme cpu \<Rightarrow> 'm exi_dev_scheme cpu" where
  "card_dma io ch mar n send s =
     (let s1 = exi_upd card_load s
      in if (mar AND MEM_MASK) + n > of_nat MEM1_SIZE then s1
         else card_dma_loop io ch mar send [0..<unat n] s1)"

section \<open>Channels\<close>

definition dev_byte :: "nat \<Rightarrow> u8 \<Rightarrow> exi \<Rightarrow> u8 \<times> exi" where
  "dev_byte ch b e =
     (if ch = 0 \<and> ch_selected (g_ch e ch) = 0 then card_byte ch b e
      else if ch = 0 \<and> ch_selected (g_ch e ch) = 1 then rtc_byte ch b e
      else (0xFF, e))"

fun rtc_dma_loop ::
  "'m exi_dev_scheme io \<Rightarrow> nat \<Rightarrow> u32 \<Rightarrow> bool \<Rightarrow> nat list \<Rightarrow> 'm exi_dev_scheme cpu \<Rightarrow> 'm exi_dev_scheme cpu" where
  "rtc_dma_loop io ch mar send [] s = s"
| "rtc_dma_loop io ch mar send (i # is) s =
     (let ea = (mar OR 0x80000000) + of_nat i
      in rtc_dma_loop io ch mar send is
           (if send then (case mem_r8 io ea s of (b, s1) \<Rightarrow> snd (on_exi (rtc_byte ch b) s1))
            else (case on_exi (rtc_byte ch 0) s of (out, s1) \<Rightarrow> mem_w8 io ea out s1)))"

text \<open>The immediate transfer: \<open>TLEN + 1\<close> bytes through DATA, most significant first.\<close>

fun imm_loop :: "nat \<Rightarrow> u32 \<Rightarrow> u32 \<Rightarrow> nat list \<Rightarrow> u32 \<Rightarrow> exi \<Rightarrow> u32 \<times> exi" where
  "imm_loop ch rw inp [] out e = (out, e)"
| "imm_loop ch rw inp (i # is) out e =
     (let b = ucast (drop_bit (8 * (3 - i)) inp);
          (r, e1) = dev_byte ch (if rw = 1 then b else if rw = 0 then 0 else b) e
      in imm_loop ch rw inp is (out OR push_bit (8 * (3 - i)) (ucast r)) e1)"

definition transfer ::
  "'m exi_dev_scheme io \<Rightarrow> nat \<Rightarrow> 'm exi_dev_scheme cpu \<Rightarrow> 'm exi_dev_scheme cpu" where
  "transfer io ch s =
     (let c = chan ch s; rw = drop_bit 2 (ch_cr c) AND 3;
          s1 = (if nonzero (ch_cr c AND 2) then
                  (let n = ch_len c AND NOT 31; s0 = exi_upd (\<lambda>e. e\<lparr>g_dma := g_dma e + 1\<rparr>) s
                   in if ch = 0 \<and> ch_selected c = 0 then card_dma io ch (ch_mar c) n (rw = 1) s0
                      else if ch = 0 \<and> ch_selected c = 1 then
                        rtc_dma_loop io ch (ch_mar c) (rw = 1)
                          (takeWhile (\<lambda>i. unat (ch_mar c AND MEM_MASK) + i < MEM1_SIZE) [0..<unat n]) s0
                      else s0)
                else
                  (let n = unat (drop_bit 4 (ch_cr c) AND 3) + 1;
                       (out, s2) = on_exi (imm_loop ch rw (ch_data c) [0..<n] 0)
                                     (exi_upd (\<lambda>e. e\<lparr>g_imm := g_imm e + 1\<rparr>) s)
                   in if rw \<noteq> 1 then exi_upd (upd_ch ch (\<lambda>c. c\<lparr>ch_data := out\<rparr>)) s2 else s2))
      in exi_upd (upd_ch ch (\<lambda>c. c\<lparr>ch_cr := ch_cr c AND NOT 1, ch_csr := ch_csr c OR EXI_CSR_TCINT\<rparr>)) s1)"

definition exi_window :: "u32 \<Rightarrow> bool" where
  "exi_window ea \<longleftrightarrow> EXI_BASE \<le> ea \<and> ea < EXI_BASE + 0x40"

definition exi_read :: "u32 \<Rightarrow> nat \<Rightarrow> 'm exi_dev_scheme cpu \<Rightarrow> u64 option \<times> 'm exi_dev_scheme cpu" where
  "exi_read ea sz s =
     (if ea < EXI_BASE \<or> ea \<ge> EXI_BASE + 0x40 \<or> sz \<noteq> 4 then (None, s)
      else let ch = unat (ea - EXI_BASE) div 0x14; reg = unat (ea - EXI_BASE) mod 0x14 in
        if ch > 2 then (None, s)
        else if reg = 0x00 then (Some (ucast (ch_csr (chan ch s) OR (if ch = 0 then EXI_CSR_EXT else 0))), s)
        else if reg = 0x04 then (Some (ucast (ch_mar (chan ch s))), s)
        else if reg = 0x08 then (Some (ucast (ch_len (chan ch s))), s)
        else if reg = 0x0C then (Some (ucast (ch_cr (chan ch s))), s)
        else if reg = 0x10 then (Some (ucast (ch_data (chan ch s))), s)
        else (None, s))"

text \<open>The device the chip-select bits name, or -1.\<close>

definition selected_by :: "u32 \<Rightarrow> int" where
  "selected_by w =
     (if nonzero (w AND 0x0080) then 0 else if nonzero (w AND 0x0100) then 1
      else if nonzero (w AND 0x0200) then 2 else -1)"

text \<open>The bits a CSR write leaves: acknowledged interrupts go, the stored ones are replaced.\<close>

definition csr_latch :: "nat \<Rightarrow> u32 \<Rightarrow> exi \<Rightarrow> exi" where
  "csr_latch ch w e =
     upd_ch ch (\<lambda>c. c\<lparr>ch_csr := (ch_csr c AND EXI_CSR_W1C AND NOT (w AND EXI_CSR_W1C)) OR (w AND EXI_CSR_STORED)\<rparr>) e"

definition csr_write :: "nat \<Rightarrow> u32 \<Rightarrow> exi \<Rightarrow> exi" where
  "csr_write ch w e =
     (let sel = selected_by w;
          e1 = csr_latch ch w e
      in if sel \<noteq> ch_selected (g_ch e1 ch) then
           (let e2 = (if ch = 0 \<and> ch_selected (g_ch e1 ch) = 0 then card_deselected ch e1 else e1)
            in (upd_ch ch (\<lambda>c. c\<lparr>ch_selected := sel, ch_pos := 0\<rparr>) e2)\<lparr>g_rtc_cmd := 0\<rparr>)
         else e1)"

definition exi_write ::
  "'m exi_dev_scheme io \<Rightarrow> u32 \<Rightarrow> nat \<Rightarrow> u64 \<Rightarrow> 'm exi_dev_scheme cpu \<Rightarrow> bool \<times> 'm exi_dev_scheme cpu" where
  "exi_write io ea sz v s =
     (let w = ucast v :: u32 in
      if ea < EXI_BASE \<or> ea \<ge> EXI_BASE + 0x40 \<or> sz \<noteq> 4 then (False, s)
      else let ch = unat (ea - EXI_BASE) div 0x14; reg = unat (ea - EXI_BASE) mod 0x14 in
        if ch > 2 then (False, s)
        else if reg = 0x00 then (True, exi_upd (csr_write ch w) s)
        else if reg = 0x04 then (True, exi_upd (upd_ch ch (\<lambda>c. c\<lparr>ch_mar := w AND 0x03FFFFE0\<rparr>)) s)
        else if reg = 0x08 then (True, exi_upd (upd_ch ch (\<lambda>c. c\<lparr>ch_len := w AND 0x03FFFFE0\<rparr>)) s)
        else if reg = 0x0C then
          (let s1 = exi_upd (upd_ch ch (\<lambda>c. c\<lparr>ch_cr := w AND 0x3F\<rparr>)) s
           in (True, if nonzero (w AND 1) then transfer io ch s1 else s1))
        else if reg = 0x10 then (True, exi_upd (upd_ch ch (\<lambda>c. c\<lparr>ch_data := w\<rparr>)) s)
        else (True, s))"

fun pending_bits :: "(nat \<Rightarrow> bool) \<Rightarrow> nat list \<Rightarrow> u32" where
  "pending_bits p [] = 0"
| "pending_bits p (ch # chs) = (if p ch then push_bit ch 1 else 0) OR pending_bits p chs"

definition exi_irq_pending :: "'m exi_dev_scheme cpu \<Rightarrow> u32" where
  "exi_irq_pending s =
     pending_bits (\<lambda>ch. nonzero (ch_csr (chan ch s) AND EXI_CSR_TCINT) \<and> nonzero (ch_csr (chan ch s) AND EXI_CSR_TCINTMSK)) [0, 1, 2]"

definition exi_exi_irq_pending :: "'m exi_dev_scheme cpu \<Rightarrow> u32" where
  "exi_exi_irq_pending s =
     pending_bits (\<lambda>ch. nonzero (ch_csr (chan ch s) AND EXI_CSR_EXIINT) \<and> nonzero (ch_csr (chan ch s) AND EXI_CSR_EXIINTMSK)) [0, 1, 2]"

interpretation exi_io: mmio_device exi_read "exi_write io" exi_window
  by unfold_locales (auto simp: exi_read_def exi_write_def exi_window_def linorder_not_less Let_def)

section \<open>Lemmas\<close>

lemma exi_upd_user [simp]: "g_exi (user (exi_upd f s)) = f (g_exi (user s))" "mem (exi_upd f s) = mem s"
  by (simp_all add: exi_upd_def)

lemma on_exi_simps: "fst (on_exi f s) = fst (f (g_exi (user s)))" "snd (on_exi f s) = exi_upd (\<lambda>e. snd (f e)) s"
  by (simp_all add: on_exi_def exi_upd_def dev_def case_prod_beta)

lemma exi_upd_exi_upd [simp]: "exi_upd f (exi_upd g s) = exi_upd (\<lambda>e. f (g e)) s"
  by (simp add: exi_upd_def)

section \<open>DMA addresses\<close>

definition dma_base :: "u32 \<Rightarrow> nat" where
  "dma_base mar = unat (mar AND MEM_MASK)"

lemma dma_address:
  assumes "mar \<le> 0x03FFFFE0" "dma_base mar + i < MEM1_SIZE"
  shows "\<not> is_mmio ((mar OR 0x80000000) + of_nat i)" and "mem_ptr ((mar OR 0x80000000) + of_nat i) = dma_base mar + i"
proof -
  have m: "unat mar < 2 ^ 26" using assms(1) by (simp add: word_le_nat_alt)
  have hi: "(0x80000000 :: u32) = push_bit 31 1" by simp
  have b31: "bit (0x80000000 :: u32) n \<longleftrightarrow> n = 31" if "n < 32" for n
    unfolding hi using that by (simp only: bit_push_bit_iff bit_1_iff) auto
  have d: "mar AND 0x80000000 = 0"
  proof (rule bit_word_eqI)
    fix n assume "n < LENGTH(32)"
    then have "n < 32" by simp
    then show "bit (mar AND 0x80000000) n = bit (0 :: u32) n"
      using bit_above_unat [OF m, of n] by (simp only: bit_and_iff b31 bit_0_eq) auto
  qed
  have "mar OR 0x80000000 = mar + 0x80000000"
    using d by (simp add: disjunctive_add_eq_or)
  then have ea: "(mar OR 0x80000000) + of_nat i = 0x80000000 + (mar + of_nat i)" by simp
  have i: "i < 0x01800000" using assms(2) by (simp add: MEM1_SIZE_def)
  have u: "unat (mar + of_nat i) = unat mar + i"
    using m i by (intro unat_add_le) simp
  have v: "unat ((mar OR 0x80000000) + of_nat i) = 0x80000000 + (unat mar + i)"
    unfolding ea using u m i by (simp add: unat_word_ariths)
  have "unat (drop_bit 24 ((mar OR 0x80000000) + of_nat i)) = (0x80000000 + (unat mar + i)) div 2 ^ 24"
    by (simp only: unat_drop_bit_eq v) (simp add: drop_bit_eq_div)
  then have "unat (drop_bit 24 ((mar OR 0x80000000) + of_nat i)) < 0xCC" using m i by simp
  then have "drop_bit 24 ((mar OR 0x80000000) + of_nat i) < 0xCC" by (simp add: word_less_nat_alt)
  then show "\<not> is_mmio ((mar OR 0x80000000) + of_nat i)" by (auto simp: is_mmio_def Let_def)
  have b: "dma_base mar = unat mar mod 2 ^ 25"
    using mem_ptr_mod [of mar] by (simp add: dma_base_def mem_ptr_def)
  have "mem_ptr ((mar OR 0x80000000) + of_nat i) = (unat mar + i) mod 2 ^ 25"
    unfolding mem_ptr_mod v using mod_add_left_eq [of "0x80000000" "2 ^ 25" "unat mar + i"] by simp
  also have "\<dots> = (unat mar mod 2 ^ 25 + i) mod 2 ^ 25" by (simp only: mod_add_left_eq)
  also have "\<dots> = dma_base mar + i" using assms(2) by (simp add: b MEM1_SIZE_def)
  finally show "mem_ptr ((mar OR 0x80000000) + of_nat i) = dma_base mar + i" .
qed

lemma dma_send_loop:
  assumes "mar \<le> 0x03FFFFE0"
  shows "\<forall>i\<in>set is. dma_base mar + i < MEM1_SIZE \<Longrightarrow>
    card_dma_loop io ch mar True is s = exi_upd (\<lambda>e. snd (card_send ch (map (\<lambda>i. mem s (dma_base mar + i)) is) e)) s"
proof (induction "is" arbitrary: s)
  case Nil
  then show ?case by (simp add: exi_upd_def dev_def)
next
  case (Cons i js)
  have "mem_r8 io ((mar OR 0x80000000) + of_nat i) s = (mem s (dma_base mar + i), s)"
    using dma_address [OF assms, of i] Cons.prems by (simp add: mem_r8_def)
  then show ?case using Cons by (simp add: on_exi_simps Let_def case_prod_beta)
qed

lemma exi_upd_mem: "(exi_upd f s)\<lparr>mem := m\<rparr> = exi_upd f (s\<lparr>mem := m\<rparr>)"
  by (simp add: exi_upd_def dev_def)

lemma wr_bytes_Cons: "wr_bytes m a (b # bs) = wr_bytes (m(a := b)) (Suc a) bs"
  by (auto simp: wr_bytes_def fun_eq_iff nth_Cons')

lemma dma_receive_loop:
  assumes "mar \<le> 0x03FFFFE0"
  shows "dma_base mar + k + n \<le> MEM1_SIZE \<Longrightarrow>
    card_dma_loop io ch mar False [k..<k + n] s
      = (exi_upd (\<lambda>e. snd (card_send ch (replicate n 0) e)) s)
          \<lparr>mem := wr_bytes (mem s) (dma_base mar + k) (fst (card_send ch (replicate n 0) (g_exi (user s))))\<rparr>"
proof (induction n arbitrary: k s)
  case 0
  then show ?case by (simp add: exi_upd_def dev_def)
next
  case (Suc n)
  let ?e = "g_exi (user s)" and ?ea = "(mar OR 0x80000000) + of_nat k"
  let ?s = "(exi_upd (\<lambda>e. snd (card_byte ch 0 e)) s)\<lparr>mem := (mem s)(dma_base mar + k := fst (card_byte ch 0 ?e))\<rparr>"
  have a: "\<not> is_mmio ?ea" "mem_ptr ?ea = dma_base mar + k"
    using dma_address [OF assms, of k] Suc.prems by simp_all
  have "card_dma_loop io ch mar False [k..<k + Suc n] s = card_dma_loop io ch mar False [Suc k..<Suc k + n] ?s"
    using a by (simp add: upt_conv_Cons on_exi_def mem_w8_def exi_upd_def dev_def Let_def case_prod_beta del: upt_Suc)
  also have "\<dots> = (exi_upd (\<lambda>e. snd (card_send ch (replicate n 0) e)) ?s)
      \<lparr>mem := wr_bytes (mem ?s) (dma_base mar + Suc k) (fst (card_send ch (replicate n 0) (g_exi (user ?s))))\<rparr>"
    using Suc.prems by (intro Suc.IH) simp
  finally show ?case
    by (simp add: exi_upd_mem Let_def case_prod_beta wr_bytes_Cons exi_upd_def dev_def)
qed

section \<open>What a transfer leaves of the registers\<close>

text \<open>All five registers of a channel, and what its chip selects name.\<close>

definition same_regs :: "channel \<Rightarrow> channel \<Rightarrow> bool" where
  "same_regs c c' \<longleftrightarrow> ch_csr c' = ch_csr c \<and> ch_mar c' = ch_mar c \<and> ch_len c' = ch_len c \<and> ch_cr c' = ch_cr c
     \<and> ch_data c' = ch_data c \<and> ch_selected c' = ch_selected c"

lemma same_regs_refl [simp]: "same_regs c c"
  by (simp add: same_regs_def)

lemma same_regs_trans: "same_regs a b \<Longrightarrow> same_regs b c \<Longrightarrow> same_regs a c"
  by (simp add: same_regs_def)

definition regs_kept :: "exi \<Rightarrow> exi \<Rightarrow> bool" where
  "regs_kept e e' \<longleftrightarrow> (\<forall>k. same_regs (g_ch e k) (g_ch e' k))"

lemma regs_kept_refl [simp]: "regs_kept e e"
  by (simp add: regs_kept_def)

lemma regs_kept_trans: "regs_kept a b \<Longrightarrow> regs_kept b c \<Longrightarrow> regs_kept a c"
  using same_regs_trans by (fastforce simp: regs_kept_def)

lemma g_ch_card_load [simp]: "g_ch (card_load e) = g_ch e"
  by (simp add: card_load_def split: option.splits)

lemma g_ch_card_command [simp]: "g_ch (snd (card_command p b e)) = g_ch e"
  by (simp add: card_command_def card_dirty_def card_put_def Let_def)

lemma card_byte_regs: "regs_kept e (snd (card_byte ch b e))"
  by (auto simp: regs_kept_def same_regs_def card_byte_def upd_ch_def Let_def case_prod_beta)

lemma g_ch_sram_init [simp]: "g_ch (sram_init e) = g_ch e"
  by (simp add: sram_init_def Let_def)

lemma g_ch_rtc_byte: "g_ch (snd (rtc_byte ch b e)) = (g_ch e)(ch := (g_ch e ch)\<lparr>ch_pos := ch_pos (g_ch e ch) + 1\<rparr>)"
  by (simp add: rtc_byte_def rtc_seconds_def upd_ch_def Let_def)

lemma rtc_byte_regs: "regs_kept e (snd (rtc_byte ch b e))"
  by (simp add: regs_kept_def same_regs_def g_ch_rtc_byte)

lemma dev_byte_regs: "regs_kept e (snd (dev_byte ch b e))"
  by (simp add: dev_byte_def card_byte_regs rtc_byte_regs)

lemma imm_loop_regs: "regs_kept e (snd (imm_loop ch rw inp is out e))"
proof (induction "is" arbitrary: out e)
  case (Cons i js)
  show ?case
    by (simp only: imm_loop.simps Let_def case_prod_beta) (rule regs_kept_trans [OF dev_byte_regs Cons.IH])
qed simp

lemma card_send_regs: "regs_kept e (snd (card_send ch bs e))"
proof (induction bs arbitrary: e)
  case (Cons b bs)
  show ?case
    by (simp only: card_send.simps Let_def case_prod_beta snd_conv) (rule regs_kept_trans [OF card_byte_regs Cons.IH])
qed simp

lemma rtc_loop_regs:
  assumes "mar \<le> 0x03FFFFE0"
  shows "\<forall>i\<in>set is. dma_base mar + i < MEM1_SIZE \<Longrightarrow>
    regs_kept (g_exi (user s)) (g_exi (user (rtc_dma_loop io ch mar send is s)))"
proof (induction "is" arbitrary: s)
  case (Cons i js)
  let ?ea = "(mar OR 0x80000000) + of_nat i"
  let ?s = "if send then (case mem_r8 io ?ea s of (b, s1) \<Rightarrow> snd (on_exi (rtc_byte ch b) s1))
            else (case on_exi (rtc_byte ch 0) s of (out, s1) \<Rightarrow> mem_w8 io ?ea out s1)"
  have "\<not> is_mmio ?ea" using dma_address [OF assms, of i] Cons.prems by simp
  then have "\<exists>b. g_exi (user ?s) = snd (rtc_byte ch b (g_exi (user s)))"
    by (auto simp: on_exi_def mem_r8_def mem_w8_def case_prod_beta)
  then have "regs_kept (g_exi (user s)) (g_exi (user ?s))" using rtc_byte_regs by auto
  moreover have "regs_kept (g_exi (user ?s)) (g_exi (user (rtc_dma_loop io ch mar send js ?s)))"
    using Cons.prems by (intro Cons.IH) simp
  ultimately show ?case by (simp only: rtc_dma_loop.simps Let_def) (rule regs_kept_trans)
qed simp

lemma dma_guard:
  assumes "n \<le> 0x03FFFFE0"
  shows "(mar AND MEM_MASK) + n > of_nat MEM1_SIZE \<longleftrightarrow> MEM1_SIZE < dma_base mar + unat n"
proof -
  have "unat (mar AND MEM_MASK) < 2 ^ 25"
    using mem_ptr_less [of mar] by (simp add: mem_ptr_def)
  then have "unat ((mar AND MEM_MASK) + n) = dma_base mar + unat n"
    using assms by (simp add: dma_base_def unat_word_ariths word_le_nat_alt)
  then show ?thesis by (simp add: word_less_nat_alt MEM1_SIZE_def)
qed

lemma card_dma_outside:
  "n \<le> 0x03FFFFE0 \<Longrightarrow> \<not> dma_base mar + unat n \<le> MEM1_SIZE \<Longrightarrow> card_dma io ch mar n send s = exi_upd card_load s"
  by (simp add: card_dma_def dma_guard)

lemma card_dma_inside:
  assumes "mar \<le> 0x03FFFFE0" "n \<le> 0x03FFFFE0" "dma_base mar + unat n \<le> MEM1_SIZE"
  shows "card_dma io ch mar n True s
      = exi_upd (\<lambda>e. snd (card_send ch (rd_bytes (mem s) (dma_base mar) (unat n)) (card_load e))) s"
    and "card_dma io ch mar n False s
      = (exi_upd (\<lambda>e. snd (card_send ch (replicate (unat n) 0) (card_load e))) s)
          \<lparr>mem := wr_bytes (mem s) (dma_base mar)
             (fst (card_send ch (replicate (unat n) 0) (card_load (g_exi (user s)))))\<rparr>"
  using dma_send_loop [OF assms(1), of "[0..<unat n]" io ch "exi_upd card_load s"]
    dma_receive_loop [OF assms(1), of 0 "unat n" io ch "exi_upd card_load s"] assms(3)
  by (simp_all add: card_dma_def dma_guard [OF assms(2)] rd_bytes_def exi_upd_mem)

lemma card_dma_regs:
  assumes "mar \<le> 0x03FFFFE0" "n \<le> 0x03FFFFE0"
  shows "regs_kept (g_exi (user s)) (g_exi (user (card_dma io ch mar n send s)))"
proof (cases "dma_base mar + unat n \<le> MEM1_SIZE")
  case True
  have "regs_kept e (snd (card_send ch bs (card_load e)))" for bs e
    using card_send_regs [of "card_load e" ch bs] by (simp add: regs_kept_def)
  then show ?thesis
    by (cases send) (simp_all add: card_dma_inside [OF assms True] exi_upd_def)
next
  case False
  then show ?thesis by (simp add: card_dma_outside [OF assms(2)] regs_kept_def)
qed

text \<open>a card DMA is the byte stream of the immediate path: for every range inside main memory a
  DMA write sends the card exactly the bytes of the range one after the other, and a DMA read stores
  in the range exactly what the card answers byte by byte, and touches no other byte of memory.\<close>

theorem card_dma_is_byte_stream:
  assumes "mar \<le> 0x03FFFFE0" and "n \<le> 0x03FFFFE0" and "dma_base mar + unat n \<le> MEM1_SIZE"
  shows "card_dma io ch mar n True s
      = exi_upd (\<lambda>e. snd (card_send ch (rd_bytes (mem s) (dma_base mar) (unat n)) (card_load e))) s
    \<and> card_dma io ch mar n False s
      = (exi_upd (\<lambda>e. snd (card_send ch (replicate (unat n) 0) (card_load e))) s)
          \<lparr>mem := wr_bytes (mem s) (dma_base mar)
             (fst (card_send ch (replicate (unat n) 0) (card_load (g_exi (user s)))))\<rparr>"
  by (intro conjI card_dma_inside [OF assms])

text \<open>The address and length registers as the write handlers leave them.\<close>

definition exi_regs_ok :: "'m exi_dev_scheme cpu \<Rightarrow> bool" where
  "exi_regs_ok s \<longleftrightarrow> (\<forall>ch. ch_mar (chan ch s) \<le> 0x03FFFFE0 \<and> ch_len (chan ch s) \<le> 0x03FFFFE0)"

lemma and_not_31_le: "(w :: u32) \<le> 0x03FFFFE0 \<Longrightarrow> w AND NOT 31 \<le> 0x03FFFFE0"
  using word_and_le2 [of w "NOT 31"] by (rule order_trans)

definition transfer_body :: "'m exi_dev_scheme io \<Rightarrow> nat \<Rightarrow> 'm exi_dev_scheme cpu \<Rightarrow> 'm exi_dev_scheme cpu" where
  "transfer_body io ch s =
     (let c = chan ch s; rw = drop_bit 2 (ch_cr c) AND 3
      in if nonzero (ch_cr c AND 2) then
           (let n = ch_len c AND NOT 31; s0 = exi_upd (\<lambda>e. e\<lparr>g_dma := g_dma e + 1\<rparr>) s
            in if ch = 0 \<and> ch_selected c = 0 then card_dma io ch (ch_mar c) n (rw = 1) s0
               else if ch = 0 \<and> ch_selected c = 1 then
                 rtc_dma_loop io ch (ch_mar c) (rw = 1)
                   (takeWhile (\<lambda>i. unat (ch_mar c AND MEM_MASK) + i < MEM1_SIZE) [0..<unat n]) s0
               else s0)
         else
           (let n = unat (drop_bit 4 (ch_cr c) AND 3) + 1;
                (out, s2) = on_exi (imm_loop ch rw (ch_data c) [0..<n] 0)
                              (exi_upd (\<lambda>e. e\<lparr>g_imm := g_imm e + 1\<rparr>) s)
            in if rw \<noteq> 1 then exi_upd (upd_ch ch (\<lambda>c. c\<lparr>ch_data := out\<rparr>)) s2 else s2))"

lemma transfer_split:
  "transfer io ch s = exi_upd (upd_ch ch (\<lambda>c. c\<lparr>ch_cr := ch_cr c AND NOT 1, ch_csr := ch_csr c OR EXI_CSR_TCINT\<rparr>))
     (transfer_body io ch s)"
  by (simp only: transfer_def transfer_body_def Let_def)

lemma transfer_body_cases:
  fixes s :: "'m exi_dev_scheme cpu" and ch :: nat
  defines "c \<equiv> chan ch s" and "s0 \<equiv> exi_upd (\<lambda>e. e\<lparr>g_dma := g_dma e + 1\<rparr>) s"
  shows "nonzero (ch_cr c AND 2) \<Longrightarrow> ch = 0 \<and> ch_selected c = 0 \<Longrightarrow> transfer_body io ch s
      = card_dma io ch (ch_mar c) (ch_len c AND NOT 31) (drop_bit 2 (ch_cr c) AND 3 = 1) s0"
    and "nonzero (ch_cr c AND 2) \<Longrightarrow> ch = 0 \<and> ch_selected c = 1 \<Longrightarrow> transfer_body io ch s
      = rtc_dma_loop io ch (ch_mar c) (drop_bit 2 (ch_cr c) AND 3 = 1)
          (takeWhile (\<lambda>i. unat (ch_mar c AND MEM_MASK) + i < MEM1_SIZE) [0..<unat (ch_len c AND NOT 31)]) s0"
    and "nonzero (ch_cr c AND 2) \<Longrightarrow> \<not> (ch = 0 \<and> ch_selected c = 0) \<Longrightarrow> \<not> (ch = 0 \<and> ch_selected c = 1) \<Longrightarrow>
      transfer_body io ch s = s0"
  unfolding c_def s0_def transfer_body_def Let_def by auto

text \<open>What DATA of the channel holds after a transfer: an immediate one that reads puts the device's
  answers there, the first in the top byte, to the bytes of DATA or to zeros; every other leaves it.\<close>

fun exchange :: "nat \<Rightarrow> u8 list \<Rightarrow> exi \<Rightarrow> u8 list \<times> exi" where
  "exchange ch [] e = ([], e)"
| "exchange ch (b # bs) e = (case dev_byte ch b e of (r, e1) \<Rightarrow> case exchange ch bs e1 of (rs, e2) \<Rightarrow> (r # rs, e2))"

definition imm_sent :: "u32 \<Rightarrow> u32 \<Rightarrow> u8 list" where
  "imm_sent w inp = (let n = unat (drop_bit 4 w AND 3) + 1
     in if drop_bit 2 w AND 3 = 0 then replicate n 0 else take n (put32 inp))"

definition imm_answer :: "nat \<Rightarrow> 'm exi_dev_scheme cpu \<Rightarrow> u32" where
  "imm_answer ch s =
     (let c = chan ch s
      in if nonzero (ch_cr c AND 2) \<or> drop_bit 2 (ch_cr c) AND 3 = 1 then ch_data c
         else get32_at (fst (exchange ch (imm_sent (ch_cr c) (ch_data c)) ((g_exi (user s))\<lparr>g_imm := g_imm (g_exi (user s)) + 1\<rparr>))
                @ replicate 3 0) 0)"

lemma length_exchange: "length (fst (exchange ch bs e)) = length bs"
  by (induction bs arbitrary: e) (simp_all add: case_prod_beta)

lemma imm_loop_exchange:
  fixes w :: u32
  assumes "rw \<noteq> 1"
  shows "fst (imm_loop ch rw inp [0..<unat (drop_bit 4 w AND 3) + 1] 0 e)
      = get32_at (fst (exchange ch (if rw = 0 then replicate (unat (drop_bit 4 w AND 3) + 1) 0
          else take (unat (drop_bit 4 w AND 3) + 1) (put32 inp)) e) @ replicate 3 0) 0"
proof -
  have "unat (drop_bit 4 w AND 3 :: u32) \<le> 3"
    using word_and_le1 [of "drop_bit 4 w" 3] by (simp add: word_le_nat_alt)
  then consider "unat (drop_bit 4 w AND 3 :: u32) = 0" | "unat (drop_bit 4 w AND 3 :: u32) = 1"
    | "unat (drop_bit 4 w AND 3 :: u32) = 2" | "unat (drop_bit 4 w AND 3 :: u32) = 3" by linarith
  then show ?thesis
    by cases (simp_all add: assms put32_def get32_at_def get32_def case_prod_beta Let_def or.assoc
        upt_conv_Cons numeral_3_eq_3 numeral_2_eq_2)
qed

lemma regs_kept_data: "regs_kept (upd_ch ch (\<lambda>c. c\<lparr>ch_data := ch_data (g_ch e ch)\<rparr>) e) e' = regs_kept e e'"
  by (auto simp: regs_kept_def same_regs_def upd_ch_def)

lemma regs_kept_upd_data:
  "regs_kept e e' \<Longrightarrow> regs_kept (upd_ch ch (\<lambda>c. c\<lparr>ch_data := x\<rparr>) e) (upd_ch ch (\<lambda>c. c\<lparr>ch_data := x\<rparr>) e')"
  by (simp add: regs_kept_def same_regs_def upd_ch_def)

lemma transfer_body_regs:
  assumes "exi_regs_ok s"
  shows "regs_kept (upd_ch ch (\<lambda>c. c\<lparr>ch_data := imm_answer ch s\<rparr>) (g_exi (user s))) (g_exi (user (transfer_body io ch s)))"
proof -
  let ?c = "chan ch s" and ?e = "g_exi (user s)"
  have m: "ch_mar ?c \<le> 0x03FFFFE0" and "ch_len ?c \<le> 0x03FFFFE0"
    using assms by (simp_all add: exi_regs_ok_def)
  then have n: "ch_len ?c AND NOT 31 \<le> 0x03FFFFE0" by (intro and_not_31_le)
  have up: "regs_kept e (e\<lparr>g_dma := x\<rparr>)" "regs_kept e (e\<lparr>g_imm := x\<rparr>)" for e x
    by (simp_all add: regs_kept_def same_regs_def)
  let ?s0 = "exi_upd (\<lambda>e. e\<lparr>g_dma := g_dma e + 1\<rparr>) s"
  have s0: "regs_kept ?e (g_exi (user ?s0))" by (simp add: up)
  have tw: "\<forall>i\<in>set (takeWhile (\<lambda>i. unat (ch_mar ?c AND MEM_MASK) + i < MEM1_SIZE) xs). dma_base (ch_mar ?c) + i < MEM1_SIZE" for xs
    by (auto simp: dma_base_def dest: set_takeWhileD)
  have dma: ?thesis if "nonzero (ch_cr ?c AND 2)" "regs_kept ?e (g_exi (user (transfer_body io ch s)))"
    using that(2) regs_kept_data [of ch ?e] that(1) by (simp add: imm_answer_def chan_def Let_def)
  consider (card) "nonzero (ch_cr ?c AND 2)" "ch = 0 \<and> ch_selected ?c = 0"
    | (rtc) "nonzero (ch_cr ?c AND 2)" "ch = 0 \<and> ch_selected ?c = 1"
    | (none) "nonzero (ch_cr ?c AND 2)" "\<not> (ch = 0 \<and> ch_selected ?c = 0)" "\<not> (ch = 0 \<and> ch_selected ?c = 1)"
    | (imm) "\<not> nonzero (ch_cr ?c AND 2)" by blast
  then show ?thesis
  proof cases
    case card
    show ?thesis
      by (rule dma [OF card(1)]) (unfold transfer_body_cases(1) [OF card], rule regs_kept_trans [OF s0 card_dma_regs [OF m n]])
  next
    case rtc
    show ?thesis
      by (rule dma [OF rtc(1)]) (unfold transfer_body_cases(2) [OF rtc], rule regs_kept_trans [OF s0 rtc_loop_regs [OF m tw]])
  next
    case none
    show ?thesis by (rule dma [OF none(1)]) (unfold transfer_body_cases(3) [OF none], rule s0)
  next
    case imm
    let ?rw = "drop_bit 2 (ch_cr ?c) AND 3"
    let ?r = "imm_loop ch ?rw (ch_data ?c) [0..<unat (drop_bit 4 (ch_cr ?c) AND 3) + 1] 0 (?e\<lparr>g_imm := g_imm ?e + 1\<rparr>)"
    have e: "g_exi (user (transfer_body io ch s))
        = (if ?rw \<noteq> 1 then upd_ch ch (\<lambda>c. c\<lparr>ch_data := fst ?r\<rparr>) (snd ?r) else snd ?r)"
      using imm by (simp add: transfer_body_def on_exi_def exi_upd_def Let_def case_prod_beta)
    have kept: "regs_kept ?e (snd ?r)" by (rule regs_kept_trans [OF up(2) imm_loop_regs])
    have answer: "imm_answer ch s = (if ?rw = 1 then ch_data (g_ch ?e ch) else fst ?r)"
      using imm imm_loop_exchange [of ?rw ch "ch_data ?c" "ch_cr ?c"] by (simp add: imm_answer_def imm_sent_def chan_def Let_def)
    show ?thesis
    proof (cases "?rw = 1")
      case True
      then show ?thesis using kept unfolding e answer by (simp add: regs_kept_data)
    next
      case False
      then show ?thesis using regs_kept_upd_data [OF kept] unfolding e answer by simp
    qed
  qed
qed

text \<open>C15: every transfer completes, whatever is selected: TSTART clears and the transfer-complete
  bit is set on its own channel; DATA of that channel takes the device's bytes if the transfer is
  an immediate read, and every other register of the three channels, DATA of the others
  included, keeps its value; a card DMA whose range runs outside main memory moves nothing, in
  memory or on the card.\<close>

theorem transfer_completes:
  assumes "exi_regs_ok s"
  shows "same_regs ((chan ch s)\<lparr>ch_cr := ch_cr (chan ch s) AND NOT 1, ch_csr := ch_csr (chan ch s) OR EXI_CSR_TCINT,
        ch_data := imm_answer ch s\<rparr>) (chan ch (transfer io ch s))
    \<and> (\<forall>k. k \<noteq> ch \<longrightarrow> same_regs (chan k s) (chan k (transfer io ch s)))
    \<and> (ch = 0 \<and> ch_selected (chan 0 s) = 0 \<and> nonzero (ch_cr (chan 0 s) AND 2)
        \<and> MEM1_SIZE < dma_base (ch_mar (chan 0 s)) + unat (ch_len (chan 0 s) AND NOT 31) \<longrightarrow>
        mem (transfer io 0 s) = mem s \<and> g_card (g_exi (user (transfer io 0 s))) = g_card (card_load (g_exi (user s))))"
proof -
  have k: "same_regs (if j = ch then (chan j s)\<lparr>ch_data := imm_answer ch s\<rparr> else chan j s) (chan j (transfer_body io ch s))" for j
    using spec [OF transfer_body_regs [OF assms, of ch io, unfolded regs_kept_def], of j]
    by (cases "j = ch") (simp_all add: chan_def upd_ch_def)
  have outside: "transfer_body io 0 s = exi_upd card_load (exi_upd (\<lambda>e. e\<lparr>g_dma := g_dma e + 1\<rparr>) s)"
    if "ch_selected (chan 0 s) = 0" "nonzero (ch_cr (chan 0 s) AND 2)"
      "MEM1_SIZE < dma_base (ch_mar (chan 0 s)) + unat (ch_len (chan 0 s) AND NOT 31)"
  proof -
    have "ch_len (chan 0 s) AND NOT 31 \<le> 0x03FFFFE0" using assms by (intro and_not_31_le) (simp add: exi_regs_ok_def)
    then have "card_dma io 0 (ch_mar (chan 0 s)) (ch_len (chan 0 s) AND NOT 31) w s' = exi_upd card_load s'" for w s'
      using that(3) by (intro card_dma_outside) simp_all
    then show ?thesis using that(1,2) by (subst transfer_body_cases(1)) simp_all
  qed
  have card: "g_card (card_load (e\<lparr>g_dma := x\<rparr>)) = g_card (card_load e)" for e x
    by (simp add: card_load_def split: option.splits)
  have own: "same_regs ((chan ch s)\<lparr>ch_cr := ch_cr (chan ch s) AND NOT 1, ch_csr := ch_csr (chan ch s) OR EXI_CSR_TCINT,
      ch_data := imm_answer ch s\<rparr>) (chan ch (transfer io ch s))"
    using k [of ch] by (simp add: transfer_split same_regs_def chan_def upd_ch_def)
  have others: "same_regs (chan j s) (chan j (transfer io ch s))" if "j \<noteq> ch" for j
    using k [of j] that by (simp add: transfer_split same_regs_def chan_def upd_ch_def)
  have "mem (transfer io 0 s) = mem s \<and> g_card (g_exi (user (transfer io 0 s))) = g_card (card_load (g_exi (user s)))"
    if "ch = 0 \<and> ch_selected (chan 0 s) = 0 \<and> nonzero (ch_cr (chan 0 s) AND 2)
        \<and> MEM1_SIZE < dma_base (ch_mar (chan 0 s)) + unat (ch_len (chan 0 s) AND NOT 31)"
    using that outside card by (simp add: transfer_split upd_ch_def)
  then show ?thesis using own others by blast
qed

text \<open>A machine around an EXI state.\<close>

definition with_user :: "'d \<Rightarrow> 'e cpu \<Rightarrow> 'd cpu" where
  "with_user d s = \<lparr>gpr = gpr s, fpr = fpr s, cr = cr s, xer = xer s, lr = lr s, ctr = ctr s, fpscr = fpscr s,
     msr = msr s, decr = decr s, pc = pc s, gqr = gqr s, hid2 = hid2 s, wpar = wpar s, spr = spr s, sr = sr s,
     mem = mem s, user = d\<rparr>"

definition exi_machine :: "exi \<Rightarrow> exi_dev cpu" where
  "exi_machine e = with_user (aram_dev.extend (user aram_zero) (exi_dev.fields e)) aram_zero"

lemma exi_machine_simps [simp]: "g_exi (user (exi_machine e)) = e" "mem (exi_machine e) = mem aram_zero"
  by (simp_all add: exi_machine_def with_user_def aram_dev.extend_def exi_dev.fields_def)

text \<open>The card selected, a DMA write of 64 bytes from the last 32 bytes of main memory started.\<close>

theorem transfer_completes_witness:
  "let e = upd_ch 0 (\<lambda>c. c\<lparr>ch_selected := 0, ch_mar := 0x017FFFE0, ch_len := 64, ch_cr := 7\<rparr>) exi_zero;
       s' = transfer io_none 0 (exi_machine e)
   in ch_csr (chan 0 s') = 8 \<and> ch_cr (chan 0 s') = 6 \<and> mem s' = mem aram_zero"
proof -
  define e where "e = upd_ch 0 (\<lambda>c. c\<lparr>ch_selected := 0, ch_mar := 0x017FFFE0, ch_len := 64, ch_cr := 7\<rparr>) exi_zero"
  have c: "chan 0 (exi_machine e) = channel_zero\<lparr>ch_selected := 0, ch_mar := 0x017FFFE0, ch_len := 64, ch_cr := 7\<rparr>"
    "chan k (exi_machine e) = channel_zero" if "k \<noteq> 0" for k
    using that by (simp_all add: chan_def e_def upd_ch_def exi_zero_def)
  have "exi_regs_ok (exi_machine e)"
    unfolding exi_regs_ok_def
  proof
    fix k show "ch_mar (chan k (exi_machine e)) \<le> 0x03FFFFE0 \<and> ch_len (chan k (exi_machine e)) \<le> 0x03FFFFE0"
      by (cases "k = 0") (simp_all add: chan_def e_def upd_ch_def exi_zero_def channel_zero_def)
  qed
  from transfer_completes [OF this, of 0 io_none] show ?thesis
    unfolding e_def [symmetric] Let_def
    by (simp add: chan_def e_def upd_ch_def exi_zero_def channel_zero_def same_regs_def EXI_CSR_TCINT_def
        dma_base_def MEM_MASK_def MEM1_SIZE_def)
qed

theorem card_dma_is_byte_stream_witness:
  "card_dma io_none 0 0x1000 32 True (exi_machine exi_zero)
    = exi_upd (\<lambda>e. snd (card_send 0 (rd_bytes (mem aram_zero) 0x1000 32) (card_load e))) (exi_machine exi_zero)"
  using card_dma_is_byte_stream [of "0x1000" 32 io_none 0 "exi_machine exi_zero"]
  by (simp add: dma_base_def MEM_MASK_def MEM1_SIZE_def)

section \<open>The card's interrupt\<close>

definition exiint :: "nat \<Rightarrow> exi \<Rightarrow> bool" where
  "exiint ch e \<longleftrightarrow> nonzero (ch_csr (g_ch e ch) AND EXI_CSR_EXIINT)"

text \<open>One framed command on channel 0: chip select, bytes, deselect, the two CSR values being \<open>on\<close>
  and \<open>off\<close>.\<close>

definition framed :: "u32 \<Rightarrow> u32 \<Rightarrow> u8 list \<Rightarrow> exi \<Rightarrow> exi" where
  "framed on off bs e = csr_write 0 off (snd (card_send 0 bs (csr_write 0 on e)))"

lemma exiint_upd [simp]:
  "exiint ch (upd_ch ch (\<lambda>c. c\<lparr>ch_selected := x, ch_pos := p\<rparr>) e) = exiint ch e" "exiint ch (e\<lparr>g_rtc_cmd := z\<rparr>) = exiint ch e"
  by (simp_all add: exiint_def upd_ch_def)

lemma csr_latch_fields [simp]: "g_card_cmd (csr_latch ch w e) = g_card_cmd e" "g_card_int_en (csr_latch ch w e) = g_card_int_en e"
  "g_card_int_req (csr_latch ch w e) = g_card_int_req e" "g_card_ints (csr_latch ch w e) = g_card_ints e"
  "g_card_status (csr_latch ch w e) = g_card_status e"
  by (simp_all add: csr_latch_def upd_ch_def)

lemma csr_write_exiint:
  "exiint ch (csr_latch ch w e)
    \<longleftrightarrow> exiint ch e \<and> \<not> nonzero (w AND EXI_CSR_EXIINT)"
proof -
  have b: "nonzero (x AND EXI_CSR_EXIINT) \<longleftrightarrow> bit x 1" for x :: u32
  proof -
    have "EXI_CSR_EXIINT = 2 ^ 1" by (simp add: EXI_CSR_EXIINT_def)
    then show ?thesis by (metis and_exp_eq_0_iff_not_bit)
  qed
  have "bit EXI_CSR_W1C 1" "\<not> bit EXI_CSR_STORED 1" by (simp_all add: EXI_CSR_W1C_def EXI_CSR_STORED_def)
  then show ?thesis by (simp add: exiint_def csr_latch_def upd_ch_def b bit_simps)
qed

lemma exiint_card_send: "exiint ch (snd (card_send k bs e)) = exiint ch e"
  using card_send_regs [of e k bs] by (simp add: regs_kept_def same_regs_def exiint_def)

lemma selected_send: "ch_selected (g_ch (snd (card_send k bs e)) ch) = ch_selected (g_ch e ch)"
  using card_send_regs [of e k bs] by (simp add: regs_kept_def same_regs_def)

lemma upd_ch_fields [simp]: "g_card_cmd (upd_ch ch f e) = g_card_cmd e" "g_card_int_en (upd_ch ch f e) = g_card_int_en e"
  "g_card_int_req (upd_ch ch f e) = g_card_int_req e" "g_card_ints (upd_ch ch f e) = g_card_ints e"
  "g_card_status (upd_ch ch f e) = g_card_status e"
  by (simp_all add: upd_ch_def)

lemma flush_fields [simp]: "g_card_int_en (card_flush e) = g_card_int_en e" "g_card_int_req (card_flush e) = g_card_int_req e"
  "g_card_ints (card_flush e) = g_card_ints e" "g_ch (card_flush e) = g_ch e"
  by (simp_all add: card_flush_def Let_def split: option.split)

definition write_command :: "u8 \<Rightarrow> bool" where
  "write_command c \<longleftrightarrow> c = 0xF1 \<or> c = 0xF2 \<or> c = 0xF4"

lemma deselect_quiet: "\<not> write_command (g_card_cmd e) \<Longrightarrow> card_deselected ch e = e"
  by (simp add: card_deselected_def write_command_def)

lemma deselect_raises:
  assumes "write_command (g_card_cmd e)" "nonzero (g_card_int_en e)" "g_card_int_req e = 0"
  shows "exiint ch (card_deselected ch e)" and "g_card_int_req (card_deselected ch e) = 1"
    and "g_card_ints (card_deselected ch e) = g_card_ints e + 1"
proof -
  have "(x OR EXI_CSR_EXIINT) AND EXI_CSR_EXIINT = EXI_CSR_EXIINT" for x :: u32
    by (rule bit_word_eqI) (auto simp: bit_simps)
  then show "exiint ch (card_deselected ch e)" "g_card_int_req (card_deselected ch e) = 1"
    "g_card_ints (card_deselected ch e) = g_card_ints e + 1"
    using assms by (auto simp: card_deselected_def write_command_def exiint_def upd_ch_def Let_def EXI_CSR_EXIINT_def)
qed

text \<open>What a framed command that starts nothing leaves.\<close>

text \<open>The acknowledge sequence of the card's interrupt handler: one-byte and two-byte frames.\<close>

lemma first_byte:
  assumes "ch_pos (g_ch e 0) = 0"
  shows "g_card_cmd (snd (card_byte 0 c e)) = c" and "ch_pos (g_ch (snd (card_byte 0 c e)) 0) = 1"
    and "g_card_int_req (snd (card_byte 0 c e)) = (if c = 0x89 then 0 else g_card_int_req e)"
    and "g_card_status (snd (card_byte 0 c e)) = (if c = 0x89 then g_card_status e AND NOT 0x18 else g_card_status e)"
  using assms by (simp_all add: card_byte_def card_load_def upd_ch_def Let_def split: option.split)

lemma status_byte:
  assumes "ch_pos (g_ch e 0) = 1" "g_card_cmd e = 0x83"
  shows "fst (card_byte 0 b e) = g_card_status e" and "g_card_cmd (snd (card_byte 0 b e)) = 0x83"
    and "g_card_int_req (snd (card_byte 0 b e)) = g_card_int_req e"
  using assms by (simp_all add: card_byte_def card_command_def card_load_def upd_ch_def Let_def split: option.split)

lemma select_csr:
  assumes "ch_selected (g_ch e 0) = -1" "selected_by w = 0"
  shows "ch_pos (g_ch (csr_write 0 w e) 0) = 0" and "ch_selected (g_ch (csr_write 0 w e) 0) = 0"
    and "exiint 0 (csr_write 0 w e) \<longleftrightarrow> exiint 0 e \<and> \<not> nonzero (w AND EXI_CSR_EXIINT)"
    and "g_card_int_req (csr_write 0 w e) = g_card_int_req e" and "g_card_status (csr_write 0 w e) = g_card_status e"
proof -
  let ?e = "csr_latch 0 w e"
  have "ch_selected (g_ch ?e 0) = -1" using assms by (simp add: csr_latch_def upd_ch_def)
  then have "csr_write 0 w e = (upd_ch 0 (\<lambda>c. c\<lparr>ch_selected := 0, ch_pos := 0\<rparr>) ?e)\<lparr>g_rtc_cmd := 0\<rparr>"
    using assms by (simp add: csr_write_def Let_def)
  then show "ch_pos (g_ch (csr_write 0 w e) 0) = 0" "ch_selected (g_ch (csr_write 0 w e) 0) = 0"
    "exiint 0 (csr_write 0 w e) \<longleftrightarrow> exiint 0 e \<and> \<not> nonzero (w AND EXI_CSR_EXIINT)"
    "g_card_int_req (csr_write 0 w e) = g_card_int_req e" "g_card_status (csr_write 0 w e) = g_card_status e"
    using csr_write_exiint [of 0 w e] by (simp_all) (simp_all add: csr_latch_def upd_ch_def)
qed

lemma deselect_csr:
  assumes "ch_selected (g_ch e 0) = 0" "selected_by w = -1"
  defines "e1 \<equiv> csr_latch 0 w e"
  shows "exiint 0 (csr_write 0 w e) = exiint 0 (card_deselected 0 e1)"
    and "ch_selected (g_ch (csr_write 0 w e) 0) = -1"
    and "g_card_int_req (csr_write 0 w e) = g_card_int_req (card_deselected 0 e1)"
    and "g_card_ints (csr_write 0 w e) = g_card_ints (card_deselected 0 e1)"
proof -
  have "ch_selected (g_ch e1 0) = 0" using assms by (simp add: csr_latch_def upd_ch_def e1_def)
  then have "csr_write 0 w e = (upd_ch 0 (\<lambda>c. c\<lparr>ch_selected := -1, ch_pos := 0\<rparr>) (card_deselected 0 e1))\<lparr>g_rtc_cmd := 0\<rparr>"
    using assms(2) by (simp add: csr_write_def e1_def [symmetric] Let_def)
  then show "exiint 0 (csr_write 0 w e) = exiint 0 (card_deselected 0 e1)" "ch_selected (g_ch (csr_write 0 w e) 0) = -1"
    "g_card_int_req (csr_write 0 w e) = g_card_int_req (card_deselected 0 e1)"
    "g_card_ints (csr_write 0 w e) = g_card_ints (card_deselected 0 e1)"
    by simp_all (simp add: upd_ch_def)
qed

lemma ack_csr:
  assumes "ch_selected (g_ch e 0) = -1" "selected_by w = -1"
  shows "exiint 0 (csr_write 0 w e) \<longleftrightarrow> exiint 0 e \<and> \<not> nonzero (w AND EXI_CSR_EXIINT)"
    and "ch_selected (g_ch (csr_write 0 w e) 0) = -1" and "g_card_int_req (csr_write 0 w e) = g_card_int_req e"
proof -
  let ?e = "csr_latch 0 w e"
  have s: "ch_selected (g_ch ?e 0) = -1" using assms by (simp add: csr_latch_def upd_ch_def)
  then have "csr_write 0 w e = ?e" using assms by (simp add: csr_write_def Let_def)
  then show "exiint 0 (csr_write 0 w e) \<longleftrightarrow> exiint 0 e \<and> \<not> nonzero (w AND EXI_CSR_EXIINT)"
    "ch_selected (g_ch (csr_write 0 w e) 0) = -1" "g_card_int_req (csr_write 0 w e) = g_card_int_req e"
    using csr_write_exiint [of 0 w e] s by simp_all
qed

lemma framed_quiet:
  assumes "ch_selected (g_ch e 0) = -1" "selected_by on = 0" "selected_by off = -1" "\<not> exiint 0 e"
  shows "\<not> exiint 0 (framed on off [0x83, b] e)" and "ch_selected (g_ch (framed on off [0x83, b] e) 0) = -1"
    and "g_card_int_req (framed on off [0x83, b] e) = g_card_int_req e"
    and "\<not> exiint 0 (framed on off [0x89] e) \<and> g_card_int_req (framed on off [0x89] e) = 0"
proof -
  note sel = select_csr [OF assms(1,2)]
  let ?s = "csr_write 0 on e"
  have cmd: "g_card_cmd (snd (card_send 0 [0x83, b] ?s)) = 0x83" "g_card_cmd (snd (card_send 0 [0x89] ?s)) = 0x89"
    "g_card_int_req (snd (card_send 0 [0x83, b] ?s)) = g_card_int_req e" "g_card_int_req (snd (card_send 0 [0x89] ?s)) = 0"
    using first_byte [OF sel(1)] status_byte sel(4) by (simp_all add: Let_def case_prod_beta)
  have ds: "ch_selected (g_ch (snd (card_send 0 bs ?s)) 0) = 0" "\<not> exiint 0 (snd (card_send 0 bs ?s))" for bs
    using sel(2,3) assms(4) by (simp_all add: selected_send exiint_card_send)
  let ?w = "\<lambda>e. csr_latch 0 off e"
  have q: "card_deselected 0 (?w (snd (card_send 0 bs ?s))) = ?w (snd (card_send 0 bs ?s))" if "bs = [0x83, b] \<or> bs = [0x89]" for bs
    using that cmd by (intro deselect_quiet) (auto simp: write_command_def simp del: card_send.simps)
  have f: "\<not> exiint 0 (framed on off bs e)" "ch_selected (g_ch (framed on off bs e) 0) = -1"
    "g_card_int_req (framed on off bs e) = g_card_int_req (snd (card_send 0 bs ?s))" if "bs = [0x83, b] \<or> bs = [0x89]" for bs
    using deselect_csr [OF ds(1) assms(3), of bs] q [OF that] csr_write_exiint [of 0 off] ds(2)
    by (simp_all add: framed_def del: card_send.simps)
  show "\<not> exiint 0 (framed on off [0x83, b] e)" "ch_selected (g_ch (framed on off [0x83, b] e) 0) = -1"
    "g_card_int_req (framed on off [0x83, b] e) = g_card_int_req e"
    "\<not> exiint 0 (framed on off [0x89] e) \<and> g_card_int_req (framed on off [0x89] e) = 0"
    using f [of "[0x83, b]"] f [of "[0x89]"] cmd by (simp_all del: card_send.simps)
qed

text \<open>C34: the card interrupts once per write and its handler is not re-entered: the chip select
  going away after a program or erase, with the card's interrupt enabled and its line free, sets
  EXIINT and counts one interrupt; acknowledging it in CSR clears it, and the status and clear-status
  frames the handler then sends never set it again, the second one releasing the line.\<close>

theorem card_interrupt_once:
  assumes "ch_selected (g_ch e 0) = 0" and "write_command (g_card_cmd e)" and "nonzero (g_card_int_en e)"
    and "g_card_int_req e = 0" and "selected_by on = 0" and "selected_by off = -1" and "selected_by ack = -1"
    and "nonzero (ack AND EXI_CSR_EXIINT)"
  shows "let e1 = csr_write 0 off e; e2 = csr_write 0 ack e1; e3 = framed on off [0x83, b] e2; e4 = framed on off [0x89] e3
    in exiint 0 e1 \<and> g_card_ints e1 = g_card_ints e + 1 \<and> \<not> exiint 0 e2 \<and> \<not> exiint 0 e3 \<and> g_card_int_req e3 = 1
      \<and> \<not> exiint 0 e4 \<and> g_card_int_req e4 = 0"
proof -
  let ?e1 = "csr_write 0 off e"
  note d = deselect_csr [OF assms(1,6)]
  note r = deselect_raises [of "csr_latch 0 off e" 0]
  have e1: "exiint 0 ?e1" "g_card_int_req ?e1 = 1" "g_card_ints ?e1 = g_card_ints e + 1" "ch_selected (g_ch ?e1 0) = -1"
    using d r assms(2-4) by simp_all
  note a = ack_csr [OF e1(4) assms(7)]
  have "\<not> exiint 0 (csr_write 0 ack ?e1)" using a(1) assms(8) by simp
  note f = framed_quiet [OF a(2) assms(5,6) this]
  note g = framed_quiet(4) [OF f(2) [of b] assms(5,6) f(1) [of b]]
  show ?thesis
    using e1 a f(1,3) [of b] g assms(8) unfolding Let_def by auto
qed

theorem card_interrupt_once_witness:
  "let e = upd_ch 0 (\<lambda>c. c\<lparr>ch_selected := 0\<rparr>) (exi_zero\<lparr>g_card_cmd := 0xF2, g_card_int_en := 1\<rparr>);
       e1 = csr_write 0 1 e; e2 = csr_write 0 3 e1
   in exiint 0 e1 \<and> \<not> exiint 0 e2 \<and> \<not> exiint 0 (framed 0x80 1 [0x89] (framed 0x80 1 [0x83, 0] e2))"
proof -
  let ?e = "upd_ch 0 (\<lambda>c. c\<lparr>ch_selected := 0\<rparr>) (exi_zero\<lparr>g_card_cmd := 0xF2, g_card_int_en := 1\<rparr>)"
  have "ch_selected (g_ch ?e 0) = 0" "g_card_int_req ?e = 0" "write_command (g_card_cmd ?e)" "nonzero (g_card_int_en ?e)"
    by (simp_all add: exi_zero_def upd_ch_def write_command_def)
  moreover have "selected_by 0x80 = 0" "selected_by 1 = -1" "selected_by 3 = -1" "nonzero ((3 :: u32) AND EXI_CSR_EXIINT)"
    by (simp_all add: selected_by_def EXI_CSR_EXIINT_def)
  ultimately show ?thesis
    using card_interrupt_once [of ?e "0x80" 1 3 0] by (simp add: Let_def del: card_send.simps)
qed

end
