(* ===== verification/Irq.thy ===== *)
theory Irq
  imports Exi
begin

text \<open>
  runtime/irq.c: the dispatch of hardware accesses over the device models, the VI, PI and AI
  registers it holds itself, the decrementer, and the delivery of interrupts: at the idle hook and
  at every sixteenth backward branch the handlers the guest OS registered are called for what is
  pending, with the register file saved around each. Guest code is the parameter \<open>dispatch\<close>
  (it returns to the delivery by returning or by the longjmp of \<open>irq_return_from_handler\<close>, which
  are the same here); the serial interface, graphics and disc models, whose files are not modelled,
  are parameters with their access and poll functions. The wait while the clock is held and the
  yield of a paced run only sleep.
\<close>

record irq =
  g_vi_di :: "nat \<Rightarrow> u16"
  g_pi_mask :: u32
  g_pi_cause :: u32
  g_ai_cr :: u32
  g_ai_vr :: u32
  g_ai_it :: u32
  g_ai_scnt_base :: u64
  g_vi_pending :: bool
  g_vi_last :: u64
  g_vi_count :: u64
  g_dec_value :: u32
  g_dec_set :: u64
  g_dec_armed :: bool
  g_dec_count :: u64
  g_dec_arms :: u64
  g_di_count :: u64
  g_pe_count :: u64
  g_ar_count :: u64
  g_dsp_count :: u64
  g_aid_count :: u64
  g_si_count :: u64
  g_exi_count :: u64
  g_exid_count :: u64
  g_irq_ctx :: u32
  g_in_handler :: int
  g_delivered :: u64
  g_delivered_by_number :: "nat \<Rightarrow> u64"
  poll_n :: u32

record irq_dev = exi_dev +
  g_irq :: irq

record 's irq_env =
  dispatch :: "u32 \<Rightarrow> 's \<Rightarrow> 's"
  dsp_par :: "'s dsp_env"
  disc_par :: disc_env
  si_read :: "u32 \<Rightarrow> nat \<Rightarrow> 's \<Rightarrow> u64 option \<times> 's"
  si_write :: "u32 \<Rightarrow> nat \<Rightarrow> u64 \<Rightarrow> 's \<Rightarrow> bool \<times> 's"
  gx_read :: "u32 \<Rightarrow> nat \<Rightarrow> 's \<Rightarrow> u64 option \<times> 's"
  gx_write :: "u32 \<Rightarrow> nat \<Rightarrow> u64 \<Rightarrow> 's \<Rightarrow> bool \<times> 's"
  di_read :: "u32 \<Rightarrow> nat \<Rightarrow> 's \<Rightarrow> u64 option \<times> 's"
  di_write :: "u32 \<Rightarrow> nat \<Rightarrow> u64 \<Rightarrow> 's \<Rightarrow> bool \<times> 's"
  gx_pipe :: "nat \<Rightarrow> u64 \<Rightarrow> 's \<Rightarrow> 's"
  di_poll :: "'s \<Rightarrow> 's"
  si_poll :: "'s \<Rightarrow> 's"
  di_irq_pending :: "'s \<Rightarrow> bool"
  si_irq_pending :: "'s \<Rightarrow> bool"
  gx_pe_irq_pending :: "'s \<Rightarrow> u32"

type_synonym 'm irq_env' = "'m irq_dev_scheme cpu irq_env"

definition OS_EXCEPTION_TABLE :: u32 where "OS_EXCEPTION_TABLE = 0x80003000"
definition OS_INTERRUPT_TABLE :: u32 where "OS_INTERRUPT_TABLE = 0x80003040"
definition EXCEPTION_TABLE_PTR :: u32 where "EXCEPTION_TABLE_PTR = 0x803478F4"
definition INTERRUPT_TABLE_PTR :: u32 where "INTERRUPT_TABLE_PTR = 0x80347930"
definition OS_CURRENT_CONTEXT :: u32 where "OS_CURRENT_CONTEXT = 0x800000D4"
definition EXC_DECREMENTER :: u32 where "EXC_DECREMENTER = 8"
definition IRQ_PI_DI :: u32 where "IRQ_PI_DI = 21"
definition IRQ_PI_VI :: u32 where "IRQ_PI_VI = 24"
definition IRQ_PI_PE_TOKEN :: u32 where "IRQ_PI_PE_TOKEN = 18"
definition IRQ_PI_PE_FINISH :: u32 where "IRQ_PI_PE_FINISH = 19"
definition IRQ_DSP_ARAM :: u32 where "IRQ_DSP_ARAM = 6"
definition IRQ_DSP_AI :: u32 where "IRQ_DSP_AI = 5"
definition IRQ_DSP_DSP :: u32 where "IRQ_DSP_DSP = 7"
definition IRQ_PI_SI :: u32 where "IRQ_PI_SI = 20"
definition IRQ_EXI_0_EXI :: u32 where "IRQ_EXI_0_EXI = 9"
definition IRQ_EXI_0_TC :: u32 where "IRQ_EXI_0_TC = 10"
definition IRQ_EXI_1_EXI :: u32 where "IRQ_EXI_1_EXI = 12"
definition IRQ_EXI_1_TC :: u32 where "IRQ_EXI_1_TC = 13"
definition IRQ_EXI_2_EXI :: u32 where "IRQ_EXI_2_EXI = 15"
definition IRQ_EXI_2_TC :: u32 where "IRQ_EXI_2_TC = 16"
definition VI_PERIOD_TICKS :: u64 where "VI_PERIOD_TICKS = TB_HZ div 60"
definition PI_RSWST_RELEASED :: u32 where "PI_RSWST_RELEASED = 0x10000"
definition OS_RESCHEDULE :: u32 where "OS_RESCHEDULE = 0x80237C84"

definition irq_upd :: "(irq \<Rightarrow> irq) \<Rightarrow> 'm irq_dev_scheme cpu \<Rightarrow> 'm irq_dev_scheme cpu" where
  "irq_upd f s = dev (\<lambda>d. d\<lparr>g_irq := f (g_irq d)\<rparr>) s"

definition irq_of :: "'m irq_dev_scheme cpu \<Rightarrow> irq" where "irq_of s = g_irq (user s)"

section \<open>The audio interface registers\<close>

definition ai_read :: "u32 \<Rightarrow> 'm irq_dev_scheme cpu \<Rightarrow> u32 \<times> 'm irq_dev_scheme cpu" where
  "ai_read ea s =
     (let off = ea - 0xCC006C00; q = irq_of s
      in if off = 0 then (g_ai_cr q, s)
         else if off = 4 then (g_ai_vr q, s)
         else if off = 8 then (case tb_now s of (now, s1) \<Rightarrow> (ucast ((now - g_ai_scnt_base q) * 16 div 13500), s1))
         else if off = 12 then (g_ai_it q, s)
         else (0, s))"

definition ai_write :: "u32 \<Rightarrow> u32 \<Rightarrow> 'm irq_dev_scheme cpu \<Rightarrow> 'm irq_dev_scheme cpu" where
  "ai_write ea v s =
     (let off = ea - 0xCC006C00
      in if off = 0 then
           (let s1 = (if nonzero (v AND 0x20)
                      then (case tb_now s of (now, s0) \<Rightarrow> irq_upd (\<lambda>q. q\<lparr>g_ai_scnt_base := now\<rparr>) s0) else s)
            in irq_upd (\<lambda>q. q\<lparr>g_ai_cr := (g_ai_cr q AND 0x8 AND NOT (v AND 0x8)) OR (v AND NOT 0x28)\<rparr>) s1)
         else if off = 4 then irq_upd (\<lambda>q. q\<lparr>g_ai_vr := v\<rparr>) s
         else if off = 12 then irq_upd (\<lambda>q. q\<lparr>g_ai_it := v\<rparr>) s
         else s)"

section \<open>Hardware accesses\<close>

text \<open>The devices are asked in turn; the first that answers ends the access.\<close>

fun ask :: "('s \<Rightarrow> u64 option \<times> 's) list \<Rightarrow> 's \<Rightarrow> u64 option \<times> 's" where
  "ask [] s = (None, s)"
| "ask (f # fs) s = (case f s of (Some v, s1) \<Rightarrow> (Some v, s1) | (None, s1) \<Rightarrow> ask fs s1)"

fun tell :: "('s \<Rightarrow> bool \<times> 's) list \<Rightarrow> 's \<Rightarrow> 's" where
  "tell [] s = s"
| "tell (f # fs) s = (case f s of (done, s1) \<Rightarrow> if done then s1 else tell fs s1)"

definition device_read ::
  "'m irq_env' \<Rightarrow> u32 \<Rightarrow> nat \<Rightarrow> 'm irq_dev_scheme cpu \<Rightarrow> u64 option \<times> 'm irq_dev_scheme cpu" where
  "device_read env ea sz s =
     (if sz = 2 \<and> ea \<ge> 0xCC002030 \<and> ea < 0xCC002040 \<and> ea AND 2 = 0 then
        (let n = unat (drop_bit 2 (ea - 0xCC002030)); q = irq_of s
         in (Some (ucast (ucast (g_vi_di q n) OR (if n = 0 \<and> g_vi_pending q then 0x8000 else 0 :: u32))), s))
      else if sz = 4 \<and> ea = 0xCC003000 then (Some (ucast (g_pi_cause (irq_of s) OR PI_RSWST_RELEASED)), s)
      else if sz = 4 \<and> ea = 0xCC003004 then (Some (ucast (g_pi_mask (irq_of s))), s)
      else if sz = 4 \<and> ea \<ge> 0xCC006C00 \<and> ea < 0xCC006C10 then
        (case ai_read ea s of (v, s1) \<Rightarrow> (Some (ucast v), s1))
      else ask [exi_read ea sz, si_read env ea sz, dsp_read ea sz, aram_read ea sz, gx_read env ea sz, di_read env ea sz] s)"

definition device_write ::
  "'m irq_env' \<Rightarrow> u32 \<Rightarrow> nat \<Rightarrow> u64 \<Rightarrow> 'm irq_dev_scheme cpu \<Rightarrow> 'm irq_dev_scheme cpu" where
  "device_write env ea sz v s =
     (if sz = 2 \<and> ea \<ge> 0xCC002030 \<and> ea < 0xCC002040 \<and> ea AND 2 = 0 then
        (let n = unat (drop_bit 2 (ea - 0xCC002030));
             s1 = irq_upd (\<lambda>q. q\<lparr>g_vi_di := (g_vi_di q)(n := ucast (v AND 0x7FFF))\<rparr>) s
         in if n = 0 \<and> v AND 0x8000 = 0 then irq_upd (\<lambda>q. q\<lparr>g_vi_pending := False\<rparr>) s1 else s1)
      else if sz = 4 \<and> ea = 0xCC003000 then irq_upd (\<lambda>q. q\<lparr>g_pi_cause := g_pi_cause q AND NOT (ucast v)\<rparr>) s
      else if sz = 4 \<and> ea = 0xCC003004 then irq_upd (\<lambda>q. q\<lparr>g_pi_mask := ucast v\<rparr>) s
      else if sz = 4 \<and> ea \<ge> 0xCC006C00 \<and> ea < 0xCC006C10 then ai_write ea (ucast v) s
      else tell [exi_write io_none ea sz v, si_write env ea sz v, dsp_write (dsp_par env) ea sz v,
                 aram_write (disc_par env) ea sz v, gx_write env ea sz v, di_write env ea sz v] s)"

text \<open>The accessors of hle.c behind cpu.h: what no device answers reads as zero.\<close>

definition device_io :: "'m irq_env' \<Rightarrow> 'm irq_dev_scheme io" where
  "device_io env =
     \<lparr>mmio_read = (\<lambda>n ea s. case device_read env ea n s of (Some v, s1) \<Rightarrow> (v, s1) | (None, s1) \<Rightarrow> (0, s1)),
      mmio_write = (\<lambda>n ea v s. device_write env ea n v s),
      gx_pipe_write = gx_pipe env\<rparr>"

section \<open>The decrementer\<close>

definition dec_write :: "u32 \<Rightarrow> 'm irq_dev_scheme cpu \<Rightarrow> 'm irq_dev_scheme cpu" where
  "dec_write v s =
     (case tb_now s of (now, s1) \<Rightarrow>
        irq_upd (\<lambda>q. q\<lparr>g_dec_value := v, g_dec_set := now, g_dec_armed := True, g_dec_arms := g_dec_arms q + 1\<rparr>) s1)"

definition dec_read :: "'m irq_dev_scheme cpu \<Rightarrow> u32 \<times> 'm irq_dev_scheme cpu" where
  "dec_read s =
     (case tb_now s of (now, s1) \<Rightarrow>
        let elapsed = now - g_dec_set (irq_of s) in (ucast (ucast (g_dec_value (irq_of s)) - elapsed), s1))"

section \<open>Delivery\<close>

definition irq_delivered_count :: "nat \<Rightarrow> 'm irq_dev_scheme cpu \<Rightarrow> u64" where
  "irq_delivered_count n s = (if n < 32 then g_delivered_by_number (irq_of s) n else 0)"

definition irq_abandon_delivery :: "'m irq_dev_scheme cpu \<Rightarrow> 'm irq_dev_scheme cpu" where
  "irq_abandon_delivery s = irq_upd (\<lambda>q. q\<lparr>g_in_handler := 0, g_irq_ctx := 0\<rparr>) s"

definition exception_handler ::
  "'m irq_env' \<Rightarrow> u32 \<Rightarrow> 'm irq_dev_scheme cpu \<Rightarrow> u32 \<times> 'm irq_dev_scheme cpu" where
  "exception_handler env exc s =
     (case mem_r32 (device_io env) EXCEPTION_TABLE_PTR s of (t, s1) \<Rightarrow>
        mem_r32 (device_io env) ((if t = 0 then OS_EXCEPTION_TABLE else t) + 4 * exc) s1)"

record register_file =
  rf_gpr :: "nat \<Rightarrow> u32"
  rf_fpr :: "nat \<Rightarrow> u64 \<times> u64"
  rf_cr :: u32
  rf_xer :: u32
  rf_lr :: u32
  rf_ctr :: u32
  rf_fpscr :: u32
  rf_msr :: u32
  rf_pc :: u32
  rf_gqr :: "nat \<Rightarrow> u32"

definition regs_save :: "'d cpu \<Rightarrow> register_file" where
  "regs_save s = \<lparr>rf_gpr = gpr s, rf_fpr = fpr s, rf_cr = cr s, rf_xer = xer s, rf_lr = lr s, rf_ctr = ctr s,
     rf_fpscr = fpscr s, rf_msr = msr s, rf_pc = pc s, rf_gqr = gqr s\<rparr>"

definition regs_restore :: "register_file \<Rightarrow> 'd cpu \<Rightarrow> 'd cpu" where
  "regs_restore r s = s\<lparr>gpr := rf_gpr r, fpr := rf_fpr r, gqr := rf_gqr r, cr := rf_cr r, xer := rf_xer r, lr := rf_lr r,
     ctr := rf_ctr r, fpscr := rf_fpscr r, msr := rf_msr r, pc := rf_pc r\<rparr>"

text \<open>The state a handler starts in.\<close>

definition handler_entry ::
  "'m irq_env' \<Rightarrow> u32 \<Rightarrow> 'm irq_dev_scheme cpu \<Rightarrow> 'm irq_dev_scheme cpu" where
  "handler_entry env number s =
     (case mem_r32 (device_io env) OS_CURRENT_CONTEXT (s\<lparr>gpr := (gpr s)(3 := number)\<rparr>) of (ctx, s1) \<Rightarrow>
        irq_upd (\<lambda>q. q\<lparr>g_irq_ctx := ctx, g_in_handler := g_in_handler q + 1, g_delivered := g_delivered q + 1,
             g_delivered_by_number := (if number < 32
               then (g_delivered_by_number q)(unat number := g_delivered_by_number q (unat number) + 1)
               else g_delivered_by_number q)\<rparr>)
          (s1\<lparr>gpr := (gpr s1)(4 := ctx), msr := msr s1 AND NOT 0x8000\<rparr>))"

definition call_guest_handler ::
  "'m irq_env' \<Rightarrow> u32 \<Rightarrow> u32 \<Rightarrow> 'm irq_dev_scheme cpu \<Rightarrow> 'm irq_dev_scheme cpu" where
  "call_guest_handler env handler number s =
     regs_restore (regs_save s)
       (irq_upd (\<lambda>q. q\<lparr>g_in_handler := g_in_handler q - 1, g_irq_ctx := 0\<rparr>)
         (dispatch env handler (handler_entry env number s)))"

definition irq_handler_slot ::
  "'m irq_env' \<Rightarrow> u32 \<Rightarrow> 'm irq_dev_scheme cpu \<Rightarrow> u32 \<times> 'm irq_dev_scheme cpu" where
  "irq_handler_slot env irq s =
     (case mem_r32 (device_io env) INTERRUPT_TABLE_PTR s of (t, s1) \<Rightarrow>
        ((if t = 0 then OS_INTERRUPT_TABLE else t) + 4 * irq, s1))"

definition interrupt_handler ::
  "'m irq_env' \<Rightarrow> u32 \<Rightarrow> 'm irq_dev_scheme cpu \<Rightarrow> u32 \<times> 'm irq_dev_scheme cpu" where
  "interrupt_handler env irq s =
     (case irq_handler_slot env irq s of (slot, s1) \<Rightarrow> mem_r32 (device_io env) slot s1)"

text \<open>A source that is due: its handler, if one is installed, is counted and run.\<close>

definition deliver ::
  "'m irq_env' \<Rightarrow> bool \<Rightarrow> u32 \<Rightarrow> ('m irq_dev_scheme cpu \<Rightarrow> 'm irq_dev_scheme cpu) \<Rightarrow>
   'm irq_dev_scheme cpu \<Rightarrow> bool \<times> 'm irq_dev_scheme cpu" where
  "deliver env due number prep s =
     (if due then
        (case interrupt_handler env number s of (h, s1) \<Rightarrow>
           if h \<noteq> 0 then (True, call_guest_handler env h number (prep s1)) else (False, s1))
      else (False, s))"

definition deliver_decrementer ::
  "'m irq_env' \<Rightarrow> u64 \<Rightarrow> 'm irq_dev_scheme cpu \<Rightarrow> 'm irq_dev_scheme cpu" where
  "deliver_decrementer env now s =
     (if g_dec_armed (irq_of s) \<and> now - g_dec_set (irq_of s) \<ge> ucast (g_dec_value (irq_of s)) then
        (case exception_handler env EXC_DECREMENTER (irq_upd (\<lambda>q. q\<lparr>g_dec_armed := False\<rparr>) s) of (h, s1) \<Rightarrow>
           if h \<noteq> 0 then
             (case exception_handler env 1 s1 of (h1, s2) \<Rightarrow>
                if h \<noteq> h1
                then call_guest_handler env h EXC_DECREMENTER (irq_upd (\<lambda>q. q\<lparr>g_dec_count := g_dec_count q + 1\<rparr>) s2)
                else s2)
           else s1)
      else s)"

definition deliver_pe :: "'m irq_env' \<Rightarrow> 'm irq_dev_scheme cpu \<Rightarrow> 'm irq_dev_scheme cpu" where
  "deliver_pe env s =
     (let due = gx_pe_irq_pending env s; count = irq_upd (\<lambda>q. q\<lparr>g_pe_count := g_pe_count q + 1\<rparr>);
          s1 = snd (deliver env (nonzero (due AND 2)) IRQ_PI_PE_FINISH count s)
      in snd (deliver env (nonzero (due AND 1)) IRQ_PI_PE_TOKEN count s1))"

definition deliver_vi :: "'m irq_env' \<Rightarrow> u64 \<Rightarrow> 'm irq_dev_scheme cpu \<Rightarrow> 'm irq_dev_scheme cpu" where
  "deliver_vi env now s =
     snd (deliver env (now - g_vi_last (irq_of s) \<ge> VI_PERIOD_TICKS) IRQ_PI_VI
       (\<lambda>s. si_poll env (irq_upd (\<lambda>q. q\<lparr>g_vi_last := now, g_vi_count := g_vi_count q + 1, g_vi_pending := True\<rparr>) s)) s)"

text \<open>EXI: for each channel the device's own interrupt, then its transfer-complete; another round as
  long as a handler ran, four at most.\<close>

definition exi_channel ::
  "'m irq_env' \<Rightarrow> nat \<Rightarrow> u32 \<Rightarrow> u32 \<Rightarrow> bool \<times> 'm irq_dev_scheme cpu \<Rightarrow> bool \<times> 'm irq_dev_scheme cpu" where
  "exi_channel env ch exi tc rs =
     (case rs of (any, s) \<Rightarrow>
      case deliver env (bit (exi_exi_irq_pending s) ch) exi (irq_upd (\<lambda>q. q\<lparr>g_exid_count := g_exid_count q + 1\<rparr>)) s of
        (r1, s1) \<Rightarrow>
      case deliver env (bit (exi_irq_pending s1) ch) tc (irq_upd (\<lambda>q. q\<lparr>g_exi_count := g_exi_count q + 1\<rparr>)) s1 of
        (r2, s2) \<Rightarrow> (any \<or> r1 \<or> r2, s2))"

definition exi_round :: "'m irq_env' \<Rightarrow> 'm irq_dev_scheme cpu \<Rightarrow> bool \<times> 'm irq_dev_scheme cpu" where
  "exi_round env s =
     exi_channel env 2 IRQ_EXI_2_EXI IRQ_EXI_2_TC
       (exi_channel env 1 IRQ_EXI_1_EXI IRQ_EXI_1_TC
         (exi_channel env 0 IRQ_EXI_0_EXI IRQ_EXI_0_TC (False, s)))"

fun exi_rounds :: "nat \<Rightarrow> 'm irq_env' \<Rightarrow> 'm irq_dev_scheme cpu \<Rightarrow> 'm irq_dev_scheme cpu" where
  "exi_rounds 0 env s = s"
| "exi_rounds (Suc k) env s = (case exi_round env s of (any, s1) \<Rightarrow> if any then exi_rounds k env s1 else s1)"

definition deliver_pending :: "'m irq_env' \<Rightarrow> 'm irq_dev_scheme cpu \<Rightarrow> 'm irq_dev_scheme cpu" where
  "deliver_pending env s =
     (case tb_now s of (now, s0) \<Rightarrow>
        if g_in_handler (irq_of s0) \<noteq> 0 then s0
        else
          let s1 = deliver_decrementer env now s0;
              s2 = deliver_pe env s1;
              s3 = dsp_poll (dsp_par env) (aram_poll (di_poll env s2));
              s4 = snd (deliver env (dsp_irq_pending s3) IRQ_DSP_DSP (irq_upd (\<lambda>q. q\<lparr>g_dsp_count := g_dsp_count q + 1\<rparr>)) s3);
              s5 = snd (deliver env (ai_dma_irq_pending s4) IRQ_DSP_AI (irq_upd (\<lambda>q. q\<lparr>g_aid_count := g_aid_count q + 1\<rparr>)) s4);
              s6 = snd (deliver env (aram_irq_pending s5) IRQ_DSP_ARAM (irq_upd (\<lambda>q. q\<lparr>g_ar_count := g_ar_count q + 1\<rparr>)) s5);
              s7 = snd (deliver env (di_irq_pending env s6) IRQ_PI_DI (irq_upd (\<lambda>q. q\<lparr>g_di_count := g_di_count q + 1\<rparr>)) s6);
              s8 = deliver_vi env now s7;
              s9 = exi_rounds 4 env s8
          in snd (deliver env (si_irq_pending env s9) IRQ_PI_SI (irq_upd (\<lambda>q. q\<lparr>g_si_count := g_si_count q + 1\<rparr>)) s9))"

definition hook_80237BA8 :: "'m irq_env' \<Rightarrow> 'm irq_dev_scheme cpu \<Rightarrow> 'm irq_dev_scheme cpu" where
  "hook_80237BA8 env s = deliver_pending env s"

definition irq_poll :: "'m irq_env' \<Rightarrow> 'm irq_dev_scheme cpu \<Rightarrow> 'm irq_dev_scheme cpu" where
  "irq_poll env s =
     (if msr s AND 0x8000 = 0 \<or> g_in_handler (irq_of s) \<noteq> 0 then s
      else
        let s1 = irq_upd (\<lambda>q. q\<lparr>poll_n := poll_n q + 1\<rparr>) s
        in if nonzero (poll_n (irq_of s1) AND 0xF) then s1
           else
             let before = g_delivered (irq_of s1); s2 = deliver_pending env s1
             in if g_delivered (irq_of s2) \<noteq> before
                then regs_restore (regs_save s2)
                       (dispatch env OS_RESCHEDULE (s2\<lparr>msr := msr s2 AND NOT 0x8000, lr := 0\<rparr>))
                else s2)"

definition irq_retrace_count :: "'m irq_dev_scheme cpu \<Rightarrow> u64" where
  "irq_retrace_count s = g_vi_count (irq_of s)"

section \<open>Registers across a delivery\<close>

lemma regs_save_dev [simp]: "regs_save (dev f s) = regs_save s"
  by (simp add: regs_save_def dev_def)

lemma regs_save_irq_upd [simp]: "regs_save (irq_upd f s) = regs_save s"
  by (simp add: irq_upd_def)

lemma regs_save_restore [simp]: "regs_save (regs_restore r s) = r"
  by (simp add: regs_save_def regs_restore_def)

lemma regs_save_tb_now [simp]: "regs_save (snd (tb_now s)) = regs_save s"
  by (simp add: tb_now_def)

lemma regs_save_device [simp]:
  "regs_save (dsp_csr_raise b s) = regs_save s" "regs_save (push_out m i t) = regs_save t" "regs_save (aram_poll u) = regs_save u"
  by (simp_all add: dsp_csr_raise_def push_out_def aram_poll_def tb_now_def Let_def)

lemma regs_save_exi_read [simp]: "regs_save (snd (exi_read ea n s)) = regs_save s"
  by (simp add: exi_read_def Let_def)

lemma regs_save_dsp_read [simp]: "regs_save (snd (dsp_read ea n s)) = regs_save s"
  by (simp add: dsp_read_def tb_now_def Let_def)

lemma regs_save_aram_read [simp]: "regs_save (snd (aram_read ea n s)) = regs_save s"
  by (simp add: aram_read_def Let_def)

text \<open>What the interrupted code can see of the processor, register by register: that the save area of
  the deliveries covers exactly this is the first lemma.\<close>

definition same_registers :: "'d cpu \<Rightarrow> 'd cpu \<Rightarrow> bool" where
  "same_registers s t \<longleftrightarrow> (\<forall>n. gpr t n = gpr s n) \<and> (\<forall>n. fpr t n = fpr s n) \<and> (\<forall>n. gqr t n = gqr s n) \<and> cr t = cr s
     \<and> xer t = xer s \<and> lr t = lr s \<and> ctr t = ctr s \<and> fpscr t = fpscr s \<and> msr t = msr s \<and> pc t = pc s"

lemma same_registers_iff: "same_registers s t \<longleftrightarrow> regs_save t = regs_save s"
  by (auto simp: same_registers_def regs_save_def fun_eq_iff)

text \<open>The devices outside this development leave the CPU registers alone.\<close>

definition devices_quiet :: "'m irq_env' \<Rightarrow> bool" where
  "devices_quiet env \<longleftrightarrow>
     (\<forall>s. same_registers s (di_poll env s) \<and> same_registers s (si_poll env s)
        \<and> (\<forall>bs r. same_registers s (audio_push_block (dsp_par env) bs r s))
        \<and> (\<forall>ea n. same_registers s (snd (si_read env ea n s)) \<and> same_registers s (snd (gx_read env ea n s))
             \<and> same_registers s (snd (di_read env ea n s))))"

lemma ask_regs: "\<forall>f\<in>set fs. \<forall>s. regs_save (snd (f s)) = regs_save s \<Longrightarrow> regs_save (snd (ask fs s)) = regs_save s"
proof (induction fs arbitrary: s)
  case (Cons f fs)
  obtain v s1 where f: "f s = (v, s1)" by fastforce
  then have "regs_save s1 = regs_save s" using Cons.prems by (metis list.set_intros(1) snd_conv)
  then show ?case using Cons f by (cases v) simp_all
qed simp

lemma device_read_regs: "devices_quiet env \<Longrightarrow> regs_save (snd (device_read env ea n s)) = regs_save s"
  unfolding device_read_def
  by (auto simp: ai_read_def tb_now_def devices_quiet_def same_registers_iff Let_def simp del: ask.simps intro!: ask_regs)

lemma mem_r32_regs: "devices_quiet env \<Longrightarrow> regs_save (snd (mem_r32 (device_io env) ea s)) = regs_save s"
  using device_read_regs [of env ea 4 s]
  by (auto simp: mem_r32_def device_io_def Let_def split: prod.split option.split)

lemma handler_reads_regs:
  assumes "devices_quiet env"
  shows "regs_save (snd (interrupt_handler env n s)) = regs_save s" "regs_save (snd (exception_handler env n s)) = regs_save s"
  using mem_r32_regs [OF assms]
  by (simp_all add: interrupt_handler_def irq_handler_slot_def exception_handler_def case_prod_beta)

lemma call_guest_handler_regs [simp]: "regs_save (call_guest_handler env h n s) = regs_save s"
  by (simp add: call_guest_handler_def)

lemma deliver_regs:
  assumes "devices_quiet env" "\<And>s. regs_save (prep s) = regs_save s"
  shows "regs_save (snd (deliver env due n prep s)) = regs_save s"
  using assms(2) handler_reads_regs [OF assms(1)] by (simp add: deliver_def case_prod_beta)

lemma exi_channel_regs:
  "devices_quiet env \<Longrightarrow> regs_save (snd (exi_channel env ch a b rs)) = regs_save (snd rs)"
  by (simp add: exi_channel_def deliver_regs case_prod_beta)

lemma exi_round_regs: "devices_quiet env \<Longrightarrow> regs_save (snd (exi_round env s)) = regs_save s"
  by (simp add: exi_round_def exi_channel_regs)

lemma exi_rounds_regs: "devices_quiet env \<Longrightarrow> regs_save (exi_rounds k env s) = regs_save s"
  by (induction k arbitrary: s) (simp_all add: exi_round_regs case_prod_beta)

lemma dsp_poll_regs: "devices_quiet env \<Longrightarrow> regs_save (dsp_poll (dsp_par env) s) = regs_save s"
  by (simp add: dsp_poll_def tb_now_def devices_quiet_def same_registers_iff Let_def)

lemma deliver_decrementer_regs: "devices_quiet env \<Longrightarrow> regs_save (deliver_decrementer env now s) = regs_save s"
  using handler_reads_regs [of env] by (simp add: deliver_decrementer_def case_prod_beta)

lemma deliver_pending_regs: "devices_quiet env \<Longrightarrow> regs_save (deliver_pending env s) = regs_save s"
proof -
  assume q: "devices_quiet env"
  then have "regs_save (di_poll env s) = regs_save s" "regs_save (si_poll env s) = regs_save s" for s
    by (simp_all add: devices_quiet_def same_registers_iff)
  then show ?thesis
    using q by (simp add: deliver_pending_def deliver_regs exi_rounds_regs deliver_vi_def deliver_pe_def
        deliver_decrementer_regs dsp_poll_regs case_prod_beta Let_def)
qed

text \<open>C8: interrupts are invisible to the interrupted code: whatever the guest's handlers and scheduler
  do, after a poll or a delivery every general, floating-point and quantization register, the
  condition register, XER, LR, CTR, FPSCR, the MSR and the program counter are what they were.\<close>

theorem irq_poll_transparent:
  assumes "devices_quiet env"
  shows "same_registers s (irq_poll env s) \<and> same_registers s (hook_80237BA8 env s)"
  using deliver_pending_regs [OF assms] by (simp add: same_registers_iff irq_poll_def hook_80237BA8_def Let_def)

section \<open>No nesting\<close>

lemma os_context_plain: "\<not> is_mmio OS_CURRENT_CONTEXT" "\<not> is_mmio INTERRUPT_TABLE_PTR" "\<not> is_mmio EXCEPTION_TABLE_PTR"
  by (simp_all add: is_mmio_def OS_CURRENT_CONTEXT_def INTERRUPT_TABLE_PTR_def EXCEPTION_TABLE_PTR_def)

lemma irq_of_irq_upd [simp]: "irq_of (irq_upd f s) = f (irq_of s)"
  by (simp add: irq_of_def irq_upd_def)

lemma irq_of_regs [simp]: "irq_of (s\<lparr>gpr := g\<rparr>) = irq_of s" "irq_of (s\<lparr>msr := m\<rparr>) = irq_of s"
  by (simp_all add: irq_of_def)

lemma busy_no_delivery:
  assumes "g_in_handler (irq_of x) \<noteq> 0"
  shows "irq_poll env x = x" and "deliver_pending env x = snd (tb_now x)"
proof -
  show "irq_poll env x = x" using assms by (simp add: irq_poll_def)
  have "g_in_handler (irq_of (snd (tb_now x))) \<noteq> 0" using assms by (simp add: tb_now_def irq_of_def)
  then show "deliver_pending env x = snd (tb_now x)" by (simp add: deliver_pending_def case_prod_beta)
qed

text \<open>C35: a handler runs as the exception path would run it: with the source's number and the current
  context as its arguments, external interrupts masked and exactly one more delivery counted, and while
  it runs nothing else is delivered: neither a poll nor the idle hook calls a handler in any state in
  which it is still the running one, even if it enables interrupts.\<close>

theorem handler_runs_alone:
  assumes "g_in_handler (irq_of s) = 0" and "number < 32"
  shows "let e = handler_entry env number s
    in gpr e 3 = number \<and> gpr e 4 = fst (mem_r32 (device_io env) OS_CURRENT_CONTEXT s) \<and> msr e AND 0x8000 = 0
      \<and> g_in_handler (irq_of e) = 1 \<and> g_delivered (irq_of e) = g_delivered (irq_of s) + 1
      \<and> irq_delivered_count (unat number) e = irq_delivered_count (unat number) s + 1
      \<and> (\<forall>x. g_in_handler (irq_of x) = g_in_handler (irq_of e) \<longrightarrow>
           irq_poll env x = x \<and> hook_80237BA8 env x = snd (tb_now x))"
proof -
  have u: "gpr (irq_upd f x) = gpr x" "msr (irq_upd f x) = msr x" for f and x :: "'a irq_dev_scheme cpu"
    by (simp_all add: irq_upd_def)
  have m: "(w AND NOT 0x8000) AND 0x8000 = (0 :: u32)" for w
    by (simp add: and.assoc)
  have n: "unat number < 32" using assms(2) by (simp add: word_less_nat_alt)
  have r: "mem_r32 io OS_CURRENT_CONTEXT (s\<lparr>gpr := g\<rparr>) = (fst (mem_r32 io OS_CURRENT_CONTEXT s), s\<lparr>gpr := g\<rparr>)" for io g
    using os_context_plain by (simp add: mem_r32_def Let_def)
  show ?thesis
    using assms n
    by (simp add: handler_entry_def r u m [simplified] irq_delivered_count_def busy_no_delivery hook_80237BA8_def)
qed

section \<open>The EXI interrupts are drained\<close>

text \<open>The slots of the OS's interrupt and exception tables in ordinary memory; the sources of a channel
  that a handler waits for.\<close>

definition slots_plain :: "'d cpu \<Rightarrow> bool" where
  "slots_plain s \<longleftrightarrow>
     (\<forall>n\<le>32. \<not> is_mmio ((if fst (mem_r32 io_none INTERRUPT_TABLE_PTR s) = 0 then OS_INTERRUPT_TABLE
                       else fst (mem_r32 io_none INTERRUPT_TABLE_PTR s)) + 4 * n)
        \<and> \<not> is_mmio ((if fst (mem_r32 io_none EXCEPTION_TABLE_PTR s) = 0 then OS_EXCEPTION_TABLE
                       else fst (mem_r32 io_none EXCEPTION_TABLE_PTR s)) + 4 * n))"

definition exi_waiting :: "'m irq_env' \<Rightarrow> 'm irq_dev_scheme cpu \<Rightarrow> nat \<Rightarrow> u32 \<Rightarrow> u32 \<Rightarrow> bool" where
  "exi_waiting env s ch exi tc \<longleftrightarrow>
     bit (exi_exi_irq_pending s) ch \<and> fst (interrupt_handler env exi s) \<noteq> 0
     \<or> bit (exi_irq_pending s) ch \<and> fst (interrupt_handler env tc s) \<noteq> 0"

definition exi_drained :: "'m irq_env' \<Rightarrow> 'm irq_dev_scheme cpu \<Rightarrow> bool" where
  "exi_drained env s \<longleftrightarrow> \<not> exi_waiting env s 0 IRQ_EXI_0_EXI IRQ_EXI_0_TC
     \<and> \<not> exi_waiting env s 1 IRQ_EXI_1_EXI IRQ_EXI_1_TC \<and> \<not> exi_waiting env s 2 IRQ_EXI_2_EXI IRQ_EXI_2_TC"

lemma mem_r32_plain: "\<not> is_mmio ea \<Longrightarrow> mem_r32 io ea s = (fst (mem_r32 io_none ea s), s)"
  by (simp add: mem_r32_def Let_def)

lemma interrupt_handler_state: "slots_plain s \<Longrightarrow> n \<le> 32 \<Longrightarrow> snd (interrupt_handler env n s) = s"
proof -
  assume a: "slots_plain s" "n \<le> 32"
  let ?t = "fst (mem_r32 io_none INTERRUPT_TABLE_PTR s)"
  have e: "irq_handler_slot env n s = ((if ?t = 0 then OS_INTERRUPT_TABLE else ?t) + 4 * n, s)"
    unfolding irq_handler_slot_def mem_r32_plain [OF os_context_plain(2), of "device_io env" s] by (simp only: prod.case)
  have "\<not> is_mmio (fst (irq_handler_slot env n s))"
    unfolding e fst_conv using a(1) [unfolded slots_plain_def, rule_format, OF a(2)] by simp
  moreover have "snd (irq_handler_slot env n s) = s" by (simp only: e snd_conv)
  ultimately show ?thesis by (simp add: interrupt_handler_def case_prod_beta mem_r32_def Let_def)
qed

lemma deliver_idle:
  assumes "slots_plain s" "n \<le> 32" "\<not> fst (deliver env due n prep s)"
  shows "snd (deliver env due n prep s) = s" and "\<not> (due \<and> fst (interrupt_handler env n s) \<noteq> 0)"
  using assms interrupt_handler_state [OF assms(1,2), of env]
  by (auto simp: deliver_def case_prod_beta split: if_splits)

lemma exi_channel_idle:
  assumes "slots_plain s" "e \<le> 32" "t \<le> 32" "\<not> fst (exi_channel env ch e t (any, s))"
  shows "\<not> any" and "snd (exi_channel env ch e t (any, s)) = s" and "\<not> exi_waiting env s ch e t"
proof -
  let ?d = "deliver env (bit (exi_exi_irq_pending s) ch) e (irq_upd (\<lambda>q. q\<lparr>g_exid_count := g_exid_count q + 1\<rparr>)) s"
  have n: "\<not> fst ?d" "\<not> any" using assms(4) by (simp_all add: exi_channel_def case_prod_beta)
  note d = deliver_idle [OF assms(1,2) n(1)]
  have d': "?d = (False, s)" by (rule prod_eqI) (simp_all only: d(1) n(1) fst_conv snd_conv)
  have n2: "\<not> fst (deliver env (bit (exi_irq_pending s) ch) t (irq_upd (\<lambda>q. q\<lparr>g_exi_count := g_exi_count q + 1\<rparr>)) s)"
    using assms(4) by (simp add: exi_channel_def d' case_prod_beta)
  note d2 = deliver_idle [OF assms(1,3) n2]
  show "\<not> any" "snd (exi_channel env ch e t (any, s)) = s" "\<not> exi_waiting env s ch e t"
    using n(2) d(2) d2 by (simp_all add: exi_channel_def d' case_prod_beta exi_waiting_def)
qed

lemma exi_round_idle:
  assumes "slots_plain s" "\<not> fst (exi_round env s)"
  shows "snd (exi_round env s) = s" and "exi_drained env s"
proof -
  let ?c0 = "exi_channel env 0 IRQ_EXI_0_EXI IRQ_EXI_0_TC (False, s)"
  let ?c1 = "exi_channel env 1 IRQ_EXI_1_EXI IRQ_EXI_1_TC ?c0"
  let ?c2 = "exi_channel env 2 IRQ_EXI_2_EXI IRQ_EXI_2_TC ?c1"
  have keep: "fst (exi_channel env ch e t (True, s'))" for ch e t s' by (simp add: exi_channel_def case_prod_beta)
  have n2: "\<not> fst ?c2" using assms(2) by (simp add: exi_round_def)
  have n1: "\<not> fst ?c1" using n2 keep [of 2 _ _ "snd ?c1"] by (cases ?c1) auto
  have n0: "\<not> fst ?c0" using n1 keep [of 1 _ _ "snd ?c0"] by (cases ?c0) auto
  have le: "IRQ_EXI_0_EXI \<le> 32" "IRQ_EXI_0_TC \<le> 32" "IRQ_EXI_1_EXI \<le> 32" "IRQ_EXI_1_TC \<le> 32" "IRQ_EXI_2_EXI \<le> 32" "IRQ_EXI_2_TC \<le> 32"
    by (simp_all add: IRQ_EXI_0_EXI_def IRQ_EXI_0_TC_def IRQ_EXI_1_EXI_def IRQ_EXI_1_TC_def IRQ_EXI_2_EXI_def IRQ_EXI_2_TC_def)
  note i0 = exi_channel_idle [OF assms(1) le(1,2) n0]
  have c0: "?c0 = (False, s)" by (rule prod_eqI) (simp_all only: i0(2) n0 fst_conv snd_conv)
  note i1 = exi_channel_idle [OF assms(1) le(3,4) n1 [unfolded c0]]
  have c1: "?c1 = (False, s)" unfolding c0 by (rule prod_eqI) (simp_all only: i1(2) n1 [unfolded c0] fst_conv snd_conv)
  note i2 = exi_channel_idle [OF assms(1) le(5,6) n2 [unfolded c1]]
  show "snd (exi_round env s) = s" "exi_drained env s"
    unfolding exi_round_def c1 exi_drained_def using i0 i1 i2 by simp_all
qed

text \<open>What a delivery counts: whether a handler runs, the serial interface's deliveries and the EXI's.
  Code that leaves the tables in place and the counts alone.\<close>

definition exi_runs :: "'m irq_dev_scheme cpu \<Rightarrow> u64" where
  "exi_runs s = g_exi_count (irq_of s) + g_exid_count (irq_of s)"

definition undisturbed :: "'m irq_dev_scheme cpu \<Rightarrow> 'm irq_dev_scheme cpu \<Rightarrow> bool" where
  "undisturbed s t \<longleftrightarrow> (slots_plain s \<longrightarrow> slots_plain t) \<and> g_in_handler (irq_of t) = g_in_handler (irq_of s)
     \<and> g_si_count (irq_of t) = g_si_count (irq_of s) \<and> exi_runs t = exi_runs s"

text \<open>Guest code and devices that keep the OS tables in ordinary memory and do not abandon the delivery
  they run in. (A handler that switches threads instead of returning leaves the delivery for good.)\<close>

definition guest_keeps :: "'m irq_env' \<Rightarrow> bool" where
  "guest_keeps env \<longleftrightarrow>
     (\<forall>h s. g_in_handler (irq_of s) \<noteq> 0 \<longrightarrow> undisturbed s (dispatch env h s))
     \<and> (\<forall>s. undisturbed s (di_poll env s) \<and> undisturbed s (si_poll env s)
          \<and> (\<forall>bs r. undisturbed s (audio_push_block (dsp_par env) bs r s)))"

definition at_rest :: "'m irq_dev_scheme cpu \<Rightarrow> bool" where
  "at_rest s \<longleftrightarrow> slots_plain s \<and> g_in_handler (irq_of s) = 0"

lemma slots_plain_mem: "mem s' = mem s \<Longrightarrow> slots_plain s' = slots_plain s"
  by (simp add: slots_plain_def mem_r32_def os_context_plain Let_def)

lemma mem_irq [simp]: "mem (irq_upd f s) = mem s" "mem (regs_restore r t) = mem t"
  "irq_of (regs_restore r t) = irq_of t"
  by (simp_all add: irq_upd_def regs_restore_def irq_of_def)

lemma undisturbed_refl [simp]: "undisturbed s s"
  by (simp add: undisturbed_def)

lemma undisturbed_trans: "undisturbed s t \<Longrightarrow> undisturbed t u \<Longrightarrow> undisturbed s u"
  by (simp add: undisturbed_def)

lemma undisturbed_same:
  assumes "mem t = mem s" "g_in_handler (irq_of t) = g_in_handler (irq_of s)" "g_si_count (irq_of t) = g_si_count (irq_of s)"
    "g_exi_count (irq_of t) = g_exi_count (irq_of s)" "g_exid_count (irq_of t) = g_exid_count (irq_of s)"
  shows "undisturbed s t"
  using assms slots_plain_mem [OF assms(1)] by (simp add: undisturbed_def exi_runs_def)

lemma undisturbed_rest: "undisturbed s t \<Longrightarrow> at_rest s \<Longrightarrow> at_rest t"
  by (simp add: undisturbed_def at_rest_def)

lemma call_guest_handler_undisturbed:
  assumes "guest_keeps env" "at_rest s"
  shows "undisturbed s (call_guest_handler env h n s)"
proof -
  let ?e = "handler_entry env n s" and ?d = "dispatch env h (handler_entry env n s)"
  have e: "mem ?e = mem s" "irq_of ?e = (let q = irq_of s in q\<lparr>g_irq_ctx := g_irq_ctx (irq_of ?e), g_in_handler := g_in_handler q + 1,
      g_delivered := g_delivered (irq_of ?e), g_delivered_by_number := g_delivered_by_number (irq_of ?e)\<rparr>)"
    using os_context_plain by (simp_all add: handler_entry_def mem_r32_def Let_def)
  have "g_in_handler (irq_of ?e) = 1" using assms(2) by (subst e(2)) (simp add: at_rest_def Let_def)
  then have "undisturbed ?e ?d" using assms(1) by (simp add: guest_keeps_def)
  moreover have "slots_plain ?e = slots_plain s" by (rule slots_plain_mem) (rule e(1))
  moreover have "g_in_handler (irq_of ?e) = g_in_handler (irq_of s) + 1" "g_si_count (irq_of ?e) = g_si_count (irq_of s)"
    "g_exi_count (irq_of ?e) = g_exi_count (irq_of s)" "g_exid_count (irq_of ?e) = g_exid_count (irq_of s)"
    by (subst e(2), simp add: Let_def)+
  moreover have "slots_plain (call_guest_handler env h n s) = slots_plain ?d"
    by (rule slots_plain_mem) (simp add: call_guest_handler_def)
  ultimately show ?thesis
    by (simp add: undisturbed_def call_guest_handler_def exi_runs_def)
qed

lemma deliver_rest:
  assumes "guest_keeps env" "at_rest s" "n \<le> 32" "at_rest (prep s)"
  shows "undisturbed (if fst (deliver env due n prep s) then prep s else s) (snd (deliver env due n prep s))"
    and "at_rest (snd (deliver env due n prep s))"
proof -
  have i: "snd (interrupt_handler env n s) = s"
    using assms(2,3) by (intro interrupt_handler_state) (simp_all add: at_rest_def)
  show u: "undisturbed (if fst (deliver env due n prep s) then prep s else s) (snd (deliver env due n prep s))"
    using call_guest_handler_undisturbed [OF assms(1,4)] i by (simp add: deliver_def case_prod_beta)
  show "at_rest (snd (deliver env due n prep s))"
    using undisturbed_rest [OF u] assms(2,4) by (simp split: if_splits)
qed

lemma deliver_count:
  assumes "guest_keeps env" "at_rest s" "n \<le> 32" "\<And>q. g_in_handler (f q) = g_in_handler q"
    and "\<And>q. g_si_count (f q) = g_si_count q" "\<And>q. g_exi_count (f q) + g_exid_count (f q) = g_exi_count q + g_exid_count q + k"
  shows "at_rest (snd (deliver env due n (irq_upd f) s))"
    and "g_si_count (irq_of (snd (deliver env due n (irq_upd f) s))) = g_si_count (irq_of s)"
    and "exi_runs (snd (deliver env due n (irq_upd f) s))
      = exi_runs s + (if fst (deliver env due n (irq_upd f) s) then k else 0)"
proof -
  have p: "at_rest (irq_upd f s)"
    using assms(2,4) slots_plain_mem [of "irq_upd f s" s] by (simp add: at_rest_def)
  note d = deliver_rest [where prep = "irq_upd f", OF assms(1-3) p, of due]
  show "at_rest (snd (deliver env due n (irq_upd f) s))" by (rule d(2))
  show "g_si_count (irq_of (snd (deliver env due n (irq_upd f) s))) = g_si_count (irq_of s)"
    "exi_runs (snd (deliver env due n (irq_upd f) s)) = exi_runs s + (if fst (deliver env due n (irq_upd f) s) then k else 0)"
    using d(1) assms(5,6) by (simp_all add: undisturbed_def exi_runs_def split: if_splits)
qed

lemma exi_channel_rest:
  assumes g: "guest_keeps env" and r: "at_rest s" and n: "e \<le> 32" "t \<le> 32"
  shows "\<exists>k\<le>2. let u = exi_channel env ch e t (any, s)
      in at_rest (snd u) \<and> g_si_count (irq_of (snd u)) = g_si_count (irq_of s)
         \<and> exi_runs (snd u) = exi_runs s + of_nat k \<and> (fst u \<longleftrightarrow> any \<or> 0 < k)"
proof -
  let ?f1 = "\<lambda>q. q\<lparr>g_exid_count := g_exid_count q + 1\<rparr>" and ?f2 = "\<lambda>q. q\<lparr>g_exi_count := g_exi_count q + 1\<rparr>"
  let ?d1 = "deliver env (bit (exi_exi_irq_pending s) ch) e (irq_upd ?f1) s"
  let ?d2 = "deliver env (bit (exi_irq_pending (snd ?d1)) ch) t (irq_upd ?f2) (snd ?d1)"
  note a = deliver_count [where f = ?f1 and k = 1, OF g r n(1), simplified]
  note b = deliver_count [where f = ?f2 and k = 1, OF g a(1) n(2), simplified]
  let ?k = "(if fst ?d1 then 1 else 0) + (if fst ?d2 then 1 else 0) :: nat"
  have "exi_channel env ch e t (any, s) = (any \<or> fst ?d1 \<or> fst ?d2, snd ?d2)"
    by (simp add: exi_channel_def case_prod_beta)
  then show ?thesis
    using a(2,3) b by (intro exI [of _ ?k]) (simp add: Let_def)
qed

lemma exi_round_rest:
  assumes "guest_keeps env" "at_rest s"
  shows "\<exists>k\<le>6. at_rest (snd (exi_round env s)) \<and> g_si_count (irq_of (snd (exi_round env s))) = g_si_count (irq_of s)
         \<and> exi_runs (snd (exi_round env s)) = exi_runs s + of_nat k \<and> (fst (exi_round env s) \<longleftrightarrow> 0 < k)"
proof -
  let ?c0 = "exi_channel env 0 IRQ_EXI_0_EXI IRQ_EXI_0_TC (False, s)"
  let ?c1 = "exi_channel env 1 IRQ_EXI_1_EXI IRQ_EXI_1_TC ?c0"
  let ?c2 = "exi_channel env 2 IRQ_EXI_2_EXI IRQ_EXI_2_TC ?c1"
  have le: "IRQ_EXI_0_EXI \<le> 32" "IRQ_EXI_0_TC \<le> 32" "IRQ_EXI_1_EXI \<le> 32" "IRQ_EXI_1_TC \<le> 32" "IRQ_EXI_2_EXI \<le> 32" "IRQ_EXI_2_TC \<le> 32"
    by (simp_all add: IRQ_EXI_0_EXI_def IRQ_EXI_0_TC_def IRQ_EXI_1_EXI_def IRQ_EXI_1_TC_def IRQ_EXI_2_EXI_def IRQ_EXI_2_TC_def)
  obtain k0 where k0: "k0 \<le> 2" "at_rest (snd ?c0)" "g_si_count (irq_of (snd ?c0)) = g_si_count (irq_of s)"
    "exi_runs (snd ?c0) = exi_runs s + of_nat k0" "fst ?c0 \<longleftrightarrow> 0 < k0"
    using exi_channel_rest [OF assms le(1,2), of 0 False] unfolding Let_def by auto
  obtain k1 where k1: "k1 \<le> 2" "at_rest (snd ?c1)" "g_si_count (irq_of (snd ?c1)) = g_si_count (irq_of (snd ?c0))"
    "exi_runs (snd ?c1) = exi_runs (snd ?c0) + of_nat k1" "fst ?c1 \<longleftrightarrow> fst ?c0 \<or> 0 < k1"
    using exi_channel_rest [OF assms(1) k0(2) le(3,4), of 1 "fst ?c0"] unfolding Let_def prod.collapse by auto
  obtain k2 where k2: "k2 \<le> 2" "at_rest (snd ?c2)" "g_si_count (irq_of (snd ?c2)) = g_si_count (irq_of (snd ?c1))"
    "exi_runs (snd ?c2) = exi_runs (snd ?c1) + of_nat k2" "fst ?c2 \<longleftrightarrow> fst ?c1 \<or> 0 < k2"
    using exi_channel_rest [OF assms(1) k1(2) le(5,6), of 2 "fst ?c1"] unfolding Let_def prod.collapse by auto
  have "at_rest (snd ?c2) \<and> g_si_count (irq_of (snd ?c2)) = g_si_count (irq_of s)
      \<and> exi_runs (snd ?c2) = exi_runs s + of_nat (k0 + k1 + k2) \<and> (fst ?c2 \<longleftrightarrow> 0 < k0 + k1 + k2)"
    using k0 k1 k2 by (simp add: algebra_simps)
  then show ?thesis
    using k0(1) k1(1) k2(1) unfolding exi_round_def by (intro exI [of _ "k0 + k1 + k2"]) simp
qed

lemma exi_rounds_rest:
  assumes "guest_keeps env"
  shows "at_rest s \<Longrightarrow> \<exists>k\<le>6 * n. at_rest (exi_rounds n env s) \<and> g_si_count (irq_of (exi_rounds n env s)) = g_si_count (irq_of s)
      \<and> exi_runs (exi_rounds n env s) = exi_runs s + of_nat k \<and> (exi_drained env (exi_rounds n env s) \<or> n \<le> k)"
proof (induction n arbitrary: s)
  case (Suc n)
  let ?r = "exi_round env s"
  obtain k where k: "k \<le> 6" "at_rest (snd ?r)" "g_si_count (irq_of (snd ?r)) = g_si_count (irq_of s)"
    "exi_runs (snd ?r) = exi_runs s + of_nat k" "fst ?r \<longleftrightarrow> 0 < k"
    using exi_round_rest [OF assms Suc.prems] by blast
  show ?case
  proof (cases "fst ?r")
    case True
    obtain m where m: "m \<le> 6 * n" "at_rest (exi_rounds n env (snd ?r))"
      "g_si_count (irq_of (exi_rounds n env (snd ?r))) = g_si_count (irq_of (snd ?r))"
      "exi_runs (exi_rounds n env (snd ?r)) = exi_runs (snd ?r) + of_nat m"
      "exi_drained env (exi_rounds n env (snd ?r)) \<or> n \<le> m"
      using Suc.IH [OF k(2)] by blast
    have e: "exi_rounds (Suc n) env s = exi_rounds n env (snd ?r)" using True by (simp add: case_prod_beta)
    show ?thesis
      unfolding e using m k True by (intro exI [of _ "k + m"]) auto
  next
    case False
    then have e: "exi_rounds (Suc n) env s = s" "exi_drained env s"
      using exi_round_idle [of s env] Suc.prems by (simp_all add: at_rest_def case_prod_beta)
    show ?thesis
      unfolding e(1) using e(2) Suc.prems by (intro exI [of _ 0]) simp
  qed
qed (intro exI [of _ 0], simp)

section \<open>The steps of a delivery before the EXI\<close>

lemma exception_handler_state: "slots_plain s \<Longrightarrow> n \<le> 32 \<Longrightarrow> snd (exception_handler env n s) = s"
  unfolding exception_handler_def mem_r32_plain [OF os_context_plain(3), of "device_io env" s] prod.case
  by (subst mem_r32_plain) (simp_all add: slots_plain_def)

lemma deliver_decrementer_undisturbed:
  assumes "guest_keeps env" "at_rest s"
  shows "undisturbed s (deliver_decrementer env now s)"
proof -
  have u: "undisturbed s (irq_upd f s)" if "\<And>q. g_in_handler (f q) = g_in_handler q \<and> g_si_count (f q) = g_si_count q
      \<and> g_exi_count (f q) = g_exi_count q \<and> g_exid_count (f q) = g_exid_count q" for f s
    using that by (intro undisturbed_same) simp_all
  let ?s1 = "irq_upd (\<lambda>q. q\<lparr>g_dec_armed := False\<rparr>) s"
  let ?s2 = "irq_upd (\<lambda>q. q\<lparr>g_dec_count := g_dec_count q + 1\<rparr>) ?s1"
  have 1: "undisturbed s ?s1" by (rule u) simp
  have 2: "undisturbed s ?s2" by (rule undisturbed_trans [OF 1]) (rule u, simp)
  have "slots_plain ?s1" using undisturbed_rest [OF 1 assms(2)] by (simp add: at_rest_def)
  then have e: "snd (exception_handler env n ?s1) = ?s1" if "n \<le> 32" for n
    using that by (rule exception_handler_state)
  have 3: "undisturbed s (call_guest_handler env h EXC_DECREMENTER ?s2)" for h
    by (rule undisturbed_trans [OF 2 call_guest_handler_undisturbed [OF assms(1) undisturbed_rest [OF 2 assms(2)]]])
  show ?thesis
    using 1 3 by (simp add: deliver_decrementer_def case_prod_beta e EXC_DECREMENTER_def)
qed

lemma deliver_other_undisturbed:
  assumes "guest_keeps env" "at_rest s" "n \<le> 32" "\<And>t. undisturbed t (prep t)"
  shows "undisturbed s (snd (deliver env due n prep s))"
  using deliver_rest(1) [where prep = prep, OF assms(1-3) undisturbed_rest [OF assms(4,2)], of due] undisturbed_trans [OF assms(4) [of s]]
  by (simp split: if_splits)

lemma polls_undisturbed:
  assumes "guest_keeps env"
  shows "undisturbed s (dsp_poll (dsp_par env) (aram_poll (di_poll env s)))"
proof -
  have dev: "undisturbed t (dev f t)" if "\<And>d. g_irq (f d) = g_irq d" for f and t :: "'a irq_dev_scheme cpu"
    using that by (intro undisturbed_same) (simp_all add: irq_of_def)
  have aram: "undisturbed t (aram_poll t)" for t :: "'a irq_dev_scheme cpu"
    by (rule undisturbed_same) (simp_all add: aram_poll_def tb_now_def irq_of_def Let_def)
  have push: "undisturbed t (audio_push_block (dsp_par env) bs r t)" "undisturbed t (di_poll env t)" for bs r t
    using assms by (simp_all add: guest_keeps_def)
  have dsp: "undisturbed t (dsp_poll (dsp_par env) t)" for t
    unfolding dsp_poll_def tb_now_def Let_def dsp_csr_raise_def prod.case
    by (auto intro!: dev undisturbed_trans [OF _ dev] undisturbed_trans [OF _ push(1)] simp del: user_dev)
  show ?thesis by (rule undisturbed_trans [OF undisturbed_trans [OF push(2) aram] dsp])
qed

lemma deliver_pe_undisturbed:
  assumes "guest_keeps env" "at_rest s"
  shows "undisturbed s (deliver_pe env s)"
proof -
  let ?f = "irq_upd (\<lambda>q. q\<lparr>g_pe_count := g_pe_count q + 1\<rparr>)"
  have u: "undisturbed t (?f t)" for t by (rule undisturbed_same) simp_all
  let ?s1 = "snd (deliver env (nonzero (gx_pe_irq_pending env s AND 2)) IRQ_PI_PE_FINISH ?f s)"
  have 1: "undisturbed s ?s1"
    by (rule deliver_other_undisturbed [OF assms _ u]) (simp add: IRQ_PI_PE_FINISH_def)
  have "undisturbed ?s1 (snd (deliver env (nonzero (gx_pe_irq_pending env s AND 1)) IRQ_PI_PE_TOKEN ?f ?s1))"
    by (rule deliver_other_undisturbed [OF assms(1) undisturbed_rest [OF 1 assms(2)] _ u]) (simp add: IRQ_PI_PE_TOKEN_def)
  then show ?thesis using undisturbed_trans [OF 1] by (simp add: deliver_pe_def Let_def)
qed

lemma deliver_vi_undisturbed:
  assumes "guest_keeps env" "at_rest s"
  shows "undisturbed s (deliver_vi env now s)"
  unfolding deliver_vi_def
proof (rule deliver_other_undisturbed [OF assms])
  let ?f = "irq_upd (\<lambda>q. q\<lparr>g_vi_last := now, g_vi_count := g_vi_count q + 1, g_vi_pending := True\<rparr>)"
  fix t :: "'a irq_dev_scheme cpu"
  have "undisturbed t (?f t)" by (rule undisturbed_same) simp_all
  moreover have "undisturbed (?f t) (si_poll env (?f t))" using assms(1) by (simp add: guest_keeps_def)
  ultimately show "undisturbed t (si_poll env (?f t))" by (rule undisturbed_trans)
qed (simp add: IRQ_PI_VI_def)

text \<open>One after the other, what each leaves undisturbed.\<close>

lemma then_undisturbed:
  assumes "undisturbed s t" "at_rest s" "\<And>t. at_rest t \<Longrightarrow> undisturbed t (g t)"
  shows "undisturbed s (g t)"
  by (rule undisturbed_trans [OF assms(1) assms(3) [OF undisturbed_rest [OF assms(1,2)]]])


section \<open>Where an access goes\<close>

text \<open>the register window of the DSP belongs to dsp.c and aram.c: for a serial interface that keeps to
  a window of its own, an access there is never seen by the EXI, serial, VI, PI or AI registers, is
  offered to the mailbox model first and to the ARAM model next, and reaches the graphics and disc
  models only if both decline.\<close>

theorem dsp_window_routing:
  assumes "mmio_device (si_read env) (si_write env) si_window" and "\<forall>ea. si_window ea \<longrightarrow> \<not> dsp_window ea"
    and "dsp_window ea"
  shows "device_read env ea sz s = ask [dsp_read ea sz, aram_read ea sz, gx_read env ea sz, di_read env ea sz] s
    \<and> device_write env ea sz v s
      = tell [dsp_write (dsp_par env) ea sz v, aram_write (disc_par env) ea sz v, gx_write env ea sz v, di_write env ea sz v] s"
proof -
  have w: "0xCC005000 \<le> ea" "ea < 0xCC005040"
    using assms(3) by (simp_all add: dsp_window_def DSP_BASE_def)
  have "\<not> exi_window ea"
    using w by (auto simp: exi_window_def EXI_BASE_def word_le_nat_alt word_less_nat_alt)
  then have exi: "exi_read ea sz s = (None, s)" "exi_write io_none ea sz v s = (False, s)"
    by (rule exi_io.rd_outside, rule exi_io.wr_outside)
  have "\<not> si_window ea" using assms(2,3) by auto
  then have si: "si_read env ea sz s = (None, s)" "si_write env ea sz v s = (False, s)"
    using assms(1) by (simp_all add: mmio_device_def)
  have n: "\<not> ea < 0xCC002040" "ea \<noteq> 0xCC003000" "ea \<noteq> 0xCC003004" "\<not> ea \<ge> 0xCC006C00"
    using w by (auto simp: word_le_nat_alt word_less_nat_alt)
  show ?thesis
    using n exi si by (simp add: device_read_def device_write_def)
qed

definition env_none :: "'m irq_env'" where
  "env_none = \<lparr>dispatch = (\<lambda>h s. s\<lparr>gpr := (\<lambda>_. 0), msr := 0xFFFFFFFF\<rparr>), dsp_par = quiet_env, disc_par = disc_none,
     si_read = (\<lambda>ea n s. (None, s)), si_write = (\<lambda>ea n v s. (False, s)),
     gx_read = (\<lambda>ea n s. (None, s)), gx_write = (\<lambda>ea n v s. (False, s)),
     di_read = (\<lambda>ea n s. (None, s)), di_write = (\<lambda>ea n v s. (False, s)), gx_pipe = (\<lambda>n v s. s),
     di_poll = (\<lambda>s. s), si_poll = (\<lambda>s. s), di_irq_pending = (\<lambda>s. False), si_irq_pending = (\<lambda>s. True),
     gx_pe_irq_pending = (\<lambda>s. 3)\<rparr>"

definition irq_zero :: irq where
  "irq_zero = \<lparr>g_vi_di = (\<lambda>_. 0), g_pi_mask = 0, g_pi_cause = 0, g_ai_cr = 0, g_ai_vr = 0, g_ai_it = 0,
     g_ai_scnt_base = 0, g_vi_pending = False, g_vi_last = 0, g_vi_count = 0, g_dec_value = 0, g_dec_set = 0,
     g_dec_armed = False, g_dec_count = 0, g_dec_arms = 0, g_di_count = 0, g_pe_count = 0, g_ar_count = 0,
     g_dsp_count = 0, g_aid_count = 0, g_si_count = 0, g_exi_count = 0, g_exid_count = 0, g_irq_ctx = 0,
     g_in_handler = 0, g_delivered = 0, g_delivered_by_number = (\<lambda>_. 0), poll_n = 0\<rparr>"

text \<open>A machine whose low memory is all \<open>01\<close>: every handler slot lies in memory and is filled.\<close>

definition irq_machine :: "irq_dev cpu" where
  "irq_machine = with_user (exi_dev.extend (user (exi_machine exi_zero)) (irq_dev.fields irq_zero))
     ((exi_machine exi_zero)\<lparr>mem := (\<lambda>_. 1)\<rparr>)"

lemma irq_machine_simps [simp]: "irq_of irq_machine = irq_zero" "mem irq_machine = (\<lambda>_. 1)"
  by (simp_all add: irq_machine_def irq_of_def with_user_def exi_dev.extend_def irq_dev.fields_def)

theorem irq_poll_transparent_witness:
  "same_registers irq_machine (hook_80237BA8 env_none irq_machine)"
proof -
  have "devices_quiet (env_none :: irq_dev cpu irq_env)"
    by (simp add: devices_quiet_def env_none_def quiet_env_def same_registers_def)
  from irq_poll_transparent [OF this, of irq_machine] show ?thesis by simp
qed

theorem handler_runs_alone_witness:
  "gpr (handler_entry env_none 24 irq_machine) 3 = 24 \<and> msr (handler_entry env_none 24 irq_machine) AND 0x8000 = 0"
  using handler_runs_alone [of irq_machine 24 env_none]
  by (simp add: irq_zero_def Let_def)

text \<open>A machine whose memory card asks for an interrupt, and a guest whose handler acknowledges it.\<close>

definition env_ack :: "'m irq_env'" where
  "env_ack = env_none\<lparr>dispatch := (\<lambda>h s. exi_upd (upd_ch 0 (\<lambda>c. c\<lparr>ch_csr := ch_csr c AND NOT EXI_CSR_EXIINT\<rparr>)) s),
     si_irq_pending := (\<lambda>s. False), gx_pe_irq_pending := (\<lambda>s. 0)\<rparr>"

definition asking_machine :: "irq_dev cpu" where
  "asking_machine = exi_upd (upd_ch 0 (\<lambda>c. c\<lparr>ch_csr := EXI_CSR_EXIINT OR EXI_CSR_EXIINTMSK\<rparr>)) irq_machine"

lemma irq_of_exi_upd [simp]: "irq_of (exi_upd f s) = irq_of s"
  by (simp add: exi_upd_def irq_of_def)

lemma asking_machine_simps [simp]: "irq_of asking_machine = irq_zero" "mem asking_machine = (\<lambda>_. 1)"
  by (simp_all add: asking_machine_def)

lemma ones_plain: "mem s = (\<lambda>_. 1) \<Longrightarrow> slots_plain s"
proof -
  assume m: "mem s = (\<lambda>_. 1)"
  have t: "fst (mem_r32 io_none INTERRUPT_TABLE_PTR s) = 0x01010101" "fst (mem_r32 io_none EXCEPTION_TABLE_PTR s) = 0x01010101"
    using os_context_plain by (simp_all add: mem_r32_def Let_def get32_def m)
  have "\<not> is_mmio (0x01010101 + 4 * n)" if "n \<le> 32" for n :: u32
  proof -
    have "unat n \<le> 32" using that by (simp add: word_le_nat_alt)
    then have "unat (0x01010101 + 4 * n) = 0x01010101 + 4 * unat n" by (simp add: unat_word_ariths)
    then have "unat (drop_bit 24 (0x01010101 + 4 * n)) = (0x01010101 + 4 * unat n) div 2 ^ 24"
      by (simp only: unat_drop_bit_eq) (simp add: drop_bit_eq_div)
    then have "unat (drop_bit 24 (0x01010101 + 4 * n)) < 0xCC" using \<open>unat n \<le> 32\<close> by simp
    then have "drop_bit 24 (0x01010101 + 4 * n) < 0xCC" by (simp add: word_less_nat_alt)
    then show ?thesis by (auto simp: is_mmio_def Let_def)
  qed
  then show ?thesis by (simp add: slots_plain_def t)
qed

lemma ones_handler: "mem s = (\<lambda>_. 1) \<Longrightarrow> n \<le> 32 \<Longrightarrow> interrupt_handler env n s = (0x01010101, s)"
proof -
  assume a: "mem s = (\<lambda>_. 1)" "n \<le> 32"
  have e: "irq_handler_slot env n s = (0x01010101 + 4 * n, s)"
    using os_context_plain by (simp add: irq_handler_slot_def mem_r32_def Let_def get32_def a(1))
  have "\<not> is_mmio (0x01010101 + 4 * n)"
    using ones_plain [OF a(1)] a(2) os_context_plain
    by (auto simp: slots_plain_def mem_r32_def Let_def get32_def a(1))
  then show ?thesis by (simp add: interrupt_handler_def e mem_r32_def Let_def get32_def a(1))
qed

lemma asking_user: "g_csr (user asking_machine) = CSR_HALT OR CSR_DSPINIT" "g_ar_busy (user asking_machine) = False"
  "g_dma_ctrl (user asking_machine) = 0" "clk (user asking_machine) = (\<lambda>_. 0)"
  "g_exi (user asking_machine) = upd_ch 0 (\<lambda>c. c\<lparr>ch_csr := EXI_CSR_EXIINT OR EXI_CSR_EXIINTMSK\<rparr>) exi_zero"
  by (simp_all add: asking_machine_def exi_upd_def irq_machine_def with_user_def exi_dev.extend_def irq_dev.fields_def
      exi_machine_def aram_dev.extend_def exi_dev.fields_def aram_zero_def)

lemma deliver_not_due [simp]: "deliver env False n prep s = (False, s)"
  by (simp add: deliver_def)

text \<open>Nothing but the EXI is due.\<close>

lemma asking_hook: "hook_80237BA8 env_ack asking_machine = exi_rounds 4 env_ack (snd (tb_now asking_machine))"
proof -
  define t where "t = snd (tb_now asking_machine)"
  have tb: "tb_now asking_machine = (0, t)" by (simp add: t_def tb_now_def asking_user)
  have q: "irq_of t = irq_zero" using asking_machine_simps(1) by (simp add: t_def tb_now_def irq_of_def)
  have u: "g_csr (user t) = CSR_HALT OR CSR_DSPINIT" "g_ar_busy (user t) = False" "g_dma_ctrl (user t) = 0"
    by (simp_all add: t_def tb_now_def asking_user)
  have e: "gx_pe_irq_pending env_ack s = 0" "di_poll env_ack s = s" "di_irq_pending env_ack s = False"
    "si_irq_pending env_ack s = False" for s :: "irq_dev cpu"
    by (simp_all add: env_ack_def env_none_def)
  have 1: "deliver_decrementer env_ack 0 t = t" by (simp add: deliver_decrementer_def q irq_zero_def)
  have 2: "deliver_pe env_ack t = t" by (simp add: deliver_pe_def e Let_def)
  have 3: "aram_poll t = t" "dsp_poll (dsp_par env_ack) t = t" by (simp_all add: aram_poll_def dsp_poll_def u Let_def)
  have 4: "dsp_irq_pending t = False" "ai_dma_irq_pending t = False" "aram_irq_pending t = False"
    by (simp_all add: dsp_irq_pending_def ai_dma_irq_pending_def aram_irq_pending_def u CSR_HALT_def CSR_DSPINIT_def
        CSR_DSPINT_def CSR_AIDINT_def CSR_ARINT_def)
  have 5: "deliver_vi env_ack 0 t = t" by (simp add: deliver_vi_def q irq_zero_def VI_PERIOD_TICKS_def TB_HZ_def)
  show ?thesis
    unfolding hook_80237BA8_def deliver_pending_def tb prod.case Let_def 1 2 e(2) 3 4 deliver_not_due snd_conv e(3) 5 e(4)
    by (simp add: q irq_zero_def)
qed

lemma no_exi:
  assumes "nonzero (ch_csr (chan 0 s) AND EXI_CSR_EXIINT) = False" "\<And>k. nonzero (ch_csr (chan k s) AND EXI_CSR_TCINT) = False"
    "\<And>k. k \<noteq> 0 \<Longrightarrow> nonzero (ch_csr (chan k s) AND EXI_CSR_EXIINT) = False"
  shows "exi_exi_irq_pending s = 0" "exi_irq_pending s = 0"
  using assms by (simp_all add: exi_exi_irq_pending_def exi_irq_pending_def)

text \<open>The one handler that runs.\<close>

lemma asking_rounds:
  "let t = exi_rounds 4 env_ack (snd (tb_now asking_machine)) in g_exi_count (irq_of t) + g_exid_count (irq_of t) = 1 \<and> g_si_count (irq_of t) = 0"
proof -
  define t where "t = snd (tb_now asking_machine)"
  define u where "u = call_guest_handler env_ack 0x01010101 IRQ_EXI_0_EXI (irq_upd (\<lambda>q. q\<lparr>g_exid_count := g_exid_count q + 1\<rparr>) t)"
  have mt: "mem t = (\<lambda>_. 1)" by (simp add: t_def tb_now_def)
  have qt: "irq_of t = irq_zero" using asking_machine_simps(1) by (simp add: t_def tb_now_def irq_of_def)
  have et: "chan k t = (if k = 0 then channel_zero\<lparr>ch_csr := EXI_CSR_EXIINT OR EXI_CSR_EXIINTMSK\<rparr> else channel_zero)" for k
    by (simp add: t_def tb_now_def chan_def asking_user upd_ch_def exi_zero_def)
  have eu: "chan k u = (if k = 0 then channel_zero\<lparr>ch_csr := EXI_CSR_EXIINTMSK\<rparr> else channel_zero)" for k
    using et [unfolded chan_def, of k] et [unfolded chan_def, of 0] os_context_plain
    by (simp add: u_def call_guest_handler_def handler_entry_def regs_restore_def env_ack_def mem_r32_def Let_def chan_def
        upd_ch_def irq_upd_def EXI_CSR_EXIINT_def EXI_CSR_EXIINTMSK_def)
  have qu: "g_exi_count (irq_of u) = 0" "g_exid_count (irq_of u) = 1" "g_si_count (irq_of u) = 0"
    using os_context_plain
    by (simp_all add: u_def call_guest_handler_def handler_entry_def env_ack_def mem_r32_def Let_def qt irq_zero_def)
  have z: "nonzero (ch_csr channel_zero AND x) = False" for x by (simp add: channel_zero_def)
  have pu: "exi_exi_irq_pending u = 0" "exi_irq_pending u = 0"
    by (rule no_exi; simp add: eu channel_zero_def EXI_CSR_EXIINT_def EXI_CSR_EXIINTMSK_def EXI_CSR_TCINT_def)+
  have pt: "exi_exi_irq_pending t = 1"
    by (simp add: exi_exi_irq_pending_def et z EXI_CSR_EXIINT_def EXI_CSR_EXIINTMSK_def)
  have "interrupt_handler env_ack IRQ_EXI_0_EXI t = (0x01010101, t)"
    by (rule ones_handler [OF mt]) (simp add: IRQ_EXI_0_EXI_def)
  then have "deliver env_ack True IRQ_EXI_0_EXI (irq_upd (\<lambda>q. q\<lparr>g_exid_count := g_exid_count q + 1\<rparr>)) t = (True, u)"
    by (simp add: deliver_def u_def)
  then have "exi_channel env_ack 0 IRQ_EXI_0_EXI IRQ_EXI_0_TC (False, t) = (True, u)"
    by (simp add: exi_channel_def pt pu)
  moreover have idle: "exi_channel env_ack k e c (any, u) = (any, u)" for k e c any
    by (simp add: exi_channel_def pu)
  ultimately have "exi_round env_ack t = (True, u)" "exi_round env_ack u = (False, u)"
    by (simp_all add: exi_round_def)
  then have "exi_rounds 4 env_ack t = u" by (simp add: numeral_eq_Suc)
  then show ?thesis using qu by (simp add: t_def)
qed


theorem dsp_window_routing_witness:
  "device_write env_none 0xCC00500A 2 0x20 irq_machine
    = tell [dsp_write quiet_env 0xCC00500A 2 0x20, aram_write disc_none 0xCC00500A 2 0x20] irq_machine"
proof -
  have "mmio_device (si_read (env_none :: irq_dev cpu irq_env)) (si_write env_none) (\<lambda>_. False)"
    by unfold_locales (simp_all add: env_none_def)
  from dsp_window_routing [OF this, of "0xCC00500A" 2 irq_machine "0x20"] show ?thesis
    by (simp add: dsp_window_def DSP_BASE_def env_none_def case_prod_beta)
qed

end
