(* ===== verification/SavExt.thy ===== *)
theory SavExt
  imports SaveNow
begin

text \<open>
  runtime/savext.c: the save extension. Each mod's chunk rides in the game's save file, in a
  gap of its block and in the file's tail; the chunks of mods not loaded are carried through
  every save. The container is written at the game's snapshot and image hooks and read back at
  its load. Chunks are lists of bytes, a C pointer into them the bytes from there on. The
  monotonic clock that seeds a save's id is an argument (\<open>entropy\<close>); messages and the SHA-1
  log are left out.
\<close>

section \<open>Layout and state\<close>

definition BLOCK_LEN :: nat where "BLOCK_LEN = 12800"
definition BLOCK_IN_IMAGE :: u32 where "BLOCK_IN_IMAGE = 5184"
definition GAP_OFF :: u32 where "GAP_OFF = 5916"
definition GAP_LEN :: nat where "GAP_LEN = 3156"
definition TAIL_OFF :: u32 where "TAIL_OFF = 17984"
definition TAIL_LEN :: nat where "TAIL_LEN = 6592"
definition GAP_HEAD :: nat where "GAP_HEAD = 36"
definition TAIL_HEAD :: nat where "TAIL_HEAD = 32"
definition VERSION :: u32 where "VERSION = 1"
definition ID_MAX :: nat where "ID_MAX = 31"
definition KEPT_MAX :: nat where "KEPT_MAX = GAP_LEN + TAIL_LEN"
definition CLAIMS_ID :: string where "CLAIMS_ID = ''soa.claims''"
definition SAVENOW_ID :: string where "SAVENOW_ID = ''soa.savenow''"

text \<open>
  \<open>g_tail\<close> is what waits for the image behind the tail's header, \<open>g_kept\<close> and \<open>g_got\<close> the
  used parts of their arrays, \<open>id_seed\<close> the generator behind \<open>new_id\<close>, \<open>save_buf\<close> the buffer a
  mod writes its chunk into and \<open>claims_lock\<close> mod.c's lock.
\<close>

record savext = savenow +
  claims_lock :: lock
  g_calls :: "nat \<Rightarrow> nat"
  g_written :: "nat \<Rightarrow> nat"
  g_id :: "u8 list"
  id_seed :: u64
  g_tail :: "u8 list"
  g_tail_chunks :: nat
  g_tail_armed :: bool
  g_kept :: "u8 list"
  g_got :: "u8 list"
  g_parsed :: u32
  save_buf :: "u8 list"

type_synonym 'm xcpu = "'m savext_scheme cpu"
type_synonym 'm xregistry = "'m savext_ext savenow_ext registry"

definition sx_upd :: "('m savext_scheme \<Rightarrow> 'm savext_scheme) \<Rightarrow> 'm xcpu \<Rightarrow> 'm xcpu" where
  "sx_upd f s = s\<lparr>user := f (user s)\<rparr>"

section \<open>CRC-32\<close>

definition crc_bit :: "u32 \<Rightarrow> u32" where
  "crc_bit c = drop_bit 1 c XOR (0xEDB88320 AND (0 - (c AND 1)))"

definition crc32 :: "u8 list \<Rightarrow> u32" where
  "crc32 p = NOT (fold (\<lambda>b c. (crc_bit ^^ 8) (c XOR ucast b)) p 0xFFFFFFFF)"

section \<open>Chunks\<close>

text \<open>Ids are C strings in the chunk's bytes.\<close>

definition bytes_of :: "string \<Rightarrow> u8 list" where
  "bytes_of = map (\<lambda>c. of_nat (of_char c))"

definition string_of :: "u8 list \<Rightarrow> string" where
  "string_of bs = map (\<lambda>b. char_of (unat b)) bs"

text \<open>The chunk at the head of some bytes: its id, its data, the whole chunk and what follows;
  None if it runs off.\<close>

definition chunk_at :: "u8 list \<Rightarrow> (string \<times> u8 list \<times> u8 list \<times> u8 list) option" where
  "chunk_at p =
     (case p of [] \<Rightarrow> None
      | n0 # q \<Rightarrow>
         let n = unat n0 in
         if n = 0 \<or> n > ID_MAX \<or> length p < 1 + n + 4 then None
         else let cid = string_of (takeWhile (\<lambda>b. b \<noteq> 0) (take n q));
                  size = unat (get32_at p (1 + n))
              in if length p - 1 - n - 4 < size then None
                 else Some (cid, take size (drop (5 + n) p), take (5 + n + size) p, drop (5 + n + size) p))"

definition chunk_put :: "string \<Rightarrow> u8 list \<Rightarrow> u8 list" where
  "chunk_put cid data =
     (of_nat (length cid) # bytes_of cid) @ put32 (of_nat (length data)) @ data"

text \<open>The walk all loops of the file share: the chunks from a place on, with their raw bytes.\<close>

lemma chunk_at_shorter: "chunk_at p = Some (cid, data, raw, rest) \<Longrightarrow> length rest < length p"
  by (auto simp: chunk_at_def Let_def split: list.splits if_splits)

function chunks :: "u8 list \<Rightarrow> (string \<times> u8 list \<times> u8 list) list" where
  "chunks p = (case chunk_at p of None \<Rightarrow> []
     | Some (cid, data, raw, rest) \<Rightarrow> (cid, data, raw) # chunks rest)"
  by pat_completeness auto
termination
  by (relation "measure length") (auto dest: chunk_at_shorter)

declare chunks.simps [simp del]

text \<open>Whether a loaded mod saves for an id itself, and the chunk kept for an id.\<close>

definition saves_for_itself :: "'m xregistry \<Rightarrow> 'm savext_scheme \<Rightarrow> string \<Rightarrow> bool" where
  "saves_for_itself r d cid =
     list_ex (\<lambda>i. mod_save_id r d MOD_EV_SAVE i = cid) [0..<mod_event_count r MOD_EV_SAVE]"

definition kept_chunk :: "'m savext_scheme \<Rightarrow> string \<Rightarrow> u8 list option" where
  "kept_chunk d cid = map_option (\<lambda>(_, data, _). data) (find (\<lambda>(c, _, _). c = cid) (chunks (g_kept d)))"

text \<open>A save's id: sixteen steps of a xorshift generator.\<close>

definition xorshift :: "u64 \<Rightarrow> u64" where
  "xorshift x0 = (let x1 = x0 XOR push_bit 13 x0; x2 = x1 XOR drop_bit 7 x1 in x2 XOR push_bit 17 x2)"

definition new_id :: "u64 \<Rightarrow> 'm savext_scheme \<Rightarrow> 'm savext_scheme" where
  "new_id entropy d =
     (let x = id_seed d XOR entropy;
          xs = map (\<lambda>i. (xorshift ^^ Suc i) x) [0..<16]
      in d\<lparr>id_seed := (xorshift ^^ 16) x, g_id := map (\<lambda>y. ucast (drop_bit 24 y)) xs\<rparr>)"

section \<open>The snapshot\<close>

text \<open>One mod's turn: its room, its call, and what is appended.\<close>

definition snapshot_mod :: "'m xregistry \<Rightarrow> nat \<Rightarrow> u8 list \<times> 'm xcpu \<Rightarrow> u8 list \<times> 'm xcpu" where
  "snapshot_mod r k = (\<lambda>(all, s).
     let mid = mod_save_id r (user s) MOD_EV_SAVE k;
         head = 1 + of_nat (length mid) + 4 :: u32;
         room = of_nat KEPT_MAX - of_nat (length all) :: u32;
         ((got, buf), s1) = (if room > head
            then mod_save_call r k (save_buf (user s)) (room - head) s
            else ((-2, save_buf (user s)), s));
         s2 = sx_upd (save_buf_update (\<lambda>_. buf)) s1
     in if got = -1 then (all, s2)
        else if got < 0 \<or> (of_int got :: u32) > room - head then
          (case kept_chunk (user s2) mid of
             Some data \<Rightarrow> if length all + unat head + length data \<le> KEPT_MAX
                          then (all @ chunk_put mid data, s2) else (all, s2)
           | None \<Rightarrow> (all, s2))
        else (all @ chunk_put mid (take (nat got) buf), s2))"

definition snapshot_kept :: "'m xregistry \<Rightarrow> 'm savext_scheme \<Rightarrow> u8 list \<Rightarrow> u8 list" where
  "snapshot_kept r d all =
     fold (\<lambda>(cid, data, raw) out.
         if \<not> saves_for_itself r d cid \<and> length out + 1 + length cid + 4 + length data \<le> KEPT_MAX
         then out @ chunk_put cid data else out)
       (chunks (g_kept d)) all"

text \<open>Every chunk of the save, in order: save-now's, the claims, each mod's own; then the kept ones.\<close>

definition snapshot_own ::
  "'m savext_scheme io \<Rightarrow> 'm xregistry \<Rightarrow> u32 \<Rightarrow> 'm xcpu \<Rightarrow> u8 list \<times> 'm xcpu" where
  "snapshot_own io r block s =
     (let (sn, s1) = savenow_snapshot io block 16 s;
          all1 = (case sn of None \<Rightarrow> [] | Some c \<Rightarrow> chunk_put SAVENOW_ID c);
          l = claims_lock (user s1);
          all2 = (if mod_claims_count l = 0 then all1
                  else all1 @ chunk_put CLAIMS_ID
                    (bytes_of (mod_claims_text l (KEPT_MAX - (1 + length CLAIMS_ID + 4)))))
      in fold (snapshot_mod r) [0..<mod_event_count r MOD_EV_SAVE] (all2, s1))"

definition snapshot_chunks ::
  "'m savext_scheme io \<Rightarrow> 'm xregistry \<Rightarrow> u32 \<Rightarrow> 'm xcpu \<Rightarrow> u8 list \<times> 'm xcpu" where
  "snapshot_chunks io r block s =
     (case snapshot_own io r block s of (all, s1) \<Rightarrow> (snapshot_kept r (user s1) all, s1))"

text \<open>Whole chunks into the gap while they fit, the rest to the tail.\<close>

fun fill_gap :: "(string \<times> u8 list \<times> u8 list) list \<Rightarrow> u8 list \<Rightarrow> nat
    \<Rightarrow> u8 list \<times> nat \<times> (string \<times> u8 list \<times> u8 list) list" where
  "fill_gap [] body n = (body, n, [])"
| "fill_gap ((cid, data, raw) # cs) body n =
     (if GAP_HEAD + length body + length raw \<le> GAP_LEN
      then fill_gap cs (body @ raw) (Suc n) else (body, n, (cid, data, raw) # cs))"

fun fill_tail :: "(string \<times> u8 list \<times> u8 list) list \<Rightarrow> u8 list \<Rightarrow> nat \<Rightarrow> u8 list \<times> nat" where
  "fill_tail [] body n = (body, n)"
| "fill_tail ((cid, data, raw) # cs) body n =
     (if TAIL_HEAD + length body + length raw > TAIL_LEN then fill_tail cs body n
      else fill_tail cs (body @ raw) (Suc n))"

definition gap_header :: "nat \<Rightarrow> nat \<Rightarrow> u8 list \<Rightarrow> u8 list \<Rightarrow> u8 list" where
  "gap_header gap_chunks tail_chunks gid body =
     [0x53, 0x4F, 0x41, 0x58] @ put16 VERSION @ put16 (of_nat gap_chunks) @ put16 (of_nat tail_chunks)
     @ put16 0 @ gid @ put32 (crc32 body) @ put32 (of_nat (length body))"

definition snapshot_start :: "'m xcpu \<Rightarrow> 'm xcpu" where
  "snapshot_start = sx_upd (\<lambda>d. d\<lparr>g_calls := (g_calls d)(0 := g_calls d 0 + 1), g_tail_armed := False,
     g_tail := [], g_tail_chunks := 0\<rparr>)"

text \<open>There is something to save, and the game left the gap alone.\<close>

definition snapshot_due :: "'m xregistry \<Rightarrow> u32 \<Rightarrow> 'm xcpu \<Rightarrow> bool" where
  "snapshot_due r block s \<longleftrightarrow>
     \<not> (mod_event_count r MOD_EV_SAVE = 0 \<and> g_kept (user s) = []
        \<and> mod_claims_count (claims_lock (user s)) = 0 \<and> \<not> savenow_opened s)
     \<and> list_all (\<lambda>b. b = 0) (rd_bytes (mem s) (mem_ptr (block + GAP_OFF)) GAP_LEN)"

definition savext_snapshot ::
  "'m savext_scheme io \<Rightarrow> 'm xregistry \<Rightarrow> u64 \<Rightarrow> u32 \<Rightarrow> 'm xcpu \<Rightarrow> 'm xcpu" where
  "savext_snapshot io r entropy block s0 =
     (let gap = mem_ptr (block + GAP_OFF);
          s1 = snapshot_start s0
      in if \<not> snapshot_due r block s1 then s1
         else (case snapshot_chunks io r block (sx_upd (new_id entropy) s1) of (all, s2) \<Rightarrow>
           if all = [] then s2
           else (case fill_gap (chunks all) [] 0 of (gap_body, gap_chunks, rest) \<Rightarrow>
                 case fill_tail rest [] 0 of (tail_body, tail_chunks) \<Rightarrow>
                   sx_upd (\<lambda>d. d\<lparr>g_tail := tail_body, g_tail_chunks := tail_chunks,
                       g_written := (g_written d)(0 := g_written d 0 + GAP_HEAD + length gap_body),
                       g_tail_armed := tail_chunks > 0\<rparr>)
                     (s2\<lparr>mem := wr_bytes (wr_bytes (mem s2) (gap + GAP_HEAD) gap_body) gap
                          (gap_header gap_chunks tail_chunks (g_id (user s2)) gap_body)\<rparr>))))"

section \<open>The image\<close>

definition tail_header :: "nat \<Rightarrow> u8 list \<Rightarrow> u8 list \<Rightarrow> u8 list" where
  "tail_header tail_chunks gid body =
     [0x53, 0x4F, 0x41, 0x54] @ put16 VERSION @ put16 (of_nat tail_chunks) @ gid
     @ put32 (crc32 body) @ put32 (of_nat (length body))"

definition savext_image :: "u32 \<Rightarrow> 'm xcpu \<Rightarrow> 'm xcpu" where
  "savext_image img s0 =
     (let s = sx_upd (\<lambda>d. d\<lparr>g_calls := (g_calls d)(1 := g_calls d 1 + 1)\<rparr>) s0;
          d = user s
      in if \<not> g_tail_armed d then s
         else sx_upd (\<lambda>d. d\<lparr>g_written := (g_written d)(1 := g_written d 1 + TAIL_HEAD + length (g_tail d)),
                            g_tail_armed := False\<rparr>)
                (s\<lparr>mem := wr_bytes (mem s) (mem_ptr (img + TAIL_OFF))
                     (tail_header (g_tail_chunks d) (g_id d) (g_tail d) @ g_tail d)\<rparr>))"

section \<open>The load\<close>

text \<open>The container a save holds: the gap's chunks and, if it names any, the tail's; what is
  damaged is left out.\<close>

definition read_tail :: "(nat \<Rightarrow> u8) \<Rightarrow> nat \<Rightarrow> u8 list \<Rightarrow> u8 list" where
  "read_tail m tail gid =
     (let h = rd_bytes m tail TAIL_HEAD;
          tail_len = unat (get32_at h 28)
      in if take 4 h \<noteq> [0x53, 0x4F, 0x41, 0x54] \<or> take 16 (drop 8 h) \<noteq> gid
            \<or> tail_len > TAIL_LEN - TAIL_HEAD
            \<or> crc32 (rd_bytes m (tail + TAIL_HEAD) tail_len) \<noteq> get32_at h 24 then []
         else rd_bytes m (tail + TAIL_HEAD) tail_len)"

definition read_container :: "(nat \<Rightarrow> u8) \<Rightarrow> nat \<Rightarrow> nat \<Rightarrow> u8 list" where
  "read_container m gap tail =
     (let h = rd_bytes m gap GAP_HEAD;
          gap_len = unat (get32_at h 32)
      in if take 4 h \<noteq> [0x53, 0x4F, 0x41, 0x58] then []
         else if get16_at h 4 \<noteq> VERSION \<or> gap_len > GAP_LEN - GAP_HEAD
            \<or> crc32 (rd_bytes m (gap + GAP_HEAD) gap_len) \<noteq> get32_at h 28 then []
         else rd_bytes m (gap + GAP_HEAD) gap_len
              @ (if get16_at h 8 = 0 then [] else read_tail m tail (take 16 (drop 12 h))))"

text \<open>The last chunk with an id.\<close>

definition last_chunk :: "string \<Rightarrow> u8 list \<Rightarrow> u8 list option" where
  "last_chunk cid got =
     fold (\<lambda>(c, data, raw) found. if c = cid then Some data else found) (chunks got) None"

definition savext_load_pre ::
  "'m savext_scheme io \<Rightarrow> bool \<Rightarrow> u32 \<Rightarrow> 'm xcpu \<Rightarrow> 'm xcpu" where
  "savext_load_pre io no_restore block s =
     (let got = read_container (mem s) (mem_ptr (block + GAP_OFF))
                  (mem_ptr (block - BLOCK_IN_IMAGE + TAIL_OFF));
          s1 = sx_upd (\<lambda>d. d\<lparr>g_got := got, g_parsed := block\<rparr>) s
      in savenow_load_pre io no_restore block (last_chunk SAVENOW_ID got) s1)"

text \<open>Each loaded mod with a load callback gets its chunk, or none; the rest is kept.\<close>

definition load_mod :: "'m xregistry \<Rightarrow> u8 list \<Rightarrow> nat \<Rightarrow> 'm xcpu \<Rightarrow> 'm xcpu" where
  "load_mod r got i s =
     mod_load_call r i (last_chunk (mod_save_id r (user s) MOD_EV_LOAD i) got) s"

definition keep_chunk :: "'m xregistry \<Rightarrow> string \<times> u8 list \<times> u8 list \<Rightarrow> 'm savext_scheme \<Rightarrow> 'm savext_scheme" where
  "keep_chunk r = (\<lambda>(cid, data, raw) d.
     if cid = CLAIMS_ID then d
     else if take 4 cid = ''soa.'' then d
     else if \<not> saves_for_itself r d cid then d\<lparr>g_kept := g_kept d @ raw\<rparr>
     else d)"

definition savext_load ::
  "'m savext_scheme io \<Rightarrow> bool \<Rightarrow> 'm xregistry \<Rightarrow> u32 \<Rightarrow> 'm xcpu \<Rightarrow> 'm xcpu" where
  "savext_load io no_restore r block s0 =
     (let s1 = sx_upd (\<lambda>d. d\<lparr>g_calls := (g_calls d)(2 := g_calls d 2 + 1), g_kept := []\<rparr>) s0;
          s2 = (if g_parsed (user s1) \<noteq> block then savext_load_pre io no_restore block s1 else s1);
          s3 = sx_upd (g_parsed_update (\<lambda>_. 0)) s2;
          got = g_got (user s3);
          s4 = fold (load_mod r got) [0..<mod_event_count r MOD_EV_LOAD] s3;
          s5 = sx_upd (fold (keep_chunk r) (chunks got)) s4
      in savenow_load_post io no_restore s5)"

definition savext_new_game :: "'m xregistry \<Rightarrow> 'm xcpu \<Rightarrow> 'm xcpu" where
  "savext_new_game r s =
     mod_new_game r (sx_upd (\<lambda>d. d\<lparr>g_calls := (g_calls d)(3 := g_calls d 3 + 1), g_kept := []\<rparr>) s)"

section \<open>The hooks\<close>

text \<open>The game's own functions are the parameter \<open>recomp\<close>.\<close>

definition hook_801A4670 where
  "hook_801A4670 io r entropy s = savext_snapshot io r entropy (gpr s 31) s"

definition hook_801A4334 :: "'m savext_scheme io \<Rightarrow> 'm xcpu \<Rightarrow> 'm xcpu" where
  "hook_801A4334 io s = (case mem_r32 io (gpr s 31) s of (img, s1) \<Rightarrow> savext_image img s1)"

definition fn_801A4354 where
  "fn_801A4354 io no_restore r recomp s =
     (let s0 = s\<lparr>pc := 0x801A4354\<rparr>; block = gpr s0 3
      in savext_load io no_restore r block (recomp (savext_load_pre io no_restore block s0)))"

definition fn_801CAF30 where
  "fn_801CAF30 r recomp s = savext_new_game r (recomp (s\<lparr>pc := 0x801CAF30\<rparr>))"

section \<open>Chunks are read back as they were put\<close>

lemma sx_upd_simps [simp]:
  "mem (sx_upd f s) = mem s" "user (sx_upd f s) = f (user s)"
  by (simp_all add: sx_upd_def)

lemma unat_char_byte: "unat (of_nat (of_char c) :: u8) = of_char c"
  by (simp add: unat_of_nat)

lemma string_bytes: "string_of (bytes_of s) = s"
  by (simp add: string_of_def bytes_of_def o_def unat_char_byte map_idI)

lemma length_bytes_of [simp]: "length (bytes_of s) = length s"
  by (simp add: bytes_of_def)

lemma bytes_nonzero: "nul \<notin> set s \<Longrightarrow> 0 \<notin> set (bytes_of s)"
proof
  assume s: "nul \<notin> set s" and "0 \<in> set (bytes_of s)"
  then obtain c where c: "c \<in> set s" "(of_nat (of_char c) :: u8) = 0" by (auto simp: bytes_of_def)
  then have "(of_char c :: nat) = of_char nul" using unat_char_byte [of c] by (simp add: nul_def)
  then have "c = nul" by simp
  then show False using c s by simp
qed

text \<open>An id a chunk can carry: 1 to 31 characters, none of them the terminator.\<close>

definition save_id_ok :: "string \<Rightarrow> bool" where
  "save_id_ok cid \<longleftrightarrow> cid \<noteq> [] \<and> length cid \<le> ID_MAX \<and> nul \<notin> set cid"

lemma length_chunk_put [simp]: "length (chunk_put cid data) = 5 + length cid + length data"
  by (simp add: chunk_put_def)

lemma chunk_at_eq:
  assumes "p = n0 # q" "unat n0 = n" "0 < n" "n \<le> ID_MAX" "unat (get32_at p (1 + n)) = k"
    "5 + n + k \<le> length p"
  shows "chunk_at p = Some (string_of (takeWhile (\<lambda>b. b \<noteq> 0) (take n q)),
    take k (drop (5 + n) p), take (5 + n + k) p, drop (5 + n + k) p)"
proof -
  have "\<not> (n = 0 \<or> n > ID_MAX \<or> length p < 1 + n + 4)" "\<not> length p - 1 - n - 4 < k"
    using assms(3-) by auto
  then show ?thesis
    using assms(2,5) unfolding assms(1) by (simp add: chunk_at_def Let_def)
qed

lemma chunk_at_put:
  assumes "save_id_ok cid" "length data < 2 ^ 32"
  shows "chunk_at (chunk_put cid data @ rest) = Some (cid, data, chunk_put cid data, rest)"
proof -
  let ?n = "length cid" and ?p = "chunk_put cid data @ rest"
  have n: "0 < ?n" "?n \<le> 31" using assms by (auto simp: save_id_ok_def ID_MAX_def)
  then have u: "unat (of_nat ?n :: u8) = ?n" by (simp add: unat_of_nat)
  have size: "unat (get32_at ?p (1 + ?n)) = length data"
    using get32_at_put32 [of "of_nat ?n # bytes_of cid" "of_nat (length data)" "data @ rest"] assms(2)
    by (simp add: chunk_put_def unat_of_nat)
  have tw: "takeWhile (\<lambda>b. b \<noteq> 0) (bytes_of cid) = bytes_of cid"
    using bytes_nonzero assms(1) by (auto simp: save_id_ok_def takeWhile_eq_all_conv)
  have "take ?n (tl ?p) = bytes_of cid" by (simp add: chunk_put_def)
  then have cid: "string_of (takeWhile (\<lambda>b. b \<noteq> 0) (take ?n (tl ?p))) = cid"
    by (simp only: tw string_bytes)
  have hd: "?p = of_nat ?n # tl ?p" by (simp add: chunk_put_def)
  have parts: "take (length data) (drop (5 + ?n) ?p) = data"
    "take (5 + ?n + length data) ?p = chunk_put cid data" "drop (5 + ?n + length data) ?p = rest"
  proof -
    define h where "h = (of_nat ?n # bytes_of cid) @ put32 (of_nat (length data))"
    have h: "chunk_put cid data = h @ data" "length h = 5 + ?n" by (simp_all add: h_def chunk_put_def)
    show "take (length data) (drop (5 + ?n) ?p) = data" "take (5 + ?n + length data) ?p = chunk_put cid data"
      "drop (5 + ?n + length data) ?p = rest"
      unfolding h(1) h(2) [symmetric] by simp_all
  qed
  have "5 + ?n + length data \<le> length ?p" by simp
  then show ?thesis
    using chunk_at_eq [OF hd u n(1) _ size] n(2) by (simp only: cid parts ID_MAX_def)
qed

lemma chunks_Nil [simp]: "chunks [] = []"
  by (subst chunks.simps) (simp add: chunk_at_def)

lemma chunks_put:
  "save_id_ok cid \<Longrightarrow> length data < 2 ^ 32
    \<Longrightarrow> chunks (chunk_put cid data @ rest) = (cid, data, chunk_put cid data) # chunks rest"
  by (subst chunks.simps) (simp add: chunk_at_put)

text \<open>A chunk that was read is read again from its own bytes, whatever follows them.\<close>

definition wf_chunk :: "string \<times> u8 list \<times> u8 list \<Rightarrow> bool" where
  "wf_chunk = (\<lambda>(cid, data, raw). \<forall>q. chunk_at (raw @ q) = Some (cid, data, raw, q))"

lemma chunk_at_split:
  assumes "chunk_at p = Some (cid, data, raw, rest)"
  shows "p = raw @ rest" and "wf_chunk (cid, data, raw)" and "6 \<le> length raw + 1" and "length raw \<le> length p"
proof -
  obtain n0 q where p: "p = n0 # q" using assms by (cases p) (auto simp: chunk_at_def)
  define n where "n = unat n0"
  define size where "size = unat (get32_at p (1 + n))"
  have ok: "n \<noteq> 0" "n \<le> ID_MAX" "5 + n + size \<le> length p"
    and parts: "cid = string_of (takeWhile (\<lambda>b. b \<noteq> 0) (take n q))" "data = take size (drop (5 + n) p)"
      "raw = take (5 + n + size) p" "rest = drop (5 + n + size) p"
    using assms unfolding chunk_at_def p by (auto simp: Let_def n_def size_def p split: if_splits)
  show "p = raw @ rest" by (simp add: parts)
  show "6 \<le> length raw + 1" "length raw \<le> length p" using ok parts(3) by simp_all
  show "wf_chunk (cid, data, raw)"
    unfolding wf_chunk_def prod.case
  proof
    fix x
    have r: "raw @ x = n0 # (tl raw @ x)" by (simp add: parts(3) p take_Cons')
    have "tl raw = take (4 + (n + size)) q" by (simp add: parts(3) p take_Cons')
    then have tq: "take n (tl raw @ x) = take n q" using ok by (simp add: p)
    have "get32_at (raw @ x) (1 + n) = get32_at p (1 + n)"
      using parts(3) ok by (simp add: get32_at_def nth_append)
    then have sz: "unat (get32_at (raw @ x) (1 + n)) = size" by (simp add: size_def)
    have lr: "length raw = 5 + n + size" using parts(3) ok by simp
    have d: "take size (drop (5 + n) (raw @ x)) = data" using parts(2,3) lr by (simp add: take_drop)
    have rx: "take (5 + n + size) (raw @ x) = raw" "drop (5 + n + size) (raw @ x) = x" using lr by simp_all
    have "5 + n + size \<le> length (raw @ x)" using lr by simp
    then show "chunk_at (raw @ x) = Some (cid, data, raw, x)"
      using chunk_at_eq [OF r n_def [symmetric] _ ok(2) sz] ok(1) by (simp only: d rx tq parts(1))
  qed
qed

lemma chunks_wf: "c \<in> set (chunks p) \<Longrightarrow> wf_chunk c \<and> 5 \<le> length (snd (snd c))"
proof (induction p rule: chunks.induct)
  case (1 p)
  show ?case
  proof (cases "chunk_at p")
    case None
    then show ?thesis using "1.prems" by (subst (asm) chunks.simps) simp
  next
    case (Some x)
    then obtain cid data raw rest where x: "chunk_at p = Some (cid, data, raw, rest)" by (cases x) auto
    then have "c = (cid, data, raw) \<or> c \<in> set (chunks rest)"
      using "1.prems" by (subst (asm) chunks.simps) simp
    then show ?thesis
      using "1.IH" [OF x refl refl refl] chunk_at_split [OF x] by auto
  qed
qed

definition raws :: "(string \<times> u8 list \<times> u8 list) list \<Rightarrow> u8 list" where
  "raws cs = concat (map (snd \<circ> snd) cs)"

lemma chunks_raws: "list_all wf_chunk cs \<Longrightarrow> chunks (raws cs @ q) = cs @ chunks q"
proof (induction cs)
  case (Cons c cs)
  obtain cid data raw where c: "c = (cid, data, raw)" by (cases c)
  have "chunk_at (raw @ (raws cs @ q)) = Some (cid, data, raw, raws cs @ q)"
    using Cons.prems c by (simp add: wf_chunk_def)
  then show ?case
    using Cons c by (subst chunks.simps) (simp add: raws_def)
qed (simp add: raws_def)

section \<open>What is placed\<close>

text \<open>The whole chunks the gap takes, and of the rest those the tail has room for.\<close>

fun gap_part :: "nat \<Rightarrow> (string \<times> u8 list \<times> u8 list) list \<Rightarrow> (string \<times> u8 list \<times> u8 list) list" where
  "gap_part used [] = []"
| "gap_part used (c # cs) =
     (if GAP_HEAD + used + length (snd (snd c)) \<le> GAP_LEN
      then c # gap_part (used + length (snd (snd c))) cs else [])"

fun tail_part :: "nat \<Rightarrow> (string \<times> u8 list \<times> u8 list) list \<Rightarrow> (string \<times> u8 list \<times> u8 list) list" where
  "tail_part used [] = []"
| "tail_part used (c # cs) =
     (if TAIL_HEAD + used + length (snd (snd c)) > TAIL_LEN then tail_part used cs
      else c # tail_part (used + length (snd (snd c))) cs)"

definition gap_rest :: "(string \<times> u8 list \<times> u8 list) list \<Rightarrow> (string \<times> u8 list \<times> u8 list) list" where
  "gap_rest cs = drop (length (gap_part 0 cs)) cs"

definition placed :: "(string \<times> u8 list \<times> u8 list) list \<Rightarrow> (string \<times> u8 list \<times> u8 list) list" where
  "placed cs = gap_part 0 cs @ tail_part 0 (gap_rest cs)"

lemma raws_simps [simp]: "raws [] = []" "raws (c # cs) = snd (snd c) @ raws cs"
  by (simp_all add: raws_def)

lemma fill_gap_part:
  "fill_gap cs body n = (body @ raws (gap_part (length body) cs), n + length (gap_part (length body) cs),
     drop (length (gap_part (length body) cs)) cs)"
proof (induction cs arbitrary: body n)
  case (Cons c cs)
  then show ?case using Cons.IH [of "body @ snd (snd c)" "Suc n"] by (cases c) simp
qed simp

lemma fill_tail_part:
  "fill_tail cs body n = (body @ raws (tail_part (length body) cs), n + length (tail_part (length body) cs))"
proof (induction cs arbitrary: body n)
  case (Cons c cs)
  then show ?case
    using Cons.IH [of "body @ snd (snd c)" "Suc n"] Cons.IH [of body n] by (cases c) simp
qed simp

lemma gap_part_fits: "used \<le> GAP_LEN - GAP_HEAD \<Longrightarrow> used + length (raws (gap_part used cs)) \<le> GAP_LEN - GAP_HEAD"
proof (induction cs arbitrary: used)
  case (Cons c cs)
  show ?case
    using Cons.prems Cons.IH [of "used + length (snd (snd c))"] Cons.IH [of used] by (auto simp: GAP_LEN_def GAP_HEAD_def)
qed simp

lemma tail_part_fits: "used \<le> TAIL_LEN - TAIL_HEAD \<Longrightarrow> used + length (raws (tail_part used cs)) \<le> TAIL_LEN - TAIL_HEAD"
proof (induction cs arbitrary: used)
  case (Cons c cs)
  show ?case
    using Cons.prems Cons.IH [of "used + length (snd (snd c))"] Cons.IH [of used] by (auto simp: TAIL_LEN_def TAIL_HEAD_def)
qed simp

lemma parts_subset: "set (gap_part used cs) \<subseteq> set cs" "set (tail_part used cs) \<subseteq> set cs"
proof (induction cs arbitrary: used)
  case (Cons c cs)
  { case 1 show ?case using Cons.IH(1) by auto next case 2 show ?case using Cons.IH(2) by auto }
qed simp_all

lemma gap_part_take: "gap_part used cs = take (length (gap_part used cs)) cs"
  by (induction cs arbitrary: used) auto

lemma gap_split: "gap_part 0 cs @ gap_rest cs = cs"
  unfolding gap_rest_def by (subst (1) gap_part_take) (rule append_take_drop_id)

lemma tail_part_all: "TAIL_HEAD + used + length (raws cs) \<le> TAIL_LEN \<Longrightarrow> tail_part used cs = cs"
  by (induction cs arbitrary: used) auto

lemma raws_append: "raws (xs @ ys) = raws xs @ raws ys"
  by (simp add: raws_def)

lemma length_le_raws: "\<forall>c\<in>set cs. 5 \<le> length (snd (snd c)) \<Longrightarrow> 5 * length cs \<le> length (raws cs)"
  by (induction cs) auto

text \<open>Chunks of 6,560 bytes together are all placed, whatever their sizes.\<close>

lemma placed_all: "length (raws cs) \<le> TAIL_LEN - TAIL_HEAD \<Longrightarrow> placed cs = cs"
proof -
  assume l: "length (raws cs) \<le> TAIL_LEN - TAIL_HEAD"
  have "length (raws (gap_rest cs)) \<le> length (raws cs)"
    by (subst (2) gap_split [symmetric]) (simp add: raws_append)
  then have "tail_part 0 (gap_rest cs) = gap_rest cs"
    using l by (intro tail_part_all) (simp add: TAIL_LEN_def TAIL_HEAD_def)
  then show ?thesis by (simp add: placed_def gap_split)
qed

section \<open>The container is read back as it was written\<close>

lemma length_headers [simp]:
  "length gid = 16 \<Longrightarrow> length (gap_header gc tc gid body) = GAP_HEAD"
  "length gid = 16 \<Longrightarrow> length (tail_header tc gid body) = TAIL_HEAD"
  by (simp_all add: gap_header_def tail_header_def GAP_HEAD_def TAIL_HEAD_def)

lemma rd_header_body:
  assumes "rd_bytes m a (n + length body) = h @ body" "length h = n"
  shows "rd_bytes m a n = h" and "rd_bytes m (a + n) (length body) = body"
  using assms by (simp_all add: rd_bytes_add)

lemma tail_header_fields:
  assumes "length gid = 16"
  shows "take 4 (tail_header tc gid body) = [0x53, 0x4F, 0x41, 0x54]"
    "take 16 (drop 8 (tail_header tc gid body)) = gid"
    "get32_at (tail_header tc gid body) 24 = crc32 body"
    "get32_at (tail_header tc gid body) 28 = of_nat (length body)"
proof -
  let ?p = "[0x53, 0x4F, 0x41, 0x54] @ put16 VERSION @ put16 (of_nat tc)"
  have h: "tail_header tc gid body = (?p @ gid) @ put32 (crc32 body) @ put32 (of_nat (length body))"
    "tail_header tc gid body = ((?p @ gid) @ put32 (crc32 body)) @ put32 (of_nat (length body)) @ []"
    "tail_header tc gid body = ?p @ gid @ put32 (crc32 body) @ put32 (of_nat (length body))"
    by (simp_all add: tail_header_def)
  have l: "length ?p = 8" by simp
  show "take 4 (tail_header tc gid body) = [0x53, 0x4F, 0x41, 0x54]" by (simp add: tail_header_def)
  show "take 16 (drop 8 (tail_header tc gid body)) = gid"
    unfolding h(3) using assms l by simp
  show "get32_at (tail_header tc gid body) 24 = crc32 body"
    using get32_at_put32 [of "?p @ gid" "crc32 body"] assms unfolding h(1) by simp
  show "get32_at (tail_header tc gid body) 28 = of_nat (length body)"
    using get32_at_put32 [of "(?p @ gid) @ put32 (crc32 body)" "of_nat (length body)" "[]"] assms
    unfolding h(2) by simp
qed

lemma read_tail_ok:
  assumes "rd_bytes m tail (TAIL_HEAD + length body) = tail_header tc gid body @ body"
    "length gid = 16" "length body \<le> TAIL_LEN - TAIL_HEAD"
  shows "read_tail m tail gid = body"
proof -
  note r = rd_header_body [OF assms(1) length_headers(2) [OF assms(2)]]
  have "unat (of_nat (length body) :: u32) = length body"
    using assms(3) by (simp add: unat_of_nat TAIL_LEN_def TAIL_HEAD_def)
  then show ?thesis
    using assms(3) by (simp add: read_tail_def Let_def r tail_header_fields [OF assms(2)])
qed

lemma gap_header_fields:
  assumes "length gid = 16" "tc < 2 ^ 16"
  shows "take 4 (gap_header gc tc gid body) = [0x53, 0x4F, 0x41, 0x58]"
    "get16_at (gap_header gc tc gid body) 4 = VERSION"
    "get16_at (gap_header gc tc gid body) 8 = of_nat tc"
    "take 16 (drop 12 (gap_header gc tc gid body)) = gid"
    "get32_at (gap_header gc tc gid body) 28 = crc32 body"
    "get32_at (gap_header gc tc gid body) 32 = of_nat (length body)"
proof -
  let ?m = "[0x53, 0x4F, 0x41, 0x58] :: u8 list"
  let ?p = "?m @ put16 VERSION @ put16 (of_nat gc) @ put16 (of_nat tc) @ put16 0"
  let ?e = "put32 (crc32 body) @ put32 (of_nat (length body))"
  have h: "gap_header gc tc gid body = ?m @ put16 VERSION @ (put16 (of_nat gc) @ put16 (of_nat tc) @ put16 0 @ gid @ ?e)"
    "gap_header gc tc gid body = (?m @ put16 VERSION @ put16 (of_nat gc)) @ put16 (of_nat tc) @ (put16 0 @ gid @ ?e)"
    "gap_header gc tc gid body = ?p @ gid @ ?e"
    "gap_header gc tc gid body = (?p @ gid) @ put32 (crc32 body) @ put32 (of_nat (length body))"
    "gap_header gc tc gid body = ((?p @ gid) @ put32 (crc32 body)) @ put32 (of_nat (length body)) @ []"
    by (simp_all add: gap_header_def)
  show "take 4 (gap_header gc tc gid body) = ?m" by (simp add: gap_header_def)
  show "get16_at (gap_header gc tc gid body) 4 = VERSION"
    using get16_at_put16 [of ?m VERSION] unfolding h(1) by (simp add: VERSION_def eval_nat_numeral)
  have "(of_nat tc :: u32) AND mask 16 = of_nat tc"
  proof (rule word_unat_eq_iff [THEN iffD2])
    show "unat ((of_nat tc :: u32) AND mask 16) = unat (of_nat tc :: u32)"
      using assms(2) word_and_mask_mod [of "of_nat tc :: u32" 16] by (simp add: unat_of_nat)
  qed
  then have "(of_nat tc :: u32) AND 0xFFFF = of_nat tc" by (simp add: mask_eq_exp_minus_1)
  then show "get16_at (gap_header gc tc gid body) 8 = of_nat tc"
    using get16_at_put16 [of "?m @ put16 VERSION @ put16 (of_nat gc)" "of_nat tc"] unfolding h(2) by simp
  show "take 16 (drop 12 (gap_header gc tc gid body)) = gid"
    unfolding h(3) using assms by simp
  show "get32_at (gap_header gc tc gid body) 28 = crc32 body"
    using get32_at_put32 [of "?p @ gid" "crc32 body"] assms(1) unfolding h(4) by simp
  show "get32_at (gap_header gc tc gid body) 32 = of_nat (length body)"
    using get32_at_put32 [of "(?p @ gid) @ put32 (crc32 body)" "of_nat (length body)" "[]"] assms(1)
    unfolding h(5) by simp
qed

lemma read_container_ok:
  assumes "rd_bytes m gap (GAP_HEAD + length body) = gap_header gc tc gid body @ body"
    "length gid = 16" "length body \<le> GAP_LEN - GAP_HEAD" "tc < 2 ^ 16"
  shows "read_container m gap tail = body @ (if tc = 0 then [] else read_tail m tail gid)"
proof -
  note r = rd_header_body [OF assms(1) length_headers(1) [OF assms(2)]]
  have u: "unat (of_nat (length body) :: u32) = length body"
    using assms(3) by (simp add: unat_of_nat GAP_LEN_def GAP_HEAD_def)
  have "(of_nat tc :: u32) = 0 \<longleftrightarrow> tc = 0"
    using assms(4) by (simp add: word_unat_eq_iff unat_of_nat)
  then show ?thesis
    using assms(3) u by (simp add: read_container_def Let_def r gap_header_fields [OF assms(2,4)])
qed

section \<open>Saved and loaded\<close>

text \<open>The game's save file in RAM, and the region of its block and tail within it.\<close>

definition image_ok :: "u32 \<Rightarrow> bool" where
  "image_ok img \<longleftrightarrow> 0x80000000 \<le> img \<and> unat img + 24576 \<le> 0x81800000"

lemma image_fields:
  assumes "image_ok img"
  shows "block_ok (img + BLOCK_IN_IMAGE)" "mem_ptr (img + BLOCK_IN_IMAGE + GAP_OFF) = mem_ptr img + 11100"
    "mem_ptr (img + BLOCK_IN_IMAGE - BLOCK_IN_IMAGE + TAIL_OFF) = mem_ptr img + 17984"
    "mem_ptr (img + TAIL_OFF) = mem_ptr img + 17984"
proof -
  have r: "0x80000000 \<le> img" "unat img + 24576 \<le> 0x81800000" using assms by (auto simp: image_ok_def)
  note o = ram_offset(1) [OF r]
  show "mem_ptr (img + BLOCK_IN_IMAGE + GAP_OFF) = mem_ptr img + 11100"
    using o [of 11100] by (simp add: BLOCK_IN_IMAGE_def GAP_OFF_def add.commute)
  show "mem_ptr (img + BLOCK_IN_IMAGE - BLOCK_IN_IMAGE + TAIL_OFF) = mem_ptr img + 17984"
    "mem_ptr (img + TAIL_OFF) = mem_ptr img + 17984"
    using o [of 17984] by (simp_all add: TAIL_OFF_def)
  have "unat (img + of_nat 5184) = unat img + 5184" using r by (intro unat_add_le) simp
  then have "unat (img + 5184) = unat img + 5184" by simp
  then show "block_ok (img + BLOCK_IN_IMAGE)"
    using r by (simp add: block_ok_def BLOCK_IN_IMAGE_def word_le_nat_alt)
qed

lemma gap_field: "block_ok b \<Longrightarrow> mem_ptr (b + GAP_OFF) = mem_ptr b + 5916"
  using ram_offset(1) [of b 12800 5916] by (simp add: block_ok_def GAP_OFF_def)

text \<open>What the snapshot leaves in the block and waiting for the tail.\<close>

lemma snapshot_leaves:
  assumes "block_ok b" "snapshot_due r b (snapshot_start s)" "all \<noteq> []"
    and all: "snapshot_chunks io r b (sx_upd (new_id entropy) (snapshot_start s)) = (all, s')"
    and gid: "length (g_id (user s')) = 16"
    and parts: "gp = gap_part 0 (chunks all)" "tp = tail_part 0 (gap_rest (chunks all))"
    and s1: "s1 = savext_snapshot io r entropy b s"
  shows "rd_bytes (mem s1) (mem_ptr b + 5916) (GAP_HEAD + length (raws gp))
      = gap_header (length gp) (length tp) (g_id (user s')) (raws gp) @ raws gp"
    and "user s1 = (user s1)\<lparr>g_tail := raws tp, g_tail_chunks := length tp, g_tail_armed := (tp \<noteq> []),
      g_id := g_id (user s')\<rparr>"
proof -
  let ?gap = "mem_ptr b + 5916" and ?h = "gap_header (length gp) (length tp) (g_id (user s')) (raws gp)"
  have fg: "fill_gap (chunks all) [] 0 = (raws gp, length gp, gap_rest (chunks all))"
    using fill_gap_part [of "chunks all" "[]" 0] by (simp add: parts gap_rest_def)
  have ft: "fill_tail (gap_rest (chunks all)) [] 0 = (raws tp, length tp)"
    using fill_tail_part [of "gap_rest (chunks all)" "[]" 0] by (simp add: parts)
  have m: "mem s1 = wr_bytes (wr_bytes (mem s') (?gap + GAP_HEAD) (raws gp)) ?gap ?h"
    using assms(2,3) by (simp add: s1 savext_snapshot_def Let_def all fg ft gap_field [OF assms(1)])
  show "user s1 = (user s1)\<lparr>g_tail := raws tp, g_tail_chunks := length tp, g_tail_armed := (tp \<noteq> []),
      g_id := g_id (user s')\<rparr>"
    using assms(2,3) by (simp add: s1 savext_snapshot_def Let_def all fg ft)
  show "rd_bytes (mem s1) ?gap (GAP_HEAD + length (raws gp)) = ?h @ raws gp"
    unfolding m rd_bytes_add using length_headers(1) [OF gid]
    by (simp add: rd_wr_same rd_wr_other)
qed

lemma rd_bytes_cong: "(\<And>k. k < n \<Longrightarrow> m (a + k) = m' (a' + k)) \<Longrightarrow> rd_bytes m a n = rd_bytes m' a' n"
  by (simp add: rd_bytes_def)

lemma load_pre_got:
  fixes s :: "'m xcpu"
  assumes "block_ok b"
  shows "g_got (user (savenow_load_pre io nr b c s)) = g_got (user s)"
    "g_parsed (user (savenow_load_pre io nr b c s)) = g_parsed (user s)"
proof -
  note f = map_fields [OF assms]
  show "g_got (user (savenow_load_pre io nr b c s)) = g_got (user s)"
    "g_parsed (user (savenow_load_pre io nr b c s)) = g_parsed (user s)"
    using f by (auto simp: savenow_load_pre_def Let_def mem_r32_def mem_r8_def split: option.splits prod.splits)
qed

text \<open>C2: A save's chunks come back. The container the snapshot and the image write, in the gap of
  the block and the tail of the file, is read back at the load as exactly the chunks that were
  placed, in order; and when the chunks of all mods take 6,560 bytes or less that is every one
  of them.\<close>

theorem container_survives_save_and_load:
  assumes ok: "block_ok b" "image_ok img" "image_ok img'"
    and due: "snapshot_due r b (snapshot_start s)" "all \<noteq> []"
    and all: "snapshot_chunks io r b (sx_upd (new_id entropy) (snapshot_start s)) = (all, s')"
    and gid: "length (g_id (user s')) = 16"
    and block: "\<And>k. k < 12800 \<Longrightarrow>
      mem s2 (mem_ptr img + 5184 + k) = mem (savext_snapshot io r entropy b s) (mem_ptr b + k)"
    and statics: "user s2 = user (savext_snapshot io r entropy b s)"
    and loaded: "\<And>k. k < 24576 \<Longrightarrow> mem t (mem_ptr img' + k) = mem (savext_image img s2) (mem_ptr img + k)"
  shows "chunks (g_got (user (savext_load_pre io' nr (img' + BLOCK_IN_IMAGE) t))) = placed (chunks all)
    \<and> (length (raws (chunks all)) \<le> TAIL_LEN - TAIL_HEAD \<longrightarrow> placed (chunks all) = chunks all)"
proof -
  define gp where "gp = gap_part 0 (chunks all)"
  define tp where "tp = tail_part 0 (gap_rest (chunks all))"
  define gid where "gid = g_id (user s')"
  let ?s1 = "savext_snapshot io r entropy b s" and ?s3 = "savext_image img s2"
  have len_id: "length gid = 16" using gid by (simp add: gid_def)
  note leaves = snapshot_leaves [OF ok(1) due all gid gp_def tp_def refl, folded gid_def]
  have gl: "length (raws gp) \<le> 3120"
    using gap_part_fits [of 0 "chunks all"] by (simp add: gp_def GAP_LEN_def GAP_HEAD_def)
  have tl: "length (raws tp) \<le> 6560"
    using tail_part_fits [of 0 "gap_rest (chunks all)"] by (simp add: tp_def TAIL_LEN_def TAIL_HEAD_def)
  have sub: "set gp \<subseteq> set (chunks all)" "set tp \<subseteq> set (chunks all)"
    using parts_subset(1) [of 0 "chunks all"] parts_subset(2) [of 0 "gap_rest (chunks all)"]
      set_drop_subset [of _ "chunks all"] by (auto simp: gp_def tp_def gap_rest_def)
  have tc: "length tp < 2 ^ 16"
    using length_le_raws [of tp] sub(2) chunks_wf tl by fastforce
  text \<open>The image's memory: the block's copy untouched by the tail, and the tail.\<close>
  have st: "g_tail (user s2) = raws tp" "g_tail_chunks (user s2) = length tp"
    "g_tail_armed (user s2) = (tp \<noteq> [])" "g_id (user s2) = gid"
    unfolding statics by (subst leaves(2), simp)+
  have m3: "mem ?s3 = (if tp = [] then mem s2
      else wr_bytes (mem s2) (mem_ptr img + 17984) (tail_header (length tp) gid (raws tp) @ raws tp))"
    by (simp add: savext_image_def Let_def st image_fields [OF ok(2)])
  have "mem ?s3 (mem_ptr img + 11100 + k) = mem s2 (mem_ptr img + 11100 + k)" if "k < 3156" for k
    using that by (simp add: m3 wr_bytes_def)
  then have "rd_bytes (mem t) (mem_ptr img' + 11100) (GAP_HEAD + length (raws gp))
      = rd_bytes (mem ?s1) (mem_ptr b + 5916) (GAP_HEAD + length (raws gp))"
    using gl block [of "5916 + _"] loaded [of "11100 + _"]
    by (intro rd_bytes_cong) (simp add: GAP_HEAD_def add.assoc)
  then have gap: "rd_bytes (mem t) (mem_ptr img' + 11100) (GAP_HEAD + length (raws gp))
      = gap_header (length gp) (length tp) gid (raws gp) @ raws gp"
    using leaves(1) by simp
  have tail: "read_tail (mem t) (mem_ptr img' + 17984) gid = raws tp" if "tp \<noteq> []"
  proof (rule read_tail_ok [OF _ len_id])
    let ?w = "tail_header (length tp) gid (raws tp) @ raws tp"
    have "rd_bytes (mem t) (mem_ptr img' + 17984) (length ?w) = rd_bytes (mem ?s3) (mem_ptr img + 17984) (length ?w)"
      using tl loaded [of "17984 + _"] len_id
      by (intro rd_bytes_cong) (simp add: TAIL_HEAD_def add.assoc)
    then show "rd_bytes (mem t) (mem_ptr img' + 17984) (TAIL_HEAD + length (raws tp)) = ?w"
      using that len_id by (simp add: m3 rd_wr_same)
    show "length (raws tp) \<le> TAIL_LEN - TAIL_HEAD" using tl by (simp add: TAIL_LEN_def TAIL_HEAD_def)
  qed
  have "read_container (mem t) (mem_ptr img' + 11100) (mem_ptr img' + 17984) = raws (gp @ tp)"
    using read_container_ok [OF gap len_id _ tc] gl tail
    by (auto simp: GAP_LEN_def GAP_HEAD_def raws_append)
  then have "g_got (user (savext_load_pre io' nr (img' + BLOCK_IN_IMAGE) t)) = raws (gp @ tp)"
    by (simp add: savext_load_pre_def Let_def image_fields [OF ok(3)]
        load_pre_got(1) [OF image_fields(1) [OF ok(3)]])
  moreover have "list_all wf_chunk (gp @ tp)"
    using sub chunks_wf by (auto simp: list_all_iff)
  ultimately show ?thesis
    using chunks_raws [of "gp @ tp" "[]"] placed_all by (simp add: placed_def gp_def tp_def)
qed

text \<open>A port with no mods loaded that keeps one chunk, of a mod that was.\<close>

definition keeper0 :: "savext cpu" where
  "keeper0 = \<lparr>gpr = (\<lambda>_. 0), fpr = (\<lambda>_. (0, 0)), cr = 0, xer = 0, lr = 0, ctr = 0, fpscr = 0, msr = 0,
    decr = 0, pc = 0, gqr = (\<lambda>_. 0), hid2 = 0, wpar = 0, spr = (\<lambda>_. 0), sr = (\<lambda>_. 0), mem = (\<lambda>_. 0),
    user = \<lparr>g_mods = [], g_s_set = True, g_text = [], g_cur_mod = -1, g_in_init = False, g_init_id = [],
      g_event_now = None, cb_calls = (\<lambda>_ _. 0), g_pending = False, g_opened = False, g_frame_set = False,
      g_at_frame = 0, g_last_sp = 0, g_why = [], g_loaded_savenow = False,
      claims_lock = \<lparr>g_claims = [], g_next_flag = FLAG_FIRST, g_lock_dirty = False, g_lock_bad = False\<rparr>,
      g_calls = (\<lambda>_. 0), g_written = (\<lambda>_. 0), g_id = replicate 16 0, id_seed = 0, g_tail = [],
      g_tail_chunks = 0, g_tail_armed = False, g_kept = chunk_put ''m.a'' [1, 2, 3], g_got = [], g_parsed = 0,
      save_buf = []\<rparr>\<rparr>"

definition no_mods :: "'m registry" where
  "no_mods = \<lparr>reg_frame_end = [], reg_safe_point = [], reg_map_loaded = [], reg_scene_change = [],
    reg_damage = [], reg_heal = [], reg_enemy_spawn = [], reg_enemy_action = [], reg_turn_order = [],
    reg_spirit_gain = [], reg_escape = [], reg_rewards = [], reg_effect = [], reg_round_end = [],
    reg_ship_damage = [], reg_save = [], reg_load = [], reg_new_game = []\<rparr>"

definition io2 :: "'m savext_scheme io" where
  "io2 = \<lparr>mmio_read = (\<lambda>_ _ s. (0, s)), mmio_write = (\<lambda>_ _ _ s. s), gx_pipe_write = (\<lambda>_ _ s. s)\<rparr>"

lemma no_mods_count [simp]: "mod_event_count no_mods ev = 0"
  by (cases ev) (simp_all add: mod_event_count_def no_mods_def)

lemma no_mods_saves [simp]: "saves_for_itself no_mods d cid = False"
  by (simp add: saves_for_itself_def)

text \<open>The game's copy of the block at 0x80400000 into the image at 0x80500000.\<close>

definition copy_block :: "'m xcpu \<Rightarrow> 'm xcpu" where
  "copy_block s = s\<lparr>mem := (\<lambda>x. mem s (x - 0x101440))\<rparr>"

theorem container_survives_save_and_load_witness:
  "chunks (g_got (user (savext_load_pre io2 False (0x80500000 + BLOCK_IN_IMAGE)
      (savext_image 0x80500000 (copy_block (savext_snapshot io2 no_mods 7 0x80400000 keeper0))))))
    = [(''m.a'', [1, 2, 3], chunk_put ''m.a'' [1, 2, 3])]"
proof -
  let ?all = "chunk_put ''m.a'' [1, 2, 3]" and ?s = "sx_upd (new_id 7) (snapshot_start keeper0)"
  have u: "user ?s = new_id 7 (user (snapshot_start keeper0))" by simp
  have k: "g_kept (user ?s) = ?all" "\<not> g_opened (user ?s)" "mod_claims_count (claims_lock (user ?s)) = 0"
    "length (g_id (user ?s)) = 16" "mem ?s = (\<lambda>_. 0)"
    by (simp_all add: new_id_def Let_def snapshot_start_def keeper0_def mod_claims_count_def)
  have id: "save_id_ok ''m.a''" by (simp add: save_id_ok_def ID_MAX_def nul_def)
  have cs: "chunks ?all = [(''m.a'', [1, 2, 3], ?all)]"
    using chunks_put [OF id, of "[1, 2, 3]" "[]"] by simp
  have all: "snapshot_chunks io2 no_mods 0x80400000 ?s = (?all, ?s)"
    using k by (simp add: snapshot_chunks_def snapshot_own_def savenow_snapshot_def snapshot_kept_def cs KEPT_MAX_def
        GAP_LEN_def TAIL_LEN_def Let_def)
  have due: "snapshot_due no_mods 0x80400000 (snapshot_start keeper0)"
    by (simp add: snapshot_due_def snapshot_start_def keeper0_def rd_bytes_def list_all_iff chunk_put_def)
  have b: "block_ok 0x80400000" "image_ok 0x80500000" by (simp_all add: block_ok_def image_ok_def)
  have "mem (copy_block x) (mem_ptr 0x80500000 + 5184 + k) = mem x (mem_ptr 0x80400000 + k)" for k and x :: "savext cpu"
    by (simp add: copy_block_def mem_ptr_def MEM_MASK_def)
  then have "chunks (g_got (user (savext_load_pre io2 False (0x80500000 + BLOCK_IN_IMAGE)
      (savext_image 0x80500000 (copy_block (savext_snapshot io2 no_mods 7 0x80400000 keeper0))))))
      = placed (chunks ?all) \<and> (length (raws (chunks ?all)) \<le> TAIL_LEN - TAIL_HEAD
        \<longrightarrow> placed (chunks ?all) = chunks ?all)"
    by (intro container_survives_save_and_load [OF b(1) b(2) b(2) due _ all k(4)])
      (simp_all add: copy_block_def chunk_put_def)
  then show ?thesis by (simp add: cs TAIL_LEN_def TAIL_HEAD_def)
qed

section \<open>Chunks of mods that are not loaded\<close>

text \<open>A chunk's id and data, whatever its raw bytes.\<close>

definition entry :: "string \<times> u8 list \<times> u8 list \<Rightarrow> string \<times> u8 list" where
  "entry = (\<lambda>(cid, data, raw). (cid, data))"

definition ports_own :: "string \<Rightarrow> bool" where
  "ports_own cid \<longleftrightarrow> take 4 cid = ''soa.''"

lemma claims_ports_own: "ports_own CLAIMS_ID"
  by (simp add: ports_own_def CLAIMS_ID_def)

lemma chunk_at_lengths:
  assumes "chunk_at p = Some (cid, data, raw, rest)"
  shows "5 + length cid + length data \<le> length raw \<and> length data < 2 ^ 32"
proof -
  obtain n0 q where p: "p = n0 # q" using assms by (cases p) (auto simp: chunk_at_def)
  define n where "n = unat n0"
  define k where "k = unat (get32_at p (1 + n))"
  have ok: "5 + n + k \<le> length p"
    and parts: "cid = string_of (takeWhile (\<lambda>b. b \<noteq> 0) (take n q))" "data = take k (drop (5 + n) p)"
      "raw = take (5 + n + k) p"
    using assms unfolding chunk_at_def p by (auto simp: Let_def n_def k_def p split: if_splits)
  have "length cid \<le> n"
    using length_takeWhile_le [of "\<lambda>b. b \<noteq> 0" "take n q"] by (simp add: parts(1) string_of_def)
  moreover have "k < 2 ^ 32" using unsigned_less [of "get32_at p (1 + n)"] by (simp add: k_def)
  ultimately show ?thesis using ok by (simp add: parts(2,3))
qed

lemma wf_chunk_lengths:
  "wf_chunk (cid, data, raw) \<Longrightarrow> 5 + length cid + length data \<le> length raw \<and> length data < 2 ^ 32"
  unfolding wf_chunk_def prod.case by (drule spec [of _ "[]"]) (rule chunk_at_lengths)

lemma raws_chunks_le: "length (raws (chunks p)) \<le> length p"
proof (induction p rule: chunks.induct)
  case (1 p)
  show ?case
  proof (cases "chunk_at p")
    case None
    then show ?thesis by (subst chunks.simps) simp
  next
    case (Some x)
    then obtain cid data raw rest where x: "chunk_at p = Some (cid, data, raw, rest)" by (cases x) auto
    then have "length (raws (chunks rest)) \<le> length rest" using "1.IH" [OF x refl refl refl] by simp
    moreover have "length p = length raw + length rest"
      using arg_cong [OF chunk_at_split(1) [OF x], of length] by simp
    ultimately show ?thesis using x by (subst chunks.simps) simp
  qed
qed

text \<open>Chunks one after another, and what is read of them.\<close>

definition put_all :: "(string \<times> u8 list) list \<Rightarrow> u8 list" where
  "put_all ps = concat (map (\<lambda>(cid, data). chunk_put cid data) ps)"

lemma put_all_simps [simp]:
  "put_all [] = []" "put_all (p # ps) = chunk_put (fst p) (snd p) @ put_all ps" "put_all (ps @ qs) = put_all ps @ put_all qs"
  by (simp_all add: put_all_def case_prod_beta)

definition puts_ok :: "(string \<times> u8 list) list \<Rightarrow> bool" where
  "puts_ok ps \<longleftrightarrow> (\<forall>p\<in>set ps. save_id_ok (fst p) \<and> length (snd p) < 2 ^ 32)"

lemma puts_ok_simps [simp]:
  "puts_ok []" "puts_ok (p # ps) \<longleftrightarrow> save_id_ok (fst p) \<and> length (snd p) < 2 ^ 32 \<and> puts_ok ps"
  "puts_ok (ps @ qs) \<longleftrightarrow> puts_ok ps \<and> puts_ok qs"
  by (auto simp: puts_ok_def)

lemma chunks_put_all:
  "puts_ok ps \<Longrightarrow> chunks (put_all ps @ q) = map (\<lambda>p. (fst p, snd p, chunk_put (fst p) (snd p))) ps @ chunks q"
  by (induction ps) (simp_all add: chunks_put)

lemma entries_put_all: "puts_ok ps \<Longrightarrow> map entry (chunks (put_all ps)) = ps"
  using chunks_put_all [of ps "[]"] by (simp add: entry_def o_def)

text \<open>What the mods' callbacks are held to: they leave the runtime's list of mods and its kept chunks, and
  the size they report is a 32-bit one.\<close>

definition mod_statics :: "'m xcpu \<Rightarrow> mod_entry list \<times> u8 list" where
  "mod_statics s = (g_mods (user s), g_kept (user s))"

definition callbacks_keep :: "'m xregistry \<Rightarrow> bool" where
  "callbacks_keep r \<longleftrightarrow>
     (\<forall>c\<in>set (reg_save r). \<forall>buf cap s. mod_statics (snd (cb_fn c buf cap s)) = mod_statics s
        \<and> fst (fst (cb_fn c buf cap s)) < 2 ^ 31)
     \<and> (\<forall>c\<in>set (reg_load r). \<forall>x s. mod_statics (cb_fn c x s) = mod_statics s)"

lemma statics_upd [simp]:
  "(\<And>d. g_mods (f d) = g_mods d \<and> g_kept (f d) = g_kept d) \<Longrightarrow> mod_statics (sx_upd f s) = mod_statics s"
  by (simp add: mod_statics_def)

lemma saves_cong: "g_mods d' = g_mods d \<Longrightarrow> saves_for_itself r d' = saves_for_itself r d"
  by (simp add: saves_for_itself_def mod_save_id_def mod_id_at_def fun_eq_iff)

lemma save_call_keeps:
  assumes "callbacks_keep r"
  shows "mod_statics (snd (mod_save_call r i buf cap s)) = mod_statics s" "fst (fst (mod_save_call r i buf cap s)) < 2 ^ 31"
  using assms nth_mem [of i "reg_save r"]
  by (auto simp: mod_save_call_def callbacks_keep_def event_begin_def event_end_def mods_upd_def mod_statics_def case_prod_beta Let_def)

lemma load_fold_keeps:
  assumes "callbacks_keep r"
  shows "mod_statics (fold (load_mod r got) is s) = mod_statics s"
proof (induction "is" arbitrary: s)
  case (Cons i js)
  have "mod_statics (load_mod r got i s) = mod_statics s"
    using assms nth_mem [of i "reg_load r"]
    by (auto simp: load_mod_def mod_load_call_def callbacks_keep_def event_begin_def event_end_def mods_upd_def
        mod_statics_def case_prod_beta Let_def)
  then show ?case using Cons.IH by simp
qed simp

text \<open>What a load keeps: every chunk that is neither the port's own nor one a loaded mod saves itself.\<close>

definition carried :: "'m xregistry \<Rightarrow> 'm savext_scheme \<Rightarrow> string \<times> u8 list \<times> u8 list \<Rightarrow> bool" where
  "carried r d c \<longleftrightarrow> \<not> ports_own (fst c) \<and> \<not> saves_for_itself r d (fst c)"

lemma fold_keep_chunk:
  "fold (keep_chunk r) cs d = d\<lparr>g_kept := g_kept d @ raws (filter (carried r d) cs)\<rparr>"
proof (induction cs arbitrary: d)
  case (Cons c cs)
  have s: "carried r (d\<lparr>g_kept := x\<rparr>) = carried r d" for x
    using saves_cong [of "d\<lparr>g_kept := x\<rparr>" d r] by (simp add: carried_def fun_eq_iff)
  show ?case
    using claims_ports_own Cons.IH by (cases c) (auto simp: keep_chunk_def ports_own_def carried_def [of _ _ "(_, _, _)"] s)
qed simp

text \<open>The kept chunks written out again.\<close>

lemma fold_put:
  assumes "\<And>c. c \<in> set cs \<Longrightarrow> wf_chunk c \<and> \<not> saves_for_itself r d (fst c)"
    and "length out + length (raws cs) \<le> KEPT_MAX"
  shows "fold (\<lambda>(cid, data, raw) out.
         if \<not> saves_for_itself r d cid \<and> length out + 1 + length cid + 4 + length data \<le> KEPT_MAX
         then out @ chunk_put cid data else out) cs out
    = out @ put_all (map entry cs)"
  using assms
proof (induction cs arbitrary: out)
  case (Cons c cs)
  obtain cid data raw where c: "c = (cid, data, raw)" by (cases c)
  have l: "5 + length cid + length data \<le> length raw"
    using Cons.prems(1) [of c] wf_chunk_lengths by (simp add: c)
  then have "length out + 1 + length cid + 4 + length data \<le> KEPT_MAX"
    "length (out @ chunk_put cid data) + length (raws cs) \<le> KEPT_MAX"
    using Cons.prems(2) by (simp_all add: c)
  moreover have "\<not> saves_for_itself r d cid" using Cons.prems(1) [of c] by (simp add: c)
  ultimately show ?case
    using Cons.IH [of "out @ chunk_put cid data"] Cons.prems(1) by (simp add: c entry_def)
qed simp

text \<open>A mod's turn puts at most one chunk, under its id.\<close>

lemma snapshot_mod_puts:
  assumes keep: "callbacks_keep r" and k: "k < mod_event_count r MOD_EV_SAVE"
    and ids: "save_id_ok (mod_save_id r (user s) MOD_EV_SAVE k)"
  shows "\<exists>ps s'. snapshot_mod r k (all, s) = (all @ put_all ps, s') \<and> puts_ok ps
      \<and> (\<forall>p\<in>set ps. saves_for_itself r (user s) (fst p)) \<and> mod_statics s' = mod_statics s"
proof -
  let ?mid = "mod_save_id r (user s) MOD_EV_SAVE k"
  let ?head = "1 + of_nat (length ?mid) + 4 :: u32" and ?room = "of_nat KEPT_MAX - of_nat (length all) :: u32"
  obtain got buf s1 where call: "(if ?room > ?head then mod_save_call r k (save_buf (user s)) (?room - ?head) s
      else ((-2, save_buf (user s)), s)) = ((got, buf), s1)" by (metis prod.exhaust)
  have g: "got < 2 ^ 31" "mod_statics s1 = mod_statics s"
    using call save_call_keeps [OF keep, of k "save_buf (user s)" "?room - ?head" s] by (auto split: if_splits)
  define s2 where "s2 = sx_upd (save_buf_update (\<lambda>_. buf)) s1"
  have m: "mod_statics s2 = mod_statics s" using g(2) by (simp add: s2_def)
  have self: "saves_for_itself r (user s) ?mid"
    using k by (auto simp: saves_for_itself_def list_ex_iff)
  have kept: "length data < 2 ^ 32" if found: "kept_chunk (user s2) ?mid = Some data" for data
  proof -
    obtain cid raw where "(cid, data, raw) \<in> set (chunks (g_kept (user s2)))"
      using found by (auto simp: kept_chunk_def find_Some_iff) (metis nth_mem)
    then show ?thesis using chunks_wf wf_chunk_lengths by blast
  qed
  have e: "snapshot_mod r k (all, s) =
    (if got = -1 then (all, s2)
     else if got < 0 \<or> (of_int got :: u32) > ?room - ?head then
       (case kept_chunk (user s2) ?mid of
          Some data \<Rightarrow> if length all + unat ?head + length data \<le> KEPT_MAX then (all @ chunk_put ?mid data, s2) else (all, s2)
        | None \<Rightarrow> (all, s2))
     else (all @ chunk_put ?mid (take (nat got) buf), s2))"
    by (simp only: snapshot_mod_def prod.case Let_def call s2_def)
  have one: ?thesis if "snapshot_mod r k (all, s) = (all @ chunk_put ?mid data, s2)" "length data < 2 ^ 32" for data
    using that m self ids by (intro exI [of _ "[(?mid, data)]"] exI [of _ s2]) simp
  have none: ?thesis if "snapshot_mod r k (all, s) = (all, s2)"
    using that m by (intro exI [of _ "[]"] exI [of _ s2]) simp
  have "length (take (nat got) buf) < 2 ^ 32" using g(1) by auto
  then show ?thesis
    using one none kept by (cases "kept_chunk (user s2) ?mid") (auto simp: e split: if_splits)
qed

lemma snapshot_fold_puts:
  assumes keep: "callbacks_keep r" and ids: "\<And>k. k < mod_event_count r MOD_EV_SAVE \<Longrightarrow> save_id_ok (mod_save_id r (user s) MOD_EV_SAVE k)"
  shows "set ks \<subseteq> {..<mod_event_count r MOD_EV_SAVE} \<Longrightarrow> mod_statics s1 = mod_statics s \<Longrightarrow>
    \<exists>ps s'. fold (snapshot_mod r) ks (all, s1) = (all @ put_all ps, s') \<and> puts_ok ps
      \<and> (\<forall>p\<in>set ps. saves_for_itself r (user s) (fst p)) \<and> mod_statics s' = mod_statics s"
proof (induction ks arbitrary: all s1)
  case Nil
  then show ?case by (intro exI [of _ "[]"] exI [of _ s1]) simp
next
  case (Cons k ks)
  have mods: "g_mods (user s1) = g_mods (user s)" using Cons.prems(2) by (simp add: mod_statics_def)
  then have "mod_save_id r (user s1) = mod_save_id r (user s)"
    by (auto simp: mod_save_id_def mod_id_at_def fun_eq_iff split: event.split)
  then have "save_id_ok (mod_save_id r (user s1) MOD_EV_SAVE k)" using ids Cons.prems(1) by simp
  then obtain ps s2 where 1: "snapshot_mod r k (all, s1) = (all @ put_all ps, s2)" "puts_ok ps"
    "\<forall>p\<in>set ps. saves_for_itself r (user s1) (fst p)" "mod_statics s2 = mod_statics s1"
    using snapshot_mod_puts [OF keep, of k s1 all] Cons.prems(1) by auto
  obtain qs s' where 2: "fold (snapshot_mod r) ks (all @ put_all ps, s2) = ((all @ put_all ps) @ put_all qs, s')" "puts_ok qs"
    "\<forall>p\<in>set qs. saves_for_itself r (user s) (fst p)" "mod_statics s' = mod_statics s"
    using Cons.IH [of s2 "all @ put_all ps"] Cons.prems 1(4) by auto
  show ?case
    using 1 2 saves_cong [OF mods, of r] by (intro exI [of _ "ps @ qs"] exI [of _ s']) auto
qed

text \<open>What stands before the kept chunks: the port's own and the loaded mods'.\<close>

lemma savenow_snapshot_keeps:
  fixes s :: "'m xcpu"
  assumes "block_ok b"
  shows "mod_statics (snd (savenow_snapshot io b n s)) = mod_statics s"
    and "fst (savenow_snapshot io b n s) = Some c \<Longrightarrow> length c = 12"
proof -
  note f = map_fields [OF assms]
  show "mod_statics (snd (savenow_snapshot io b n s)) = mod_statics s"
    using f by (auto simp: savenow_snapshot_def Let_def mem_r32_def mem_r8_def mem_w32_def mem_w8_def mod_statics_def sn_upd_def
        split: prod.splits)
  show "fst (savenow_snapshot io b n s) = Some c \<Longrightarrow> length c = 12"
    by (auto simp: savenow_snapshot_def Let_def split: if_splits prod.splits)
qed

lemma snapshot_own_puts:
  assumes keep: "callbacks_keep r" and ok: "block_ok b"
    and ids: "\<And>k. k < mod_event_count r MOD_EV_SAVE \<Longrightarrow> save_id_ok (mod_save_id r (user s) MOD_EV_SAVE k)"
  shows "\<exists>ps s'. snapshot_own io r b s = (put_all ps, s') \<and> puts_ok ps
      \<and> (\<forall>p\<in>set ps. ports_own (fst p) \<or> saves_for_itself r (user s) (fst p)) \<and> mod_statics s' = mod_statics s"
proof -
  obtain sn s1 where sn: "savenow_snapshot io b 16 s = (sn, s1)" by fastforce
  have st: "mod_statics s1 = mod_statics s" using savenow_snapshot_keeps(1) [OF ok, of io 16 s] sn by simp
  define p1 where "p1 = (case sn of None \<Rightarrow> [] | Some c \<Rightarrow> [(SAVENOW_ID, c)])"
  define ctext where "ctext = bytes_of (mod_claims_text (claims_lock (user s1)) (KEPT_MAX - (1 + length CLAIMS_ID + 4)))"
  define p2 where "p2 = (if mod_claims_count (claims_lock (user s1)) = 0 then [] else [(CLAIMS_ID, ctext)])"
  have l1: "length c < 2 ^ 32" if "sn = Some c" for c
    using savenow_snapshot_keeps(2) [OF ok, of io 16 s c] sn that by simp
  have "length ctext \<le> KEPT_MAX - (1 + length CLAIMS_ID + 4) - 0 - 1"
    unfolding ctext_def mod_claims_text_def length_bytes_of by (rule length_claims_text)
  then have l2: "length ctext < 2 ^ 32" by (simp add: KEPT_MAX_def GAP_LEN_def TAIL_LEN_def)
  have own: "save_id_ok SAVENOW_ID" "save_id_ok CLAIMS_ID" "ports_own SAVENOW_ID" "ports_own CLAIMS_ID"
    by (simp_all add: save_id_ok_def ports_own_def SAVENOW_ID_def CLAIMS_ID_def ID_MAX_def nul_def)
  have p: "puts_ok (p1 @ p2)" "\<forall>p\<in>set (p1 @ p2). ports_own (fst p)"
    using l1 l2 own by (auto simp: p1_def p2_def split: option.split)
  have e: "snapshot_own io r b s = fold (snapshot_mod r) [0..<mod_event_count r MOD_EV_SAVE] (put_all (p1 @ p2), s1)"
    by (auto simp: snapshot_own_def sn p1_def p2_def ctext_def Let_def split: option.split)
  have sub: "set [0..<mod_event_count r MOD_EV_SAVE] \<subseteq> {..<mod_event_count r MOD_EV_SAVE}" by auto
  obtain ps s' where "fold (snapshot_mod r) [0..<mod_event_count r MOD_EV_SAVE] (put_all (p1 @ p2), s1)
      = (put_all (p1 @ p2) @ put_all ps, s')" "puts_ok ps" "\<forall>p\<in>set ps. saves_for_itself r (user s) (fst p)"
    "mod_statics s' = mod_statics s"
    using snapshot_fold_puts [OF keep ids sub st, of "put_all (p1 @ p2)"] by blast
  then show ?thesis
    using p by (intro exI [of _ "p1 @ p2 @ ps"] exI [of _ s']) (auto simp: e)
qed

lemma load_post_statics: "mod_statics (savenow_load_post io nr s) = mod_statics s"
  by (simp add: savenow_load_post_def Let_def mem_w32_def SOA_SYS15_def is_mmio_def mod_statics_def)


text \<open>A port whose only mod saves a chunk of its own; the save it loads has that mod's old chunk and two
  of mods that are not loaded.\<close>

definition one_saver :: "'m xregistry" where
  "one_saver = no_mods\<lparr>reg_save := [\<lparr>cb_fn = (\<lambda>buf cap s. ((2, [7, 7]), s)), cb_mod = 0\<rparr>]\<rparr>"

definition saver_port :: "u8 list \<Rightarrow> savext cpu" where
  "saver_port got = sx_upd (\<lambda>d. d\<lparr>g_mods := [\<lparr>mod_dir = ''c'', mod_id = ''m.c'', mod_writes = 0\<rparr>],
     g_parsed := 0x80400000, g_got := got\<rparr>) keeper0"

lemma one_saver_fields: "reg_save one_saver = [\<lparr>cb_fn = (\<lambda>buf cap s. ((2, [7, 7]), s)), cb_mod = 0\<rparr>]" "reg_load one_saver = []"
  "mod_event_count one_saver MOD_EV_SAVE = 1" "mod_event_count one_saver MOD_EV_LOAD = 0"
  by (simp_all add: one_saver_def no_mods_def mod_event_count_def)

lemma one_saver_id: "g_mods d = g_mods (user (saver_port got)) \<Longrightarrow> mod_save_id one_saver d MOD_EV_SAVE 0 = ''m.c''"
  by (simp add: mod_save_id_def one_saver_fields mod_id_at_def saver_port_def)

lemma one_saver_saves: "g_mods d = g_mods (user (saver_port got)) \<Longrightarrow> saves_for_itself one_saver d cid \<longleftrightarrow> cid = ''m.c''"
  by (auto simp: saves_for_itself_def one_saver_fields one_saver_id)

lemma one_saver_own:
  assumes "g_mods (user s) = g_mods (user (saver_port got))" "\<not> g_opened (user s)" "g_claims (claims_lock (user s)) = []"
  shows "fst (snapshot_own io one_saver b s) = chunk_put ''m.c'' [7, 7]"
proof -
  have "fst (mod_save_call one_saver 0 buf cap s) = (2, [7, 7])" for buf cap
    by (simp add: mod_save_call_def one_saver_fields case_prod_beta)
  then have "fst (snapshot_mod one_saver 0 ([], s)) = chunk_put ''m.c'' [7, 7]"
    by (simp add: snapshot_mod_def Let_def one_saver_id [OF assms(1)] case_prod_beta KEPT_MAX_def GAP_LEN_def TAIL_LEN_def)
  then show ?thesis
    using assms(2,3) by (simp add: snapshot_own_def savenow_snapshot_def mod_claims_count_def one_saver_fields)
qed

definition saved_game :: "savext cpu" where
  "saved_game = saver_port (chunk_put ''m.a'' [9, 8] @ chunk_put ''m.c'' [1] @ chunk_put ''m.b'' [])"


section \<open>Ids that do not fit\<close>

text \<open>
  A manifest id may have up to 63 characters, a chunk's id 31. The snapshot puts a chunk with
  whatever id the mod has, and every walk over chunks stops at the first id it takes for one
  that runs off.
\<close>

lemma chunk_at_long_id:
  assumes "ID_MAX < length cid" "length cid < 256"
  shows "chunk_at (chunk_put cid data @ rest) = None"
proof -
  have "unat (of_nat (length cid) :: u8) = length cid" using assms(2) by (simp add: unat_of_nat)
  then show ?thesis using assms(1) by (simp add: chunk_at_def chunk_put_def Let_def)
qed

text \<open>C36: A save callback of a mod whose manifest id has more than 31 characters, which the port
  accepts, ends the container: neither its chunk nor any chunk put after it, of whatever mod, is
  ever placed or read.\<close>

theorem long_id_ends_container:
  assumes "good_id mid" "ID_MAX < length mid" "list_all wf_chunk cs"
  shows "chunks (raws cs @ chunk_put mid data @ rest) = cs
    \<and> set (placed (chunks (raws cs @ chunk_put mid data @ rest))) \<subseteq> set cs"
proof -
  have "length mid < 256" using assms(1) by (simp add: good_id_def)
  then have "chunks (chunk_put mid data @ rest) = []"
    by (subst chunks.simps) (simp add: chunk_at_long_id [OF assms(2)])
  then have "chunks (raws cs @ chunk_put mid data @ rest) = cs"
    using chunks_raws [OF assms(3)] by simp
  moreover have "set (placed cs) \<subseteq> set cs"
    using parts_subset(1) [of 0 cs] parts_subset(2) [of 0 "gap_rest cs"] set_drop_subset [of _ cs]
    by (fastforce simp: placed_def gap_rest_def)
  ultimately show ?thesis by simp
qed

text \<open>A mod with a 32-character id saves first: the chunk of the mod after it is lost too.\<close>

theorem long_id_ends_container_witness:
  "good_id (replicate 32 CHR ''x'')
    \<and> chunks (chunk_put (replicate 32 CHR ''x'') [1] @ chunk_put ''m.b'' [2]) = []"
proof -
  have id: "good_id (replicate 32 CHR ''x'')"
    by (simp add: good_id_def is_lower_def id_char_def less_eq_char_def list_all_iff)
  then show ?thesis
    using long_id_ends_container [OF id, of "[]" "[1]" "chunk_put ''m.b'' [2]"] by (simp add: ID_MAX_def)
qed

section \<open>The claims after a save-now chunk\<close>

text \<open>
  The claims' text is held to what the whole container has room for, not to what the save-now
  chunk before it leaves: with enough claims the two together pass the array they are put in,
  and the room computed for the first mod wraps round.
\<close>

definition full_lock :: lock where
  "full_lock = \<lparr>g_claims = map (\<lambda>i. \<lparr>cl_mod = replicate 12 CHR ''m'' @ dec (100 + i div 32),
      cl_name = CHR ''x'' # dec (100 + i), cl_number = FLAG_FIRST + i\<rparr>) [0..<304],
    g_next_flag = FLAG_FIRST + 304, g_lock_dirty = False, g_lock_bad = False\<rparr>"

lemma length_dec_3: "100 \<le> n \<Longrightarrow> n < 1000 \<Longrightarrow> length (dec n) = 3"
  by (subst dec.simps, subst dec.simps, subst dec.simps) auto

lemma length_dec_5: "10000 \<le> n \<Longrightarrow> n < 100000 \<Longrightarrow> length (dec n) = 5"
  by (subst dec.simps, subst dec.simps, subst dec.simps, subst dec.simps, subst dec.simps) auto

lemma dec_inject: "dec n = dec m \<longleftrightarrow> n = m"
  using digits_val_dec by metis

lemma full_lock_ok: "lock_ok full_lock"
proof -
  have d: "list_all id_char (dec n)" for n
    using dec_digits(1) [of n] by (auto simp: list_all_iff id_char_def)
  have "claim_ok \<lparr>cl_mod = replicate 12 CHR ''m'' @ dec (100 + i div 32),
      cl_name = CHR ''x'' # dec (100 + i), cl_number = FLAG_FIRST + i\<rparr>" if "i < 304" for i
    using that length_dec_3 [of "100 + i div 32"] length_dec_3 [of "100 + i"] d
    by (auto simp: claim_ok_def good_id_def good_claim_name_def id_char_def is_lower_def less_eq_char_def
        CLAIM_NAME_def FLAG_FIRST_def FLAG_LAST_def list_all_iff)
  moreover have "distinct (map claim_key (g_claims full_lock))"
    by (auto simp: full_lock_def distinct_map claim_key_def inj_on_def dec_inject)
  ultimately show ?thesis
    by (auto simp: lock_ok_def full_lock_def list_all_iff CLAIM_MAX_def FLAG_FIRST_def FLAG_LAST_def)
qed

lemma full_text_length: "length (mod_claims_text full_lock 9733) = 9728"
proof -
  let ?c = "\<lambda>i. \<lparr>cl_mod = replicate 12 CHR ''m'' @ dec (100 + i div 32),
      cl_name = CHR ''x'' # dec (100 + i), cl_number = FLAG_FIRST + i\<rparr>"
  have line: "length (claim_line (?c i)) = 32" if "i < 304" for i
    using that length_dec_3 [of "100 + i div 32"] length_dec_3 [of "100 + i"] length_dec_5 [of "FLAG_FIRST + i"]
    by (simp add: claim_line_def FLAG_FIRST_def)
  have "length (claims_text_loop (map ?c [i..<304]) used 9733) = 32 * (304 - i)"
    if "used = 32 * i" "i \<le> 304" for i used
    using that(2,1)
  proof (induction i arbitrary: used rule: inc_induct)
    case (step i)
    then have "\<not> 9733 - used \<le> 32" "length (claim_line (?c i)) = 32" using line [of i] by auto
    then show ?case
      using step.IH [of "used + 32"] step.hyps step.prems by (simp add: upt_conv_Cons Let_def)
  qed simp
  from this [of 0 0] show ?thesis by (simp add: mod_claims_text_def full_lock_def)
qed

lemma claims_pass_the_array:
  fixes place fallback :: u32
  defines "all \<equiv> chunk_put SAVENOW_ID (SN1 place fallback)
    @ chunk_put CLAIMS_ID (bytes_of (mod_claims_text full_lock (KEPT_MAX - (1 + length CLAIMS_ID + 4))))"
  shows "length all = KEPT_MAX + 23" and "of_nat KEPT_MAX - of_nat (length all) = (0xFFFFFFE9 :: u32)"
proof -
  have "KEPT_MAX - (1 + length CLAIMS_ID + 4) = 9733"
    by (simp add: KEPT_MAX_def GAP_LEN_def TAIL_LEN_def CLAIMS_ID_def)
  then show "length all = KEPT_MAX + 23"
    using full_text_length
    by (simp add: all_def SN1_fields SAVENOW_ID_def CLAIMS_ID_def KEPT_MAX_def GAP_LEN_def TAIL_LEN_def)
  then show "of_nat KEPT_MAX - of_nat (length all) = (0xFFFFFFE9 :: u32)" by simp
qed

end
