(* ===== verification/Seed.thy ===== *)
theory Seed
  imports ModClaims
begin

text \<open>
  runtime/seed.c: the race seed. With SOA_SEED set, OSGetTick's three reseeding calls return a
  value made from the seed, the site and how often that site has been reached; every other
  read of the timebase is left as it was. The environment is an argument, messages are left out.
\<close>

section \<open>State and operations\<close>

definition SITES :: nat where "SITES = 3"

definition k_site :: "u32 list" where "k_site = [0x801012B0, 0x8000A1D0, 0x8000A1D8]"

record seed =
  g_seed_on :: bool
  g_seed :: u32
  g_pinned :: "u64 list"
  g_other :: u64

definition fmix32 :: "u32 \<Rightarrow> u32" where
  "fmix32 h0 =
     (let h1 = h0 XOR drop_bit 16 h0;
          h2 = h1 * 0x85EBCA6B;
          h3 = h2 XOR drop_bit 13 h2;
          h4 = h3 * 0xC2B2AE35
      in h4 XOR drop_bit 16 h4)"

definition seed_value :: "u32 \<Rightarrow> nat \<Rightarrow> u32 \<Rightarrow> u32" where
  "seed_value s site n = fmix32 (s XOR of_nat (site + 1) * 0x9E3779B9 XOR n * 0x85EBCA6B)"

fun seed_site :: "u32 list \<Rightarrow> nat \<Rightarrow> u32 \<Rightarrow> nat option" where
  "seed_site [] i lnk = None"
| "seed_site (k # ks) i lnk = (if lnk = k then Some i else seed_site ks (Suc i) lnk)"

definition seed_pin :: "u32 \<Rightarrow> u32 \<Rightarrow> seed \<Rightarrow> u32 \<times> seed" where
  "seed_pin lnk tb s =
     (case seed_site k_site 0 lnk of
        Some i \<Rightarrow> (seed_value (g_seed s) i (ucast (g_pinned s ! i)),
                    s\<lparr>g_pinned := (g_pinned s)[i := g_pinned s ! i + 1]\<rparr>)
      | None \<Rightarrow> (tb, s\<lparr>g_other := g_other s + 1\<rparr>))"

definition seed_set :: "bool \<Rightarrow> u32 \<Rightarrow> seed \<Rightarrow> seed" where
  "seed_set on v s = s\<lparr>g_seed_on := on, g_seed := v, g_pinned := replicate SITES 0, g_other := 0\<rparr>"

text \<open>SOA_SEED: a decimal number, or 0x and up to eight hex digits.\<close>

definition is_xdigit :: "char \<Rightarrow> bool" where
  "is_xdigit c \<longleftrightarrow> is_digit c \<or> (CHR ''a'' \<le> c \<and> c \<le> CHR ''f'') \<or> (CHR ''A'' \<le> c \<and> c \<le> CHR ''F'')"

definition xdigit_val :: "char \<Rightarrow> nat" where
  "xdigit_val c = (if is_digit c then of_char c - 48
     else if CHR ''a'' \<le> c then of_char c - 87 else of_char c - 55)"

definition seed_number :: "string \<Rightarrow> nat option" where
  "seed_number v =
     (if length v \<ge> 2 \<and> v ! 0 = CHR ''0'' \<and> (v ! 1 = CHR ''x'' \<or> v ! 1 = CHR ''X'') then
        (let h = drop 2 v
         in if h \<noteq> [] \<and> length h \<le> 8 \<and> list_all is_xdigit h
            then Some (foldl (\<lambda>n c. 16 * n + xdigit_val c) 0 h) else None)
      else if length v \<le> 10 \<and> list_all is_digit v \<and> digits_val v \<le> 0xFFFFFFFF
           then Some (digits_val v) else None)"

text \<open>The seed as the recording names it, in decimal, or the empty string when none is pinned.\<close>

definition seed_init :: "string option \<Rightarrow> seed \<Rightarrow> (bool \<times> string) \<times> seed" where
  "seed_init env s =
     (case env of None \<Rightarrow> ((False, []), s)
      | Some v \<Rightarrow>
          if v = [] then ((False, []), s)
          else (case seed_number v of
                  None \<Rightarrow> ((False, []), s)
                | Some n \<Rightarrow> ((True, dec n), seed_set True (of_nat n) s)))"

section \<open>Seeds one apart never coincide\<close>

lemma xor_shift_inj:
  assumes "0 < k" "(h :: u32) XOR drop_bit k h = g XOR drop_bit k g"
  shows "h = g"
proof -
  have b: "bit h n \<noteq> bit h (k + n) \<longleftrightarrow> bit g n \<noteq> bit g (k + n)" if "n < 32" for n
    using arg_cong [OF assms(2), of "\<lambda>w. bit w n"] that by (auto simp: bit_simps)
  have "bit h n = bit g n" for n
  proof (induction "32 - n" arbitrary: n rule: less_induct)
    case less
    show ?case
    proof (cases "n < 32")
      case True
      then have "bit h (k + n) = bit g (k + n)" using less [of "k + n"] assms(1) by simp
      then show ?thesis using b [OF True] by blast
    next
      case False
      then show ?thesis by (auto dest: bit_imp_le_length)
    qed
  qed
  then show ?thesis by (rule bit_eqI)
qed

lemma odd_times_inj:
  fixes a :: u32
  assumes "b * c = 1" "a * b = a' * b"
  shows "a = a'"
proof -
  have "a * b * c = a' * b * c" using assms(2) by simp
  then show ?thesis using assms(1) by (simp add: mult.assoc)
qed

lemma fmix32_inj: "fmix32 h = fmix32 g \<longleftrightarrow> h = g"
proof
  assume e: "fmix32 h = fmix32 g"
  have c: "(0x85EBCA6B :: u32) * 0xA5CB9243 = 1" "(0xC2B2AE35 :: u32) * 0x7ED1B41D = 1" by simp_all
  define a where "a x = x XOR drop_bit 16 x" for x :: u32
  define b where "b x = x XOR drop_bit 13 x" for x :: u32
  have f: "fmix32 x = a (b (a x * 0x85EBCA6B) * 0xC2B2AE35)" for x
    by (simp only: fmix32_def a_def b_def Let_def)
  have i1: "x = y" if "a x = a y" for x y
    using xor_shift_inj [of 16 x y] that by (simp add: a_def)
  have i2: "x = y" if "b x = b y" for x y
    using xor_shift_inj [of 13 x y] that by (simp add: b_def)
  show "h = g"
    using i1 [OF odd_times_inj [OF c(1) i2 [OF odd_times_inj [OF c(2) i1 [OF e [unfolded f]]]]]] .
qed simp

lemma seed_values_distinct:
  "seed_value s i n = seed_value s' i n \<longleftrightarrow> s = s'" "seed_value s i n = seed_value s i n' \<longleftrightarrow> n = n'"
proof -
  have x: "(a :: u32) XOR c = b XOR c \<longleftrightarrow> a = b" "c XOR a = c XOR b \<longleftrightarrow> a = b" for a b c
    by (auto simp: bit_eq_iff bit_simps)
  have "(0x85EBCA6B :: u32) * 0xA5CB9243 = 1" by simp
  then have n: "n * 0x85EBCA6B = n' * 0x85EBCA6B \<longleftrightarrow> n = n'" using odd_times_inj by blast
  show "seed_value s i n = seed_value s' i n \<longleftrightarrow> s = s'" "seed_value s i n = seed_value s i n' \<longleftrightarrow> n = n'"
    by (simp_all only: seed_value_def fmix32_inj x n)
qed

section \<open>A run of calls\<close>

text \<open>The answers to a sequence of calls of OSGetTick, each the caller and the timebase.\<close>

fun pins :: "(u32 \<times> u32) list \<Rightarrow> seed \<Rightarrow> u32 list \<times> seed" where
  "pins [] st = ([], st)"
| "pins (c # cs) st =
     (let (v, st1) = seed_pin (fst c) (snd c) st; (vs, st2) = pins cs st1 in (v # vs, st2))"

lemma pins_snoc:
  "pins (cs @ [c]) st = (let (vs, st1) = pins cs st; (v, st2) = seed_pin (fst c) (snd c) st1 in (vs @ [v], st2))"
  by (induction cs arbitrary: st) (auto simp: Let_def split: prod.splits)

lemma seed_site_Some: "seed_site k_site 0 lnk = Some i \<longleftrightarrow> i < SITES \<and> lnk = k_site ! i"
proof -
  have "i < SITES \<longleftrightarrow> i = 0 \<or> i = 1 \<or> i = 2" by (auto simp: SITES_def)
  then show ?thesis by (auto simp: k_site_def split: if_splits)
qed

lemma seed_site_None: "seed_site k_site 0 lnk = None \<longleftrightarrow> (\<forall>i<SITES. lnk \<noteq> k_site ! i)"
  by (metis not_None_eq seed_site_Some)

lemma visits_as_u32: "ucast (of_nat n :: u64) = (of_nat n :: u32)"
  by (rule bit_word_eqI) (simp add: bit_simps bit_of_nat_iff)

definition earlier_calls :: "u32 \<Rightarrow> (u32 \<times> u32) list \<Rightarrow> nat" where
  "earlier_calls lnk cs = length (filter (\<lambda>c. fst c = lnk) cs)"

lemma pins_state:
  assumes "g_pinned st = replicate SITES 0"
  shows "g_seed (snd (pins cs st)) = g_seed st
    \<and> length (g_pinned (snd (pins cs st))) = SITES
    \<and> (\<forall>i<SITES. g_pinned (snd (pins cs st)) ! i = of_nat (earlier_calls (k_site ! i) cs))"
proof (induction cs rule: rev_induct)
  case Nil
  then show ?case by (simp add: assms earlier_calls_def)
next
  case (snoc c cs)
  have "k_site ! i = k_site ! j \<longleftrightarrow> i = j" if "i < SITES" "j < SITES" for i j
    using that by (auto simp: k_site_def SITES_def less_Suc_eq numeral_3_eq_3)
  note distinct = this
  obtain vs st1 where p: "pins cs st = (vs, st1)" by (cases "pins cs st")
  show ?case
  proof (cases "seed_site k_site 0 (fst c)")
    case None
    then have "fst c \<noteq> k_site ! i" if "i < SITES" for i using that by (simp add: seed_site_None)
    then show ?thesis
      using snoc None by (auto simp: p pins_snoc seed_pin_def earlier_calls_def)
  next
    case (Some i)
    then have "i < SITES" "fst c = k_site ! i" by (simp_all add: seed_site_Some)
    then show ?thesis
      using snoc Some by (auto simp: p pins_snoc seed_pin_def earlier_calls_def distinct nth_list_update)
  qed
qed

text \<open>What the calls should give: the timebase elsewhere, at a pinned site the value of that visit.\<close>

definition pinned_answer :: "u32 \<Rightarrow> (u32 \<times> u32) list \<Rightarrow> nat \<Rightarrow> u32" where
  "pinned_answer s cs k =
     (case seed_site k_site 0 (fst (cs ! k)) of
        None \<Rightarrow> snd (cs ! k)
      | Some i \<Rightarrow> seed_value s i (of_nat (earlier_calls (fst (cs ! k)) (take k cs))))"

text \<open>C37: Whatever calls the game makes after the seed is set, each call at a pinned site gets the
  value of the seed, the site and the number of earlier calls there, every other call gets the
  timebase, and so two runs with one seed see the same values however their calls are timed;
  different seeds give different values at each visit, and one site never repeats a value within
  2^32 visits.\<close>

theorem pinned_calls_follow_seed:
  "fst (pins cs (seed_set True s st)) = map (pinned_answer s cs) [0..<length cs]
   \<and> (seed_value s i n = seed_value s' i n \<longleftrightarrow> s = s') \<and> (seed_value s i n = seed_value s i n' \<longleftrightarrow> n = n')"
proof -
  let ?st = "seed_set True s st"
  have st: "g_pinned ?st = replicate SITES 0" "g_seed ?st = s" by (simp_all add: seed_set_def)
  have "fst (pins cs ?st) = map (pinned_answer s cs) [0..<length cs]"
  proof (induction cs rule: rev_induct)
    case (snoc c cs)
    have "pinned_answer s (cs @ [c]) k = pinned_answer s cs k" if "k < length cs" for k
      using that by (simp add: pinned_answer_def nth_append cong: option.case_cong)
    moreover have "fst (seed_pin (fst c) (snd c) (snd (pins cs ?st))) = pinned_answer s (cs @ [c]) (length cs)"
      using pins_state [OF st(1), of cs] st(2)
      by (cases "seed_site k_site 0 (fst c)")
        (auto simp: seed_pin_def pinned_answer_def visits_as_u32 dest: seed_site_Some [THEN iffD1])
    ultimately show ?case
      using snoc by (auto simp: pins_snoc Let_def split: prod.splits)
  qed simp
  then show ?thesis by (simp only: seed_values_distinct)
qed

end
