(* ===== verification/Interp.thy ===== *)
theory Interp
  imports Complex_Main "HOL-Library.Multiset" Prelude
begin

text \<open>
  runtime/interp_rate.h and runtime/interp_budget.h: how many in-between images a game frame
  gets. The rate is an integer accumulator over the display's refreshes; the budget takes
  images away while the median of the last 31 frame times is over its limit and gives them back
  when frames are on time. Frame times are reals: the code only compares its doubles with each
  other and with constants. A weight is the pair of the numerator and denominator the code
  divides, before the rounding of that division.
\<close>

section \<open>The rate\<close>

definition INTERP_RATE_MIN :: nat where "INTERP_RATE_MIN = 30"
definition INTERP_RATE_MAX :: nat where "INTERP_RATE_MAX = 240"

definition held_rate :: "nat \<Rightarrow> nat" where
  "held_rate hz = (let hz1 = (if hz < INTERP_RATE_MIN then INTERP_RATE_MIN else hz)
                   in if hz1 > INTERP_RATE_MAX then INTERP_RATE_MAX else hz1)"

text \<open>A frame's weights, ascending, and the next frame's remainder.\<close>

definition interp_rate_weights :: "nat \<Rightarrow> nat \<Rightarrow> (int \<times> nat) list \<times> nat" where
  "interp_rate_weights hz0 r =
     (let hz = held_rate hz0; n = (r + hz) div 30
      in (map (\<lambda>j. (30 * int j - int r, hz)) [1..<Suc n], (r + hz) mod 30))"

definition interp_rate_frame :: "nat \<Rightarrow> nat \<Rightarrow> nat \<Rightarrow> nat \<Rightarrow> (int \<times> nat) list \<times> nat \<times> nat" where
  "interp_rate_frame hz0 cap last0 r =
     (let hz = (if cap \<noteq> 0 \<and> hz0 > 30 * (cap + 1) then 30 * (cap + 1) else hz0);
          r0 = (if hz \<noteq> last0 then 0 else r);
          (w, r') = interp_rate_weights hz r0
      in (w, hz, r'))"

definition interp_rate_round :: "real \<Rightarrow> nat" where
  "interp_rate_round hz =
     (let n = (if hz > 0 then nat \<lfloor>hz + 0.5\<rfloor> else 0)
      in if n mod 10 = 9 then n + 1 else n)"

section \<open>The budget\<close>

definition INTERP_BUDGET_N :: nat where "INTERP_BUDGET_N = 31"
definition INTERP_BUDGET_SLOW :: real where "INTERP_BUDGET_SLOW = 35.5"
definition INTERP_BUDGET_ON_TIME :: real where "INTERP_BUDGET_ON_TIME = 34.5"
definition INTERP_BUDGET_TRIES :: nat where "INTERP_BUDGET_TRIES = 5"

record budget =
  bg_last :: "real list"
  bg_n :: nat
  bg_at :: nat
  bg_cut :: nat
  bg_top :: nat
  bg_tries :: nat
  bg_down :: bool
  bg_wait :: nat
  bg_held :: nat
  bg_stops :: nat
  bg_frames_off :: nat
  bg_frames_cut :: nat

text \<open>The insertion sort: a value moved down past the greater ones.\<close>

fun sift :: "real list \<Rightarrow> nat \<Rightarrow> real \<Rightarrow> real list" where
  "sift s 0 v = s[0 := v]"
| "sift s (Suc j) v = (if s ! j > v then sift (s[Suc j := s ! j]) j v else s[Suc j := v])"

definition sorted_times :: "real list \<Rightarrow> real list" where
  "sorted_times xs = fold (\<lambda>i s. sift s i (xs ! i)) [0..<INTERP_BUDGET_N] (replicate INTERP_BUDGET_N 0)"

definition interp_budget_push :: "real \<Rightarrow> budget \<Rightarrow> real \<times> budget" where
  "interp_budget_push ms b =
     (let b1 = b\<lparr>bg_last := (bg_last b)[bg_at b := ms], bg_at := (bg_at b + 1) mod INTERP_BUDGET_N,
                 bg_n := (if bg_n b < INTERP_BUDGET_N then bg_n b + 1 else bg_n b)\<rparr>
      in if bg_n b1 < INTERP_BUDGET_N then (-1, b1)
         else (sorted_times (bg_last b1) ! (INTERP_BUDGET_N div 2), b1))"

text \<open>The display's rate changed with images taken: what was given stays given.\<close>

definition rate_changed :: "nat \<Rightarrow> budget \<Rightarrow> budget" where
  "rate_changed asked b =
     (if bg_top b \<noteq> 0 \<and> asked \<noteq> bg_top b \<and> bg_cut b \<noteq> 0 then
        (let given = (if bg_cut b < bg_top b then bg_top b - bg_cut b else 0)
         in b\<lparr>bg_cut := asked - (if given < asked then given else asked)\<rparr>)
      else b)"

text \<open>The count to the next image back.\<close>

definition count_down :: "real \<Rightarrow> nat \<Rightarrow> budget \<Rightarrow> nat \<times> budget" where
  "count_down ms asked b =
     (let b' = (if ms > INTERP_BUDGET_ON_TIME then
                  (let most = 2 * (30 * 2 ^ bg_tries b)
                   in b\<lparr>bg_wait := (if bg_wait b + 2 > most then most else bg_wait b + 2)\<rparr>)
                else if bg_wait b > 0 then b\<lparr>bg_wait := bg_wait b - 1\<rparr>
                else b\<lparr>bg_cut := bg_cut b - 1, bg_held := 0, bg_down := False, bg_n := 0, bg_at := 0,
                       bg_wait := 30 * 2 ^ bg_tries b\<rparr>)
      in (asked - bg_cut b', b'))"

text \<open>A frame once the asked number of images is settled.\<close>

definition budget_frame :: "real \<Rightarrow> nat \<Rightarrow> budget \<Rightarrow> nat \<times> budget" where
  "budget_frame ms asked b1 =
     (if bg_cut b1 < asked then
        (case interp_budget_push ms b1 of (median, b2) \<Rightarrow>
           if median > INTERP_BUDGET_SLOW then
             (let b3 = b2\<lparr>bg_cut := bg_cut b2 + 1, bg_n := 0, bg_at := 0, bg_wait := 30 * 2 ^ bg_tries b2,
                    bg_tries := (if \<not> bg_down b2 \<and> bg_tries b2 < INTERP_BUDGET_TRIES
                                 then bg_tries b2 + 1 else bg_tries b2),
                    bg_down := True, bg_stops := bg_stops b2 + 1\<rparr>
              in (asked - bg_cut b3, b3))
           else if bg_cut b2 = 0 then
             (asked, b2\<lparr>bg_held := bg_held b2 + 1,
                      bg_tries := (if bg_held b2 + 1 = 300 then 0 else bg_tries b2)\<rparr>)
           else count_down ms asked (b2\<lparr>bg_frames_cut := bg_frames_cut b2 + 1\<rparr>))
      else count_down ms asked (b1\<lparr>bg_frames_off := bg_frames_off b1 + 1\<rparr>))"

definition interp_budget_step :: "real \<Rightarrow> nat \<Rightarrow> budget \<Rightarrow> nat \<times> budget" where
  "interp_budget_step ms asked0 b0 =
     (let asked = (if asked0 = 0 then 1 else asked0)
      in budget_frame ms asked ((rate_changed asked b0)\<lparr>bg_top := asked\<rparr>))"

section \<open>Every refresh gets its image\<close>

fun rate_run :: "nat \<Rightarrow> nat \<Rightarrow> nat \<Rightarrow> (int \<times> nat) list list \<times> nat" where
  "rate_run 0 hz r = ([], r)"
| "rate_run (Suc k) hz r =
     (case interp_rate_weights hz r of (w, r1) \<Rightarrow>
      case rate_run k hz r1 of (ws, r2) \<Rightarrow> (w # ws, r2))"

lemma held_rate_range: "30 \<le> held_rate hz \<and> held_rate hz \<le> 240"
  by (simp add: held_rate_def INTERP_RATE_MIN_def INTERP_RATE_MAX_def)

lemma rate_run_count:
  "rate_run k hz r = (ws, r') \<Longrightarrow> r < 30 \<Longrightarrow>
    30 * length (concat ws) + r' = r + k * held_rate hz \<and> r' < 30"
proof (induction k arbitrary: r ws)
  case (Suc k)
  let ?hz = "held_rate hz" and ?r1 = "(r + held_rate hz) mod 30"
  obtain ws1 where ws1: "rate_run k hz ?r1 = (ws1, r')" "ws = fst (interp_rate_weights hz r) # ws1"
    using Suc.prems(1) by (auto simp: interp_rate_weights_def Let_def split: prod.splits)
  have "30 * length (concat ws1) + r' = ?r1 + k * ?hz \<and> r' < 30"
    using Suc.IH [OF ws1(1)] by simp
  moreover have "length (fst (interp_rate_weights hz r)) = (r + ?hz) div 30"
    by (simp add: interp_rate_weights_def Let_def)
  moreover have "30 * ((r + ?hz) div 30) + ?r1 = r + ?hz" by (rule mult_div_mod_eq)
  moreover have "length (concat ws) = length (fst (interp_rate_weights hz r)) + length (concat ws1)"
    using ws1(2) by simp
  ultimately show ?case unfolding mult_Suc by linarith
qed simp

text \<open>C38: Over any thirty frames at one rate the frames together get exactly one image per
  refresh of the display, and the accumulator is back where it was; each frame's weights are a
  thirtieth of the rate apart, from above 0 to at most 1, and the last is the frame's own image
  exactly when the frame ends on a refresh.\<close>

theorem thirty_frames_fill_the_display:
  assumes "r < 30" "rate_run 30 hz r = (ws, r')" "interp_rate_weights hz r = (w, r1)"
  shows "length (concat ws) = held_rate hz \<and> r' = r
    \<and> w \<noteq> [] \<and> length w \<le> 8
    \<and> (\<forall>i<length w. snd (w ! i) = held_rate hz \<and> 0 < fst (w ! i) \<and> fst (w ! i) \<le> int (held_rate hz)
         \<and> fst (w ! i) = fst (w ! 0) + 30 * int i)
    \<and> (fst (last w) = int (held_rate hz) \<longleftrightarrow> r1 = 0)"
proof -
  let ?hz = "held_rate hz" and ?n = "(r + held_rate hz) div 30"
  have n: "1 \<le> ?n" "?n \<le> 8" "30 * ?n + (r + ?hz) mod 30 = r + ?hz"
    using held_rate_range [of hz] assms(1) mult_div_mod_eq [of 30 "r + ?hz"]
    by (simp_all add: Suc_le_eq div_greater_zero_iff less_mult_imp_div_less flip: less_Suc_eq_le)
  have w: "w = map (\<lambda>j. (30 * int j - int r, ?hz)) [1..<Suc ?n]" "r1 = (r + ?hz) mod 30"
    using assms(3) by (simp_all add: interp_rate_weights_def Let_def)
  have run: "30 * length (concat ws) + r' = r + 30 * ?hz" "r' < 30"
    using rate_run_count [OF assms(2,1)] by auto
  then have "(30 * length (concat ws) + r') mod 30 = (r + 30 * ?hz) mod 30" by (simp only:)
  then have "r' = r" using run(2) assms(1) by simp
  moreover from this have "length (concat ws) = ?hz" using run(1) by simp
  moreover have "last w = (30 * int ?n - int r, ?hz)"
    using n(1) by (simp add: w(1) last_map)
  moreover have len: "length w = ?n" by (simp add: w(1))
  moreover have wi: "w ! i = (30 * int (Suc i) - int r, ?hz)" if "i < length w" for i
    using that by (simp add: w(1) del: upt_Suc)
  moreover have "0 < fst (w ! i) \<and> fst (w ! i) \<le> int ?hz \<and> fst (w ! i) = fst (w ! 0) + 30 * int i"
    if "i < length w" for i
  proof -
    have "30 * (i + 1) \<le> 30 * ?n" using that len by (intro mult_le_mono2) simp
    then have "30 * (i + 1) \<le> r + ?hz" using n(3) by linarith
    moreover have "0 < length w" using that by linarith
    ultimately show ?thesis using wi [OF that] wi [of 0] assms(1) by simp
  qed
  moreover have "30 * int ?n - int r = int ?hz \<longleftrightarrow> r1 = 0"
    using n(3) unfolding w(2) by linarith
  moreover have "w \<noteq> []" using len n(1) by auto
  ultimately show ?thesis using n(2) by simp
qed

text \<open>At 85 Hz the first frame gets two images, at 30 and 60 of 85, and thirty frames 85.\<close>

theorem thirty_frames_fill_the_display_witness:
  "fst (interp_rate_weights 85 0) = [(30, 85), (60, 85)] \<and> length (concat (fst (rate_run 30 85 0))) = 85"
proof -
  obtain ws r' where ws: "rate_run 30 85 0 = (ws, r')" by fastforce
  obtain w r1 where w: "interp_rate_weights 85 0 = (w, r1)" by fastforce
  have "interp_rate_weights 85 0 = ([(30, 85), (60, 85)], 25)"
    by (simp add: interp_rate_weights_def held_rate_def INTERP_RATE_MIN_def INTERP_RATE_MAX_def upt_rec)
  then show ?thesis
    using thirty_frames_fill_the_display [OF _ ws w] ws
    by (simp add: held_rate_def INTERP_RATE_MIN_def INTERP_RATE_MAX_def)
qed

section \<open>The median\<close>

lemma sift_length [simp]: "length (sift s j v) = length s"
  by (induction s j v rule: sift.induct) simp_all

lemma sift_above: "j < k \<Longrightarrow> sift s j v ! k = s ! k"
  by (induction s j v rule: sift.induct) simp_all

lemma insort_below: "sorted ys \<Longrightarrow> \<forall>y\<in>set ys. y \<le> v \<Longrightarrow> insort v ys = ys @ [v :: real]"
proof (induction ys)
  case (Cons a ys)
  then have IH: "insort v ys = ys @ [v]" by simp
  show ?case
  proof (cases "v \<le> a")
    case True
    then have "insort v ys = v # ys" using Cons.prems by (intro insort_is_Cons) auto
    then show ?thesis using True IH Cons.prems by auto
  qed (use IH in simp)
qed simp

lemma insort_above: "v < x \<Longrightarrow> insort v (ys @ [x]) = insort v ys @ [x :: real]"
  by (induction ys) auto

lemma sift_insort:
  "j < length s \<Longrightarrow> sorted (take j s) \<Longrightarrow> take (Suc j) (sift s j v) = insort v (take j s)"
proof (induction s j v rule: sift.induct)
  case (1 s v)
  then show ?case by (cases s) simp_all
next
  case (2 s j v)
  have tk: "take (Suc j) s = take j s @ [s ! j]" using "2.prems"(1) by (simp add: take_Suc_conv_app_nth)
  then have so: "sorted (take j s)" "\<forall>y\<in>set (take j s). y \<le> s ! j"
    using "2.prems"(2) by (simp_all add: sorted_append)
  show ?case
  proof (cases "s ! j > v")
    case True
    let ?s = "s[Suc j := s ! j]"
    have "take (Suc (Suc j)) (sift ?s j v) = take (Suc j) (sift ?s j v) @ [sift ?s j v ! Suc j]"
      using "2.prems"(1) by (simp add: take_Suc_conv_app_nth)
    also have "\<dots> = insort v (take j s) @ [s ! j]"
      using "2.IH" [OF True] "2.prems"(1) so(1) sift_above [of j "Suc j" ?s v] by simp
    finally show ?thesis using True by (simp add: tk insort_above)
  next
    case False
    then have "\<forall>y\<in>set (take (Suc j) s). y \<le> v" using so(2) by (fastforce simp: tk)
    then have "insort v (take (Suc j) s) = take (Suc j) s @ [v]"
      using insort_below "2.prems"(2) by blast
    then show ?thesis using False "2.prems"(1) by (simp add: take_Suc_conv_app_nth)
  qed
qed

lemma sort_snoc: "sort (xs @ [v]) = insort v (sort (xs :: real list))"
proof -
  have "sort (xs @ [v]) = sort (v # xs)" by (rule properties_for_sort) (simp_all add: sorted_insort)
  then show ?thesis by simp
qed

text \<open>The code's insertion sort is the sorting of the list, so what it answers is the median.\<close>

lemma sorted_times_sort:
  assumes "length xs = 31"
  shows "sorted_times xs = sort xs"
proof -
  let ?f = "\<lambda>i s. sift s i (xs ! i)"
  have "length (fold ?f [0..<i] (replicate 31 0)) = 31
      \<and> take i (fold ?f [0..<i] (replicate 31 0)) = sort (take i xs)" if "i \<le> 31" for i
    using that
  proof (induction i)
    case (Suc i)
    let ?s = "fold ?f [0..<i] (replicate 31 0)"
    have s: "length ?s = 31" "take i ?s = sort (take i xs)" using Suc by auto
    have "take (Suc i) (sift ?s i (xs ! i)) = insort (xs ! i) (sort (take i xs))"
      using sift_insort [of i ?s "xs ! i"] s Suc.prems by simp
    also have "\<dots> = sort (take (Suc i) xs)"
      using Suc.prems assms by (simp add: take_Suc_conv_app_nth sort_snoc)
    finally show ?case using s by simp
  qed simp
  from this [of 31] show ?thesis
    using assms take_all [of "fold ?f [0..<31] (replicate 31 0)" 31]
    by (simp add: sorted_times_def INTERP_BUDGET_N_def)
qed

section \<open>The budget's invariant\<close>

definition budget_ok :: "budget \<Rightarrow> bool" where
  "budget_ok b \<longleftrightarrow> length (bg_last b) = 31 \<and> bg_n b \<le> 31 \<and> bg_at b < 31
     \<and> (bg_n b < 31 \<longrightarrow> bg_at b = bg_n b) \<and> bg_cut b \<le> bg_top b \<and> bg_tries b \<le> 5 \<and> bg_wait b \<le> 1920"

text \<open>Every frame time the ring holds was on time.\<close>

definition on_time :: "budget \<Rightarrow> bool" where
  "on_time b \<longleftrightarrow> (\<forall>i<bg_n b. bg_last b ! i \<le> INTERP_BUDGET_ON_TIME)"

lemma tries_power: "k \<le> 5 \<Longrightarrow> (30 :: nat) * 2 ^ k \<le> 960"
  using power_increasing [of k 5 "2 :: nat"] by simp

lemma push_ok:
  assumes "budget_ok b" "interp_budget_push ms b = (m, b')"
  shows "budget_ok b'" "bg_cut b' = bg_cut b" "bg_top b' = bg_top b" "bg_tries b' = bg_tries b"
    "bg_wait b' = bg_wait b" "bg_held b' = bg_held b"
    and "on_time b \<Longrightarrow> ms \<le> INTERP_BUDGET_ON_TIME \<Longrightarrow> on_time b' \<and> m \<le> INTERP_BUDGET_ON_TIME"
proof -
  let ?l = "(bg_last b)[bg_at b := ms]"
  have b': "b' = b\<lparr>bg_last := ?l, bg_at := (bg_at b + 1) mod 31, bg_n := (if bg_n b < 31 then bg_n b + 1 else bg_n b)\<rparr>"
    and m: "m = (if bg_n b' < 31 then -1 else sort ?l ! 15)"
    using assms sorted_times_sort [of ?l]
    by (auto simp: interp_budget_push_def Let_def INTERP_BUDGET_N_def budget_ok_def split: if_splits)
  show "budget_ok b'" using assms(1) by (auto simp: b' budget_ok_def mod_Suc)
  show "bg_cut b' = bg_cut b" "bg_top b' = bg_top b" "bg_tries b' = bg_tries b" "bg_wait b' = bg_wait b"
    "bg_held b' = bg_held b"
    by (simp_all add: b')
  assume o: "on_time b" "ms \<le> INTERP_BUDGET_ON_TIME"
  have o': "on_time b'"
    using o assms(1) by (auto simp: on_time_def b' budget_ok_def nth_list_update)
  moreover have "sort ?l ! 15 \<le> INTERP_BUDGET_ON_TIME" if "\<not> bg_n b' < 31"
  proof -
    have "bg_n b' = 31" "length ?l = 31" using that assms(1) by (auto simp: b' budget_ok_def split: if_splits)
    then have "\<forall>x\<in>set ?l. x \<le> INTERP_BUDGET_ON_TIME"
      using o' by (auto simp: on_time_def b' in_set_conv_nth)
    moreover have "sort ?l ! 15 \<in> set ?l"
      using nth_mem [of 15 "sort ?l"] \<open>length ?l = 31\<close> by simp
    ultimately show ?thesis by blast
  qed
  ultimately show "on_time b' \<and> m \<le> INTERP_BUDGET_ON_TIME"
    by (simp add: m INTERP_BUDGET_ON_TIME_def)
qed

text \<open>C39: From the all-zero start on, whatever the frame times and whatever rates the display
  asks for, the next frame gets what is asked less what is cut and never more than is asked, no
  more is cut than is asked, the ring stays inside its array and the counts inside their bounds.\<close>

theorem budget_step_ok:
  assumes "budget_ok b" "interp_budget_step ms asked b = (given, b')"
  shows "budget_ok b' \<and> bg_top b' = max asked 1 \<and> given = max asked 1 - bg_cut b' \<and> given \<le> max asked 1"
proof -
  let ?asked = "max asked 1"
  define b1 where "b1 = (rate_changed ?asked b)\<lparr>bg_top := ?asked\<rparr>"
  have b1: "budget_ok b1" "bg_top b1 = ?asked"
    using assms(1) by (auto simp: b1_def rate_changed_def budget_ok_def Let_def)
  have down: "budget_ok d' \<and> bg_top d' = ?asked \<and> g = ?asked - bg_cut d'"
    if d: "budget_ok d" "bg_top d = ?asked" "bg_cut d \<noteq> 0" "count_down ms ?asked d = (g, d')" for d g d'
  proof -
    have "30 * 2 ^ bg_tries d \<le> (960 :: nat)" using tries_power d(1) by (simp add: budget_ok_def)
    then show ?thesis using d by (auto simp: count_down_def budget_ok_def Let_def split: if_splits)
  qed
  have step: "interp_budget_step ms asked b = budget_frame ms ?asked b1"
  proof -
    have "(if asked = 0 then 1 else asked) = ?asked" by auto
    then show ?thesis by (simp only: interp_budget_step_def b1_def Let_def)
  qed
  have G: "budget_frame ms ?asked b1 = (given, b')" using assms(2) step by simp
  obtain m b2 where p: "interp_budget_push ms b1 = (m, b2)" by fastforce
  note push = push_ok [OF b1(1) p]
  have p960: "30 * 2 ^ bg_tries b2 \<le> (960 :: nat)" using tries_power push(1) by (simp add: budget_ok_def)
  have ok: "budget_ok (b\<lparr>bg_frames_cut := x\<rparr>) = budget_ok b" "budget_ok (b\<lparr>bg_frames_off := x\<rparr>) = budget_ok b"
    for b x by (simp_all add: budget_ok_def)
  show ?thesis
  proof (cases "bg_cut b1 < ?asked")
    case False
    then have "bg_cut b1 \<noteq> 0" by auto
    moreover have "count_down ms ?asked (b1\<lparr>bg_frames_off := bg_frames_off b1 + 1\<rparr>) = (given, b')"
      using G False by (simp add: budget_frame_def)
    ultimately show ?thesis using down [of "b1\<lparr>bg_frames_off := bg_frames_off b1 + 1\<rparr>" given b'] b1 by (simp add: ok)
  next
    case True
    consider (slow) "m > INTERP_BUDGET_SLOW" | (full) "\<not> m > INTERP_BUDGET_SLOW" "bg_cut b2 = 0"
      | (cut) "\<not> m > INTERP_BUDGET_SLOW" "bg_cut b2 \<noteq> 0" by blast
    then show ?thesis
    proof cases
      case slow
      then have e: "given = ?asked - (bg_cut b2 + 1)" "bg_cut b' = bg_cut b2 + 1" "bg_n b' = 0" "bg_at b' = 0"
        "bg_top b' = bg_top b2" "bg_last b' = bg_last b2" "bg_wait b' = 30 * 2 ^ bg_tries b2"
        "bg_tries b' = (if \<not> bg_down b2 \<and> bg_tries b2 < 5 then bg_tries b2 + 1 else bg_tries b2)"
        using True G p by (auto simp: budget_frame_def Let_def INTERP_BUDGET_TRIES_def)
      have "bg_cut b2 < ?asked" "bg_top b2 = ?asked" using push(2,3) True b1(2) by simp_all
      then show ?thesis using push(1) p960 by (simp add: budget_ok_def e)
    next
      case full
      then have e: "given = ?asked" "bg_cut b' = bg_cut b2" "bg_n b' = bg_n b2" "bg_at b' = bg_at b2"
        "bg_top b' = bg_top b2" "bg_last b' = bg_last b2" "bg_wait b' = bg_wait b2" "bg_tries b' \<le> bg_tries b2"
        using True G p by (auto simp: budget_frame_def)
      then show ?thesis using full push(1,3) b1(2) by (simp add: budget_ok_def)
    next
      case cut
      then have "count_down ms ?asked (b2\<lparr>bg_frames_cut := bg_frames_cut b2 + 1\<rparr>) = (given, b')"
        using G True p by (simp add: budget_frame_def)
      then show ?thesis
        using cut push(1-3) b1 down [of "b2\<lparr>bg_frames_cut := bg_frames_cut b2 + 1\<rparr>" given b'] by (simp add: ok)
    qed
  qed
qed

definition budget0 :: budget where
  "budget0 = \<lparr>bg_last = replicate 31 0, bg_n = 0, bg_at = 0, bg_cut = 0, bg_top = 0, bg_tries = 0,
    bg_down = False, bg_wait = 0, bg_held = 0, bg_stops = 0, bg_frames_off = 0, bg_frames_cut = 0\<rparr>"

text \<open>The first frame at 120 Hz, three images asked.\<close>

theorem budget_step_ok_witness:
  "budget_ok (snd (interp_budget_step 40 3 budget0)) \<and> fst (interp_budget_step 40 3 budget0) = 3"
proof -
  obtain g b where s: "interp_budget_step 40 3 budget0 = (g, b)" by fastforce
  have "budget_ok budget0" by (simp add: budget_ok_def budget0_def)
  note k = budget_step_ok [OF this s]
  have "g = 3"
    using s by (auto simp: interp_budget_step_def budget_frame_def rate_changed_def interp_budget_push_def
        budget0_def INTERP_BUDGET_N_def INTERP_BUDGET_SLOW_def Let_def)
  then show ?thesis using k s by simp
qed

end
