(* ===== verification/ElfCheck.thy ===== *)
theory ElfCheck
  imports Prelude "HOL-Library.Monad_Syntax"
begin

text \<open>
  runtime/elfcheck.c: a game library checked before it is loaded, from the bytes of its file.
  The file is whatever the player picked, so the point of the code is that no offset, size or
  name in it is believed outside the file. Every read of a table is therefore partial here:
  \<open>None\<close> is a read outside the bytes it is made of, \<open>Some None\<close> an accepted file and
  \<open>Some (Some r)\<close> a refusal, \<open>r\<close> saying which message with which arguments; the texts are
  left out. The file does not change while it is read and memory does not run out.
\<close>

section \<open>Reading\<close>

type_synonym bytes = "u8 list"

definition rd :: "bytes \<Rightarrow> nat \<Rightarrow> u8 option" where
  "rd b i = (if i < length b then Some (b ! i) else None)"

definition u16 :: "bytes \<Rightarrow> nat \<Rightarrow> nat option" where
  "u16 b i = do { x \<leftarrow> rd b i; y \<leftarrow> rd b (i + 1); Some (unat x + unat y * 2 ^ 8) }"

definition u32 :: "bytes \<Rightarrow> nat \<Rightarrow> nat option" where
  "u32 b i = do { lo \<leftarrow> u16 b i; hi \<leftarrow> u16 b (i + 2); Some (lo + hi * 2 ^ 16) }"

definition u64 :: "bytes \<Rightarrow> nat \<Rightarrow> nat option" where
  "u64 b i = do { lo \<leftarrow> u32 b i; hi \<leftarrow> u32 b (i + 4); Some (lo + hi * 2 ^ 32) }"

text \<open>\<open>n\<close> bytes of the file, or nothing (a NULL, not an error) when they are not all in it.\<close>

definition read_at :: "bytes \<Rightarrow> nat \<Rightarrow> nat \<Rightarrow> bytes option" where
  "read_at f off n =
     (if off > length f \<or> n > length f - off \<or> n > 64 * 2 ^ 20 then None
      else Some (take n (drop off f)))"

text \<open>The C string at a place of a table; outside it unless a terminator follows.\<close>

definition cstr_at :: "bytes \<Rightarrow> nat \<Rightarrow> string option" where
  "cstr_at b i = (if i < length b \<and> 0 \<in> set (drop i b)
     then Some (map (\<lambda>x. char_of (unat x)) (takeWhile (\<lambda>x. x \<noteq> 0) (drop i b))) else None)"

text \<open>\<open>memcmp\<close> with as many bytes as are given.\<close>

definition same_bytes :: "bytes \<Rightarrow> nat \<Rightarrow> bytes \<Rightarrow> bool option" where
  "same_bytes b i xs =
     (if i + length xs \<le> length b then Some (take (length xs) (drop i b) = xs) else None)"

section \<open>Names and records\<close>

record elf_want =
  w_machine :: nat
  w_exports :: "string list"
  w_libc :: "string list"
  w_record :: string
  w_runtime_soname :: string
  w_android :: bool
  w_dol :: "string option"

datatype refusal =
    Cannot_open | Not_a_library | Windows_file bool nat | Wrong_machine nat nat | Not_64_bit
  | A_program | Damaged | Small_pages nat | No_dynamic_symbols | Text_relocations
  | Built_for_linux string | Needs_library string | Not_this_runtime | No_record
  | Other_release nat string string | No_dol string | Other_dol string string
  | Needs_symbol string | No_table

text \<open>A Windows file's machine, as the ELF number it is named by; 0 for an unknown one.\<close>

definition pe_machine :: "nat \<Rightarrow> nat" where
  "pe_machine m = (if m = 0x14c then 3 else if m \<in> {0x1c0, 0x1c2, 0x1c4} then 40
     else if m = 0x8664 then 62 else if m = 0xaa64 then 183 else 0)"

text \<open>The value of a key in a record, its fields apart by spaces alone, cut to \<open>cap - 1\<close>.\<close>

function elf_record_field :: "string \<Rightarrow> string \<Rightarrow> nat \<Rightarrow> string option" where
  "elf_record_field p key cap =
     (if p = [] then None
      else let q = dropWhile (\<lambda>c. c = CHR '' '') p; k = length key
        in if take k q = key \<and> k < length q \<and> q ! k = CHR ''=''
           then Some (take (cap - 1) (takeWhile (\<lambda>c. c \<noteq> CHR '' '') (drop (k + 1) q)))
           else elf_record_field (dropWhile (\<lambda>c. c \<noteq> CHR '' '') q) key cap)"
  by pat_completeness auto
termination
proof (relation "measure (\<lambda>(p, key, cap). length p)", simp)
  fix p key :: string and cap :: nat and q and k :: nat
  assume p: "p \<noteq> []" and q: "q = dropWhile (\<lambda>c. c = CHR '' '') p"
  have "length q \<le> length p" by (simp add: q length_dropWhile_le)
  moreover have "length (dropWhile (\<lambda>c. c \<noteq> CHR '' '') q) < length q" if "q \<noteq> []"
  proof -
    have "hd q \<noteq> CHR '' ''" using hd_dropWhile [of "\<lambda>c. c = CHR '' ''" p] that q by simp
    then show ?thesis
      using that length_dropWhile_le [of "\<lambda>c. c \<noteq> CHR '' ''" "tl q"] by (cases q) auto
  qed
  ultimately show "((dropWhile (\<lambda>c. c \<noteq> CHR '' '') q, key, cap), (p, key, cap)) \<in> measure (\<lambda>(p, key, cap). length p)"
    using p by (cases "q = []") auto
qed

declare elf_record_field.simps [simp del]

definition listed :: "string \<Rightarrow> string list \<Rightarrow> bool" where
  "listed name xs = list_ex (\<lambda>x. name = x) xs"

text \<open>2 for a C library by its bare name, 1 with a version after it, 0 for neither.\<close>

fun c_library_in :: "string list \<Rightarrow> string \<Rightarrow> nat" where
  "c_library_in [] name = 0"
| "c_library_in (x # xs) name =
     (if take (length x) name = x \<and> length name = length x then 2
      else if take (length x) name = x \<and> length name > length x \<and> name ! length x = CHR ''.'' then 1
      else c_library_in xs name)"

definition c_library :: "string \<Rightarrow> nat" where
  "c_library = c_library_in [''libc.so'', ''libm.so'', ''libdl.so'']"

definition align4 :: "nat \<Rightarrow> nat" where "align4 n = (n + 3) div 4 * 4"

definition printable :: "u8 \<Rightarrow> char" where
  "printable x = (if x < 0x20 \<or> x > 0x7E then CHR ''?'' else char_of (unat x))"

text \<open>The length of a note's text: up to a terminator or the description's end.\<close>

function note_len :: "bytes \<Rightarrow> nat \<Rightarrow> nat \<Rightarrow> nat \<Rightarrow> nat option" where
  "note_len b desc descsz len =
     (if len < descsz then do { x \<leftarrow> rd b (desc + len); if x = 0 then Some len else note_len b desc descsz (len + 1) }
      else Some len)"
  by pat_completeness auto
termination by (relation "measure (\<lambda>(b, desc, descsz, len). descsz - len)") auto

declare note_len.simps [simp del]

text \<open>The record in a note section's bytes, made printable and cut to the buffer.\<close>

function note_record :: "bytes \<Rightarrow> nat \<Rightarrow> nat \<Rightarrow> string option option" where
  "note_record b place cap =
     (if place + 12 \<le> length b then do {
        namesz \<leftarrow> u32 b place;
        descsz \<leftarrow> u32 b (place + 4);
        let nm = place + 12; desc = nm + align4 namesz in
        if desc + descsz > length b then Some None
        else do {
          soa \<leftarrow> (if namesz = 4 then same_bytes b nm [0x53, 0x4F, 0x41, 0] else Some False);
          if soa then do {
            len \<leftarrow> note_len b desc descsz 0;
            Some (Some (map printable (take (if len \<ge> cap then cap - 1 else len) (drop desc b))))
          } else note_record b (desc + align4 descsz) cap
        }
      } else Some None)"
  by pat_completeness auto
termination
  by (relation "measure (\<lambda>(b, place, cap). length b - place)") (auto simp: align4_def)

declare note_record.simps [simp del]

section \<open>The check\<close>

text \<open>A stage's verdict: nothing to say, or the refusal it ends with.\<close>

type_synonym verdict = "refusal option option"

fun pages_loop :: "bytes \<Rightarrow> nat list \<Rightarrow> verdict" where
  "pages_loop ph [] = Some None"
| "pages_loop ph (i # is) = do {
     ty \<leftarrow> u32 ph (i * 56);
     al \<leftarrow> (if ty = 1 then u64 ph (i * 56 + 48) else Some 16384);
     if al < 16384 then Some (Some (Small_pages al)) else pages_loop ph is }"

record tables =
  t_dyn :: "bytes option"
  t_sym :: "bytes option"
  t_str :: "bytes option"
  t_note :: "bytes option"

definition section_step :: "bytes \<Rightarrow> bytes \<Rightarrow> nat \<Rightarrow> bytes \<Rightarrow> nat \<Rightarrow> tables \<Rightarrow> tables option" where
  "section_step f sh shnum shstr i t = do {
     ty \<leftarrow> u32 sh (i * 64 + 4);
     name \<leftarrow> u32 sh (i * 64);
     off \<leftarrow> u64 sh (i * 64 + 24);
     sz \<leftarrow> u64 sh (i * 64 + 32);
     if ty = 6 \<and> t_dyn t = None then Some (t\<lparr>t_dyn := read_at f off sz\<rparr>)
     else if ty = 11 \<and> t_sym t = None then do {
       link \<leftarrow> u32 sh (i * 64 + 40);
       let t1 = t\<lparr>t_sym := read_at f off sz\<rparr> in
       if t_sym t1 \<noteq> None \<and> link < shnum then do {
         strsz \<leftarrow> u64 sh (link * 64 + 32);
         stroff \<leftarrow> u64 sh (link * 64 + 24);
         Some (t1\<lparr>t_str := read_at f stroff strsz\<rparr>)
       } else Some t1
     }
     else if t_note t = None \<and> name < length shstr then do {
       nm \<leftarrow> cstr_at shstr name;
       Some (if nm = ''.note.soa'' then t\<lparr>t_note := read_at f off sz\<rparr> else t)
     }
     else Some t }"

fun sections_loop :: "bytes \<Rightarrow> bytes \<Rightarrow> nat \<Rightarrow> bytes \<Rightarrow> nat list \<Rightarrow> tables \<Rightarrow> tables option" where
  "sections_loop f sh shnum shstr [] t = Some t"
| "sections_loop f sh shnum shstr (i # is) t = do {
     t1 \<leftarrow> section_step f sh shnum shstr i t;
     sections_loop f sh shnum shstr is t1 }"

text \<open>The dynamic table's entries, up to the one that ends it.\<close>

fun textrel_loop :: "bytes \<Rightarrow> nat list \<Rightarrow> verdict" where
  "textrel_loop dyn [] = Some None"
| "textrel_loop dyn (i # is) = do {
     tag \<leftarrow> u64 dyn (i * 16);
     val \<leftarrow> u64 dyn (i * 16 + 8);
     if tag = 0 then Some None
     else if tag = 22 \<or> (tag = 30 \<and> val div 4 mod 2 = 1) then Some (Some Text_relocations)
     else textrel_loop dyn is }"

text \<open>A name of the string table, or the empty one where it is not in it.\<close>

definition name_at :: "bytes \<Rightarrow> nat \<Rightarrow> string option" where
  "name_at str i = (if i < length str then cstr_at str i else Some [])"

fun needed_loop :: "elf_want \<Rightarrow> bytes \<Rightarrow> bytes \<Rightarrow> nat list \<Rightarrow> bool \<Rightarrow> (refusal + bool) option" where
  "needed_loop w dyn str [] needs = Some (Inr needs)"
| "needed_loop w dyn str (i # is) needs = do {
     tag \<leftarrow> u64 dyn (i * 16);
     val \<leftarrow> u64 dyn (i * 16 + 8);
     name \<leftarrow> name_at str val;
     if tag = 0 then Some (Inr needs)
     else if tag \<noteq> 1 then needed_loop w dyn str is needs
     else if name = w_runtime_soname w then needed_loop w dyn str is True
     else if w_android w \<and> c_library name = 1 then Some (Inl (Built_for_linux name))
     else if c_library name = 0 then Some (Inl (Needs_library name))
     else needed_loop w dyn str is needs }"

definition field_or_empty :: "string \<Rightarrow> string \<Rightarrow> string" where
  "field_or_empty rec key = (case elf_record_field rec key 128 of None \<Rightarrow> [] | Some v \<Rightarrow> v)"

fun record_loop :: "elf_want \<Rightarrow> string \<Rightarrow> string list \<Rightarrow> nat \<Rightarrow> refusal option" where
  "record_loop w rec [] i = None"
| "record_loop w rec (key # keys) i =
     (let theirs = field_or_empty rec key; mine = field_or_empty (w_record w) key
      in if mine \<noteq> theirs then Some (Other_release i theirs mine) else record_loop w rec keys (i + 1))"

definition dol_check :: "elf_want \<Rightarrow> string \<Rightarrow> refusal option" where
  "dol_check w rec =
     (case w_dol w of None \<Rightarrow> None
      | Some dol \<Rightarrow>
          if dol = [] then None
          else let theirs = field_or_empty rec ''dol''
               in if theirs = [] then Some (No_dol dol)
                  else if theirs \<noteq> dol then Some (Other_dol theirs dol) else None)"

fun symbols_loop :: "elf_want \<Rightarrow> bytes \<Rightarrow> bytes \<Rightarrow> nat list \<Rightarrow> bool \<Rightarrow> (refusal + bool) option" where
  "symbols_loop w syms str [] has = Some (Inr has)"
| "symbols_loop w syms str (i # is) has = do {
     place \<leftarrow> u32 syms (i * 24);
     name \<leftarrow> name_at str place;
     shndx \<leftarrow> u16 syms (i * 24 + 6);
     if name = [] then symbols_loop w syms str is has
     else if shndx \<noteq> 0 then symbols_loop w syms str is (has \<or> name = ''soa_game'')
     else do {
       info \<leftarrow> rd syms (i * 24 + 4);
       if unat info div 16 = 2 then symbols_loop w syms str is has
       else if \<not> listed name (w_exports w) \<and> \<not> listed name (w_libc w) then Some (Inl (Needs_symbol name))
       else symbols_loop w syms str is has } }"

text \<open>What follows once the tables are there and the string table ends in a terminator.\<close>

definition check_tables :: "elf_want \<Rightarrow> bytes \<Rightarrow> bytes \<Rightarrow> bytes \<Rightarrow> bytes option \<Rightarrow> verdict" where
  "check_tables w dyn syms str note = (let entries = [0..<length dyn div 16] in do {
     rel \<leftarrow> textrel_loop dyn entries;
     if rel \<noteq> None then Some rel
     else do {
       needs \<leftarrow> needed_loop w dyn str entries False;
       case needs of Inl r \<Rightarrow> Some (Some r)
       | Inr False \<Rightarrow> Some (Some Not_this_runtime)
       | Inr True \<Rightarrow> do {
           rec \<leftarrow> (case note of None \<Rightarrow> Some None | Some b \<Rightarrow> note_record b 0 512);
           case rec of None \<Rightarrow> Some (Some No_record)
           | Some rec \<Rightarrow>
               (case record_loop w rec [''abi'', ''mode'', ''baked''] 0 of Some r \<Rightarrow> Some (Some r)
                | None \<Rightarrow>
               (case dol_check w rec of Some r \<Rightarrow> Some (Some r)
                | None \<Rightarrow> do {
                    has \<leftarrow> symbols_loop w syms str [0..<length syms div 24] False;
                    Some (case has of Inl r \<Rightarrow> Some r | Inr True \<Rightarrow> None | Inr False \<Rightarrow> Some No_table) })) } } })"

definition ends_in_nul :: "bytes \<Rightarrow> bool" where
  "ends_in_nul b \<longleftrightarrow> b \<noteq> [] \<and> b ! (length b - 1) = 0"

definition check_headers :: "elf_want \<Rightarrow> bytes \<Rightarrow> bytes \<Rightarrow> verdict" where
  "check_headers w f h = do {
     phoff \<leftarrow> u64 h 32;
     shoff \<leftarrow> u64 h 40;
     phnum \<leftarrow> u16 h 56;
     shnum \<leftarrow> u16 h 60;
     shstrndx \<leftarrow> u16 h 62;
     phsize \<leftarrow> u16 h 54;
     shsize \<leftarrow> u16 h 58;
     case (read_at f phoff (phnum * 56), read_at f shoff (shnum * 64)) of
       (Some ph, Some sh) \<Rightarrow>
         if phsize \<noteq> 56 \<or> shsize \<noteq> 64 \<or> shstrndx \<ge> shnum then Some (Some Damaged)
         else do {
           small \<leftarrow> pages_loop ph [0..<phnum];
           if small \<noteq> None then Some small
           else do {
             shstrsz \<leftarrow> u64 sh (shstrndx * 64 + 32);
             shstroff \<leftarrow> u64 sh (shstrndx * 64 + 24);
             case read_at f shstroff shstrsz of None \<Rightarrow> Some (Some Damaged)
             | Some shstr \<Rightarrow>
                 if \<not> ends_in_nul shstr then Some (Some Damaged)
                 else do {
                   t \<leftarrow> sections_loop f sh shnum shstr [0..<shnum]
                          \<lparr>t_dyn = None, t_sym = None, t_str = None, t_note = None\<rparr>;
                   case (t_dyn t, t_sym t, t_str t) of
                     (Some dyn, Some syms, Some str) \<Rightarrow>
                       if \<not> ends_in_nul str then Some (Some No_dynamic_symbols)
                       else check_tables w dyn syms str (t_note t)
                   | _ \<Rightarrow> Some (Some No_dynamic_symbols) } } }
     | _ \<Rightarrow> Some (Some Damaged) }"

text \<open>A file that is not ELF: a Windows one is named as one.\<close>

definition check_windows :: "bytes \<Rightarrow> bytes \<Rightarrow> verdict" where
  "check_windows f h = do {
     m \<leftarrow> rd h 0;
     z \<leftarrow> rd h 1;
     lfanew \<leftarrow> u32 h 60;
     case (if m = 0x4D \<and> z = 0x5A then read_at f lfanew 24 else None) of
       None \<Rightarrow> Some (Some Not_a_library)
     | Some pe \<Rightarrow> do {
         sig \<leftarrow> same_bytes pe 0 [0x50, 0x45, 0, 0];
         if \<not> sig then Some (Some Not_a_library)
         else do {
           chars \<leftarrow> u16 pe 22;
           mach \<leftarrow> u16 pe 4;
           Some (Some (Windows_file (chars div 0x2000 mod 2 = 1) (pe_machine mach))) } } }"

definition check :: "elf_want \<Rightarrow> bytes \<Rightarrow> verdict" where
  "check w f = (let h = take 64 f in
     if length h \<noteq> 64 then Some (Some Not_a_library)
     else do {
       elf \<leftarrow> same_bytes h 0 [0x7F, 0x45, 0x4C, 0x46];
       if \<not> elf then check_windows f h
       else do {
         order \<leftarrow> rd h 5;
         hi \<leftarrow> rd h 18;
         lo \<leftarrow> rd h 19;
         le \<leftarrow> u16 h 18;
         let machine = (if order = 2 then unat hi * 256 + unat lo else le) in
         if machine \<noteq> w_machine w then Some (Some (Wrong_machine machine (w_machine w)))
         else do {
           cls \<leftarrow> rd h 4;
           ty \<leftarrow> u16 h 16;
           if cls \<noteq> 2 \<or> order \<noteq> 1 then Some (Some Not_64_bit)
           else if ty \<noteq> 3 then Some (Some A_program)
           else check_headers w f h } } })"

text \<open>The file by its path: None where it cannot be opened.\<close>

definition elf_check :: "elf_want \<Rightarrow> bytes option \<Rightarrow> verdict" where
  "elf_check w contents =
     (case contents of None \<Rightarrow> Some (Some Cannot_open)
      | Some f \<Rightarrow> if length f < 64 then Some (Some Not_a_library) else check w f)"

section \<open>No read is outside the bytes\<close>

lemma rd_None [simp]: "rd b i = None \<longleftrightarrow> length b \<le> i"
  by (simp add: rd_def)

lemma u16_None [simp]: "u16 b i = None \<longleftrightarrow> length b < i + 2"
  by (auto simp: u16_def bind_eq_None_conv)

lemma u32_None [simp]: "u32 b i = None \<longleftrightarrow> length b < i + 4"
  by (auto simp: u32_def bind_eq_None_conv)

lemma u64_None [simp]: "u64 b i = None \<longleftrightarrow> length b < i + 8"
  by (auto simp: u64_def bind_eq_None_conv)

lemma same_bytes_None [simp]: "same_bytes b i xs = None \<longleftrightarrow> length b < i + length xs"
  by (auto simp: same_bytes_def)

lemma read_at_length: "read_at f off n = Some b \<Longrightarrow> length b = n"
  by (auto simp: read_at_def split: if_splits)

lemma nul_after: "ends_in_nul b \<Longrightarrow> i < length b \<Longrightarrow> 0 \<in> set (drop i b)"
proof -
  assume "ends_in_nul b" "i < length b"
  then have "0 = drop i b ! (length b - 1 - i)" "length b - 1 - i < length (drop i b)"
    by (auto simp: ends_in_nul_def)
  then show ?thesis by (metis nth_mem)
qed

lemma cstr_at_total: "ends_in_nul b \<Longrightarrow> i < length b \<Longrightarrow> cstr_at b i \<noteq> None"
  by (simp add: cstr_at_def nul_after)

lemma name_at_total: "ends_in_nul b \<Longrightarrow> name_at b i \<noteq> None"
  by (simp add: name_at_def cstr_at_total del: not_None_eq)

lemmas total_simps = bind_eq_None_conv name_at_total

text \<open>The tables' loops stay inside when each entry of the list of indices does.\<close>

lemma pages_loop_total: "\<forall>i\<in>set is. i * 56 + 56 \<le> length ph \<Longrightarrow> pages_loop ph is \<noteq> None"
  by (induction "is") (auto simp: total_simps simp del: not_None_eq)

lemma textrel_loop_total: "\<forall>i\<in>set is. i * 16 + 16 \<le> length dyn \<Longrightarrow> textrel_loop dyn is \<noteq> None"
  by (induction "is") (auto simp: total_simps simp del: not_None_eq)

lemma needed_loop_total:
  "ends_in_nul str \<Longrightarrow> \<forall>i\<in>set is. i * 16 + 16 \<le> length dyn \<Longrightarrow> needed_loop w dyn str is needs \<noteq> None"
  by (induction "is" arbitrary: needs) (auto simp: total_simps simp del: not_None_eq)

lemma symbols_loop_total:
  "ends_in_nul str \<Longrightarrow> \<forall>i\<in>set is. i * 24 + 24 \<le> length syms
     \<Longrightarrow> symbols_loop w syms str is has \<noteq> None"
  by (induction "is" arbitrary: has) (auto simp: total_simps simp del: not_None_eq)

lemma section_step_total:
  "ends_in_nul shstr \<Longrightarrow> length sh = shnum * 64 \<Longrightarrow> i < shnum \<Longrightarrow> section_step f sh shnum shstr i t \<noteq> None"
  by (auto simp: section_step_def total_simps cstr_at_total Let_def simp del: not_None_eq)

lemma sections_loop_total:
  "ends_in_nul shstr \<Longrightarrow> length sh = shnum * 64 \<Longrightarrow> \<forall>i\<in>set is. i < shnum
     \<Longrightarrow> sections_loop f sh shnum shstr is t \<noteq> None"
  by (induction "is" arbitrary: t) (auto simp: total_simps section_step_total simp del: not_None_eq)

lemma note_len_total: "desc + descsz \<le> length b \<Longrightarrow> note_len b desc descsz len \<noteq> None"
proof (induction "descsz - len" arbitrary: len rule: less_induct)
  case less
  then show ?case
    by (subst note_len.simps) (simp add: total_simps del: not_None_eq)
qed

lemma note_record_total: "note_record b place cap \<noteq> None"
proof (induction "length b - place" arbitrary: place rule: less_induct)
  case less
  show ?case
    by (subst note_record.simps)
      (auto simp: total_simps note_len_total less Let_def align4_def simp del: not_None_eq)
qed

text \<open>The same for the loops as they are called, over every whole entry of a table.\<close>

lemma whole_entry: "i < n div k \<Longrightarrow> i * k + k \<le> (n :: nat)"
  by (metis add.commute less_eq_div_iff_mult_less_eq mult_Suc Suc_leI div_0 div_by_0 gr0I not_less0)

lemma dynamic_loops_total:
  "textrel_loop dyn [0..<length dyn div 16] \<noteq> None"
  "ends_in_nul str \<Longrightarrow> needed_loop w dyn str [0..<length dyn div 16] needs \<noteq> None"
  by (simp_all add: textrel_loop_total needed_loop_total whole_entry del: not_None_eq)

lemma all_symbols_total:
  "ends_in_nul str \<Longrightarrow> symbols_loop w syms str [0..<length syms div 24] has \<noteq> None"
  by (simp add: symbols_loop_total whole_entry del: not_None_eq)

lemma check_tables_total:
  assumes "ends_in_nul str"
  shows "check_tables w dyn syms str note \<noteq> None"
proof -
  obtain r where "(case note of None \<Rightarrow> Some None | Some b \<Rightarrow> note_record b 0 512) = Some r"
    using note_record_total by (cases "note") (simp, metis not_None_eq option.simps(5))
  moreover obtain v needs where "textrel_loop dyn [0..<length dyn div 16] = Some v"
      "needed_loop w dyn str [0..<length dyn div 16] False = Some needs"
    using dynamic_loops_total assms by (meson not_None_eq)
  moreover obtain has where "symbols_loop w syms str [0..<length syms div 24] False = Some has"
    using all_symbols_total [OF assms] by (meson not_None_eq)
  ultimately show ?thesis
    by (simp add: check_tables_def split: option.split sum.split bool.split)
qed

lemma check_headers_total:
  assumes h: "length h = 64"
  shows "check_headers w f h \<noteq> None"
proof -
  have "pages_loop ph [0..<n] \<noteq> None" if "read_at f off (n * 56) = Some ph" for off n ph
    using read_at_length [OF that] by (intro pages_loop_total) auto
  moreover have "sections_loop f sh n shstr [0..<n] t \<noteq> None"
    if "read_at f off (n * 64) = Some sh" "ends_in_nul shstr" for off n sh shstr t
    using read_at_length [OF that(1)] that(2) by (intro sections_loop_total) auto
  ultimately show ?thesis
    using h by (auto simp: check_headers_def total_simps check_tables_total Let_def
        simp del: not_None_eq split: option.splits dest!: read_at_length)
qed

lemma check_windows_total: "length h = 64 \<Longrightarrow> check_windows f h \<noteq> None"
  by (auto simp: check_windows_def total_simps simp del: not_None_eq split: option.splits if_splits
      dest!: read_at_length)

text \<open>C40: Whatever the file holds, the check of a library ends with an acceptance or a refusal and
  never reads outside the header, a table, a name or the note it took from the file.\<close>

theorem check_never_reads_outside: "elf_check w contents \<noteq> None"
proof -
  have "check w f \<noteq> None" for f
    by (auto simp: check_def total_simps check_headers_total check_windows_total Let_def
        simp del: not_None_eq)
  then show ?thesis by (simp add: elf_check_def split: option.split)
qed

end
