(* ===== verification/Clock.thy ===== *)
theory Clock
  imports Prelude
begin

unbundle bit_operations_syntax

text \<open>
  runtime/clock.c: the guest's clock. The statics are a record; the host's time is the argument
  of the reads, as it is in the code. The note of a gap is the parameter \<open>g_gap_note\<close> of the
  state (whether one is set) with the gaps it was told of in \<open>gap_notes\<close>. A pause request is a
  word of reasons that other threads set by compare-and-swap, so setting one is one step.
\<close>

section \<open>State and operations\<close>

definition NS :: u64 where "NS = 1000000000"

definition CLOCK_PAUSE_FOCUS :: u32 where "CLOCK_PAUSE_FOCUS = 1"
definition CLOCK_PAUSE_MENU :: u32 where "CLOCK_PAUSE_MENU = 2"

record clock =
  g_started :: bool
  g_last_host_ns :: u64
  g_guest_ns :: u64
  g_origin_host_ns :: u64
  g_speed :: u32
  g_gap_ns :: u64
  g_epoch :: u32
  g_gaps :: u64
  g_excluded_ns :: u64
  g_pause_req :: u32
  g_paused :: bool
  g_gap_note :: bool
  gap_notes :: "u64 list"

definition clock_reset :: "clock \<Rightarrow> clock" where
  "clock_reset s = s\<lparr>g_started := False, g_last_host_ns := 0, g_guest_ns := 0, g_origin_host_ns := 0,
     g_speed := 1, g_gap_ns := 2000000000, g_epoch := 0, g_gaps := 0, g_excluded_ns := 0,
     g_pause_req := 0, g_paused := False, g_gap_note := False\<rparr>"

definition clock_configure :: "u32 \<Rightarrow> int \<Rightarrow> bool \<Rightarrow> clock \<Rightarrow> clock" where
  "clock_configure speed gap_ms noted s =
     s\<lparr>g_speed := (if speed \<noteq> 0 then speed else 1),
       g_gap_ns := (if gap_ms \<ge> 0 then of_int gap_ms * 1000000 else g_gap_ns s),
       g_gap_note := noted\<rparr>"

text \<open>The host's counter of \<open>f\<close> ticks a second in nanoseconds, in whole numbers.\<close>

definition clock_host_ns :: "u64 \<Rightarrow> u64 \<Rightarrow> u64" where
  "clock_host_ns f c = c div f * NS + c mod f * NS div f"

text \<open>A read at the change of the pause: up to its start, then nothing until its end.\<close>

definition pause_edge :: "u64 \<Rightarrow> clock \<Rightarrow> clock" where
  "pause_edge host_ns s =
     (if \<not> g_paused s then
        s\<lparr>g_guest_ns := (if host_ns > g_last_host_ns s
                         then g_guest_ns s + (host_ns - g_last_host_ns s) * ucast (g_speed s) else g_guest_ns s),
          g_last_host_ns := host_ns, g_paused := True\<rparr>
      else
        s\<lparr>g_excluded_ns := (if host_ns > g_last_host_ns s
                            then g_excluded_ns s + (host_ns - g_last_host_ns s) else g_excluded_ns s),
          g_last_host_ns := host_ns, g_paused := False, g_epoch := g_epoch s + 1\<rparr>)"

text \<open>A read of a running clock at a later host time: the span counts unless it is a gap.\<close>

definition clock_span :: "u64 \<Rightarrow> clock \<Rightarrow> clock" where
  "clock_span host_ns s0 =
     (let d = host_ns - g_last_host_ns s0; s = s0\<lparr>g_last_host_ns := host_ns\<rparr>
      in if g_gap_ns s \<noteq> 0 \<and> d > g_gap_ns s then
           s\<lparr>g_gaps := g_gaps s + 1, g_excluded_ns := g_excluded_ns s + d, g_epoch := g_epoch s + 1,
             gap_notes := (if g_gap_note s then gap_notes s @ [d] else gap_notes s)\<rparr>
         else s\<lparr>g_guest_ns := g_guest_ns s + d * ucast (g_speed s)\<rparr>)"

definition clock_advance_at :: "u64 \<Rightarrow> clock \<Rightarrow> u64 \<times> clock" where
  "clock_advance_at host_ns s =
     (let s' = (if \<not> g_started s then
                  s\<lparr>g_started := True, g_last_host_ns := host_ns, g_origin_host_ns := host_ns\<rparr>
                else if (g_pause_req s \<noteq> 0) \<noteq> g_paused s then pause_edge host_ns s
                else if g_paused s then s
                else if host_ns \<le> g_last_host_ns s then s
                else clock_span host_ns s)
      in (g_guest_ns s', s'))"

definition clock_peek_at :: "u64 \<Rightarrow> clock \<Rightarrow> u64" where
  "clock_peek_at host_ns s =
     (if \<not> g_started s \<or> g_paused s \<or> host_ns \<le> g_last_host_ns s then g_guest_ns s
      else let d = host_ns - g_last_host_ns s
        in if g_gap_ns s \<noteq> 0 \<and> d > g_gap_ns s then g_guest_ns s else g_guest_ns s + d * ucast (g_speed s))"

definition clock_set_speed_at :: "u32 \<Rightarrow> u64 \<Rightarrow> clock \<Rightarrow> clock" where
  "clock_set_speed_at speed host_ns s0 =
     (let s = snd (clock_advance_at host_ns s0)
      in s\<lparr>g_speed := (if speed \<noteq> 0 then speed else 1), g_epoch := g_epoch s + 1\<rparr>)"

definition clock_pause_for :: "u32 \<Rightarrow> bool \<Rightarrow> clock \<Rightarrow> clock" where
  "clock_pause_for reason on s =
     s\<lparr>g_pause_req := (if on then g_pause_req s OR reason else g_pause_req s AND NOT reason)\<rparr>"

definition clock_pause :: "bool \<Rightarrow> clock \<Rightarrow> clock" where
  "clock_pause on = clock_pause_for CLOCK_PAUSE_FOCUS on"

definition clock_pause_requested :: "clock \<Rightarrow> u32" where
  "clock_pause_requested s = g_pause_req s"

text \<open>Nanoseconds between the first read and an earlier host time, 0 before the first read.\<close>

definition clock_origin_ns :: "u64 \<Rightarrow> clock \<Rightarrow> u64" where
  "clock_origin_ns since s =
     (if g_started s \<and> g_origin_host_ns s > since then g_origin_host_ns s - since else 0)"

section \<open>Whole numbers\<close>

text \<open>The counter's nanoseconds are the exact quotient, rounded down, as long as they and a
  second's worth of ticks fit 64 bits.\<close>

lemma unat_lt2p_u32: "unat (w :: u32) < 4294967296"
  using unsigned_less [of w] by simp

lemma unat_mult_u64: "unat x * unat y < 2 ^ 64 \<Longrightarrow> unat (x * y) = unat x * unat (y :: u64)"
  using unat_mult_lem [of x y] by simp

lemma unat_add_u64: "unat x + unat y < 2 ^ 64 \<Longrightarrow> unat (x + y) = unat x + unat (y :: u64)"
  using unat_add_lem [of x y] by simp

lemma div_scaled_split:
  fixes f c k :: nat
  assumes "f > 0"
  shows "c * k div f = c div f * k + c mod f * k div f"
proof -
  have "c * k = (c div f * f + c mod f) * k" by simp
  also have "\<dots> = c mod f * k + (c div f * k) * f" by (simp only: algebra_simps)
  finally show ?thesis using assms by simp
qed

lemma clock_host_ns_exact:
  assumes "f \<noteq> 0" "unat f * 10 ^ 9 < 2 ^ 64" "unat c * 10 ^ 9 div unat f < 2 ^ 64"
  shows "unat (clock_host_ns f c) = unat c * 10 ^ 9 div unat f"
proof -
  have f: "unat f > 0" using assms(1) by (simp add: unat_gt_0)
  have NS: "unat NS = 10 ^ 9" by (simp add: NS_def)
  have split: "unat c * 10 ^ 9 div unat f = unat (c div f) * unat NS + unat (c mod f) * unat NS div unat f"
    using div_scaled_split [OF f, of "unat c" "10 ^ 9"] by (simp only: unat_div unat_mod NS)
  have "unat (c mod f) * unat NS \<le> unat f * 10 ^ 9"
    using f by (intro mult_le_mono) (simp_all add: unat_mod less_imp_le NS)
  then have "unat (c mod f * NS) = unat (c mod f) * unat NS"
    using assms(2) by (intro unat_mult_u64) linarith
  then have 1: "unat (c mod f * NS div f) = unat (c mod f) * unat NS div unat f" by (simp only: unat_div)
  have 2: "unat (c div f * NS) = unat (c div f) * unat NS"
    using assms(3) split by (intro unat_mult_u64) linarith
  show ?thesis
    unfolding clock_host_ns_def using assms(3) by (simp only: split 1 2 unat_add_u64)
qed

section \<open>Guest time is host time less what is left out\<close>

text \<open>A run of reads and pause requests, at one speed; host times do not go back.\<close>

datatype clock_op = Read u64 | Pause u32 bool

fun clock_do :: "clock_op \<Rightarrow> clock \<Rightarrow> clock" where
  "clock_do (Read t) s = snd (clock_advance_at t s)"
| "clock_do (Pause reason on) s = clock_pause_for reason on s"

fun clock_run :: "clock_op list \<Rightarrow> clock \<Rightarrow> clock" where
  "clock_run [] s = s"
| "clock_run (x # xs) s = clock_run xs (clock_do x s)"

fun reads_rise :: "u64 \<Rightarrow> clock_op list \<Rightarrow> u64 \<Rightarrow> bool" where
  "reads_rise lo [] hi \<longleftrightarrow> lo \<le> hi"
| "reads_rise lo (Read t # xs) hi \<longleftrightarrow> lo \<le> t \<and> reads_rise t xs hi"
| "reads_rise lo (Pause reason on # xs) hi \<longleftrightarrow> reads_rise lo xs hi"

lemma reads_rise_le: "reads_rise lo xs hi \<Longrightarrow> lo \<le> hi"
  by (induction lo xs hi rule: reads_rise.induct) auto

text \<open>The counters have room up to host time \<open>hi\<close>, and the account of two states.\<close>

definition clock_room :: "u64 \<Rightarrow> clock \<Rightarrow> bool" where
  "clock_room hi s \<longleftrightarrow> unat (g_excluded_ns s) + (unat hi - unat (g_last_host_ns s)) < 2 ^ 64
     \<and> unat (g_guest_ns s) + unat (g_speed s) * (unat hi - unat (g_last_host_ns s)) < 2 ^ 64"

definition elapsed :: "clock \<Rightarrow> clock \<Rightarrow> nat" where
  "elapsed s s' = unat (g_last_host_ns s') - unat (g_last_host_ns s)"

definition left_out :: "clock \<Rightarrow> clock \<Rightarrow> nat" where
  "left_out s s' = unat (g_excluded_ns s') - unat (g_excluded_ns s)"

definition accounts :: "clock \<Rightarrow> clock \<Rightarrow> bool" where
  "accounts s s' \<longleftrightarrow> g_started s' \<and> g_speed s' = g_speed s \<and> g_last_host_ns s \<le> g_last_host_ns s'
     \<and> g_excluded_ns s \<le> g_excluded_ns s' \<and> left_out s s' \<le> elapsed s s'
     \<and> unat (g_guest_ns s') = unat (g_guest_ns s) + unat (g_speed s) * (elapsed s s' - left_out s s')"

lemma accounts_trans:
  assumes "accounts r s" "accounts s t"
  shows "accounts r t"
proof -
  have le: "unat (g_last_host_ns r) \<le> unat (g_last_host_ns s)" "unat (g_last_host_ns s) \<le> unat (g_last_host_ns t)"
      "unat (g_excluded_ns r) \<le> unat (g_excluded_ns s)" "unat (g_excluded_ns s) \<le> unat (g_excluded_ns t)"
    using assms by (auto simp: accounts_def word_le_nat_alt)
  have e: "elapsed r t = elapsed r s + elapsed s t" "left_out r t = left_out r s + left_out s t"
    using le by (auto simp: elapsed_def left_out_def)
  have "elapsed r t - left_out r t = (elapsed r s - left_out r s) + (elapsed s t - left_out s t)"
    using assms by (auto simp: accounts_def e)
  then have "unat (g_speed r) * (elapsed r t - left_out r t)
      = unat (g_speed r) * (elapsed r s - left_out r s) + unat (g_speed r) * (elapsed s t - left_out s t)"
    by (simp only: distrib_left)
  moreover have "left_out r t \<le> elapsed r t" using assms by (auto simp: accounts_def e)
  ultimately show ?thesis using assms by (auto simp: accounts_def)
qed

lemma accounts_counts:
  assumes "accounts r s" "accounts s t"
  shows "elapsed r t - left_out r t = (elapsed r s - left_out r s) + (elapsed s t - left_out s t)"
  using assms by (auto simp: accounts_def elapsed_def left_out_def word_le_nat_alt)

text \<open>A read of a started clock changes its times in one of three ways.\<close>

lemma clock_read_cases:
  assumes "g_started s" "g_last_host_ns s \<le> t" "s' = snd (clock_advance_at t s)"
  shows "g_started s' \<and> g_speed s' = g_speed s \<and>
    (g_last_host_ns s' = g_last_host_ns s \<and> g_guest_ns s' = g_guest_ns s \<and> g_excluded_ns s' = g_excluded_ns s
     \<or> g_last_host_ns s' = t \<and> g_excluded_ns s' = g_excluded_ns s
       \<and> g_guest_ns s' = g_guest_ns s + (t - g_last_host_ns s) * ucast (g_speed s)
     \<or> g_last_host_ns s' = t \<and> g_guest_ns s' = g_guest_ns s
       \<and> g_excluded_ns s' = g_excluded_ns s + (t - g_last_host_ns s))"
  using assms by (auto simp: clock_advance_at_def pause_edge_def clock_span_def Let_def)

lemma clock_read_accounts:
  assumes "g_started s" "g_last_host_ns s \<le> t" "t \<le> hi" "clock_room hi s"
  shows "accounts s (snd (clock_advance_at t s)) \<and> clock_room hi (snd (clock_advance_at t s))
    \<and> g_last_host_ns (snd (clock_advance_at t s)) \<le> t"
proof -
  let ?s = "snd (clock_advance_at t s)" and ?d = "t - g_last_host_ns s"
  have le: "unat (g_last_host_ns s) \<le> unat t" "unat t \<le> unat hi"
    using assms by (simp_all add: word_le_nat_alt)
  have d: "unat ?d = unat t - unat (g_last_host_ns s)" using assms(2) by (rule unat_sub)
  have sp: "unat (ucast (g_speed s) :: u64) = unat (g_speed s)" proof -
    have "unat (g_speed s) < 2 ^ 64" using unat_lt2p_u32 [of "g_speed s"] by simp
    then show ?thesis by (simp only: unsigned_ucast_eq take_bit_eq_mod) simp
  qed
  have room: "unat (g_speed s) * unat ?d + unat (g_speed s) * (unat hi - unat t)
      = unat (g_speed s) * (unat hi - unat (g_last_host_ns s))"
    using le by (simp add: d flip: distrib_left)
  have guest: "unat (g_guest_ns s + ?d * ucast (g_speed s)) = unat (g_guest_ns s) + unat (g_speed s) * unat ?d"
    using assms(4) room by (simp add: clock_room_def unat_add_u64 unat_mult_u64 sp mult.commute)
  have excl: "unat (g_excluded_ns s + ?d) = unat (g_excluded_ns s) + unat ?d"
    using assms(4) [unfolded clock_room_def, THEN conjunct1] le d by (intro unat_add_u64) linarith
  show ?thesis
    using clock_read_cases [OF assms(1,2) refl] assms(1-4) le room guest excl
    by (auto simp: accounts_def clock_room_def elapsed_def left_out_def word_le_nat_alt d)
qed

lemma clock_pause_accounts:
  "g_started s \<Longrightarrow> accounts s (clock_pause_for reason on s)"
  "clock_room hi (clock_pause_for reason on s) = clock_room hi s"
  "g_last_host_ns (clock_pause_for reason on s) = g_last_host_ns s"
  by (simp_all add: clock_pause_for_def accounts_def clock_room_def elapsed_def left_out_def)

text \<open>What of the host's time the guest should see, told from the reads and requests alone: \<open>prev\<close> is the
  time of the read before, \<open>held\<close> whether a pause was asked for at that read, \<open>req\<close> the reasons held now.
  A span under a pause does not count, nor does a gap, a span longer than the threshold (0: no rule) up to
  a read at which no pause is asked for; every other does, the one up to the pause's start in full.\<close>

fun counted_time :: "u64 \<Rightarrow> u64 \<Rightarrow> bool \<Rightarrow> u32 \<Rightarrow> clock_op list \<Rightarrow> nat" where
  "counted_time gap prev held req [] = 0"
| "counted_time gap prev held req (Read t # xs) =
     (let d = unat t - unat prev; is_gap = (gap \<noteq> 0 \<and> unat gap < d)
      in (if held \<or> req = 0 \<and> is_gap then 0 else d)) + counted_time gap t (req \<noteq> 0) req xs"
| "counted_time gap prev held req (Pause reason on # xs) =
     counted_time gap prev held (if on then req OR reason else req AND NOT reason) xs"

lemma reads_rise_mono: "lo' \<le> lo \<Longrightarrow> reads_rise lo xs hi \<Longrightarrow> reads_rise lo' xs hi"
  by (induction lo xs hi arbitrary: lo' rule: reads_rise.induct) auto

text \<open>The read before, as the state knows it.\<close>

definition read_before :: "u64 \<Rightarrow> clock \<Rightarrow> bool" where
  "read_before prev s \<longleftrightarrow> (if g_paused s then g_last_host_ns s \<le> prev else g_last_host_ns s = prev)"

lemma read_before_step:
  assumes "g_started s" "read_before prev s" "prev \<le> t"
  shows "read_before t (snd (clock_advance_at t s))"
    and "g_paused (snd (clock_advance_at t s)) \<longleftrightarrow> g_pause_req s \<noteq> 0"
    and "g_pause_req (snd (clock_advance_at t s)) = g_pause_req s" "g_gap_ns (snd (clock_advance_at t s)) = g_gap_ns s"
  using assms by (auto simp: read_before_def clock_advance_at_def pause_edge_def clock_span_def Let_def)

lemma accounts_count:
  assumes "g_started s" "read_before prev s" "prev \<le> t" "accounts s (snd (clock_advance_at t s))"
  shows "elapsed s (snd (clock_advance_at t s)) - left_out s (snd (clock_advance_at t s))
     = counted_time (g_gap_ns s) prev (g_paused s) (g_pause_req s) [Read t]"
proof -
  let ?d = "t - g_last_host_ns s" and ?s = "snd (clock_advance_at t s)"
  have le: "g_last_host_ns s \<le> t" using assms(2,3) by (auto simp: read_before_def split: if_splits)
  have d: "unat ?d = unat t - unat (g_last_host_ns s)" using le by (rule unat_sub)
  have "unat (x + ?d) - unat x = unat ?d" if "x \<le> x + ?d" for x
    using unat_sub [OF that] by simp
  moreover have "g_excluded_ns s \<le> g_excluded_ns ?s" using assms(4) by (simp add: accounts_def)
  ultimately have excl: "left_out s ?s = unat ?d" if "g_excluded_ns ?s = g_excluded_ns s + ?d"
    using that by (simp add: left_out_def)
  have none: "left_out s ?s = 0" if "g_excluded_ns ?s = g_excluded_ns s" using that by (simp add: left_out_def)
  have move: "elapsed s ?s = unat ?d" if "g_last_host_ns ?s = t" using that by (simp add: elapsed_def d)
  have stay: "elapsed s ?s = 0" if "g_last_host_ns ?s = g_last_host_ns s" using that by (simp add: elapsed_def)
  show ?thesis
  proof (cases "g_paused s")
    case True
    then have "counted_time (g_gap_ns s) prev (g_paused s) (g_pause_req s) [Read t] = 0" by simp
    moreover have "elapsed s ?s = 0 \<or> left_out s ?s = unat ?d \<and> elapsed s ?s = unat ?d"
    proof (cases "g_pause_req s = 0 \<and> g_last_host_ns s < t")
      case on: True
      then have "?s = pause_edge t s" using assms(1) True by (simp add: clock_advance_at_def Let_def)
      then show ?thesis using on True excl move by (simp add: pause_edge_def)
    next
      case False
      then have "g_last_host_ns ?s = g_last_host_ns s" using assms(1) True le by (auto simp: clock_advance_at_def pause_edge_def Let_def)
      then show ?thesis using stay by simp
    qed
    ultimately show ?thesis by auto
  next
    case False
    then have prev: "prev = g_last_host_ns s" using assms(2) by (simp add: read_before_def)
    let ?gap = "g_gap_ns s \<noteq> 0 \<and> g_gap_ns s < ?d"
    have c: "counted_time (g_gap_ns s) prev (g_paused s) (g_pause_req s) [Read t] = (if g_pause_req s = 0 \<and> ?gap then 0 else unat ?d)"
      using False by (simp add: prev d word_less_nat_alt Let_def)
    show ?thesis
    proof (cases "g_pause_req s = 0")
      case True
      show ?thesis
      proof (cases "g_last_host_ns s < t")
        case gt: True
        then have "?s = clock_span t s" using assms(1) True False by (simp add: clock_advance_at_def Let_def)
        then show ?thesis using c True excl none move by (cases ?gap) (simp_all add: clock_span_def Let_def)
      next
        case False
        then have "t = g_last_host_ns s" using le by simp
        then show ?thesis using c True \<open>\<not> g_paused s\<close> assms(1) by (simp add: clock_advance_at_def elapsed_def Let_def)
      qed
    next
      case req: False
      then have "?s = pause_edge t s" using assms(1) False by (simp add: clock_advance_at_def Let_def)
      then show ?thesis using c req False none move by (simp add: pause_edge_def)
    qed
  qed
qed

text \<open>C13: Over any reads and pause requests from a started clock, at one speed and with host times that do
  not go back, guest time grows by exactly the speed times the counted host time: every span between two
  reads, except the spans under a pause and the gaps longer than the threshold. The rest of the host time
  that passed is what the clock reports as left out, so guest time never goes back and never runs ahead of
  the host's.\<close>

theorem guest_time_accounts:
  assumes "g_started s" "g_last_host_ns s \<le> lo" "reads_rise lo ops hi" "clock_room hi s"
  shows "let s' = clock_run ops s;
             counted = counted_time (g_gap_ns s) (g_last_host_ns s) (g_paused s) (g_pause_req s) ops
    in unat (g_guest_ns s') = unat (g_guest_ns s) + unat (g_speed s) * counted
      \<and> elapsed s s' = counted + left_out s s' \<and> g_last_host_ns s' \<le> hi"
proof -
  have "accounts s (clock_run ops s) \<and> g_last_host_ns (clock_run ops s) \<le> hi
      \<and> elapsed s (clock_run ops s) - left_out s (clock_run ops s) = counted_time (g_gap_ns s) prev (g_paused s) (g_pause_req s) ops"
    if "g_started s" "read_before prev s" "reads_rise prev ops hi" "clock_room hi s" for prev s
    using that
  proof (induction ops arbitrary: s prev)
    case Nil
    then show ?case by (auto simp: accounts_def elapsed_def left_out_def read_before_def split: if_splits)
  next
    case (Cons x xs)
    show ?case
    proof (cases x)
      case (Read t)
      let ?s = "snd (clock_advance_at t s)"
      have t: "prev \<le> t" "reads_rise t xs hi" "t \<le> hi" using Cons.prems Read reads_rise_le by auto
      moreover have "g_last_host_ns s \<le> prev" using Cons.prems(2) by (auto simp: read_before_def split: if_splits)
      ultimately have r: "accounts s ?s" "clock_room hi ?s"
        using clock_read_accounts [of s t hi] Cons.prems by auto
      note b = read_before_step [OF Cons.prems(1,2) t(1)]
      have ih: "accounts ?s (clock_run xs ?s)" "g_last_host_ns (clock_run xs ?s) \<le> hi"
        "elapsed ?s (clock_run xs ?s) - left_out ?s (clock_run xs ?s)
          = counted_time (g_gap_ns s) t (g_pause_req s \<noteq> 0) (g_pause_req s) xs"
        using Cons.IH [OF _ b(1) t(2) r(2)] r(1) b by (auto simp: accounts_def)
      note c = accounts_count [OF Cons.prems(1,2) t(1) r(1)]
      show ?thesis
        using accounts_trans [OF r(1) ih(1)] accounts_counts [OF r(1) ih(1)] ih(2,3) c
        by (simp add: Read)
    next
      case (Pause reason on)
      let ?s = "clock_pause_for reason on s"
      have f: "read_before prev ?s" "g_gap_ns ?s = g_gap_ns s" "g_paused ?s = g_paused s"
        "g_pause_req ?s = (if on then g_pause_req s OR reason else g_pause_req s AND NOT reason)"
        "g_started ?s" "clock_room hi ?s" "accounts s ?s" "elapsed s ?s = 0" "left_out s ?s = 0"
        using Cons.prems clock_pause_accounts by (simp_all add: clock_pause_for_def read_before_def elapsed_def left_out_def)
      have ih: "accounts ?s (clock_run xs ?s)" "g_last_host_ns (clock_run xs ?s) \<le> hi"
        "elapsed ?s (clock_run xs ?s) - left_out ?s (clock_run xs ?s)
          = counted_time (g_gap_ns s) prev (g_paused s) (g_pause_req ?s) xs"
        using Cons.IH [OF f(5,1) _ f(6)] Cons.prems(3) Pause f by auto
      show ?thesis
        using accounts_trans [OF f(7) ih(1)] accounts_counts [OF f(7) ih(1)] ih(2,3) f
        by (simp add: Pause)
    qed
  qed
  moreover have "read_before (g_last_host_ns s) s" by (simp add: read_before_def)
  ultimately show ?thesis
    using assms reads_rise_mono [OF assms(2,3)] by (fastforce simp: accounts_def Let_def)
qed

definition clock_example :: clock where
  "clock_example = \<lparr>g_started = True, g_last_host_ns = 1000, g_guest_ns = 0, g_origin_host_ns = 1000, g_speed = 2,
     g_gap_ns = 2000000000, g_epoch = 0, g_gaps = 0, g_excluded_ns = 0, g_pause_req = 0, g_paused = False,
     g_gap_note = False, gap_notes = []\<rparr>"

text \<open>A span that counts, one up to a pause, the pause, and a gap.\<close>

theorem guest_time_accounts_witness:
  "let s' = clock_run [Read 1500, Pause 1 True, Read 1600, Read 9000, Pause 1 False, Read 9000, Read 3000009000, Read 3000009100]
     clock_example
   in unat (g_guest_ns s') = 2 * 700 \<and> left_out clock_example s' = 7400 + 3000000000"
  using guest_time_accounts [of clock_example 1000
      "[Read 1500, Pause 1 True, Read 1600, Read 9000, Pause 1 False, Read 9000, Read 3000009000, Read 3000009100]" 3000009100]
  by (simp add: clock_example_def clock_room_def elapsed_def left_out_def clock_advance_at_def pause_edge_def
      clock_span_def clock_pause_for_def)

text \<open>The report's peek is the read's answer, unless a pause was asked for and not yet taken.\<close>

lemma peek_is_next_read:
  assumes "(g_pause_req s \<noteq> 0) = g_paused s"
  shows "clock_peek_at t s = fst (clock_advance_at t s)"
  using assms by (auto simp: clock_peek_at_def clock_advance_at_def clock_span_def Let_def)

text \<open>A sleep of the host that a pause request follows, before the next read, counts in full,
  however far it is past the gap.\<close>

lemma pause_start_counts_gap:
  assumes "g_started s" "\<not> g_paused s" "g_pause_req s \<noteq> 0" "g_last_host_ns s < t"
  shows "fst (clock_advance_at t s) = g_guest_ns s + (t - g_last_host_ns s) * ucast (g_speed s)"
  using assms by (simp add: clock_advance_at_def pause_edge_def)

end
