(* ===== verification/Sha1.thy ===== *)
theory Sha1
  imports Prelude
begin

unbundle bit_operations_syntax

text \<open>
  runtime/sha1.c: SHA-1, which the disc and the mods are told apart by. The code's rounds on
  arrays first, then the standard's definition (FIPS 180-4, sections 4.1.1, 5.1.1 and 6.1) with its
  padding, message schedule and round functions, and their equality for every message.
\<close>

section \<open>The code\<close>

definition rol :: "u32 \<Rightarrow> nat \<Rightarrow> u32" where
  "rol x k = push_bit k x OR drop_bit (32 - k) x"

type_synonym sha1_state = "u32 \<times> u32 \<times> u32 \<times> u32 \<times> u32"

text \<open>The array \<open>w\<close>: sixteen big-endian words of the block, then the recurrence up to 80.\<close>

definition block_words :: "u8 list \<Rightarrow> u32 list" where
  "block_words p = map (\<lambda>i. push_bit 24 (ucast (p ! (4 * i))) OR push_bit 16 (ucast (p ! (4 * i + 1)))
     OR push_bit 8 (ucast (p ! (4 * i + 2))) OR ucast (p ! (4 * i + 3))) [0..<16]"

definition schedule_step :: "nat \<Rightarrow> u32 list \<Rightarrow> u32 list" where
  "schedule_step i w = w @ [rol (w ! (i - 3) XOR w ! (i - 8) XOR w ! (i - 14) XOR w ! (i - 16)) 1]"

definition schedule :: "u8 list \<Rightarrow> u32 list" where
  "schedule p = fold schedule_step [16..<80] (block_words p)"

definition sha1_round :: "u32 list \<Rightarrow> nat \<Rightarrow> sha1_state \<Rightarrow> sha1_state" where
  "sha1_round w i s =
     (case s of (a, b, c, d, e) \<Rightarrow>
        let (f, k) = (if i < 20 then ((b AND c) OR (NOT b AND d), 0x5A827999)
                      else if i < 40 then (b XOR c XOR d, 0x6ED9EBA1)
                      else if i < 60 then ((b AND c) OR (b AND d) OR (c AND d), 0x8F1BBCDC)
                      else (b XOR c XOR d, 0xCA62C1D6));
            t = rol a 5 + f + e + k + w ! i
        in (t, a, rol b 30, c, d))"

definition sha1_block :: "u8 list \<Rightarrow> sha1_state \<Rightarrow> sha1_state" where
  "sha1_block p h =
     (case h of (h0, h1, h2, h3, h4) \<Rightarrow>
      case fold (sha1_round (schedule p)) [0..<80] h of (a, b, c, d, e) \<Rightarrow>
        (h0 + a, h1 + b, h2 + c, h3 + d, h4 + e))"

text \<open>The whole blocks of the data.\<close>

function sha1_full :: "u8 list \<Rightarrow> nat \<Rightarrow> nat \<Rightarrow> sha1_state \<Rightarrow> sha1_state" where
  "sha1_full data i full h =
     (if i < full then sha1_full data (i + 64) full (sha1_block (take 64 (drop i data)) h) else h)"
  by pat_completeness auto
termination by (relation "measure (\<lambda>(data, i, full, h). full - i)") auto

declare sha1_full.simps [simp del]

text \<open>The array \<open>last\<close>: the rest, 0x80, zeros and the length in bits at the end of its block.\<close>

definition sha1_last :: "u8 list \<Rightarrow> nat \<Rightarrow> nat \<Rightarrow> u64 \<Rightarrow> u8 list" where
  "sha1_last rest rem pad bits =
     fold (\<lambda>i l. l[pad - 1 - i := ucast (drop_bit (8 * i) bits)]) [0..<8]
       ((rest @ drop rem (replicate 128 0))[rem := 0x80])"

definition digest_bytes :: "u32 list \<Rightarrow> u8 list" where
  "digest_bytes h = map (\<lambda>i. ucast (drop_bit (24 - 8 * (i mod 4)) (h ! (i div 4)))) [0..<20]"

definition state_list :: "sha1_state \<Rightarrow> u32 list" where
  "state_list h = (case h of (a, b, c, d, e) \<Rightarrow> [a, b, c, d, e])"

definition sha1_init :: sha1_state where
  "sha1_init = (0x67452301, 0xEFCDAB89, 0x98BADCFE, 0x10325476, 0xC3D2E1F0)"

definition sha1 :: "u8 list \<Rightarrow> u8 list" where
  "sha1 data =
     (let n = length data; rem = n mod 64; full = n - rem; pad = (if rem < 56 then 64 else 128);
          bits = of_nat n * 8;
          h1 = sha1_full data 0 full sha1_init;
          final = sha1_last (drop full data) rem pad bits;
          h2 = sha1_block (take 64 final) h1;
          h3 = (if pad = 128 then sha1_block (take 64 (drop 64 final)) h2 else h2)
      in digest_bytes (state_list h3))"

definition hex_digit :: "nat \<Rightarrow> char" where
  "hex_digit n = ''0123456789abcdef'' ! n"

definition sha1_hex :: "u8 list \<Rightarrow> string" where
  "sha1_hex data = concat (map (\<lambda>x. [hex_digit (unat x div 16), hex_digit (unat x mod 16)]) (sha1 data))"

section \<open>The standard\<close>

text \<open>The message is padded to whole blocks, the fewest, ending in its length.\<close>

definition fips_pad :: "u8 list \<Rightarrow> u8 list" where
  "fips_pad m = m @ [0x80] @ replicate ((119 - length m mod 64) mod 64) 0
     @ map (\<lambda>i. ucast (drop_bit (56 - 8 * i) (of_nat (8 * length m) :: u64))) [0..<8]"

definition fips_word :: "u8 list \<Rightarrow> nat \<Rightarrow> u32" where
  "fips_word m t = of_nat (unat (m ! (4 * t)) * 2 ^ 24 + unat (m ! (4 * t + 1)) * 2 ^ 16
     + unat (m ! (4 * t + 2)) * 2 ^ 8 + unat (m ! (4 * t + 3)))"

fun fips_W :: "u8 list \<Rightarrow> nat \<Rightarrow> u32" where
  "fips_W m t = (if t < 16 then fips_word m t
     else word_rotl 1 (fips_W m (t - 3) XOR fips_W m (t - 8) XOR fips_W m (t - 14) XOR fips_W m (t - 16)))"

declare fips_W.simps [simp del]

definition fips_f :: "nat \<Rightarrow> u32 \<Rightarrow> u32 \<Rightarrow> u32 \<Rightarrow> u32" where
  "fips_f t x y z = (if t < 20 then (x AND y) XOR (NOT x AND z)
     else if 40 \<le> t \<and> t < 60 then (x AND y) XOR (x AND z) XOR (y AND z) else x XOR y XOR z)"

definition fips_K :: "nat \<Rightarrow> u32" where
  "fips_K t = [0x5a827999, 0x6ed9eba1, 0x8f1bbcdc, 0xca62c1d6] ! (t div 20)"

fun fips_rounds :: "u8 list \<Rightarrow> nat \<Rightarrow> sha1_state \<Rightarrow> sha1_state" where
  "fips_rounds m 0 s = s"
| "fips_rounds m (Suc t) s =
     (case fips_rounds m t s of (a, b, c, d, e) \<Rightarrow>
        (word_rotl 5 a + fips_f t b c d + e + fips_K t + fips_W m t, a, word_rotl 30 b, c, d))"

definition fips_block :: "u8 list \<Rightarrow> sha1_state \<Rightarrow> sha1_state" where
  "fips_block m h =
     (case (h, fips_rounds m 80 h) of ((h0, h1, h2, h3, h4), (a, b, c, d, e)) \<Rightarrow>
        (a + h0, b + h1, c + h2, d + h3, e + h4))"

function fips_blocks :: "u8 list \<Rightarrow> sha1_state \<Rightarrow> sha1_state" where
  "fips_blocks m h = (if length m < 64 then h else fips_blocks (drop 64 m) (fips_block (take 64 m) h))"
  by pat_completeness auto
termination by (relation "measure (\<lambda>(m, h). length m)") auto

declare fips_blocks.simps [simp del]

definition fips_sha1 :: "u8 list \<Rightarrow> u8 list" where
  "fips_sha1 m = concat (map (\<lambda>x. map (\<lambda>i. ucast (drop_bit (24 - 8 * i) x)) [0..<4])
     (state_list (fips_blocks (fips_pad m) sha1_init)))"

section \<open>The code computes the standard\<close>

lemma rol_rotl: "0 < k \<Longrightarrow> k < 32 \<Longrightarrow> rol x k = word_rotl k x"
proof (rule bit_word_eqI)
  fix n assume k: "0 < k" "k < 32" and n: "n < LENGTH(32)"
  then have "(n + 32 - k) mod 32 = (if k \<le> n then n - k else n + 32 - k)"
    by (auto simp: Nat.add_diff_assoc2 mod_if)
  then show "bit (rol x k) n = bit (word_rotl k x) n"
    using k n by (auto simp: rol_def bit_simps bit_word_rotl_iff add.commute [of 32] dest: bit_imp_le_length)
qed

lemma block_words_fips: "block_words p = map (fips_W p) [0..<16]"
proof -
  have "push_bit 24 (ucast a) OR push_bit 16 (ucast b) OR push_bit 8 (ucast c) OR ucast d
      = (of_nat (unat a * 2 ^ 24 + unat b * 2 ^ 16 + unat c * 2 ^ 8 + unat d) :: u32)" for a b c d :: u8
  proof -
    have "push_bit 24 (ucast a) OR push_bit 16 (ucast b) OR push_bit 8 (ucast c) OR ucast d = get32 a b c d"
      by (simp add: get32_def or.assoc)
    also have "\<dots> = of_nat (unat (get32 a b c d))" by simp
    also have "unat (get32 a b c d) = unat a * 2 ^ 24 + unat b * 2 ^ 16 + unat c * 2 ^ 8 + unat d"
      by (simp add: unat_get32)
    finally show ?thesis .
  qed
  then show ?thesis by (simp add: block_words_def fips_word_def fips_W.simps)
qed

lemma schedule_prefix: "fold schedule_step [16..<16 + n] (block_words p) = map (fips_W p) [0..<16 + n]"
proof (induction n)
  case 0
  show ?case by (simp add: block_words_fips)
next
  case (Suc n)
  have "schedule_step (16 + n) (map (fips_W p) [0..<16 + n]) = map (fips_W p) [0..<16 + n] @ [fips_W p (16 + n)]"
    by (simp add: schedule_step_def rol_rotl fips_W.simps [of p "16 + n"])
  moreover have "[k..<16 + Suc n] = [k..<16 + n] @ [16 + n]" if "k \<le> 16" for k
    unfolding add_Suc_right using that by (intro upt_Suc_append) simp
  ultimately show ?case using Suc by (simp only: fold_append map_append) simp
qed

lemma schedule_fips: "schedule p = map (fips_W p) [0..<80]"
  using schedule_prefix [of 64 p] by (simp add: schedule_def)

lemma choose_xor: "((b :: u32) AND c) OR (NOT b AND d) = (b AND c) XOR (NOT b AND d)"
  by (rule bit_word_eqI) (auto simp: bit_simps)

lemma majority_xor: "((b :: u32) AND c) OR (b AND d) OR (c AND d) = (b AND c) XOR (b AND d) XOR (c AND d)"
  by (rule bit_word_eqI) (auto simp: bit_simps)

lemma round_fips:
  assumes "t < 80"
  shows "sha1_round (schedule p) t (a, b, c, d, e) =
    (word_rotl 5 a + fips_f t b c d + e + fips_K t + fips_W p t, a, word_rotl 30 b, c, d)"
proof -
  have "t div 20 = (if t < 20 then 0 else if t < 40 then 1 else if t < 60 then 2 else 3)"
    using assms by auto
  then show ?thesis
    using assms by (auto simp: sha1_round_def schedule_fips fips_f_def fips_K_def rol_rotl choose_xor majority_xor)
qed

lemma rounds_fips: "n \<le> 80 \<Longrightarrow> fold (sha1_round (schedule p)) [0..<n] h = fips_rounds p n h"
proof (induction n)
  case (Suc n)
  then show ?case by (cases "fips_rounds p n h") (simp add: round_fips)
qed simp

lemma block_fips: "sha1_block p h = fips_block p h"
  by (cases h) (simp add: sha1_block_def fips_block_def rounds_fips add.commute split: prod.splits)

text \<open>The loop over the whole blocks is the standard's, with what follows them left for later.\<close>

lemma blocks_append:
  assumes "length xs mod 64 = 0"
  shows "fips_blocks (xs @ ys) h = fips_blocks ys (fips_blocks xs h)"
  using assms
proof (induction xs h rule: fips_blocks.induct)
  case (1 xs h)
  show ?case
  proof (cases "length xs < 64")
    case True
    then have "xs = []" using "1.prems" by (cases xs) auto
    then show ?thesis by (simp add: fips_blocks.simps [of "[]"])
  next
    case False
    then have "fips_blocks (drop 64 xs @ ys) (fips_block (take 64 xs) h)
        = fips_blocks ys (fips_blocks (drop 64 xs) (fips_block (take 64 xs) h))"
      using 1 by (simp add: mod_if [of "length xs"])
    then show ?thesis
      using False by (subst (1 3) fips_blocks.simps) simp
  qed
qed

lemma full_blocks:
  "full \<le> length m \<Longrightarrow> (full - i) mod 64 = 0 \<Longrightarrow> sha1_full m i full h = fips_blocks (take (full - i) (drop i m)) h"
proof (induction m i full h rule: sha1_full.induct)
  case (1 m i full h)
  show ?case
  proof (cases "i < full")
    case True
    then have ge: "64 \<le> full - i" using "1.prems"(2) by (metis mod_less not_le zero_less_diff less_not_refl)
    then have "(full - (i + 64)) mod 64 = 0"
      using "1.prems"(2) by (metis diff_diff_left le_mod_geq)
    then have "sha1_full m (i + 64) full (sha1_block (take 64 (drop i m)) h)
        = fips_blocks (take (full - (i + 64)) (drop (i + 64) m)) (fips_block (take 64 (drop i m)) h)"
      using 1 True by (simp add: block_fips)
    also have "\<dots> = fips_blocks (take (full - i) (drop i m)) h"
    proof -
      have "take 64 (take (full - i) (drop i m)) = take 64 (drop i m)" using ge by simp
      moreover have "drop 64 (take (full - i) (drop i m)) = take (full - (i + 64)) (drop (i + 64) m)"
        by (simp add: drop_take add.commute)
      moreover have "\<not> length (take (full - i) (drop i m)) < 64" using ge "1.prems"(1) by simp
      ultimately show ?thesis by (simp add: fips_blocks.simps [of "take (full - i) (drop i m)"])
    qed
    finally show ?thesis using True by (simp add: sha1_full.simps [of m i])
  next
    case False
    then show ?thesis by (simp add: sha1_full.simps [of m i] fips_blocks.simps [of "[]"])
  qed
qed

text \<open>Bytes stored downwards from the end of a block.\<close>

lemma stored_down:
  assumes "n \<le> k" "k \<le> length l"
  shows "length (fold (\<lambda>i l. l[k - 1 - i := f i]) [0..<n] l) = length l
    \<and> (\<forall>j<length l. fold (\<lambda>i l. l[k - 1 - i := f i]) [0..<n] l ! j =
         (if k - n \<le> j \<and> j < k then f (k - 1 - j) else l ! j))"
  using assms
proof (induction n)
  case (Suc n)
  then show ?case by (auto simp: nth_list_update not_less_eq_eq)
qed auto

lemma last_padded:
  assumes "length rest = rem" "rem + 9 \<le> pad" "pad \<le> 128"
  shows "take pad (sha1_last rest rem pad bits)
    = rest @ [0x80] @ replicate (pad - 9 - rem) 0 @ map (\<lambda>i. ucast (drop_bit (56 - 8 * i) bits)) [0..<8]"
proof -
  define l where "l = (rest @ drop rem (replicate 128 (0 :: u8)))[rem := 0x80]"
  have l: "length l = 128" "l = rest @ [0x80] @ replicate (127 - rem) 0"
    using assms Suc_diff_le [of rem 127] by (auto simp: l_def list_update_append)
  have "sha1_last rest rem pad bits = fold (\<lambda>i l. l[pad - 1 - i := ucast (drop_bit (8 * i) bits)]) [0..<8] l"
    by (simp only: sha1_last_def l_def)
  then have stored: "length (sha1_last rest rem pad bits) = 128"
      "j < 128 \<Longrightarrow> sha1_last rest rem pad bits ! j =
         (if pad - 8 \<le> j \<and> j < pad then ucast (drop_bit (8 * (pad - 1 - j)) bits) else l ! j)" for j
    using stored_down [of 8 pad l "\<lambda>i. ucast (drop_bit (8 * i) bits)"] assms l(1)
    by auto
  have "take pad (sha1_last rest rem pad bits) ! j =
      (rest @ [0x80] @ replicate (pad - 9 - rem) 0 @ map (\<lambda>i. ucast (drop_bit (56 - 8 * i) bits)) [0..<8]) ! j"
    if j: "j < pad" for j
  proof (cases "pad - 8 \<le> j")
    case True
    then have "8 * (pad - 1 - j) = 56 - 8 * (j - (pad - 8))" "j - rem - Suc (pad - 9 - rem) = j - (pad - 8)"
        "\<not> j < rem" "\<not> j - rem < Suc (pad - 9 - rem)" "j - (pad - 8) < 8"
        "\<not> j - Suc rem < pad - (9 + rem)"
      using j assms by auto
    then show ?thesis using True j assms by (auto simp: stored nth_append nth_Cons')
  next
    case False
    then show ?thesis using j assms by (auto simp: stored l nth_append nth_Cons')
  qed
  then show ?thesis using assms by (intro nth_equalityI) (simp_all add: stored)
qed

lemma fips_pad_split:
  assumes "rem = length m mod 64" "full = length m - rem" "pad = (if rem < 56 then 64 else 128)"
  shows "fips_pad m = take full m @ take pad (sha1_last (drop full m) rem pad (of_nat (length m) * 8))"
    and "length (take full m) mod 64 = 0" and "length (drop full m) = rem" and "rem + 9 \<le> pad \<and> pad \<le> 128"
proof -
  have rem: "rem < 64" "rem \<le> length m" using assms(1) by simp_all
  show len: "length (drop full m) = rem" and pad: "rem + 9 \<le> pad \<and> pad \<le> 128"
    using rem assms by auto
  have "(119 - rem) mod 64 = pad - 9 - rem"
    using rem assms(3) by (auto simp: mod_if)
  then show "fips_pad m = take full m @ take pad (sha1_last (drop full m) rem pad (of_nat (length m) * 8))"
    using pad by (subst last_padded [OF len]) (simp_all add: fips_pad_def mult.commute flip: assms(1))
  show "length (take full m) mod 64 = 0" using rem assms by (simp add: minus_mod_eq_mult_div)
qed

text \<open>One or two blocks are left after the whole ones.\<close>

lemma last_blocks:
  assumes "length l = 64 \<or> length l = 128"
  shows "fips_blocks l h = (let h2 = fips_block (take 64 l) h in
    if length l = 128 then fips_block (take 64 (drop 64 l)) h2 else h2)"
  using assms
  by (subst fips_blocks.simps, subst fips_blocks.simps, subst fips_blocks.simps) (auto simp: Let_def)

text \<open>C10: The code's digest is SHA-1 as the standard defines it, for every message: its padding in
  the fixed array of 128 bytes, its schedule, its rotations and its round functions are the
  standard's.\<close>

theorem sha1_is_fips: "sha1 data = fips_sha1 data"
proof -
  define rem where "rem = length data mod 64"
  define full where "full = length data - rem"
  define pad :: nat where "pad = (if rem < 56 then 64 else 128)"
  define final where "final = sha1_last (drop full data) rem pad (of_nat (length data) * 8)"
  note split = fips_pad_split [OF rem_def full_def pad_def]
  have "length (take pad final) = pad"
    using split(3,4) by (simp add: final_def last_padded [OF split(3)])
  then have len: "length (take pad final) = 64 \<or> length (take pad final) = 128"
      "length (take pad final) = 128 \<longleftrightarrow> pad = 128"
    by (auto simp: pad_def)
  have heads: "take 64 (take pad final) = take 64 final"
      "pad = 128 \<Longrightarrow> take 64 (drop 64 (take pad final)) = take 64 (drop 64 final)"
    by (auto simp: pad_def take_drop)
  have "length (take full data) = full" by (simp add: full_def)
  then have "sha1_full data 0 full sha1_init = fips_blocks (take full data) sha1_init"
    using split(2) full_blocks [of full data 0 sha1_init] by (simp add: full_def)
  then have "fips_blocks (fips_pad data) sha1_init = fips_blocks (take pad final) (sha1_full data 0 full sha1_init)"
    by (simp only: split(1) blocks_append [OF split(2)] final_def)
  also have "\<dots> = (let h2 = sha1_block (take 64 final) (sha1_full data 0 full sha1_init) in
      if pad = 128 then sha1_block (take 64 (drop 64 final)) h2 else h2)"
    using last_blocks [OF len(1)] heads len(2) by (simp add: block_fips Let_def)
  moreover have "digest_bytes (state_list h) =
      concat (map (\<lambda>x. map (\<lambda>i. ucast (drop_bit (24 - 8 * i) x)) [0..<4]) (state_list h))" for h
    by (cases h) (simp add: digest_bytes_def state_list_def upt_conv_Cons)
  moreover have "sha1 data = digest_bytes (state_list (let h2 = sha1_block (take 64 final) (sha1_full data 0 full sha1_init) in
      if pad = 128 then sha1_block (take 64 (drop 64 final)) h2 else h2))"
    by (simp only: sha1_def Let_def rem_def full_def pad_def final_def)
  ultimately show ?thesis by (simp only: fips_sha1_def)
qed

end
