(* ===== verification/VfstTable.thy ===== *)
theory VfstTable
  imports Prelude "HOL-Library.Monad_Syntax"
begin

text \<open>
  runtime/vfst.c, first part: the disc's file table as entries, the walk by path, the entries a
  mod adds and the table rebuilt from them. Paths and names are C strings, lists of non-zero
  bytes; letters are compared as in the C locale. \<open>None\<close> is a read or a write outside an array,
  or a loop that does not end; memory does not run out. The field \<open>new_idx\<close>, which nothing reads,
  is left out, and so are the capacities of the growing arrays.
\<close>

section \<open>Entries\<close>

definition ENTRY :: nat where "ENTRY = 12"

record ent =
  e_dir :: bool
  e_name :: nat
  e_a :: u32
  e_b :: u32
  e_add_dir :: int

record table =
  t_count :: nat
  t_e :: "ent list"
  t_str :: "u8 list"

datatype table_error = Root_not_directory | Bad_count nat | Name_runs_off nat | Range_broken nat

text \<open>The bytes up to a terminator, none where there is none before the end.\<close>

definition cstr_of :: "u8 list \<Rightarrow> nat \<Rightarrow> u8 list option" where
  "cstr_of s i = (if i < length s \<and> 0 \<in> set (drop i s) then Some (takeWhile (\<lambda>x. x \<noteq> 0) (drop i s)) else None)"

definition name_of :: "table \<Rightarrow> nat \<Rightarrow> u8 list option" where
  "name_of t i = (if i < length (t_e t) then cstr_of (t_str t) (e_name (t_e t ! i)) else None)"

definition read_entry :: "u8 list \<Rightarrow> nat \<Rightarrow> ent" where
  "read_entry img i =
     (let p = i * ENTRY in
      \<lparr>e_dir = img ! p \<noteq> 0,
       e_name = unat (img ! (p + 1)) * 65536 + unat (img ! (p + 2)) * 256 + unat (img ! (p + 3)),
       e_a = get32_at img (p + 4), e_b = get32_at img (p + 8), e_add_dir = - 1\<rparr>)"

definition entry_fault :: "nat \<Rightarrow> u8 list \<Rightarrow> nat \<Rightarrow> ent \<Rightarrow> table_error option" where
  "entry_fault count str i x =
     (if i \<noteq> 0 \<and> (e_name x \<ge> length str \<or> 0 \<notin> set (drop (e_name x) str)) then Some (Name_runs_off i)
      else if e_dir x \<and> i \<noteq> 0 \<and> (unat (e_b x) \<le> i \<or> unat (e_b x) > count) then Some (Range_broken i)
      else None)"

fun read_entries :: "u8 list \<Rightarrow> nat \<Rightarrow> u8 list \<Rightarrow> nat list \<Rightarrow> ent list \<Rightarrow> table_error + ent list" where
  "read_entries img count str [] e = Inr e"
| "read_entries img count str (i # is) e =
     (let x = read_entry img i in
      case entry_fault count str i x of Some r \<Rightarrow> Inl r | None \<Rightarrow> read_entries img count str is (e @ [x]))"

definition parse :: "u8 list \<Rightarrow> table_error + table" where
  "parse img =
     (if length img < ENTRY \<or> img ! 0 = 0 then Inl Root_not_directory
      else let count = unat (get32_at img 8) in
        if count = 0 \<or> count * ENTRY > length img then Inl (Bad_count count)
        else let str = drop (count * ENTRY) img in
          case read_entries img count str [0..<count] [] of
            Inl r \<Rightarrow> Inl r
          | Inr e \<Rightarrow> Inr \<lparr>t_count = count, t_e = e, t_str = str\<rparr>)"

section \<open>The walk by path\<close>

definition SLASH :: u8 where "SLASH = 0x2F"

definition to_lower :: "u8 \<Rightarrow> u8" where
  "to_lower c = (if 0x41 \<le> c \<and> c \<le> 0x5A then c + 0x20 else c)"

text \<open>\<open>strlen(a) == strlen(b) && ieq(a, b, strlen(b))\<close>\<close>

definition same_name :: "u8 list \<Rightarrow> u8 list \<Rightarrow> bool" where
  "same_name a b \<longleftrightarrow> length a = length b \<and> map to_lower a = map to_lower b"

definition end_of :: "table \<Rightarrow> nat \<Rightarrow> nat" where
  "end_of t d = (if d = 0 then t_count t else unat (e_b (t_e t ! d)))"

text \<open>The next entry of the same directory.\<close>

definition after :: "table \<Rightarrow> nat \<Rightarrow> nat" where
  "after t i = (if e_dir (t_e t ! i) then unat (e_b (t_e t ! i)) else i + 1)"

text \<open>A directory's own entries searched for a name.\<close>

function scan :: "table \<Rightarrow> u8 list \<Rightarrow> nat \<Rightarrow> nat \<Rightarrow> nat option option" where
  "scan t nm i limit =
     (if i < limit then
        if i \<ge> length (t_e t) then None
        else do {
          x \<leftarrow> name_of t i;
          if same_name x nm then Some (Some i)
          else if after t i \<le> i then None
          else scan t nm (after t i) limit }
      else Some None)"
  by pat_completeness auto
termination by (relation "measure (\<lambda>(t, nm, i, limit). length (t_e t) - i)") auto

declare scan.simps [simp del]

definition component :: "u8 list \<Rightarrow> u8 list" where
  "component s = takeWhile (\<lambda>c. c \<noteq> SLASH) s"

function walk_from :: "table \<Rightarrow> nat \<Rightarrow> u8 list \<Rightarrow> nat option option" where
  "walk_from t d s =
     (if d \<ge> length (t_e t) then None
      else do {
        found \<leftarrow> scan t (component s) (d + 1) (end_of t d);
        case found of None \<Rightarrow> Some None
        | Some i \<Rightarrow>
            (case drop (length (component s)) s of
               [] \<Rightarrow> Some (Some i)
             | c # rest \<Rightarrow> if e_dir (t_e t ! i) then walk_from t i rest else Some None) })"
  by pat_completeness auto
termination
  by (relation "measure (\<lambda>(t, d, s). length s)")
    (auto dest!: arg_cong [where f = length])

declare walk_from.simps [simp del]

definition walk :: "table \<Rightarrow> u8 list \<Rightarrow> nat option option" where
  "walk t path = (if path = [] then Some (Some 0) else walk_from t 0 path)"

section \<open>Added entries\<close>

text \<open>The directories above an entry, the nearest first, as its parent fields give them.\<close>

fun dir_chain :: "nat \<Rightarrow> table \<Rightarrow> nat \<Rightarrow> nat list option" where
  "dir_chain 0 t d = Some []"
| "dir_chain (Suc depth) t d =
     (if d = 0 \<or> d \<ge> 2 ^ 31 then Some []
      else if d \<ge> length (t_e t) then None
      else do { up \<leftarrow> dir_chain depth t (unat (e_a (t_e t ! d))); Some (d # up) })"

text \<open>\<open>snprintf\<close> at \<open>used\<close> of a buffer of 512 bytes, its bytes and the length it would have taken.\<close>

definition NAME_MAX_DISC :: nat where "NAME_MAX_DISC = 256"

definition print_at :: "u8 list \<times> nat \<Rightarrow> u8 list \<Rightarrow> (u8 list \<times> nat) option" where
  "print_at buf s =
     (case buf of (text, used) \<Rightarrow>
        if used > NAME_MAX_DISC * 2 then None
        else Some (text @ take (NAME_MAX_DISC * 2 - used - 1) s, used + length s))"

fun print_dirs :: "table \<Rightarrow> nat list \<Rightarrow> u8 list \<times> nat \<Rightarrow> (u8 list \<times> nat) option" where
  "print_dirs t [] buf = Some buf"
| "print_dirs t (d # ds) buf = do { nm \<leftarrow> name_of t d; buf1 \<leftarrow> print_at buf (nm @ [SLASH]); print_dirs t ds buf1 }"

definition added_path :: "table \<Rightarrow> nat \<Rightarrow> u8 list option" where
  "added_path t i = do {
     chain \<leftarrow> (if e_add_dir (t_e t ! i) > 0 then dir_chain 32 t (nat (e_add_dir (t_e t ! i))) else Some []);
     buf \<leftarrow> print_dirs t (rev chain) ([], 0);
     nm \<leftarrow> name_of t i;
     buf1 \<leftarrow> print_at buf nm;
     Some (fst buf1) }"

fun added_in :: "table \<Rightarrow> u8 list \<Rightarrow> nat list \<Rightarrow> nat option option" where
  "added_in t path [] = Some None"
| "added_in t path (i # is) = do {
     full \<leftarrow> added_path t i;
     if same_name full path then Some (Some i) else added_in t path is }"

definition added :: "table \<Rightarrow> u8 list \<Rightarrow> nat option option" where
  "added t path = added_in t path [t_count t..<length (t_e t)]"

definition find_path :: "table \<Rightarrow> u8 list \<Rightarrow> nat option option" where
  "find_path t path = do { i \<leftarrow> walk t path; case i of Some i \<Rightarrow> Some (Some i) | None \<Rightarrow> added t path }"

text \<open>A new name at the end of the string table and a new entry at the end of the entries.\<close>

definition add_entry :: "table \<Rightarrow> nat \<Rightarrow> u8 list \<Rightarrow> u32 \<Rightarrow> u32 \<Rightarrow> table" where
  "add_entry t d nm off len =
     t\<lparr>t_e := t_e t @ [\<lparr>e_dir = False, e_name = length (t_str t), e_a = off, e_b = len, e_add_dir = int d\<rparr>],
       t_str := t_str t @ nm @ [0]\<rparr>"

section \<open>The rebuilt table\<close>

definition ent_bytes :: "ent \<Rightarrow> u32 \<Rightarrow> u32 \<Rightarrow> u8 list" where
  "ent_bytes x a b = [if e_dir x then 1 else 0, of_nat (e_name x div 65536), of_nat (e_name x div 256), of_nat (e_name x)]
     @ put32 a @ put32 b"

text \<open>An entry written behind the ones in the buffer, and a directory's end filled in.\<close>

definition emit_entry :: "nat \<Rightarrow> u8 list \<Rightarrow> u8 list list \<Rightarrow> u8 list list option" where
  "emit_entry bytes x m = (if (length m + 1) * ENTRY \<le> bytes then Some (m @ [x]) else None)"

definition set_next :: "nat \<Rightarrow> u8 list list \<Rightarrow> u8 list list" where
  "set_next me m = m[me := take 8 (m ! me) @ put32 (of_nat (length m))]"

fun emit_added :: "table \<Rightarrow> nat \<Rightarrow> nat \<Rightarrow> nat list \<Rightarrow> u8 list list \<Rightarrow> u8 list list option" where
  "emit_added t bytes d [] m = Some m"
| "emit_added t bytes d (i # is) m =
     (if e_add_dir (t_e t ! i) = int d
      then do { m1 \<leftarrow> emit_entry bytes (ent_bytes (t_e t ! i) (e_a (t_e t ! i)) (e_b (t_e t ! i))) m;
                emit_added t bytes d is m1 }
      else emit_added t bytes d is m)"

text \<open>A directory, and the entries of a directory from \<open>i\<close> on.\<close>

function emit_dir :: "table \<Rightarrow> nat \<Rightarrow> nat \<Rightarrow> nat \<Rightarrow> u8 list list \<Rightarrow> u8 list list option"
  and emit_from :: "table \<Rightarrow> nat \<Rightarrow> nat \<Rightarrow> nat \<Rightarrow> nat \<Rightarrow> u8 list list \<Rightarrow> u8 list list option" where
  "emit_dir t bytes d parent_new m =
     (if d \<ge> length (t_e t) then None
      else do {
        let me = length m;
        m1 \<leftarrow> emit_entry bytes (ent_bytes (t_e t ! d) (if d = 0 then 0 else of_nat parent_new) 0) m;
        m2 \<leftarrow> emit_from t bytes (d + 1) (end_of t d) me m1;
        m3 \<leftarrow> emit_added t bytes d [t_count t..<length (t_e t)] m2;
        Some (set_next me m3) })"
| "emit_from t bytes i limit me m =
     (if i < limit then
        if i \<ge> length (t_e t) then None
        else if e_dir (t_e t ! i) then
          if after t i \<le> i then None
          else do { m1 \<leftarrow> emit_dir t bytes i me m; emit_from t bytes (after t i) limit me m1 }
        else do {
          m1 \<leftarrow> emit_entry bytes (ent_bytes (t_e t ! i) (e_a (t_e t ! i)) (e_b (t_e t ! i))) m;
          emit_from t bytes (i + 1) limit me m1 }
      else Some m)"
  by pat_completeness auto
termination
  by (relation "measure (\<lambda>x. case x of Inl (t, bytes, d, p, m) \<Rightarrow> 2 * (length (t_e t) - d)
        | Inr (t, bytes, i, limit, me, m) \<Rightarrow> 2 * (length (t_e t) - i) + 1)") auto

declare emit_dir.simps [simp del] emit_from.simps [simp del]

text \<open>The whole table: the entries, then the strings; \<open>Some None\<close> when it did not come out whole.\<close>

definition serialise :: "table \<Rightarrow> u8 list option option" where
  "serialise t = do {
     let ne = length (t_e t);
     m \<leftarrow> emit_dir t (ne * ENTRY + length (t_str t)) 0 0 [];
     Some (if length m = ne then Some (concat m @ t_str t) else None) }"

section \<open>What parsing gives\<close>

text \<open>The tables the code works on: names end inside the strings, a base directory's end lies
  forward in the table, and the entries after the base ones are files.\<close>

definition named :: "table \<Rightarrow> nat \<Rightarrow> bool" where
  "named t i \<longleftrightarrow> e_name (t_e t ! i) < length (t_str t) \<and> 0 \<in> set (drop (e_name (t_e t ! i)) (t_str t))"

definition forward :: "table \<Rightarrow> bool" where
  "forward t \<longleftrightarrow> 0 < t_count t \<and> t_count t \<le> length (t_e t) \<and> e_dir (t_e t ! 0)
     \<and> (\<forall>i. 0 < i \<and> i < length (t_e t) \<longrightarrow> named t i)
     \<and> (\<forall>i. 0 < i \<and> i < t_count t \<and> e_dir (t_e t ! i) \<longrightarrow> i < unat (e_b (t_e t ! i)) \<and> unat (e_b (t_e t ! i)) \<le> t_count t)
     \<and> (\<forall>i. t_count t \<le> i \<and> i < length (t_e t) \<longrightarrow> \<not> e_dir (t_e t ! i))"

lemma read_entries_ok:
  "read_entries img count str is e = Inr e' \<Longrightarrow>
     e' = e @ map (read_entry img) is \<and> (\<forall>i\<in>set is. entry_fault count str i (read_entry img i) = None)"
  by (induction "is" arbitrary: e) (simp, fastforce simp: Let_def split: option.splits)

lemma no_fault: "entry_fault count str i x = None \<longleftrightarrow> i = 0 \<or>
    e_name x < length str \<and> 0 \<in> set (drop (e_name x) str)
    \<and> (e_dir x \<longrightarrow> i < unat (e_b x) \<and> unat (e_b x) \<le> count)"
  by (auto simp: entry_fault_def not_le)

lemma parse_ok:
  assumes "parse img = Inr t"
  shows "t_count t = unat (get32_at img 8)" "0 < t_count t" "t_count t * ENTRY \<le> length img"
    "t_e t = map (read_entry img) [0..<t_count t]" "t_str t = drop (t_count t * ENTRY) img" "forward t"
proof -
  from assms have c: "0 < unat (get32_at img 8)" "unat (get32_at img 8) * ENTRY \<le> length img" "img ! 0 \<noteq> 0"
    and t: "t_count t = unat (get32_at img 8)" "t_str t = drop (unat (get32_at img 8) * ENTRY) img"
    and e: "read_entries img (t_count t) (t_str t) [0..<t_count t] [] = Inr (t_e t)"
    by (auto simp: parse_def Let_def split: if_splits sum.splits)
  show *: "t_count t = unat (get32_at img 8)" "0 < t_count t" "t_count t * ENTRY \<le> length img"
    "t_e t = map (read_entry img) [0..<t_count t]" "t_str t = drop (t_count t * ENTRY) img"
    using c t read_entries_ok [OF e] by simp_all
  have len: "length (t_e t) = t_count t" using *(4) by simp
  have "entry_fault (t_count t) (t_str t) i (t_e t ! i) = None" if "i < t_count t" for i
    using read_entries_ok [OF e] that *(4) by simp
  then have "named t i \<and> (e_dir (t_e t ! i) \<longrightarrow> i < unat (e_b (t_e t ! i)) \<and> unat (e_b (t_e t ! i)) \<le> t_count t)"
    if "0 < i" "i < t_count t" for i
    using that by (auto simp: no_fault named_def)
  moreover have "e_dir (t_e t ! 0)" using * c by (simp add: read_entry_def Let_def)
  ultimately show "forward t" using len *(2) by (auto simp: forward_def)
qed

lemma name_of_total: "forward t \<Longrightarrow> 0 < i \<Longrightarrow> i < length (t_e t) \<Longrightarrow> name_of t i \<noteq> None"
  by (auto simp: forward_def named_def name_of_def cstr_of_def)

lemma after_forward:
  assumes "forward t" "0 < i" "i < t_count t"
  shows "i < after t i" "after t i \<le> t_count t"
  using assms by (auto simp: after_def forward_def)

lemma end_of_le: "forward t \<Longrightarrow> d < t_count t \<Longrightarrow> e_dir (t_e t ! d) \<Longrightarrow> end_of t d \<le> t_count t"
  by (auto simp: end_of_def forward_def)

text \<open>On such a table the walk returns for every path; what it finds below the root is a base
  entry.\<close>

lemma scan_total:
  assumes "forward t" "0 < i" "limit \<le> t_count t"
  shows "\<exists>r. scan t nm i limit = Some r \<and> (\<forall>j. r = Some j \<longrightarrow> i \<le> j \<and> j < limit)"
  using assms(2)
proof (induction "t_count t - i" arbitrary: i rule: less_induct)
  case less
  show ?case
  proof (cases "i < limit")
    case True
    then have i: "i < t_count t" "i < length (t_e t)" using assms by (auto simp: forward_def)
    obtain x where x: "name_of t i = Some x" using name_of_total [OF assms(1) less.prems i(2)] by blast
    note a = after_forward [OF assms(1) less.prems i(1)]
    obtain r where "scan t nm (after t i) limit = Some r" "\<forall>j. r = Some j \<longrightarrow> after t i \<le> j \<and> j < limit"
      using less.hyps [of "after t i"] diff_less_mono2 [OF a(1) i(1)] less.prems a(1) by auto
    then show ?thesis
      using True i x a by (subst scan.simps) (auto simp: not_le)
  next
    case False
    then show ?thesis by (simp add: scan.simps)
  qed
qed

lemma walk_from_total:
  assumes "forward t"
  shows "d < t_count t \<Longrightarrow> e_dir (t_e t ! d) \<Longrightarrow>
    \<exists>r. walk_from t d s = Some r \<and> (\<forall>j. r = Some j \<longrightarrow> 0 < j \<and> j < t_count t)"
proof (induction "length s" arbitrary: d s rule: less_induct)
  case less
  have le: "end_of t d \<le> t_count t" using less.prems by (simp add: end_of_le [OF assms])
  obtain r where r: "scan t (component s) (d + 1) (end_of t d) = Some r"
      "\<forall>j. r = Some j \<longrightarrow> d + 1 \<le> j \<and> j < end_of t d"
    using scan_total [OF assms _ le, of "d + 1" "component s"] by auto
  have d: "d < length (t_e t)" using less.prems(1) assms by (auto simp: forward_def)
  show ?case
  proof (cases "\<exists>j c rest. r = Some j \<and> drop (length (component s)) s = c # rest \<and> e_dir (t_e t ! j)")
    case True
    then obtain j c rest where j: "r = Some j" "drop (length (component s)) s = c # rest" "e_dir (t_e t ! j)"
      by blast
    have "length rest < length s" using arg_cong [OF j(2), of length] by simp
    moreover have "j < t_count t" using r(2) le j(1) by simp
    ultimately obtain r' where "walk_from t j rest = Some r'" "\<forall>k. r' = Some k \<longrightarrow> 0 < k \<and> k < t_count t"
      using less.hyps [of rest j] j(3) by blast
    then show ?thesis using r(1) d j by (simp add: walk_from.simps [of t d s])
  next
    case False
    then show ?thesis
      using r d le
      by (cases r; cases "drop (length (component s)) s") (auto simp: walk_from.simps [of t d s])
  qed
qed

lemma walk_total:
  assumes "forward t"
  shows "\<exists>r. walk t path = Some r \<and> (\<forall>j. r = Some j \<longrightarrow> j < t_count t)"
  using walk_from_total [OF assms, of 0 path] assms by (auto simp: walk_def forward_def)

section \<open>The rebuilt table comes out whole\<close>

text \<open>The entries from \<open>i\<close> to \<open>j\<close> are whole entries of directory \<open>p\<close>: a file, or a directory that
  names \<open>p\<close> its parent and whose range holds whole entries of its own.\<close>

inductive block :: "ent list \<Rightarrow> nat \<Rightarrow> nat \<Rightarrow> nat \<Rightarrow> bool" for e where
  block_end: "block e p i i"
| block_file: "i < length e \<Longrightarrow> \<not> e_dir (e ! i) \<Longrightarrow> block e p (Suc i) j \<Longrightarrow> block e p i j"
| block_dir: "0 < i \<Longrightarrow> i < length e \<Longrightarrow> e_dir (e ! i) \<Longrightarrow> e_a (e ! i) = of_nat p \<Longrightarrow> i < unat (e_b (e ! i)) \<Longrightarrow>
    block e i (Suc i) (unat (e_b (e ! i))) \<Longrightarrow> block e p (unat (e_b (e ! i))) j \<Longrightarrow> block e p i j"

lemma block_le: "block e p i j \<Longrightarrow> i \<le> j"
  by (induction rule: block.induct) auto

text \<open>A table whose directories nest, its root holding every base entry.\<close>

definition tree :: "table \<Rightarrow> bool" where
  "tree t \<longleftrightarrow> forward t \<and> t_count t < 2 ^ 32 \<and> block (t_e t) 0 1 (t_count t)"

definition enc :: "table \<Rightarrow> nat \<Rightarrow> u8 list" where
  "enc t i = ent_bytes (t_e t ! i) (e_a (t_e t ! i)) (e_b (t_e t ! i))"

definition adds_to :: "table \<Rightarrow> nat set \<Rightarrow> nat list" where
  "adds_to t D = filter (\<lambda>k. e_add_dir (t_e t ! k) \<in> int ` D) [t_count t..<length (t_e t)]"

definition dirs_in :: "table \<Rightarrow> nat \<Rightarrow> nat \<Rightarrow> nat set" where
  "dirs_in t i j = {k. i \<le> k \<and> k < j \<and> e_dir (t_e t ! k)}"

lemma emit_added_eq:
  assumes "(length m + length (filter (\<lambda>k. e_add_dir (t_e t ! k) = int d) is)) * ENTRY \<le> bytes"
  shows "emit_added t bytes d is m = Some (m @ map (enc t) (filter (\<lambda>k. e_add_dir (t_e t ! k) = int d) is))"
  using assms by (induction "is" arbitrary: m) (auto simp: emit_entry_def enc_def add_mult_distrib)

lemma emit_added_adds:
  assumes "(length m + length (adds_to t {d})) * ENTRY \<le> bytes"
  shows "emit_added t bytes d [t_count t..<length (t_e t)] m = Some (m @ map (enc t) (adds_to t {d}))"
  using emit_added_eq [of m t d "[t_count t..<length (t_e t)]" bytes] assms by (simp add: adds_to_def)

lemma length_filter_disjoint:
  "(\<And>x. x \<in> set xs \<Longrightarrow> P x \<Longrightarrow> \<not> Q x) \<Longrightarrow>
     length (filter (\<lambda>x. P x \<or> Q x) xs) = length (filter P xs) + length (filter Q xs)"
  by (induction xs) auto

lemma adds_to_union:
  assumes "D \<inter> E = {}"
  shows "length (adds_to t (D \<union> E)) = length (adds_to t D) + length (adds_to t E)"
proof -
  have "x \<in> int ` D \<Longrightarrow> x \<notin> int ` E" for x using assms by auto
  then show ?thesis
    unfolding adds_to_def image_Un Un_iff by (intro length_filter_disjoint) blast
qed

lemma dirs_in_split:
  "\<not> e_dir (t_e t ! i) \<Longrightarrow> dirs_in t i j = dirs_in t (Suc i) j"
  "e_dir (t_e t ! i) \<Longrightarrow> i < b \<Longrightarrow> b \<le> j \<Longrightarrow> dirs_in t i j = ({i} \<union> dirs_in t (Suc i) b) \<union> dirs_in t b j"
  by (auto simp: dirs_in_def Suc_le_eq le_less)

lemma no_dirs [simp]: "dirs_in t i i = {}" "adds_to t {} = []"
  by (auto simp: dirs_in_def adds_to_def)

lemma set_next_append: "\<exists>m'. set_next (length m) (m @ x # xs) = m @ m' \<and> length m' = length (x # xs)"
  by (auto simp: set_next_def list_update_append)

text \<open>Room for a directory and what is added below it is enough, and each entry is written once.\<close>

lemma emit_block_length:
  assumes "block (t_e t) p i j"
  shows "(length m + (j - i) + length (adds_to t (dirs_in t i j))) * ENTRY \<le> bytes \<Longrightarrow>
    \<exists>m'. emit_from t bytes i j me m = Some (m @ m')
       \<and> length m' = (j - i) + length (adds_to t (dirs_in t i j))"
  using assms
proof (induction arbitrary: m me rule: block.induct)
  case (block_end p i)
  then show ?case by (simp add: emit_from.simps [of _ _ i])
next
  case (block_file i p j)
  note ij = block_le [OF block_file.hyps(3)]
  then have len: "length (m @ [enc t i]) + (j - Suc i) = length m + (j - i)" by simp
  obtain m' where "emit_from t bytes (Suc i) j me (m @ [enc t i]) = Some ((m @ [enc t i]) @ m')"
      "length m' = (j - Suc i) + length (adds_to t (dirs_in t (Suc i) j))"
    using block_file.IH [of "m @ [enc t i]" me] block_file.prems
    by (auto simp only: dirs_in_split(1) [OF block_file.hyps(2)] len)
  moreover have "(length m + 1) * ENTRY \<le> bytes"
    using block_file.prems ij by (intro order_trans [OF _ block_file.prems] mult_le_mono1) simp
  ultimately show ?case
    using block_file.hyps ij
    by (simp add: emit_from.simps [of _ _ i] emit_entry_def enc_def dirs_in_split(1))
next
  case (block_dir i p j)
  let ?b = "unat (e_b (t_e t ! i))"
  let ?A = "\<lambda>D. length (adds_to t D)"
  note ib = block_le [OF block_dir.hyps(6)] and bj = block_le [OF block_dir.hyps(7)]
  have total: "?A (dirs_in t i j) = ?A {i} + ?A (dirs_in t (Suc i) ?b) + ?A (dirs_in t ?b j)"
    using block_dir.hyps(5) bj
    by (subst dirs_in_split(2) [OF block_dir.hyps(3), of ?b], simp, simp)
      (subst adds_to_union, force simp: dirs_in_def, subst adds_to_union, auto simp: dirs_in_def)
  have room: "n * ENTRY \<le> bytes" if "n \<le> length m + (j - i) + ?A (dirs_in t i j)" for n
    using that by (intro order_trans [OF _ block_dir.prems] mult_le_mono1)
  let ?head = "ent_bytes (t_e t ! i) (of_nat me) 0"
  have "length (m @ [?head]) + (?b - Suc i) + ?A (dirs_in t (Suc i) ?b)
      \<le> length m + (j - i) + ?A (dirs_in t i j)"
    unfolding total using ib bj by auto
  then obtain m2 where m2: "emit_from t bytes (Suc i) ?b (length m) (m @ [?head]) = Some ((m @ [?head]) @ m2)"
      "length m2 = (?b - Suc i) + ?A (dirs_in t (Suc i) ?b)"
    using block_dir.IH(1) [of "m @ [?head]" "length m", OF room] by blast
  define m3 where "m3 = ?head # m2 @ map (enc t) (adds_to t {i})"
  have "emit_dir t bytes i me m = Some (set_next (length m) (m @ m3))"
  proof -
    have "emit_added t bytes i [t_count t..<length (t_e t)] ((m @ [?head]) @ m2) = Some (m @ m3)"
      using emit_added_adds [of "(m @ [?head]) @ m2" t i bytes, OF room] ib bj m2(2)
      by (simp add: m3_def total)
    moreover have "(length m + 1) * ENTRY \<le> bytes" by (rule room) (use ib bj in auto)
    ultimately show ?thesis
      using block_dir.hyps(1,2) m2(1)
      by (simp add: emit_dir.simps [of _ _ i] emit_entry_def end_of_def Let_def)
  qed
  moreover obtain m4 where m4: "set_next (length m) (m @ m3) = m @ m4" "length m4 = length m3"
    using set_next_append [of m ?head "m2 @ map (enc t) (adds_to t {i})"] by (auto simp: m3_def)
  ultimately have dir: "emit_dir t bytes i me m = Some (m @ m4)" by simp
  have m4_length: "length m4 = (?b - i) + ?A {i} + ?A (dirs_in t (Suc i) ?b)"
    using m4(2) m2(2) ib by (simp add: m3_def)
  have "length (m @ m4) + (j - ?b) + ?A (dirs_in t ?b j) \<le> length m + (j - i) + ?A (dirs_in t i j)"
    unfolding total using m4_length ib bj by auto
  then obtain m5 where m5: "emit_from t bytes ?b j me (m @ m4) = Some ((m @ m4) @ m5)"
      "length m5 = (j - ?b) + ?A (dirs_in t ?b j)"
    using block_dir.IH(2) [of "m @ m4" me, OF room] by blast
  have "emit_from t bytes i j me m = Some (m @ (m4 @ m5))"
    using block_dir.hyps(2,3,5) bj dir m5(1)
    by (simp add: emit_from.simps [of _ _ i] after_def)
  moreover have "length (m4 @ m5) = (j - i) + ?A (dirs_in t i j)"
    using m4_length m5(2) ib bj by (simp add: total)
  ultimately show ?case by blast
qed

text \<open>With nothing added the entries are emitted as they were, each at its own index.\<close>

lemma set_next_dir:
  assumes "length m = i" "i < unat b" "unat b < 2 ^ 32"
    and "length xs = unat b - Suc i"
  shows "set_next i (m @ ent_bytes x a 0 # xs) = m @ ent_bytes x a b # xs"
proof -
  have "length m + Suc (length xs) = unat b" using assms by simp
  moreover have "take 8 (ent_bytes x a 0) = take 8 (ent_bytes x a b)"
    by (simp add: ent_bytes_def)
  moreover have "take 8 (ent_bytes x a b) @ put32 b = ent_bytes x a b"
    by (simp add: ent_bytes_def)
  ultimately show ?thesis using assms(1) by (simp add: set_next_def list_update_append nth_append)
qed

lemma emit_block_plain:
  assumes "block (t_e t) p i j" "t_count t = length (t_e t)"
  shows "length m = i \<Longrightarrow> j * ENTRY \<le> bytes \<Longrightarrow>
    emit_from t bytes i j p m = Some (m @ map (enc t) [i..<j])"
  using assms(1)
proof (induction arbitrary: m rule: block.induct)
  case (block_end p i)
  then show ?case by (simp add: emit_from.simps [of _ _ i])
next
  case (block_file i p j)
  note ij = block_le [OF block_file.hyps(3)]
  have "(i + 1) * ENTRY \<le> bytes"
    using ij by (intro order_trans [OF _ block_file.prems(2)] mult_le_mono1) simp
  then show ?case
    using block_file ij
    by (simp add: emit_from.simps [of _ _ i] emit_entry_def upt_conv_Cons flip: enc_def)
next
  case (block_dir i p j)
  let ?b = "unat (e_b (t_e t ! i))"
  note ib = block_le [OF block_dir.hyps(6)] and bj = block_le [OF block_dir.hyps(7)]
  have room: "n * ENTRY \<le> bytes" if "n \<le> j" for n
    using that by (intro order_trans [OF _ block_dir.prems(2)] mult_le_mono1)
  let ?head = "ent_bytes (t_e t ! i) (of_nat p) 0"
  have "emit_from t bytes (Suc i) ?b i (m @ [?head]) = Some ((m @ [?head]) @ map (enc t) [Suc i..<?b])"
    using block_dir.IH(1) [of "m @ [?head]"] block_dir.prems(1) room bj by simp
  moreover have "set_next i (m @ ?head # map (enc t) [Suc i..<?b]) = m @ map (enc t) [i..<?b]"
    using block_dir.prems(1) block_dir.hyps(4,5) unsigned_less [of "e_b (t_e t ! i)"]
    by (subst set_next_dir [where b = "e_b (t_e t ! i)"]) (simp_all add: enc_def upt_conv_Cons)
  ultimately have "emit_dir t bytes i p m = Some (m @ map (enc t) [i..<?b])"
    using block_dir.prems(1) block_dir.hyps(1,2) room [of "i + 1"] ib bj
    by (simp add: emit_dir.simps [of _ _ i] emit_entry_def end_of_def assms(2) Let_def)
  moreover have "emit_from t bytes ?b j p (m @ map (enc t) [i..<?b]) = Some ((m @ map (enc t) [i..<?b]) @ map (enc t) [?b..<j])"
    using block_dir.IH(2) [of "m @ map (enc t) [i..<?b]"] block_dir.prems(1) block_dir.hyps(5) room by simp
  moreover have "[i..<j] = [i..<?b] @ [?b..<j]"
    using block_dir.hyps(5) bj upt_add_eq_append [of i ?b "j - ?b"] by simp
  ultimately show ?case
    using block_dir.hyps(2,3,5) bj
    by (simp add: emit_from.simps [of _ _ i] after_def)
qed

text \<open>The root's entries, and what is added to the root.\<close>

lemma emit_root:
  assumes "tree t" "emit_from t bytes 1 (t_count t) 0 [ent_bytes (t_e t ! 0) 0 0] = Some m"
    and "(length m + length (adds_to t {0})) * ENTRY \<le> bytes" "ENTRY \<le> bytes"
  shows "emit_dir t bytes 0 0 [] = Some (set_next 0 (m @ map (enc t) (adds_to t {0})))"
proof -
  have "0 < length (t_e t)" using assms(1) by (auto simp: tree_def forward_def)
  then show ?thesis
    using assms emit_added_adds [of m t 0 bytes]
    by (simp add: emit_dir.simps [of _ _ 0] emit_entry_def end_of_def Let_def)
qed

definition added_to_dirs :: "table \<Rightarrow> bool" where
  "added_to_dirs t \<longleftrightarrow> (\<forall>k. t_count t \<le> k \<and> k < length (t_e t) \<longrightarrow>
     (\<exists>d<t_count t. e_dir (t_e t ! d) \<and> e_add_dir (t_e t ! k) = int d))"

lemma serialise_whole:
  assumes t: "tree t" and adds: "added_to_dirs t"
  shows "\<exists>out. serialise t = Some (Some out) \<and> length out \<ge> length (t_str t)
    \<and> drop (length out - length (t_str t)) out = t_str t"
proof -
  let ?c = "t_count t" and ?ne = "length (t_e t)"
  have c: "0 < ?c" "?c \<le> ?ne" "e_dir (t_e t ! 0)" "block (t_e t) 0 1 ?c"
    using t by (auto simp: tree_def forward_def)
  have "adds_to t ({0} \<union> dirs_in t 1 ?c) = [?c..<?ne]"
    unfolding adds_to_def using adds c(1)
    by (intro filter_True) (fastforce simp: added_to_dirs_def dirs_in_def image_iff)
  then have total: "length (adds_to t {0}) + length (adds_to t (dirs_in t 1 ?c)) = ?ne - ?c"
    by (subst adds_to_union [symmetric]) (auto simp: dirs_in_def)
  let ?bytes = "?ne * ENTRY + length (t_str t)" and ?head = "ent_bytes (t_e t ! 0) 0 0"
  have room: "n * ENTRY \<le> ?bytes" if "n \<le> ?ne" for n
    using that by (intro trans_le_add1 mult_le_mono1)
  have "length [?head] + (?c - 1) + length (adds_to t (dirs_in t 1 ?c)) \<le> ?ne"
    using total c by simp
  then obtain m where m: "emit_from t ?bytes 1 ?c 0 [?head] = Some ([?head] @ m)"
      "length m = (?c - 1) + length (adds_to t (dirs_in t 1 ?c))"
    using emit_block_length [OF c(4), of "[?head]" ?bytes 0, OF room] by blast
  have len: "length ([?head] @ m) + length (adds_to t {0}) = ?ne" using m(2) total c by simp
  then have "emit_dir t ?bytes 0 0 [] = Some (set_next 0 (([?head] @ m) @ map (enc t) (adds_to t {0})))"
    using c room [of 1] by (intro emit_root [OF t m(1)] room) simp_all
  moreover have "length (set_next 0 (([?head] @ m) @ map (enc t) (adds_to t {0}))) = ?ne"
    using len by (simp add: set_next_def)
  ultimately show ?thesis
    by (simp add: serialise_def Let_def)
qed

text \<open>The table's own bytes where nothing is added: the entries in their order, then the names.\<close>

lemma serialise_plain:
  assumes t: "tree t" and plain: "t_count t = length (t_e t)"
    and root: "e_a (t_e t ! 0) = 0" "unat (e_b (t_e t ! 0)) = t_count t"
  shows "serialise t = Some (Some (concat (map (enc t) [0..<t_count t]) @ t_str t))"
proof -
  let ?c = "t_count t"
  have c: "0 < ?c" "block (t_e t) 0 1 ?c" "?c < 2 ^ 32"
    using t by (auto simp: tree_def forward_def)
  have none: "adds_to t {0} = []" by (simp add: adds_to_def plain)
  let ?bytes = "?c * ENTRY + length (t_str t)" and ?head = "ent_bytes (t_e t ! 0) 0 0"
  have bytes: "?c * ENTRY \<le> ?bytes" "ENTRY \<le> ?bytes" using c(1) by (cases ?c; simp)+
  have "emit_from t ?bytes 1 ?c 0 [?head] = Some ([?head] @ map (enc t) [1..<?c])"
    using emit_block_plain [OF c(2) plain, of "[?head]" ?bytes] bytes by simp
  then have "emit_dir t ?bytes 0 0 [] = Some (set_next 0 (([?head] @ map (enc t) [1..<?c]) @ map (enc t) (adds_to t {0})))"
    using bytes c(1) by (intro emit_root [OF t]) (simp_all add: none)
  moreover have "set_next 0 (?head # map (enc t) [1..<?c]) = map (enc t) [0..<?c]"
    using set_next_dir [of "[]" 0 "e_b (t_e t ! 0)" "map (enc t) [1..<?c]" "t_e t ! 0" 0] c(1,3) root
    by (simp add: enc_def upt_conv_Cons [of 0])
  ultimately show ?thesis by (simp add: serialise_def none Let_def flip: plain)
qed

section \<open>The rebuilt bytes\<close>

definition replace_entry :: "table \<Rightarrow> nat \<Rightarrow> u32 \<Rightarrow> u32 \<Rightarrow> table" where
  "replace_entry t k off len = t\<lparr>t_e := (t_e t)[k := (t_e t ! k)\<lparr>e_a := off, e_b := len\<rparr>]\<rparr>"

text \<open>A table as the disc's tools write it: directories are marked 1, the root has no parent.\<close>

definition plain_marks :: "u8 list \<Rightarrow> bool" where
  "plain_marks img \<longleftrightarrow> (\<forall>i<unat (get32_at img 8). img ! (i * ENTRY) \<le> 1) \<and> get32_at img 4 = 0"

lemma concat_chunks:
  assumes "i \<le> j" "j * n \<le> length xs"
  shows "concat (map (\<lambda>k. take n (drop (k * n) xs)) [i..<j]) = take ((j - i) * n) (drop (i * n) xs)"
  using assms
proof (induction "j - i" arbitrary: i)
  case (Suc d)
  then have "concat (map (\<lambda>k. take n (drop (k * n) xs)) [Suc i..<j]) = take (d * n) (drop (Suc i * n) xs)"
    by (metis Suc_diff_Suc Suc_leI diff_Suc_1 zero_less_Suc zero_less_diff)
  moreover have "i < j" using Suc.hyps(2) by simp
  ultimately show ?case
    using take_add [of n "d * n" "drop (i * n) xs"]
    by (simp add: upt_conv_Cons add.commute flip: Suc.hyps(2))
qed simp

lemma dir_byte: "img ! p \<le> 1 \<Longrightarrow> (if img ! p \<noteq> 0 then 1 else 0) = (img ! p :: u8)"
  by (metis One_nat_def le_Suc_eq le_zero_eq unsigned_0 unsigned_1 unsigned_word_eqI word_le_nat_alt)

lemma of_nat_u8: "n mod 256 = unat c \<Longrightarrow> of_nat n = (c :: u8)"
  by (simp add: word_unat_eq_iff unsigned_of_nat take_bit_eq_mod)

lemma base_256:
  fixes a b c :: nat
  assumes "a < 256" "b < 256" "c < 256"
  shows "(a * 65536 + b * 256 + c) mod 256 = c" "(a * 65536 + b * 256 + c) div 256 mod 256 = b"
    "(a * 65536 + b * 256 + c) div 65536 mod 256 = a"
proof -
  have "a * 65536 + b * 256 + c = c + 256 * (b + 256 * a)" "b * 256 + c < 65536" using assms by simp_all
  then show "(a * 65536 + b * 256 + c) mod 256 = c" "(a * 65536 + b * 256 + c) div 256 mod 256 = b"
    "(a * 65536 + b * 256 + c) div 65536 mod 256 = a"
    using assms by (simp_all only: mod_mult_self2 div_mult_self2 mod_less div_less) auto
qed

lemma enc_read_entry:
  assumes "img ! (i * ENTRY) \<le> 1" "(i + 1) * ENTRY \<le> length img"
  shows "ent_bytes (read_entry img i) (e_a (read_entry img i)) (e_b (read_entry img i)) = take ENTRY (drop (i * ENTRY) img)"
proof -
  let ?p = "i * ENTRY"
  have b3: "of_nat (unat a * 65536 + unat b * 256 + unat c) = (c :: u8)"
      "of_nat ((unat a * 65536 + unat b * 256 + unat c) div 256) = (b :: u8)"
      "of_nat ((unat a * 65536 + unat b * 256 + unat c) div 65536) = (a :: u8)" for a b c :: u8
  proof -
    have "(unat a * 65536 + unat b * 256 + unat c) mod 256 = unat c"
        "(unat a * 65536 + unat b * 256 + unat c) div 256 mod 256 = unat b"
        "(unat a * 65536 + unat b * 256 + unat c) div 65536 mod 256 = unat a"
      by (rule base_256; rule unat_u8)+
    then show "of_nat (unat a * 65536 + unat b * 256 + unat c) = (c :: u8)"
      "of_nat ((unat a * 65536 + unat b * 256 + unat c) div 256) = (b :: u8)"
      "of_nat ((unat a * 65536 + unat b * 256 + unat c) div 65536) = (a :: u8)"
      by (simp_all only: of_nat_u8)
  qed
  have "ent_bytes (read_entry img i) (e_a (read_entry img i)) (e_b (read_entry img i)) =
      [img ! ?p, img ! (?p + 1), img ! (?p + 2), img ! (?p + 3)]
      @ [img ! (?p + 4), img ! (?p + 4 + 1), img ! (?p + 4 + 2), img ! (?p + 4 + 3)]
      @ [img ! (?p + 8), img ! (?p + 8 + 1), img ! (?p + 8 + 2), img ! (?p + 8 + 3)]"
    by (simp only: ent_bytes_def read_entry_def Let_def ent.simps b3 dir_byte [OF assms(1)] get32_at_def get32_put32)
  also have "\<dots> = map (\<lambda>k. img ! (?p + k)) [0..<12]"
    by (simp add: upt_conv_Cons numeral_eq_Suc)
  also have "\<dots> = take ENTRY (drop ?p img)"
    using assms(2) by (intro nth_equalityI) (auto simp: ENTRY_def)
  finally show ?thesis .
qed

lemma enc_parsed:
  assumes "parse img = Inr t" "plain_marks img" "i < t_count t"
  shows "enc t i = take ENTRY (drop (i * ENTRY) img)"
proof -
  note p = parse_ok [OF assms(1)]
  have "(i + 1) * ENTRY \<le> t_count t * ENTRY" using assms(3) by (intro mult_le_mono1) simp
  then have "(i + 1) * ENTRY \<le> length img" using p(3) by linarith
  moreover have "img ! (i * ENTRY) \<le> 1" using assms(2,3) p(1) by (simp add: plain_marks_def)
  ultimately show ?thesis using assms(3) p(4) by (simp add: enc_def enc_read_entry)
qed

lemma block_replace_file:
  "block e p i j \<Longrightarrow> \<not> e_dir (e ! k) \<Longrightarrow> block (e[k := (e ! k)\<lparr>e_a := a, e_b := b\<rparr>]) p i j"
proof (induction rule: block.induct)
  case (block_dir i p j)
  then have "k \<noteq> i" by auto
  then have same: "e[k := (e ! k)\<lparr>e_a := a, e_b := b\<rparr>] ! i = e ! i" by simp
  show ?case
    by (rule block.block_dir) (use block_dir in \<open>simp_all only: same length_list_update simp_thms\<close>)
next
  case (block_file i p j)
  have "\<not> e_dir (e[k := (e ! k)\<lparr>e_a := a, e_b := b\<rparr>] ! i)"
    using block_file by (cases "k = i") simp_all
  then show ?case
    by (rule block.block_file [rotated]) (use block_file in simp_all)
qed (rule block.block_end)

lemma tree_replace_file:
  assumes "tree t" "k < length (t_e t)" "\<not> e_dir (t_e t ! k)"
  shows "tree (replace_entry t k a b)"
proof -
  let ?t = "replace_entry t k a b"
  have len: "length (t_e ?t) = length (t_e t)" "t_count ?t = t_count t" by (simp_all add: replace_entry_def)
  have same: "e_dir (t_e ?t ! i) = e_dir (t_e t ! i)" "named ?t i = named t i"
      "e_dir (t_e t ! i) \<Longrightarrow> e_b (t_e ?t ! i) = e_b (t_e t ! i)" for i
    using assms(2,3) by (auto simp: replace_entry_def named_def nth_list_update)
  have "forward ?t" using assms(1) by (simp add: tree_def forward_def len same)
  moreover have "block (t_e ?t) 0 1 (t_count t)"
    using assms(1) block_replace_file [OF _ assms(3)] by (simp add: tree_def replace_entry_def)
  ultimately show ?thesis using assms(1) by (simp add: tree_def len)
qed

text \<open>C14: Rebuilding the table of a disc as it is gives it back byte for byte, and with one file
  replaced, only the eight bytes of that file's offset and length change.\<close>

theorem base_table_rebuilt:
  assumes "parse img = Inr t" "tree t" "plain_marks img" "k < t_count t" "\<not> e_dir (t_e t ! k)"
  shows "serialise t = Some (Some img)
    \<and> serialise (replace_entry t k off len) = Some (Some
        (take (k * ENTRY + 4) img @ put32 off @ put32 len @ drop ((k + 1) * ENTRY) img))"
proof
  note p = parse_ok [OF assms(1)]
  let ?c = "t_count t"
  have n: "length (t_e t) = ?c" using p(4) by simp
  have root: "e_a (t_e t ! 0) = 0" "unat (e_b (t_e t ! 0)) = ?c"
    using p assms(3) by (simp_all add: read_entry_def plain_marks_def Let_def)
  have chunks: "concat (map (enc t) [i..<j]) = take ((j - i) * ENTRY) (drop (i * ENTRY) img)" if "i \<le> j" "j \<le> ?c" for i j
  proof -
    have "map (enc t) [i..<j] = map (\<lambda>k. take ENTRY (drop (k * ENTRY) img)) [i..<j]"
      using that by (intro map_cong refl) (simp add: enc_parsed [OF assms(1,3)])
    moreover have "j * ENTRY \<le> length img" using that(2) p(3) by (meson mult_le_mono1 order_trans)
    ultimately show ?thesis using that(1) by (simp only: concat_chunks)
  qed
  show "serialise t = Some (Some img)"
    using serialise_plain [OF assms(2) _ root] n chunks [of 0 ?c] p(5) by simp
  let ?t = "replace_entry t k off len"
  have "k \<noteq> 0" using assms(2,5) by (auto simp: tree_def forward_def intro: gr0I)
  then have "serialise ?t = Some (Some (concat (map (enc ?t) [0..<?c]) @ t_str t))"
    using serialise_plain [OF tree_replace_file [OF assms(2) _ assms(5)], of off len] n root assms(4)
    by (simp add: replace_entry_def)
  moreover have "concat (map (enc ?t) [0..<?c]) =
      concat (map (enc t) [0..<k]) @ enc ?t k @ concat (map (enc t) [Suc k..<?c])"
  proof -
    have "[0..<?c] = [0..<k] @ k # [Suc k..<?c]"
      using assms(4) by (metis le_add1 less_imp_add_positive plus_nat.add_0 upt_add_eq_append upt_conv_Cons)
    moreover have "enc ?t i = enc t i" if "i \<noteq> k" for i using that by (simp add: enc_def replace_entry_def)
    then have "map (enc ?t) [0..<k] = map (enc t) [0..<k]" "map (enc ?t) [Suc k..<?c] = map (enc t) [Suc k..<?c]"
      by simp_all
    ultimately show ?thesis by (simp only: map_append list.map concat_append concat.simps)
  qed
  moreover have "enc ?t k = take 4 (enc t k) @ put32 off @ put32 len"
    using assms(4) n by (simp add: enc_def replace_entry_def ent_bytes_def)
  moreover have "take 4 (enc t k) = take 4 (drop (k * ENTRY) img)"
    using enc_parsed [OF assms(1,3,4)] by (simp add: ENTRY_def)
  moreover have "take ((?c - Suc k) * ENTRY) (drop (Suc k * ENTRY) img) @ t_str t = drop (Suc k * ENTRY) img"
  proof -
    have "t_str t = drop ((?c - Suc k) * ENTRY) (drop (Suc k * ENTRY) img)"
      using assms(4) by (simp only: p(5) drop_drop flip: add_mult_distrib) simp
    then show ?thesis by (simp only: append_take_drop_id)
  qed
  ultimately show "serialise ?t = Some (Some
      (take (k * ENTRY + 4) img @ put32 off @ put32 len @ drop ((k + 1) * ENTRY) img))"
    using chunks [of 0 k] chunks [of "Suc k" ?c] assms(4) by (simp add: take_add)
qed

text \<open>A disc of two files and a directory, for the witness.\<close>

definition small_disc :: "u8 list" where
  "small_disc = [1, 0, 0, 0,  0, 0, 0, 0,  0, 0, 0, 4,
                 1, 0, 0, 0,  0, 0, 0, 0,  0, 0, 0, 3,
                 0, 0, 0, 2,  0, 0, 8, 0,  0, 0, 0, 5,
                 0, 0, 0, 4,  0, 0, 9, 0,  0, 0, 0, 7,
                 0x64, 0, 0x61, 0, 0x62, 0]"

definition small_table :: table where
  "small_table = \<lparr>t_count = 4,
     t_e = [\<lparr>e_dir = True, e_name = 0, e_a = 0, e_b = 4, e_add_dir = - 1\<rparr>,
            \<lparr>e_dir = True, e_name = 0, e_a = 0, e_b = 3, e_add_dir = - 1\<rparr>,
            \<lparr>e_dir = False, e_name = 2, e_a = 0x800, e_b = 5, e_add_dir = - 1\<rparr>,
            \<lparr>e_dir = False, e_name = 4, e_a = 0x900, e_b = 7, e_add_dir = - 1\<rparr>],
     t_str = [0x64, 0, 0x61, 0, 0x62, 0]\<rparr>"

lemma small_entries:
  "read_entry small_disc 0 = t_e small_table ! 0" "read_entry small_disc 1 = t_e small_table ! 1"
  "read_entry small_disc 2 = t_e small_table ! 2" "read_entry small_disc 3 = t_e small_table ! 3"
  by (simp_all add: read_entry_def small_disc_def small_table_def ENTRY_def Let_def get32_at_def get32_def)

lemma small_disc_head: "get32_at small_disc 8 = 4" "get32_at small_disc 4 = 0" "length small_disc = 54" "small_disc ! 0 = 1"
  by (simp_all add: small_disc_def get32_at_def get32_def)

lemma small_parse: "parse small_disc = Inr small_table"
proof -
  have "drop 48 small_disc = t_str small_table" by (simp add: small_disc_def small_table_def)
  moreover have "[0..<4] = [0, 1, 2, 3 :: nat]" by (simp add: upt_conv_Cons)
  ultimately show ?thesis
    by (simp add: parse_def ENTRY_def Let_def small_disc_head small_entries entry_fault_def del: One_nat_def)
      (simp add: small_table_def)
qed

lemma small_tree: "tree small_table"
proof -
  have "forward small_table" using parse_ok(6) [OF small_parse] .
  moreover have "block (t_e small_table) 0 1 4"
  proof -
    let ?e = "t_e small_table"
    have e: "length ?e = 4" "e_dir (?e ! 1)" "e_a (?e ! 1) = 0" "e_b (?e ! 1) = 3" "\<not> e_dir (?e ! 2)" "\<not> e_dir (?e ! 3)"
      by (simp_all add: small_table_def)
    have "block ?e 1 2 3" using block_file [of 2 ?e 1 3] e block_end [of ?e 1 3] by simp
    moreover have "block ?e 0 3 4" using block_file [of 3 ?e 0 4] e block_end [of ?e 0 4] by simp
    ultimately show ?thesis
      by (intro block_dir [of 1]) (simp_all add: e Suc_1 del: One_nat_def)
  qed
  ultimately show ?thesis by (simp add: tree_def small_table_def)
qed

theorem base_table_rebuilt_witness:
  "serialise small_table = Some (Some small_disc)
   \<and> serialise (replace_entry small_table 2 0x57060000 9) = Some (Some
       (take 28 small_disc @ [0x57, 0x06, 0, 0, 0, 0, 0, 9] @ drop 36 small_disc))"
proof -
  have "small_disc ! (i * ENTRY) \<le> 1" if "i < unat (get32_at small_disc 8)" for i
  proof -
    have "i = 0 \<or> i = 1 \<or> i = 2 \<or> i = 3" using that by (auto simp: small_disc_head)
    then show ?thesis by (elim disjE) (simp_all add: ENTRY_def small_disc_def)
  qed
  then have "plain_marks small_disc" by (simp add: plain_marks_def small_disc_head)
  moreover have "put32 0x57060000 = [0x57, 0x06, 0, 0]" "put32 9 = [0, 0, 0, 9]"
    by (simp_all add: put32_def)
  ultimately show ?thesis
    using base_table_rebuilt [OF small_parse small_tree, where k = 2 and off = "0x57060000" and len = 9]
    by (simp add: small_table_def ENTRY_def)
qed

text \<open>A subdirectory whose end lies past its parent's passes the parse, and its entries are then
  emitted twice: here the fifth entry of four is written past the end of the buffer.\<close>

definition overlapping :: "u8 list" where
  "overlapping = [1, 0, 0, 0,  0, 0, 0, 0,  0, 0, 0, 4,
                  1, 0, 0, 0,  0, 0, 0, 0,  0, 0, 0, 3,
                  1, 0, 0, 0,  0, 0, 0, 1,  0, 0, 0, 4,
                  0, 0, 0, 0,  0, 0, 9, 0,  0, 0, 0, 7,
                  0x61, 0]"

definition overlapping_table :: table where
  "overlapping_table = \<lparr>t_count = 4,
     t_e = [\<lparr>e_dir = True, e_name = 0, e_a = 0, e_b = 4, e_add_dir = - 1\<rparr>,
            \<lparr>e_dir = True, e_name = 0, e_a = 0, e_b = 3, e_add_dir = - 1\<rparr>,
            \<lparr>e_dir = True, e_name = 0, e_a = 1, e_b = 4, e_add_dir = - 1\<rparr>,
            \<lparr>e_dir = False, e_name = 0, e_a = 0x900, e_b = 7, e_add_dir = - 1\<rparr>],
     t_str = [0x61, 0]\<rparr>"

lemma overlapping_directories_overflow:
  "parse overlapping = Inr overlapping_table \<and> serialise overlapping_table = None"
proof
  have "read_entry overlapping 0 = t_e overlapping_table ! 0" "read_entry overlapping 1 = t_e overlapping_table ! 1"
    "read_entry overlapping 2 = t_e overlapping_table ! 2" "read_entry overlapping 3 = t_e overlapping_table ! 3"
    by (simp_all add: read_entry_def overlapping_def overlapping_table_def ENTRY_def Let_def get32_at_def get32_def)
  moreover have "get32_at overlapping 8 = 4" "length overlapping = 50" "overlapping ! 0 = 1"
    by (simp_all add: overlapping_def get32_at_def get32_def)
  moreover have "drop 48 overlapping = t_str overlapping_table" by (simp add: overlapping_def overlapping_table_def)
  moreover have "[0..<4] = [0, 1, 2, 3 :: nat]" by (simp add: upt_conv_Cons)
  ultimately show "parse overlapping = Inr overlapping_table"
    by (simp add: parse_def ENTRY_def Let_def entry_fault_def del: One_nat_def)
      (simp add: overlapping_table_def)
  show "serialise overlapping_table = None"
    by (simp add: serialise_def overlapping_table_def emit_dir.simps emit_from.simps emit_entry_def end_of_def after_def
        set_next_def ENTRY_def Let_def)
qed

end
