(* ===== verification/VfstBuild.thy ===== *)
theory VfstBuild
  imports VfstTable
begin

text \<open>
  runtime/vfst.c, second part: the build of the virtual disc from the mods' files.txt lines, the
  check of the rebuilt table and the serving of the virtual extents. A line is a \<open>file_op\<close>; what
  only its messages use (the mod's name, the line's number, whether it was warned of) is left
  out, and so are the messages. The statics \<open>g_vx\<close> are the list of extents. As in the table's
  theory \<open>None\<close> is an access outside an array or a loop that does not end.
\<close>

section \<open>Lines, extents and the pass's state\<close>

definition DISC_OVERLAY_BASE :: nat where "DISC_OVERLAY_BASE = 0x57060000"
definition DISC_OVERLAY_END :: nat where "DISC_OVERLAY_END = 0x80000000"
definition ALIGN :: nat where "ALIGN = 32 * 1024"
definition MEM_CAP :: nat where "MEM_CAP = 256 * 2 ^ 20"
definition SOURCE_CAP :: nat where "SOURCE_CAP = 16 * 2 ^ 20"

datatype verb = Replace | Add | Alias

record file_op =
  op_verb :: verb
  op_path :: "u8 list"
  op_target :: "u8 list"
  op_data :: "u8 list"
  op_size :: u32
  op_mod_index :: int
  op_refused :: bool
  op_offset :: u32

record vextent =
  vx_off :: nat
  vx_size :: nat
  vx_data :: "u8 list"
  vx_path :: "u8 list"

record pass =
  p_t :: table
  p_ops :: "file_op list"
  p_vx :: "vextent list"
  p_claims :: "(u8 list \<times> nat) list"
  p_cursor :: nat
  p_mem :: nat

datatype placed = Placed pass | Refuse | Collision

section \<open>Paths\<close>

definition DOT :: u8 where "DOT = 0x2E"

text \<open>No empty, dot or dot-dot component.\<close>

function valid_components :: "u8 list \<Rightarrow> bool" where
  "valid_components s =
     (if s = [] then True
      else if component s \<in> {[], [DOT], [DOT, DOT]} then False
      else case drop (length (component s)) s of [] \<Rightarrow> True | c # rest \<Rightarrow> valid_components rest)"
  by pat_completeness auto
termination by (relation "measure length") (auto dest!: arg_cong [where f = length])

declare valid_components.simps [simp del]

definition valid_path :: "u8 list \<Rightarrow> bool" where
  "valid_path p \<longleftrightarrow> p \<noteq> [] \<and> length p \<le> 255 \<and> hd p \<noteq> SLASH \<and> last p \<noteq> SLASH
     \<and> (\<forall>c\<in>set p. 0x21 \<le> c \<and> c \<le> 0x7E \<and> c \<noteq> 0x5C) \<and> valid_components p"

text \<open>What stands before and after the last slash.\<close>

definition dir_part :: "u8 list \<Rightarrow> u8 list" where
  "dir_part p = rev (tl (dropWhile (\<lambda>c. c \<noteq> SLASH) (rev p)))"

definition last_part :: "u8 list \<Rightarrow> u8 list" where
  "last_part p = rev (takeWhile (\<lambda>c. c \<noteq> SLASH) (rev p))"

section \<open>One line placed\<close>

text \<open>The directory a new name goes in, when the disc has it.\<close>

definition home_of :: "table \<Rightarrow> u8 list \<Rightarrow> nat option option" where
  "home_of t path = do {
     d \<leftarrow> walk t (dir_part path);
     Some (case d of None \<Rightarrow> None | Some d \<Rightarrow> if e_dir (t_e t ! d) then Some d else None) }"

text \<open>A replace or an add: the caps, the table, then the extent and the cursor.\<close>

definition over_caps :: "pass \<Rightarrow> file_op \<Rightarrow> bool" where
  "over_caps s oper \<longleftrightarrow> unat (op_size oper) > SOURCE_CAP \<or> p_mem s + unat (op_size oper) > MEM_CAP
     \<or> p_cursor s + unat (op_size oper) > DISC_OVERLAY_END"

definition table_with :: "pass \<Rightarrow> file_op \<Rightarrow> table option option" where
  "table_with s oper =
     (if op_verb oper = Replace then do {
        place \<leftarrow> walk (p_t s) (op_path oper);
        Some (case place of None \<Rightarrow> None
          | Some i \<Rightarrow> if e_dir (t_e (p_t s) ! i) then None
                      else Some (replace_entry (p_t s) i (of_nat (p_cursor s)) (op_size oper))) }
      else do {
        there \<leftarrow> find_path (p_t s) (op_path oper);
        if there \<noteq> None then Some None
        else do {
          d \<leftarrow> home_of (p_t s) (op_path oper);
          Some (case d of None \<Rightarrow> None
            | Some d \<Rightarrow> Some (add_entry (p_t s) d (last_part (op_path oper)) (of_nat (p_cursor s)) (op_size oper))) } })"

definition aligned_after :: "nat \<Rightarrow> nat" where
  "aligned_after n = (n + ALIGN - 1) div ALIGN * ALIGN + ALIGN"

definition place_file :: "nat \<Rightarrow> file_op \<Rightarrow> pass \<Rightarrow> placed option" where
  "place_file k oper s =
     (if over_caps s oper then Some Refuse
      else do {
        t \<leftarrow> table_with s oper;
        Some (case t of None \<Rightarrow> Refuse
          | Some t \<Rightarrow> Placed (s\<lparr>p_t := t,
              p_vx := p_vx s @ [\<lparr>vx_off = p_cursor s, vx_size = unat (op_size oper), vx_data = op_data oper,
                                 vx_path = op_path oper\<rparr>],
              p_ops := (p_ops s)[k := oper\<lparr>op_offset := of_nat (p_cursor s)\<rparr>],
              p_mem := p_mem s + unat (op_size oper),
              p_cursor := aligned_after (p_cursor s + unat (op_size oper)),
              p_claims := p_claims s @ [(op_path oper, k)]\<rparr>)) })"

text \<open>An alias names a file of the disc or an added one, not another alias.\<close>

definition names_alias :: "file_op list \<Rightarrow> nat \<Rightarrow> u8 list \<Rightarrow> bool" where
  "names_alias ops k target \<longleftrightarrow> (\<exists>j<length ops. j \<noteq> k \<and> op_verb (ops ! j) = Alias \<and> \<not> op_refused (ops ! j)
     \<and> same_name (op_path (ops ! j)) target)"

definition place_alias :: "nat \<Rightarrow> file_op \<Rightarrow> pass \<Rightarrow> placed option" where
  "place_alias k oper s = do {
     there \<leftarrow> find_path (p_t s) (op_path oper);
     if there \<noteq> None \<or> names_alias (p_ops s) k (op_target oper) then Some Refuse
     else do {
       target \<leftarrow> find_path (p_t s) (op_target oper);
       case target of None \<Rightarrow> Some Refuse
       | Some i \<Rightarrow>
           if e_dir (t_e (p_t s) ! i) then Some Refuse
           else do {
             d \<leftarrow> home_of (p_t s) (op_path oper);
             Some (case d of None \<Rightarrow> Refuse
               | Some d \<Rightarrow> let x = t_e (p_t s) ! i in
                   Placed (s\<lparr>p_t := add_entry (p_t s) d (last_part (op_path oper)) (e_a x) (e_b x),
                     p_ops := (p_ops s)[k := oper\<lparr>op_offset := e_a x, op_size := e_b x\<rparr>],
                     p_claims := p_claims s @ [(op_path oper, k)]\<rparr>)) } } }"

definition place_op :: "nat \<Rightarrow> pass \<Rightarrow> placed option" where
  "place_op k s =
     (let oper = p_ops s ! k in
      if \<not> valid_path (op_path oper) then Some Refuse
      else case List.find (\<lambda>c. same_name (fst c) (op_path oper)) (p_claims s) of
        Some c \<Rightarrow> Some (if op_mod_index (p_ops s ! snd c) = op_mod_index oper then Refuse else Collision)
      | None \<Rightarrow> if op_verb oper = Alias then place_alias k oper s else place_file k oper s)"

section \<open>The build\<close>

text \<open>Phase 1 places every replace and add, phase 2 every alias. A refused line refuses its mod.\<close>

definition refuse_mod :: "int \<Rightarrow> file_op list \<Rightarrow> file_op list" where
  "refuse_mod m ops = map (\<lambda>oper. if op_mod_index oper = m then oper\<lparr>op_refused := True\<rparr> else oper) ops"

datatype pass_end = Built | Again | Clash

definition skipped :: "bool \<Rightarrow> file_op \<Rightarrow> bool" where
  "skipped first oper \<longleftrightarrow> op_refused oper \<or> first \<noteq> (op_verb oper \<noteq> Alias)"

fun pass_loop :: "(bool \<times> nat) list \<Rightarrow> pass \<Rightarrow> (pass_end \<times> pass) option" where
  "pass_loop [] s = Some (Built, s)"
| "pass_loop ((first, k) # rest) s =
     (if skipped first (p_ops s ! k) then pass_loop rest s
      else do {
        r \<leftarrow> place_op k s;
        case r of Placed s1 \<Rightarrow> pass_loop rest s1
        | Refuse \<Rightarrow> Some (Again, s\<lparr>p_ops := refuse_mod (op_mod_index (p_ops s ! k)) (p_ops s)\<rparr>)
        | Collision \<Rightarrow> Some (Clash, s) })"

definition pass_start :: "table \<Rightarrow> file_op list \<Rightarrow> pass" where
  "pass_start t ops = \<lparr>p_t = t, p_ops = ops, p_vx = [], p_claims = [], p_cursor = DISC_OVERLAY_BASE, p_mem = 0\<rparr>"

definition pass_order :: "nat \<Rightarrow> (bool \<times> nat) list" where
  "pass_order n = map (Pair True) [0..<n] @ map (Pair False) [0..<n]"

definition build_pass :: "table \<Rightarrow> file_op list \<Rightarrow> (pass_end \<times> pass) option" where
  "build_pass t ops = pass_loop (pass_order (length ops)) (pass_start t ops)"

section \<open>The check\<close>

text \<open>The directory among the entries from \<open>x\<close> on that holds entry \<open>i\<close>.\<close>

function holder :: "table \<Rightarrow> nat \<Rightarrow> nat \<Rightarrow> nat \<Rightarrow> nat option option" where
  "holder b i x limit =
     (if x < limit \<and> x \<le> i then
        if x \<ge> length (t_e b) then None
        else if e_dir (t_e b ! x) \<and> i < unat (e_b (t_e b ! x)) \<and> x < i then Some (Some x)
        else if after b x \<le> x then None
        else holder b i (after b x) limit
      else Some None)"
  by pat_completeness auto
termination by (relation "measure (\<lambda>(b, i, x, limit). length (t_e b) - x)") auto

declare holder.simps [simp del]

text \<open>The directories holding entry \<open>i\<close> from \<open>d\<close> down, in an array of 32.\<close>

fun holders :: "nat \<Rightarrow> table \<Rightarrow> nat \<Rightarrow> nat \<Rightarrow> nat list option" where
  "holders room b i d =
     (if d < i then
        if d \<ge> length (t_e b) then None
        else do {
          nxt \<leftarrow> holder b i (d + 1) (end_of b d);
          case nxt of None \<Rightarrow> Some []
          | Some x \<Rightarrow> (case room of 0 \<Rightarrow> None | Suc room1 \<Rightarrow> do { ds \<leftarrow> holders room1 b i x; Some (x # ds) }) }
      else Some [])"

declare holders.simps [simp del]

definition base_path :: "table \<Rightarrow> nat \<Rightarrow> u8 list option" where
  "base_path b i = do {
     chain \<leftarrow> holders 32 b i 0;
     buf \<leftarrow> print_dirs b chain ([], 0);
     nm \<leftarrow> name_of b i;
     buf1 \<leftarrow> print_at buf nm;
     Some (fst buf1) }"

definition replaced_by :: "file_op list \<Rightarrow> u8 list \<Rightarrow> file_op option" where
  "replaced_by ops path = List.find (\<lambda>oper. \<not> op_refused oper \<and> op_verb oper = Replace \<and> same_name (op_path oper) path)
     (rev ops)"

definition wanted :: "table \<Rightarrow> file_op list \<Rightarrow> nat \<Rightarrow> u8 list \<Rightarrow> u32 \<times> u32" where
  "wanted b ops i path = (case replaced_by ops path of Some oper \<Rightarrow> (op_offset oper, op_size oper)
     | None \<Rightarrow> (e_a (t_e b ! i), e_b (t_e b ! i)))"

fun check_base :: "table \<Rightarrow> table \<Rightarrow> file_op list \<Rightarrow> nat list \<Rightarrow> bool option" where
  "check_base b r ops [] = Some True"
| "check_base b r ops (i # is) =
     (if e_dir (t_e b ! i) then check_base b r ops is
      else do {
        path \<leftarrow> base_path b i;
        place \<leftarrow> walk r path;
        case place of None \<Rightarrow> Some False
        | Some j \<Rightarrow>
            if (e_a (t_e r ! j), e_b (t_e r ! j)) \<noteq> wanted b ops i path then Some False
            else check_base b r ops is })"

fun check_placed :: "table \<Rightarrow> file_op list \<Rightarrow> bool option" where
  "check_placed r [] = Some True"
| "check_placed r (oper # ops) =
     (if op_refused oper \<or> op_verb oper = Replace then check_placed r ops
      else do {
        place \<leftarrow> walk r (op_path oper);
        case place of None \<Rightarrow> Some False
        | Some j \<Rightarrow> if e_a (t_e r ! j) \<noteq> op_offset oper then Some False else check_placed r ops })"

definition disc_overlay_check :: "u8 list \<Rightarrow> u8 list \<Rightarrow> file_op list \<Rightarrow> bool option" where
  "disc_overlay_check base out ops =
     (case (parse base, parse out) of
        (Inr b, Inr r) \<Rightarrow>
          if t_count r \<noteq> t_count b + length (filter (\<lambda>oper. \<not> op_refused oper \<and> op_verb oper \<noteq> Replace) ops)
          then Some False
          else do {
            fine \<leftarrow> check_base b r ops [1..<t_count b];
            if fine then check_placed r ops else Some False }
      | _ \<Rightarrow> Some False)"

section \<open>The whole build\<close>

text \<open>A placed line keeps everything a refusal is judged by.\<close>

definition same_lines :: "file_op list \<Rightarrow> file_op list \<Rightarrow> bool" where
  "same_lines ops ops' \<longleftrightarrow> map op_refused ops' = map op_refused ops \<and> map op_mod_index ops' = map op_mod_index ops
     \<and> map op_verb ops' = map op_verb ops \<and> map op_path ops' = map op_path ops"

lemma same_lines_refl: "same_lines ops ops" by (simp add: same_lines_def)

lemma same_lines_trans: "same_lines a b \<Longrightarrow> same_lines b c \<Longrightarrow> same_lines a c"
  by (simp add: same_lines_def)

lemma same_lines_update:
  "op_refused x = op_refused (ops ! k) \<Longrightarrow> op_mod_index x = op_mod_index (ops ! k) \<Longrightarrow> op_verb x = op_verb (ops ! k)
     \<Longrightarrow> op_path x = op_path (ops ! k) \<Longrightarrow> same_lines ops (ops[k := x])"
  by (simp add: same_lines_def map_update) (metis list_update_id map_update)

lemma place_file_Placed:
  assumes "place_file k oper s = Some (Placed s1)"
  obtains t where "table_with s oper = Some (Some t)" "\<not> over_caps s oper"
    "s1 = s\<lparr>p_t := t,
       p_vx := p_vx s @ [\<lparr>vx_off = p_cursor s, vx_size = unat (op_size oper), vx_data = op_data oper,
                          vx_path = op_path oper\<rparr>],
       p_ops := (p_ops s)[k := oper\<lparr>op_offset := of_nat (p_cursor s)\<rparr>],
       p_mem := p_mem s + unat (op_size oper),
       p_cursor := aligned_after (p_cursor s + unat (op_size oper)),
       p_claims := p_claims s @ [(op_path oper, k)]\<rparr>"
  using assms by (auto simp: place_file_def bind_eq_Some_conv split: if_splits option.splits)

lemma place_alias_Placed:
  assumes "place_alias k oper s = Some (Placed s1)"
  obtains i d where "find_path (p_t s) (op_target oper) = Some (Some i)" "\<not> e_dir (t_e (p_t s) ! i)"
    "home_of (p_t s) (op_path oper) = Some (Some d)"
    "s1 = s\<lparr>p_t := add_entry (p_t s) d (last_part (op_path oper)) (e_a (t_e (p_t s) ! i)) (e_b (t_e (p_t s) ! i)),
       p_ops := (p_ops s)[k := oper\<lparr>op_offset := e_a (t_e (p_t s) ! i), op_size := e_b (t_e (p_t s) ! i)\<rparr>],
       p_claims := p_claims s @ [(op_path oper, k)]\<rparr>"
  using assms by (auto simp: place_alias_def Let_def split: bind_splits if_splits option.splits)

lemma place_op_Placed:
  assumes "place_op k s = Some (Placed s1)"
  shows "valid_path (op_path (p_ops s ! k)) \<and> List.find (\<lambda>c. same_name (fst c) (op_path (p_ops s ! k))) (p_claims s) = None
    \<and> (if op_verb (p_ops s ! k) = Alias then place_alias k (p_ops s ! k) s = Some (Placed s1)
       else place_file k (p_ops s ! k) s = Some (Placed s1))"
  using assms by (auto simp: place_op_def Let_def split: if_splits option.splits)

lemma place_op_lines:
  assumes "place_op k s = Some (Placed s1)"
  shows "same_lines (p_ops s) (p_ops s1)"
proof -
  consider "place_alias k (p_ops s ! k) s = Some (Placed s1)" | "place_file k (p_ops s ! k) s = Some (Placed s1)"
    using place_op_Placed [OF assms] by (auto split: if_splits)
  then show ?thesis
    by cases (auto elim!: place_alias_Placed place_file_Placed intro!: same_lines_update)
qed

definition unrefused :: "file_op list \<Rightarrow> nat" where
  "unrefused ops = length (filter (\<lambda>oper. \<not> op_refused oper) ops)"

lemma same_lines_unrefused: "same_lines ops ops' \<Longrightarrow> unrefused ops' = unrefused ops"
proof -
  have "unrefused xs = length (filter (\<lambda>r. \<not> r) (map op_refused xs))" for xs
    by (induction xs) (simp_all add: unrefused_def)
  then show "same_lines ops ops' \<Longrightarrow> unrefused ops' = unrefused ops" by (simp only: same_lines_def)
qed

lemma refuse_mod_fewer:
  "k < length ops \<Longrightarrow> \<not> op_refused (ops ! k) \<Longrightarrow> unrefused (refuse_mod (op_mod_index (ops ! k)) ops) < unrefused ops"
proof (induction ops arbitrary: k)
  case (Cons x xs)
  have le: "unrefused (refuse_mod m ys) \<le> unrefused ys" for m ys
    by (induction ys) (auto simp: unrefused_def refuse_mod_def)
  show ?case
  proof (cases k)
    case 0
    then show ?thesis using Cons.prems le [of "op_mod_index x" xs]
      by (simp add: unrefused_def refuse_mod_def)
  next
    case (Suc j)
    then show ?thesis using Cons.IH [of j] Cons.prems by (auto simp: unrefused_def refuse_mod_def)
  qed
qed simp

lemma pass_loop_lines:
  "pass_loop order s = Some (r, s') \<Longrightarrow> (\<forall>(first, k)\<in>set order. k < length (p_ops s)) \<Longrightarrow>
    (r \<noteq> Again \<longrightarrow> same_lines (p_ops s) (p_ops s'))
    \<and> (r = Again \<longrightarrow> unrefused (p_ops s') < unrefused (p_ops s))"
proof (induction order s rule: pass_loop.induct)
  case (1 s)
  then show ?case by (auto simp: same_lines_refl)
next
  case (2 first k rest s)
  show ?case
  proof (cases "skipped first (p_ops s ! k)")
    case True
    then show ?thesis using 2 by auto
  next
    case False
    then obtain r1 where r1: "place_op k s = Some r1" using "2.prems"(1) by (auto simp: bind_eq_Some_conv)
    show ?thesis
    proof (cases r1)
      case (Placed s1)
      then have lines: "same_lines (p_ops s) (p_ops s1)" using r1 place_op_lines by simp
      then have "length (p_ops s1) = length (p_ops s)" by (metis same_lines_def length_map)
      then show ?thesis
        using 2 False r1 Placed lines same_lines_unrefused [OF lines] by (auto intro: same_lines_trans)
    next
      case Refuse
      then show ?thesis
        using "2.prems" False r1 refuse_mod_fewer [of k "p_ops s"] by (auto simp: skipped_def)
    next
      case Collision
      then show ?thesis using "2.prems" False r1 by (auto simp: same_lines_refl)
    qed
  qed
qed

lemma build_pass_lines:
  assumes "build_pass t ops = Some (r, s)"
  shows "r \<noteq> Again \<Longrightarrow> same_lines ops (p_ops s)" "r = Again \<Longrightarrow> unrefused (p_ops s) < unrefused ops"
proof -
  have "\<forall>(first, k)\<in>set (pass_order (length ops)). k < length (p_ops (pass_start t ops))"
    by (auto simp: pass_order_def pass_start_def)
  from pass_loop_lines [OF assms [unfolded build_pass_def] this]
  show "r \<noteq> Again \<Longrightarrow> same_lines ops (p_ops s)" "r = Again \<Longrightarrow> unrefused (p_ops s) < unrefused ops"
    by (simp_all add: pass_start_def)
qed

text \<open>The build runs again without a refused mod; each time fewer lines are left.\<close>

function build_loop :: "u8 list \<Rightarrow> file_op list \<Rightarrow> (table_error + pass_end \<times> pass) option" where
  "build_loop img ops =
     (case parse img of Inl e \<Rightarrow> Some (Inl e)
      | Inr t \<Rightarrow> do {
          (r, s) \<leftarrow> build_pass t ops;
          if r = Again then build_loop img (p_ops s) else Some (Inr (r, s)) })"
  by pat_completeness auto
termination by (relation "measure (\<lambda>(img, ops). unrefused ops)") (auto dest: build_pass_lines(2))

declare build_loop.simps [simp del]

text \<open>1 and the rebuilt table, -1 when two mods place one path, 0 on an error.\<close>

record overlay =
  ov_code :: int
  ov_out :: "u8 list option"
  ov_vx :: "vextent list"
  ov_ops :: "file_op list"

definition disc_overlay_build :: "u8 list \<Rightarrow> file_op list \<Rightarrow> overlay option" where
  "disc_overlay_build img ops = do {
     b \<leftarrow> build_loop img ops;
     case b of
       Inl e \<Rightarrow> Some \<lparr>ov_code = 0, ov_out = None, ov_vx = [], ov_ops = ops\<rparr>
     | Inr (r, s) \<Rightarrow>
         if r = Clash then Some \<lparr>ov_code = - 1, ov_out = None, ov_vx = [], ov_ops = p_ops s\<rparr>
         else do {
           whole \<leftarrow> serialise (p_t s);
           case whole of None \<Rightarrow> Some \<lparr>ov_code = 0, ov_out = None, ov_vx = [], ov_ops = p_ops s\<rparr>
           | Some out \<Rightarrow> do {
               fine \<leftarrow> disc_overlay_check img out (p_ops s);
               Some (if fine then \<lparr>ov_code = 1, ov_out = Some out, ov_vx = p_vx s, ov_ops = p_ops s\<rparr>
                     else \<lparr>ov_code = 0, ov_out = None, ov_vx = [], ov_ops = p_ops s\<rparr>) } } }"

section \<open>Serving\<close>

text \<open>One extent's part of a read, copied over the bytes so far.\<close>

definition read_extent :: "nat \<Rightarrow> nat \<Rightarrow> vextent \<Rightarrow> u8 list \<times> nat \<Rightarrow> u8 list \<times> nat" where
  "read_extent offset n v r =
     (let lo = max offset (vx_off v); hi = min (offset + n) (vx_off v + vx_size v)
      in if lo \<ge> hi then r
         else (overlay_at (fst r) (lo - offset) (take (hi - lo) (drop (lo - vx_off v) (vx_data v))),
               snd r + (hi - lo)))"

definition disc_overlay_read :: "vextent list \<Rightarrow> nat \<Rightarrow> nat \<Rightarrow> u8 list \<times> nat" where
  "disc_overlay_read vx offset n = fold (read_extent offset n) vx (replicate n 0, 0)"

definition disc_overlay_name :: "vextent list \<Rightarrow> nat \<Rightarrow> vextent option" where
  "disc_overlay_name vx offset = List.find (\<lambda>v. vx_off v \<le> offset \<and> offset - vx_off v < vx_size v) vx"

end
