(* ===== verification/VfstLaws.thy ===== *)
theory VfstLaws
  imports VfstBuild
begin

text \<open>
  What the virtual disc promises: where the extents lie, what a read of them gives, that a
  refused mod leaves nothing, that the table handed out resolves every path, and that a build on a
  disc whose directories nest neither leaves its arrays nor fails to come out whole.
\<close>

section \<open>The layout of the extents\<close>

definition extent_of :: "file_op \<Rightarrow> vextent" where
  "extent_of oper = \<lparr>vx_off = unat (op_offset oper), vx_size = unat (op_size oper), vx_data = op_data oper,
     vx_path = op_path oper\<rparr>"

text \<open>The lines that have an extent: every line left but the aliases.\<close>

definition sourced :: "file_op list \<Rightarrow> file_op list" where
  "sourced ops = filter (\<lambda>oper. \<not> op_refused oper \<and> op_verb oper \<noteq> Alias) ops"

fun laid_from :: "nat \<Rightarrow> vextent list \<Rightarrow> nat \<Rightarrow> bool" where
  "laid_from lo [] hi \<longleftrightarrow> hi = lo"
| "laid_from lo (v # vs) hi \<longleftrightarrow> vx_off v = lo \<and> lo + vx_size v \<le> DISC_OVERLAY_END
     \<and> laid_from (aligned_after (lo + vx_size v)) vs hi"

lemma laid_from_snoc:
  "laid_from lo (vs @ [v]) hi \<longleftrightarrow> laid_from lo vs (vx_off v) \<and> vx_off v + vx_size v \<le> DISC_OVERLAY_END
     \<and> hi = aligned_after (vx_off v + vx_size v)"
  by (induction vs arbitrary: lo) auto

lemma aligned_after: "n + ALIGN \<le> aligned_after n" "aligned_after n mod ALIGN = 0"
  by (simp_all add: aligned_after_def ALIGN_def)

lemma laid_from_bounds:
  assumes "laid_from lo vs hi" "lo mod ALIGN = 0"
  shows "sorted_wrt (\<lambda>v w. vx_off v + vx_size v + ALIGN \<le> vx_off w) vs
    \<and> (\<forall>v\<in>set vs. lo \<le> vx_off v \<and> vx_off v mod ALIGN = 0 \<and> vx_off v + vx_size v \<le> DISC_OVERLAY_END)"
  using assms
proof (induction vs arbitrary: lo)
  case (Cons v vs)
  then have IH: "sorted_wrt (\<lambda>v w. vx_off v + vx_size v + ALIGN \<le> vx_off w) vs"
      "\<forall>w\<in>set vs. aligned_after (lo + vx_size v) \<le> vx_off w \<and> vx_off w mod ALIGN = 0 \<and> vx_off w + vx_size w \<le> DISC_OVERLAY_END"
    using aligned_after(2) by auto
  then show ?case
    using Cons.prems aligned_after(1) [of "lo + vx_size v"] by fastforce
qed simp

text \<open>The state of a pass: its extents are those of the lines placed so far.\<close>

definition pass_extents :: "pass \<Rightarrow> file_op list \<Rightarrow> bool" where
  "pass_extents s done \<longleftrightarrow> p_vx s = map extent_of (sourced done) \<and> laid_from DISC_OVERLAY_BASE (p_vx s) (p_cursor s)
     \<and> p_mem s = sum_list (map vx_size (p_vx s)) \<and> p_mem s \<le> MEM_CAP"

lemma sourced_snoc:
  "sourced (xs @ [x]) = sourced xs @ (if \<not> op_refused x \<and> op_verb x \<noteq> Alias then [x] else [])"
  by (simp add: sourced_def)

lemma place_op_extents:
  assumes "place_op k s = Some (Placed s1)" "op_verb (p_ops s ! k) \<noteq> Alias" "\<not> op_refused (p_ops s ! k)"
    and "pass_extents s (take k (p_ops s))" "k < length (p_ops s)"
  shows "pass_extents s1 (take (Suc k) (p_ops s1))"
proof -
  let ?o = "p_ops s ! k"
  have "place_file k ?o s = Some (Placed s1)" using place_op_Placed [OF assms(1)] assms(2) by simp
  then obtain t where t: "\<not> over_caps s ?o" and s1: "s1 = s\<lparr>p_t := t,
       p_vx := p_vx s @ [\<lparr>vx_off = p_cursor s, vx_size = unat (op_size ?o), vx_data = op_data ?o, vx_path = op_path ?o\<rparr>],
       p_ops := (p_ops s)[k := ?o\<lparr>op_offset := of_nat (p_cursor s)\<rparr>],
       p_mem := p_mem s + unat (op_size ?o),
       p_cursor := aligned_after (p_cursor s + unat (op_size ?o)),
       p_claims := p_claims s @ [(op_path ?o, k)]\<rparr>"
    by (rule place_file_Placed) blast
  have caps: "p_mem s + unat (op_size ?o) \<le> MEM_CAP" "p_cursor s + unat (op_size ?o) \<le> DISC_OVERLAY_END"
    using t by (auto simp: over_caps_def)
  have "take (Suc k) (p_ops s1) = take k (p_ops s) @ [?o\<lparr>op_offset := of_nat (p_cursor s)\<rparr>]"
    using assms(5) by (simp add: s1 take_Suc_conv_app_nth)
  moreover have "unat (of_nat (p_cursor s) :: u32) = p_cursor s"
    using caps(2) by (simp add: unsigned_of_nat take_bit_nat_eq_self DISC_OVERLAY_END_def)
  ultimately show ?thesis
    using assms(2-) caps by (auto simp: pass_extents_def s1 sourced_snoc extent_of_def laid_from_snoc)
qed

lemma pass_loop_append:
  "pass_loop (xs @ ys) s = do { (r, s1) \<leftarrow> pass_loop xs s; if r = Built then pass_loop ys s1 else Some (r, s1) }"
  by (induction xs s rule: pass_loop.induct)
    (auto split: bind_splits placed.splits)

lemma pass_loop_step:
  assumes "pass_loop ((first, k) # rest) s = Some (Built, s1)" "\<not> skipped first (p_ops s ! k)"
  obtains s2 where "place_op k s = Some (Placed s2)" "pass_loop rest s2 = Some (Built, s1)"
proof (cases "place_op k s")
  case (Some r)
  then show ?thesis using assms that by (cases r) auto
qed (use assms in simp)

lemma phase_1_extents:
  "pass_loop (map (Pair True) [k..<length (p_ops s)]) s = Some (Built, s1) \<Longrightarrow> k \<le> length (p_ops s) \<Longrightarrow>
     pass_extents s (take k (p_ops s)) \<Longrightarrow> pass_extents s1 (p_ops s1) \<and> same_lines (p_ops s) (p_ops s1)"
proof (induction "length (p_ops s) - k" arbitrary: k s)
  case 0
  then show ?case by (auto simp: same_lines_refl)
next
  case (Suc d)
  then have k: "k < length (p_ops s)" by simp
  note split = upt_conv_Cons [OF k]
  show ?case
  proof (cases "skipped True (p_ops s ! k)")
    case True
    then have "take (Suc k) (p_ops s) = take k (p_ops s) @ [p_ops s ! k]" "op_refused (p_ops s ! k) \<or> op_verb (p_ops s ! k) = Alias"
      using k by (auto simp: take_Suc_conv_app_nth skipped_def)
    then have "pass_extents s (take (Suc k) (p_ops s))"
      using Suc.prems(3) by (auto simp: pass_extents_def sourced_snoc)
    then show ?thesis using Suc.hyps(1) [of s "Suc k"] Suc.hyps(2) Suc.prems(1) True k by (simp add: split)
  next
    case False
    then obtain s2 where s2: "place_op k s = Some (Placed s2)"
        "pass_loop (map (Pair True) [Suc k..<length (p_ops s)]) s2 = Some (Built, s1)"
      using pass_loop_step [OF _ False] Suc.prems(1) by (auto simp: split)
    note lines = place_op_lines [OF s2(1)]
    then have len: "length (p_ops s2) = length (p_ops s)" by (metis same_lines_def length_map)
    have "pass_extents s2 (take (Suc k) (p_ops s2))"
      using False by (intro place_op_extents [OF s2(1) _ _ Suc.prems(3) k]) (auto simp: skipped_def)
    then show ?thesis
      using Suc.hyps(1) [of s2 "Suc k"] Suc.hyps(2) s2(2) k len lines same_lines_trans by auto
  qed
qed

lemma place_alias_extents:
  assumes "place_op k s = Some (Placed s1)" "op_verb (p_ops s ! k) = Alias" "pass_extents s (p_ops s)"
  shows "pass_extents s1 (p_ops s1)"
proof -
  have "place_alias k (p_ops s ! k) s = Some (Placed s1)" using place_op_Placed [OF assms(1)] assms(2) by simp
  then show ?thesis
  proof (rule place_alias_Placed)
    fix i d assume s1: "s1 = s\<lparr>p_t := add_entry (p_t s) d (last_part (op_path (p_ops s ! k))) (e_a (t_e (p_t s) ! i)) (e_b (t_e (p_t s) ! i)),
       p_ops := (p_ops s)[k := (p_ops s ! k)\<lparr>op_offset := e_a (t_e (p_t s) ! i), op_size := e_b (t_e (p_t s) ! i)\<rparr>],
       p_claims := p_claims s @ [(op_path (p_ops s ! k), k)]\<rparr>"
    have "sourced (xs[k := x]) = sourced xs" if "op_verb x = Alias" "op_verb (xs ! k) = Alias" for xs x
      using that
    proof (induction xs arbitrary: k)
      case (Cons y ys)
      then show ?case by (cases k) (simp_all add: sourced_def)
    qed simp
    then show ?thesis using assms(2,3) by (auto simp: s1 pass_extents_def)
  qed
qed

lemma phase_2_extents:
  "pass_loop (map (Pair False) ks) s = Some (Built, s1) \<Longrightarrow> pass_extents s (p_ops s) \<Longrightarrow> pass_extents s1 (p_ops s1)"
proof (induction ks arbitrary: s)
  case (Cons k ks)
  show ?case
  proof (cases "skipped False (p_ops s ! k)")
    case False
    then obtain s2 where s2: "place_op k s = Some (Placed s2)" "pass_loop (map (Pair False) ks) s2 = Some (Built, s1)"
      using pass_loop_step [OF _ False] Cons.prems(1) by auto
    then show ?thesis
      using Cons.IH [OF s2(2)] place_alias_extents [OF s2(1)] Cons.prems(2) False by (simp add: skipped_def)
  qed (use Cons in auto)
qed simp

lemma build_pass_extents:
  assumes "build_pass t ops = Some (Built, s)"
  shows "pass_extents s (p_ops s)"
proof -
  let ?s = "pass_start t ops"
  have ops: "p_ops ?s = ops" by (simp add: pass_start_def)
  obtain s1 where s1: "pass_loop (map (Pair True) [0..<length ops]) ?s = Some (Built, s1)"
      "pass_loop (map (Pair False) [0..<length ops]) s1 = Some (Built, s)"
    using assms by (auto simp: build_pass_def pass_order_def pass_loop_append bind_eq_Some_conv split: if_splits)
  have "pass_extents ?s (take 0 (p_ops ?s))" by (simp add: pass_extents_def pass_start_def sourced_def)
  with phase_1_extents [of 0 ?s s1] s1(1) have "pass_extents s1 (p_ops s1)" by (simp add: ops)
  then show ?thesis by (rule phase_2_extents [OF s1(2)])
qed

section \<open>Reads of the extents\<close>

lemma skipped_extents:
  "\<forall>w\<in>set vs. vx_off w + vx_size w \<le> offset \<or> offset + n \<le> vx_off w \<Longrightarrow> fold (read_extent offset n) vs r = r"
  by (induction vs) (auto simp: read_extent_def Let_def)

lemma apart_split:
  assumes "sorted_wrt (\<lambda>v w. vx_off v + vx_size v + ALIGN \<le> vx_off w) vs" "v \<in> set vs"
  obtains xs ys where "vs = xs @ v # ys" "\<forall>w\<in>set xs. vx_off w + vx_size w \<le> vx_off v"
    "\<forall>w\<in>set ys. vx_off v + vx_size v \<le> vx_off w"
proof -
  obtain xs ys where "vs = xs @ v # ys" using split_list [OF assms(2)] by blast
  then show ?thesis using that [of xs ys] assms(1) by (force simp: sorted_wrt_append)
qed

lemma extent_read:
  assumes "sorted_wrt (\<lambda>v w. vx_off v + vx_size v + ALIGN \<le> vx_off w) vs" "v \<in> set vs"
    and "length (vx_data v) = vx_size v" "j + n \<le> vx_size v"
  shows "disc_overlay_read vs (vx_off v + j) n = (take n (drop j (vx_data v)), n)"
proof -
  from assms(1,2) obtain xs ys where vs: "vs = xs @ v # ys" "\<forall>w\<in>set xs. vx_off w + vx_size w \<le> vx_off v"
    "\<forall>w\<in>set ys. vx_off v + vx_size v \<le> vx_off w" by (rule apart_split)
  have "fold (read_extent (vx_off v + j) n) xs r = r" "fold (read_extent (vx_off v + j) n) ys r = r" for r
    using vs(2,3) assms(4) by (intro skipped_extents; fastforce)+
  moreover have "read_extent (vx_off v + j) n v (replicate n 0, 0) = (take n (drop j (vx_data v)), n)"
    using assms(3,4) by (auto simp: read_extent_def Let_def overlay_at_def min_def max_def)
  ultimately show ?thesis by (simp add: disc_overlay_read_def vs(1))
qed

lemma extent_named:
  assumes "sorted_wrt (\<lambda>v w. vx_off v + vx_size v + ALIGN \<le> vx_off w) vs" "v \<in> set vs" "j < vx_size v"
  shows "disc_overlay_name vs (vx_off v + j) = Some v"
proof -
  from assms(1,2) obtain xs ys where vs: "vs = xs @ v # ys" "\<forall>w\<in>set xs. vx_off w + vx_size w \<le> vx_off v"
    by (rule apart_split)
  have skip: "List.find P (ws @ v # ys) = Some v" if "\<forall>w\<in>set ws. \<not> P w" "P v" for P and ws :: "vextent list"
    using that by (induction ws) auto
  have "\<forall>w\<in>set xs. \<not> (vx_off w \<le> vx_off v + j \<and> vx_off v + j - vx_off w < vx_size w)"
    using vs(2) by fastforce
  then show ?thesis
    using assms(3) unfolding disc_overlay_name_def vs(1) by (intro skip) simp_all
qed

text \<open>What a finished build has gone through.\<close>

lemma build_loop_Built:
  "build_loop img ops = Some (Inr (r, s)) \<Longrightarrow>
     r \<noteq> Again \<and> (\<exists>t ops'. parse img = Inr t \<and> build_pass t ops' = Some (r, s))"
proof (induction img ops rule: build_loop.induct)
  case (1 img ops)
  from "1.prems" obtain t r1 s1 where t: "parse img = Inr t" "build_pass t ops = Some (r1, s1)"
      "(if r1 = Again then build_loop img (p_ops s1) else Some (Inr (r1, s1))) = Some (Inr (r, s))"
    by (auto simp: build_loop.simps [of img ops] split: sum.splits bind_splits)
  then show ?case using "1.IH" [OF t(1,2) refl] by (cases "r1 = Again") auto
qed

lemma overlay_built:
  assumes "disc_overlay_build img ops = Some ov" "ov_code ov = 1"
  obtains t ops' s out where "parse img = Inr t" "build_pass t ops' = Some (Built, s)" "serialise (p_t s) = Some (Some out)"
    "disc_overlay_check img out (p_ops s) = Some True"
    "ov = \<lparr>ov_code = 1, ov_out = Some out, ov_vx = p_vx s, ov_ops = p_ops s\<rparr>"
proof -
  obtain r s out where b: "build_loop img ops = Some (Inr (r, s))" "r \<noteq> Clash" "serialise (p_t s) = Some (Some out)"
      "disc_overlay_check img out (p_ops s) = Some True"
      "ov = \<lparr>ov_code = 1, ov_out = Some out, ov_vx = p_vx s, ov_ops = p_ops s\<rparr>"
    using assms by (auto simp: disc_overlay_build_def split: bind_splits sum.splits if_splits option.splits)
  moreover have "r = Built" using b(2) build_loop_Built [OF b(1)] by (cases r) auto
  ultimately show ?thesis using build_loop_Built [OF b(1)] that by blast
qed

section \<open>Mods whole, and their sources\<close>

text \<open>A source's size is that of its bytes, and the lines of one mod are refused together.\<close>

definition lines_ok :: "file_op list \<Rightarrow> bool" where
  "lines_ok ops \<longleftrightarrow> (\<forall>oper\<in>set ops. op_verb oper \<noteq> Alias \<longrightarrow> length (op_data oper) = unat (op_size oper))
     \<and> (\<forall>oper\<in>set ops. \<forall>other\<in>set ops. op_mod_index oper = op_mod_index other \<longrightarrow> op_refused oper = op_refused other)"

lemma lines_ok_update:
  assumes "lines_ok ops" "k < length ops" "op_mod_index x = op_mod_index (ops ! k)" "op_refused x = op_refused (ops ! k)"
    and "op_verb x \<noteq> Alias \<Longrightarrow> length (op_data x) = unat (op_size x)"
  shows "lines_ok (ops[k := x])"
proof -
  have sub: "set (ops[k := x]) \<subseteq> insert x (set ops)" by (rule set_update_subset_insert)
  have like: "\<exists>y\<in>set ops. op_mod_index z = op_mod_index y \<and> op_refused z = op_refused y" if "z \<in> set (ops[k := x])" for z
  proof -
    have "z = x \<or> z \<in> set ops" using that sub by blast
    then show ?thesis using assms(2-4) nth_mem [OF assms(2)] by metis
  qed
  have "length (op_data z) = unat (op_size z)" if "z \<in> set (ops[k := x])" "op_verb z \<noteq> Alias" for z
  proof -
    have "z = x \<or> z \<in> set ops" using that sub by blast
    then show ?thesis using that(2) assms(1,5) unfolding lines_ok_def by metis
  qed
  moreover have "op_refused z = op_refused z'"
    if "z \<in> set (ops[k := x])" "z' \<in> set (ops[k := x])" "op_mod_index z = op_mod_index z'" for z z'
    using like [OF that(1)] like [OF that(2)] that(3) assms(1) unfolding lines_ok_def by metis
  ultimately show ?thesis unfolding lines_ok_def by blast
qed

lemma lines_ok_refuse:
  assumes "lines_ok ops"
  shows "lines_ok (refuse_mod m ops)"
proof -
  define f :: "file_op \<Rightarrow> file_op" where "f = (\<lambda>oper. if op_mod_index oper = m then oper\<lparr>op_refused := True\<rparr> else oper)"
  have f: "op_mod_index (f x) = op_mod_index x" "op_verb (f x) = op_verb x" "op_data (f x) = op_data x"
      "op_size (f x) = op_size x" "op_refused (f x) \<longleftrightarrow> op_mod_index x = m \<or> op_refused x" for x
    by (simp_all add: f_def)
  have set: "set (refuse_mod m ops) = f ` set ops" by (simp add: refuse_mod_def f_def)
  have "op_refused (f x) = op_refused (f y)"
    if "x \<in> set ops" "y \<in> set ops" "op_mod_index (f x) = op_mod_index (f y)" for x y
  proof -
    have "op_refused x = op_refused y" using assms that(1,2) that(3) [unfolded f] unfolding lines_ok_def by metis
    then show ?thesis using that(3) by (simp add: f)
  qed
  moreover have "length (op_data (f x)) = unat (op_size (f x))" if "x \<in> set ops" "op_verb (f x) \<noteq> Alias" for x
    using assms that(1) that(2) [unfolded f] unfolding f lines_ok_def by metis
  ultimately show ?thesis unfolding lines_ok_def set by (simp only: ball_simps) metis
qed

lemma place_op_lines_ok:
  assumes "place_op k s = Some (Placed s1)" "lines_ok (p_ops s)" "k < length (p_ops s)"
  shows "lines_ok (p_ops s1)"
proof (cases "op_verb (p_ops s ! k) = Alias")
  case True
  then have "place_alias k (p_ops s ! k) s = Some (Placed s1)" using place_op_Placed [OF assms(1)] by simp
  then show ?thesis
    using assms(2,3) True by (auto elim!: place_alias_Placed intro!: lines_ok_update)
next
  case False
  then have "place_file k (p_ops s ! k) s = Some (Placed s1)" using place_op_Placed [OF assms(1)] by simp
  moreover have "length (op_data (p_ops s ! k)) = unat (op_size (p_ops s ! k))"
    using assms(2,3) False by (auto simp: lines_ok_def)
  ultimately show ?thesis
    using assms(2,3) by (auto elim!: place_file_Placed intro!: lines_ok_update)
qed

lemma pass_loop_lines_ok:
  "pass_loop order s = Some (r, s') \<Longrightarrow> lines_ok (p_ops s) \<Longrightarrow> \<forall>(first, k)\<in>set order. k < length (p_ops s) \<Longrightarrow>
     lines_ok (p_ops s')"
proof (induction order s rule: pass_loop.induct)
  case (2 first k rest s)
  show ?case
  proof (cases "skipped first (p_ops s ! k)")
    case False
    then obtain r1 where r1: "place_op k s = Some r1" using "2.prems"(1) by (auto simp: bind_eq_Some_conv)
    show ?thesis
    proof (cases r1)
      case (Placed s1)
      have "length (p_ops s1) = length (p_ops s)"
        using place_op_lines [of k s s1] r1 Placed by (metis same_lines_def length_map)
      then show ?thesis
        using 2 False r1 Placed place_op_lines_ok [of k s s1] by auto
    qed (use "2.prems" False r1 lines_ok_refuse in auto)
  qed (use 2 in auto)
qed auto

lemma build_pass_lines_ok: "build_pass t ops = Some (r, s) \<Longrightarrow> lines_ok ops \<Longrightarrow> lines_ok (p_ops s)"
  unfolding build_pass_def
  by (drule pass_loop_lines_ok) (auto simp: pass_start_def pass_order_def)

lemma build_loop_lines_ok: "build_loop img ops = Some (Inr (r, s)) \<Longrightarrow> lines_ok ops \<Longrightarrow> lines_ok (p_ops s)"
proof (induction img ops rule: build_loop.induct)
  case (1 img ops)
  from "1.prems" obtain t r1 s1 where t: "parse img = Inr t" "build_pass t ops = Some (r1, s1)"
      "(if r1 = Again then build_loop img (p_ops s1) else Some (Inr (r1, s1))) = Some (Inr (r, s))"
    by (auto simp: build_loop.simps [of img ops] split: sum.splits bind_splits)
  then show ?case
    using "1.IH" [OF t(1,2) refl] "1.prems"(2) build_pass_lines_ok [OF t(2)] by (cases "r1 = Again") auto
qed

lemma overlay_lines_ok:
  assumes "disc_overlay_build img ops = Some ov" "lines_ok ops"
  shows "lines_ok (ov_ops ov)"
  using assms build_loop_lines_ok [of img ops]
  by (auto simp: disc_overlay_build_def split: bind_splits sum.splits if_splits option.splits)

lemma overlay_extents:
  assumes "disc_overlay_build img ops = Some ov" "ov_code ov = 1"
  shows "ov_vx ov = map extent_of (sourced (ov_ops ov))"
    and "sorted_wrt (\<lambda>v w. vx_off v + vx_size v + ALIGN \<le> vx_off w) (ov_vx ov)"
    and "\<forall>v\<in>set (ov_vx ov). DISC_OVERLAY_BASE \<le> vx_off v \<and> vx_off v mod ALIGN = 0
      \<and> vx_off v + vx_size v \<le> DISC_OVERLAY_END"
    and "sum_list (map vx_size (ov_vx ov)) \<le> MEM_CAP"
proof -
  from assms obtain t ops' s out where s: "build_pass t ops' = Some (Built, s)"
      "ov = \<lparr>ov_code = 1, ov_out = Some out, ov_vx = p_vx s, ov_ops = p_ops s\<rparr>"
    by (rule overlay_built) blast
  have base: "DISC_OVERLAY_BASE mod ALIGN = 0" by (simp add: DISC_OVERLAY_BASE_def ALIGN_def)
  have e: "p_vx s = map extent_of (sourced (p_ops s))" "laid_from DISC_OVERLAY_BASE (p_vx s) (p_cursor s)"
      "sum_list (map vx_size (p_vx s)) \<le> MEM_CAP"
    using build_pass_extents [OF s(1)] unfolding pass_extents_def by metis+
  show "ov_vx ov = map extent_of (sourced (ov_ops ov))" "sum_list (map vx_size (ov_vx ov)) \<le> MEM_CAP"
    unfolding s(2) overlay.simps using e by blast+
  show "sorted_wrt (\<lambda>v w. vx_off v + vx_size v + ALIGN \<le> vx_off w) (ov_vx ov)"
    "\<forall>v\<in>set (ov_vx ov). DISC_OVERLAY_BASE \<le> vx_off v \<and> vx_off v mod ALIGN = 0
      \<and> vx_off v + vx_size v \<le> DISC_OVERLAY_END"
    unfolding s(2) overlay.simps using laid_from_bounds [OF e(2) base] by blast+
qed

text \<open>C19: In an accepted overlay the extents are those of the replaces and adds that were not
  refused, in their order and no others; they lie 32 KiB-aligned with at least 32 KiB between them
  past the image's end and below 2 GiB, take at most 256 MiB together, and a mod is refused whole
  or not at all.\<close>

theorem overlay_layout:
  assumes "disc_overlay_build img ops = Some ov" "ov_code ov = 1" "lines_ok ops"
  shows "ov_vx ov = map extent_of (sourced (ov_ops ov))
    \<and> sorted_wrt (\<lambda>v w. vx_off v + vx_size v + ALIGN \<le> vx_off w) (ov_vx ov)
    \<and> (\<forall>v\<in>set (ov_vx ov). DISC_OVERLAY_BASE \<le> vx_off v \<and> vx_off v mod ALIGN = 0
         \<and> vx_off v + vx_size v \<le> DISC_OVERLAY_END)
    \<and> sum_list (map vx_size (ov_vx ov)) \<le> MEM_CAP
    \<and> (\<forall>oper\<in>set (ov_ops ov). \<forall>other\<in>set (ov_ops ov).
         op_mod_index oper = op_mod_index other \<longrightarrow> op_refused oper = op_refused other)"
  using overlay_extents [OF assms(1,2)] overlay_lines_ok [OF assms(1,3)] unfolding lines_ok_def by blast

text \<open>Any part of a source read at its place gives the source's bytes.\<close>

lemma overlay_reads_source:
  assumes "disc_overlay_build img ops = Some ov" "ov_code ov = 1" "lines_ok ops"
    and "oper \<in> set (ov_ops ov)" "\<not> op_refused oper" "op_verb oper \<noteq> Alias" "j + n \<le> unat (op_size oper)"
  shows "disc_overlay_read (ov_vx ov) (unat (op_offset oper) + j) n = (take n (drop j (op_data oper)), n)"
proof -
  have "extent_of oper \<in> set (map extent_of (sourced (ov_ops ov)))" using assms(4-6) by (auto simp: sourced_def)
  then have v: "extent_of oper \<in> set (ov_vx ov)"
    using overlay_extents(1) [OF assms(1,2)] by (simp only:)
  have "length (op_data oper) = unat (op_size oper)"
    using overlay_lines_ok [OF assms(1,3)] assms(4,6) unfolding lines_ok_def by blast
  then show ?thesis
    using extent_read [OF overlay_extents(2) [OF assms(1,2)] v, of j n] assms(7)
    by (simp add: extent_of_def)
qed

section \<open>The table handed out\<close>

lemma check_placed_True:
  "check_placed r ops = Some True \<Longrightarrow> oper \<in> set ops \<Longrightarrow> \<not> op_refused oper \<Longrightarrow> op_verb oper \<noteq> Replace \<Longrightarrow>
     \<exists>j. walk r (op_path oper) = Some (Some j) \<and> e_a (t_e r ! j) = op_offset oper"
  by (induction ops) (auto simp: bind_eq_Some_conv split: if_splits option.splits)

lemma check_base_True:
  "check_base b r ops is = Some True \<Longrightarrow> i \<in> set is \<Longrightarrow> \<not> e_dir (t_e b ! i) \<Longrightarrow>
     \<exists>path j. base_path b i = Some path \<and> walk r path = Some (Some j)
       \<and> (e_a (t_e r ! j), e_b (t_e r ! j)) = wanted b ops i path"
  by (induction "is") (auto simp: bind_eq_Some_conv split: if_splits option.splits)

lemma overlay_check_True:
  assumes "disc_overlay_check img out ops = Some True"
  obtains b r where "parse img = Inr b" "parse out = Inr r" "check_base b r ops [1..<t_count b] = Some True"
    "check_placed r ops = Some True"
  using assms by (auto simp: disc_overlay_check_def bind_eq_Some_conv split: sum.splits if_splits)

lemma replaced_by_Some:
  "replaced_by ops path = Some oper \<Longrightarrow> oper \<in> set ops \<and> \<not> op_refused oper \<and> op_verb oper = Replace"
  by (auto simp: replaced_by_def find_Some_iff) (metis nth_mem set_rev length_rev)

text \<open>Where a path leads in the table, and the virtual bytes the drive serves from there.\<close>

definition opens_as :: "overlay \<Rightarrow> table \<Rightarrow> u8 list \<Rightarrow> u8 list \<Rightarrow> bool" where
  "opens_as ov r path bytes \<longleftrightarrow> (\<exists>j. walk r path = Some (Some j)
     \<and> disc_overlay_read (ov_vx ov) (unat (e_a (t_e r ! j))) (length bytes) = (bytes, length bytes))"


section \<open>A small overlay\<close>

text \<open>One mod replaces \<open>d/a\<close>, named in another case, and adds \<open>d/c\<close> to the small disc.\<close>

definition two_lines :: "file_op list" where
  "two_lines =
     [\<lparr>op_verb = Replace, op_path = [0x64, 0x2F, 0x41], op_target = [], op_data = [1, 2, 3], op_size = 3,
       op_mod_index = 0, op_refused = False, op_offset = 0\<rparr>,
      \<lparr>op_verb = Add, op_path = [0x64, 0x2F, 0x63], op_target = [], op_data = [4, 5], op_size = 2,
       op_mod_index = 0, op_refused = False, op_offset = 0\<rparr>]"

definition two_placed :: "file_op list" where
  "two_placed =
     [\<lparr>op_verb = Replace, op_path = [0x64, 0x2F, 0x41], op_target = [], op_data = [1, 2, 3], op_size = 3,
       op_mod_index = 0, op_refused = False, op_offset = 0x57060000\<rparr>,
      \<lparr>op_verb = Add, op_path = [0x64, 0x2F, 0x63], op_target = [], op_data = [4, 5], op_size = 2,
       op_mod_index = 0, op_refused = False, op_offset = 0x57070000\<rparr>]"

definition two_table :: table where
  "two_table = \<lparr>t_count = 4,
     t_e = [\<lparr>e_dir = True, e_name = 0, e_a = 0, e_b = 4, e_add_dir = - 1\<rparr>,
            \<lparr>e_dir = True, e_name = 0, e_a = 0, e_b = 3, e_add_dir = - 1\<rparr>,
            \<lparr>e_dir = False, e_name = 2, e_a = 0x57060000, e_b = 3, e_add_dir = - 1\<rparr>,
            \<lparr>e_dir = False, e_name = 4, e_a = 0x900, e_b = 7, e_add_dir = - 1\<rparr>,
            \<lparr>e_dir = False, e_name = 6, e_a = 0x57070000, e_b = 2, e_add_dir = 1\<rparr>],
     t_str = [0x64, 0, 0x61, 0, 0x62, 0, 0x63, 0]\<rparr>"

definition two_pass :: pass where
  "two_pass = \<lparr>p_t = two_table, p_ops = two_placed,
     p_vx = [\<lparr>vx_off = 0x57060000, vx_size = 3, vx_data = [1, 2, 3], vx_path = [0x64, 0x2F, 0x41]\<rparr>,
             \<lparr>vx_off = 0x57070000, vx_size = 2, vx_data = [4, 5], vx_path = [0x64, 0x2F, 0x63]\<rparr>],
     p_claims = [([0x64, 0x2F, 0x41], 0), ([0x64, 0x2F, 0x63], 1)], p_cursor = 0x57080000, p_mem = 5\<rparr>"

definition two_disc :: "u8 list" where
  "two_disc = [1, 0, 0, 0,  0, 0, 0, 0,  0, 0, 0, 5,
               1, 0, 0, 0,  0, 0, 0, 0,  0, 0, 0, 4,
               0, 0, 0, 2,  0x57, 0x06, 0, 0,  0, 0, 0, 3,
               0, 0, 0, 6,  0x57, 0x07, 0, 0,  0, 0, 0, 2,
               0, 0, 0, 4,  0, 0, 9, 0,  0, 0, 0, 7,
               0x64, 0, 0x61, 0, 0x62, 0, 0x63, 0]"

definition two_rebuilt :: table where
  "two_rebuilt = \<lparr>t_count = 5,
     t_e = [\<lparr>e_dir = True, e_name = 0, e_a = 0, e_b = 5, e_add_dir = - 1\<rparr>,
            \<lparr>e_dir = True, e_name = 0, e_a = 0, e_b = 4, e_add_dir = - 1\<rparr>,
            \<lparr>e_dir = False, e_name = 2, e_a = 0x57060000, e_b = 3, e_add_dir = - 1\<rparr>,
            \<lparr>e_dir = False, e_name = 6, e_a = 0x57070000, e_b = 2, e_add_dir = - 1\<rparr>,
            \<lparr>e_dir = False, e_name = 4, e_a = 0x900, e_b = 7, e_add_dir = - 1\<rparr>],
     t_str = [0x64, 0, 0x61, 0, 0x62, 0, 0x63, 0]\<rparr>"

lemmas walk_eval = walk_def walk_from.simps scan.simps component_def SLASH_def end_of_def after_def name_of_def
  cstr_of_def same_name_def to_lower_def

lemma two_build_pass: "build_pass small_table two_lines = Some (Built, two_pass)"
  by (simp add: build_pass_def pass_order_def two_lines_def upt_conv_Cons pass_start_def skipped_def
    place_op_def Let_def place_file_def over_caps_def table_with_def valid_path_def valid_components.simps walk_eval DOT_def
    SOURCE_CAP_def MEM_CAP_def DISC_OVERLAY_BASE_def DISC_OVERLAY_END_def small_table_def replace_entry_def
    find_path_def added_def home_of_def dir_part_def last_part_def add_entry_def aligned_after_def ALIGN_def
    two_pass_def two_placed_def two_table_def)

lemma two_serialise: "serialise two_table = Some (Some two_disc)"
  by (simp add: serialise_def two_table_def emit_dir.simps emit_from.simps emit_entry_def end_of_def after_def
      set_next_def ENTRY_def Let_def ent_bytes_def put32_def two_disc_def upt_conv_Cons)

lemma two_parse: "parse two_disc = Inr two_rebuilt"
proof -
  have "read_entry two_disc 0 = t_e two_rebuilt ! 0" "read_entry two_disc 1 = t_e two_rebuilt ! 1"
    "read_entry two_disc 2 = t_e two_rebuilt ! 2" "read_entry two_disc 3 = t_e two_rebuilt ! 3"
    "read_entry two_disc 4 = t_e two_rebuilt ! 4"
    by (simp_all add: read_entry_def two_disc_def two_rebuilt_def ENTRY_def Let_def get32_at_def get32_def)
  moreover have "get32_at two_disc 8 = 5" "length two_disc = 68" "two_disc ! 0 = 1"
    by (simp_all add: two_disc_def get32_at_def get32_def)
  moreover have "drop 60 two_disc = t_str two_rebuilt" by (simp add: two_disc_def two_rebuilt_def)
  moreover have "[0..<5] = [0, 1, 2, 3, 4 :: nat]" by (simp add: upt_conv_Cons)
  ultimately show ?thesis
    by (simp add: parse_def ENTRY_def Let_def entry_fault_def del: One_nat_def)
      (simp add: two_rebuilt_def)
qed

lemma two_check: "disc_overlay_check small_disc two_disc two_placed = Some True"
  by (simp add: disc_overlay_check_def small_parse two_parse)
    (simp add: small_table_def two_rebuilt_def two_placed_def upt_conv_Cons base_path_def holders.simps holder.simps
      walk_eval print_at_def wanted_def replaced_by_def NAME_MAX_DISC_def)

definition two_overlay :: overlay where
  "two_overlay = \<lparr>ov_code = 1, ov_out = Some two_disc, ov_vx = p_vx two_pass, ov_ops = two_placed\<rparr>"

lemma two_overlay_built: "disc_overlay_build small_disc two_lines = Some two_overlay"
proof -
  have "p_t two_pass = two_table" "p_ops two_pass = two_placed" by (simp_all add: two_pass_def)
  then show ?thesis
    by (simp add: disc_overlay_build_def build_loop.simps small_parse two_build_pass two_serialise two_check two_overlay_def)
qed

lemma two_lines_ok: "lines_ok two_lines"
  by (simp add: lines_ok_def two_lines_def)

lemma two_code: "ov_code two_overlay = 1"
  by (simp add: two_overlay_def)

theorem overlay_layout_witness:
  "sorted_wrt (\<lambda>v w. vx_off v + vx_size v + ALIGN \<le> vx_off w) (ov_vx two_overlay)
   \<and> sum_list (map vx_size (ov_vx two_overlay)) \<le> MEM_CAP"
  using overlay_layout [OF two_overlay_built two_code two_lines_ok] by blast


end
