(* ===== verification/VfstSafe.thy ===== *)
theory VfstSafe
  imports VfstLaws
begin

text \<open>
  The build on a disc whose directories nest: no walk, no printed path and no emitted entry leaves
  its array, whatever lines the mods have, and a table the pass accepts comes out whole.
\<close>

section \<open>Nested directories\<close>

lemma block_sub:
  "block e p i j \<Longrightarrow> i \<le> k \<Longrightarrow> k < j \<Longrightarrow> e_dir (e ! k) \<Longrightarrow> block e k (Suc k) (unat (e_b (e ! k)))"
proof (induction rule: block.induct)
  case (block_file i p j)
  then show ?case by (metis le_eq_less_or_eq Suc_leI)
next
  case (block_dir i p j)
  then show ?case by (metis le_eq_less_or_eq Suc_leI not_le)
qed simp

lemma block_parent:
  "block e p i j \<Longrightarrow> i \<le> k \<Longrightarrow> k < j \<Longrightarrow> e_dir (e ! k) \<Longrightarrow> p < i \<Longrightarrow>
     \<exists>q. e_a (e ! k) = of_nat q \<and> q < k \<and> (q = p \<or> e_dir (e ! q))"
proof (induction rule: block.induct)
  case (block_file i p j)
  then show ?case by (metis le_eq_less_or_eq Suc_leI less_SucI)
next
  case (block_dir i p j)
  consider "k = i" | "Suc i \<le> k" "k < unat (e_b (e ! i))" | "unat (e_b (e ! i)) \<le> k"
    using block_dir.prems(1) by linarith
  then show ?case
  proof cases
    case 1
    then show ?thesis using block_dir by auto
  next
    case 2
    then show ?thesis using block_dir.IH(1) [OF 2 block_dir.prems(3)] block_dir.hyps(3) by auto
  next
    case 3
    then show ?thesis using block_dir.IH(2) [OF 3 block_dir.prems(2,3)] block_dir.prems(4) block_dir.hyps(5) by auto
  qed
qed simp

text \<open>What the search of a directory finds lies in it, and has the name's length.\<close>

lemma scan_block:
  "block (t_e t) p i j \<Longrightarrow> scan t nm i j = Some (Some k) \<Longrightarrow>
     (e_dir (t_e t ! k) \<longrightarrow> e_a (t_e t ! k) = of_nat p) \<and> (\<exists>x. name_of t k = Some x \<and> length x = length nm)"
proof (induction rule: block.induct)
  case (block_end p i)
  then show ?case by (simp add: scan.simps)
next
  case (block_file i p j)
  have "i < j" using block_le [OF block_file.hyps(3)] by simp
  with block_file.prems block_file.hyps(1) obtain x where x: "name_of t i = Some x"
      "same_name x nm \<and> k = i \<or> scan t nm (after t i) j = Some (Some k)"
    by (subst (asm) scan.simps) (auto simp: bind_eq_Some_conv split: if_splits)
  then show ?case using block_file by (auto simp: after_def same_name_def)
next
  case (block_dir i p j)
  have "i < j" using block_le [OF block_dir.hyps(7)] block_dir.hyps(5) by simp
  with block_dir.prems block_dir.hyps(2) obtain x where x: "name_of t i = Some x"
      "same_name x nm \<and> k = i \<or> scan t nm (after t i) j = Some (Some k)"
    by (subst (asm) scan.simps) (auto simp: bind_eq_Some_conv split: if_splits)
  then show ?case using block_dir by (auto simp: after_def same_name_def)
qed

section \<open>The length of a directory's path\<close>

text \<open>The names above and of a base directory, a slash after each, take \<open>n\<close> bytes.\<close>

inductive path_length :: "table \<Rightarrow> nat \<Rightarrow> nat \<Rightarrow> bool" for t where
  path_root: "path_length t 0 0"
| path_below: "path_length t p n \<Longrightarrow> 0 < d \<Longrightarrow> d < t_count t \<Longrightarrow> p < t_count t \<Longrightarrow> e_dir (t_e t ! d) \<Longrightarrow>
    e_a (t_e t ! d) = of_nat p \<Longrightarrow> name_of t d = Some nm \<Longrightarrow> path_length t d (n + length nm + 1)"

lemma tree_parts:
  assumes "tree t"
  shows "forward t" "t_count t < 2 ^ 32" "block (t_e t) 0 1 (t_count t)"
  using assms by (simp_all add: tree_def)

lemma directory_block:
  assumes "tree t" "d < t_count t" "e_dir (t_e t ! d)"
  shows "block (t_e t) d (Suc d) (end_of t d)"
proof (cases "d = 0")
  case True
  then show ?thesis using tree_parts(3) [OF assms(1)] by (simp add: end_of_def)
next
  case False
  then show ?thesis using block_sub [OF tree_parts(3) [OF assms(1)], of d] assms(2,3) by (simp add: end_of_def)
qed

lemma walk_from_step:
  assumes "walk_from t d s = Some (Some j)"
  shows "\<exists>k. scan t (component s) (d + 1) (end_of t d) = Some (Some k)
    \<and> (case drop (length (component s)) s of [] \<Rightarrow> k = j
       | c # rest \<Rightarrow> e_dir (t_e t ! k) \<and> walk_from t k rest = Some (Some j))"
proof (cases "scan t (component s) (d + 1) (end_of t d)")
  case None
  then show ?thesis using assms by (simp add: walk_from.simps [of t d s] split: if_splits)
next
  case (Some r)
  then show ?thesis
    using assms
    by (cases r) (auto simp: walk_from.simps [of t d s] split: if_splits list.splits)
qed

lemma walk_path_length:
  assumes "tree t"
  shows "walk_from t d s = Some (Some j) \<Longrightarrow> e_dir (t_e t ! j) \<Longrightarrow> d < t_count t \<Longrightarrow> e_dir (t_e t ! d) \<Longrightarrow>
    path_length t d n \<Longrightarrow> path_length t j (n + length s + 1)"
proof (induction "length s" arbitrary: d s n rule: less_induct)
  case less
  note fwd = tree_parts(1) [OF assms]
  from walk_from_step [OF less.prems(1)] obtain k where k: "scan t (component s) (d + 1) (end_of t d) = Some (Some k)"
      "case drop (length (component s)) s of [] \<Rightarrow> k = j
       | c # rest \<Rightarrow> e_dir (t_e t ! k) \<and> walk_from t k rest = Some (Some j)"
    by blast
  note b = directory_block [OF assms less.prems(3,4)]
  have le: "end_of t d \<le> t_count t" using end_of_le [OF fwd less.prems(3,4)] .
  have kc: "0 < k" "k < t_count t" using scan_total [OF fwd _ le, of "d + 1" "component s"] k(1) le by auto
  have s: "length (component s) \<le> length s" "length (drop (length (component s)) s) = length s - length (component s)"
    by (simp_all add: component_def length_takeWhile_le)
  have step: "path_length t k (n + length (component s) + 1)" if dir: "e_dir (t_e t ! k)"
  proof -
    obtain x where "name_of t k = Some x" "length x = length (component s)" "e_a (t_e t ! k) = of_nat d"
      using scan_block [OF b, of "component s" k] k(1) dir by auto
    then show ?thesis using path_below [OF less.prems(5) kc less.prems(3) dir] by metis
  qed
  show ?case
  proof (cases "drop (length (component s)) s")
    case Nil
    then have "length s = length (component s)" using s by simp
    then show ?thesis using k(2) Nil step less.prems(2) by simp
  next
    case (Cons c rest)
    then have len: "length s = length (component s) + 1 + length rest" using s by simp
    have "path_length t j ((n + length (component s) + 1) + length rest + 1)"
      using less.hyps [of rest k "n + length (component s) + 1"] len k(2) Cons less.prems(2) kc step by simp
    then show ?thesis by (simp add: len add.assoc)
  qed
qed

text \<open>The chain the code prints is that path, cut to 32 directories.\<close>

fun names_length :: "table \<Rightarrow> nat list \<Rightarrow> nat option" where
  "names_length t [] = Some 0"
| "names_length t (d # ds) = do { nm \<leftarrow> name_of t d; n \<leftarrow> names_length t ds; Some (length nm + 1 + n) }"

lemma dir_chain_length:
  assumes "path_length t d n" "t_count t < 2 ^ 32" "t_count t \<le> length (t_e t)"
  shows "\<exists>ds k. dir_chain depth t d = Some ds \<and> names_length t ds = Some k \<and> k \<le> n"
  using assms(1)
proof (induction arbitrary: depth)
  case path_root
  then show ?case by (cases depth) auto
next
  case (path_below p n d nm)
  show ?case
  proof (cases depth)
    case (Suc m)
    obtain ds k where "dir_chain m t p = Some ds" "names_length t ds = Some k" "k \<le> n"
      using path_below.IH [of m] by blast
    moreover have "unat (of_nat p :: u32) = p"
      using path_below.hyps(4) assms(2) by (simp add: unsigned_of_nat take_bit_nat_eq_self)
    ultimately show ?thesis
      using path_below.hyps assms(3) by (auto simp: Suc)
  qed simp
qed

lemma print_dirs_total:
  assumes "names_length t ds = Some k" "used + k \<le> NAME_MAX_DISC * 2"
  shows "\<exists>out. print_dirs t ds (buf, used) = Some (out, used + k)"
  using assms
proof (induction ds arbitrary: buf used k)
  case (Cons d ds)
  then obtain nm n where nm: "name_of t d = Some nm" "names_length t ds = Some n" "k = length nm + 1 + n"
    by (auto simp: bind_eq_Some_conv)
  have "\<exists>buf1. print_at (buf, used) (nm @ [SLASH]) = Some (buf1, used + (length nm + 1))"
    using Cons.prems(2) nm(3) by (simp add: print_at_def)
  then obtain buf1 where "print_at (buf, used) (nm @ [SLASH]) = Some (buf1, used + (length nm + 1))" by blast
  then show ?case
    using Cons.IH [OF nm(2), of "used + (length nm + 1)" buf1] Cons.prems(2) nm by (auto simp: add.assoc)
qed simp

lemma names_length_rev: "names_length t (rev ds) = names_length t ds"
proof -
  have "names_length t (xs @ ys) = do { a \<leftarrow> names_length t xs; b \<leftarrow> names_length t ys; Some (a + b) }" for xs ys
    by (induction xs) (auto simp: bind_assoc split: bind_splits)
  then show ?thesis
    by (induction ds) (auto split: bind_splits)
qed

section \<open>What the pass keeps\<close>

text \<open>Every added entry stands in a directory of the disc whose path takes at most 255 bytes.\<close>

definition added_near :: "table \<Rightarrow> bool" where
  "added_near t \<longleftrightarrow> (\<forall>k. t_count t \<le> k \<and> k < length (t_e t) \<longrightarrow>
     (\<exists>d n. d < t_count t \<and> e_dir (t_e t ! d) \<and> e_add_dir (t_e t ! k) = int d \<and> path_length t d n \<and> n \<le> 255))"

definition safe_table :: "table \<Rightarrow> bool" where
  "safe_table t \<longleftrightarrow> tree t \<and> added_near t"

lemma path_length_mono:
  assumes "path_length t d n" "t_count t' = t_count t"
    and "\<And>i. i < t_count t \<Longrightarrow> e_dir (t_e t ! i) \<Longrightarrow> 0 < i \<Longrightarrow>
      e_dir (t_e t' ! i) \<and> e_a (t_e t' ! i) = e_a (t_e t ! i) \<and> name_of t' i = name_of t i"
  shows "path_length t' d n"
  using assms(1)
proof induction
  case (path_below p n d nm)
  then show ?case using assms(2,3) by (intro path_length.path_below) auto
qed (rule path_root)

lemma safe_replace:
  assumes "safe_table t" "i < t_count t" "\<not> e_dir (t_e t ! i)"
  shows "safe_table (replace_entry t i off len)"
proof -
  let ?t = "replace_entry t i off len"
  have n: "t_count t \<le> length (t_e t)" using assms(1) by (auto simp: safe_table_def tree_def forward_def)
  have same: "length (t_e ?t) = length (t_e t)" "t_count ?t = t_count t"
      "e_dir (t_e ?t ! k) = e_dir (t_e t ! k)" "e_add_dir (t_e ?t ! k) = e_add_dir (t_e t ! k)"
      "name_of ?t k = name_of t k" for k
    using assms(2) n by (auto simp: replace_entry_def name_of_def nth_list_update)
  have ea: "e_a (t_e ?t ! k) = e_a (t_e t ! k)" if "e_dir (t_e t ! k)" for k
    using that assms(3) by (cases "k = i") (simp_all add: replace_entry_def)
  have "path_length ?t d m" if "path_length t d m" for d m
    by (rule path_length_mono [OF that same(2)]) (simp_all add: same ea)
  then have "added_near ?t" using assms(1) unfolding safe_table_def added_near_def same by blast
  moreover have "tree ?t" using assms n by (intro tree_replace_file) (auto simp: safe_table_def)
  ultimately show ?thesis by (simp add: safe_table_def)
qed

lemma block_append: "block e p i j \<Longrightarrow> block (e @ xs) p i j"
proof (induction rule: block.induct)
  case (block_file i p j)
  show ?case by (rule block.block_file) (use block_file in \<open>simp_all add: nth_append\<close>)
next
  case (block_dir i p j)
  then have same: "(e @ xs) ! i = e ! i" by (simp add: nth_append)
  have "i < length (e @ xs)" using block_dir by simp
  then show ?case
    using block.block_dir [of i "e @ xs" p j, unfolded same, OF block_dir.hyps(1) _ block_dir.hyps(3-5) block_dir.IH] by simp
qed (rule block.block_end)

lemma cstr_of_append:
  assumes "cstr_of s i = Some x"
  shows "cstr_of (s @ ys) i = Some x"
proof -
  have "0 \<in> set (drop i s)" "i < length s" using assms by (auto simp: cstr_of_def split: if_splits)
  then have "takeWhile (\<lambda>c. c \<noteq> 0) (drop i s @ ys) = takeWhile (\<lambda>c. c \<noteq> 0) (drop i s)"
    using takeWhile_append1 [of 0 "drop i s" "\<lambda>c. c \<noteq> 0" ys] by simp
  then show ?thesis using assms \<open>i < length s\<close> by (auto simp: cstr_of_def split: if_splits)
qed

lemma safe_add:
  assumes "safe_table t" "d < t_count t" "e_dir (t_e t ! d)" "path_length t d n" "n \<le> 255"
  shows "safe_table (add_entry t d nm off len)"
proof -
  let ?t = "add_entry t d nm off len"
  note fwd = tree_parts(1) [of t]
  have t: "tree t" "added_near t" using assms(1) by (auto simp: safe_table_def)
  have len: "t_count t \<le> length (t_e t)" using fwd [OF t(1)] by (auto simp: forward_def)
  have same: "t_count ?t = t_count t" "length (t_e ?t) = Suc (length (t_e t))"
      "k < length (t_e t) \<Longrightarrow> t_e ?t ! k = t_e t ! k" for k
    by (simp_all add: add_entry_def nth_append)
  have names: "name_of ?t k = name_of t k" if "0 < k" "k < length (t_e t)" for k
    using that name_of_total [OF fwd [OF t(1)] that] by (auto simp: name_of_def same add_entry_def nth_append cstr_of_append)
  have "named ?t k" if "0 < k" "k < Suc (length (t_e t))" for k
  proof (cases "k < length (t_e t)")
    case True
    then have "named t k" using fwd [OF t(1)] that(1) by (simp add: forward_def)
    then show ?thesis using True by (auto simp: named_def same add_entry_def nth_append)
  next
    case False
    then have "k = length (t_e t)" using that(2) by simp
    then show ?thesis by (simp add: named_def add_entry_def nth_append)
  qed
  then have "forward ?t"
    using fwd [OF t(1)] len unfolding forward_def same
    by (auto simp: same add_entry_def nth_append less_Suc_eq)
  then have tree: "tree ?t"
    using t(1) block_append [of "t_e t" 0 1 "t_count t"] by (simp add: tree_def same) (simp add: add_entry_def)
  have path: "path_length ?t k m" if "path_length t k m" for k m
    using that same(1) by (rule path_length_mono) (use len names in \<open>auto simp: same\<close>)
  have "added_near ?t"
    unfolding added_near_def
  proof (intro allI impI)
    fix k assume k: "t_count ?t \<le> k \<and> k < length (t_e ?t)"
    show "\<exists>d n. d < t_count ?t \<and> e_dir (t_e ?t ! d) \<and> e_add_dir (t_e ?t ! k) = int d \<and> path_length ?t d n \<and> n \<le> 255"
    proof (cases "k < length (t_e t)")
      case True
      then obtain d' n' where "d' < t_count t" "e_dir (t_e t ! d')" "e_add_dir (t_e t ! k) = int d'"
          "path_length t d' n'" "n' \<le> 255"
        using t(2) k same(1) unfolding added_near_def by auto
      then show ?thesis using path True len by (intro exI [of _ d'] exI [of _ n']) (simp add: same)
    next
      case False
      then have "k = length (t_e t)" using k same(2) by simp
      then have "e_add_dir (t_e ?t ! k) = int d" by (simp add: add_entry_def)
      then show ?thesis using path [OF assms(4)] assms(2,3,5) len by (intro exI [of _ d] exI [of _ n]) (simp add: same)
    qed
  qed
  with tree show ?thesis by (simp add: safe_table_def)
qed

text \<open>The paths of added entries are printed inside their buffer.\<close>

lemma added_total:
  assumes "safe_table t"
  shows "\<exists>r. added t path = Some r \<and> (\<forall>i. r = Some i \<longrightarrow> i < length (t_e t))"
proof -
  have t: "tree t" "forward t" "t_count t \<le> length (t_e t)" "0 < t_count t" "t_count t < 2 ^ 32"
    using assms by (auto simp: safe_table_def tree_def forward_def)
  have one: "\<exists>full. added_path t i = Some full" if i: "t_count t \<le> i" "i < length (t_e t)" for i
  proof -
    obtain d n where d: "e_add_dir (t_e t ! i) = int d" "path_length t d n" "n \<le> 255"
      using assms i by (auto simp: safe_table_def added_near_def)
    obtain ds k where ds: "dir_chain 32 t d = Some ds" "names_length t ds = Some k" "k \<le> n"
      using dir_chain_length [OF d(2) t(5,3)] by blast
    have chain: "\<exists>ds k. (if e_add_dir (t_e t ! i) > 0 then dir_chain 32 t (nat (e_add_dir (t_e t ! i))) else Some []) = Some ds
        \<and> names_length t ds = Some k \<and> k \<le> 255"
      using ds d(1,3) by auto
    then obtain ds k where ds: "(if e_add_dir (t_e t ! i) > 0 then dir_chain 32 t (nat (e_add_dir (t_e t ! i))) else Some []) = Some ds"
        "names_length t (rev ds) = Some k" "k \<le> 255"
      by (auto simp: names_length_rev)
    obtain buf where buf: "print_dirs t (rev ds) ([], 0) = Some (buf, 0 + k)"
      using print_dirs_total [OF ds(2), of 0 "[]"] ds(3) by (auto simp: NAME_MAX_DISC_def)
    obtain nm where nm: "name_of t i = Some nm" using name_of_total [OF t(2) _ i(2)] t(4) i(1) by auto
    show ?thesis
      unfolding added_path_def ds(1) using buf nm ds(3) by (simp add: print_at_def NAME_MAX_DISC_def)
  qed
  have "\<exists>r. added_in t path is = Some r \<and> (\<forall>i. r = Some i \<longrightarrow> i \<in> set is)"
    if "\<forall>i\<in>set is. t_count t \<le> i \<and> i < length (t_e t)" for "is"
    using that
  proof (induction "is")
    case (Cons i "is")
    then obtain full where "added_path t i = Some full" using one by force
    then show ?case using Cons by auto
  qed simp
  from this [of "[t_count t..<length (t_e t)]"] show ?thesis by (auto simp: added_def)
qed

lemma find_path_total:
  assumes "safe_table t"
  shows "\<exists>r. find_path t path = Some r \<and> (\<forall>i. r = Some i \<longrightarrow> i < length (t_e t))"
proof -
  have t: "forward t" "t_count t \<le> length (t_e t)" using assms by (auto simp: safe_table_def tree_def forward_def)
  obtain r where r: "walk t path = Some r" "\<forall>j. r = Some j \<longrightarrow> j < t_count t" using walk_total [OF t(1)] by blast
  then show ?thesis using added_total [OF assms, of path] t(2) by (cases r) (auto simp: find_path_def)
qed

lemma home_of_total:
  assumes "safe_table t" "valid_path path"
  shows "\<exists>r. home_of t path = Some r \<and> (\<forall>d. r = Some d \<longrightarrow>
    d < t_count t \<and> e_dir (t_e t ! d) \<and> (\<exists>n. path_length t d n \<and> n \<le> 255))"
proof -
  have t: "tree t" "forward t" "0 < t_count t" using assms(1) by (auto simp: safe_table_def tree_def forward_def)
  obtain r where r: "walk t (dir_part path) = Some r" "\<forall>j. r = Some j \<longrightarrow> j < t_count t"
    using walk_total [OF t(2)] by blast
  have len: "length (dir_part path) \<le> 254"
  proof -
    have "length (dropWhile (\<lambda>c. c \<noteq> SLASH) (rev path)) \<le> 255"
      using assms(2) length_dropWhile_le [of "\<lambda>c. c \<noteq> SLASH" "rev path"] by (simp add: valid_path_def)
    then show ?thesis by (simp add: dir_part_def)
  qed
  have "\<exists>n. path_length t d n \<and> n \<le> 255" if d: "r = Some d" "e_dir (t_e t ! d)" for d
  proof (cases "dir_part path = []")
    case True
    then show ?thesis using r(1) d(1) path_root [of t] by (auto simp: walk_def)
  next
    case False
    then have "walk_from t 0 (dir_part path) = Some (Some d)" using r(1) d(1) by (simp add: walk_def)
    then have "path_length t d (0 + length (dir_part path) + 1)"
      using t by (intro walk_path_length [OF t(1) _ d(2) _ _ path_root]) (auto simp: forward_def)
    then show ?thesis using len by auto
  qed
  then show ?thesis using r by (cases r) (auto simp: home_of_def)
qed

section \<open>The build returns\<close>

definition safe_result :: "placed \<Rightarrow> bool" where
  "safe_result r \<longleftrightarrow> (case r of Placed s \<Rightarrow> safe_table (p_t s) | _ \<Rightarrow> True)"

lemma table_with_total:
  assumes "safe_table (p_t s)" "valid_path (op_path oper)"
  shows "\<exists>r. table_with s oper = Some r \<and> (\<forall>t. r = Some t \<longrightarrow> safe_table t)"
proof (cases "op_verb oper = Replace")
  case True
  have "forward (p_t s)" using assms(1) by (simp add: safe_table_def tree_def)
  then obtain r where "walk (p_t s) (op_path oper) = Some r" "\<forall>j. r = Some j \<longrightarrow> j < t_count (p_t s)"
    using walk_total by blast
  then show ?thesis using True safe_replace [OF assms(1)] by (cases r) (auto simp: table_with_def)
next
  case False
  obtain f where f: "find_path (p_t s) (op_path oper) = Some f" using find_path_total [OF assms(1)] by blast
  obtain h where h: "home_of (p_t s) (op_path oper) = Some h" "\<forall>d. h = Some d \<longrightarrow>
      d < t_count (p_t s) \<and> e_dir (t_e (p_t s) ! d) \<and> (\<exists>n. path_length (p_t s) d n \<and> n \<le> 255)"
    using home_of_total [OF assms] by blast
  show ?thesis
  proof (cases h)
    case None
    then show ?thesis using False f h(1) by (simp add: table_with_def)
  next
    case (Some d)
    then have "safe_table (add_entry (p_t s) d (last_part (op_path oper)) (of_nat (p_cursor s)) (op_size oper))"
      using h(2) safe_add [OF assms(1)] by blast
    then show ?thesis using False f h(1) Some by (simp add: table_with_def)
  qed
qed

lemma place_file_total:
  assumes "safe_table (p_t s)" "valid_path (op_path oper)"
  shows "\<exists>r. place_file k oper s = Some r \<and> safe_result r"
proof -
  obtain r where r: "table_with s oper = Some r" "\<forall>t. r = Some t \<longrightarrow> safe_table t"
    using table_with_total [OF assms] by blast
  then show ?thesis by (cases r) (simp_all add: place_file_def safe_result_def)
qed

lemma place_alias_total:
  assumes "safe_table (p_t s)" "valid_path (op_path oper)"
  shows "\<exists>r. place_alias k oper s = Some r \<and> safe_result r"
proof -
  obtain f where f: "find_path (p_t s) (op_path oper) = Some f" using find_path_total [OF assms(1)] by blast
  obtain g where g: "find_path (p_t s) (op_target oper) = Some g" using find_path_total [OF assms(1)] by blast
  obtain h where h: "home_of (p_t s) (op_path oper) = Some h" "\<forall>d. h = Some d \<longrightarrow>
      d < t_count (p_t s) \<and> e_dir (t_e (p_t s) ! d) \<and> (\<exists>n. path_length (p_t s) d n \<and> n \<le> 255)"
    using home_of_total [OF assms] by blast
  have add: "safe_table (add_entry (p_t s) d nm a b)" if "h = Some d" for d nm a b
    using that h(2) safe_add [OF assms(1)] by blast
  show ?thesis
    using f g h(1) add
    by (cases g; cases h) (simp_all add: place_alias_def safe_result_def Let_def)
qed

lemma place_op_total: "safe_table (p_t s) \<Longrightarrow> \<exists>r. place_op k s = Some r \<and> safe_result r"
  using place_file_total [of s "p_ops s ! k" k] place_alias_total [of s "p_ops s ! k" k]
  by (auto simp: place_op_def Let_def safe_result_def split: option.split)

lemma pass_loop_total:
  "safe_table (p_t s) \<Longrightarrow> \<exists>r s'. pass_loop order s = Some (r, s') \<and> (r = Built \<longrightarrow> safe_table (p_t s'))"
proof (induction order s rule: pass_loop.induct)
  case (2 first k rest s)
  show ?case
  proof (cases "skipped first (p_ops s ! k)")
    case False
    obtain r where r: "place_op k s = Some r" "safe_result r" using place_op_total [OF "2.prems"] by blast
    then show ?thesis using 2 False by (cases r) (auto simp: safe_result_def)
  qed (use 2 in auto)
qed auto

lemma build_loop_total:
  assumes "parse img = Inr t" "tree t"
  shows "\<exists>r s. build_loop img ops = Some (Inr (r, s)) \<and> r \<noteq> Again \<and> (r = Built \<longrightarrow> safe_table (p_t s))"
  using assms
proof (induction img ops rule: build_loop.induct)
  case (1 img ops)
  have "length (t_e t) = t_count t" using parse_ok [OF "1.prems"(1)] by simp
  then have "safe_table (p_t (pass_start t ops))" using "1.prems"(2) by (auto simp: safe_table_def added_near_def pass_start_def)
  then obtain r s where rs: "build_pass t ops = Some (r, s)" "r = Built \<longrightarrow> safe_table (p_t s)"
    using pass_loop_total [of "pass_start t ops" "pass_order (length ops)"] unfolding build_pass_def by blast
  show ?case
  proof (cases "r = Again")
    case True
    then show ?thesis
      using "1.IH" [OF "1.prems"(1) rs(1) refl True "1.prems"] rs(1) "1.prems"(1)
      by (simp add: build_loop.simps [of img ops])
  next
    case False
    then show ?thesis using rs "1.prems"(1) by (simp add: build_loop.simps [of img ops])
  qed
qed

lemma check_base_total:
  assumes "forward r" "\<forall>i\<in>set is. e_dir (t_e b ! i) \<or> base_path b i \<noteq> None"
  shows "check_base b r ops is \<noteq> None"
  using assms(2)
proof (induction "is")
  case (Cons i "is")
  show ?case
  proof (cases "e_dir (t_e b ! i)")
    case False
    then obtain path where path: "base_path b i = Some path" using Cons.prems by auto
    obtain place where "walk r path = Some place" using walk_total [OF assms(1)] by blast
    then show ?thesis using False path Cons by (cases place) (auto simp del: not_None_eq)
  qed (use Cons in simp)
qed simp

lemma check_placed_total:
  assumes "forward r"
  shows "check_placed r ops \<noteq> None"
proof (induction ops)
  case (Cons oper ops)
  obtain place where "walk r (op_path oper) = Some place" using walk_total [OF assms] by blast
  then show ?case using Cons by (cases place) (auto simp del: not_None_eq)
qed simp

lemma overlay_check_total:
  assumes "parse img = Inr b" "\<forall>i<t_count b. e_dir (t_e b ! i) \<or> base_path b i \<noteq> None"
  shows "disc_overlay_check img out ops \<noteq> None"
proof (cases "parse out")
  case (Inr r)
  have "check_base b r ops [1..<t_count b] \<noteq> None"
    using assms(2) by (intro check_base_total [OF parse_ok(6) [OF Inr]]) auto
  then show ?thesis
    using assms(1) Inr check_placed_total [OF parse_ok(6) [OF Inr], of ops]
    by (auto simp: disc_overlay_check_def)
qed (use assms in \<open>simp add: disc_overlay_check_def\<close>)

section \<open>Discs within the check's buffers\<close>

text \<open>The directories above and with entry \<open>d\<close>, told from the ranges alone. The check keeps the numbers of
  those above a file in an array of 32 and prints their names, a slash after each, to 512 bytes.\<close>

definition dirs_to :: "table \<Rightarrow> nat \<Rightarrow> nat list" where
  "dirs_to t d = filter (\<lambda>x. e_dir (t_e t ! x) \<and> d < unat (e_b (t_e t ! x))) [1..<Suc d]"

definition name_length :: "table \<Rightarrow> nat \<Rightarrow> nat" where
  "name_length t x = (case name_of t x of Some nm \<Rightarrow> length nm | None \<Rightarrow> 0)"

definition fits :: "table \<Rightarrow> bool" where
  "fits t \<longleftrightarrow> list_all (\<lambda>d. e_dir (t_e t ! d) \<longrightarrow>
      length (dirs_to t d) \<le> 32 \<and> sum_list (map (\<lambda>x. name_length t x + 1) (dirs_to t d)) \<le> 512) [1..<t_count t]"

lemma set_dirs_to: "set (dirs_to t d) = {x. 0 < x \<and> x \<le> d \<and> e_dir (t_e t ! x) \<and> d < unat (e_b (t_e t ! x))}"
  by (auto simp: dirs_to_def)

lemma distinct_dirs_to: "distinct (dirs_to t d)"
  by (simp add: dirs_to_def)

lemma length_within: "distinct xs \<Longrightarrow> set xs \<subseteq> set ys \<Longrightarrow> length xs \<le> length ys"
  by (metis List.finite_set card_length card_mono distinct_card le_trans)

lemma sum_within:
  fixes f :: "'a \<Rightarrow> nat"
  assumes "distinct xs" "distinct ys" "set xs \<subseteq> set ys"
  shows "sum_list (map f xs) \<le> sum_list (map f ys)"
  using sum_mono2 [of "set ys" "set xs" f] assms by (simp add: sum_list_distinct_conv_sum_set)

text \<open>What holds a file of a table is found, one directory in the other.\<close>

lemma holder_total:
  assumes "forward b" "0 < x" "limit \<le> t_count b"
  shows "\<exists>r. holder b i x limit = Some r
    \<and> (\<forall>y. r = Some y \<longrightarrow> x \<le> y \<and> y < i \<and> y < t_count b \<and> e_dir (t_e b ! y) \<and> i < unat (e_b (t_e b ! y)))"
  using assms(2)
proof (induction "t_count b - x" arbitrary: x rule: less_induct)
  case less
  show ?case
  proof (cases "x < limit \<and> x \<le> i")
    case True
    then have x: "x < t_count b" "x < length (t_e b)" using assms by (auto simp: forward_def)
    note a = after_forward [OF assms(1) less.prems x(1)]
    obtain r where "holder b i (after b x) limit = Some r"
        "\<forall>y. r = Some y \<longrightarrow> after b x \<le> y \<and> y < i \<and> y < t_count b \<and> e_dir (t_e b ! y) \<and> i < unat (e_b (t_e b ! y))"
      using less.hyps [of "after b x"] diff_less_mono2 [OF a(1) x(1)] less.prems a(1) by auto
    moreover have "x \<noteq> 0" using less.prems by simp
    ultimately show ?thesis
      using True x a by (simp add: holder.simps [of b i x limit]) fastforce
  next
    case False
    then show ?thesis by (simp only: holder.simps [of b i x limit] if_False) simp
  qed
qed

lemma holders_found:
  assumes "forward b"
  shows "d < t_count b \<Longrightarrow> e_dir (t_e b ! d) \<Longrightarrow>
    \<exists>ds. (\<forall>room. length ds \<le> room \<longrightarrow> holders room b i d = Some ds) \<and> sorted_wrt (<) (d # ds)
      \<and> (\<forall>x\<in>set ds. x < i \<and> x < t_count b \<and> e_dir (t_e b ! x) \<and> i < unat (e_b (t_e b ! x)))"
proof (induction "i - d" arbitrary: d rule: less_induct)
  case less
  show ?case
  proof (cases "d < i")
    case True
    have d: "d < length (t_e b)" using less.prems(1) assms by (auto simp: forward_def)
    have le: "end_of b d \<le> t_count b" using less.prems by (simp add: end_of_le [OF assms])
    obtain r where r: "holder b i (d + 1) (end_of b d) = Some r"
        "\<forall>y. r = Some y \<longrightarrow> d + 1 \<le> y \<and> y < i \<and> y < t_count b \<and> e_dir (t_e b ! y) \<and> i < unat (e_b (t_e b ! y))"
      using holder_total [OF assms _ le, of "d + 1" i] by auto
    show ?thesis
    proof (cases r)
      case None
      then show ?thesis using True d r(1) by (intro exI [of _ "[]"]) (simp add: holders.simps [of _ b i d])
    next
      case (Some y)
      then have y: "d < y" "y < i" "y < t_count b" "e_dir (t_e b ! y)" "i < unat (e_b (t_e b ! y))" using r(2) by auto
      have near: "i - y < i - d" using y(1,2) by simp
      from less.hyps [OF near y(3,4)] obtain ds where ds: "\<forall>room. length ds \<le> room \<longrightarrow> holders room b i y = Some ds" "sorted_wrt (<) (y # ds)"
          "\<forall>x\<in>set ds. x < i \<and> x < t_count b \<and> e_dir (t_e b ! x) \<and> i < unat (e_b (t_e b ! x))"
        by blast
      have "holders room b i d = Some (y # ds)" if "length (y # ds) \<le> room" for room
        using that True d r(1) Some ds(1) by (cases room) (simp_all add: holders.simps [of _ b i d])
      then show ?thesis using ds(2,3) y by (intro exI [of _ "y # ds"]) auto
    qed
  next
    case False
    then show ?thesis by (intro exI [of _ "[]"]) (simp add: holders.simps [of _ b i d])
  qed
qed

lemma names_length_sum:
  "\<forall>x\<in>set ds. name_of t x \<noteq> None \<Longrightarrow> names_length t ds = Some (sum_list (map (\<lambda>x. name_length t x + 1) ds))"
  by (induction ds) (auto simp: name_length_def)

lemma base_path_total:
  assumes "forward b" "fits b" "0 < i" "i < t_count b"
  shows "base_path b i \<noteq> None"
proof -
  have root: "0 < t_count b" "e_dir (t_e b ! 0)" "t_count b \<le> length (t_e b)" using assms(1) by (auto simp: forward_def)
  from holders_found [OF assms(1) root(1,2), of i] obtain ds where
    ds: "\<And>room. length ds \<le> room \<Longrightarrow> holders room b i 0 = Some ds" "sorted_wrt (<) (0 # ds)"
      "\<forall>x\<in>set ds. x < i \<and> x < t_count b \<and> e_dir (t_e b ! x) \<and> i < unat (e_b (t_e b ! x))" by blast
  have "length ds \<le> 32 \<and> sum_list (map (\<lambda>x. name_length b x + 1) ds) \<le> 512"
  proof (cases "ds = []")
    case False
    let ?d = "last ds"
    have d: "?d \<in> set ds" using False by simp
    have le: "x \<le> ?d" if "x \<in> set ds" for x
    proof -
      have "sorted_wrt (<) (butlast ds @ [?d])" using ds(2) False by simp
      then have "\<forall>y\<in>set (butlast ds). y < ?d" unfolding sorted_wrt_append by simp
      then show ?thesis using that False by (cases ds rule: rev_cases) auto
    qed
    have pos: "0 < x" if "x \<in> set ds" for x using ds(2) that by simp
    have sub: "set ds \<subseteq> set (dirs_to b ?d)"
    proof
      fix x assume x: "x \<in> set ds"
      have "?d < i" "e_dir (t_e b ! x)" "i < unat (e_b (t_e b ! x))" using ds(3) x d by blast+
      then show "x \<in> set (dirs_to b ?d)" using le [OF x] pos [OF x] by (simp add: set_dirs_to)
    qed
    have "distinct ds" using ds(2) strict_sorted_iff by auto
    moreover have "length (dirs_to b ?d) \<le> 32" "sum_list (map (\<lambda>x. name_length b x + 1) (dirs_to b ?d)) \<le> 512"
    proof -
      have "?d \<in> set [1..<t_count b]" "e_dir (t_e b ! ?d)" using ds(3) d pos [OF d] by auto
      then show "length (dirs_to b ?d) \<le> 32" "sum_list (map (\<lambda>x. name_length b x + 1) (dirs_to b ?d)) \<le> 512"
        using assms(2) unfolding fits_def list_all_iff by blast+
    qed
    ultimately show ?thesis
      using length_within [OF _ sub] sum_within [OF _ distinct_dirs_to sub] order_trans by blast
  qed simp
  then have fit: "length ds \<le> 32" "sum_list (map (\<lambda>x. name_length b x + 1) ds) \<le> 512" by simp_all
  have "name_of b x \<noteq> None" if "x \<in> set ds" for x
    using that ds(2,3) root(3) by (intro name_of_total [OF assms(1)]) auto
  then have nl: "names_length b ds = Some (sum_list (map (\<lambda>x. name_length b x + 1) ds))"
    by (intro names_length_sum) simp
  obtain out where out: "print_dirs b ds ([], 0) = Some (out, 0 + sum_list (map (\<lambda>x. name_length b x + 1) ds))"
    using print_dirs_total [OF nl, of 0 "[]"] fit(2) by (auto simp: NAME_MAX_DISC_def)
  obtain nm where "name_of b i = Some nm" using name_of_total [OF assms(1,3)] assms(4) root(3) by auto
  then show ?thesis
    using ds(1) [OF fit(1)] out fit(2) by (simp add: base_path_def print_at_def NAME_MAX_DISC_def)
qed


lemma small_fits: "fits small_table"
  by (simp add: fits_def small_table_def dirs_to_def name_length_def name_of_def cstr_of_def upt_conv_Cons)


end
