(* ===== verification/Spec2Isabelle.thy ===== *)
theory Spec2Isabelle
  imports Actions AramCache MslMem Irq SavExt Seed Interp ElfCheck Clock Sha1 VfstSafe
begin

text \<open>
  The port of a console game: the game's code is translated instruction by instruction to C, and
  a runtime in C (\<open>src/runtime\<close>) is the machine it runs on: memory, the devices behind the hardware
  registers, interrupts, the disc, the controllers. Around it the port adds what the console
  did not have: mods, saves anywhere, recordings of the controller, a clock that pauses. A few
  library units of the game are also rewritten in C from its code (\<open>src/src/sdk\<close>,
  \<open>src/src/soa\<close>). This development models the parts whose meaning is in integers, bytes, text and state,
  and proves what they promise. Every definition names its function of the source; where a name
  of Isabelle's library is taken the definition has a suffix or a describing name, and the
  functions of the decompiled units have the SDK's names in place of their addresses.

  \<^bold>\<open>How the parts are modelled.\<close> Integers are machine words and wrap (\<open>u8\<close> to \<open>u64\<close>, Prelude).
  The CPU with its memory is the record \<open>cpu\<close> (GuestMem), a function from addresses to
  bytes behind the masking of addresses; the static variables of the device files are a record in
  its \<open>user\<close> field that each theory extends (DevBase, Dsp, Aram, Exi, Irq; ModEvents, SaveNow,
  Events, Battle), so that a handler is a function from the state to the state and its result. Guest code,
  translated originals, the operating system, the renderer and the host's clock are parameters:
  functions on the same state, or inputs of the call. Every error path of the source is a value:
  \<open>option\<close> or a datatype of outcomes; an access outside an array is None where the code could make one
  (Vfst theories, ElfCheck). C strings are lists of characters. Loops are structural recursion
  or \<open>function\<close> with a measure; the ones that may not end are \<open>partial_function (option)\<close>
  (\<open>strlen\<close> and its kind, the asks of a replay) and are proved to return where they must. No
  definition uses fuel; the passes of the overlay's build end because each but the last refuses a
  mod. Messages to a person are left out.

  \<^bold>\<open>The machine.\<close>
  \<^item> GuestMem: \<open>cpu.h\<close>, the big-endian accessors, the aliases of an address, load and store multiple,
    the condition register, carries, shifts and division; stores stay in the image, \<open>lmw\<close> undoes \<open>stmw\<close>.
  \<^item> DevBase: the timebase, the DSP status register, and the interface \<open>mmio_device\<close> of a device that
    answers only in its window, interpreted for the DSP, ARAM and EXI models.
  \<^item> Dsp, Aram, ArLib, Arq: \<open>dsp.c\<close>, \<open>aram.c\<close>, \<open>ar.c\<close>, \<open>arq.c\<close>. The mailboxes and the protocol of the
    sound program, the audio DMA's clock, the DMA engine with its census of sources, the game's
    driver of it and its request queue: mails arrive in order, command lists are answered one by
    one, late polls catch up by exact periods, requests are served whole or in chunks.
  \<^item> ExiCard, Exi: \<open>exi.c\<close>, the memory card, the clock chip and the channels: the card keeps every byte
    through a power cycle, transfers complete, an interrupt is raised once.
  \<^item> Irq: \<open>irq.c\<close> and the accessors of \<open>hle.c\<close>: the dispatch of register accesses to the devices and the
    delivery of interrupts: transparent to the interrupted code, masked, complete.
  \<^item> Clock: \<open>clock.c\<close>, guest time as speed times host time less gaps and pauses.
  \<^item> VfstTable, VfstBuild, VfstLaws, VfstSafe: \<open>vfst.c\<close>, the file table of the disc rebuilt with the files
    of mods: an unchanged table comes out byte for byte, extents lie apart and in order, the
    game's own walk finds every file, on nested discs nothing leaves its array.

  \<^bold>\<open>The library units of the game.\<close>
  \<^item> Msl, MslStr, MslMem: the string and memory routines of \<open>sdk/msl\<close>, the word-at-a-time ones against
    the bytewise meaning.
  \<^item> AramCache: \<open>soa/aramcache*.c\<close>, the sixteen packages staged in ARAM; a fetch runs through Arq's queue.

  \<^bold>\<open>What the port adds.\<close>
  \<^item> ModEvents, ModClaims: \<open>mod.c\<close>, the guest memory a mod may write, the dispatch of events, and the content
    ids kept in \<open>mods.lock\<close>. Battle: \<open>battle.c\<close>, the battle events: without mods the translated
    functions, with mods only what the game can hold.
  \<^item> SaveNow, SavExt: \<open>savenow.c\<close> and \<open>savext.c\<close>, a save anywhere on the field and the chunks of mods inside
    the save file; what is saved is loaded, also by a port without the mods.
  \<^item> PadText, PadScript, PadTrack, PadReplay, PadRun, PadBack: \<open>si.c\<close>, the controller: scripts, the text of a
    recording, recording and replay. A channel of input is the list of its changes (PadRun), a
    recording run keeps that its text says what every read got, and a replaying run (PadBack)
    reads exactly that.
  \<^item> Events, Tick, Actions: \<open>eventtrack.h\<close>, \<open>tick.c\<close> and \<open>actions.c\<close>, the top of a frame. A file that applies
    recorded events relies on the interface \<open>event_source\<close> (texts due at a frame, each given
    once, in order), which the replay of \<open>si.c\<close> is shown to be, alone and inside the guest state.
    The tick is the game's own but where it lets a frame go; turbo follows the recording;
    a replayed action does to memory what the recorded one did.
  \<^item> Seed, Interp, ElfCheck, Sha1: \<open>seed.c\<close>, \<open>interp_rate.h\<close> and \<open>interp_budget.h\<close>, \<open>elfcheck.c\<close>, \<open>sha1.c\<close>: pinned
    random seeds, the number of in-between images, the check of a game library before it is loaded,
    and the digest equal to the standard's.

  \<^bold>\<open>Not modelled.\<close> The renderer (\<open>gx*.c\<close>, \<open>gxr*.c\<close>, \<open>gxv.c\<close>), the sound mixer (\<open>ax.c\<close>), the matrix
  library and the fused multiply-add compute in floating point, or call a driver; the windows, audio output, platform
  and import files are calls of the host; \<open>threads.c\<close> moves host stacks; \<open>main.c\<close>, \<open>settings.c\<close>
  and \<open>menu.c\<close> start and configure the parts; traces, reports and pictures only print; \<open>selftest.c\<close>
  and the tools are tests. Concurrency is modelled where the code has it as single steps: a
  request from another thread is one change of the state between two calls.
\<close>

end
